(* ===== verification/RM_Prelude.thy ===== *)
theory RM_Prelude
  imports Main "HOL-Library.Sublist"
begin

text \<open>
  What the components share: errors of the C++ run time as values, the sequencing of
  computations that can fail, and the part of \<^verbatim>\<open>std::string\<close> the sources use, with
  \<^verbatim>\<open>size_t\<close> arithmetic (64 bits, wrap-around written out) where a search may return
  \<^verbatim>\<open>npos\<close> and the caller goes on computing with it.
\<close>

named_theorems rm_defs \<open>definitions that the component proofs unfold\<close>
named_theorems rm_find \<open>what the string searches return\<close>

section \<open>Errors and sequencing\<close>

text \<open>
  \<open>Out_Of_Range\<close> is the exception of \<^verbatim>\<open>std::string::substr\<close>, \<open>Null_Pointer\<close> a
  dereference of a null pointer, \<open>Bad_Index\<close> an access beyond the end of a string or
  buffer and \<open>Uninitialised\<close> the use of a variable that was never set (undefined
  behaviour in C++; the model stops there), \<open>Killed\<close> the end of the process by a signal.
\<close>

datatype cpp_error = Out_Of_Range | Null_Pointer | Bad_Index | Uninitialised | Killed

type_synonym 'a res = "cpp_error + 'a"

definition ebind :: "'e + 'a \<Rightarrow> ('a \<Rightarrow> 'e + 'b) \<Rightarrow> 'e + 'b" where
  "ebind m f = (case m of Inl e \<Rightarrow> Inl e | Inr x \<Rightarrow> f x)"

lemma ebind_simps [simp]:
  "ebind (Inl e) f = Inl e"
  "ebind (Inr x) f = f x"
  by (simp_all add: ebind_def)

lemma ebind_cong [fundef_cong]:
  assumes "m = m'" and "\<And>x. m' = Inr x \<Longrightarrow> f x = f' x"
  shows "ebind m f = ebind m' f'"
  using assms by (cases m') simp_all

lemma ebind_Inr_iff: "ebind m f = Inr y \<longleftrightarrow> (\<exists>x. m = Inr x \<and> f x = Inr y)"
  by (cases m) simp_all

lemma ebind_Inl_iff: "ebind m f = Inl e \<longleftrightarrow> m = Inl e \<or> (\<exists>x. m = Inr x \<and> f x = Inl e)"
  by (cases m) auto

lemma ebind_assoc: "ebind (ebind m f) g = ebind m (\<lambda>x. ebind (f x) g)"
  by (cases m) simp_all

section \<open>Unsigned 64-bit sizes\<close>

definition sz_max :: nat where
  "sz_max = 18446744073709551616"

definition npos :: nat where
  "npos = 18446744073709551615"

definition sz_add :: "nat \<Rightarrow> nat \<Rightarrow> nat" where
  "sz_add a b = (a + b) mod sz_max"

definition sz_sub :: "nat \<Rightarrow> nat \<Rightarrow> nat" where
  "sz_sub a b = (a + (sz_max - b mod sz_max)) mod sz_max"

lemma npos_less_sz_max: "npos < sz_max"
  by (simp add: npos_def sz_max_def)

lemma sz_add_small [simp]: "a + b < sz_max \<Longrightarrow> sz_add a b = a + b"
  by (simp add: sz_add_def)

lemma sz_sub_small [simp]:
  assumes "b \<le> a" "a < sz_max"
  shows "sz_sub a b = a - b"
proof -
  have "(a - b + sz_max) mod sz_max = (a - b) mod sz_max" by (rule mod_add_self2)
  also have "\<dots> = a - b" using assms by (intro mod_less) simp
  finally have "(a - b + sz_max) mod sz_max = a - b" .
  moreover have "a + (sz_max - b mod sz_max) = a - b + sz_max" using assms by simp
  ultimately show ?thesis unfolding sz_sub_def by simp
qed

lemma sz_sub_zero_one: "sz_sub 0 1 = npos"
  by (simp add: sz_sub_def sz_max_def npos_def)

text \<open>
  \<open>npos + 2\<close> is 1: what \<^verbatim>\<open>r.find(":-") + 2\<close> is when there is no such substring.
\<close>

lemma sz_add_npos_2: "sz_add npos 2 = 1"
  by (simp add: sz_add_def sz_max_def npos_def)

text \<open>
  No string reaches \<^verbatim>\<open>npos\<close> characters (\<^verbatim>\<open>std::string::max_size\<close> is smaller).
\<close>

abbreviation fits :: "'a list \<Rightarrow> bool" where
  "fits s \<equiv> length s < npos"

lemma fits_sz: "fits s \<Longrightarrow> length s < sz_max"
  by (simp add: npos_def sz_max_def)

section \<open>Searching\<close>

fun find_aux :: "'a list \<Rightarrow> 'a list \<Rightarrow> nat \<Rightarrow> nat option" where
  "find_aux p [] k = (if p = [] then Some k else None)"
| "find_aux p (c # cs) k = (if prefix p (c # cs) then Some k else find_aux p cs (Suc k))"

text \<open>\<^verbatim>\<open>s.find(p)\<close> and \<^verbatim>\<open>s.find(p, from)\<close>.\<close>

definition str_find :: "'a list \<Rightarrow> 'a list \<Rightarrow> nat" where
  "str_find s p = (case find_aux p s 0 of None \<Rightarrow> npos | Some i \<Rightarrow> i)"

definition str_find_from :: "'a list \<Rightarrow> 'a list \<Rightarrow> nat \<Rightarrow> nat" where
  "str_find_from s p from =
     (if length s < from then npos
      else case find_aux p (drop from s) from of None \<Rightarrow> npos | Some i \<Rightarrow> i)"

text \<open>\<^verbatim>\<open>s.find_first_of(cs)\<close> and \<^verbatim>\<open>s.find_last_of(cs)\<close>: the argument is a set of characters.\<close>

fun first_of_aux :: "'a list \<Rightarrow> 'a list \<Rightarrow> nat \<Rightarrow> nat option" where
  "first_of_aux cs [] k = None"
| "first_of_aux cs (x # xs) k = (if x \<in> set cs then Some k else first_of_aux cs xs (Suc k))"

definition str_find_first_of :: "'a list \<Rightarrow> 'a list \<Rightarrow> nat" where
  "str_find_first_of s cs = (case first_of_aux cs s 0 of None \<Rightarrow> npos | Some i \<Rightarrow> i)"

definition str_find_last_of :: "'a list \<Rightarrow> 'a list \<Rightarrow> nat" where
  "str_find_last_of s cs =
     (case first_of_aux cs (rev s) 0 of None \<Rightarrow> npos | Some i \<Rightarrow> length s - 1 - i)"

text \<open>\<^verbatim>\<open>s.substr(pos, n)\<close> throws when \<open>pos\<close> is beyond the end and cuts \<open>n\<close> otherwise.\<close>

definition str_substr :: "'a list \<Rightarrow> nat \<Rightarrow> nat \<Rightarrow> 'a list res" where
  "str_substr s pos n = (if length s < pos then Inl Out_Of_Range else Inr (take n (drop pos s)))"

subsection \<open>What the searches return\<close>

lemma sublist_singleton: "sublist [x] s \<longleftrightarrow> x \<in> set s"
  by (induction s) (auto simp: sublist_Cons_right)

lemma find_aux_None: "find_aux p s k = None \<longleftrightarrow> \<not> sublist p s"
  by (induction p s k rule: find_aux.induct) (auto simp: sublist_Cons_right)

lemma find_aux_shift: "find_aux p s (j + k) = map_option ((+) j) (find_aux p s k)"
  by (induction p s k rule: find_aux.induct) (simp_all flip: add_Suc_right)

lemma find_aux_Some:
  "find_aux p s k = Some i \<Longrightarrow>
     k \<le> i \<and> i - k \<le> length s \<and> prefix p (drop (i - k) s) \<and> (\<forall>j < i - k. \<not> prefix p (drop j s))"
proof (induction p s k rule: find_aux.induct)
  case (1 p k)
  then show ?case by (simp split: if_splits)
next
  case (2 p c cs k)
  show ?case
  proof (cases "prefix p (c # cs)")
    case True
    with 2 show ?thesis by simp
  next
    case False
    with 2 have IH: "Suc k \<le> i" "i - Suc k \<le> length cs" "prefix p (drop (i - Suc k) cs)"
      "\<forall>j < i - Suc k. \<not> prefix p (drop j cs)" by auto
    have "i - k = Suc (i - Suc k)" using IH(1) by simp
    moreover have "\<not> prefix p (drop j (c # cs))" if "j < Suc (i - Suc k)" for j
      using that IH(4) False by (cases j) auto
    ultimately show ?thesis using IH by auto
  qed
qed

lemma find_aux_split:
  assumes "find_aux p s 0 = Some i"
  shows "s = take i s @ p @ drop (i + length p) s"
proof -
  from find_aux_Some [OF assms] have "prefix p (drop i s)" by simp
  then obtain t where t: "drop i s = p @ t" by (auto simp: prefix_def)
  then have "drop (i + length p) s = t" by (metis add.commute append_eq_conv_conj drop_drop)
  with t show ?thesis by (metis append_take_drop_id)
qed

lemma find_aux_bound:
  assumes "find_aux p s 0 = Some i"
  shows "i + length p \<le> length s"
proof -
  from find_aux_Some [OF assms] have "prefix p (drop i s)" "i \<le> length s" by auto
  then show ?thesis by (metis add.commute le_diff_conv2 length_drop prefix_length_le)
qed

lemma find_aux_first:
  assumes "\<not> sublist p (butlast (a @ p))"
  shows "find_aux p (a @ p @ b) k = Some (k + length a)"
  using assms
proof (induction a arbitrary: k)
  case Nil
  have "prefix p (p @ b)" by simp
  then show ?case by (cases "p @ b") auto
next
  case (Cons x a)
  have ne: "p \<noteq> []" using Cons.prems by auto
  have "\<not> prefix p (x # a @ p @ b)"
  proof
    assume "prefix p (x # a @ p @ b)"
    then have "take (length p) (x # a @ p @ b) = p" by (metis append_eq_conv_conj prefix_def)
    moreover have "length p \<le> length (butlast (x # a @ p))" using ne by (simp add: Suc_leI)
    then have "take (length p) (x # a @ p @ b) = take (length p) (butlast (x # a @ p))"
      using ne by (simp add: butlast_append take_butlast flip: append_assoc append_Cons)
    ultimately have "prefix p (butlast (x # a @ p))" by (metis take_is_prefix)
    with Cons.prems show False by (simp add: prefix_imp_sublist)
  qed
  moreover have "\<not> sublist p (butlast (a @ p))"
    using Cons.prems ne by (auto simp: sublist_Cons_right)
  ultimately show ?case using Cons.IH [of "Suc k"] by simp
qed

lemma str_find_first [rm_find]:
  "\<not> sublist p (butlast (a @ p)) \<Longrightarrow> str_find (a @ p @ b) p = length a"
  by (simp add: str_find_def find_aux_first)

lemma str_find_npos [rm_find]: "\<not> sublist p s \<Longrightarrow> str_find s p = npos"
  using find_aux_None [of p s 0] by (simp add: str_find_def)

lemma str_find_cases:
  assumes "fits s"
  obtains (npos) "str_find s p = npos" "\<not> sublist p s"
  | (found) "str_find s p \<noteq> npos" "str_find s p + length p \<le> length s"
      "s = take (str_find s p) s @ p @ drop (str_find s p + length p) s"
      "\<forall>j < str_find s p. \<not> prefix p (drop j s)" "sublist p s"
proof (cases "find_aux p s 0")
  case None
  then show ?thesis using npos find_aux_None [of p s 0] by (simp add: str_find_def)
next
  case (Some i)
  then have eq: "str_find s p = i" by (simp add: str_find_def)
  from find_aux_bound [OF Some] assms have "i \<noteq> npos" by auto
  moreover have "sublist p s" using Some find_aux_None [of p s 0] by auto
  ultimately show ?thesis
    using found find_aux_bound [OF Some] find_aux_split [OF Some] find_aux_Some [OF Some] eq
    by auto
qed

lemma str_find_npos_iff: "fits s \<Longrightarrow> str_find s p = npos \<longleftrightarrow> \<not> sublist p s"
  by (rule str_find_cases [of s p]) auto

lemma first_of_aux_None: "first_of_aux cs s k = None \<longleftrightarrow> set s \<inter> set cs = {}"
  by (induction cs s k rule: first_of_aux.induct) auto

lemma first_of_aux_append:
  "set a \<inter> set cs = {} \<Longrightarrow> x \<in> set cs \<Longrightarrow> first_of_aux cs (a @ x # b) k = Some (k + length a)"
  by (induction a arbitrary: k) auto

lemma str_find_first_of_append [rm_find]:
  "set a \<inter> set cs = {} \<Longrightarrow> x \<in> set cs \<Longrightarrow> str_find_first_of (a @ x # b) cs = length a"
  by (simp add: str_find_first_of_def first_of_aux_append)

lemma str_find_first_of_npos [rm_find]:
  "set s \<inter> set cs = {} \<Longrightarrow> str_find_first_of s cs = npos"
  using first_of_aux_None [of cs s 0] by (simp add: str_find_first_of_def)

lemma str_find_last_of_append [rm_find]:
  "set b \<inter> set cs = {} \<Longrightarrow> x \<in> set cs \<Longrightarrow> str_find_last_of (a @ x # b) cs = length a"
  using first_of_aux_append [of "rev b" cs x "rev a" 0]
  by (simp add: str_find_last_of_def)

lemma str_substr_Inr [simp]: "pos \<le> length s \<Longrightarrow> str_substr s pos n = Inr (take n (drop pos s))"
  by (simp add: str_substr_def)

lemma str_substr_Inl: "length s < pos \<Longrightarrow> str_substr s pos n = Inl Out_Of_Range"
  by (simp add: str_substr_def)

lemma str_substr_eq_InrD: "str_substr s pos n = Inr t \<Longrightarrow> pos \<le> length s \<and> t = take n (drop pos s)"
  by (auto simp: str_substr_def split: if_splits)

lemma str_substr_length: "str_substr s pos n = Inr t \<Longrightarrow> length t \<le> length s - pos"
  by (auto dest!: str_substr_eq_InrD)

section \<open>Joining\<close>

text \<open>\<open>join sep [a, b, c]\<close> is \<open>a @ sep @ b @ sep @ c\<close>.\<close>

fun join :: "'a list \<Rightarrow> 'a list list \<Rightarrow> 'a list" where
  "join sep [] = []"
| "join sep [x] = x"
| "join sep (x # y # zs) = x @ sep @ join sep (y # zs)"

lemma join_Cons: "xs \<noteq> [] \<Longrightarrow> join sep (x # xs) = x @ sep @ join sep xs"
  by (cases xs) simp_all

lemma join_snoc: "xs \<noteq> [] \<Longrightarrow> join sep (xs @ [y]) = join sep xs @ sep @ y"
  by (induction sep xs rule: join.induct) (simp_all add: join_Cons)

end
