(* ===== verification/Antlr_Input.thy ===== *)
theory Antlr_Input
  imports RM_Prelude
begin

text \<open>
  The 8 bit input stream of the ANTLR run time, \<^verbatim>\<open>antlr3inputstream.c\<close>, and the simulation
  of a cyclic lookahead automaton over it, \<^verbatim>\<open>antlr3cyclicdfa.c\<close>, both under
  \<^verbatim>\<open>src/antlr/libantlr3c-3.4/src\<close>. Positions are offsets from the start of the data. A
  mark is the saved state itself.

  The automata run on any stream that offers \<^verbatim>\<open>LA\<close> and \<^verbatim>\<open>consume\<close>: the interface
  \<open>int_stream\<close> states what they rely on. The stream of characters implements it here, the stream of
  tokens in another theory. For automata whose ``end of token'' edges lead to accepting states, which those that ANTLR
  generates do, the simulation is shown to end on every input and to compute a function of the
  characters that remain.
\<close>

section \<open>The stream\<close>

record input8 =
  in_data :: string
  in_next :: nat
  in_line :: nat
  in_charPos :: int
  in_currentLine :: nat

definition antlr3InputReset :: "string \<Rightarrow> input8" where
  "antlr3InputReset s = \<lparr>in_data = s, in_next = 0, in_line = 1, in_charPos = -1, in_currentLine = 0\<rparr>"

definition ANTLR3_CHARSTREAM_EOF :: int where
  "ANTLR3_CHARSTREAM_EOF = 4294967295"

definition antlr38BitConsume :: "input8 \<Rightarrow> input8" where
  "antlr38BitConsume is =
     (if in_next is < length (in_data is) then
        let is1 = is\<lparr>in_charPos := in_charPos is + 1\<rparr>;
            is2 = (if in_data is ! in_next is = CHR ''\<newline>''
                   then is1\<lparr>in_line := in_line is1 + 1, in_charPos := 0, in_currentLine := in_next is1 + 1\<rparr> else is1)
        in is2\<lparr>in_next := in_next is2 + 1\<rparr>
      else is)"

definition antlr38BitLA :: "input8 \<Rightarrow> nat \<Rightarrow> int" where
  "antlr38BitLA is la =
     (if length (in_data is) \<le> in_next is + la - 1 then ANTLR3_CHARSTREAM_EOF
      else of_char (in_data is ! (in_next is + la - 1)))"

definition antlr38BitIndex :: "input8 \<Rightarrow> nat" where
  "antlr38BitIndex is = in_next is"

definition antlr38BitMark :: "input8 \<Rightarrow> input8" where
  "antlr38BitMark is = is"

definition antlr38BitRewind :: "input8 \<Rightarrow> input8 \<Rightarrow> input8" where
  "antlr38BitRewind mark is =
     is\<lparr>in_charPos := in_charPos mark, in_currentLine := in_currentLine mark, in_line := in_line mark,
        in_next := in_next mark\<rparr>"

text \<open>\<^verbatim>\<open>substr\<close> from the character at \<open>start\<close> to the one at \<open>stop\<close>, both included.\<close>

definition antlr38BitSubstr :: "input8 \<Rightarrow> nat \<Rightarrow> int \<Rightarrow> string" where
  "antlr38BitSubstr is start stop = take (nat (stop - int start + 1)) (drop start (in_data is))"

text \<open>What is left to read.\<close>

abbreviation rest :: "input8 \<Rightarrow> string" where
  "rest is \<equiv> drop (in_next is) (in_data is)"

lemma LA_Nil [simp]: "rest is = [] \<Longrightarrow> antlr38BitLA is (Suc 0) = ANTLR3_CHARSTREAM_EOF"
  by (simp add: antlr38BitLA_def)

lemma LA_Cons [simp]:
  assumes "rest is = c # cs"
  shows "antlr38BitLA is (Suc 0) = of_char c"
proof -
  have l: "in_next is < length (in_data is)" using assms by (metis drop_all list.distinct(1) not_le)
  then have "in_data is ! in_next is = c" using assms by (metis Cons_nth_drop_Suc list.inject)
  with l show ?thesis by (simp add: antlr38BitLA_def)
qed

lemma consume_data [simp]: "in_data (antlr38BitConsume is) = in_data is"
  by (simp add: antlr38BitConsume_def Let_def)

lemma consume_Nil [simp]: "rest is = [] \<Longrightarrow> antlr38BitConsume is = is"
  by (simp add: antlr38BitConsume_def)

lemma consume_Cons:
  assumes "rest is = c # cs"
  shows "in_next (antlr38BitConsume is) = Suc (in_next is)" "rest (antlr38BitConsume is) = cs"
proof -
  have "in_next is < length (in_data is)" using assms by (metis drop_all list.distinct(1) not_le)
  then show "in_next (antlr38BitConsume is) = Suc (in_next is)"
    by (simp add: antlr38BitConsume_def Let_def)
  then show "rest (antlr38BitConsume is) = cs" using assms by (metis consume_data drop_Suc list.sel(3) tl_drop)
qed

lemma consume_next_le: "in_next is \<le> in_next (antlr38BitConsume is)"
  by (simp add: antlr38BitConsume_def Let_def)

lemma consume_next_bound: "in_next is \<le> length (in_data is) \<Longrightarrow> in_next (antlr38BitConsume is) \<le> length (in_data is)"
  by (auto simp: antlr38BitConsume_def Let_def)

lemma rewind_mark: "in_data is' = in_data is \<Longrightarrow> antlr38BitRewind (antlr38BitMark is) is' = is"
  by (simp add: antlr38BitRewind_def antlr38BitMark_def)

section \<open>Automata\<close>

text \<open>The tables of \<^verbatim>\<open>ANTLR3_CYCLIC_DFA\<close>; a null row of the transition table is \<open>None\<close>.\<close>

record cyclic_dfa =
  dfa_eot :: "int list"
  dfa_eof :: "int list"
  dfa_min :: "int list"
  dfa_max :: "int list"
  dfa_accept :: "int list"
  dfa_special :: "int list"
  dfa_transition :: "int list option list"

definition at :: "'a list \<Rightarrow> int \<Rightarrow> 'a" where
  "at xs i = xs ! nat i"

datatype dfa_action = Goto int | Alt int | No_Viable_Alt

text \<open>
  One round of the loop in \<^verbatim>\<open>antlr3dfapredict\<close>, for the state \<open>s\<close> and the next character
  (as a signed number, \<open>-1\<close> at the end). The default \<^verbatim>\<open>specialStateTransition\<close> returns
  \<open>-1\<close>, which is an error.
\<close>

definition dfa_step :: "cyclic_dfa \<Rightarrow> int \<Rightarrow> int \<Rightarrow> dfa_action" where
  "dfa_step d s c =
     (if 0 \<le> at (dfa_special d) s then No_Viable_Alt
      else if 1 \<le> at (dfa_accept d) s then Alt (at (dfa_accept d) s)
      else if at (dfa_min d) s \<le> c \<and> c \<le> at (dfa_max d) s then
        let snext = at (the (at (dfa_transition d) s)) (c - at (dfa_min d) s) in
        if snext < 0 then
          if 0 \<le> at (dfa_eot d) s then Goto (at (dfa_eot d) s) else No_Viable_Alt
        else Goto snext
      else if 0 \<le> at (dfa_eot d) s then Goto (at (dfa_eot d) s)
      else if c = -1 \<and> 0 \<le> at (dfa_eof d) s then Alt (at (dfa_accept d) (at (dfa_eof d) s))
      else No_Viable_Alt)"

definition to_int32 :: "int \<Rightarrow> int" where
  "to_int32 u = (if u < 2147483648 then u else u - 4294967296)"

partial_function (option) dfa_loop :: "('s \<Rightarrow> int) \<Rightarrow> ('s \<Rightarrow> 's) \<Rightarrow> cyclic_dfa \<Rightarrow> 's \<Rightarrow> int \<Rightarrow> int option option" where
  "dfa_loop la consume d is s =
     (case dfa_step d s (to_int32 (la is)) of
        Goto s' \<Rightarrow> dfa_loop la consume d (consume is) s'
      | Alt a \<Rightarrow> Some (Some a)
      | No_Viable_Alt \<Rightarrow> Some None)"

text \<open>
  \<^verbatim>\<open>antlr3dfapredict\<close> on the stream with the functions \<open>la\<close> (of one symbol) and \<open>consume\<close>: the
  alternative, or \<open>None\<close> with the exception raised; either way the input is rewound to the mark,
  so that nothing of the stream is returned.
\<close>

definition antlr3dfapredict :: "('s \<Rightarrow> int) \<Rightarrow> ('s \<Rightarrow> 's) \<Rightarrow> cyclic_dfa \<Rightarrow> 's \<Rightarrow> int option option" where
  "antlr3dfapredict la consume d is = dfa_loop la consume d is 0"

section \<open>The simulation as a function of the remaining symbols\<close>

fun dfa_walk :: "cyclic_dfa \<Rightarrow> int \<Rightarrow> int list \<Rightarrow> int option" where
  "dfa_walk d s [] =
     (case dfa_step d s (-1) of
        Alt a \<Rightarrow> Some a
      | Goto s' \<Rightarrow> Some (at (dfa_accept d) s')
      | No_Viable_Alt \<Rightarrow> None)"
| "dfa_walk d s (c # cs) =
     (case dfa_step d s c of
        Alt a \<Rightarrow> Some a
      | Goto s' \<Rightarrow> dfa_walk d s' cs
      | No_Viable_Alt \<Rightarrow> None)"

text \<open>The same on characters.\<close>

fun dfa_run :: "cyclic_dfa \<Rightarrow> int \<Rightarrow> string \<Rightarrow> int option" where
  "dfa_run d s [] =
     (case dfa_step d s (-1) of
        Alt a \<Rightarrow> Some a
      | Goto s' \<Rightarrow> Some (at (dfa_accept d) s')
      | No_Viable_Alt \<Rightarrow> None)"
| "dfa_run d s (c # cs) =
     (case dfa_step d s (of_char c) of
        Alt a \<Rightarrow> Some a
      | Goto s' \<Rightarrow> dfa_run d s' cs
      | No_Viable_Alt \<Rightarrow> None)"

text \<open>
  Well-formed tables: equally long, every target a state, every row as long as its range, no
  special states, no character below zero in a range, and ``end of token'' edges lead to
  accepting states. All array accesses of the simulation are then inside the tables.
\<close>

definition wf_state :: "cyclic_dfa \<Rightarrow> nat \<Rightarrow> bool" where
  "wf_state d s \<longleftrightarrow> dfa_special d ! s < 0 \<and> dfa_eof d ! s < 0 \<and>
     dfa_eot d ! s < int (length (dfa_eot d)) \<and> (0 \<le> dfa_eot d ! s \<longrightarrow> 1 \<le> dfa_accept d ! nat (dfa_eot d ! s)) \<and>
     (case dfa_transition d ! s of
        None \<Rightarrow> 1 \<le> dfa_accept d ! s
      | Some row \<Rightarrow> 0 \<le> dfa_min d ! s \<and> int (length row) = dfa_max d ! s - dfa_min d ! s + 1 \<and>
          list_all (\<lambda>t. t < int (length (dfa_eot d))) row)"

definition wf_dfa :: "cyclic_dfa \<Rightarrow> bool" where
  "wf_dfa d \<longleftrightarrow> (let n = length (dfa_eot d) in 0 < n \<and> length (dfa_eof d) = n \<and> length (dfa_min d) = n \<and>
     length (dfa_max d) = n \<and> length (dfa_accept d) = n \<and> length (dfa_special d) = n \<and>
     length (dfa_transition d) = n \<and> list_all (wf_state d) [0..<n])"

lemma wf_dfa_state: "wf_dfa d \<Longrightarrow> s < length (dfa_eot d) \<Longrightarrow> wf_state d s"
  by (auto simp: wf_dfa_def Let_def list_all_iff)

lemma dfa_step_Goto:
  assumes "wf_dfa d" "0 \<le> s" "s < int (length (dfa_eot d))" "dfa_step d s c = Goto s'"
  shows "0 \<le> s' \<and> s' < int (length (dfa_eot d)) \<and> (c = -1 \<longrightarrow> 1 \<le> at (dfa_accept d) s')"
proof -
  have w: "wf_state d (nat s)" using assms(1-3) by (intro wf_dfa_state) auto
  show ?thesis
  proof (cases "at (dfa_min d) s \<le> c \<and> c \<le> at (dfa_max d) s \<and> \<not> 1 \<le> at (dfa_accept d) s")
    case False
    then show ?thesis using assms(4) w by (auto simp: dfa_step_def wf_state_def at_def split: if_splits)
  next
    case True
    then obtain row where row: "dfa_transition d ! nat s = Some row"
      using w by (auto simp: wf_state_def at_def split: option.splits)
    let ?k = "nat (c - dfa_min d ! nat s)"
    have k: "?k < length row" "0 \<le> c" using w row True by (auto simp: wf_state_def at_def nat_less_iff)
    then have "row ! ?k < int (length (dfa_eot d))" using w row by (auto simp: wf_state_def list_all_length)
    then show ?thesis
      using assms(4) w row True k(2) by (auto simp: dfa_step_def Let_def wf_state_def at_def split: if_splits)
  qed
qed

lemma wf_dfa_accepting:
  assumes "wf_dfa d" "0 \<le> s" "s < int (length (dfa_eot d))" "1 \<le> at (dfa_accept d) s"
  shows "dfa_step d s c = Alt (at (dfa_accept d) s)"
proof -
  have "wf_state d (nat s)" using assms(1-3) by (intro wf_dfa_state) auto
  with assms(4) show ?thesis by (simp add: dfa_step_def wf_state_def at_def)
qed

lemma to_int32_char [simp]: "to_int32 (of_char c) = of_char c"
proof -
  have "(of_char c :: nat) < 256" by simp
  then have "(of_char c :: int) < 256" by (metis of_nat_less_iff of_nat_numeral of_nat_of_char)
  then show ?thesis by (simp add: to_int32_def)
qed

lemma to_int32_EOF [simp]: "to_int32 ANTLR3_CHARSTREAM_EOF = -1"
  by (simp add: to_int32_def ANTLR3_CHARSTREAM_EOF_def)

section \<open>The interface of streams\<close>

text \<open>
  What the simulation relies on: in a state that satisfies \<open>inv\<close>, the stream shows the first of the
  symbols that are left, or the end marker, and \<open>consume\<close> removes it.
\<close>

locale int_stream =
  fixes inv :: "'s \<Rightarrow> bool" and la :: "'s \<Rightarrow> int" and consume :: "'s \<Rightarrow> 's" and left :: "'s \<Rightarrow> int list"
  assumes inv_consume: "inv s \<Longrightarrow> inv (consume s)"
    and la_end: "inv s \<Longrightarrow> left s = [] \<Longrightarrow> la s = ANTLR3_CHARSTREAM_EOF"
    and la_first: "inv s \<Longrightarrow> left s = c # cs \<Longrightarrow> la s = c"
    and symbols: "inv s \<Longrightarrow> left s = c # cs \<Longrightarrow> 0 \<le> c \<and> c < 2147483648"
    and left_consume: "inv s \<Longrightarrow> left s = c # cs \<Longrightarrow> left (consume s) = cs"
begin

lemma dfa_loop_walk:
  assumes "wf_dfa d"
  shows "0 \<le> s \<Longrightarrow> s < int (length (dfa_eot d)) \<Longrightarrow> inv is \<Longrightarrow> left is = cs \<Longrightarrow>
    dfa_loop la consume d is s = Some (dfa_walk d s cs)"
proof (induction cs arbitrary: "is" s)
  case Nil
  have c: "to_int32 (la is) = -1" using la_end [OF Nil(3,4)] by simp
  show ?case
  proof (cases "dfa_step d s (-1)")
    case (Goto s')
    with Nil dfa_step_Goto [OF assms Nil(1,2)] have s': "0 \<le> s'" "s' < int (length (dfa_eot d))" "1 \<le> at (dfa_accept d) s'"
      by auto
    have "dfa_loop la consume d (consume is) s' = Some (Some (at (dfa_accept d) s'))"
      using wf_dfa_accepting [OF assms s'] by (subst dfa_loop.simps) simp
    with Goto c show ?thesis by (subst dfa_loop.simps) simp
  qed (use c in \<open>subst dfa_loop.simps; simp\<close>)+
next
  case (Cons c cs)
  have l: "to_int32 (la is) = c"
    using la_first [OF Cons.prems(3,4)] symbols [OF Cons.prems(3,4)] by (simp add: to_int32_def)
  show ?case
  proof (cases "dfa_step d s c")
    case (Goto s')
    with Cons.prems dfa_step_Goto [OF assms Cons.prems(1,2)] have s': "0 \<le> s'" "s' < int (length (dfa_eot d))" by auto
    from Cons.IH [OF s' inv_consume [OF Cons.prems(3)] left_consume [OF Cons.prems(3,4)]] Goto l
    show ?thesis by (subst dfa_loop.simps) simp
  qed (use l in \<open>subst dfa_loop.simps; simp\<close>)+
qed

text \<open>The prediction returns and is a function of the symbols left.\<close>

theorem predict_walk: "wf_dfa d \<Longrightarrow> inv is \<Longrightarrow> antlr3dfapredict la consume d is = Some (dfa_walk d 0 (left is))"
  unfolding antlr3dfapredict_def by (rule dfa_loop_walk) (auto simp: wf_dfa_def Let_def)

end

text \<open>The stream of characters.\<close>

interpretation chars: int_stream "\<lambda>_. True" "\<lambda>is. antlr38BitLA is 1" antlr38BitConsume "\<lambda>is. map of_char (rest is)"
proof
  fix "is" :: input8 and c :: int and cs
  show "map of_char (rest is) = [] \<Longrightarrow> antlr38BitLA is 1 = ANTLR3_CHARSTREAM_EOF" by simp
  assume "map of_char (rest is) = c # cs"
  then obtain k ks where r: "rest is = k # ks" "c = of_char k" "cs = map of_char ks" by auto
  show "antlr38BitLA is 1 = c" using LA_Cons [OF r(1)] r(2) by simp
  show "map of_char (rest (antlr38BitConsume is)) = cs" using consume_Cons [OF r(1)] r(3) by simp
  have "(of_char k :: nat) < 256" by simp
  then have "(of_char k :: int) < 256" by (metis of_nat_less_iff of_nat_numeral of_nat_of_char)
  moreover have "0 \<le> (of_char k :: int)" by (metis of_nat_0_le_iff of_nat_of_char)
  ultimately show "0 \<le> c \<and> c < 2147483648" using r(2) by simp
qed simp

lemma dfa_run_walk: "dfa_run d s cs = dfa_walk d s (map of_char cs)"
  by (induction cs arbitrary: s) (auto split: dfa_action.split)

lemma antlr3dfapredict_run:
  "wf_dfa d \<Longrightarrow> antlr3dfapredict (\<lambda>is. antlr38BitLA is 1) antlr38BitConsume d is = Some (dfa_run d 0 (rest is))"
  by (simp only: chars.predict_walk dfa_run_walk)

end
