(* ===== verification/Antlr_Tree.thy ===== *)
theory Antlr_Tree
  imports RM_Prelude
begin

text \<open>
  The trees of the ANTLR run time the parser builds: \<^verbatim>\<open>antlr3basetree.c\<close>,
  \<^verbatim>\<open>antlr3commontree.c\<close>, \<^verbatim>\<open>antlr3basetreeadaptor.c\<close> and
  \<^verbatim>\<open>antlr3commontreeadaptor.c\<close> under \<^verbatim>\<open>src/antlr/libantlr3c-3.4/src\<close>.
  A node carries a token, or none (a ``nil'' node, a list of trees without a root), and its
  children. The C code updates a node in place and returns nothing; here each operation returns
  the updated node. A null pointer to a tree is \<open>None\<close>. An absent child vector and an empty
  one are the same empty list: no operation tells them apart. Parent pointers and child indexes
  are not kept, and neither are the node pools: a reclaimed node is a nil node without children,
  which is what a new one is.

  The lemmas show how the construction operations act on the list of texts that a tree's
  children have, which is what \<^verbatim>\<open>AstWalker\<close> reads.
\<close>

section \<open>Tokens\<close>

record token =
  tk_type :: nat
  tk_text :: string
  tk_channel :: nat
  tk_index :: nat
  tk_start :: nat
  tk_stop :: int
  tk_line :: nat
  tk_charPos :: int

definition ANTLR3_TOKEN_INVALID :: nat where
  "ANTLR3_TOKEN_INVALID = 0"

section \<open>Nodes\<close>

datatype ast = Node (payload: "token option") (kids: "ast list")

definition isNilNode :: "ast \<Rightarrow> bool" where
  "isNilNode t \<longleftrightarrow> payload t = None"

definition ast_getType :: "ast \<Rightarrow> nat" where
  "ast_getType t = (case payload t of None \<Rightarrow> 0 | Some tok \<Rightarrow> tk_type tok)"

definition ast_toString :: "ast \<Rightarrow> string" where
  "ast_toString t = (case payload t of None \<Rightarrow> ''nil'' | Some tok \<Rightarrow> tk_text tok)"

definition getChild :: "ast \<Rightarrow> nat \<Rightarrow> ast option" where
  "getChild t i = (if length (kids t) \<le> i then None else Some (kids t ! i))"

definition getChildCount :: "ast \<Rightarrow> nat" where
  "getChildCount t = length (kids t)"

fun first_with_type :: "nat \<Rightarrow> ast list \<Rightarrow> ast option" where
  "first_with_type ty [] = None"
| "first_with_type ty (t # ts) = (if ast_getType t = ty then Some t else first_with_type ty ts)"

definition getFirstChildWithType :: "ast \<Rightarrow> nat \<Rightarrow> ast option" where
  "getFirstChildWithType t ty = first_with_type ty (kids t)"

definition addChild :: "ast \<Rightarrow> ast option \<Rightarrow> ast" where
  "addChild t child =
     (case child of
        None \<Rightarrow> t
      | Some c \<Rightarrow> if isNilNode c then Node (payload t) (kids t @ kids c)
                  else Node (payload t) (kids t @ [c]))"

text \<open>\<^verbatim>\<open>dupTree\<close> copies the node with its token and adds copies of the children to it.\<close>

definition dupNode :: "ast \<Rightarrow> ast" where
  "dupNode t = Node (payload t) []"

fun dupTree :: "ast \<Rightarrow> ast" where
  "dupTree (Node p ts) = foldl (\<lambda>n c. addChild n (Some c)) (dupNode (Node p ts)) (map dupTree ts)"

fun toStringTree :: "ast \<Rightarrow> string" where
  "toStringTree (Node p ts) =
     (if ts = [] then ast_toString (Node p ts)
      else (if isNilNode (Node p ts) then '''' else ''('' @ ast_toString (Node p ts) @ '' '')
           @ join '' '' (map toStringTree ts)
           @ (if isNilNode (Node p ts) then '''' else '')''))"

section \<open>The tree adaptor\<close>

definition create :: "token option \<Rightarrow> ast" where
  "create p = Node p []"

definition nilNode :: ast where
  "nilNode = create None"

definition createToken :: "nat \<Rightarrow> string \<Rightarrow> token" where
  "createToken ty text = \<lparr>tk_type = ty, tk_text = text, tk_channel = 0, tk_index = 0, tk_start = 0,
     tk_stop = 0, tk_line = 0, tk_charPos = 0\<rparr>"

definition createTypeText :: "nat \<Rightarrow> string \<Rightarrow> ast" where
  "createTypeText ty text = create (Some (createToken ty text))"

definition errorNode :: ast where
  "errorNode = createTypeText ANTLR3_TOKEN_INVALID ''Tree Error Node''"

definition adaptor_addChild :: "ast option \<Rightarrow> ast option \<Rightarrow> ast option" where
  "adaptor_addChild t child =
     (case t of None \<Rightarrow> None | Some n \<Rightarrow> if child = None then t else Some (addChild n child))"

text \<open>
  \<^verbatim>\<open>becomeRoot\<close>: the new root is the single child of a nil node. A nil node without
  children has no first child to call \<^verbatim>\<open>addChild\<close> on.
\<close>

definition becomeRoot :: "ast option \<Rightarrow> ast option \<Rightarrow> ast option res" where
  "becomeRoot newRoot oldRoot =
     (case newRoot of
        None \<Rightarrow> Inr oldRoot
      | Some n \<Rightarrow>
         (case oldRoot of
            None \<Rightarrow> Inr newRoot
          | Some old \<Rightarrow>
             (if isNilNode n then
                if 1 < getChildCount n then Inr newRoot
                else case getChild n 0 of
                       None \<Rightarrow> Inl Null_Pointer
                     | Some r \<Rightarrow> Inr (Some (addChild r (Some old)))
              else Inr (Some (addChild n (Some old))))))"

definition rulePostProcessing :: "ast option \<Rightarrow> ast option" where
  "rulePostProcessing root =
     (case root of
        None \<Rightarrow> None
      | Some r \<Rightarrow>
         (if isNilNode r then
            if getChildCount r = 0 then None
            else if getChildCount r = 1 then getChild r 0
            else root
          else root))"

section \<open>What the operations do to the children\<close>

definition child_texts :: "ast \<Rightarrow> string list" where
  "child_texts t = map ast_toString (kids t)"

text \<open>No nil node below the root: an invariant of construction by \<^verbatim>\<open>addChild\<close>.\<close>

fun no_nil_below :: "ast \<Rightarrow> bool" where
  "no_nil_below (Node p ts) = list_all (\<lambda>c. \<not> isNilNode c \<and> no_nil_below c) ts"

lemma isNilNode_simps [simp]:
  "isNilNode (Node None ts)" "\<not> isNilNode (Node (Some k) ts)"
  "isNilNode nilNode" "\<not> isNilNode (createTypeText ty s)" "\<not> isNilNode errorNode"
  "isNilNode (create p) \<longleftrightarrow> p = None"
  by (simp_all add: isNilNode_def nilNode_def create_def createTypeText_def errorNode_def)

lemma kids_simps [simp]:
  "kids nilNode = []" "kids (create p) = []" "kids (createTypeText ty s) = []" "kids errorNode = []"
  by (simp_all add: nilNode_def create_def createTypeText_def errorNode_def)

lemma payload_simps [simp]:
  "payload nilNode = None" "payload (create p) = p"
  "payload (createTypeText ty s) = Some (createToken ty s)"
  by (simp_all add: nilNode_def create_def createTypeText_def)

lemma createToken_simps [simp]: "tk_type (createToken ty s) = ty" "tk_text (createToken ty s) = s"
  by (simp_all add: createToken_def)

lemma ast_toString_simps [simp]:
  "ast_toString (Node (Some k) ts) = tk_text k"
  "ast_toString (create (Some k)) = tk_text k"
  "ast_toString (createTypeText ty s) = s"
  "ast_toString errorNode = ''Tree Error Node''"
  by (simp_all add: ast_toString_def create_def createTypeText_def errorNode_def)

lemma addChild_None [simp]: "addChild t None = t"
  by (simp add: addChild_def)

lemma payload_addChild [simp]: "payload (addChild t c) = payload t"
  by (simp add: addChild_def split: option.splits)

lemma isNilNode_addChild [simp]: "isNilNode (addChild t c) = isNilNode t"
  by (simp add: isNilNode_def)

lemma kids_addChild [simp]:
  "kids (addChild t (Some c)) = kids t @ (if isNilNode c then kids c else [c])"
  by (simp add: addChild_def)

lemma child_texts_simps [simp]:
  "child_texts nilNode = []" "child_texts (create p) = []" "child_texts (createTypeText ty s) = []"
  "child_texts (Node p ts) = map ast_toString ts"
  "child_texts (addChild t (Some c)) =
     child_texts t @ (if isNilNode c then child_texts c else [ast_toString c])"
  by (simp_all add: child_texts_def)

lemma no_nil_below_iff:
  "no_nil_below t \<longleftrightarrow> (\<forall>c \<in> set (kids t). \<not> isNilNode c \<and> no_nil_below c)"
  by (cases t) (simp add: list_all_iff)

lemma addChild_no_nil_below:
  "no_nil_below t \<Longrightarrow> pred_option no_nil_below c \<Longrightarrow> no_nil_below (addChild t c)"
proof (cases c)
  case (Some a)
  assume "no_nil_below t" "pred_option no_nil_below c"
  then show ?thesis
    using Some by (auto simp: no_nil_below_iff [of "addChild t _"] no_nil_below_iff [of t]
        no_nil_below_iff [of a])
qed simp

lemma becomeRoot_node [simp]:
  "\<not> isNilNode n \<Longrightarrow> becomeRoot (Some n) (Some old) = Inr (Some (addChild n (Some old)))"
  by (simp add: becomeRoot_def)

lemma rulePostProcessing_node [simp]: "\<not> isNilNode r \<Longrightarrow> rulePostProcessing (Some r) = Some r"
  by (simp add: rulePostProcessing_def)

lemma rulePostProcessing_nil_many [simp]:
  "isNilNode r \<Longrightarrow> 1 < length (kids r) \<Longrightarrow> rulePostProcessing (Some r) = Some r"
  by (auto simp: rulePostProcessing_def getChildCount_def)

lemma rulePostProcessing_nil_one [simp]:
  "isNilNode r \<Longrightarrow> kids r = [c] \<Longrightarrow> rulePostProcessing (Some r) = Some c"
  by (simp add: rulePostProcessing_def getChildCount_def getChild_def)

text \<open>
  What adding a subtree appends to the texts of the parent's children: post-processing does not
  change it.
\<close>

definition spliced_texts :: "ast option \<Rightarrow> string list" where
  "spliced_texts r =
     (case r of None \<Rightarrow> [] | Some t \<Rightarrow> if isNilNode t then child_texts t else [ast_toString t])"

lemma child_texts_addChild: "child_texts (addChild t c) = child_texts t @ spliced_texts c"
  by (cases c) (simp_all add: spliced_texts_def)

lemma spliced_texts_post:
  assumes "pred_option no_nil_below r"
  shows "spliced_texts (rulePostProcessing r) = spliced_texts r"
proof (cases "\<exists>t. r = Some t \<and> isNilNode t \<and> length (kids t) \<le> 1")
  case True
  then obtain t where t: "r = Some t" "isNilNode t" "length (kids t) \<le> 1" by blast
  show ?thesis
  proof (cases "kids t")
    case Nil
    then show ?thesis
      using t by (simp add: rulePostProcessing_def getChildCount_def spliced_texts_def child_texts_def)
  next
    case (Cons c cs)
    with t have k: "kids t = [c]" by simp
    with t assms have "\<not> isNilNode c" by (simp add: no_nil_below_iff [of t])
    with t k show ?thesis
      by (simp add: rulePostProcessing_nil_one spliced_texts_def child_texts_def)
  qed
next
  case False
  then have "rulePostProcessing r = r"
    by (auto simp: rulePostProcessing_def getChildCount_def split: option.splits)
  then show ?thesis by simp
qed

lemma foldl_addChild:
  "foldl (\<lambda>n c. addChild n (Some c)) (Node p ks) ts =
     Node p (ks @ concat (map (\<lambda>c. if isNilNode c then kids c else [c]) ts))"
  by (induction ts arbitrary: ks) (simp_all add: addChild_def)

lemma payload_dupTree [simp]: "payload (dupTree t) = payload t"
  by (cases t) (simp add: dupNode_def foldl_addChild)

lemma isNilNode_dupTree [simp]: "isNilNode (dupTree t) = isNilNode t"
  by (simp add: isNilNode_def)

lemma dupTree_same: "no_nil_below t \<Longrightarrow> dupTree t = t"
proof (induction t)
  case (Node p ts)
  have "map dupTree ts = ts"
    using Node by (intro map_idI) (simp add: list_all_iff)
  moreover have "concat (map (\<lambda>c. if isNilNode c then kids c else [c]) ts) = ts"
    using Node.prems by (induction ts) auto
  ultimately show ?case by (simp add: dupNode_def foldl_addChild)
qed

section \<open>Properties\<close>

text \<open>
  Duplicating a tree built without nil nodes below its root gives an equal tree, and the
  construction operations build only such trees from such trees.
\<close>

theorem construction_duplicates:
  assumes "no_nil_below t" "pred_option no_nil_below c"
  shows "no_nil_below (addChild t c) \<and> dupTree (addChild t c) = addChild t c \<and>
    pred_option no_nil_below (rulePostProcessing (Some t))"
  using addChild_no_nil_below [OF assms] dupTree_same [of "addChild t c"] assms(1)
  by (auto simp: rulePostProcessing_def getChildCount_def getChild_def no_nil_below_iff [of t])

theorem construction_duplicates_witness:
  "let t = addChild nilNode (Some errorNode) in
     no_nil_below t \<and> dupTree (addChild t (Some t)) = addChild t (Some t) \<and>
     kids (addChild t (Some t)) = [errorNode, errorNode]"
proof -
  have "no_nil_below (addChild nilNode (Some errorNode))"
    by (simp add: no_nil_below_iff [of "addChild _ _"] no_nil_below_iff [of errorNode])
  with construction_duplicates [of "addChild nilNode (Some errorNode)" "Some (addChild nilNode (Some errorNode))"]
  show ?thesis by (simp add: Let_def)
qed

text \<open>
  \<^verbatim>\<open>becomeRoot\<close> never fails on a proper root and keeps every child in order: first the
  new root's children, then the old root itself or, if it is a list, its elements. This is the
  rewriting \<^verbatim>\<open>->^(CREDENTIAL ...)\<close> of the grammar.
\<close>

theorem becomeRoot_texts:
  assumes "\<not> isNilNode n"
  shows "\<exists>r. becomeRoot (Some n) (Some old) = Inr (Some r) \<and> ast_toString r = ast_toString n \<and>
    child_texts r = child_texts n @ spliced_texts (Some old)"
  using assms child_texts_addChild [of n "Some old"]
  by (intro exI [of _ "addChild n (Some old)"]) (simp add: ast_toString_def)

theorem becomeRoot_texts_witness:
  "\<exists>r. becomeRoot (Some (createTypeText 4 ''CREDENTIAL'')) (Some nilNode) = Inr (Some r) \<and>
     ast_toString r = ''CREDENTIAL'' \<and> child_texts r = []"
  using becomeRoot_texts [of "createTypeText 4 ''CREDENTIAL''" nilNode] by (simp add: spliced_texts_def)

end
