(* ===== verification/Antlr_Lexer.thy ===== *)
theory Antlr_Lexer
  imports Antlr_Input Antlr_Tree
begin

text \<open>
  The lexer of the ANTLR run time, \<^verbatim>\<open>antlr3lexer.c\<close>, and the filling of the token buffer
  in \<^verbatim>\<open>antlr3tokenstream.c\<close>, both under \<^verbatim>\<open>src/antlr/libantlr3c-3.4/src\<close>.

  The run time calls the generated rules through a function pointer. What it relies on is the
  interface \<open>token_rules\<close>: the rules return, leave the text alone and never move backwards. From
  that it follows that fetching a token ends, recovery from errors included, and that a token's
  text is the part of the input it covers. Filling the buffer is another matter: it ends only if
  the tokens get somewhere, and a rule that matches nothing at some position keeps it there.
\<close>

section \<open>State\<close>

record lexer =
  lx_input :: input8
  lx_type :: nat
  lx_channel :: nat
  lx_start :: nat
  lx_startPos :: int
  lx_startLine :: nat
  lx_error :: bool
  lx_failed :: bool
  lx_token :: "token option"
  lx_errorCount :: nat

definition ANTLR3_TOKEN_EOF :: nat where
  "ANTLR3_TOKEN_EOF = 4294967295"

definition ANTLR3_TOKEN_DEFAULT_CHANNEL :: nat where
  "ANTLR3_TOKEN_DEFAULT_CHANNEL = 0"

definition lexer_new :: "string \<Rightarrow> lexer" where
  "lexer_new s = \<lparr>lx_input = antlr3InputReset s, lx_type = 0, lx_channel = 0, lx_start = 0, lx_startPos = 0,
     lx_startLine = 0, lx_error = False, lx_failed = False, lx_token = None, lx_errorCount = 0\<rparr>"

section \<open>Matching\<close>

definition LA1 :: "lexer \<Rightarrow> int" where
  "LA1 lx = antlr38BitLA (lx_input lx) 1"

definition lx_consume :: "lexer \<Rightarrow> lexer" where
  "lx_consume lx = lx\<lparr>lx_input := antlr38BitConsume (lx_input lx)\<rparr>"

definition exConstruct :: "lexer \<Rightarrow> lexer" where
  "exConstruct lx = lx\<lparr>lx_error := True\<rparr>"

definition lx_recover :: "lexer \<Rightarrow> lexer" where
  "lx_recover lx = lx_consume lx"

fun matchs :: "int list \<Rightarrow> lexer \<Rightarrow> lexer" where
  "matchs [] lx = lx"
| "matchs (c # cs) lx =
     (if LA1 lx \<noteq> c then lx_recover ((exConstruct lx)\<lparr>lx_failed := True\<rparr>)
      else matchs cs ((lx_consume lx)\<lparr>lx_failed := False\<rparr>))"

definition matchc :: "int \<Rightarrow> lexer \<Rightarrow> lexer" where
  "matchc c lx =
     (if LA1 lx = c then (lx_consume lx)\<lparr>lx_failed := False\<rparr> else lx_recover (exConstruct lx))"

definition matchRange :: "int \<Rightarrow> int \<Rightarrow> lexer \<Rightarrow> lexer" where
  "matchRange low high lx =
     (if low \<le> LA1 lx \<and> LA1 lx \<le> high then (lx_consume lx)\<lparr>lx_failed := False\<rparr> else lx_recover (exConstruct lx))"

definition reportError :: "lexer \<Rightarrow> lexer" where
  "reportError lx = lx\<lparr>lx_errorCount := lx_errorCount lx + 1\<rparr>"

section \<open>Tokens\<close>

definition emit :: "lexer \<Rightarrow> lexer" where
  "emit lx = lx\<lparr>lx_token := Some \<lparr>tk_type = lx_type lx,
     tk_text = antlr38BitSubstr (lx_input lx) (lx_start lx) (int (antlr38BitIndex (lx_input lx)) - 1),
     tk_channel = lx_channel lx, tk_index = 0, tk_start = lx_start lx,
     tk_stop = int (antlr38BitIndex (lx_input lx)) - 1, tk_line = lx_startLine lx, tk_charPos = lx_startPos lx\<rparr>\<rparr>"

definition eof_token :: "input8 \<Rightarrow> token" where
  "eof_token is = \<lparr>tk_type = ANTLR3_TOKEN_EOF, tk_text = ''<EOF>'', tk_channel = 0, tk_index = 0, tk_start = in_next is,
     tk_stop = int (in_next is), tk_line = in_line is, tk_charPos = 0\<rparr>"

text \<open>
  The loop of \<^verbatim>\<open>nextTokenStr\<close>. No rule of this program's lexer skips tokens, so that a token
  set by a rule is returned as it is.
\<close>

definition start_token :: "lexer \<Rightarrow> lexer" where
  "start_token lx = lx\<lparr>lx_token := None, lx_error := False, lx_failed := False,
     lx_channel := ANTLR3_TOKEN_DEFAULT_CHANNEL, lx_start := in_next (lx_input lx),
     lx_startPos := in_charPos (lx_input lx), lx_startLine := in_line (lx_input lx)\<rparr>"

partial_function (option) nextTokenStr :: "(lexer \<Rightarrow> lexer option) \<Rightarrow> lexer \<Rightarrow> (token \<times> lexer) option" where
  "nextTokenStr mTokens lx =
     (let lx1 = start_token lx in
      if LA1 lx1 = ANTLR3_CHARSTREAM_EOF then Some (eof_token (lx_input lx1), lx1)
      else
        Option.bind (mTokens lx1) (\<lambda>lx2.
          if lx_error lx2 then nextTokenStr mTokens (lx_recover (reportError (lx2\<lparr>lx_failed := True\<rparr>)))
          else
            let lx3 = (if lx_token lx2 = None then emit lx2 else lx2) in
            Some (the (lx_token lx3), lx3)))"

text \<open>\<^verbatim>\<open>nextToken\<close>: there is no stack of input streams here, so the end is the end.\<close>

definition nextToken :: "(lexer \<Rightarrow> lexer option) \<Rightarrow> lexer \<Rightarrow> (token \<times> lexer) option" where
  "nextToken mTokens lx = nextTokenStr mTokens lx"

text \<open>
  The loop of \<^verbatim>\<open>fillBuffer\<close>, without discarded types and channel overrides, which this
  program does not install: the tokens, numbered, and the lexer after the end was reached.
\<close>

partial_function (option) fillBuffer :: "(lexer \<Rightarrow> lexer option) \<Rightarrow> lexer \<Rightarrow> token list \<Rightarrow> (token list \<times> lexer) option" where
  "fillBuffer mTokens lx toks =
     Option.bind (nextToken mTokens lx) (\<lambda>(tok, lx1).
       if tk_type tok \<noteq> ANTLR3_TOKEN_EOF then fillBuffer mTokens lx1 (toks @ [tok\<lparr>tk_index := length toks\<rparr>])
       else Some (toks, lx1))"

section \<open>How the operations move in the input\<close>

abbreviation lx_rest :: "lexer \<Rightarrow> string" where
  "lx_rest lx \<equiv> rest (lx_input lx)"

text \<open>\<open>forward lx lx'\<close>: same text, not before, and still inside it.\<close>

definition forward :: "lexer \<Rightarrow> lexer \<Rightarrow> bool" where
  "forward lx lx' \<longleftrightarrow> in_data (lx_input lx') = in_data (lx_input lx) \<and> in_next (lx_input lx) \<le> in_next (lx_input lx') \<and>
     (in_next (lx_input lx) \<le> length (in_data (lx_input lx)) \<longrightarrow> in_next (lx_input lx') \<le> length (in_data (lx_input lx)))"

definition in_bounds :: "lexer \<Rightarrow> bool" where
  "in_bounds lx \<longleftrightarrow> in_next (lx_input lx) \<le> length (in_data (lx_input lx))"

lemma forward_refl [intro, simp]: "forward lx lx"
  by (simp add: forward_def)

lemma forward_trans: "forward a b \<Longrightarrow> forward b c \<Longrightarrow> forward a c"
  by (auto simp: forward_def)

lemma forward_in_bounds: "forward lx lx' \<Longrightarrow> in_bounds lx \<Longrightarrow> in_bounds lx'"
  by (auto simp: forward_def in_bounds_def)

lemma forward_consume [intro, simp]: "forward lx (lx_consume lx)"
  by (simp add: forward_def lx_consume_def consume_next_le consume_next_bound)

lemma forward_update [simp]:
  "forward lx (lx'\<lparr>lx_failed := b\<rparr>) = forward lx lx'" "forward lx (lx'\<lparr>lx_error := b\<rparr>) = forward lx lx'"
  "forward lx (lx'\<lparr>lx_type := n\<rparr>) = forward lx lx'" "forward lx (lx'\<lparr>lx_channel := n\<rparr>) = forward lx lx'"
  "forward (lx\<lparr>lx_failed := b\<rparr>) lx' = forward lx lx'" "forward (lx\<lparr>lx_error := b\<rparr>) lx' = forward lx lx'"
  "forward lx (exConstruct lx') = forward lx lx'" "forward (exConstruct lx) lx' = forward lx lx'"
  "forward lx (reportError lx') = forward lx lx'" "forward (reportError lx) lx' = forward lx lx'"
  "forward lx (emit lx') = forward lx lx'" "forward (start_token lx) lx' = forward lx lx'"
  by (simp_all add: forward_def exConstruct_def reportError_def emit_def start_token_def)

lemma forward_matchc [intro, simp]: "forward lx (matchc c lx)"
  by (simp add: matchc_def lx_recover_def forward_def exConstruct_def lx_consume_def consume_next_le consume_next_bound)

lemma forward_matchs [intro, simp]: "forward lx (matchs cs lx)"
proof (induction cs arbitrary: lx)
  case (Cons c cs)
  have "forward lx (lx_recover ((exConstruct lx)\<lparr>lx_failed := True\<rparr>))"
    by (simp add: lx_recover_def forward_def exConstruct_def lx_consume_def consume_next_le consume_next_bound)
  moreover have "forward lx (matchs cs ((lx_consume lx)\<lparr>lx_failed := False\<rparr>))"
    using Cons.IH forward_trans by (metis forward_consume forward_update(1))
  ultimately show ?case by simp
qed simp

lemma LA1_Nil [simp]: "lx_rest lx = [] \<Longrightarrow> LA1 lx = ANTLR3_CHARSTREAM_EOF"
  by (simp add: LA1_def)

lemma LA1_Cons [simp]: "lx_rest lx = c # cs \<Longrightarrow> LA1 lx = of_char c"
  by (simp add: LA1_def)

lemma of_char_EOF [simp]: "of_char c \<noteq> ANTLR3_CHARSTREAM_EOF"
proof -
  have "(of_char c :: nat) < 256" by simp
  then have "(of_char c :: int) < 256" by (metis of_nat_less_iff of_nat_numeral of_nat_of_char)
  then show ?thesis by (simp add: ANTLR3_CHARSTREAM_EOF_def)
qed

lemma LA1_EOF_iff: "LA1 lx = ANTLR3_CHARSTREAM_EOF \<longleftrightarrow> lx_rest lx = []"
  using LA1_Cons [of lx] LA1_Nil [of lx] of_char_EOF by (cases "lx_rest lx") (metis list.distinct(1))+

lemma start_token_input [simp]: "lx_input (start_token lx) = lx_input lx" "lx_error (start_token lx) = False"
  "lx_token (start_token lx) = None" "LA1 (start_token lx) = LA1 lx"
  by (simp_all add: start_token_def LA1_def)

lemma emit_input [simp]: "lx_input (emit lx) = lx_input lx" "lx_error (emit lx) = lx_error lx"
  by (simp_all add: emit_def)

lemma lx_consume_Cons:
  assumes "lx_rest lx = c # cs"
  shows "in_next (lx_input (lx_consume lx)) = Suc (in_next (lx_input lx))" "lx_rest (lx_consume lx) = cs"
    "in_data (lx_input (lx_consume lx)) = in_data (lx_input lx)"
  using consume_Cons [OF assms] by (simp_all add: lx_consume_def)

text \<open>The text of the token that starts at the mark of \<open>lx1\<close> and ends where \<open>lx2\<close> stands.\<close>

lemma emit_text:
  assumes "forward lx1 lx2" "lx_start lx2 = in_next (lx_input lx1)" "in_bounds lx1"
  shows "\<exists>t. lx_token (emit lx2) = Some t \<and> lx_rest lx1 = tk_text t @ lx_rest lx2 \<and> tk_type t = lx_type lx2 \<and>
    tk_channel t = lx_channel lx2 \<and> tk_start t = in_next (lx_input lx1)"
proof -
  let ?a = "in_next (lx_input lx1)" and ?b = "in_next (lx_input lx2)" and ?d = "in_data (lx_input lx1)"
  have ab: "?a \<le> ?b" "in_data (lx_input lx2) = ?d" using assms(1) by (auto simp: forward_def)
  have "drop ?a ?d = take (?b - ?a) (drop ?a ?d) @ drop ?b ?d"
    using ab(1) by (metis append_take_drop_id drop_drop le_add_diff_inverse2)
  moreover have "nat (int ?b - int ?a) = ?b - ?a" by simp
  ultimately show ?thesis
    using ab assms(2) by (simp add: emit_def antlr38BitSubstr_def antlr38BitIndex_def)
qed

section \<open>The interface to the rules\<close>

text \<open>
  What the run time relies on when it calls \<^verbatim>\<open>mTokens\<close>: it returns, it only moves forward, it
  leaves the marks of the token under construction alone, and it does not emit tokens itself.
\<close>

locale token_rules =
  fixes mTokens :: "lexer \<Rightarrow> lexer option"
  assumes rules_return: "\<exists>lx'. mTokens lx = Some lx'"
    and rules_forward: "mTokens lx = Some lx' \<Longrightarrow> forward lx lx'"
    and rules_marks: "mTokens lx = Some lx' \<Longrightarrow> lx_start lx' = lx_start lx \<and> lx_token lx' = lx_token lx"
begin

lemma nextTokenStr_eof: "lx_rest lx = [] \<Longrightarrow> nextTokenStr mTokens lx = Some (eof_token (lx_input lx), start_token lx)"
  by (subst nextTokenStr.simps) (simp add: Let_def LA1_EOF_iff)

lemma nextTokenStr_token:
  assumes "lx_rest lx \<noteq> []" "mTokens (start_token lx) = Some lx2" "\<not> lx_error lx2"
  shows "nextTokenStr mTokens lx = Some (the (lx_token (emit lx2)), emit lx2)"
proof -
  have "lx_token lx2 = None" using rules_marks [OF assms(2)] by simp
  with assms show ?thesis by (subst nextTokenStr.simps) (simp add: Let_def LA1_EOF_iff)
qed

lemma nextTokenStr_error:
  assumes "lx_rest lx \<noteq> []" "mTokens (start_token lx) = Some lx2" "lx_error lx2"
  shows "nextTokenStr mTokens lx = nextTokenStr mTokens (lx_recover (reportError (lx2\<lparr>lx_failed := True\<rparr>)))"
  using assms by (subst nextTokenStr.simps) (simp add: Let_def LA1_EOF_iff)

text \<open>
  Fetching a token ends, whatever the input: a round that fails gets at least one character
  further. The token is the end marker at the end of the text, or its text is what the input has
  between the end of the skipped part and the new position.
\<close>

theorem nextTokenStr_returns:
  assumes "in_bounds lx"
  shows "\<exists>tok lx'. nextTokenStr mTokens lx = Some (tok, lx') \<and> forward lx lx' \<and>
    ((lx_rest lx' = [] \<and> tk_type tok = ANTLR3_TOKEN_EOF) \<or>
     (\<exists>skipped. lx_rest lx = skipped @ tk_text tok @ lx_rest lx'))"
  using assms
proof (induction "length (lx_rest lx)" arbitrary: lx rule: less_induct)
  case less
  show ?case
  proof (cases "lx_rest lx = []")
    case True
    have "forward lx (start_token lx)" by (simp add: forward_def)
    with True show ?thesis by (simp add: nextTokenStr_eof eof_token_def)
  next
    case False
    obtain lx2 where lx2: "mTokens (start_token lx) = Some lx2" using rules_return by blast
    have fw: "forward lx lx2" using rules_forward [OF lx2] by simp
    show ?thesis
    proof (cases "lx_error lx2")
      case False
      have "lx_start lx2 = in_next (lx_input lx)" using rules_marks [OF lx2] by (simp add: start_token_def)
      with emit_text [OF fw _ less.prems]
      obtain t where "lx_token (emit lx2) = Some t" "lx_rest lx = tk_text t @ lx_rest lx2" by auto
      with nextTokenStr_token [OF \<open>lx_rest lx \<noteq> []\<close> lx2 False] fw show ?thesis
        by (intro exI [of _ t] exI [of _ "emit lx2"]) (auto intro!: exI [of _ "[]"])
    next
      case True
      let ?lx3 = "lx_recover (reportError (lx2\<lparr>lx_failed := True\<rparr>))"
      have in3: "lx_input ?lx3 = antlr38BitConsume (lx_input lx2)" by (simp add: lx_recover_def lx_consume_def reportError_def)
      have fw3: "forward lx ?lx3"
        using forward_trans [OF fw forward_consume] in3 by (simp add: forward_def lx_consume_def)
      have "in_next (lx_input lx) < in_next (lx_input ?lx3)"
        using fw in3 \<open>lx_rest lx \<noteq> []\<close> by (auto simp: forward_def antlr38BitConsume_def Let_def)
      then have shorter: "length (lx_rest ?lx3) < length (lx_rest lx)"
        using fw3 \<open>lx_rest lx \<noteq> []\<close> by (auto simp: forward_def)
      from less.hyps [OF shorter forward_in_bounds [OF fw3 less.prems]]
      obtain tok lx' where r: "nextTokenStr mTokens ?lx3 = Some (tok, lx')" "forward ?lx3 lx'"
        "(lx_rest lx' = [] \<and> tk_type tok = ANTLR3_TOKEN_EOF) \<or>
         (\<exists>skipped. lx_rest ?lx3 = skipped @ tk_text tok @ lx_rest lx')" by blast
      have "\<exists>u. lx_rest lx = u @ lx_rest ?lx3"
        using fw3 by (auto simp: forward_def)
          (metis append_take_drop_id drop_drop le_add_diff_inverse2)
      with r nextTokenStr_error [OF \<open>lx_rest lx \<noteq> []\<close> lx2 True] forward_trans [OF fw3 r(2)] show ?thesis
        by (intro exI [of _ tok] exI [of _ lx']) (metis append_assoc)
    qed
  qed
qed

lemma fillBuffer_eof: "lx_rest lx = [] \<Longrightarrow> fillBuffer mTokens lx toks = Some (toks, start_token lx)"
  by (subst fillBuffer.simps) (simp add: nextToken_def nextTokenStr_eof eof_token_def)

lemma fillBuffer_token:
  assumes "lx_rest lx \<noteq> []" "in_bounds lx" "mTokens (start_token lx) = Some lx2" "\<not> lx_error lx2"
    "lx_type lx2 \<noteq> ANTLR3_TOKEN_EOF"
  shows "\<exists>t. fillBuffer mTokens lx toks = fillBuffer mTokens (emit lx2) (toks @ [t]) \<and> in_bounds (emit lx2) \<and>
    tk_index t = length toks \<and> lx_rest lx = tk_text t @ lx_rest lx2 \<and> tk_type t = lx_type lx2 \<and> tk_channel t = lx_channel lx2"
proof -
  have fw: "forward lx lx2" using rules_forward [OF assms(3)] by simp
  have "lx_start lx2 = in_next (lx_input lx)" using rules_marks [OF assms(3)] by (simp add: start_token_def)
  with emit_text [OF fw _ assms(2)] obtain t where t: "lx_token (emit lx2) = Some t" "lx_rest lx = tk_text t @ lx_rest lx2"
    "tk_type t = lx_type lx2" "tk_channel t = lx_channel lx2" by auto
  have "in_bounds (emit lx2)" using forward_in_bounds [OF fw assms(2)] by (simp add: in_bounds_def)
  with t assms(5) nextTokenStr_token [OF assms(1,3,4)] show ?thesis
    by (intro exI [of _ "t\<lparr>tk_index := length toks\<rparr>"]) (subst fillBuffer.simps, simp add: nextToken_def)
qed

text \<open>
  If the rules accept the empty text at the position where the lexer stands, filling the buffer
  does not return.
\<close>

theorem fillBuffer_stuck:
  assumes stuck: "\<And>lx. lx_rest lx = s \<Longrightarrow>
      \<exists>lx'. mTokens (start_token lx) = Some lx' \<and> \<not> lx_error lx' \<and> lx_rest lx' = s \<and> lx_type lx' \<noteq> ANTLR3_TOKEN_EOF"
    and "s \<noteq> []" "lx_rest lx = s"
  shows "fillBuffer mTokens lx toks = None"
proof -
  have never: "lx_rest lx \<noteq> s" if "fillBuffer mTokens lx toks = Some r" for lx toks r
  proof (rule fillBuffer.raw_induct [of "\<lambda>m lx toks r. m = mTokens \<longrightarrow> lx_rest lx \<noteq> s", OF _ that, THEN mp])
    fix f :: "(lexer \<Rightarrow> lexer option) \<Rightarrow> lexer \<Rightarrow> token list \<Rightarrow> (token list \<times> lexer) option" and m lx toks r
    assume IH: "\<And>m lx toks r. f m lx toks = Some r \<Longrightarrow> m = mTokens \<longrightarrow> lx_rest lx \<noteq> s"
      and body: "Option.bind (nextToken m lx) (\<lambda>(tok, lx1).
        if tk_type tok \<noteq> ANTLR3_TOKEN_EOF then f m lx1 (toks @ [tok\<lparr>tk_index := length toks\<rparr>]) else Some (toks, lx1)) = Some r"
    show "m = mTokens \<longrightarrow> lx_rest lx \<noteq> s"
    proof (intro impI notI)
      assume m: "m = mTokens" and lx: "lx_rest lx = s"
      from stuck [OF lx] obtain lx' where lx': "mTokens (start_token lx) = Some lx'" "\<not> lx_error lx'" "lx_rest lx' = s"
        "lx_type lx' \<noteq> ANTLR3_TOKEN_EOF" by blast
      have "lx_rest lx \<noteq> []" using lx assms(2) by simp
      from nextTokenStr_token [OF this lx'(1,2)] body m lx'(4)
      obtain toks' where "f mTokens (emit lx') toks' = Some r" by (auto simp: nextToken_def emit_def)
      from IH [OF this] lx'(3) show False by simp
    qed
  qed simp
  show ?thesis using never [of lx toks] assms(3) by (cases "fillBuffer mTokens lx toks") auto
qed

end

end
