(* ===== verification/Antlr_TokenStream.thy ===== *)
theory Antlr_TokenStream
  imports Antlr_Lexer
begin

text \<open>
  The buffered token stream of the ANTLR run time, \<^verbatim>\<open>antlr3tokenstream.c\<close> under
  \<^verbatim>\<open>src/antlr/libantlr3c-3.4/src\<close>, once its buffer is filled: looking ahead and back and
  consuming, past the tokens of other channels. The stream is shown to implement the interface
  of the automata.
\<close>

section \<open>The stream\<close>

record token_stream =
  cts_tokens :: "token list"
  cts_p :: nat

definition on_channel :: "token \<Rightarrow> bool" where
  "on_channel t \<longleftrightarrow> tk_channel t = ANTLR3_TOKEN_DEFAULT_CHANNEL"

function skipOffTokenChannels :: "token list \<Rightarrow> nat \<Rightarrow> nat" where
  "skipOffTokenChannels toks i =
     (if i < length toks then if \<not> on_channel (toks ! i) then skipOffTokenChannels toks (i + 1) else i else i)"
  by pat_completeness auto
termination by (relation "measure (\<lambda>(toks, i). length toks - i)") auto

declare skipOffTokenChannels.simps [simp del]

function skipOffTokenChannelsReverse :: "token list \<Rightarrow> int \<Rightarrow> int" where
  "skipOffTokenChannelsReverse toks x =
     (if 0 \<le> x then if \<not> on_channel (toks ! nat x) then skipOffTokenChannelsReverse toks (x - 1) else x else x)"
  by pat_completeness auto
termination by (relation "measure (\<lambda>(toks, x). nat (x + 1))") auto

declare skipOffTokenChannelsReverse.simps [simp del]

text \<open>The state that \<^verbatim>\<open>fillBuffer\<close> leaves behind.\<close>

definition token_stream_new :: "token list \<Rightarrow> token_stream" where
  "token_stream_new toks = \<lparr>cts_tokens = toks, cts_p = skipOffTokenChannels toks 0\<rparr>"

definition teof :: token where
  "teof = \<lparr>tk_type = ANTLR3_TOKEN_EOF, tk_text = ''<EOF>'', tk_channel = 0, tk_index = 0, tk_start = 0, tk_stop = 0,
     tk_line = 0, tk_charPos = 0\<rparr>"

fun lookahead_index :: "token list \<Rightarrow> nat \<Rightarrow> nat \<Rightarrow> nat" where
  "lookahead_index toks i 0 = i"
| "lookahead_index toks i (Suc n) = lookahead_index toks (skipOffTokenChannels toks (i + 1)) n"

definition tokLT :: "token_stream \<Rightarrow> nat \<Rightarrow> token" where
  "tokLT cts k =
     (if length (cts_tokens cts) \<le> cts_p cts + k - 1 then teof
      else
        let i = lookahead_index (cts_tokens cts) (cts_p cts) (k - 1) in
        if length (cts_tokens cts) \<le> i then teof else cts_tokens cts ! i)"

fun lookback_index :: "token list \<Rightarrow> int \<Rightarrow> nat \<Rightarrow> int" where
  "lookback_index toks i 0 = i"
| "lookback_index toks i (Suc n) = lookback_index toks (skipOffTokenChannelsReverse toks (i - 1)) n"

definition LB :: "token_stream \<Rightarrow> nat \<Rightarrow> token option" where
  "LB cts k =
     (if k = 0 then None
      else if cts_p cts < k then None
      else
        let i = lookback_index (cts_tokens cts) (int (cts_p cts)) k in
        if i < 0 then None else Some (cts_tokens cts ! nat i))"

definition LA :: "token_stream \<Rightarrow> nat \<Rightarrow> nat" where
  "LA cts k = tk_type (tokLT cts k)"

definition consume :: "token_stream \<Rightarrow> token_stream" where
  "consume cts =
     (if cts_p cts < length (cts_tokens cts)
      then cts\<lparr>cts_p := skipOffTokenChannels (cts_tokens cts) (cts_p cts + 1)\<rparr> else cts)"

section \<open>The tokens left\<close>

definition tokens_left :: "token_stream \<Rightarrow> token list" where
  "tokens_left cts = filter on_channel (drop (cts_p cts) (cts_tokens cts))"

text \<open>The position is at a token of the channel, or at the end.\<close>

definition settled :: "token_stream \<Rightarrow> bool" where
  "settled cts \<longleftrightarrow> cts_p cts \<le> length (cts_tokens cts) \<and>
     (cts_p cts < length (cts_tokens cts) \<longrightarrow> on_channel (cts_tokens cts ! cts_p cts))"

definition proper_types :: "token list \<Rightarrow> bool" where
  "proper_types toks \<longleftrightarrow> (\<forall>t \<in> set toks. tk_type t < 2147483648)"

lemma skipOff_props:
  "i \<le> length toks \<Longrightarrow> i \<le> skipOffTokenChannels toks i \<and> skipOffTokenChannels toks i \<le> length toks \<and>
    filter on_channel (drop (skipOffTokenChannels toks i) toks) = filter on_channel (drop i toks) \<and>
    (skipOffTokenChannels toks i < length toks \<longrightarrow> on_channel (toks ! skipOffTokenChannels toks i))"
proof (induction toks i rule: skipOffTokenChannels.induct)
  case (1 toks i)
  show ?case
  proof (cases "i < length toks \<and> \<not> on_channel (toks ! i)")
    case True
    then have "drop i toks = toks ! i # drop (Suc i) toks" by (simp add: Cons_nth_drop_Suc)
    with 1(1) True show ?thesis by (subst (1 2 3 4 5) skipOffTokenChannels.simps) simp
  next
    case False
    with 1(2) show ?thesis by (subst (1 2 3 4 5) skipOffTokenChannels.simps) auto
  qed
qed

lemma settled_new [simp]: "settled (token_stream_new toks)"
  using skipOff_props [of 0 toks] by (simp add: settled_def token_stream_new_def)

lemma tokens_left_new [simp]: "tokens_left (token_stream_new toks) = filter on_channel toks"
  using skipOff_props [of 0 toks] by (simp add: tokens_left_def token_stream_new_def)

lemma consume_tokens [simp]: "cts_tokens (consume cts) = cts_tokens cts"
  by (simp add: consume_def)

lemma settled_consume [simp]: "settled cts \<Longrightarrow> settled (consume cts)"
  using skipOff_props [of "cts_p cts + 1" "cts_tokens cts"] by (auto simp: settled_def consume_def)

lemma consume_p_le: "cts_p cts \<le> cts_p (consume cts)"
  using skipOff_props [of "cts_p cts + 1" "cts_tokens cts"] by (auto simp: consume_def)

lemma consume_p_less: "cts_p cts < length (cts_tokens cts) \<Longrightarrow> cts_p cts < cts_p (consume cts)"
  using skipOff_props [of "cts_p cts + 1" "cts_tokens cts"] by (auto simp: consume_def)

lemma settled_drop:
  assumes "settled cts" "cts_p cts < length (cts_tokens cts)"
  shows "tokens_left cts = cts_tokens cts ! cts_p cts # tokens_left (consume cts)"
proof -
  have "drop (cts_p cts) (cts_tokens cts) = cts_tokens cts ! cts_p cts # drop (Suc (cts_p cts)) (cts_tokens cts)"
    using assms(2) by (simp add: Cons_nth_drop_Suc)
  with assms skipOff_props [of "Suc (cts_p cts)" "cts_tokens cts"] show ?thesis
    by (simp add: tokens_left_def settled_def consume_def)
qed

lemma tokens_left_Nil: "settled cts \<Longrightarrow> tokens_left cts = [] \<longleftrightarrow> cts_p cts = length (cts_tokens cts)"
  using settled_drop [of cts] by (cases "cts_p cts < length (cts_tokens cts)") (auto simp: tokens_left_def settled_def)

lemma tokLT_1: "settled cts \<Longrightarrow> tokLT cts (Suc 0) = (case tokens_left cts of [] \<Rightarrow> teof | t # ts \<Rightarrow> t)"
  using settled_drop [of cts] tokens_left_Nil [of cts] by (auto simp: tokLT_def settled_def split: list.split)

lemma tokens_left_consume: "settled cts \<Longrightarrow> tokens_left (consume cts) = tl (tokens_left cts)"
proof (cases "cts_p cts < length (cts_tokens cts)")
  case False
  moreover assume "settled cts"
  ultimately show ?thesis using tokens_left_Nil [of cts] by (simp add: consume_def settled_def)
qed (simp add: settled_drop)

lemma LA_1: "settled cts \<Longrightarrow> LA cts (Suc 0) = (case tokens_left cts of [] \<Rightarrow> ANTLR3_TOKEN_EOF | t # ts \<Rightarrow> tk_type t)"
  by (simp add: LA_def tokLT_1 teof_def split: list.split)

text \<open>The second token is the first one after the first is consumed.\<close>

lemma tokLT_2_consume: "cts_p cts \<le> length (cts_tokens cts) \<Longrightarrow> tokLT cts 2 = tokLT (consume cts) 1"
proof (cases "cts_p cts + 1 < length (cts_tokens cts)")
  case True
  then show ?thesis by (simp add: tokLT_def consume_def Let_def numeral_2_eq_2)
next
  case False
  moreover assume "cts_p cts \<le> length (cts_tokens cts)"
  moreover have "skipOffTokenChannels (cts_tokens cts) (cts_p cts + 1) = cts_p cts + 1" if "length (cts_tokens cts) = cts_p cts + 1"
    using that by (subst skipOffTokenChannels.simps) simp
  ultimately show ?thesis by (cases "cts_p cts = length (cts_tokens cts)") (auto simp: tokLT_def consume_def)
qed

lemma LA_2_consume: "settled cts \<Longrightarrow> LA cts 2 = LA (consume cts) 1"
  by (simp add: LA_def tokLT_2_consume settled_def)

lemma consume_end: "settled cts \<Longrightarrow> tokens_left cts = [] \<Longrightarrow> consume cts = cts"
  using tokens_left_Nil [of cts] by (simp add: consume_def)

text \<open>Looking back one token finds one if any token before is on the channel.\<close>

lemma skipOffReverse_nonneg:
  "j \<le> x \<Longrightarrow> 0 \<le> j \<Longrightarrow> on_channel (toks ! nat j) \<Longrightarrow> 0 \<le> skipOffTokenChannelsReverse toks x"
proof (induction toks x rule: skipOffTokenChannelsReverse.induct)
  case (1 toks x)
  show ?case
  proof (cases "on_channel (toks ! nat x)")
    case False
    with 1(3,4) have "0 \<le> x" "x \<noteq> j" using 1(2) by auto
    with 1 False show ?thesis by (subst skipOffTokenChannelsReverse.simps) simp
  next
    case True
    with 1(2,3) show ?thesis by (subst skipOffTokenChannelsReverse.simps) simp
  qed
qed

lemma LB_1_end:
  assumes "settled cts" "tokens_left cts = []" "\<exists>t \<in> set (cts_tokens cts). on_channel t"
  shows "LB cts (Suc 0) \<noteq> None"
proof -
  have p: "cts_p cts = length (cts_tokens cts)" using assms(1,2) tokens_left_Nil by blast
  obtain j where j: "j < length (cts_tokens cts)" "on_channel (cts_tokens cts ! j)"
    using assms(3) by (auto simp: in_set_conv_nth)
  then have "0 \<le> skipOffTokenChannelsReverse (cts_tokens cts) (int (cts_p cts) - 1)"
    using p by (intro skipOffReverse_nonneg [of "int j"]) auto
  then show ?thesis using j p by (auto simp: LB_def Let_def)
qed

section \<open>The interface of the automata\<close>

definition token_inv :: "token_stream \<Rightarrow> bool" where
  "token_inv cts \<longleftrightarrow> settled cts \<and> proper_types (cts_tokens cts)"

definition types_left :: "token_stream \<Rightarrow> int list" where
  "types_left cts = map (\<lambda>t. int (tk_type t)) (tokens_left cts)"

interpretation tokens: int_stream token_inv "\<lambda>cts. int (LA cts 1)" consume types_left
proof
  fix cts :: token_stream and c :: int and cs
  assume i: "token_inv cts"
  then have s: "settled cts" by (simp add: token_inv_def)
  show "token_inv (consume cts)" using i by (simp add: token_inv_def)
  show "types_left cts = [] \<Longrightarrow> int (LA cts 1) = ANTLR3_CHARSTREAM_EOF"
    using LA_1 [OF s] by (simp add: types_left_def ANTLR3_TOKEN_EOF_def ANTLR3_CHARSTREAM_EOF_def)
  assume "types_left cts = c # cs"
  then obtain t ts where t: "tokens_left cts = t # ts" "c = int (tk_type t)" "cs = map (\<lambda>t. int (tk_type t)) ts"
    by (auto simp: types_left_def)
  show "int (LA cts 1) = c" using LA_1 [OF s] t by simp
  show "types_left (consume cts) = cs" using tokens_left_consume [OF s] t by (simp add: types_left_def)
  have "t \<in> set (tokens_left cts)" using t(1) by simp
  then have "t \<in> set (cts_tokens cts)" by (auto simp: tokens_left_def dest: in_set_dropD)
  then show "0 \<le> c \<and> c < 2147483648" using i t(2) by (auto simp: token_inv_def proper_types_def)
qed

end
