(* ===== verification/RM_Parser_Tables.thy ===== *)
theory RM_Parser_Tables
  imports Antlr_Parser
begin

text \<open>
  The constants of the generated parser, \<^verbatim>\<open>src/src/parser/RepositoryManagerParser.c\<close>: the token
  names, the follow sets that error recovery uses, and the tables of the automaton that
  predicts the alternative of \<^verbatim>\<open>clause\<close>. They are the arrays of the source, number by number.
\<close>

section \<open>Token names\<close>

definition quoted :: "string \<Rightarrow> string" where
  "quoted s = CHR 0x27 # s @ [CHR 0x27]"

definition RepositoryManagerParserTokenNames :: "string list" where
  "RepositoryManagerParserTokenNames =
    [''<invalid>'', ''<EOR>'', ''<DOWN>'', ''<UP>'', ''CERT'', ''CERT_END'', ''CERT_HEADER'',
     ''CHALLENGE_END'', ''CHALLENGE_HEADER'', ''CLAUSE'', ''CREDENTIAL'', ''CREDENTIAL_END'',
     ''CREDENTIAL_HEADER'', ''END'', ''END_CERT'', ''END_SIG'', ''NOT_AFTER'', ''NOT_BEFORE'', ''NUM'',
     ''PK'', ''PUBLIC_KEY_END'', ''PUBLIC_KEY_HEADER'', ''REPLY_END'', ''REPLY_HEADER'', ''REQUEST_END'',
     ''REQUEST_HEADER'', ''RESPONSE_END'', ''RESPONSE_HEADER'', ''SIG'', ''SIGNATURE_END'',
     ''SIGNATURE_HEADER'', ''START_TIME'', ''STOP_TIME'', ''TEXT'', ''VALIDITY'', ''VALIDITY_END'',
     ''VALIDITY_HEADER'', ''VALUE'', ''WS'', quoted ''('', quoted '')'', quoted '','', quoted ''.'',
     quoted '':-'', quoted ''datime'', quoted ''request'', quoted ''says'']"

section \<open>Follow sets\<close>

text \<open>Each follow set is the 64 bit word of the source.\<close>

definition FOLLOW_CREDENTIAL_HEADER_in_credential121 :: "64 word" where "FOLLOW_CREDENTIAL_HEADER_in_credential121 = 0x200000"
definition FOLLOW_public_key_in_credential123 :: "64 word" where "FOLLOW_public_key_in_credential123 = 0x840"
definition FOLLOW_certificate_in_credential125 :: "64 word" where "FOLLOW_certificate_in_credential125 = 0x840"
definition FOLLOW_CREDENTIAL_END_in_credential128 :: "64 word" where "FOLLOW_CREDENTIAL_END_in_credential128 = 0x2"
definition FOLLOW_PUBLIC_KEY_HEADER_in_public_key155 :: "64 word" where "FOLLOW_PUBLIC_KEY_HEADER_in_public_key155 = 0x200000000"
definition FOLLOW_base64_in_public_key157 :: "64 word" where "FOLLOW_base64_in_public_key157 = 0x100000"
definition FOLLOW_PUBLIC_KEY_END_in_public_key159 :: "64 word" where "FOLLOW_PUBLIC_KEY_END_in_public_key159 = 0x2"
definition FOLLOW_SIGNATURE_HEADER_in_signature175 :: "64 word" where "FOLLOW_SIGNATURE_HEADER_in_signature175 = 0x200000000"
definition FOLLOW_base64_in_signature177 :: "64 word" where "FOLLOW_base64_in_signature177 = 0x20000000"
definition FOLLOW_SIGNATURE_END_in_signature179 :: "64 word" where "FOLLOW_SIGNATURE_END_in_signature179 = 0x2"
definition FOLLOW_VALIDITY_HEADER_in_validity194 :: "64 word" where "FOLLOW_VALIDITY_HEADER_in_validity194 = 0x20000"
definition FOLLOW_NOT_BEFORE_in_validity196 :: "64 word" where "FOLLOW_NOT_BEFORE_in_validity196 = 0x100000000000"
definition FOLLOW_time_tuple_in_validity198 :: "64 word" where "FOLLOW_time_tuple_in_validity198 = 0x10000"
definition FOLLOW_NOT_AFTER_in_validity200 :: "64 word" where "FOLLOW_NOT_AFTER_in_validity200 = 0x100000000000"
definition FOLLOW_time_tuple_in_validity202 :: "64 word" where "FOLLOW_time_tuple_in_validity202 = 0x800000000"
definition FOLLOW_VALIDITY_END_in_validity204 :: "64 word" where "FOLLOW_VALIDITY_END_in_validity204 = 0x2"
definition FOLLOW_44_in_time_tuple232 :: "64 word" where "FOLLOW_44_in_time_tuple232 = 0x8000000000"
definition FOLLOW_39_in_time_tuple234 :: "64 word" where "FOLLOW_39_in_time_tuple234 = 0x40000"
definition FOLLOW_num_in_time_tuple236 :: "64 word" where "FOLLOW_num_in_time_tuple236 = 0x20000000000"
definition FOLLOW_41_in_time_tuple238 :: "64 word" where "FOLLOW_41_in_time_tuple238 = 0x40000"
definition FOLLOW_num_in_time_tuple240 :: "64 word" where "FOLLOW_num_in_time_tuple240 = 0x20000000000"
definition FOLLOW_41_in_time_tuple242 :: "64 word" where "FOLLOW_41_in_time_tuple242 = 0x40000"
definition FOLLOW_num_in_time_tuple244 :: "64 word" where "FOLLOW_num_in_time_tuple244 = 0x20000000000"
definition FOLLOW_41_in_time_tuple246 :: "64 word" where "FOLLOW_41_in_time_tuple246 = 0x40000"
definition FOLLOW_num_in_time_tuple248 :: "64 word" where "FOLLOW_num_in_time_tuple248 = 0x20000000000"
definition FOLLOW_41_in_time_tuple250 :: "64 word" where "FOLLOW_41_in_time_tuple250 = 0x40000"
definition FOLLOW_num_in_time_tuple252 :: "64 word" where "FOLLOW_num_in_time_tuple252 = 0x20000000000"
definition FOLLOW_41_in_time_tuple254 :: "64 word" where "FOLLOW_41_in_time_tuple254 = 0x40000"
definition FOLLOW_num_in_time_tuple256 :: "64 word" where "FOLLOW_num_in_time_tuple256 = 0x10000000000"
definition FOLLOW_40_in_time_tuple258 :: "64 word" where "FOLLOW_40_in_time_tuple258 = 0x40000000000"
definition FOLLOW_42_in_time_tuple261 :: "64 word" where "FOLLOW_42_in_time_tuple261 = 0x2"
definition FOLLOW_CERT_HEADER_in_certificate276 :: "64 word" where "FOLLOW_CERT_HEADER_in_certificate276 = 0x400200000000"
definition FOLLOW_clause_in_certificate278 :: "64 word" where "FOLLOW_clause_in_certificate278 = 0x401200000000"
definition FOLLOW_validity_in_certificate281 :: "64 word" where "FOLLOW_validity_in_certificate281 = 0x200000"
definition FOLLOW_public_key_in_certificate283 :: "64 word" where "FOLLOW_public_key_in_certificate283 = 0x40000000"
definition FOLLOW_signature_in_certificate285 :: "64 word" where "FOLLOW_signature_in_certificate285 = 0x20"
definition FOLLOW_CERT_END_in_certificate287 :: "64 word" where "FOLLOW_CERT_END_in_certificate287 = 0x2"
definition FOLLOW_literal_in_clause322 :: "64 word" where "FOLLOW_literal_in_clause322 = 0x40000000000"
definition FOLLOW_42_in_clause324 :: "64 word" where "FOLLOW_42_in_clause324 = 0x2"
definition FOLLOW_literal_in_clause331 :: "64 word" where "FOLLOW_literal_in_clause331 = 0x80000000000"
definition FOLLOW_43_in_clause333 :: "64 word" where "FOLLOW_43_in_clause333 = 0x400200000000"
definition FOLLOW_literal_in_clause335 :: "64 word" where "FOLLOW_literal_in_clause335 = 0x60000000000"
definition FOLLOW_41_in_clause341 :: "64 word" where "FOLLOW_41_in_clause341 = 0x400200000000"
definition FOLLOW_literal_in_clause343 :: "64 word" where "FOLLOW_literal_in_clause343 = 0x60000000000"
definition FOLLOW_42_in_clause347 :: "64 word" where "FOLLOW_42_in_clause347 = 0x2"
definition FOLLOW_predicate_in_literal362 :: "64 word" where "FOLLOW_predicate_in_literal362 = 0x2"
definition FOLLOW_46_in_literal369 :: "64 word" where "FOLLOW_46_in_literal369 = 0x8000000000"
definition FOLLOW_39_in_literal371 :: "64 word" where "FOLLOW_39_in_literal371 = 0x200000000"
definition FOLLOW_text_in_literal373 :: "64 word" where "FOLLOW_text_in_literal373 = 0x20000000000"
definition FOLLOW_41_in_literal375 :: "64 word" where "FOLLOW_41_in_literal375 = 0x200000000"
definition FOLLOW_predicate_in_literal377 :: "64 word" where "FOLLOW_predicate_in_literal377 = 0x10000000000"
definition FOLLOW_40_in_literal379 :: "64 word" where "FOLLOW_40_in_literal379 = 0x2"
definition FOLLOW_text_in_predicate394 :: "64 word" where "FOLLOW_text_in_predicate394 = 0x8000000000"
definition FOLLOW_39_in_predicate397 :: "64 word" where "FOLLOW_39_in_predicate397 = 0x200000000"
definition FOLLOW_text_in_predicate399 :: "64 word" where "FOLLOW_text_in_predicate399 = 0x30000000000"
definition FOLLOW_41_in_predicate405 :: "64 word" where "FOLLOW_41_in_predicate405 = 0x200000000"
definition FOLLOW_text_in_predicate406 :: "64 word" where "FOLLOW_text_in_predicate406 = 0x30000000000"
definition FOLLOW_40_in_predicate410 :: "64 word" where "FOLLOW_40_in_predicate410 = 0x2"
definition FOLLOW_CHALLENGE_HEADER_in_challenge425 :: "64 word" where "FOLLOW_CHALLENGE_HEADER_in_challenge425 = 0x200000000"
definition FOLLOW_text_in_challenge427 :: "64 word" where "FOLLOW_text_in_challenge427 = 0x80"
definition FOLLOW_CHALLENGE_END_in_challenge429 :: "64 word" where "FOLLOW_CHALLENGE_END_in_challenge429 = 0x2"
definition FOLLOW_RESPONSE_HEADER_in_response444 :: "64 word" where "FOLLOW_RESPONSE_HEADER_in_response444 = 0x200000000"
definition FOLLOW_base64_in_response446 :: "64 word" where "FOLLOW_base64_in_response446 = 0x4000000"
definition FOLLOW_RESPONSE_END_in_response448 :: "64 word" where "FOLLOW_RESPONSE_END_in_response448 = 0x2"
definition FOLLOW_REQUEST_HEADER_in_request463 :: "64 word" where "FOLLOW_REQUEST_HEADER_in_request463 = 0x200000000000"
definition FOLLOW_45_in_request465 :: "64 word" where "FOLLOW_45_in_request465 = 0x8000000000"
definition FOLLOW_39_in_request467 :: "64 word" where "FOLLOW_39_in_request467 = 0x200000000"
definition FOLLOW_op_in_request469 :: "64 word" where "FOLLOW_op_in_request469 = 0x20000000000"
definition FOLLOW_41_in_request471 :: "64 word" where "FOLLOW_41_in_request471 = 0x200000000"
definition FOLLOW_text_in_request473 :: "64 word" where "FOLLOW_text_in_request473 = 0x10000000000"
definition FOLLOW_40_in_request475 :: "64 word" where "FOLLOW_40_in_request475 = 0x1000000"
definition FOLLOW_REQUEST_END_in_request477 :: "64 word" where "FOLLOW_REQUEST_END_in_request477 = 0x2"
definition FOLLOW_text_in_op492 :: "64 word" where "FOLLOW_text_in_op492 = 0x2"
definition FOLLOW_REPLY_HEADER_in_reply507 :: "64 word" where "FOLLOW_REPLY_HEADER_in_reply507 = 0x200000000"
definition FOLLOW_result_in_reply509 :: "64 word" where "FOLLOW_result_in_reply509 = 0x400000"
definition FOLLOW_REPLY_END_in_reply511 :: "64 word" where "FOLLOW_REPLY_END_in_reply511 = 0x2"
definition FOLLOW_text_in_result526 :: "64 word" where "FOLLOW_text_in_result526 = 0x2"
definition FOLLOW_TEXT_in_text541 :: "64 word" where "FOLLOW_TEXT_in_text541 = 0x2"
definition FOLLOW_text_in_base64556 :: "64 word" where "FOLLOW_text_in_base64556 = 0x200000002"
definition FOLLOW_NUM_in_num572 :: "64 word" where "FOLLOW_NUM_in_num572 = 0x2"

lemmas follow_sets =
  FOLLOW_CREDENTIAL_HEADER_in_credential121_def FOLLOW_public_key_in_credential123_def
  FOLLOW_certificate_in_credential125_def FOLLOW_CREDENTIAL_END_in_credential128_def
  FOLLOW_PUBLIC_KEY_HEADER_in_public_key155_def FOLLOW_base64_in_public_key157_def
  FOLLOW_PUBLIC_KEY_END_in_public_key159_def FOLLOW_SIGNATURE_HEADER_in_signature175_def
  FOLLOW_base64_in_signature177_def FOLLOW_SIGNATURE_END_in_signature179_def
  FOLLOW_VALIDITY_HEADER_in_validity194_def FOLLOW_NOT_BEFORE_in_validity196_def
  FOLLOW_time_tuple_in_validity198_def FOLLOW_NOT_AFTER_in_validity200_def FOLLOW_time_tuple_in_validity202_def
  FOLLOW_VALIDITY_END_in_validity204_def FOLLOW_44_in_time_tuple232_def FOLLOW_39_in_time_tuple234_def
  FOLLOW_num_in_time_tuple236_def FOLLOW_41_in_time_tuple238_def FOLLOW_num_in_time_tuple240_def
  FOLLOW_41_in_time_tuple242_def FOLLOW_num_in_time_tuple244_def FOLLOW_41_in_time_tuple246_def
  FOLLOW_num_in_time_tuple248_def FOLLOW_41_in_time_tuple250_def FOLLOW_num_in_time_tuple252_def
  FOLLOW_41_in_time_tuple254_def FOLLOW_num_in_time_tuple256_def FOLLOW_40_in_time_tuple258_def
  FOLLOW_42_in_time_tuple261_def FOLLOW_CERT_HEADER_in_certificate276_def FOLLOW_clause_in_certificate278_def
  FOLLOW_validity_in_certificate281_def FOLLOW_public_key_in_certificate283_def
  FOLLOW_signature_in_certificate285_def FOLLOW_CERT_END_in_certificate287_def FOLLOW_literal_in_clause322_def
  FOLLOW_42_in_clause324_def FOLLOW_literal_in_clause331_def FOLLOW_43_in_clause333_def
  FOLLOW_literal_in_clause335_def FOLLOW_41_in_clause341_def FOLLOW_literal_in_clause343_def
  FOLLOW_42_in_clause347_def FOLLOW_predicate_in_literal362_def FOLLOW_46_in_literal369_def
  FOLLOW_39_in_literal371_def FOLLOW_text_in_literal373_def FOLLOW_41_in_literal375_def
  FOLLOW_predicate_in_literal377_def FOLLOW_40_in_literal379_def FOLLOW_text_in_predicate394_def
  FOLLOW_39_in_predicate397_def FOLLOW_text_in_predicate399_def FOLLOW_41_in_predicate405_def
  FOLLOW_text_in_predicate406_def FOLLOW_40_in_predicate410_def FOLLOW_CHALLENGE_HEADER_in_challenge425_def
  FOLLOW_text_in_challenge427_def FOLLOW_CHALLENGE_END_in_challenge429_def
  FOLLOW_RESPONSE_HEADER_in_response444_def FOLLOW_base64_in_response446_def
  FOLLOW_RESPONSE_END_in_response448_def FOLLOW_REQUEST_HEADER_in_request463_def FOLLOW_45_in_request465_def
  FOLLOW_39_in_request467_def FOLLOW_op_in_request469_def FOLLOW_41_in_request471_def
  FOLLOW_text_in_request473_def FOLLOW_40_in_request475_def FOLLOW_REQUEST_END_in_request477_def
  FOLLOW_text_in_op492_def FOLLOW_REPLY_HEADER_in_reply507_def FOLLOW_result_in_reply509_def
  FOLLOW_REPLY_END_in_reply511_def FOLLOW_text_in_result526_def FOLLOW_TEXT_in_text541_def
  FOLLOW_text_in_base64556_def FOLLOW_NUM_in_num572_def

section \<open>The automaton of clause\<close>

definition pdfa4_eot :: "int list" where
  "pdfa4_eot =
    [-1, -1, -1, -1, -1, -1, -1, -1, -1, -1, -1, -1, -1, -1, -1, -1, -1, -1, -1, -1]"

definition pdfa4_eof :: "int list" where
  "pdfa4_eof =
    [-1, -1, -1, -1, -1, -1, -1, -1, -1, -1, -1, -1, -1, -1, -1, -1, -1, -1, -1, -1]"

definition pdfa4_min :: "int list" where
  "pdfa4_min =
    [33, 39, 39, 33, 33, 40, 41, 33, 42, 33, 40, -1, -1, 39, 33, 40, 33, 40, 40, 42]"

definition pdfa4_max :: "int list" where
  "pdfa4_max =
    [46, 39, 39, 33, 33, 41, 41, 33, 43, 33, 41, -1, -1, 39, 33, 41, 33, 40, 41, 43]"

definition pdfa4_accept :: "int list" where
  "pdfa4_accept =
    [-1, -1, -1, -1, -1, -1, -1, -1, -1, -1, -1, 1, 2, -1, -1, -1, -1, -1, -1, -1]"

definition pdfa4_special :: "int list" where
  "pdfa4_special =
    [-1, -1, -1, -1, -1, -1, -1, -1, -1, -1, -1, -1, -1, -1, -1, -1, -1, -1, -1, -1]"

definition pdfa4_T0 :: "int list" where
  "pdfa4_T0 = [17, 16]"

definition pdfa4_T1 :: "int list" where
  "pdfa4_T1 = [8, 7]"

definition pdfa4_T2 :: "int list" where
  "pdfa4_T2 = [13]"

definition pdfa4_T3 :: "int list" where
  "pdfa4_T3 = [9]"

definition pdfa4_T4 :: "int list" where
  "pdfa4_T4 = [1, -1, -1, -1, -1, -1, -1, -1, -1, -1, -1, -1, -1, 2]"

definition pdfa4_T5 :: "int list" where
  "pdfa4_T5 = [11, 12]"

definition pdfa4_T6 :: "int list" where
  "pdfa4_T6 = [14]"

definition pdfa4_T7 :: "int list" where
  "pdfa4_T7 = [3]"

definition pdfa4_T8 :: "int list" where
  "pdfa4_T8 = [15]"

definition pdfa4_T9 :: "int list" where
  "pdfa4_T9 = [5]"

definition pdfa4_T10 :: "int list" where
  "pdfa4_T10 = [4]"

definition pdfa4_T11 :: "int list" where
  "pdfa4_T11 = [19]"

definition pdfa4_T12 :: "int list" where
  "pdfa4_T12 = [6]"

definition pdfa4_T13 :: "int list" where
  "pdfa4_T13 = [18]"

definition pdfa4_T14 :: "int list" where
  "pdfa4_T14 = [10]"

definition pdfa4_transitions :: "int list option list" where
  "pdfa4_transitions =
    [Some pdfa4_T4, Some pdfa4_T7, Some pdfa4_T10, Some pdfa4_T9, Some pdfa4_T12, Some pdfa4_T1,
     Some pdfa4_T3, Some pdfa4_T14, Some pdfa4_T5, Some pdfa4_T2, Some pdfa4_T1, None, None, Some
     pdfa4_T6, Some pdfa4_T8, Some pdfa4_T0, Some pdfa4_T13, Some pdfa4_T11, Some pdfa4_T0, Some
     pdfa4_T5]"

definition pcdfa4 :: cyclic_dfa where
  "pcdfa4 = \<lparr>dfa_eot = pdfa4_eot, dfa_eof = pdfa4_eof, dfa_min = pdfa4_min, dfa_max = pdfa4_max, dfa_accept = pdfa4_accept,
     dfa_special = pdfa4_special, dfa_transition = pdfa4_transitions\<rparr>"

lemmas pdfa4_tables = pdfa4_eot_def pdfa4_eof_def pdfa4_min_def pdfa4_max_def pdfa4_accept_def pdfa4_special_def
  pdfa4_transitions_def
  pdfa4_T0_def pdfa4_T1_def pdfa4_T2_def pdfa4_T3_def pdfa4_T4_def pdfa4_T5_def pdfa4_T6_def pdfa4_T7_def
  pdfa4_T8_def pdfa4_T9_def pdfa4_T10_def pdfa4_T11_def pdfa4_T12_def pdfa4_T13_def pdfa4_T14_def

lemma pcdfa4_wf: "wf_dfa pcdfa4"
  by code_simp

end
