(* ===== verification/RM_Lexer_Tables.thy ===== *)
theory RM_Lexer_Tables
  imports Antlr_Input
begin

text \<open>
  The constants of the generated lexer, \<^verbatim>\<open>src/src/parser/RepositoryManagerLexer.h\<close> and
  \<^verbatim>\<open>RepositoryManagerLexer.c\<close>: the token types, the literals (as character codes,
  without the terminator) and the tables of the automaton that predicts the token rule. The
  tables are the arrays of the source, number by number; they are shown to be well-formed.
\<close>

section \<open>Token types\<close>

definition T__39 :: nat where "T__39 = 39"
definition T__40 :: nat where "T__40 = 40"
definition T__41 :: nat where "T__41 = 41"
definition T__42 :: nat where "T__42 = 42"
definition T__43 :: nat where "T__43 = 43"
definition T__44 :: nat where "T__44 = 44"
definition T__45 :: nat where "T__45 = 45"
definition T__46 :: nat where "T__46 = 46"
definition TK_CERT :: nat where "TK_CERT = 4"
definition TK_CERT_END :: nat where "TK_CERT_END = 5"
definition TK_CERT_HEADER :: nat where "TK_CERT_HEADER = 6"
definition TK_CHALLENGE_END :: nat where "TK_CHALLENGE_END = 7"
definition TK_CHALLENGE_HEADER :: nat where "TK_CHALLENGE_HEADER = 8"
definition TK_CLAUSE :: nat where "TK_CLAUSE = 9"
definition TK_CREDENTIAL :: nat where "TK_CREDENTIAL = 10"
definition TK_CREDENTIAL_END :: nat where "TK_CREDENTIAL_END = 11"
definition TK_CREDENTIAL_HEADER :: nat where "TK_CREDENTIAL_HEADER = 12"
definition TK_END :: nat where "TK_END = 13"
definition TK_END_CERT :: nat where "TK_END_CERT = 14"
definition TK_END_SIG :: nat where "TK_END_SIG = 15"
definition TK_NOT_AFTER :: nat where "TK_NOT_AFTER = 16"
definition TK_NOT_BEFORE :: nat where "TK_NOT_BEFORE = 17"
definition TK_NUM :: nat where "TK_NUM = 18"
definition TK_PK :: nat where "TK_PK = 19"
definition TK_PUBLIC_KEY_END :: nat where "TK_PUBLIC_KEY_END = 20"
definition TK_PUBLIC_KEY_HEADER :: nat where "TK_PUBLIC_KEY_HEADER = 21"
definition TK_REPLY_END :: nat where "TK_REPLY_END = 22"
definition TK_REPLY_HEADER :: nat where "TK_REPLY_HEADER = 23"
definition TK_REQUEST_END :: nat where "TK_REQUEST_END = 24"
definition TK_REQUEST_HEADER :: nat where "TK_REQUEST_HEADER = 25"
definition TK_RESPONSE_END :: nat where "TK_RESPONSE_END = 26"
definition TK_RESPONSE_HEADER :: nat where "TK_RESPONSE_HEADER = 27"
definition TK_SIG :: nat where "TK_SIG = 28"
definition TK_SIGNATURE_END :: nat where "TK_SIGNATURE_END = 29"
definition TK_SIGNATURE_HEADER :: nat where "TK_SIGNATURE_HEADER = 30"
definition TK_START_TIME :: nat where "TK_START_TIME = 31"
definition TK_STOP_TIME :: nat where "TK_STOP_TIME = 32"
definition TK_TEXT :: nat where "TK_TEXT = 33"
definition TK_VALIDITY :: nat where "TK_VALIDITY = 34"
definition TK_VALIDITY_END :: nat where "TK_VALIDITY_END = 35"
definition TK_VALIDITY_HEADER :: nat where "TK_VALIDITY_HEADER = 36"
definition TK_VALUE :: nat where "TK_VALUE = 37"
definition TK_WS :: nat where "TK_WS = 38"

lemmas token_types = T__39_def T__40_def T__41_def T__42_def T__43_def T__44_def T__45_def T__46_def
  TK_CERT_def TK_CERT_END_def TK_CERT_HEADER_def TK_CHALLENGE_END_def
  TK_CHALLENGE_HEADER_def TK_CLAUSE_def TK_CREDENTIAL_def TK_CREDENTIAL_END_def
  TK_CREDENTIAL_HEADER_def TK_END_def TK_END_CERT_def TK_END_SIG_def TK_NOT_AFTER_def
  TK_NOT_BEFORE_def TK_NUM_def TK_PK_def TK_PUBLIC_KEY_END_def TK_PUBLIC_KEY_HEADER_def
  TK_REPLY_END_def TK_REPLY_HEADER_def TK_REQUEST_END_def TK_REQUEST_HEADER_def
  TK_RESPONSE_END_def TK_RESPONSE_HEADER_def TK_SIG_def TK_SIGNATURE_END_def
  TK_SIGNATURE_HEADER_def TK_START_TIME_def TK_STOP_TIME_def TK_TEXT_def TK_VALIDITY_def
  TK_VALIDITY_END_def TK_VALIDITY_HEADER_def TK_VALUE_def TK_WS_def

section \<open>Literals\<close>

definition lit_1 :: "int list" where
  "lit_1 =
    [58, 45]"

definition lit_2 :: "int list" where
  "lit_2 =
    [100, 97, 116, 105, 109, 101]"

definition lit_3 :: "int list" where
  "lit_3 =
    [114, 101, 113, 117, 101, 115, 116]"

definition lit_4 :: "int list" where
  "lit_4 =
    [115, 97, 121, 115]"

definition lit_5 :: "int list" where
  "lit_5 =
    [45, 45, 45, 45, 45, 66, 69, 71, 73, 78, 32, 77, 80, 75, 73, 32, 67, 82, 69, 68, 69, 78, 84, 73,
     65, 76, 45, 45, 45, 45, 45]"

definition lit_6 :: "int list" where
  "lit_6 =
    [45, 45, 45, 45, 45, 69, 78, 68, 32, 77, 80, 75, 73, 32, 67, 82, 69, 68, 69, 78, 84, 73, 65, 76,
     45, 45, 45, 45, 45]"

definition lit_7 :: "int list" where
  "lit_7 =
    [45, 45, 45, 45, 45, 66, 69, 71, 73, 78, 32, 80, 85, 66, 76, 73, 67, 32, 75, 69, 89, 45, 45, 45,
     45, 45]"

definition lit_8 :: "int list" where
  "lit_8 =
    [45, 45, 45, 45, 45, 69, 78, 68, 32, 80, 85, 66, 76, 73, 67, 32, 75, 69, 89, 45, 45, 45, 45, 45]"

definition lit_9 :: "int list" where
  "lit_9 =
    [45, 45, 45, 45, 45, 66, 69, 71, 73, 78, 32, 83, 73, 71, 78, 65, 84, 85, 82, 69, 45, 45, 45, 45,
     45]"

definition lit_10 :: "int list" where
  "lit_10 =
    [45, 45, 45, 45, 45, 69, 78, 68, 32, 83, 73, 71, 78, 65, 84, 85, 82, 69, 45, 45, 45, 45, 45]"

definition lit_11 :: "int list" where
  "lit_11 =
    [45, 45, 45, 45, 45, 66, 69, 71, 73, 78, 32, 86, 65, 76, 73, 68, 73, 84, 89, 45, 45, 45, 45, 45]"

definition lit_12 :: "int list" where
  "lit_12 =
    [45, 45, 45, 45, 45, 69, 78, 68, 32, 86, 65, 76, 73, 68, 73, 84, 89, 45, 45, 45, 45, 45]"

definition lit_13 :: "int list" where
  "lit_13 =
    [45, 45, 45, 45, 45, 66, 69, 71, 73, 78, 32, 77, 80, 75, 73, 32, 67, 69, 82, 84, 73, 70, 73, 67,
     65, 84, 69, 45, 45, 45, 45, 45]"

definition lit_14 :: "int list" where
  "lit_14 =
    [45, 45, 45, 45, 45, 69, 78, 68, 32, 77, 80, 75, 73, 32, 67, 69, 82, 84, 73, 70, 73, 67, 65, 84,
     69, 45, 45, 45, 45, 45]"

definition lit_15 :: "int list" where
  "lit_15 =
    [45, 45, 45, 45, 45, 66, 69, 71, 73, 78, 32, 77, 80, 75, 73, 32, 67, 72, 65, 76, 76, 69, 78, 71,
     69, 45, 45, 45, 45, 45]"

definition lit_16 :: "int list" where
  "lit_16 =
    [45, 45, 45, 45, 45, 69, 78, 68, 32, 77, 80, 75, 73, 32, 67, 72, 65, 76, 76, 69, 78, 71, 69, 45,
     45, 45, 45, 45]"

definition lit_17 :: "int list" where
  "lit_17 =
    [45, 45, 45, 45, 45, 66, 69, 71, 73, 78, 32, 77, 80, 75, 73, 32, 67, 72, 65, 76, 76, 69, 78, 71,
     69, 32, 82, 69, 83, 80, 79, 78, 83, 69, 45, 45, 45, 45, 45]"

definition lit_18 :: "int list" where
  "lit_18 =
    [45, 45, 45, 45, 45, 69, 78, 68, 32, 77, 80, 75, 73, 32, 67, 72, 65, 76, 76, 69, 78, 71, 69, 32,
     82, 69, 83, 80, 79, 78, 83, 69, 45, 45, 45, 45, 45]"

definition lit_19 :: "int list" where
  "lit_19 =
    [45, 45, 45, 45, 45, 66, 69, 71, 73, 78, 32, 82, 69, 80, 79, 83, 73, 84, 79, 82, 89, 32, 67, 76,
     73, 69, 78, 84, 32, 82, 69, 81, 85, 69, 83, 84, 45, 45, 45, 45, 45]"

definition lit_20 :: "int list" where
  "lit_20 =
    [45, 45, 45, 45, 45, 69, 78, 68, 32, 82, 69, 80, 79, 83, 73, 84, 79, 82, 89, 32, 67, 76, 73, 69,
     78, 84, 32, 82, 69, 81, 85, 69, 83, 84, 45, 45, 45, 45, 45]"

definition lit_21 :: "int list" where
  "lit_21 =
    [45, 45, 45, 45, 45, 66, 69, 71, 73, 78, 32, 82, 69, 80, 79, 83, 73, 84, 79, 82, 89, 32, 83, 69,
     82, 86, 69, 82, 32, 82, 69, 80, 76, 89, 45, 45, 45, 45, 45]"

definition lit_22 :: "int list" where
  "lit_22 =
    [45, 45, 45, 45, 45, 69, 78, 68, 32, 82, 69, 80, 79, 83, 73, 84, 79, 82, 89, 32, 83, 69, 82, 86,
     69, 82, 32, 82, 69, 80, 76, 89, 45, 45, 45, 45, 45]"

definition lit_23 :: "int list" where
  "lit_23 =
    [78, 111, 116, 32, 98, 101, 102, 111, 114, 101, 58]"

definition lit_24 :: "int list" where
  "lit_24 =
    [78, 111, 116, 32, 97, 102, 116, 101, 114, 58]"

lemmas literals = lit_1_def lit_2_def lit_3_def lit_4_def lit_5_def lit_6_def lit_7_def lit_8_def
  lit_9_def lit_10_def lit_11_def lit_12_def lit_13_def lit_14_def lit_15_def lit_16_def
  lit_17_def lit_18_def lit_19_def lit_20_def lit_21_def lit_22_def lit_23_def lit_24_def

section \<open>The tables of the token automaton\<close>

definition dfa4_eot :: "int list" where
  "dfa4_eot =
    [11, -1, -1, -1, -1, 14, 14, 14, 14, -1, 11, -1, 14, 14, -1, 21, 14, 14, 14, 14, 14, -1, 14, 14,
     14, 14, 14, 14, 14, 34, 14, -1, 14, 14, -1, 14, -1, -1, 42, 14, 14, 14, -1, 46, 14, 14, -1, 14,
     14, 14, -1, 14, -1, -1, -1, -1, -1, -1, -1, -1, -1, -1, -1, -1, -1, -1, -1, -1, -1, -1, -1, -1,
     -1, -1, -1, -1, -1, -1, -1, -1, -1, -1, -1, -1, -1, -1, -1, -1, -1, -1, -1, -1, -1, -1, -1, -1,
     -1, -1, -1, -1, -1, -1, -1, -1, -1, -1, -1, -1, -1, -1, -1, -1, -1, -1, -1, -1, -1, -1, -1, -1,
     -1]"

definition dfa4_eof :: "int list" where
  "dfa4_eof =
    [-1, -1, -1, -1, -1, -1, -1, -1, -1, -1, -1, -1, -1, -1, -1, -1, -1, -1, -1, -1, -1, -1, -1, -1,
     -1, -1, -1, -1, -1, -1, -1, -1, -1, -1, -1, -1, -1, -1, -1, -1, -1, -1, -1, -1, -1, -1, -1, -1,
     -1, -1, -1, -1, -1, -1, -1, -1, -1, -1, -1, -1, -1, -1, -1, -1, -1, -1, -1, -1, -1, -1, -1, -1,
     -1, -1, -1, -1, -1, -1, -1, -1, -1, -1, -1, -1, -1, -1, -1, -1, -1, -1, -1, -1, -1, -1, -1, -1,
     -1, -1, -1, -1, -1, -1, -1, -1, -1, -1, -1, -1, -1, -1, -1, -1, -1, -1, -1, -1, -1, -1, -1, -1,
     -1]"

definition dfa4_min :: "int list" where
  "dfa4_min =
    [9, -1, -1, -1, -1, 45, 97, 101, 97, -1, 43, -1, 45, 111, -1, 43, 116, 113, 121, 45, 116, -1,
     105, 117, 115, 45, 32, 109, 101, 43, 45, 97, 101, 115, -1, 66, -1, -1, 43, 116, 69, 78, -1, 43,
     71, 68, -1, 73, 32, 78, 77, 32, 80, -1, -1, -1, 69, 77, 75, 80, 80, -1, -1, -1, 69, 73, 79, 75,
     80, 32, 83, 73, 79, 67, 73, 32, 83, 69, 84, 67, 73, -1, -1, 65, 79, 69, 84, 76, 82, -1, -1, 65,
     79, 76, 89, 76, 82, 69, 32, 76, 89, 78, 67, 69, 32, 71, -1, -1, 78, 67, 69, 71, -1, -1, 32, 69,
     -1, -1, 32, -1, -1]"

definition dfa4_max :: "int list" where
  "dfa4_max =
    [122, -1, -1, -1, -1, 45, 97, 101, 97, -1, 122, -1, 45, 111, -1, 122, 116, 113, 121, 45, 116,
     -1, 105, 117, 115, 45, 32, 109, 101, 122, 45, 98, 101, 115, -1, 69, -1, -1, 122, 116, 69, 78,
     -1, 122, 71, 68, -1, 73, 32, 78, 86, 32, 80, -1, -1, -1, 69, 86, 75, 80, 80, -1, -1, -1, 69,
     73, 79, 75, 80, 32, 83, 73, 79, 67, 73, 32, 83, 82, 84, 67, 73, -1, -1, 65, 79, 82, 84, 76, 82,
     -1, -1, 65, 79, 76, 89, 76, 82, 69, 32, 76, 89, 78, 83, 69, 32, 71, -1, -1, 78, 83, 69, 71, -1,
     -1, 45, 69, -1, -1, 45, -1, -1]"

definition dfa4_accept :: "int list" where
  "dfa4_accept =
    [-1, 1, 2, 3, 4, -1, -1, -1, -1, 9, -1, 10, -1, -1, 11, -1, -1, -1, -1, -1, -1, 5, -1, -1, -1,
     -1, -1, -1, -1, -1, -1, -1, -1, -1, 8, -1, 30, 31, -1, -1, -1, -1, 6, -1, -1, -1, 7, -1, -1,
     -1, -1, -1, -1, 15, 17, 19, -1, -1, -1, -1, -1, 14, 16, 18, -1, -1, -1, -1, -1, -1, -1, -1, -1,
     -1, -1, -1, -1, -1, -1, -1, -1, 13, 21, -1, -1, -1, -1, -1, -1, 12, 20, -1, -1, -1, -1, -1, -1,
     -1, -1, -1, -1, -1, -1, -1, -1, -1, 27, 29, -1, -1, -1, -1, 26, 28, -1, -1, 23, 25, -1, 22, 24]"

definition dfa4_special :: "int list" where
  "dfa4_special =
    [-1, -1, -1, -1, -1, -1, -1, -1, -1, -1, -1, -1, -1, -1, -1, -1, -1, -1, -1, -1, -1, -1, -1, -1,
     -1, -1, -1, -1, -1, -1, -1, -1, -1, -1, -1, -1, -1, -1, -1, -1, -1, -1, -1, -1, -1, -1, -1, -1,
     -1, -1, -1, -1, -1, -1, -1, -1, -1, -1, -1, -1, -1, -1, -1, -1, -1, -1, -1, -1, -1, -1, -1, -1,
     -1, -1, -1, -1, -1, -1, -1, -1, -1, -1, -1, -1, -1, -1, -1, -1, -1, -1, -1, -1, -1, -1, -1, -1,
     -1, -1, -1, -1, -1, -1, -1, -1, -1, -1, -1, -1, -1, -1, -1, -1, -1, -1, -1, -1, -1, -1, -1, -1,
     -1]"

definition dfa4_T0 :: "int list" where
  "dfa4_T0 =
    [26]"

definition dfa4_T1 :: "int list" where
  "dfa4_T1 =
    [59]"

definition dfa4_T2 :: "int list" where
  "dfa4_T2 =
    [20]"

definition dfa4_T3 :: "int list" where
  "dfa4_T3 =
    [31]"

definition dfa4_T4 :: "int list" where
  "dfa4_T4 =
    [14, -1, 14, -1, 14, 14, 14, 14, 14, 14, 14, 14, 14, 14, 14, 14, -1, -1, 14, -1, -1, -1, 14, 14,
     14, 14, 14, 14, 14, 14, 14, 14, 14, 14, 14, 14, 14, 14, 14, 14, 14, 14, 14, 14, 14, 14, 14, 14,
     -1, -1, -1, -1, 14, -1, 14, 14, 14, 14, 14, 14, 14, 14, 14, 14, 14, 14, 14, 14, 14, 14, 14, 14,
     14, 14, 14, 14, 14, 14, 14, 14]"

definition dfa4_T5 :: "int list" where
  "dfa4_T5 =
    [30]"

definition dfa4_T6 :: "int list" where
  "dfa4_T6 =
    [19]"

definition dfa4_T7 :: "int list" where
  "dfa4_T7 =
    [102]"

definition dfa4_T8 :: "int list" where
  "dfa4_T8 =
    [106, -1, -1, -1, -1, -1, -1, -1, -1, -1, -1, -1, -1, -1, -1, -1, 107]"

definition dfa4_T9 :: "int list" where
  "dfa4_T9 =
    [25]"

definition dfa4_T10 :: "int list" where
  "dfa4_T10 =
    [94]"

definition dfa4_T11 :: "int list" where
  "dfa4_T11 =
    [98]"

definition dfa4_T12 :: "int list" where
  "dfa4_T12 =
    [84]"

definition dfa4_T13 :: "int list" where
  "dfa4_T13 =
    [88]"

definition dfa4_T14 :: "int list" where
  "dfa4_T14 =
    [74]"

definition dfa4_T15 :: "int list" where
  "dfa4_T15 =
    [78]"

definition dfa4_T16 :: "int list" where
  "dfa4_T16 =
    [66]"

definition dfa4_T17 :: "int list" where
  "dfa4_T17 =
    [70]"

definition dfa4_T18 :: "int list" where
  "dfa4_T18 =
    [100]"

definition dfa4_T19 :: "int list" where
  "dfa4_T19 =
    [96]"

definition dfa4_T20 :: "int list" where
  "dfa4_T20 =
    [109]"

definition dfa4_T21 :: "int list" where
  "dfa4_T21 =
    [104]"

definition dfa4_T22 :: "int list" where
  "dfa4_T22 =
    [47]"

definition dfa4_T23 :: "int list" where
  "dfa4_T23 =
    [80]"

definition dfa4_T24 :: "int list" where
  "dfa4_T24 =
    [76]"

definition dfa4_T25 :: "int list" where
  "dfa4_T25 =
    [92]"

definition dfa4_T26 :: "int list" where
  "dfa4_T26 =
    [44]"

definition dfa4_T27 :: "int list" where
  "dfa4_T27 =
    [86]"

definition dfa4_T28 :: "int list" where
  "dfa4_T28 =
    [72]"

definition dfa4_T29 :: "int list" where
  "dfa4_T29 =
    [68]"

definition dfa4_T30 :: "int list" where
  "dfa4_T30 =
    [90, -1, -1, 91, -1, -1, -1, -1, -1, -1, -1, -1, -1, 89]"

definition dfa4_T31 :: "int list" where
  "dfa4_T31 =
    [101]"

definition dfa4_T32 :: "int list" where
  "dfa4_T32 =
    [97]"

definition dfa4_T33 :: "int list" where
  "dfa4_T33 =
    [85]"

definition dfa4_T34 :: "int list" where
  "dfa4_T34 =
    [110]"

definition dfa4_T35 :: "int list" where
  "dfa4_T35 =
    [105]"

definition dfa4_T36 :: "int list" where
  "dfa4_T36 =
    [37, 36]"

definition dfa4_T37 :: "int list" where
  "dfa4_T37 =
    [57]"

definition dfa4_T38 :: "int list" where
  "dfa4_T38 =
    [79]"

definition dfa4_T39 :: "int list" where
  "dfa4_T39 =
    [35]"

definition dfa4_T40 :: "int list" where
  "dfa4_T40 =
    [75]"

definition dfa4_T41 :: "int list" where
  "dfa4_T41 =
    [93]"

definition dfa4_T42 :: "int list" where
  "dfa4_T42 =
    [87]"

definition dfa4_T43 :: "int list" where
  "dfa4_T43 =
    [51]"

definition dfa4_T44 :: "int list" where
  "dfa4_T44 =
    [117, -1, -1, -1, -1, -1, -1, -1, -1, -1, -1, -1, -1, 116]"

definition dfa4_T45 :: "int list" where
  "dfa4_T45 =
    [112, -1, -1, -1, -1, -1, -1, -1, -1, -1, -1, -1, -1, -1, -1, -1, 113]"

definition dfa4_T46 :: "int list" where
  "dfa4_T46 =
    [114]"

definition dfa4_T47 :: "int list" where
  "dfa4_T47 =
    [40, -1, -1, 41]"

definition dfa4_T48 :: "int list" where
  "dfa4_T48 =
    [49]"

definition dfa4_T49 :: "int list" where
  "dfa4_T49 =
    [14, -1, 14, -1, 14, 10, 10, 10, 10, 10, 10, 10, 10, 10, 10, 14, -1, -1, 14, -1, -1, -1, 14, 14,
     14, 14, 14, 14, 14, 14, 14, 14, 14, 14, 14, 14, 14, 14, 14, 14, 14, 14, 14, 14, 14, 14, 14, 14,
     -1, -1, -1, -1, 14, -1, 14, 14, 14, 14, 14, 14, 14, 14, 14, 14, 14, 14, 14, 14, 14, 14, 14, 14,
     14, 14, 14, 14, 14, 14, 14, 14]"

definition dfa4_T50 :: "int list" where
  "dfa4_T50 =
    [52, -1, -1, 53, -1, 56, 54, -1, -1, 55]"

definition dfa4_T51 :: "int list" where
  "dfa4_T51 =
    [71]"

definition dfa4_T52 :: "int list" where
  "dfa4_T52 =
    [67]"

definition dfa4_T53 :: "int list" where
  "dfa4_T53 =
    [60, -1, -1, 61, -1, 64, 62, -1, -1, 63]"

definition dfa4_T54 :: "int list" where
  "dfa4_T54 =
    [15]"

definition dfa4_T55 :: "int list" where
  "dfa4_T55 =
    [38]"

definition dfa4_T56 :: "int list" where
  "dfa4_T56 =
    [27]"

definition dfa4_T57 :: "int list" where
  "dfa4_T57 =
    [32]"

definition dfa4_T58 :: "int list" where
  "dfa4_T58 =
    [16]"

definition dfa4_T59 :: "int list" where
  "dfa4_T59 =
    [22]"

definition dfa4_T60 :: "int list" where
  "dfa4_T60 =
    [39]"

definition dfa4_T61 :: "int list" where
  "dfa4_T61 =
    [115]"

definition dfa4_T62 :: "int list" where
  "dfa4_T62 =
    [33]"

definition dfa4_T63 :: "int list" where
  "dfa4_T63 =
    [28]"

definition dfa4_T64 :: "int list" where
  "dfa4_T64 =
    [118]"

definition dfa4_T65 :: "int list" where
  "dfa4_T65 =
    [23]"

definition dfa4_T66 :: "int list" where
  "dfa4_T66 =
    [17]"

definition dfa4_T67 :: "int list" where
  "dfa4_T67 =
    [120, -1, -1, -1, -1, -1, -1, -1, -1, -1, -1, -1, -1, 119]"

definition dfa4_T68 :: "int list" where
  "dfa4_T68 =
    [29]"

definition dfa4_T69 :: "int list" where
  "dfa4_T69 =
    [24]"

definition dfa4_T70 :: "int list" where
  "dfa4_T70 =
    [99]"

definition dfa4_T71 :: "int list" where
  "dfa4_T71 =
    [18]"

definition dfa4_T72 :: "int list" where
  "dfa4_T72 =
    [103]"

definition dfa4_T73 :: "int list" where
  "dfa4_T73 =
    [108]"

definition dfa4_T74 :: "int list" where
  "dfa4_T74 =
    [111]"

definition dfa4_T75 :: "int list" where
  "dfa4_T75 =
    [43]"

definition dfa4_T76 :: "int list" where
  "dfa4_T76 =
    [9, 9, -1, -1, 9, -1, -1, -1, -1, -1, -1, -1, -1, -1, -1, -1, -1, -1, -1, -1, -1, -1, -1, 9, -1,
     -1, -1, -1, -1, -1, -1, 1, 2, -1, 14, 3, 12, 4, 14, 10, 10, 10, 10, 10, 10, 10, 10, 10, 10, 5,
     -1, -1, 14, -1, -1, -1, 14, 14, 14, 14, 14, 14, 14, 14, 14, 14, 14, 14, 14, 13, 14, 14, 14, 14,
     14, 14, 14, 14, 14, 14, 14, 14, -1, -1, -1, -1, 14, -1, 14, 14, 14, 6, 14, 14, 14, 14, 14, 14,
     14, 14, 14, 14, 14, 14, 14, 7, 8, 14, 14, 14, 14, 14, 14, 14]"

definition dfa4_T77 :: "int list" where
  "dfa4_T77 =
    [65]"

definition dfa4_T78 :: "int list" where
  "dfa4_T78 =
    [95]"

definition dfa4_T79 :: "int list" where
  "dfa4_T79 =
    [58]"

definition dfa4_T80 :: "int list" where
  "dfa4_T80 =
    [48]"

definition dfa4_T81 :: "int list" where
  "dfa4_T81 =
    [50]"

definition dfa4_T82 :: "int list" where
  "dfa4_T82 =
    [73]"

definition dfa4_T83 :: "int list" where
  "dfa4_T83 =
    [69]"

definition dfa4_T84 :: "int list" where
  "dfa4_T84 =
    [82, -1, -1, 83, -1, -1, -1, -1, -1, -1, -1, -1, -1, 81]"

definition dfa4_T85 :: "int list" where
  "dfa4_T85 =
    [77]"

definition dfa4_T86 :: "int list" where
  "dfa4_T86 =
    [45]"

definition dfa4_transitions :: "int list option list" where
  "dfa4_transitions =
    [Some dfa4_T76, None, None, None, None, Some dfa4_T54, Some dfa4_T58, Some dfa4_T66,
     Some dfa4_T71, None, Some dfa4_T49, None, Some dfa4_T6, Some dfa4_T2, None, Some dfa4_T4,
     Some dfa4_T59, Some dfa4_T65, Some dfa4_T69, Some dfa4_T9, Some dfa4_T0, None, Some dfa4_T56,
     Some dfa4_T63, Some dfa4_T68, Some dfa4_T5, Some dfa4_T3, Some dfa4_T57, Some dfa4_T62,
     Some dfa4_T4, Some dfa4_T39, Some dfa4_T36, Some dfa4_T55, Some dfa4_T60, None, Some dfa4_T47,
     None, None, Some dfa4_T4, Some dfa4_T75, Some dfa4_T26, Some dfa4_T86, None, Some dfa4_T4,
     Some dfa4_T22, Some dfa4_T80, None, Some dfa4_T48, Some dfa4_T81, Some dfa4_T43, Some dfa4_T50,
     Some dfa4_T37, Some dfa4_T79, None, None, None, Some dfa4_T1, Some dfa4_T53, Some dfa4_T77,
     Some dfa4_T16, Some dfa4_T52, None, None, None, Some dfa4_T29, Some dfa4_T83, Some dfa4_T17,
     Some dfa4_T51, Some dfa4_T28, Some dfa4_T82, Some dfa4_T14, Some dfa4_T40, Some dfa4_T24,
     Some dfa4_T85, Some dfa4_T15, Some dfa4_T38, Some dfa4_T23, Some dfa4_T84, Some dfa4_T12,
     Some dfa4_T33, Some dfa4_T27, None, None, Some dfa4_T42, Some dfa4_T13, Some dfa4_T30,
     Some dfa4_T25, Some dfa4_T41, Some dfa4_T10, None, None, Some dfa4_T78, Some dfa4_T19,
     Some dfa4_T32, Some dfa4_T11, Some dfa4_T70, Some dfa4_T18, Some dfa4_T31, Some dfa4_T7,
     Some dfa4_T72, Some dfa4_T21, Some dfa4_T35, Some dfa4_T8, Some dfa4_T73, Some dfa4_T20,
     Some dfa4_T34, None, None, Some dfa4_T74, Some dfa4_T45, Some dfa4_T46, Some dfa4_T61, None,
     None, Some dfa4_T44, Some dfa4_T64, None, None, Some dfa4_T67, None, None]"

definition cdfa4 :: cyclic_dfa where
  "cdfa4 = \<lparr>dfa_eot = dfa4_eot, dfa_eof = dfa4_eof, dfa_min = dfa4_min, dfa_max = dfa4_max, dfa_accept = dfa4_accept,
     dfa_special = dfa4_special, dfa_transition = dfa4_transitions\<rparr>"

lemma cdfa4_wf: "wf_dfa cdfa4"
  by code_simp

end
