(* ===== verification/RM_Parser.thy ===== *)
theory RM_Parser
  imports RM_Parser_Tables RM_Lexer_Tables
begin

text \<open>
  The generated parser, \<^verbatim>\<open>src/src/parser/RepositoryManagerParser.c\<close>: one definition for each rule
  of the grammar, with the steps of the generated function in its order. \<open>parse_credential\<close> is the
  start rule of the program; the rules from \<open>parse_challenge\<close> on are generated but not used by it.
\<close>

section \<open>The rules without rewriting\<close>

definition parse_text :: rule_fun where
  "parse_text p = rule_exit (seqs [token_child TK_TEXT FOLLOW_TEXT_in_text541] (Some nilNode, p))"

definition parse_num :: rule_fun where
  "parse_num p = rule_exit (seqs [token_child TK_NUM FOLLOW_NUM_in_num572] (Some nilNode, p))"

definition parse_base64 :: rule_fun where
  "parse_base64 p = rule_exit (seqs
     [plus_loop (\<lambda>t. t = TK_TEXT) (rule_child FOLLOW_text_in_base64556 parse_text) 0] (Some nilNode, p))"

definition parse_public_key :: rule_fun where
  "parse_public_key p = rule_exit (seqs
     [token_child TK_PUBLIC_KEY_HEADER FOLLOW_PUBLIC_KEY_HEADER_in_public_key155,
      rule_child FOLLOW_base64_in_public_key157 parse_base64,
      token_child TK_PUBLIC_KEY_END FOLLOW_PUBLIC_KEY_END_in_public_key159] (Some nilNode, p))"

definition parse_signature :: rule_fun where
  "parse_signature p = rule_exit (seqs
     [token_child TK_SIGNATURE_HEADER FOLLOW_SIGNATURE_HEADER_in_signature175,
      rule_child FOLLOW_base64_in_signature177 parse_base64,
      token_child TK_SIGNATURE_END FOLLOW_SIGNATURE_END_in_signature179] (Some nilNode, p))"

definition parse_time_tuple :: rule_fun where
  "parse_time_tuple p = rule_exit (seqs
     [token_child T__44 FOLLOW_44_in_time_tuple232,
      token_child T__39 FOLLOW_39_in_time_tuple234,
      rule_child FOLLOW_num_in_time_tuple236 parse_num,
      token_child T__41 FOLLOW_41_in_time_tuple238,
      rule_child FOLLOW_num_in_time_tuple240 parse_num,
      token_child T__41 FOLLOW_41_in_time_tuple242,
      rule_child FOLLOW_num_in_time_tuple244 parse_num,
      token_child T__41 FOLLOW_41_in_time_tuple246,
      rule_child FOLLOW_num_in_time_tuple248 parse_num,
      token_child T__41 FOLLOW_41_in_time_tuple250,
      rule_child FOLLOW_num_in_time_tuple252 parse_num,
      token_child T__41 FOLLOW_41_in_time_tuple254,
      rule_child FOLLOW_num_in_time_tuple256 parse_num,
      token_child T__40 FOLLOW_40_in_time_tuple258,
      token_child T__42 FOLLOW_42_in_time_tuple261] (Some nilNode, p))"

definition parse_predicate :: rule_fun where
  "parse_predicate p = rule_exit (seqs
     [rule_child FOLLOW_text_in_predicate394 parse_text,
      token_child T__39 FOLLOW_39_in_predicate397,
      rule_child FOLLOW_text_in_predicate399 parse_text,
      star_loop (\<lambda>t. t = T__41)
        (seqs [token_child T__41 FOLLOW_41_in_predicate405, rule_child FOLLOW_text_in_predicate406 parse_text]),
      token_child T__40 FOLLOW_40_in_predicate410] (Some nilNode, p))"

definition parse_literal :: rule_fun where
  "parse_literal p = rule_exit
     (if p_LA p 1 = TK_TEXT then seqs [rule_child FOLLOW_predicate_in_literal362 parse_predicate] (Some nilNode, p)
      else if p_LA p 1 = T__46 then
        seqs
          [token_child T__46 FOLLOW_46_in_literal369,
           token_child T__39 FOLLOW_39_in_literal371,
           rule_child FOLLOW_text_in_literal373 parse_text,
           token_child T__41 FOLLOW_41_in_literal375,
           rule_child FOLLOW_predicate_in_literal377 parse_predicate,
           token_child T__40 FOLLOW_40_in_literal379] (Some nilNode, p)
      else ok (None, p_exConstruct p))"

definition clause_alt :: "parser \<Rightarrow> int option option" where
  "clause_alt p = antlr3dfapredict (\<lambda>cts. int (LA cts 1)) consume pcdfa4 (pr_cts p)"

definition parse_clause :: rule_fun where
  "parse_clause p = Option.bind (clause_alt p) (\<lambda>r. rule_exit
     (case r of
        None \<Rightarrow> ok (None, p_exConstruct p)
      | Some alt \<Rightarrow>
          if alt = 1 then
            seqs
              [rule_child FOLLOW_literal_in_clause322 parse_literal,
               token_child T__42 FOLLOW_42_in_clause324] (Some nilNode, p)
          else if alt = 2 then
            seqs
              [rule_child FOLLOW_literal_in_clause331 parse_literal,
               token_child T__43 FOLLOW_43_in_clause333,
               rule_child FOLLOW_literal_in_clause335 parse_literal,
               star_loop (\<lambda>t. t = T__41)
                 (seqs [token_child T__41 FOLLOW_41_in_clause341, rule_child FOLLOW_literal_in_clause343 parse_literal]),
               token_child T__42 FOLLOW_42_in_clause347] (Some nilNode, p)
          else ok (None, p)))"

section \<open>The rules with a rewrite\<close>

definition add_type_text :: "ast option \<Rightarrow> nat \<Rightarrow> string \<Rightarrow> ast option" where
  "add_type_text root ty s = adaptor_addChild root (Some (createTypeText ty s))"

function times_loop :: "ast option \<Rightarrow> rewrite_stream \<Rightarrow> ast option" where
  "times_loop root rs =
     (if rs_hasNext rs then
        let r1 = add_type_text root TK_START_TIME ''START_TIME'';
            r2 = adaptor_addChild r1 (fst (rs_nextTree rs));
            r3 = add_type_text r2 TK_STOP_TIME ''STOP_TIME'';
            rs1 = snd (rs_nextTree rs)
        in times_loop (adaptor_addChild r3 (fst (rs_nextTree rs1))) (snd (rs_nextTree rs1))
      else root)"
  by pat_completeness auto
termination
  by (relation "measure (\<lambda>(root, rs). length (rs_elements rs) - rs_cursor rs)")
    (auto simp: rs_hasNext_def rs_nextTree_def rs_next_def Let_def)

declare times_loop.simps [simp del]

definition parse_validity :: rule_fun where
  "parse_validity p = rule_exit (obind (seqs
     [token_step TK_VALIDITY_HEADER FOLLOW_VALIDITY_HEADER_in_validity194,
      token_step TK_NOT_BEFORE FOLLOW_NOT_BEFORE_in_validity196,
      rule_step FOLLOW_time_tuple_in_validity198 parse_time_tuple rs_add,
      token_step TK_NOT_AFTER FOLLOW_NOT_AFTER_in_validity200,
      rule_step FOLLOW_time_tuple_in_validity202 parse_time_tuple rs_add,
      token_step TK_VALIDITY_END FOLLOW_VALIDITY_END_in_validity204] (rs_new, p))
     (\<lambda>(times, p1).
        if pr_error p1 then ok (None, p1)
        else if \<not> rs_hasNext times then ok (Some nilNode, p_exConstruct p1)
        else ok (times_loop (Some nilNode) times, p1)))"

text \<open>The streams of \<^verbatim>\<open>certificate\<close>.\<close>

record cert_streams =
  st_clause :: rewrite_stream
  st_validity :: rewrite_stream
  st_public_key :: rewrite_stream
  st_signature :: rewrite_stream

definition cert_streams_new :: cert_streams where
  "cert_streams_new = \<lparr>st_clause = rs_new, st_validity = rs_new, st_public_key = rs_new, st_signature = rs_new\<rparr>"

function certs_loop :: "ast option \<Rightarrow> cert_streams \<Rightarrow> bool \<Rightarrow> ast option \<times> bool" where
  "certs_loop root s err =
     (if rs_hasNext (st_validity s) \<or> rs_hasNext (st_public_key s) \<or> rs_hasNext (st_signature s) then
        let r1 = add_type_text (add_type_text root TK_CERT ''CERT'') TK_CLAUSE ''CLAUSE'';
            none = \<not> rs_hasNext (st_clause s);
            (r2, cl) = (if none then (r1, st_clause s)
                        else let (r, c) = rs_addAll r1 (st_clause s) in (r, rs_reset c));
            r3 = adaptor_addChild r2 (fst (rs_nextTree (st_validity s)));
            r4 = adaptor_addChild r3 (fst (rs_nextTree (st_public_key s)));
            r5 = adaptor_addChild r4 (fst (rs_nextTree (st_signature s)))
        in certs_loop (add_type_text r5 TK_END_CERT ''END_CERT'')
             \<lparr>st_clause = cl, st_validity = snd (rs_nextTree (st_validity s)),
              st_public_key = snd (rs_nextTree (st_public_key s)), st_signature = snd (rs_nextTree (st_signature s))\<rparr> (err \<or> none)
      else (root, err))"
  by pat_completeness auto
termination
proof (relation "measure (\<lambda>(root, s, err). \<Sum>rs \<leftarrow> [st_validity s, st_public_key s, st_signature s]. length (rs_elements rs) - rs_cursor rs)",
    goal_cases)
  case (2 root s err)
  have "length (rs_elements (snd (rs_nextTree rs))) - rs_cursor (snd (rs_nextTree rs)) \<le> length (rs_elements rs) - rs_cursor rs \<and>
      (rs_hasNext rs \<longrightarrow>
        length (rs_elements (snd (rs_nextTree rs))) - rs_cursor (snd (rs_nextTree rs)) < length (rs_elements rs) - rs_cursor rs)" for rs
    by (auto simp: rs_hasNext_def rs_nextTree_def rs_next_def Let_def)
  from this [of "st_validity s"] this [of "st_public_key s"] this [of "st_signature s"] 2(1) show ?case
    by (auto intro: add_less_le_mono add_le_less_mono add_mono)
qed simp

declare certs_loop.simps [simp del]

definition parse_certificate :: rule_fun where
  "parse_certificate p = rule_exit (obind (seqs
     [token_step TK_CERT_HEADER FOLLOW_CERT_HEADER_in_certificate276,
      plus_loop (\<lambda>t. t = TK_TEXT \<or> t = T__46)
        (rule_step FOLLOW_clause_in_certificate278 parse_clause (\<lambda>t s. s\<lparr>st_clause := rs_add t (st_clause s)\<rparr>)) 0,
      rule_step FOLLOW_validity_in_certificate281 parse_validity (\<lambda>t s. s\<lparr>st_validity := rs_add t (st_validity s)\<rparr>),
      rule_step FOLLOW_public_key_in_certificate283 parse_public_key (\<lambda>t s. s\<lparr>st_public_key := rs_add t (st_public_key s)\<rparr>),
      rule_step FOLLOW_signature_in_certificate285 parse_signature (\<lambda>t s. s\<lparr>st_signature := rs_add t (st_signature s)\<rparr>),
      token_step TK_CERT_END FOLLOW_CERT_END_in_certificate287] (cert_streams_new, p))
     (\<lambda>(s, p1).
        if pr_error p1 then ok (None, p1)
        else if \<not> rs_hasNext (st_validity s) \<or> \<not> rs_hasNext (st_public_key s) \<or> \<not> rs_hasNext (st_signature s)
        then ok (Some nilNode, p_exConstruct p1)
        else let (root, err) = certs_loop (Some nilNode) s False in ok (root, if err then p_exConstruct p1 else p1)))"

text \<open>The streams of \<^verbatim>\<open>credential\<close> are those of the key and of the certificates.\<close>

definition parse_credential :: rule_fun where
  "parse_credential p = rule_exit (obind (seqs
     [token_step TK_CREDENTIAL_HEADER FOLLOW_CREDENTIAL_HEADER_in_credential121,
      rule_step FOLLOW_public_key_in_credential123 parse_public_key (\<lambda>t (keys, certs). (rs_add t keys, certs)),
      star_loop (\<lambda>t. t = TK_CERT_HEADER)
        (rule_step FOLLOW_certificate_in_credential125 parse_certificate (\<lambda>t (keys, certs). (keys, rs_add t certs))),
      token_step TK_CREDENTIAL_END FOLLOW_CREDENTIAL_END_in_credential128] ((rs_new, rs_new), p))
     (\<lambda>((keys, certs), p1).
        if pr_error p1 then ok (None, p1)
        else
          (case becomeRoot (Some (createTypeText TK_CREDENTIAL ''CREDENTIAL'')) (Some nilNode) of
             Inl e \<Rightarrow> Some (Inl e)
           | Inr root_1 \<Rightarrow>
               let r1 = adaptor_addChild root_1 (fst (rs_nextTree keys));
                   r2 = fst (rs_addAll r1 certs);
                   r3 = add_type_text r2 TK_END ''END''
               in ok (adaptor_addChild (Some nilNode) r3, p1))))"

section \<open>The rules the program does not use\<close>

definition parse_op :: rule_fun where
  "parse_op p = rule_exit (seqs [rule_child FOLLOW_text_in_op492 parse_text] (Some nilNode, p))"

definition parse_result :: rule_fun where
  "parse_result p = rule_exit (seqs [rule_child FOLLOW_text_in_result526 parse_text] (Some nilNode, p))"

definition parse_challenge :: rule_fun where
  "parse_challenge p = rule_exit (seqs
     [token_child TK_CHALLENGE_HEADER FOLLOW_CHALLENGE_HEADER_in_challenge425,
      rule_child FOLLOW_text_in_challenge427 parse_text,
      token_child TK_CHALLENGE_END FOLLOW_CHALLENGE_END_in_challenge429] (Some nilNode, p))"

definition parse_response :: rule_fun where
  "parse_response p = rule_exit (seqs
     [token_child TK_RESPONSE_HEADER FOLLOW_RESPONSE_HEADER_in_response444,
      rule_child FOLLOW_base64_in_response446 parse_base64,
      token_child TK_RESPONSE_END FOLLOW_RESPONSE_END_in_response448] (Some nilNode, p))"

definition parse_request :: rule_fun where
  "parse_request p = rule_exit (seqs
     [token_child TK_REQUEST_HEADER FOLLOW_REQUEST_HEADER_in_request463,
      token_child T__45 FOLLOW_45_in_request465,
      token_child T__39 FOLLOW_39_in_request467,
      rule_child FOLLOW_op_in_request469 parse_op,
      token_child T__41 FOLLOW_41_in_request471,
      rule_child FOLLOW_text_in_request473 parse_text,
      token_child T__40 FOLLOW_40_in_request475,
      token_child TK_REQUEST_END FOLLOW_REQUEST_END_in_request477] (Some nilNode, p))"

definition parse_reply :: rule_fun where
  "parse_reply p = rule_exit (seqs
     [token_child TK_REPLY_HEADER FOLLOW_REPLY_HEADER_in_reply507,
      rule_child FOLLOW_result_in_reply509 parse_result,
      token_child TK_REPLY_END FOLLOW_REPLY_END_in_reply511] (Some nilNode, p))"

end
