(* ===== verification/Antlr_Progress.thy ===== *)
theory Antlr_Progress
  imports Antlr_Parser
begin

text \<open>
  The recognizer of \<open>Antlr_Parser\<close> returns: a potential of its state never grows, shrinks when a token
  is consumed, and shrinks when a rule that did not start at the end of the tokens recovers from an error.
  Rules, sequences and loops inherit this from their parts, and a loop whose body makes progress
  ends.
\<close>

lemma ok_inject [simp]: "ok x = ok y \<longleftrightarrow> x = y"
  by (simp add: ok_def)

section \<open>The potential\<close>

definition potential :: "parser \<Rightarrow> nat" where
  "potential p = 2 * (length (cts_tokens (pr_cts p)) - cts_p (pr_cts p)) +
     (if pr_lastErrorIndex p = int (cts_p (pr_cts p)) then 0 else 1)"

definition at_end :: "parser \<Rightarrow> bool" where
  "at_end p \<longleftrightarrow> \<not> cts_p (pr_cts p) < length (cts_tokens (pr_cts p))"

definition p_inv :: "parser \<Rightarrow> bool" where
  "p_inv p \<longleftrightarrow> token_inv (pr_cts p) \<and> (\<exists>t \<in> set (cts_tokens (pr_cts p)). on_channel t)"

definition steps :: "parser \<Rightarrow> parser \<Rightarrow> bool" where
  "steps p p' \<longleftrightarrow> cts_tokens (pr_cts p') = cts_tokens (pr_cts p) \<and> pr_following p' = pr_following p \<and> settled (pr_cts p') \<and>
     cts_p (pr_cts p) \<le> cts_p (pr_cts p') \<and> potential p' \<le> potential p"

lemma p_inv_settled: "p_inv p \<Longrightarrow> settled (pr_cts p)"
  by (simp add: p_inv_def token_inv_def)

lemma p_inv_steps: "p_inv p \<Longrightarrow> steps p p' \<Longrightarrow> p_inv p'"
  by (simp add: p_inv_def token_inv_def steps_def)

lemma steps_refl: "p_inv p \<Longrightarrow> steps p p"
  by (simp add: steps_def p_inv_settled)

lemma steps_trans: "steps p q \<Longrightarrow> steps q r \<Longrightarrow> steps p r"
  by (auto simp: steps_def)

lemma potential_moved:
  assumes "cts_tokens (pr_cts q) = cts_tokens (pr_cts p)" "cts_p (pr_cts p) < cts_p (pr_cts q)"
    "cts_p (pr_cts q) \<le> length (cts_tokens (pr_cts p))"
  shows "potential q < potential p"
  using assms by (auto simp: potential_def)

lemma settled_bound: "settled cts \<Longrightarrow> cts_p cts \<le> length (cts_tokens cts)"
  by (simp add: settled_def)

lemma steps_moved:
  assumes "p_inv p" "cts_tokens (pr_cts q) = cts_tokens (pr_cts p)" "pr_following q = pr_following p" "settled (pr_cts q)"
    "pr_lastErrorIndex q = pr_lastErrorIndex p" "cts_p (pr_cts p) \<le> cts_p (pr_cts q)"
  shows "steps p q"
proof (cases "cts_p (pr_cts p) = cts_p (pr_cts q)")
  case True
  then have "potential q = potential p" using assms by (simp add: potential_def)
  with assms show ?thesis by (simp add: steps_def)
next
  case False
  then have "potential q < potential p" using assms settled_bound [OF assms(4)] by (intro potential_moved) auto
  with assms show ?thesis by (simp add: steps_def)
qed

lemma not_at_end_LA: "settled (pr_cts p) \<Longrightarrow> p_LA p 1 \<noteq> ANTLR3_TOKEN_EOF \<Longrightarrow> \<not> at_end p"
  using LA_1 [of "pr_cts p"] tokens_left_Nil [of "pr_cts p"]
  by (auto simp: at_end_def p_LA_def settled_def split: list.splits)

section \<open>Steps of the recognizer\<close>

lemma consume_steps: "p_inv p \<Longrightarrow> steps p (p_consume p)"
  by (intro steps_moved) (auto simp: p_consume_def consume_p_le p_inv_settled)

lemma consume_less: "p_inv p \<Longrightarrow> \<not> at_end p \<Longrightarrow> potential (p_consume p) < potential p"
  using settled_bound [OF settled_consume [OF p_inv_settled [of p]]]
  by (intro potential_moved) (auto simp: p_consume_def at_end_def consume_p_less)

lemma steps_flags [simp]:
  "steps p (q\<lparr>pr_error := b\<rparr>) = steps p q" "steps p (q\<lparr>pr_errorRecovery := b\<rparr>) = steps p q"
  "steps p (q\<lparr>pr_errorCount := n\<rparr>) = steps p q" "steps (p\<lparr>pr_error := b\<rparr>) q = steps p q"
  "steps p (p_exConstruct q) = steps p q" "steps p (p_reportError q) = steps p q" "steps (p_reportError p) q = steps p q"
  by (simp_all add: steps_def potential_def p_exConstruct_def p_reportError_def)

lemma potential_flags [simp]:
  "potential (p\<lparr>pr_error := b\<rparr>) = potential p" "potential (p\<lparr>pr_errorRecovery := b\<rparr>) = potential p"
  "potential (p_exConstruct p) = potential p" "potential (p_reportError p) = potential p"
  "potential (FOLLOWPUSH s p) = potential p" "potential (FOLLOWPOP p) = potential p"
  by (simp_all add: potential_def p_exConstruct_def p_reportError_def FOLLOWPUSH_def FOLLOWPOP_def)

lemma p_inv_flags [simp]:
  "p_inv (p\<lparr>pr_error := b\<rparr>) = p_inv p" "p_inv (p_reportError p) = p_inv p" "p_inv (p_exConstruct p) = p_inv p"
  "p_inv (FOLLOWPUSH s p) = p_inv p" "p_inv (p\<lparr>pr_errorRecovery := b\<rparr>) = p_inv p"
  by (simp_all add: p_inv_def p_exConstruct_def p_reportError_def FOLLOWPUSH_def)

lemma getMissingSymbol_some:
  assumes "p_inv p"
  shows "\<exists>tok. getMissingSymbol p ttype = Some tok"
proof (cases "tokens_left (pr_cts p)")
  case Nil
  with LB_1_end [of "pr_cts p"] assms show ?thesis
    by (auto simp: getMissingSymbol_def Let_def p_inv_def token_inv_def)
next
  case (Cons t ts)
  have "t \<in> set (tokens_left (pr_cts p))" using Cons by simp
  then have "t \<in> set (cts_tokens (pr_cts p))" by (auto simp: tokens_left_def dest: in_set_dropD)
  then have "tk_type t \<noteq> ANTLR3_TOKEN_EOF"
    using assms by (auto simp: p_inv_def token_inv_def proper_types_def ANTLR3_TOKEN_EOF_def)
  with Cons tokLT_1 [OF p_inv_settled [OF assms]] show ?thesis by (simp add: getMissingSymbol_def)
qed

lemma match_returns:
  assumes "p_inv p"
  shows "\<exists>tok p'. match ttype follow p = ok (tok, p') \<and> steps p p' \<and>
    (p_LA p 1 = ttype \<longrightarrow> ttype \<noteq> ANTLR3_TOKEN_EOF \<longrightarrow> potential p' < potential p)"
proof (cases "p_LA p 1 = ttype")
  case True
  have "\<not> at_end p" if "ttype \<noteq> ANTLR3_TOKEN_EOF" using not_at_end_LA [OF p_inv_settled [OF assms]] True that by simp
  with True consume_steps [OF assms] consume_less [OF assms] show ?thesis by (auto simp: match_def)
next
  case False
  obtain tok where tok: "getMissingSymbol p ttype = Some tok" using getMissingSymbol_some [OF assms] by blast
  have c: "steps p (p_consume p)" by (rule consume_steps [OF assms])
  have "steps p (p_consume (p_reportError (p_consume p)))"
    using steps_trans [OF c] consume_steps [of "p_reportError (p_consume p)"] p_inv_steps [OF assms c] by simp
  with False tok steps_refl [OF assms] show ?thesis by (auto simp: match_def recoverFromMismatchedToken_def Let_def)
qed

lemma consumeUntilSet_moves:
  "settled cts \<Longrightarrow> cts_tokens (consumeUntilSet s cts) = cts_tokens cts \<and> settled (consumeUntilSet s cts) \<and>
    cts_p cts \<le> cts_p (consumeUntilSet s cts)"
proof (induction s cts rule: consumeUntilSet.induct)
  case (1 s cts)
  then show ?case using consume_p_le [of cts] by (subst (1 2 3) consumeUntilSet.simps) (auto intro: order_trans)
qed

lemma recover_steps:
  assumes "p_inv p"
  shows "steps p (recover p)" "\<not> at_end p \<Longrightarrow> potential (recover p) < potential p" "\<not> pr_error (recover p)"
proof -
  define p1 where "p1 = (if pr_lastErrorIndex p = int (cts_p (pr_cts p)) then p_consume p else p)"
  define p2 where "p2 = p1\<lparr>pr_lastErrorIndex := int (cts_p (pr_cts p1))\<rparr>"
  have r: "recover p = p2\<lparr>pr_cts := consumeUntilSet (combineFollows p2) (pr_cts p2), pr_error := False\<rparr>"
    by (simp add: recover_def p1_def p2_def Let_def)
  have s1: "steps p p1" using consume_steps [OF assms] steps_refl [OF assms] by (simp add: p1_def)
  have i1: "p_inv p1" by (rule p_inv_steps [OF assms s1])
  have p2: "pr_cts p2 = pr_cts p1" "pr_following p2 = pr_following p1" by (simp_all add: p2_def)
  have pot2: "potential p2 \<le> potential p1" by (simp add: potential_def p2_def)
  have less: "potential p2 < potential p" if "\<not> at_end p"
    using consume_less [OF assms that] pot2 by (auto simp: p1_def p2_def potential_def split: if_splits)
  have i2: "p_inv p2" using i1 by (simp add: p_inv_def p2_def)
  note m = consumeUntilSet_moves [OF p_inv_settled [OF i2], of "combineFollows p2"]
  have "steps p2 (recover p)" unfolding r using m i2 by (intro steps_moved) auto
  then have s2: "steps p1 (recover p)" "potential (recover p) \<le> potential p2"
    using pot2 p2 by (auto simp: steps_def)
  show "steps p (recover p)" by (rule steps_trans [OF s1 s2(1)])
  show "\<not> at_end p \<Longrightarrow> potential (recover p) < potential p" using less s2(2) by fastforce
  show "\<not> pr_error (recover p)" by (simp add: r)
qed

section \<open>Steps, rules and loops that return\<close>

definition good_step :: "'l step \<Rightarrow> bool" where
  "good_step f \<longleftrightarrow> (\<forall>l p. p_inv p \<longrightarrow> \<not> pr_error p \<longrightarrow> (\<exists>l' p'. f (l, p) = ok (l', p') \<and> steps p p'))"

definition good_rule :: "rule_fun \<Rightarrow> bool" where
  "good_rule r \<longleftrightarrow> (\<forall>p. p_inv p \<longrightarrow> \<not> pr_error p \<longrightarrow> (\<exists>t p'. r p = ok (t, p') \<and> steps p p' \<and> \<not> pr_error p'))"

text \<open>Progress when the next token's type satisfies \<open>c\<close>.\<close>

definition step_progress :: "(nat \<Rightarrow> bool) \<Rightarrow> 'l step \<Rightarrow> bool" where
  "step_progress c f \<longleftrightarrow> (\<forall>l p l' p'. p_inv p \<longrightarrow> \<not> pr_error p \<longrightarrow> c (p_LA p 1) \<longrightarrow> f (l, p) = ok (l', p') \<longrightarrow>
     pr_error p' \<or> potential p' < potential p)"

definition rule_progress :: "(nat \<Rightarrow> bool) \<Rightarrow> rule_fun \<Rightarrow> bool" where
  "rule_progress c r \<longleftrightarrow> (\<forall>p t p'. p_inv p \<longrightarrow> \<not> pr_error p \<longrightarrow> c (p_LA p 1) \<longrightarrow> r p = ok (t, p') \<longrightarrow> potential p' < potential p)"

named_theorems returns \<open>steps and rules that return\<close>
named_theorems progress \<open>steps and rules that make progress\<close>

lemma good_stepD: "good_step f \<Longrightarrow> p_inv p \<Longrightarrow> \<not> pr_error p \<Longrightarrow> \<exists>l' p'. f (l, p) = ok (l', p') \<and> steps p p'"
  unfolding good_step_def by blast

lemma good_ruleD: "good_rule r \<Longrightarrow> p_inv p \<Longrightarrow> \<not> pr_error p \<Longrightarrow> \<exists>t p'. r p = ok (t, p') \<and> steps p p' \<and> \<not> pr_error p'"
  unfolding good_rule_def by blast

lemma good_step_result: "good_step f \<Longrightarrow> p_inv p \<Longrightarrow> \<not> pr_error p \<Longrightarrow> f (l, p) = ok (l', p') \<Longrightarrow> steps p p'"
  using good_stepD [of f p l] by auto

lemma token_step_good [returns]: "good_step (token_step ttype follow)"
  unfolding good_step_def
proof (intro allI impI)
  fix l p
  assume "p_inv p"
  from match_returns [OF this, of ttype follow] obtain tok q where "match ttype follow p = ok (tok, q)" "steps p q" by blast
  then show "\<exists>l' p'. token_step ttype follow (l, p) = ok (l', p') \<and> steps p p'" by (simp add: token_step_def)
qed

lemma token_child_good [returns]: "good_step (token_child ttype follow)"
  unfolding good_step_def
proof (intro allI impI)
  fix l p
  assume "p_inv p"
  from match_returns [OF this, of ttype follow] obtain tok q where "match ttype follow p = ok (tok, q)" "steps p q" by blast
  then show "\<exists>l' p'. token_child ttype follow (l, p) = ok (l', p') \<and> steps p p'" by (simp add: token_child_def)
qed

lemma token_step_progress [progress]: "ttype \<noteq> ANTLR3_TOKEN_EOF \<Longrightarrow> step_progress (\<lambda>t. t = ttype) (token_step ttype follow)"
  unfolding step_progress_def
proof (intro allI impI)
  fix l p l' p'
  assume a: "ttype \<noteq> ANTLR3_TOKEN_EOF" "p_inv p" "p_LA p 1 = ttype" "token_step ttype follow (l, p) = ok (l', p')"
  from match_returns [OF a(2), of ttype follow] a(1,3) obtain tok q where
    "match ttype follow p = ok (tok, q)" "potential q < potential p" by blast
  with a(4) show "pr_error p' \<or> potential p' < potential p" by (auto simp: token_step_def)
qed

lemma token_child_progress [progress]: "ttype \<noteq> ANTLR3_TOKEN_EOF \<Longrightarrow> step_progress (\<lambda>t. t = ttype) (token_child ttype follow)"
  unfolding step_progress_def
proof (intro allI impI)
  fix l p l' p'
  assume a: "ttype \<noteq> ANTLR3_TOKEN_EOF" "p_inv p" "p_LA p 1 = ttype" "token_child ttype follow (l, p) = ok (l', p')"
  from match_returns [OF a(2), of ttype follow] a(1,3) obtain tok q where
    "match ttype follow p = ok (tok, q)" "potential q < potential p" by blast
  with a(4) show "pr_error p' \<or> potential p' < potential p" by (auto simp: token_child_def)
qed

lemma follow_flags [simp]:
  "pr_error (FOLLOWPUSH s p) = pr_error p" "p_LA (FOLLOWPUSH s p) k = p_LA p k" "pr_error (FOLLOWPOP p) = pr_error p"
  by (simp_all add: FOLLOWPUSH_def FOLLOWPOP_def p_LA_def)

lemma steps_follow: "steps (FOLLOWPUSH s p) p' \<Longrightarrow> steps p (FOLLOWPOP p')"
  unfolding steps_def potential_flags by (simp add: FOLLOWPUSH_def FOLLOWPOP_def)

lemma rule_step_good [returns]: "good_rule r \<Longrightarrow> good_step (rule_step follow r add)"
  unfolding good_step_def
proof (intro allI impI)
  fix l p
  assume "good_rule r" "p_inv p" "\<not> pr_error p"
  from good_ruleD [OF this(1), of "FOLLOWPUSH follow p"] this(2,3)
  obtain t q where "r (FOLLOWPUSH follow p) = ok (t, q)" "steps (FOLLOWPUSH follow p) q" by auto
  with steps_follow [OF this(2)] show "\<exists>l' p'. rule_step follow r add (l, p) = ok (l', p') \<and> steps p p'"
    by (simp add: rule_step_def Let_def)
qed

lemma rule_child_good [returns]: "good_rule r \<Longrightarrow> good_step (rule_child follow r)"
  by (simp add: rule_child_def rule_step_good)

lemma rule_step_progress [progress]:
  assumes "good_rule r" "rule_progress c r"
  shows "step_progress c (rule_step follow r add)"
  unfolding step_progress_def
proof (intro allI impI)
  fix l p l' p'
  assume a: "p_inv p" "\<not> pr_error p" "c (p_LA p 1)" "rule_step follow r add (l, p) = ok (l', p')"
  from good_ruleD [OF assms(1), of "FOLLOWPUSH follow p"] a(1,2)
  obtain t q where q: "r (FOLLOWPUSH follow p) = ok (t, q)" by auto
  have "potential q < potential (FOLLOWPUSH follow p)"
    using assms(2) [unfolded rule_progress_def, rule_format, of "FOLLOWPUSH follow p"] a(1-3) q by simp
  then have "potential q < potential p" by simp
  with q a(4) show "pr_error p' \<or> potential p' < potential p" by (auto simp: rule_step_def Let_def)
qed

lemma rule_child_progress [progress]: "good_rule r \<Longrightarrow> rule_progress c r \<Longrightarrow> step_progress c (rule_child follow r)"
  by (simp add: rule_child_def rule_step_progress)

lemma seqs_good [returns]: "list_all good_step fs \<Longrightarrow> good_step (seqs fs)"
proof (induction fs)
  case Nil
  then show ?case by (simp add: good_step_def steps_refl)
next
  case (Cons f fs)
  show ?case unfolding good_step_def
  proof (intro allI impI)
    fix l p
    assume p: "p_inv p" "\<not> pr_error p"
    from Cons.prems p obtain l1 p1 where 1: "f (l, p) = ok (l1, p1)" "steps p p1" by (fastforce simp: good_step_def)
    show "\<exists>l' p'. seqs (f # fs) (l, p) = ok (l', p') \<and> steps p p'"
    proof (cases "pr_error p1")
      case False
      with Cons p_inv_steps [OF p(1) 1(2)] obtain l2 p2 where "seqs fs (l1, p1) = ok (l2, p2)" "steps p1 p2"
        using good_stepD [of "seqs fs" p1 l1] by auto
      with 1 False steps_trans [OF 1(2)] show ?thesis by auto
    qed (use 1 in auto)
  qed
qed

lemma seqs_progress [progress]:
  assumes "good_step f" "list_all good_step fs" "step_progress c f"
  shows "step_progress c (seqs (f # fs))"
  unfolding step_progress_def
proof (intro allI impI)
  fix l p l' p'
  assume a: "p_inv p" "\<not> pr_error p" "c (p_LA p 1)" "seqs (f # fs) (l, p) = ok (l', p')"
  from assms(1) a obtain l1 p1 where 1: "f (l, p) = ok (l1, p1)" "steps p p1" by (fastforce simp: good_step_def)
  show "pr_error p' \<or> potential p' < potential p"
  proof (cases "pr_error p1")
    case False
    with assms(3) a 1 have "potential p1 < potential p" by (fastforce simp: step_progress_def)
    moreover have "steps p1 p'"
      using good_step_result [OF seqs_good [OF assms(2)] p_inv_steps [OF a(1) 1(2)] False] a(4) 1(1) False by simp
    ultimately show ?thesis by (simp add: steps_def)
  qed (use 1 a in auto)
qed

lemma star_loop_good [returns]:
  assumes "good_step body" "step_progress c body"
  shows "good_step (star_loop c body)"
  unfolding good_step_def
proof (intro allI impI)
  fix l p
  assume "p_inv p" "\<not> pr_error p"
  then show "\<exists>l' p'. star_loop c body (l, p) = ok (l', p') \<and> steps p p'"
  proof (induction "potential p" arbitrary: l p rule: less_induct)
    case less
    show ?case
    proof (cases "c (p_LA p 1)")
      case False
      then show ?thesis using less.prems by (subst star_loop.simps) (auto simp: steps_refl)
    next
      case True
      obtain l1 p1 where 1: "body (l, p) = ok (l1, p1)" "steps p p1" using good_stepD [OF assms(1) less.prems] by blast
      show ?thesis
      proof (cases "pr_error p1")
        case e: False
        have "potential p1 < potential p" using assms(2) less.prems True 1 e by (fastforce simp: step_progress_def)
        from less.hyps [OF this p_inv_steps [OF less.prems(1) 1(2)] e, of l1] obtain l2 p2
          where "star_loop c body (l1, p1) = ok (l2, p2)" "steps p1 p2" by blast
        with 1 True e steps_trans [OF 1(2)] show ?thesis by (subst star_loop.simps) auto
      qed (use 1 True in \<open>subst star_loop.simps; auto\<close>)
    qed
  qed
qed

lemma plus_loop_good [returns]:
  assumes "good_step body" "step_progress c body"
  shows "good_step (plus_loop c body cnt)"
  unfolding good_step_def
proof (intro allI impI)
  fix l p
  assume "p_inv p" "\<not> pr_error p"
  then show "\<exists>l' p'. plus_loop c body cnt (l, p) = ok (l', p') \<and> steps p p'"
  proof (induction "potential p" arbitrary: l p cnt rule: less_induct)
    case less
    show ?case
    proof (cases "c (p_LA p 1)")
      case False
      then show ?thesis using less.prems by (subst plus_loop.simps) (auto simp: steps_refl)
    next
      case True
      obtain l1 p1 where 1: "body (l, p) = ok (l1, p1)" "steps p p1" using good_stepD [OF assms(1) less.prems] by blast
      show ?thesis
      proof (cases "pr_error p1")
        case e: False
        have "potential p1 < potential p" using assms(2) less.prems True 1 e by (fastforce simp: step_progress_def)
        from less.hyps [OF this p_inv_steps [OF less.prems(1) 1(2)] e, of "cnt + 1" l1] obtain l2 p2
          where "plus_loop c body (cnt + 1) (l1, p1) = ok (l2, p2)" "steps p1 p2" by blast
        with 1 True e steps_trans [OF 1(2)] show ?thesis by (subst plus_loop.simps) auto
      qed (use 1 True in \<open>subst plus_loop.simps; auto\<close>)
    qed
  qed
qed

lemma plus_loop_progress [progress]:
  assumes "good_step body" "step_progress c body"
  shows "step_progress c (plus_loop c body cnt)"
  unfolding step_progress_def
proof (intro allI impI)
  fix l p l' p'
  assume a: "p_inv p" "\<not> pr_error p" "c (p_LA p 1)" "plus_loop c body cnt (l, p) = ok (l', p')"
  obtain l1 p1 where 1: "body (l, p) = ok (l1, p1)" "steps p p1" using good_stepD [OF assms(1) a(1,2)] by blast
  show "pr_error p' \<or> potential p' < potential p"
  proof (cases "pr_error p1")
    case False
    have "potential p1 < potential p" using assms(2) a 1 False by (fastforce simp: step_progress_def)
    moreover have "plus_loop c body (cnt + 1) (l1, p1) = ok (l', p')"
      using a(3,4) 1 False by (subst (asm) plus_loop.simps) simp
    then have "steps p1 p'" by (rule good_step_result [OF plus_loop_good [OF assms] p_inv_steps [OF a(1) 1(2)] False])
    ultimately show ?thesis by (simp add: steps_def)
  next
    case True
    with a(3,4) 1 show ?thesis by (subst (asm) plus_loop.simps) simp
  qed
qed

section \<open>Rules\<close>

lemma rule_exit_returns:
  assumes "p_inv p" "body = ok (root, p1)" "steps p p1"
  shows "\<exists>t p'. rule_exit body = ok (t, p') \<and> steps p p' \<and> \<not> pr_error p'"
  using assms recover_steps [of "p_reportError p1"] p_inv_steps [OF assms(1,3)] steps_trans [OF assms(3)]
  by (auto simp: rule_exit_def)

lemma rule_exit_less:
  assumes "p_inv p" "\<not> at_end p" "body = ok (root, p1)" "steps p p1" "pr_error p1 \<or> potential p1 < potential p"
    "rule_exit body = ok (t, p')"
  shows "potential p' < potential p"
proof (cases "pr_error p1")
  case False
  with assms show ?thesis by (auto simp: rule_exit_def)
next
  case True
  have i: "p_inv p1" by (rule p_inv_steps [OF assms(1,4)])
  have p': "p' = recover (p_reportError p1)" using assms(3,6) True by (simp add: rule_exit_def)
  show ?thesis
  proof (cases "at_end p1")
    case False
    then have "\<not> at_end (p_reportError p1)" by (simp add: at_end_def p_reportError_def)
    with recover_steps(2) [of "p_reportError p1"] i p' assms(4) show ?thesis by (simp add: steps_def)
  next
    case True
    then have "cts_p (pr_cts p) < cts_p (pr_cts p1)" "cts_p (pr_cts p1) \<le> length (cts_tokens (pr_cts p))"
      using assms(2,4) settled_bound [of "pr_cts p1"] by (auto simp: at_end_def steps_def)
    then have "potential p1 < potential p" using assms(4) by (intro potential_moved) (auto simp: steps_def)
    moreover have "potential p' \<le> potential p1"
      using recover_steps(1) [of "p_reportError p1"] i p' by (simp add: steps_def)
    ultimately show ?thesis by simp
  qed
qed

text \<open>A rule whose body is a sequence on some local state, followed by a rewrite that keeps the position.\<close>

lemma rule_good:
  assumes "good_step f" "\<And>p. r p = rule_exit (obind (f (l, p)) rew)"
    "\<And>l p. \<exists>root b. rew (l, p) = ok (root, p) \<or> rew (l, p) = ok (root, p_exConstruct p)"
  shows "good_rule r"
  unfolding good_rule_def
proof (intro allI impI)
  fix p
  assume p: "p_inv p" "\<not> pr_error p"
  obtain l1 p1 where 1: "f (l, p) = ok (l1, p1)" "steps p p1" using good_stepD [OF assms(1) p] by blast
  obtain root where "rew (l1, p1) = ok (root, p1) \<or> rew (l1, p1) = ok (root, p_exConstruct p1)" using assms(3) by blast
  then obtain p2 where "rew (l1, p1) = ok (root, p2)" "steps p p2" using 1(2) by auto
  with rule_exit_returns [OF p(1), of "obind (f (l, p)) rew"] 1(1) assms(2) show "\<exists>t p'. r p = ok (t, p') \<and> steps p p' \<and> \<not> pr_error p'"
    by simp
qed

lemma rule_progressI:
  assumes "good_step f" "step_progress c f" "\<not> c ANTLR3_TOKEN_EOF" "\<And>p. r p = rule_exit (obind (f (l, p)) rew)"
    "\<And>l p. \<exists>root. rew (l, p) = ok (root, p) \<or> rew (l, p) = ok (root, p_exConstruct p)"
  shows "rule_progress c r"
  unfolding rule_progress_def
proof (intro allI impI)
  fix p t p'
  assume a: "p_inv p" "\<not> pr_error p" "c (p_LA p 1)" "r p = ok (t, p')"
  obtain l1 p1 where 1: "f (l, p) = ok (l1, p1)" "steps p p1" using good_stepD [OF assms(1) a(1,2)] by blast
  then have pr: "pr_error p1 \<or> potential p1 < potential p" using assms(2) a by (fastforce simp: step_progress_def)
  obtain root where "rew (l1, p1) = ok (root, p1) \<or> rew (l1, p1) = ok (root, p_exConstruct p1)" using assms(5) by blast
  then obtain p2 where p2: "rew (l1, p1) = ok (root, p2)" "steps p p2" "pr_error p2 \<or> potential p2 < potential p"
    using 1(2) pr by (auto simp: p_exConstruct_def)
  have "p_LA p 1 \<noteq> ANTLR3_TOKEN_EOF" using a(3) assms(3) by metis
  then have "\<not> at_end p" using not_at_end_LA [OF p_inv_settled [OF a(1)]] by simp
  with rule_exit_less [OF a(1) _ _ p2(2,3), of "obind (f (l, p)) rew" root t p'] 1(1) p2(1) a(4) assms(4)
  show "potential p' < potential p" by simp
qed

end
