(* ===== verification/RM_Parser_Returns.thy ===== *)
theory RM_Parser_Returns
  imports RM_Parser Antlr_Progress
begin

text \<open>
  The generated parser returns for every list of tokens, recovery from errors included, and
  never dereferences a null pointer in doing so. Each rule is shown to return and, for the tokens it
  is entered with by a loop, to make progress.
\<close>

lemma obind_ok: "obind r ok = r"
proof (cases r)
  case (Some x)
  then show ?thesis by (cases x) (simp_all add: obind_def ok_def)
qed (simp add: obind_def)

lemma plain_rule_good:
  assumes "list_all good_step fs" "\<And>p. r p = rule_exit (seqs fs (Some nilNode, p))"
  shows "good_rule r"
  by (rule rule_good [where l = "Some nilNode" and f = "seqs fs" and rew = ok]) (use assms in \<open>auto simp: seqs_good obind_ok\<close>)

lemma plain_rule_progress:
  assumes "good_step f" "list_all good_step fs" "step_progress c f" "\<not> c ANTLR3_TOKEN_EOF"
    "\<And>p. r p = rule_exit (seqs (f # fs) (Some nilNode, p))"
  shows "rule_progress c r"
  by (rule rule_progressI [where l = "Some nilNode" and f = "seqs (f # fs)" and rew = ok])
    (use assms in \<open>auto simp: seqs_good seqs_progress obind_ok simp del: seqs.simps\<close>)

lemma types_not_EOF [simp]:
  "TK_TEXT \<noteq> ANTLR3_TOKEN_EOF" "TK_NUM \<noteq> ANTLR3_TOKEN_EOF" "T__41 \<noteq> ANTLR3_TOKEN_EOF" "T__46 \<noteq> ANTLR3_TOKEN_EOF"
  "TK_CERT_HEADER \<noteq> ANTLR3_TOKEN_EOF"
  "ANTLR3_TOKEN_EOF \<noteq> TK_TEXT" "ANTLR3_TOKEN_EOF \<noteq> T__41" "ANTLR3_TOKEN_EOF \<noteq> T__46" "ANTLR3_TOKEN_EOF \<noteq> TK_CERT_HEADER"
  by (simp_all add: token_types ANTLR3_TOKEN_EOF_def)

lemma list_all_Cons_good: "good_step f \<Longrightarrow> list_all good_step fs \<Longrightarrow> list_all good_step (f # fs)"
  by simp

lemma list_all_Nil_good: "list_all good_step []"
  by simp

lemmas good_list = list_all_Cons_good list_all_Nil_good

section \<open>The rules without rewriting\<close>

lemma parse_text_good [returns]: "good_rule parse_text"
  by (rule plain_rule_good [OF _ parse_text_def]) (intro returns good_list)

lemma parse_text_progress [progress]: "rule_progress (\<lambda>t. t = TK_TEXT) parse_text"
  by (rule plain_rule_progress [OF _ _ _ _ parse_text_def]) (intro returns good_list progress types_not_EOF | simp)+

lemma parse_num_good [returns]: "good_rule parse_num"
  by (rule plain_rule_good [OF _ parse_num_def]) (intro returns good_list)

lemma parse_base64_good [returns]: "good_rule parse_base64"
  by (rule plain_rule_good [OF _ parse_base64_def]) (intro returns good_list progress)

lemma parse_public_key_good [returns]: "good_rule parse_public_key"
  by (rule plain_rule_good [OF _ parse_public_key_def]) (intro returns good_list)

lemma parse_signature_good [returns]: "good_rule parse_signature"
  by (rule plain_rule_good [OF _ parse_signature_def]) (intro returns good_list)

lemma parse_time_tuple_good [returns]: "good_rule parse_time_tuple"
  by (rule plain_rule_good [OF _ parse_time_tuple_def]) (intro returns good_list)

lemma parse_predicate_good [returns]: "good_rule parse_predicate"
  by (rule plain_rule_good [OF _ parse_predicate_def]) (intro returns good_list progress types_not_EOF)

lemma parse_predicate_progress [progress]: "rule_progress (\<lambda>t. t = TK_TEXT) parse_predicate"
  by (rule plain_rule_progress [OF _ _ _ _ parse_predicate_def]) (intro returns good_list progress types_not_EOF | simp)+

section \<open>Literals and clauses\<close>

text \<open>A rule with alternatives: its body is one of several sequences, or only raises an exception.\<close>

definition body_good :: "(nat \<Rightarrow> bool) \<Rightarrow> parser \<Rightarrow> (ast option \<times> parser) outcome \<Rightarrow> bool" where
  "body_good c p body \<longleftrightarrow> (\<exists>root p'. body = ok (root, p') \<and> steps p p' \<and>
     (c (p_LA p 1) \<longrightarrow> pr_error p' \<or> potential p' < potential p))"

lemma body_good_seqs:
  assumes "good_step f" "list_all good_step fs" "step_progress c f" "p_inv p" "\<not> pr_error p"
  shows "body_good c p (seqs (f # fs) (l, p))"
proof -
  have "list_all good_step (f # fs)" using assms(1,2) by simp
  from good_stepD [OF seqs_good [OF this] assms(4,5)] obtain l' p' where r: "seqs (f # fs) (l, p) = ok (l', p')" "steps p p'"
    by blast
  moreover have "pr_error p' \<or> potential p' < potential p" if "c (p_LA p 1)"
    using seqs_progress [OF assms(1-3)] assms(4,5) that r(1) unfolding step_progress_def by blast
  ultimately show ?thesis unfolding body_good_def by blast
qed

lemma body_good_exception: "p_inv p \<Longrightarrow> body_good c p (ok (root, p_exConstruct p))"
  by (simp add: body_good_def steps_refl) (simp add: p_exConstruct_def)

lemma body_good_other: "p_inv p \<Longrightarrow> \<not> c (p_LA p 1) \<Longrightarrow> body_good c p (ok (root, p))"
  by (simp add: body_good_def steps_refl)

lemma body_rule:
  assumes "\<And>p. p_inv p \<Longrightarrow> \<not> pr_error p \<Longrightarrow> \<exists>body. r p = rule_exit body \<and> body_good c p body" "\<not> c ANTLR3_TOKEN_EOF"
  shows "good_rule r" "rule_progress c r"
proof -
  show "good_rule r" unfolding good_rule_def
  proof (intro allI impI)
    fix p
    assume p: "p_inv p" "\<not> pr_error p"
    from assms(1) [OF this] obtain body root p1 where "r p = rule_exit body" "body = ok (root, p1)" "steps p p1"
      unfolding body_good_def by blast
    with rule_exit_returns [OF p(1)] show "\<exists>t p'. r p = ok (t, p') \<and> steps p p' \<and> \<not> pr_error p'" by metis
  qed
  show "rule_progress c r" unfolding rule_progress_def
  proof (intro allI impI)
    fix p t p'
    assume a: "p_inv p" "\<not> pr_error p" "c (p_LA p 1)" "r p = ok (t, p')"
    from assms(1) [OF a(1,2)] a(3) obtain body root p1 where b: "r p = rule_exit body" "body = ok (root, p1)" "steps p p1"
      "pr_error p1 \<or> potential p1 < potential p" unfolding body_good_def by blast
    have "p_LA p 1 \<noteq> ANTLR3_TOKEN_EOF" using a(3) assms(2) by metis
    then have "\<not> at_end p" using not_at_end_LA [OF p_inv_settled [OF a(1)]] by simp
    from rule_exit_less [OF a(1) this b(2,3,4)] a(4) b(1) show "potential p' < potential p" by simp
  qed
qed

lemma step_progress_weaken: "step_progress c f \<Longrightarrow> (\<And>t. d t \<Longrightarrow> c t) \<Longrightarrow> step_progress d f"
  unfolding step_progress_def by blast

lemma step_progress_at:
  assumes "step_progress c f" "\<not> d (p_LA p 1) \<or> c (p_LA p 1)" "good_step f" "list_all good_step fs" "p_inv p" "\<not> pr_error p"
  shows "body_good d p (seqs (f # fs) (l, p))"
  using body_good_seqs [OF assms(3,4,1,5,6), of l] assms(2) unfolding body_good_def by blast

abbreviation clause_start :: "nat \<Rightarrow> bool" where
  "clause_start t \<equiv> t = TK_TEXT \<or> t = T__46"

lemma parse_literal_returns [returns]: "good_rule parse_literal"
  and parse_literal_progress [progress]: "rule_progress clause_start parse_literal"
proof -
  have "\<exists>body. parse_literal p = rule_exit body \<and> body_good clause_start p body" if p: "p_inv p" "\<not> pr_error p" for p
  proof -
    have "body_good clause_start p (seqs [rule_child FOLLOW_predicate_in_literal362 parse_predicate] (Some nilNode, p))"
      if "p_LA p 1 = TK_TEXT"
      by (rule step_progress_at [where c = "\<lambda>t. t = TK_TEXT", OF _ _ _ _ p], intro progress returns good_list types_not_EOF, use that in simp)
        (intro returns good_list)+
    moreover have "body_good clause_start p
        (seqs
          [token_child T__46 FOLLOW_46_in_literal369,
           token_child T__39 FOLLOW_39_in_literal371,
           rule_child FOLLOW_text_in_literal373 parse_text,
           token_child T__41 FOLLOW_41_in_literal375,
           rule_child FOLLOW_predicate_in_literal377 parse_predicate,
           token_child T__40 FOLLOW_40_in_literal379] (Some nilNode, p))" if "p_LA p 1 = T__46"
      by (rule step_progress_at [where c = "\<lambda>t. t = T__46", OF _ _ _ _ p], intro progress returns good_list types_not_EOF, use that in simp)
        (intro returns good_list)+
    moreover have "body_good clause_start p (ok (None, p_exConstruct p))" by (rule body_good_exception [OF p(1)])
    ultimately show ?thesis
      by (cases "p_LA p 1 = TK_TEXT"; cases "p_LA p 1 = T__46") (auto simp: parse_literal_def simp del: seqs.simps)
  qed
  from body_rule [of parse_literal clause_start, OF this] show "good_rule parse_literal" "rule_progress clause_start parse_literal"
    by simp_all
qed

lemma clause_alt_walk: "p_inv p \<Longrightarrow> clause_alt p = Some (dfa_walk pcdfa4 0 (types_left (pr_cts p)))"
  unfolding clause_alt_def by (rule tokens.predict_walk [OF pcdfa4_wf]) (simp add: p_inv_def)

text \<open>The automaton only answers with alternatives of its table.\<close>

lemma dfa_step_Alt:
  assumes "wf_dfa d" "0 \<le> s" "s < int (length (dfa_eot d))" "dfa_step d s c = Alt a"
  shows "1 \<le> a \<and> a \<in> set (dfa_accept d)"
proof -
  have "wf_state d (nat s)" using assms(1-3) by (intro wf_dfa_state) auto
  moreover have "nat s < length (dfa_accept d)" using assms(1-3) by (auto simp: wf_dfa_def Let_def)
  ultimately show ?thesis using assms(4) by (auto simp: dfa_step_def wf_state_def at_def Let_def split: if_splits)
qed

lemma dfa_walk_accepts:
  assumes "wf_dfa d"
  shows "0 \<le> s \<Longrightarrow> s < int (length (dfa_eot d)) \<Longrightarrow> dfa_walk d s cs = Some a \<Longrightarrow> 1 \<le> a \<and> a \<in> set (dfa_accept d)"
proof (induction cs arbitrary: s)
  case Nil
  show ?case
  proof (cases "dfa_step d s (-1)")
    case (Goto s')
    with Nil dfa_step_Goto [OF assms Nil(1,2)] have s': "0 \<le> s'" "s' < int (length (dfa_eot d))" "1 \<le> at (dfa_accept d) s'" "a = at (dfa_accept d) s'"
      by auto
    moreover have "nat s' < length (dfa_accept d)" using assms s' by (auto simp: wf_dfa_def Let_def)
    ultimately show ?thesis by (simp add: at_def)
  qed (use Nil dfa_step_Alt [OF assms Nil(1,2)] in auto)
next
  case (Cons c cs)
  show ?case
  proof (cases "dfa_step d s c")
    case (Goto s')
    with Cons dfa_step_Goto [OF assms Cons.prems(1,2) Goto] show ?thesis by auto
  qed (use Cons.prems dfa_step_Alt [OF assms Cons.prems(1,2)] in auto)
qed

lemma clause_alt_cases: "p_inv p \<Longrightarrow> clause_alt p = Some None \<or> clause_alt p = Some (Some 1) \<or> clause_alt p = Some (Some 2)"
proof -
  assume "p_inv p"
  have t: "list_all (\<lambda>a. a < 1 \<or> a = 1 \<or> a = 2) (dfa_accept pcdfa4) \<and> 0 < length (dfa_eot pcdfa4)" by code_simp
  have "a = 1 \<or> a = 2" if "dfa_walk pcdfa4 0 cs = Some a" for cs a
    using dfa_walk_accepts [OF pcdfa4_wf _ _ that] t by (auto simp: list_all_iff)
  with clause_alt_walk [OF \<open>p_inv p\<close>] show ?thesis by (cases "dfa_walk pcdfa4 0 (types_left (pr_cts p))") auto
qed

lemma parse_clause_returns [returns]: "good_rule parse_clause"
  and parse_clause_progress [progress]: "rule_progress clause_start parse_clause"
proof -
  have "\<exists>body. parse_clause p = rule_exit body \<and> body_good clause_start p body" if p: "p_inv p" "\<not> pr_error p" for p
  proof -
    have 1: "body_good clause_start p
        (seqs
          [rule_child FOLLOW_literal_in_clause322 parse_literal,
           token_child T__42 FOLLOW_42_in_clause324] (Some nilNode, p))"
      by (rule body_good_seqs [OF _ _ _ p]) (intro progress returns good_list)+
    have 2: "body_good clause_start p
        (seqs
          [rule_child FOLLOW_literal_in_clause331 parse_literal,
           token_child T__43 FOLLOW_43_in_clause333,
           rule_child FOLLOW_literal_in_clause335 parse_literal,
           star_loop (\<lambda>t. t = T__41)
             (seqs [token_child T__41 FOLLOW_41_in_clause341, rule_child FOLLOW_literal_in_clause343 parse_literal]),
           token_child T__42 FOLLOW_42_in_clause347] (Some nilNode, p))"
      by (rule body_good_seqs [OF _ _ _ p]) (intro progress returns good_list types_not_EOF)+
    have 3: "body_good clause_start p (ok (None, p_exConstruct p))" by (rule body_good_exception [OF p(1)])
    from clause_alt_cases [OF p(1)] 1 2 3 show ?thesis by (auto simp: parse_clause_def simp del: seqs.simps)
  qed
  from body_rule [of parse_clause clause_start, OF this] show "good_rule parse_clause" "rule_progress clause_start parse_clause"
    by simp_all
qed

section \<open>The rules with a rewrite\<close>

lemma rewrite_rule_good:
  assumes "\<And>p. r p = rule_exit (obind (seqs fs (l, p)) rew)" "list_all good_step fs"
    "\<And>l p. \<exists>root. rew (l, p) = ok (root, p) \<or> rew (l, p) = ok (root, p_exConstruct p)"
  shows "good_rule r"
  by (rule rule_good [where f = "seqs fs" and l = l and rew = rew]) (use assms in \<open>auto simp: seqs_good\<close>)

lemma rewrite_rule_progress:
  assumes "\<And>p. r p = rule_exit (obind (seqs (f # fs) (l, p)) rew)" "good_step f" "list_all good_step fs"
    "step_progress c f" "\<not> c ANTLR3_TOKEN_EOF"
    "\<And>l p. \<exists>root. rew (l, p) = ok (root, p) \<or> rew (l, p) = ok (root, p_exConstruct p)"
  shows "rule_progress c r"
  by (rule rule_progressI [where f = "seqs (f # fs)" and l = l and rew = rew])
    (use assms in \<open>auto simp: seqs_good seqs_progress simp del: seqs.simps\<close>)

lemma parse_validity_returns [returns]: "good_rule parse_validity"
  by (rule rewrite_rule_good [OF parse_validity_def]) ((intro returns good_list)+, auto)

lemma parse_certificate_returns [returns]: "good_rule parse_certificate"
  by (rule rewrite_rule_good [OF parse_certificate_def])
    ((intro returns good_list progress)+, auto split: prod.splits)

lemma parse_certificate_progress [progress]: "rule_progress (\<lambda>t. t = TK_CERT_HEADER) parse_certificate"
  by (rule rewrite_rule_progress [OF parse_certificate_def])
    ((intro returns good_list progress types_not_EOF)+, auto split: prod.splits)

lemma parse_credential_good: "good_rule parse_credential"
  by (rule rewrite_rule_good [OF parse_credential_def])
    ((intro returns good_list progress)+, auto simp: becomeRoot_def split: prod.splits)

section \<open>The start rule\<close>

text \<open>Without a token on the channel the first match fails, and the error node is the tree.\<close>

lemma parse_credential_empty:
  assumes "filter on_channel toks = []"
  shows "\<exists>p'. parse_credential (parser_new names toks) = ok (Some errorNode, p')"
proof -
  let ?p = "parser_new names toks" and ?f = FOLLOW_CREDENTIAL_HEADER_in_credential121
  have s: "settled (pr_cts ?p)" "tokens_left (pr_cts ?p) = []" using assms by (simp_all add: parser_new_def)
  have "cts_p (pr_cts ?p) = length (cts_tokens (pr_cts ?p))" using tokens_left_Nil [OF s(1)] s(2) by simp
  then have "LA (pr_cts ?p) 2 = ANTLR3_TOKEN_EOF" by (simp add: LA_def tokLT_def teof_def)
  moreover have "LA (pr_cts ?p) (Suc 0) = ANTLR3_TOKEN_EOF" using LA_1 [OF s(1)] s(2) by simp
  moreover have "\<not> antlr3BitsetMember ?f ANTLR3_TOKEN_EOF" "\<not> antlr3BitsetMember ?f ANTLR3_EOR_TOKEN_TYPE"
    by (simp_all add: antlr3BitsetMember_def ANTLR3_TOKEN_EOF_def ANTLR3_EOR_TOKEN_TYPE_def follow_sets)
  moreover have "ANTLR3_TOKEN_EOF \<noteq> TK_CREDENTIAL_HEADER" by (simp add: token_types ANTLR3_TOKEN_EOF_def)
  ultimately have "match TK_CREDENTIAL_HEADER ?f ?p = ok (None, p_exConstruct ?p)"
    by (simp add: match_def p_LA_def recoverFromMismatchedToken_def mismatchIsUnwantedToken_def mismatchIsMissingToken_def)
  then show ?thesis by (simp add: parse_credential_def token_step_def p_exConstruct_def rule_exit_def)
qed

lemma start_rule_returns:
  assumes "proper_types toks"
  shows "\<exists>t p'. parse_credential (parser_new RepositoryManagerParserTokenNames toks) = Some (Inr (t, p'))"
proof (cases "filter on_channel toks = []")
  case True
  then show ?thesis using parse_credential_empty by (fastforce simp: ok_def)
next
  case False
  then have "\<exists>t \<in> set toks. on_channel t" by (auto simp: filter_empty_conv)
  with assms have "p_inv (parser_new RepositoryManagerParserTokenNames toks)"
    by (simp add: p_inv_def token_inv_def parser_new_def) (simp add: token_stream_new_def)
  from good_ruleD [OF parse_credential_good this] show ?thesis by (auto simp: ok_def parser_new_def)
qed

text \<open>
  C11. The parser returns for every list of tokens with types of 31 bits: error recovery always ends, and no null pointer is
  dereferenced when a missing token is made up.
\<close>

theorem parser_returns:
  assumes "proper_types toks"
  shows "\<exists>t p'. parse_credential (parser_new RepositoryManagerParserTokenNames toks) = Some (Inr (t, p'))"
  using assms by (rule start_rule_returns)

theorem parser_returns_witness:
  "\<exists>t p'. parse_credential (parser_new RepositoryManagerParserTokenNames
     [createToken TK_CREDENTIAL_HEADER ''x'', createToken TK_TEXT ''y'', createToken TK_PUBLIC_KEY_END ''z'']) = Some (Inr (t, p'))"
  by (rule parser_returns) (simp add: proper_types_def token_types)

end
