(* ===== verification/RM_Utils.thy ===== *)
theory RM_Utils
  imports RM_Prelude
begin

text \<open>
  \<^verbatim>\<open>src/src/utils/RepositoryManagerUtils.h\<close>: the message delimiters, \<^verbatim>\<open>trim\<close> and the
  conversion of a \<^verbatim>\<open>datime(...)\<close> predicate to seconds. \<^verbatim>\<open>gmtime\<close> and \<^verbatim>\<open>mktime\<close>
  depend on the host's clock and time zone and are parameters.
\<close>

section \<open>Constants\<close>

definition MAX_CHALLENGE_BUF :: nat where "MAX_CHALLENGE_BUF = 32"
definition MAX_READ :: nat where "MAX_READ = 128"
definition MAX_BUFF :: nat where "MAX_BUFF = 51200"

definition PK_HEADER_S :: string where "PK_HEADER_S = ''-----BEGIN PUBLIC KEY-----''"
definition PK_END_S :: string where "PK_END_S = ''-----END PUBLIC KEY-----''"
definition SIG_S :: string where "SIG_S = ''-----BEGIN SIGNATURE-----''"
definition END_SIG_S :: string where "END_SIG_S = ''-----END SIGNATURE-----''"
definition CLAUSE_S :: string where "CLAUSE_S = ''CLAUSE''"
definition START_TIME_S :: string where "START_TIME_S = ''START_TIME''"
definition STOP_TIME_S :: string where "STOP_TIME_S = ''STOP_TIME''"
definition CERT_S :: string where "CERT_S = ''CERT''"
definition END_CERT_S :: string where "END_CERT_S = ''END_CERT''"
definition CREDENTIAL_S :: string where "CREDENTIAL_S = ''CREDENTIAL''"
definition END_S :: string where "END_S = ''END''"
definition BEGIN_CHALLENGE_S :: string where
  "BEGIN_CHALLENGE_S = ''-----BEGIN MPKI CHALLENGE-----''"
definition END_CHALLENGE_S :: string where
  "END_CHALLENGE_S = ''-----END MPKI CHALLENGE-----''"
definition END_RESPONSE_S :: string where
  "END_RESPONSE_S = ''-----END MPKI CHALLENGE RESPONSE-----''"
definition END_CLIENT_REQUEST_S :: string where
  "END_CLIENT_REQUEST_S = ''-----END REPOSITORY CLIENT REQUEST-----''"
definition BEGIN_SERVER_RESPONSE_S :: string where
  "BEGIN_SERVER_RESPONSE_S = ''-----BEGIN REPOSITORY SERVER REPLY-----''"
definition END_SERVER_RESPONSE_S :: string where
  "END_SERVER_RESPONSE_S = ''-----END REPOSITORY SERVER REPLY-----''"
definition GRANT_S :: string where "GRANT_S = ''granted''"
definition DENY_S :: string where "DENY_S = ''denied''"
definition TMP_FILE_S :: string where "TMP_FILE_S = ''rlf_tmp''"
definition FIN_S :: string where "FIN_S = ''exit''"

lemmas ast_labels = PK_HEADER_S_def PK_END_S_def SIG_S_def END_SIG_S_def CLAUSE_S_def
  START_TIME_S_def STOP_TIME_S_def CERT_S_def END_CERT_S_def CREDENTIAL_S_def END_S_def

lemmas message_labels = BEGIN_CHALLENGE_S_def END_CHALLENGE_S_def END_RESPONSE_S_def
  END_CLIENT_REQUEST_S_def BEGIN_SERVER_RESPONSE_S_def END_SERVER_RESPONSE_S_def
  GRANT_S_def DENY_S_def TMP_FILE_S_def FIN_S_def

section \<open>trim\<close>

definition trim_space :: "char \<Rightarrow> bool" where
  "trim_space c \<longleftrightarrow> c = CHR '' '' \<or> c = CHR 0x0A \<or> c = CHR 0x09 \<or> c = CHR 0x0D"

definition trim :: "string \<Rightarrow> string res" where
  "trim s =
     (let retVal = filter (\<lambda>c. \<not> trim_space c) s in
      if str_find retVal ''/*'' \<noteq> npos then
        (let idx = str_find retVal ''*/'' in
         str_substr retVal (sz_add idx 2) (sz_sub (length retVal) 1))
      else Inr retVal)"

lemma trim_plain:
  assumes "\<not> sublist ''/*'' (filter (\<lambda>c. \<not> trim_space c) s)"
  shows "trim s = Inr (filter (\<lambda>c. \<not> trim_space c) s)"
  using assms by (simp add: trim_def str_find_npos Let_def)

lemma trim_comment:
  assumes "filter (\<lambda>c. \<not> trim_space c) s = a @ ''*/'' @ b" "\<not> sublist ''*/'' (a @ ''*'')"
    "sublist ''/*'' (filter (\<lambda>c. \<not> trim_space c) s)" "fits s"
  shows "trim s = Inr b"
proof -
  let ?r = "filter (\<lambda>c. \<not> trim_space c) s"
  have fr: "fits ?r" using assms(4) le_less_trans [OF length_filter_le] by blast
  have "str_find ?r ''*/'' = length a"
    using assms(1,2) str_find_first [of "''*/''" a b] by (simp add: butlast_append)
  moreover have "str_find ?r ''/*'' \<noteq> npos" using assms(3) fr str_find_npos_iff by blast
  moreover have "sz_add (length a) 2 = length a + 2" "sz_sub (length ?r) 1 = length ?r - 1"
    using fr assms(1) by (auto simp: npos_def sz_max_def intro!: sz_add_small sz_sub_small)
  ultimately show ?thesis by (simp add: trim_def Let_def assms(1))
qed

lemma trim_returns:
  assumes "fits s"
  shows "\<exists>t. trim s = Inr t \<and> (\<forall>c \<in> set t. \<not> trim_space c) \<and> length t \<le> length s"
proof -
  let ?r = "filter (\<lambda>c. \<not> trim_space c) s"
  have fr: "fits ?r" using assms le_less_trans [OF length_filter_le] by blast
  have len: "length ?r \<le> length s" by simp
  show ?thesis
  proof (cases "sublist ''/*'' ?r")
    case False
    then show ?thesis by (auto simp: trim_plain)
  next
    case True
    then have "str_find ?r ''/*'' \<noteq> npos" using fr str_find_npos_iff by blast
    moreover have "sz_add (str_find ?r ''*/'') 2 \<le> length ?r"
    proof (rule str_find_cases [OF fr, of "''*/''"])
      assume "str_find ?r ''*/'' = npos"
      moreover have "1 \<le> length ?r" using True by (cases ?r) auto
      ultimately show ?thesis by (simp add: sz_add_npos_2)
    next
      assume "str_find ?r ''*/'' + length ''*/'' \<le> length ?r"
      then show ?thesis using fr by (subst sz_add_small) (auto simp: npos_def sz_max_def)
    qed
    ultimately have "trim s = Inr (take (sz_sub (length ?r) 1) (drop (sz_add (str_find ?r ''*/'') 2) ?r))"
      by (simp add: trim_def Let_def)
    moreover have "length (take m (drop n ?r)) \<le> length s" for m n
      by (rule order_trans [OF _ len]) (simp add: min.coboundedI1)
    moreover have "\<not> trim_space c" if "c \<in> set (take m (drop n ?r))" for m n c
      using in_set_dropD [OF in_set_takeD [OF that]] by simp
    ultimately show ?thesis by blast
  qed
qed

text \<open>
  \<^verbatim>\<open>trim\<close> never throws on a text that fits in memory, and what it returns has no
  blank, tab, newline or carriage return.
\<close>

theorem trim_total:
  "fits s \<Longrightarrow> \<exists>t. trim s = Inr t \<and> (\<forall>c \<in> set t. \<not> trim_space c) \<and> length t \<le> length s"
  by (rule trim_returns)

theorem trim_total_witness:
  "\<exists>t. trim '' p(a) .'' = Inr t \<and> (\<forall>c \<in> set t. \<not> trim_space c) \<and> length t \<le> length '' p(a) .''"
  by (rule trim_total) (simp add: npos_def)

section \<open>Date and time\<close>

record tm =
  tm_sec :: int
  tm_min :: int
  tm_hour :: int
  tm_mday :: int
  tm_mon :: int
  tm_year :: int
  tm_wday :: int
  tm_yday :: int
  tm_isdst :: int

text \<open>
  \<^verbatim>\<open>stringstream >> int\<close> over the variable's old value: nothing is stored when only white space is left, since the
  stream fails before it reads a number; otherwise an optional sign and digits, where no digits (since C++11)
  store 0 and a value out of range the nearest limit.
\<close>

definition c_isspace :: "char \<Rightarrow> bool" where
  "c_isspace c \<longleftrightarrow> c = CHR '' '' \<or> (9 \<le> (of_char c :: int) \<and> (of_char c :: int) \<le> 13)"

definition c_isdigit :: "char \<Rightarrow> bool" where
  "c_isdigit c \<longleftrightarrow> 48 \<le> (of_char c :: int) \<and> (of_char c :: int) \<le> 57"

definition INT_MAX :: int where "INT_MAX = 2147483647"
definition INT_MIN :: int where "INT_MIN = -2147483648"

fun digits_val :: "int \<Rightarrow> string \<Rightarrow> int" where
  "digits_val acc [] = acc"
| "digits_val acc (c # cs) = digits_val (10 * acc + (of_char c - 48)) cs"

fun read_sign :: "string \<Rightarrow> int \<times> string" where
  "read_sign [] = (1, [])"
| "read_sign (c # cs) = (if c = CHR ''-'' then (-1, cs) else if c = CHR ''+'' then (1, cs) else (1, c # cs))"

definition read_int :: "int \<Rightarrow> string \<Rightarrow> int" where
  "read_int old s =
     (if dropWhile c_isspace s = [] then old
      else let (sgn, t) = read_sign (dropWhile c_isspace s)
           in max INT_MIN (min INT_MAX (sgn * digits_val 0 (takeWhile c_isdigit t))))"

text \<open>
  One field of the predicate: the text from \<open>pos\<close> to the next \<open>delim\<close> behind it, read over the \<open>old\<close> value of
  the member, and the position of that delimiter. \<^verbatim>\<open>idx - pos\<close> wraps around when there is none.
\<close>

definition time_field :: "int \<Rightarrow> string \<Rightarrow> string \<Rightarrow> nat \<Rightarrow> (int \<times> nat) res" where
  "time_field old s delim pos =
     (let idx = str_find_from s delim pos
      in ebind (str_substr s pos (sz_sub idx pos)) (\<lambda>t. Inr (read_int old t, idx)))"

definition getUTCTimeSec :: "(int \<Rightarrow> tm) \<Rightarrow> (tm \<Rightarrow> int) \<Rightarrow> int \<Rightarrow> string \<Rightarrow> int res" where
  "getUTCTimeSec gmtime mktime curTime s =
     (let now = gmtime curTime;
          pos = sz_add (str_find s ''('') 1;
          idx = str_find s '',''
      in ebind (str_substr s pos (sz_sub idx pos)) (\<lambda>t.
         ebind (time_field (tm_mon now) s '','' (sz_add idx 1)) (\<lambda>(mon, idx).
         ebind (time_field (tm_mday now) s '','' (sz_add idx 1)) (\<lambda>(mday, idx).
         ebind (time_field (tm_hour now) s '','' (sz_add idx 1)) (\<lambda>(hour, idx).
         ebind (time_field (tm_min now) s '','' (sz_add idx 1)) (\<lambda>(min, idx).
         ebind (time_field (tm_sec now) s '')'' (sz_add idx 1)) (\<lambda>(sec, idx).
           Inr (mktime (now\<lparr>tm_year := read_int (tm_year now) t - 1900, tm_mon := mon - 1, tm_mday := mday,
                            tm_hour := hour, tm_min := min, tm_sec := sec\<rparr>)))))))))"

subsection \<open>Fields\<close>

lemma str_find_from_le: "fits s \<Longrightarrow> p \<noteq> [] \<Longrightarrow> str_find_from s p k = npos \<or> str_find_from s p k < length s"
proof (cases "k \<le> length s")
  case True
  assume f: "fits s" "p \<noteq> []"
  show ?thesis
  proof (cases "find_aux p (drop k s) 0")
    case None
    with True find_aux_shift [of p "drop k s" k 0] show ?thesis by (simp add: str_find_from_def)
  next
    case (Some i)
    from find_aux_bound [OF Some] f(2) have "i < length (drop k s)" by (cases p) auto
    with True Some find_aux_shift [of p "drop k s" k 0] show ?thesis
      by (auto simp: str_find_from_def)
  qed
qed (simp add: str_find_from_def)

lemma str_find_eq_from: "str_find s p = str_find_from s p 0"
  by (simp add: str_find_def str_find_from_def)

lemma sz_add_found:
  "fits s \<Longrightarrow> i = npos \<or> i < length s \<Longrightarrow> sz_add i 1 \<le> length s"
  by (auto simp: sz_add_def npos_def sz_max_def)

lemma time_field_total:
  assumes "fits s" "pos \<le> length s" "d \<noteq> []"
  shows "\<exists>n i. time_field old s d pos = Inr (n, i) \<and> (i = npos \<or> i < length s)"
  using assms str_find_from_le [of s d pos] by (auto simp: time_field_def Let_def)

lemma time_field_next:
  assumes s: "s = a @ x @ d # b" and "fits s" "d \<notin> set x"
  shows "time_field old s [d] (length a) = Inr (read_int old x, length (a @ x))"
proof -
  have "find_aux [d] (x @ d # b) 0 = Some (length x)"
    using assms(3) find_aux_first [of "[d]" x b 0] by (simp add: sublist_singleton)
  then have i: "str_find_from s [d] (length a) = length (a @ x)"
    using s find_aux_shift [of "[d]" "x @ d # b" "length a" 0] by (simp add: str_find_from_def)
  have "sz_sub (length (a @ x)) (length a) = length x"
    using assms(2) s by (subst sz_sub_small) (auto simp: npos_def sz_max_def)
  with i show ?thesis by (simp add: time_field_def Let_def s)
qed

lemma read_int_digits:
  assumes "\<forall>c \<in> set x. c_isdigit c" "digits_val 0 x \<le> INT_MAX" "x \<noteq> []"
  shows "read_int old x = digits_val 0 x"
proof -
  have mono: "0 \<le> acc \<Longrightarrow> \<forall>c \<in> set y. c_isdigit c \<Longrightarrow> 0 \<le> digits_val acc y" for acc y
    by (induction acc y rule: digits_val.induct) (auto simp: c_isdigit_def)
  have dw: "dropWhile c_isspace x = x"
    using assms(1) by (cases x) (auto simp: c_isdigit_def c_isspace_def)
  have tw: "takeWhile c_isdigit x = x" using assms(1) by (simp add: takeWhile_eq_all_conv)
  have "read_sign x = (1, x)"
    using assms(1) by (cases x) (auto simp: c_isdigit_def)
  moreover have "0 \<le> digits_val 0 x" using assms(1) mono by simp
  ultimately show ?thesis using assms(2,3) by (simp add: read_int_def INT_MAX_def INT_MIN_def dw tw)
qed

lemma getUTCTimeSec_returns:
  assumes "fits s"
  shows "\<exists>v. getUTCTimeSec gmtime mktime now s = Inr v"
proof -
  note step = time_field_total [OF assms sz_add_found [OF assms]]
  let ?i0 = "str_find s '',''"
  have i0: "?i0 = npos \<or> ?i0 < length s"
    and p0: "sz_add (str_find s ''('') 1 \<le> length s"
    using assms str_find_from_le [OF assms] sz_add_found [OF assms]
    by (auto simp: str_find_eq_from)
  obtain m1 i1 where s1: "time_field (tm_mon (gmtime now)) s '','' (sz_add ?i0 1) = Inr (m1, i1)" "i1 = npos \<or> i1 < length s"
    using step [OF i0] by blast
  obtain m2 i2 where s2: "time_field (tm_mday (gmtime now)) s '','' (sz_add i1 1) = Inr (m2, i2)" "i2 = npos \<or> i2 < length s"
    using step [OF s1(2)] by blast
  obtain m3 i3 where s3: "time_field (tm_hour (gmtime now)) s '','' (sz_add i2 1) = Inr (m3, i3)" "i3 = npos \<or> i3 < length s"
    using step [OF s2(2)] by blast
  obtain m4 i4 where s4: "time_field (tm_min (gmtime now)) s '','' (sz_add i3 1) = Inr (m4, i4)" "i4 = npos \<or> i4 < length s"
    using step [OF s3(2)] by blast
  obtain m5 i5 where s5: "time_field (tm_sec (gmtime now)) s '')'' (sz_add i4 1) = Inr (m5, i5)"
    using step [OF s4(2)] by blast
  show ?thesis using p0 s1(1) s2(1) s3(1) s4(1) s5 by (simp add: getUTCTimeSec_def Let_def)
qed

subsection \<open>Properties\<close>

text \<open>
  The conversion never throws, whatever the text (also with brackets or commas missing,
  when the positions wrap around).
\<close>

theorem getUTCTimeSec_total:
  "fits s \<Longrightarrow> \<exists>v. getUTCTimeSec gmtime mktime now s = Inr v"
  by (rule getUTCTimeSec_returns)

theorem getUTCTimeSec_total_witness:
  "\<exists>v. getUTCTimeSec (\<lambda>_. \<lparr>tm_sec = 0, tm_min = 0, tm_hour = 0, tm_mday = 1, tm_mon = 0, tm_year = 70,
     tm_wday = 4, tm_yday = 0, tm_isdst = 0\<rparr>) tm_year 0 ''no brackets'' = Inr v"
  by (rule getUTCTimeSec_total) (simp add: npos_def)

text \<open>
  On \<^verbatim>\<open>datime(Y,Mo,D,H,Mi,S).\<close> with non-empty decimal fields in the range of \<^verbatim>\<open>int\<close> the result is
  \<^verbatim>\<open>mktime\<close> of the broken-down time with exactly these fields (year counted from 1900,
  month from 0).
\<close>

theorem getUTCTimeSec_datime:
  assumes "\<forall>x \<in> {y, mo, d, h, mi, sc}. x \<noteq> [] \<and> (\<forall>c \<in> set x. c_isdigit c) \<and> digits_val 0 x \<le> INT_MAX"
    "fits (''datime('' @ join '','' [y, mo, d, h, mi, sc] @ '').'')"
  shows "getUTCTimeSec gmtime mktime now (''datime('' @ join '','' [y, mo, d, h, mi, sc] @ '').'') =
    Inr (mktime ((gmtime now)\<lparr>tm_year := digits_val 0 y - 1900, tm_mon := digits_val 0 mo - 1,
      tm_mday := digits_val 0 d, tm_hour := digits_val 0 h, tm_min := digits_val 0 mi,
      tm_sec := digits_val 0 sc\<rparr>))"
proof -
  define s where "s = ''datime('' @ join '','' [y, mo, d, h, mi, sc] @ '').''"
  have fit: "fits s" using assms(2) by (simp only: s_def)
  have nc: "CHR '','' \<notin> set x" "CHR '')'' \<notin> set x" "CHR ''('' \<notin> set x"
    if "x \<in> {y, mo, d, h, mi, sc}" for x
    using assms(1) that by (fastforce simp: c_isdigit_def)+
  let ?p1 = "''datime('' @ y @ '',''"
  let ?p2 = "?p1 @ mo @ '',''"
  let ?p3 = "?p2 @ d @ '',''"
  let ?p4 = "?p3 @ h @ '',''"
  let ?p5 = "?p4 @ mi @ '',''"
  have f0: "str_find s ''('' = 6"
    using str_find_first [of "''(''" "''datime''"] by (simp add: sublist_singleton s_def)
  have f1: "str_find s '','' = 7 + length y"
    using str_find_first [of "'',''" "''datime('' @ y"] nc(1) [of y] by (simp add: sublist_singleton s_def)
  have n1: "time_field (tm_mon (gmtime now)) s '','' (length ?p1) = Inr (read_int (tm_mon (gmtime now)) mo, length (?p1 @ mo))"
    by (rule time_field_next [OF _ fit]) (simp_all add: s_def nc)
  have n2: "time_field (tm_mday (gmtime now)) s '','' (length ?p2) = Inr (read_int (tm_mday (gmtime now)) d, length (?p2 @ d))"
    by (rule time_field_next [OF _ fit]) (simp_all add: s_def nc)
  have n3: "time_field (tm_hour (gmtime now)) s '','' (length ?p3) = Inr (read_int (tm_hour (gmtime now)) h, length (?p3 @ h))"
    by (rule time_field_next [OF _ fit]) (simp_all add: s_def nc)
  have n4: "time_field (tm_min (gmtime now)) s '','' (length ?p4) = Inr (read_int (tm_min (gmtime now)) mi, length (?p4 @ mi))"
    by (rule time_field_next [OF _ fit]) (simp_all add: s_def nc)
  have n5: "time_field (tm_sec (gmtime now)) s '')'' (length ?p5) = Inr (read_int (tm_sec (gmtime now)) sc, length (?p5 @ sc))"
    by (rule time_field_next [OF _ fit]) (simp_all add: s_def nc)
  have small: "sz_add k 1 = Suc k" if "k < length s" for k
    using that fit by (subst sz_add_small) (auto simp: npos_def sz_max_def)
  have e: "sz_add 6 1 = 7" "sz_add (7 + length y) 1 = length ?p1"
    "sz_add (length (?p1 @ mo)) 1 = length ?p2" "sz_add (length (?p2 @ d)) 1 = length ?p3"
    "sz_add (length (?p3 @ h)) 1 = length ?p4" "sz_add (length (?p4 @ mi)) 1 = length ?p5"
    by (subst small; simp add: s_def)+
  have sub: "str_substr s 7 (sz_sub (7 + length y) 7) = Inr y"
    using fit by (subst sz_sub_small) (auto simp: npos_def sz_max_def s_def)
  have r: "read_int old x = digits_val 0 x" if "x \<in> {y, mo, d, h, mi, sc}" for x old
    using assms(1) that by (intro read_int_digits) auto
  show ?thesis
    unfolding s_def [symmetric]
    by (simp only: getUTCTimeSec_def Let_def f0 f1 e sub n1 n2 n3 n4 n5 ebind_simps prod.case)
      (simp add: r)
qed

theorem getUTCTimeSec_datime_witness:
  "getUTCTimeSec (\<lambda>_. \<lparr>tm_sec = 0, tm_min = 0, tm_hour = 0, tm_mday = 1, tm_mon = 0, tm_year = 70,
     tm_wday = 4, tm_yday = 0, tm_isdst = 0\<rparr>) (\<lambda>t. 372 * tm_year t + 31 * tm_mon t + tm_mday t) 0
     ''datime(2010,10,12,0,0,0).'' = Inr (372 * 110 + 31 * 9 + 12)"
  using getUTCTimeSec_datime [of "''2010''" "''10''" "''12''" "''0''" "''0''" "''0''"]
  by (simp add: c_isdigit_def INT_MAX_def npos_def)

end
