(* ===== verification/RM_Credential.thy ===== *)
theory RM_Credential
  imports RM_Utils
begin

text \<open>
  \<^verbatim>\<open>src/src/utils/Certificate.h\<close> and \<^verbatim>\<open>src/src/utils/Credential.h\<close>: certificates with
  their clauses, validity, key and signature, and a client's credential that owns a list of
  them. The signed text of a certificate is the concatenation of its clauses and times; the
  theory shows that this text determines them, and that \<^verbatim>\<open>finalize\<close> always succeeds,
  fills in exactly the derived fields and does nothing more when run again.
\<close>

section \<open>Certificates\<close>

text \<open>
  The two \<^verbatim>\<open>long long\<close> fields are not initialised by the constructor: \<open>None\<close> is an
  indeterminate value.
\<close>

record certificate =
  cert_clauses :: "string list"
  transformedCls :: "string list"
  startTimeSec :: "int option"
  stopTimeSec :: "int option"
  startTime :: string
  stopTime :: string
  signature :: string
  cert_pubKey :: string
  cert_keyDigest :: string
  certStr :: string

definition Certificate_new :: certificate where
  "Certificate_new = \<lparr>cert_clauses = [], transformedCls = [], startTimeSec = None, stopTimeSec = None,
     startTime = '''', stopTime = '''', signature = '''', cert_pubKey = '''', cert_keyDigest = '''',
     certStr = ''''\<rparr>"

definition addClause :: "string \<Rightarrow> certificate \<Rightarrow> certificate" where
  "addClause c ct = ct\<lparr>cert_clauses := cert_clauses ct @ [c]\<rparr>"

definition getTransformedCls :: "certificate \<Rightarrow> nat \<Rightarrow> string" where
  "getTransformedCls ct i = (if length (transformedCls ct) \<le> i then '''' else transformedCls ct ! i)"

definition numTransformedCls :: "certificate \<Rightarrow> nat" where
  "numTransformedCls ct = length (transformedCls ct)"

definition addTransformedCls :: "string \<Rightarrow> certificate \<Rightarrow> certificate" where
  "addTransformedCls tc ct = ct\<lparr>transformedCls := transformedCls ct @ [tc]\<rparr>"

definition cert_appendToPubKey :: "string \<Rightarrow> certificate \<Rightarrow> certificate" where
  "cert_appendToPubKey s ct = ct\<lparr>cert_pubKey := cert_pubKey ct @ s\<rparr>"

definition appendToSignature :: "string \<Rightarrow> certificate \<Rightarrow> certificate" where
  "appendToSignature s ct = ct\<lparr>signature := signature ct @ s\<rparr>"

definition appendToStartTime :: "string \<Rightarrow> certificate \<Rightarrow> certificate" where
  "appendToStartTime s ct = ct\<lparr>startTime := startTime ct @ s\<rparr>"

definition appendToStopTime :: "string \<Rightarrow> certificate \<Rightarrow> certificate" where
  "appendToStopTime s ct = ct\<lparr>stopTime := stopTime ct @ s\<rparr>"

definition cert_setKeyDigest :: "string \<Rightarrow> certificate \<Rightarrow> certificate" where
  "cert_setKeyDigest kd ct = ct\<lparr>cert_keyDigest := kd\<rparr>"

text \<open>
  The calendar of the host: \<^verbatim>\<open>gmtime\<close>, \<^verbatim>\<open>mktime\<close> and the value of \<^verbatim>\<open>time(NULL)\<close>. Of the
  broken-down current time only the fields that the \<^verbatim>\<open>datime\<close> text does not set survive.
\<close>

record calendar =
  gmtime :: "int \<Rightarrow> tm"
  mktime :: "tm \<Rightarrow> int"
  time_now :: int

definition to_sec :: "calendar \<Rightarrow> string \<Rightarrow> int res" where
  "to_sec cal t = (if t \<noteq> '''' then getUTCTimeSec (gmtime cal) (mktime cal) (time_now cal) t else Inr 0)"

definition setCertificateStr :: "calendar \<Rightarrow> certificate \<Rightarrow> certificate res" where
  "setCertificateStr cal ct =
     (let ct1 = (if certStr ct = '''' then
            ct\<lparr>certStr := certStr ct @ concat (cert_clauses ct) @ startTime ct @ stopTime ct\<rparr> else ct) in
      ebind (to_sec cal (startTime ct1)) (\<lambda>a.
      ebind (to_sec cal (stopTime ct1)) (\<lambda>b.
        Inr (ct1\<lparr>startTimeSec := Some a, stopTimeSec := Some b\<rparr>))))"

text \<open>\<^verbatim>\<open>toString\<close> completes the certificate first when its text is empty.\<close>

definition Certificate_toString :: "calendar \<Rightarrow> certificate \<Rightarrow> (certificate \<times> string) res" where
  "Certificate_toString cal ct =
     ebind (if certStr ct = '''' then setCertificateStr cal ct else Inr ct) (\<lambda>ct.
       Inr (ct, ''Certificate String: '' @ ''\<newline>'' @ certStr ct @ ''\<newline>''
         @ ''From: '' @ ''\<newline>'' @ startTime ct @ ''\<newline>'' @ ''To: '' @ ''\<newline>''
         @ stopTime ct @ ''\<newline>'' @ ''Public Key: '' @ ''\<newline>'' @ cert_pubKey ct @ ''\<newline>''
         @ ''Signature: '' @ ''\<newline>'' @ signature ct @ ''\<newline>''))"

section \<open>Credentials\<close>

record credential =
  cred_pubKey :: string
  cred_keyDigest :: string
  certificates :: "certificate list"

definition Credential_new :: credential where
  "Credential_new = \<lparr>cred_pubKey = '''', cred_keyDigest = '''', certificates = []\<rparr>"

definition cred_setKeyDigest :: "string \<Rightarrow> credential \<Rightarrow> credential" where
  "cred_setKeyDigest k cr = cr\<lparr>cred_keyDigest := k\<rparr>"

definition cred_appendToPubKey :: "string \<Rightarrow> credential \<Rightarrow> credential" where
  "cred_appendToPubKey s cr = cr\<lparr>cred_pubKey := cred_pubKey cr @ s\<rparr>"

definition addCertificate :: "certificate option \<Rightarrow> credential \<Rightarrow> credential" where
  "addCertificate c cr =
     (case c of None \<Rightarrow> cr | Some ct \<Rightarrow> cr\<lparr>certificates := certificates cr @ [ct]\<rparr>)"

definition getCertificate :: "credential \<Rightarrow> nat \<Rightarrow> certificate option" where
  "getCertificate cr i = (if length (certificates cr) \<le> i then None else Some (certificates cr ! i))"

definition numCertificates :: "credential \<Rightarrow> nat" where
  "numCertificates cr = length (certificates cr)"

text \<open>\<^verbatim>\<open>finalize\<close> completes the certificates in order; the first exception ends it.\<close>

fun map_res :: "('a \<Rightarrow> 'b res) \<Rightarrow> 'a list \<Rightarrow> 'b list res" where
  "map_res f [] = Inr []"
| "map_res f (x # xs) = ebind (f x) (\<lambda>y. ebind (map_res f xs) (\<lambda>ys. Inr (y # ys)))"

definition finalize :: "calendar \<Rightarrow> credential \<Rightarrow> credential res" where
  "finalize cal cr =
     ebind (map_res (setCertificateStr cal) (certificates cr)) (\<lambda>cts. Inr (cr\<lparr>certificates := cts\<rparr>))"

fun show_nat_aux :: "nat \<Rightarrow> nat \<Rightarrow> string" where
  "show_nat_aux 0 n = ''''"
| "show_nat_aux (Suc fuel) n =
     (if n < 10 then '''' else show_nat_aux fuel (n div 10)) @ [char_of (48 + n mod 10)]"

text \<open>Decimal output of a \<^verbatim>\<open>size_t\<close>, which has at most 20 digits.\<close>

definition show_size :: "nat \<Rightarrow> string" where
  "show_size n = show_nat_aux 20 n"

fun render_certificates :: "calendar \<Rightarrow> nat \<Rightarrow> certificate list \<Rightarrow> (certificate list \<times> string) res" where
  "render_certificates cal i [] = Inr ([], '''')"
| "render_certificates cal i (ct # cts) =
     ebind (Certificate_toString cal ct) (\<lambda>(ct', s).
     ebind (render_certificates cal (i + 1) cts) (\<lambda>(cts', t).
       Inr (ct' # cts', ''Rendering Certificate '' @ show_size (i + 1) @ ''\<newline>'' @ s @ ''\<newline>'' @ t)))"

definition Credential_toString :: "calendar \<Rightarrow> credential \<Rightarrow> (credential \<times> string) res" where
  "Credential_toString cal cr =
     ebind (render_certificates cal 0 (certificates cr)) (\<lambda>(cts, t).
       Inr (cr\<lparr>certificates := cts\<rparr>,
         ''Redering Credential'' @ ''\<newline>'' @ ''Public Key'' @ ''\<newline>'' @ cred_pubKey cr @ ''\<newline>''
         @ ''Num Certificates: '' @ show_size (length (certificates cr)) @ ''\<newline>'' @ t))"

section \<open>Completing certificates\<close>

definition cert_fits :: "certificate \<Rightarrow> bool" where
  "cert_fits ct \<longleftrightarrow> fits (startTime ct) \<and> fits (stopTime ct)"

lemma to_sec_returns: "fits t \<Longrightarrow> \<exists>v. to_sec cal t = Inr v"
  using getUTCTimeSec_returns [of t] by (simp add: to_sec_def)

lemma setCertificateStr_returns:
  assumes "cert_fits ct"
  shows "\<exists>a b. to_sec cal (startTime ct) = Inr a \<and> to_sec cal (stopTime ct) = Inr b \<and>
    setCertificateStr cal ct = Inr (ct\<lparr>certStr := (if certStr ct = ''''
        then concat (cert_clauses ct) @ startTime ct @ stopTime ct else certStr ct),
      startTimeSec := Some a, stopTimeSec := Some b\<rparr>)"
  using assms to_sec_returns [of "startTime ct" cal] to_sec_returns [of "stopTime ct" cal]
  by (auto simp: cert_fits_def setCertificateStr_def Let_def)

lemma map_res_all:
  "\<forall>x \<in> set xs. \<exists>y. f x = Inr y \<and> P x y \<Longrightarrow> \<exists>ys. map_res f xs = Inr ys \<and> list_all2 P xs ys"
  by (induction xs) fastforce+

lemma map_res_list_all2: "map_res f xs = Inr ys \<Longrightarrow> list_all2 (\<lambda>x y. f x = Inr y) xs ys"
  by (induction xs arbitrary: ys) (auto simp: ebind_Inr_iff)

lemma map_res_fixed: "\<forall>x \<in> set xs. f x = Inr x \<Longrightarrow> map_res f xs = Inr xs"
  by (induction xs) auto

section \<open>Splitting the signed text\<close>

text \<open>A text that ends with its only full stop, as every clause and time of the grammar does.\<close>

definition stop_terminated :: "string \<Rightarrow> bool" where
  "stop_terminated s \<longleftrightarrow> (\<exists>t. s = t @ ''.'' \<and> CHR ''.'' \<notin> set t)"

lemma stop_terminated_cancel:
  assumes "stop_terminated a" "stop_terminated b" "a @ x = b @ y"
  shows "a = b \<and> x = y"
proof -
  obtain s t where st: "a = s @ ''.''" "CHR ''.'' \<notin> set s" "b = t @ ''.''" "CHR ''.'' \<notin> set t"
    using assms(1,2) by (auto simp: stop_terminated_def)
  have tw: "takeWhile (\<lambda>c. c \<noteq> CHR ''.'') (u @ CHR ''.'' # z) = u" if "CHR ''.'' \<notin> set u" for u z
    using that by (subst takeWhile_append2) auto
  have "s @ CHR ''.'' # x = t @ CHR ''.'' # y" using assms(3) st by simp
  then have "s = t" using tw [OF st(2), of x] tw [OF st(4), of y] by simp
  with st assms(3) show ?thesis by simp
qed

lemma concat_stop_terminated:
  "\<forall>s \<in> set xs. stop_terminated s \<Longrightarrow> \<forall>s \<in> set ys. stop_terminated s \<Longrightarrow> concat xs = concat ys \<Longrightarrow> xs = ys"
proof (induction xs arbitrary: ys)
  case Nil
  then show ?case by (cases ys) (auto simp: stop_terminated_def)
next
  case (Cons x xs)
  have "x \<noteq> []" using Cons.prems(1) by (auto simp: stop_terminated_def)
  then obtain y zs where ys: "ys = y # zs" using Cons.prems(3) by (cases ys) auto
  have "x = y \<and> concat xs = concat zs"
    using Cons.prems ys by (intro stop_terminated_cancel) simp_all
  moreover have "xs = zs" using Cons.prems ys calculation by (intro Cons.IH) simp_all
  ultimately show ?case using ys by simp
qed

section \<open>Properties\<close>

text \<open>
  C8: the text that is signed determines what it certifies: two certificates whose clauses and
  times are terminated texts and whose signed texts are equal have the same clauses, the
  same start and the same end of validity.
\<close>

theorem signed_text_injective:
  assumes "\<forall>s \<in> set (cert_clauses c @ [startTime c, stopTime c]). stop_terminated s"
    "\<forall>s \<in> set (cert_clauses d @ [startTime d, stopTime d]). stop_terminated s"
    "certStr c = ''''" "certStr d = ''''"
    "setCertificateStr cal c = Inr c'" "setCertificateStr cal d = Inr d'" "certStr c' = certStr d'"
  shows "cert_clauses c' = cert_clauses d' \<and> startTime c' = startTime d' \<and> stopTime c' = stopTime d'"
proof -
  have same: "certStr x' = concat (cert_clauses x @ [startTime x, stopTime x]) \<and>
      cert_clauses x' = cert_clauses x \<and> startTime x' = startTime x \<and> stopTime x' = stopTime x"
    if "setCertificateStr cal x = Inr x'" "certStr x = ''''" for x x'
    using that by (auto simp: setCertificateStr_def Let_def ebind_Inr_iff)
  have "cert_clauses c @ [startTime c, stopTime c] = cert_clauses d @ [startTime d, stopTime d]"
    using concat_stop_terminated [OF assms(1,2)] same [OF assms(5,3)] same [OF assms(6,4)] assms(7)
    by metis
  with same [OF assms(5,3)] same [OF assms(6,4)] show ?thesis by simp
qed

definition example_calendar :: calendar where
  "example_calendar = \<lparr>gmtime = (\<lambda>_. \<lparr>tm_sec = 0, tm_min = 0, tm_hour = 0, tm_mday = 1, tm_mon = 0,
     tm_year = 70, tm_wday = 4, tm_yday = 0, tm_isdst = 0\<rparr>),
     mktime = (\<lambda>t. 372 * tm_year t + 31 * tm_mon t + tm_mday t), time_now = 0\<rparr>"

definition example_certificate :: certificate where
  "example_certificate = Certificate_new\<lparr>cert_clauses := [''p(a).''], startTime := ''datime(2010,1,1,0,0,0).'',
     stopTime := ''datime(2011,1,1,0,0,0).''\<rparr>"

lemma example_certificate_fits: "cert_fits example_certificate"
  by (simp add: cert_fits_def example_certificate_def Certificate_new_def npos_def)

lemma stop_terminated_snoc: "CHR ''.'' \<notin> set s \<Longrightarrow> stop_terminated (s @ ''.'')"
  by (auto simp: stop_terminated_def)

lemma example_certificate_stops:
  "\<forall>s \<in> set (cert_clauses example_certificate @ [startTime example_certificate, stopTime example_certificate]).
     stop_terminated s"
  using stop_terminated_snoc [of "''p(a)''"] stop_terminated_snoc [of "''datime(2010,1,1,0,0,0)''"]
    stop_terminated_snoc [of "''datime(2011,1,1,0,0,0)''"]
  by (simp add: example_certificate_def)

theorem signed_text_injective_witness:
  "\<exists>c' d'. setCertificateStr example_calendar example_certificate = Inr c' \<and>
     setCertificateStr example_calendar (example_certificate\<lparr>cert_pubKey := ''k''\<rparr>) = Inr d' \<and>
     cert_clauses c' = cert_clauses d' \<and> startTime c' = startTime d' \<and> stopTime c' = stopTime d'"
proof -
  let ?d = "example_certificate\<lparr>cert_pubKey := ''k''\<rparr>"
  have d: "cert_fits ?d" "\<forall>s \<in> set (cert_clauses ?d @ [startTime ?d, stopTime ?d]). stop_terminated s"
    using example_certificate_fits example_certificate_stops by (simp_all add: cert_fits_def)
  obtain c' d' where r: "setCertificateStr example_calendar example_certificate = Inr c'"
    "setCertificateStr example_calendar ?d = Inr d'" "certStr c' = certStr d'"
    using setCertificateStr_returns [OF example_certificate_fits, of example_calendar]
      setCertificateStr_returns [OF d(1), of example_calendar] by auto
  from signed_text_injective [OF example_certificate_stops d(2) _ _ r] r(1,2)
  show ?thesis by (auto simp: example_certificate_def Certificate_new_def)
qed

text \<open>
  \<^verbatim>\<open>finalize\<close> always returns; it keeps the number of certificates and of each one the
  clauses, times, keys, signature and transformed clauses, sets the signed text where it was
  empty and both time stamps.
\<close>

theorem finalize_returns:
  assumes "\<forall>ct \<in> set (certificates cr). cert_fits ct"
  shows "\<exists>cts. finalize cal cr = Inr (cr\<lparr>certificates := cts\<rparr>) \<and>
    list_all2 (\<lambda>ct ct'. \<exists>a b. to_sec cal (startTime ct) = Inr a \<and> to_sec cal (stopTime ct) = Inr b \<and>
      ct' = ct\<lparr>certStr := (if certStr ct = '''' then concat (cert_clauses ct) @ startTime ct @ stopTime ct
                 else certStr ct), startTimeSec := Some a, stopTimeSec := Some b\<rparr>)
      (certificates cr) cts"
proof -
  let ?P = "\<lambda>ct ct'. \<exists>a b. to_sec cal (startTime ct) = Inr a \<and> to_sec cal (stopTime ct) = Inr b \<and>
      ct' = ct\<lparr>certStr := (if certStr ct = '''' then concat (cert_clauses ct) @ startTime ct @ stopTime ct
                 else certStr ct), startTimeSec := Some a, stopTimeSec := Some b\<rparr>"
  have "\<forall>ct \<in> set (certificates cr). \<exists>y. setCertificateStr cal ct = Inr y \<and> ?P ct y"
  proof
    fix ct assume "ct \<in> set (certificates cr)"
    with assms have "cert_fits ct" by blast
    from setCertificateStr_returns [OF this, of cal]
    show "\<exists>y. setCertificateStr cal ct = Inr y \<and> ?P ct y" by blast
  qed
  from map_res_all [OF this] show ?thesis by (auto simp: finalize_def)
qed

theorem finalize_returns_witness:
  "\<exists>cts. finalize example_calendar \<lparr>cred_pubKey = ''k'', cred_keyDigest = '''', certificates = [example_certificate]\<rparr> =
     Inr \<lparr>cred_pubKey = ''k'', cred_keyDigest = '''', certificates = cts\<rparr> \<and> length cts = 1"
  using finalize_returns [of "\<lparr>cred_pubKey = ''k'', cred_keyDigest = '''', certificates = [example_certificate]\<rparr>"
      example_calendar] example_certificate_fits
  by (auto dest: list_all2_lengthD)

text \<open>Running \<^verbatim>\<open>finalize\<close> a second time changes nothing.\<close>

theorem finalize_idempotent:
  assumes "finalize cal cr = Inr cr'"
  shows "finalize cal cr' = Inr cr'"
proof -
  have idem: "setCertificateStr cal y = Inr y" if "setCertificateStr cal x = Inr y" for x y
    using that by (auto simp: setCertificateStr_def Let_def ebind_Inr_iff split: if_splits)
  obtain cts where cts: "map_res (setCertificateStr cal) (certificates cr) = Inr cts"
    "cr' = cr\<lparr>certificates := cts\<rparr>"
    using assms by (auto simp: finalize_def ebind_Inr_iff)
  have "list_all2 (\<lambda>x y. setCertificateStr cal y = Inr y) (certificates cr) cts"
    by (rule list_all2_mono [OF map_res_list_all2 [OF cts(1)] idem])
  then have "\<forall>y \<in> set cts. setCertificateStr cal y = Inr y"
    by (auto simp: list_all2_conv_all_nth in_set_conv_nth)
  from map_res_fixed [OF this] cts(2) show ?thesis by (simp add: finalize_def)
qed

theorem finalize_idempotent_witness:
  "\<exists>cr'. finalize example_calendar \<lparr>cred_pubKey = ''k'', cred_keyDigest = '''', certificates = [example_certificate]\<rparr> = Inr cr'
     \<and> finalize example_calendar cr' = Inr cr'"
proof -
  obtain c' where "setCertificateStr example_calendar example_certificate = Inr c'"
    using setCertificateStr_returns [OF example_certificate_fits] by blast
  then have "finalize example_calendar \<lparr>cred_pubKey = ''k'', cred_keyDigest = '''', certificates = [example_certificate]\<rparr>
     = Inr \<lparr>cred_pubKey = ''k'', cred_keyDigest = '''', certificates = [c']\<rparr>"
    by (simp add: finalize_def)
  with finalize_idempotent [OF this] show ?thesis by blast
qed

end
