(* ===== verification/RM_AstWalker.thy ===== *)
theory RM_AstWalker
  imports Antlr_Tree RM_Credential
begin

text \<open>
  \<^verbatim>\<open>src/src/manager/AstWalker.h\<close>: the credential is read off the children of the tree
  the parser returns, one text after the other, with a running index. Four of the loops stop
  only at a label; past the last child every text is empty, so without the label they go on for
  ever. They are partial functions with values in \<open>option\<close>, where \<open>None\<close> is a run that
  does not return.

  The theory shows that on the children of a credential with at least one certificate, as the
  grammar's rewrite rules lay them out, the walker returns exactly that credential, and that on
  a credential without certificates, which the grammar allows, it does not return.
\<close>

section \<open>The walker\<close>

text \<open>The string stream and the last label are members and keep their values between calls.\<close>

record walker =
  w_sstr :: string
  w_label :: string

definition AstWalker_new :: walker where
  "AstWalker_new = \<lparr>w_sstr = '''', w_label = ''''\<rparr>"

text \<open>Output of a \<^verbatim>\<open>char*\<close> ends at the first zero byte.\<close>

definition c_str :: "string \<Rightarrow> string" where
  "c_str s = takeWhile (\<lambda>c. c \<noteq> CHR 0x00) s"

text \<open>
  \<^verbatim>\<open>getChildStr\<close> leaves in the stream what it returns; a missing child gives the empty
  string.
\<close>

definition getChildStr :: "ast \<Rightarrow> nat \<Rightarrow> walker \<Rightarrow> walker" where
  "getChildStr t i w =
     w\<lparr>w_sstr := (case getChild t i of None \<Rightarrow> '''' | Some c \<Rightarrow> c_str (ast_toString c))\<rparr>"

partial_function (option) getClauseStr_loop ::
  "ast \<Rightarrow> walker \<Rightarrow> nat \<Rightarrow> string \<Rightarrow> (string \<times> walker \<times> nat) option" where
  "getClauseStr_loop t w i acc =
     (let w1 = getChildStr t i w;
          acc1 = acc @ w_sstr w1;
          w2 = getChildStr t i w1
      in if w_sstr w2 \<noteq> ''.'' then getClauseStr_loop t w2 (i + 1) acc1 else Some (acc1, w2, i + 1))"

definition getClauseStr :: "ast \<Rightarrow> walker \<Rightarrow> nat \<Rightarrow> (string \<times> walker \<times> nat) option" where
  "getClauseStr t w i = getClauseStr_loop t w i ''''"

partial_function (option) cert_clauses_loop ::
  "ast \<Rightarrow> certificate \<Rightarrow> walker \<Rightarrow> nat \<Rightarrow> (certificate \<times> walker \<times> nat) option" where
  "cert_clauses_loop t ct w i =
     (let w1 = getChildStr t i w in
      if w_sstr w1 \<noteq> START_TIME_S then
        Option.bind (getClauseStr t w1 i) (\<lambda>(s, w2, i2). cert_clauses_loop t (addClause s ct) w2 i2)
      else Some (ct, w1, i))"

partial_function (option) cert_key_loop ::
  "ast \<Rightarrow> certificate \<Rightarrow> walker \<Rightarrow> nat \<Rightarrow> (certificate \<times> walker \<times> nat) option" where
  "cert_key_loop t ct w i =
     (let w1 = getChildStr t i w in
      if w_sstr w1 \<noteq> SIG_S then cert_key_loop t (cert_appendToPubKey (''\<newline>'' @ w_sstr w1) ct) w1 (i + 1)
      else Some (ct, w1, i + 1))"

partial_function (option) cert_sig_loop ::
  "ast \<Rightarrow> certificate \<Rightarrow> walker \<Rightarrow> nat \<Rightarrow> (certificate \<times> walker \<times> nat) option" where
  "cert_sig_loop t ct w i =
     (let w1 = getChildStr t i w in
      if w_sstr w1 \<noteq> END_SIG_S then cert_sig_loop t (appendToSignature (''\<newline>'' @ w_sstr w1) ct) w1 (i + 1)
      else Some (ct, w1, i + 1))"

partial_function (option) makeCertificate_loop ::
  "ast \<Rightarrow> certificate \<Rightarrow> walker \<Rightarrow> nat \<Rightarrow> (certificate \<times> walker \<times> nat) option" where
  "makeCertificate_loop t ct w i =
     (if i < getChildCount t then
        let w1 = getChildStr t i w; i1 = i + 1 in
        if w_sstr w1 \<noteq> END_CERT_S then
          let l = w_sstr w1; w2 = w1\<lparr>w_label := l\<rparr> in
          Option.bind
            (if l = CLAUSE_S then cert_clauses_loop t ct w2 i1
             else if l = START_TIME_S then
               map_option (\<lambda>(s, w3, i3). (appendToStartTime s ct, w3, i3)) (getClauseStr t w2 i1)
             else if l = STOP_TIME_S then
               map_option (\<lambda>(s, w3, i3). (appendToStopTime s ct, w3, i3)) (getClauseStr t w2 i1)
             else if l = PK_HEADER_S then
               map_option (\<lambda>(ct3, w3, i3). (ct3, w3, i3 - 1))
                 (cert_key_loop t (cert_appendToPubKey l ct) w2 i1)
             else if l = SIG_S then
               map_option (\<lambda>(ct3, w3, i3). (appendToSignature (''\<newline>'' @ END_SIG_S) ct3, w3, i3))
                 (cert_sig_loop t (appendToSignature l ct) w2 i1)
             else Some (ct, w2, i1 + 1))
            (\<lambda>(ct3, w3, i3). makeCertificate_loop t ct3 w3 i3)
        else Some (ct, w1, i1)
      else Some (ct, w, i))"

definition makeCertificate ::
  "ast \<Rightarrow> credential option \<Rightarrow> walker \<Rightarrow> nat \<Rightarrow> (certificate option \<times> walker \<times> nat) option" where
  "makeCertificate t pCredential w i =
     (case pCredential of
        None \<Rightarrow> Some (None, w, i)
      | Some _ \<Rightarrow> map_option (\<lambda>(ct, w1, i1). (Some ct, w1, i1)) (makeCertificate_loop t Certificate_new w i))"

partial_function (option) cred_key_loop ::
  "ast \<Rightarrow> credential \<Rightarrow> walker \<Rightarrow> nat \<Rightarrow> (credential \<times> walker \<times> nat) option" where
  "cred_key_loop t cr w i =
     (let w1 = getChildStr t i w in
      if w_sstr w1 \<noteq> CERT_S then
        let w2 = getChildStr t i w1 in
        cred_key_loop t (cred_appendToPubKey (''\<newline>'' @ w_sstr w2) cr) w2 (i + 1)
      else Some (cr, w1, i))"

text \<open>
  After a certificate the index steps back to the text that ended it. It is at least 1 there,
  since the label \<^verbatim>\<open>CERT\<close> has been read.
\<close>

partial_function (option) makeCredential_loop ::
  "ast \<Rightarrow> credential \<Rightarrow> walker \<Rightarrow> nat \<Rightarrow> (credential \<times> walker \<times> nat) option" where
  "makeCredential_loop t cr w i =
     (if i < getChildCount t \<and> w_label w \<noteq> END_S then
        let w1 = getChildStr t i w; i1 = i + 1; l = w_sstr w1; w2 = w1\<lparr>w_label := l\<rparr> in
        Option.bind
          (if l = PK_HEADER_S then cred_key_loop t (cred_appendToPubKey l cr) w2 i1
           else if l = CERT_S then
             map_option (\<lambda>(ct, w3, i3).
                 let w4 = getChildStr t (i3 - 1) w3 in
                 ((if ct \<noteq> None then addCertificate ct cr else cr), w4\<lparr>w_label := w_sstr w4\<rparr>, i3 - 1))
               (makeCertificate t (Some cr) w2 i1)
           else Some (cr, w2, i1))
          (\<lambda>(cr3, w3, i3). makeCredential_loop t cr3 w3 i3)
      else Some (cr, w, i))"

definition makeCredential :: "ast \<Rightarrow> walker \<Rightarrow> nat \<Rightarrow> (credential \<times> walker \<times> nat) option" where
  "makeCredential t w i = makeCredential_loop t Credential_new w i"

text \<open>
  \<^verbatim>\<open>getCredential\<close>: the root's text is appended to what the stream holds. The result is
  \<open>None\<close> for a run that does not return, otherwise the null pointer (\<open>None\<close>) or the
  credential, completed by \<^verbatim>\<open>finalize\<close>.
\<close>

definition getCredential :: "calendar \<Rightarrow> ast \<Rightarrow> walker \<Rightarrow> (credential option \<times> walker) res option" where
  "getCredential cal t w =
     (let w1 = w\<lparr>w_sstr := w_sstr w @ c_str (ast_toString t)\<rparr> in
      if w_sstr w1 = CREDENTIAL_S then
        map_option (\<lambda>(cr, w2, i). ebind (finalize cal cr) (\<lambda>cr'. Inr (Some cr', w2)))
          (makeCredential t w1 0)
      else Some (Inr (None, w1)))"

section \<open>Reading the children's texts\<close>

definition texts :: "ast \<Rightarrow> string list" where
  "texts t = map (\<lambda>c. c_str (ast_toString c)) (kids t)"

lemma length_texts: "length (texts t) = getChildCount t"
  by (simp add: texts_def getChildCount_def)

lemma getChildStr_at:
  assumes "drop i (texts t) = x # r"
  shows "getChildStr t i w = w\<lparr>w_sstr := x\<rparr>" "drop (Suc i) (texts t) = r" "i < getChildCount t"
proof -
  have i: "i < length (texts t)" using assms by (metis drop_all list.distinct(1) not_le)
  then have "texts t ! i = x" using assms by (metis Cons_nth_drop_Suc list.inject)
  with i show "getChildStr t i w = w\<lparr>w_sstr := x\<rparr>"
    by (simp add: getChildStr_def getChild_def texts_def)
  show "drop (Suc i) (texts t) = r" using assms by (metis drop_Suc list.sel(3) tl_drop)
  show "i < getChildCount t" using i by (simp add: length_texts)
qed

text \<open>A text read at any index is one of the texts that follow or, past the end, empty.\<close>

lemma getChildStr_cases:
  "w_sstr (getChildStr t i w) \<in> set (drop i (texts t)) \<or> w_sstr (getChildStr t i w) = ''''"
proof (cases "drop i (texts t)")
  case Nil
  then show ?thesis by (simp add: getChildStr_def getChild_def texts_def)
next
  case (Cons x r)
  from getChildStr_at(1) [OF this] Cons show ?thesis by simp
qed

lemma w_label_getChildStr [simp]: "w_label (getChildStr t i w) = w_label w"
  by (simp add: getChildStr_def)

lemma set_drop_Suc: "x \<in> set (drop (Suc i) xs) \<Longrightarrow> x \<in> set (drop i xs)"
  using set_drop_subset_set_drop [of i "Suc i" xs] by auto

lemma getClauseStr_loop_run:
  assumes "drop i (texts t) = c @ ''.'' # r" "''.'' \<notin> set c"
  shows "getClauseStr_loop t w i acc =
    Some (acc @ concat c @ ''.'', w\<lparr>w_sstr := ''.''\<rparr>, i + length c + 1)"
  using assms
proof (induction c arbitrary: i w acc)
  case Nil
  then have "drop i (texts t) = ''.'' # r" by simp
  note at = getChildStr_at [OF this]
  show ?case by (subst getClauseStr_loop.simps) (simp add: at Let_def)
next
  case (Cons x c)
  then have "drop i (texts t) = x # c @ ''.'' # r" by simp
  note at = getChildStr_at [OF this]
  have "drop (Suc i) (texts t) = c @ ''.'' # r" "''.'' \<notin> set c" "x \<noteq> ''.''"
    using at(2) Cons.prems(2) by auto
  with Cons.IH [of "Suc i"] show ?case
    by (subst getClauseStr_loop.simps) (simp add: at(1) Let_def)
qed

lemma getClauseStr_run:
  "drop i (texts t) = c @ ''.'' # r \<Longrightarrow> ''.'' \<notin> set c \<Longrightarrow>
     getClauseStr t w i = Some (concat c @ ''.'', w\<lparr>w_sstr := ''.''\<rparr>, i + length c + 1)"
  by (simp add: getClauseStr_def getClauseStr_loop_run)

lemma drop_after: "drop i xs = c @ r \<Longrightarrow> drop (i + length c) xs = r"
  by (metis add.commute append_eq_conv_conj drop_drop)

section \<open>The layout of a credential\<close>

text \<open>
  What the grammar's rewrite rules leave below the root: the texts of the tokens, and the
  imaginary tokens \<^verbatim>\<open>CERT\<close>, \<^verbatim>\<open>CLAUSE\<close>, \<^verbatim>\<open>START_TIME\<close>,
  \<^verbatim>\<open>STOP_TIME\<close>, \<^verbatim>\<open>END_CERT\<close> and \<^verbatim>\<open>END\<close>.
\<close>

record cert_syntax =
  sx_clauses :: "string list list"
  sx_start :: "string list"
  sx_stop :: "string list"
  sx_key :: "string list"
  sx_sig :: "string list"

record cred_syntax =
  sx_credKey :: "string list"
  sx_certs :: "cert_syntax list"

definition clause_layout :: "string list \<Rightarrow> string list" where
  "clause_layout c = c @ [''.'']"

definition cert_body_layout :: "cert_syntax \<Rightarrow> string list" where
  "cert_body_layout c =
     [CLAUSE_S] @ concat (map clause_layout (sx_clauses c))
     @ [START_TIME_S] @ clause_layout (sx_start c) @ [STOP_TIME_S] @ clause_layout (sx_stop c)
     @ [PK_HEADER_S] @ sx_key c @ [PK_END_S, SIG_S] @ sx_sig c @ [END_SIG_S, END_CERT_S]"

definition cert_layout :: "cert_syntax \<Rightarrow> string list" where
  "cert_layout c = CERT_S # cert_body_layout c"

definition cred_layout :: "cred_syntax \<Rightarrow> string list" where
  "cred_layout s = [PK_HEADER_S] @ sx_credKey s @ [PK_END_S] @ concat (map cert_layout (sx_certs s)) @ [END_S]"

text \<open>No text is one of the labels the walker looks for where it stands.\<close>

definition wf_cert :: "cert_syntax \<Rightarrow> bool" where
  "wf_cert c \<longleftrightarrow>
     (\<forall>cl \<in> set (sx_clauses c). ''.'' \<notin> set cl \<and> take 1 cl \<noteq> [START_TIME_S]) \<and>
     ''.'' \<notin> set (sx_start c) \<and> ''.'' \<notin> set (sx_stop c) \<and> SIG_S \<notin> set (sx_key c) \<and> END_SIG_S \<notin> set (sx_sig c)"

definition wf_cred :: "cred_syntax \<Rightarrow> bool" where
  "wf_cred s \<longleftrightarrow> CERT_S \<notin> set (sx_credKey s) \<and> (\<forall>c \<in> set (sx_certs s). wf_cert c)"

text \<open>The credential that such texts stand for.\<close>

definition cert_of :: "cert_syntax \<Rightarrow> certificate" where
  "cert_of c = Certificate_new\<lparr>cert_clauses := map (\<lambda>cl. concat (clause_layout cl)) (sx_clauses c),
     startTime := concat (clause_layout (sx_start c)), stopTime := concat (clause_layout (sx_stop c)),
     cert_pubKey := join ''\<newline>'' (PK_HEADER_S # sx_key c @ [PK_END_S]),
     signature := join ''\<newline>'' (SIG_S # sx_sig c @ [END_SIG_S])\<rparr>"

definition cred_of :: "cred_syntax \<Rightarrow> credential" where
  "cred_of s = \<lparr>cred_pubKey = join ''\<newline>'' (PK_HEADER_S # sx_credKey s @ [PK_END_S]), cred_keyDigest = '''',
     certificates = map cert_of (sx_certs s)\<rparr>"

lemma join_concat: "join [c] (x # xs) = x @ concat (map ((#) c) xs)"
  by (induction xs arbitrary: x) simp_all

lemma label_distinct:
  "END_CERT_S \<noteq> CLAUSE_S" "END_CERT_S \<noteq> START_TIME_S" "END_CERT_S \<noteq> STOP_TIME_S" "END_CERT_S \<noteq> PK_HEADER_S"
  "END_CERT_S \<noteq> SIG_S" "END_CERT_S \<noteq> CERT_S" "END_CERT_S \<noteq> END_S"
  "CLAUSE_S \<noteq> END_CERT_S" "START_TIME_S \<noteq> END_CERT_S" "STOP_TIME_S \<noteq> END_CERT_S" "PK_HEADER_S \<noteq> END_CERT_S"
  "SIG_S \<noteq> END_CERT_S" "START_TIME_S \<noteq> CLAUSE_S" "STOP_TIME_S \<noteq> CLAUSE_S" "PK_HEADER_S \<noteq> CLAUSE_S"
  "SIG_S \<noteq> CLAUSE_S" "STOP_TIME_S \<noteq> START_TIME_S" "PK_HEADER_S \<noteq> START_TIME_S" "SIG_S \<noteq> START_TIME_S"
  "PK_HEADER_S \<noteq> STOP_TIME_S" "SIG_S \<noteq> STOP_TIME_S" "SIG_S \<noteq> PK_HEADER_S" "PK_END_S \<noteq> SIG_S"
  "CERT_S \<noteq> PK_HEADER_S" "PK_HEADER_S \<noteq> END_S" "CERT_S \<noteq> END_S" "PK_END_S \<noteq> CERT_S" "END_S \<noteq> CERT_S"
  "END_S \<noteq> PK_HEADER_S" "START_TIME_S \<noteq> ''.''" "''.'' \<noteq> START_TIME_S"
  "SIG_S \<noteq> PK_END_S" "CERT_S \<noteq> PK_END_S" "CERT_S \<noteq> []" "''.'' \<noteq> []"
  by (simp_all add: ast_labels)

section \<open>The loops on that layout\<close>

lemma cert_clauses_loop_run:
  assumes "drop i (texts t) = concat (map clause_layout cs) @ START_TIME_S # r"
    "\<forall>cl \<in> set cs. ''.'' \<notin> set cl \<and> take 1 cl \<noteq> [START_TIME_S]"
  shows "cert_clauses_loop t ct w i =
    Some (ct\<lparr>cert_clauses := cert_clauses ct @ map (\<lambda>cl. concat (clause_layout cl)) cs\<rparr>,
      w\<lparr>w_sstr := START_TIME_S\<rparr>, i + length (concat (map clause_layout cs)))"
  using assms
proof (induction cs arbitrary: i w ct)
  case Nil
  then have "drop i (texts t) = START_TIME_S # r" by simp
  note at = getChildStr_at [OF this]
  show ?case by (subst cert_clauses_loop.simps) (simp add: at Let_def)
next
  case (Cons cl cs)
  let ?r = "concat (map clause_layout cs) @ START_TIME_S # r"
  have d: "drop i (texts t) = cl @ ''.'' # ?r" using Cons.prems(1) by (simp add: clause_layout_def [of cl])
  have stop: "''.'' \<notin> set cl" using Cons.prems(2) by simp
  obtain x q where x: "drop i (texts t) = x # q" "x \<noteq> START_TIME_S"
    using d Cons.prems(2) label_distinct by (cases cl) auto
  have "drop (i + length (cl @ [''.''])) (texts t) = ?r" by (rule drop_after) (simp add: d)
  then have d2: "drop (Suc (i + length cl)) (texts t) = ?r" by simp
  have wf2: "\<forall>cl \<in> set cs. ''.'' \<notin> set cl \<and> take 1 cl \<noteq> [START_TIME_S]" using Cons.prems(2) by simp
  show ?case
    using getChildStr_at(1) [OF x(1)] x(2) getClauseStr_run [OF d stop] Cons.IH [OF d2 wf2]
    by (subst cert_clauses_loop.simps) (simp add: Let_def addClause_def clause_layout_def [of cl])
qed

lemma cert_key_loop_run:
  assumes "drop i (texts t) = ks @ SIG_S # r" "SIG_S \<notin> set ks"
  shows "cert_key_loop t ct w i =
    Some (ct\<lparr>cert_pubKey := cert_pubKey ct @ concat (map ((#) (CHR ''\<newline>'')) ks)\<rparr>, w\<lparr>w_sstr := SIG_S\<rparr>, i + length ks + 1)"
  using assms
proof (induction ks arbitrary: i w ct)
  case Nil
  then have "drop i (texts t) = SIG_S # r" by simp
  note at = getChildStr_at [OF this]
  show ?case by (subst cert_key_loop.simps) (simp add: at Let_def)
next
  case (Cons k ks)
  then have "drop i (texts t) = k # ks @ SIG_S # r" by simp
  note at = getChildStr_at [OF this]
  show ?case using Cons.IH [of "Suc i"] at Cons.prems(2)
    by (subst cert_key_loop.simps) (auto simp: Let_def cert_appendToPubKey_def)
qed

lemma cert_sig_loop_run:
  assumes "drop i (texts t) = ks @ END_SIG_S # r" "END_SIG_S \<notin> set ks"
  shows "cert_sig_loop t ct w i =
    Some (ct\<lparr>signature := signature ct @ concat (map ((#) (CHR ''\<newline>'')) ks)\<rparr>, w\<lparr>w_sstr := END_SIG_S\<rparr>, i + length ks + 1)"
  using assms
proof (induction ks arbitrary: i w ct)
  case Nil
  then have "drop i (texts t) = END_SIG_S # r" by simp
  note at = getChildStr_at [OF this]
  show ?case by (subst cert_sig_loop.simps) (simp add: at Let_def)
next
  case (Cons k ks)
  then have "drop i (texts t) = k # ks @ END_SIG_S # r" by simp
  note at = getChildStr_at [OF this]
  show ?case using Cons.IH [of "Suc i"] at Cons.prems(2)
    by (subst cert_sig_loop.simps) (auto simp: Let_def appendToSignature_def)
qed

lemma cred_key_loop_run:
  assumes "drop i (texts t) = ks @ CERT_S # r" "CERT_S \<notin> set ks"
  shows "cred_key_loop t cr w i =
    Some (cr\<lparr>cred_pubKey := cred_pubKey cr @ concat (map ((#) (CHR ''\<newline>'')) ks)\<rparr>, w\<lparr>w_sstr := CERT_S\<rparr>, i + length ks)"
  using assms
proof (induction ks arbitrary: i w cr)
  case Nil
  then have "drop i (texts t) = CERT_S # r" by simp
  note at = getChildStr_at [OF this]
  show ?case by (subst cred_key_loop.simps) (simp add: at Let_def)
next
  case (Cons k ks)
  then have "drop i (texts t) = k # ks @ CERT_S # r" by simp
  note at = getChildStr_at [OF this]
  show ?case using Cons.IH [of "Suc i"] at Cons.prems(2)
    by (subst cred_key_loop.simps) (auto simp: Let_def cred_appendToPubKey_def)
qed

text \<open>One round of the certificate loop for each label.\<close>

lemma makeCertificate_loop_start:
  assumes "drop i (texts t) = START_TIME_S # c @ ''.'' # r" "''.'' \<notin> set c"
  shows "makeCertificate_loop t ct w i = makeCertificate_loop t
    (appendToStartTime (concat c @ ''.'') ct) (w\<lparr>w_label := START_TIME_S, w_sstr := ''.''\<rparr>) (i + length c + 2)"
  using getChildStr_at [OF assms(1)] getClauseStr_run [OF getChildStr_at(2) [OF assms(1)] assms(2)]
  by (subst makeCertificate_loop.simps) (simp add: Let_def label_distinct)

lemma makeCertificate_loop_stop:
  assumes "drop i (texts t) = STOP_TIME_S # c @ ''.'' # r" "''.'' \<notin> set c"
  shows "makeCertificate_loop t ct w i = makeCertificate_loop t
    (appendToStopTime (concat c @ ''.'') ct) (w\<lparr>w_label := STOP_TIME_S, w_sstr := ''.''\<rparr>) (i + length c + 2)"
  using getChildStr_at [OF assms(1)] getClauseStr_run [OF getChildStr_at(2) [OF assms(1)] assms(2)]
  by (subst makeCertificate_loop.simps) (simp add: Let_def label_distinct)

lemma makeCertificate_loop_clauses:
  assumes "drop i (texts t) = CLAUSE_S # concat (map clause_layout cs) @ START_TIME_S # r"
    "\<forall>cl \<in> set cs. ''.'' \<notin> set cl \<and> take 1 cl \<noteq> [START_TIME_S]"
  shows "makeCertificate_loop t ct w i = makeCertificate_loop t
    (ct\<lparr>cert_clauses := cert_clauses ct @ map (\<lambda>cl. concat (clause_layout cl)) cs\<rparr>)
    (w\<lparr>w_label := CLAUSE_S, w_sstr := START_TIME_S\<rparr>) (i + length (concat (map clause_layout cs)) + 1)"
  using getChildStr_at [OF assms(1)] cert_clauses_loop_run [OF getChildStr_at(2) [OF assms(1)] assms(2)]
  by (subst makeCertificate_loop.simps) (simp add: Let_def label_distinct)

lemma makeCertificate_loop_key:
  assumes "drop i (texts t) = PK_HEADER_S # ks @ SIG_S # r" "SIG_S \<notin> set ks"
  shows "makeCertificate_loop t ct w i = makeCertificate_loop t
    (ct\<lparr>cert_pubKey := cert_pubKey ct @ join ''\<newline>'' (PK_HEADER_S # ks)\<rparr>)
    (w\<lparr>w_label := PK_HEADER_S, w_sstr := SIG_S\<rparr>) (i + length ks + 1)"
  using getChildStr_at [OF assms(1)] cert_key_loop_run [OF getChildStr_at(2) [OF assms(1)] assms(2)]
  by (subst makeCertificate_loop.simps)
    (simp add: Let_def label_distinct cert_appendToPubKey_def join_concat)

lemma makeCertificate_loop_sig:
  assumes "drop i (texts t) = SIG_S # ks @ END_SIG_S # r" "END_SIG_S \<notin> set ks"
  shows "makeCertificate_loop t ct w i = makeCertificate_loop t
    (ct\<lparr>signature := signature ct @ join ''\<newline>'' (SIG_S # ks @ [END_SIG_S])\<rparr>)
    (w\<lparr>w_label := SIG_S, w_sstr := END_SIG_S\<rparr>) (i + length ks + 2)"
  using getChildStr_at [OF assms(1)] cert_sig_loop_run [OF getChildStr_at(2) [OF assms(1)] assms(2)]
  by (subst makeCertificate_loop.simps)
    (simp add: Let_def label_distinct appendToSignature_def join_concat)

lemma makeCertificate_loop_end:
  assumes "drop i (texts t) = END_CERT_S # r"
  shows "makeCertificate_loop t ct w i = Some (ct, w\<lparr>w_sstr := END_CERT_S\<rparr>, i + 1)"
  using getChildStr_at [OF assms] by (subst makeCertificate_loop.simps) (simp add: Let_def)

lemma makeCertificate_run:
  assumes "wf_cert c" "drop i (texts t) = cert_body_layout c @ r"
  shows "\<exists>w'. makeCertificate t (Some cr) w i = Some (Some (cert_of c), w', i + length (cert_body_layout c)) \<and>
    drop (i + length (cert_body_layout c) - 1) (texts t) = END_CERT_S # r"
proof -
  note wf = assms(1) [unfolded wf_cert_def]
  let ?cs = "concat (map clause_layout (sx_clauses c))"
  let ?r5 = "END_CERT_S # r"
  let ?r4 = "SIG_S # sx_sig c @ END_SIG_S # ?r5"
  let ?r3 = "PK_HEADER_S # (sx_key c @ [PK_END_S]) @ ?r4"
  let ?r2 = "STOP_TIME_S # sx_stop c @ ''.'' # ?r3"
  let ?r1 = "START_TIME_S # sx_start c @ ''.'' # ?r2"
  have d0: "drop i (texts t) = CLAUSE_S # ?cs @ ?r1"
    using assms(2) by (simp add: cert_body_layout_def clause_layout_def [of "sx_start c"] clause_layout_def [of "sx_stop c"])
  define i1 where "i1 = i + length (CLAUSE_S # ?cs)"
  have d1: "drop i1 (texts t) = ?r1" unfolding i1_def by (rule drop_after) (simp add: d0)
  define i2 where "i2 = i1 + length (START_TIME_S # sx_start c @ [''.''])"
  have d2: "drop i2 (texts t) = ?r2" unfolding i2_def by (rule drop_after) (simp add: d1)
  define i3 where "i3 = i2 + length (STOP_TIME_S # sx_stop c @ [''.''])"
  have d3: "drop i3 (texts t) = ?r3" unfolding i3_def by (rule drop_after) (simp add: d2)
  define i4 where "i4 = i3 + length (PK_HEADER_S # sx_key c @ [PK_END_S])"
  have d4: "drop i4 (texts t) = ?r4" unfolding i4_def by (rule drop_after) (simp add: d3)
  define i5 where "i5 = i4 + length (SIG_S # sx_sig c @ [END_SIG_S])"
  have d5: "drop i5 (texts t) = ?r5" unfolding i5_def by (rule drop_after) (simp add: d4)
  have len: "i + length (cert_body_layout c) = i5 + 1"
    by (simp add: i5_def i4_def i3_def i2_def i1_def cert_body_layout_def clause_layout_def [of "sx_start c"]
        clause_layout_def [of "sx_stop c"])
  have "makeCertificate_loop t Certificate_new w i =
      makeCertificate_loop t (Certificate_new\<lparr>cert_clauses := map (\<lambda>cl. concat (clause_layout cl)) (sx_clauses c)\<rparr>)
        (w\<lparr>w_label := CLAUSE_S, w_sstr := START_TIME_S\<rparr>) i1"
    using makeCertificate_loop_clauses [OF d0] wf by (simp add: i1_def Certificate_new_def)
  also have "\<dots> = makeCertificate_loop t (Certificate_new\<lparr>cert_clauses := map (\<lambda>cl. concat (clause_layout cl)) (sx_clauses c),
      startTime := concat (clause_layout (sx_start c))\<rparr>) (w\<lparr>w_label := START_TIME_S, w_sstr := ''.''\<rparr>) i2"
    using makeCertificate_loop_start [OF d1] wf
    by (simp add: i2_def appendToStartTime_def Certificate_new_def clause_layout_def [of "sx_start c"])
  also have "\<dots> = makeCertificate_loop t (Certificate_new\<lparr>cert_clauses := map (\<lambda>cl. concat (clause_layout cl)) (sx_clauses c),
      startTime := concat (clause_layout (sx_start c)), stopTime := concat (clause_layout (sx_stop c))\<rparr>)
      (w\<lparr>w_label := STOP_TIME_S, w_sstr := ''.''\<rparr>) i3"
    using makeCertificate_loop_stop [OF d2] wf
    by (simp add: i3_def appendToStopTime_def Certificate_new_def clause_layout_def [of "sx_stop c"])
  also have "\<dots> = makeCertificate_loop t (Certificate_new\<lparr>cert_clauses := map (\<lambda>cl. concat (clause_layout cl)) (sx_clauses c),
      startTime := concat (clause_layout (sx_start c)), stopTime := concat (clause_layout (sx_stop c)),
      cert_pubKey := join ''\<newline>'' (PK_HEADER_S # sx_key c @ [PK_END_S])\<rparr>)
      (w\<lparr>w_label := PK_HEADER_S, w_sstr := SIG_S\<rparr>) i4"
    using makeCertificate_loop_key [OF d3] wf by (simp add: i4_def Certificate_new_def label_distinct)
  also have "\<dots> = makeCertificate_loop t (cert_of c) (w\<lparr>w_label := SIG_S, w_sstr := END_SIG_S\<rparr>) i5"
    using makeCertificate_loop_sig [OF d4] wf by (simp add: i5_def Certificate_new_def cert_of_def)
  also have "\<dots> = Some (cert_of c, w\<lparr>w_label := SIG_S, w_sstr := END_CERT_S\<rparr>, i5 + 1)"
    using makeCertificate_loop_end [OF d5] by simp
  finally show ?thesis using d5 len by (simp add: makeCertificate_def)
qed

lemma makeCredential_loop_cert:
  assumes "wf_cert c" "drop i (texts t) = cert_layout c @ r" "w_label w \<noteq> END_S"
  shows "\<exists>w'. w_label w' = END_CERT_S \<and>
    makeCredential_loop t cr w i =
    makeCredential_loop t (cr\<lparr>certificates := certificates cr @ [cert_of c]\<rparr>) w' (i + length (cert_layout c))"
proof -
  have d: "drop i (texts t) = CERT_S # cert_body_layout c @ r" using assms(2) by (simp add: cert_layout_def)
  note at = getChildStr_at [OF d]
  let ?w2 = "w\<lparr>w_sstr := CERT_S, w_label := CERT_S\<rparr>"
  obtain w3 where w3: "makeCertificate t (Some cr) ?w2 (i + 1) =
      Some (Some (cert_of c), w3, i + 1 + length (cert_body_layout c))"
    "drop (i + 1 + length (cert_body_layout c) - 1) (texts t) = END_CERT_S # r"
    using makeCertificate_run [OF assms(1), of "i + 1" t r cr ?w2] at(2) by auto
  then have e: "drop (i + length (cert_body_layout c)) (texts t) = END_CERT_S # r" by simp
  let ?cr = "cr\<lparr>certificates := certificates cr @ [cert_of c]\<rparr>"
  let ?w4 = "w3\<lparr>w_sstr := END_CERT_S, w_label := END_CERT_S\<rparr>"
  have "makeCredential_loop t cr w i = makeCredential_loop t ?cr ?w4 (i + length (cert_body_layout c))"
    using at assms(3) w3(1) getChildStr_at(1) [OF e]
    by (subst makeCredential_loop.simps) (simp add: Let_def label_distinct addCertificate_def)
  also have "\<dots> = makeCredential_loop t ?cr ?w4 (i + length (cert_body_layout c) + 1)"
    using getChildStr_at [OF e] by (subst makeCredential_loop.simps) (simp add: Let_def label_distinct)
  finally show ?thesis
    by (intro exI [of _ ?w4]) (simp add: cert_layout_def)
qed

lemma makeCredential_loop_certs:
  assumes "\<forall>c \<in> set cs. wf_cert c" "drop i (texts t) = concat (map cert_layout cs) @ [END_S]" "w_label w \<noteq> END_S"
  shows "\<exists>w' i'. makeCredential_loop t cr w i =
    Some (cr\<lparr>certificates := certificates cr @ map cert_of cs\<rparr>, w', i')"
  using assms
proof (induction cs arbitrary: i w cr)
  case Nil
  then have d: "drop i (texts t) = END_S # []" by simp
  note at = getChildStr_at [OF d]
  have "makeCredential_loop t cr (w\<lparr>w_sstr := END_S, w_label := END_S\<rparr>) (Suc i) =
      Some (cr, w\<lparr>w_sstr := END_S, w_label := END_S\<rparr>, Suc i)"
    by (subst makeCredential_loop.simps) simp
  then show ?case using at Nil(3)
    by (subst makeCredential_loop.simps) (simp add: Let_def label_distinct)
next
  case (Cons c cs)
  let ?r = "concat (map cert_layout cs) @ [END_S]"
  have d: "drop i (texts t) = cert_layout c @ ?r" using Cons.prems(2) by simp
  obtain w' where w': "w_label w' = END_CERT_S" "makeCredential_loop t cr w i =
      makeCredential_loop t (cr\<lparr>certificates := certificates cr @ [cert_of c]\<rparr>) w' (i + length (cert_layout c))"
    using makeCredential_loop_cert [OF _ d Cons.prems(3)] Cons.prems(1) by auto
  from Cons.IH [of "i + length (cert_layout c)" w' "cr\<lparr>certificates := certificates cr @ [cert_of c]\<rparr>"]
  show ?case using Cons.prems(1) drop_after [OF d] w' by (auto simp: label_distinct)
qed

lemma makeCredential_run:
  assumes "wf_cred s" "sx_certs s \<noteq> []" "texts t = cred_layout s" "w_label w \<noteq> END_S"
  shows "\<exists>w' i'. makeCredential t w 0 = Some (cred_of s, w', i')"
proof -
  obtain c cs where cs: "sx_certs s = c # cs" using assms(2) by (cases "sx_certs s") auto
  let ?k = "sx_credKey s @ [PK_END_S]"
  let ?r = "concat (map cert_layout (sx_certs s)) @ [END_S]"
  have d0: "drop 0 (texts t) = PK_HEADER_S # ?k @ ?r" using assms(3) by (simp add: cred_layout_def)
  note at = getChildStr_at [OF d0]
  define q where "q = tl ?r"
  have q: "?r = CERT_S # q" by (simp add: cs cert_layout_def q_def)
  have nk: "CERT_S \<notin> set ?k" using assms(1) by (auto simp: wf_cred_def label_distinct)
  have d1: "drop (Suc 0) (texts t) = ?k @ CERT_S # q" using at(2) q by simp
  have d2: "drop (Suc 0 + length ?k) (texts t) = ?r" using drop_after [OF d1] q by simp
  let ?cr = "Credential_new\<lparr>cred_pubKey := join ''\<newline>'' (PK_HEADER_S # ?k)\<rparr>"
  let ?w = "w\<lparr>w_label := PK_HEADER_S, w_sstr := CERT_S\<rparr>"
  have "makeCredential_loop t Credential_new w 0 = makeCredential_loop t ?cr ?w (Suc 0 + length ?k)"
    using at(1,3) assms(4) cred_key_loop_run [OF d1 nk]
    by (subst makeCredential_loop.simps)
      (simp add: Let_def label_distinct cred_appendToPubKey_def join_concat Credential_new_def)
  moreover obtain w' i' where "makeCredential_loop t ?cr ?w (Suc 0 + length ?k) =
      Some (?cr\<lparr>certificates := certificates ?cr @ map cert_of (sx_certs s)\<rparr>, w', i')"
    using makeCredential_loop_certs [OF _ d2, of ?w ?cr] assms(1) by (auto simp: wf_cred_def label_distinct)
  ultimately show ?thesis
    by (auto simp: makeCredential_def cred_of_def Credential_new_def)
qed

section \<open>Loops without their label\<close>

lemma cred_key_loop_stops:
  assumes "cred_key_loop t cr w i = Some r"
  shows "CERT_S \<in> set (drop i (texts t))"
proof (rule cred_key_loop.raw_induct [of "\<lambda>t cr w i r. CERT_S \<in> set (drop i (texts t))", OF _ assms])
  fix f t cr w i r
  assume IH: "\<And>t cr w i r. f t cr w i = Some r \<Longrightarrow> CERT_S \<in> set (drop i (texts t))"
    and body: "(let w1 = getChildStr t i w in
      if w_sstr w1 \<noteq> CERT_S then
        let w2 = getChildStr t i w1 in f t (cred_appendToPubKey (''\<newline>'' @ w_sstr w2) cr) w2 (i + 1)
      else Some (cr, w1, i)) = Some r"
  show "CERT_S \<in> set (drop i (texts t))"
  proof (cases "w_sstr (getChildStr t i w) = CERT_S")
    case True
    with getChildStr_cases [of t i w] label_distinct show ?thesis by auto
  next
    case False
    with body obtain cr' w' where "f t cr' w' (i + 1) = Some r" by (auto simp: Let_def)
    from IH [OF this] show ?thesis by (simp add: set_drop_Suc)
  qed
qed

lemma getClauseStr_loop_stops:
  assumes "getClauseStr_loop t w i acc = Some r"
  shows "''.'' \<in> set (drop i (texts t))"
proof (rule getClauseStr_loop.raw_induct [of "\<lambda>t w i acc r. ''.'' \<in> set (drop i (texts t))", OF _ assms])
  fix f t w i acc r
  assume IH: "\<And>t w i acc r. f t w i acc = Some r \<Longrightarrow> ''.'' \<in> set (drop i (texts t))"
    and body: "(let w1 = getChildStr t i w; acc1 = acc @ w_sstr w1; w2 = getChildStr t i w1 in
      if w_sstr w2 \<noteq> ''.'' then f t w2 (i + 1) acc1 else Some (acc1, w2, i + 1)) = Some r"
  let ?w = "getChildStr t i (getChildStr t i w)"
  show "''.'' \<in> set (drop i (texts t))"
  proof (cases "w_sstr ?w = ''.''")
    case True
    with getChildStr_cases [of t i "getChildStr t i w"] show ?thesis by auto
  next
    case False
    with body obtain w' acc' where "f t w' (i + 1) acc' = Some r" by (auto simp: Let_def)
    from IH [OF this] show ?thesis by (simp add: set_drop_Suc)
  qed
qed

section \<open>Properties\<close>

lemma getCredential_run:
  assumes "wf_cred s" "sx_certs s \<noteq> []" "c_str (ast_toString t) = CREDENTIAL_S" "texts t = cred_layout s"
    "finalize cal (cred_of s) = Inr cr"
  shows "\<exists>w. getCredential cal t AstWalker_new = Some (Inr (Some cr, w))"
proof -
  let ?w = "AstWalker_new\<lparr>w_sstr := CREDENTIAL_S\<rparr>"
  have "w_label ?w \<noteq> END_S" by (simp add: AstWalker_new_def ast_labels)
  from makeCredential_run [OF assms(1,2,4) this] assms(3,5)
  show ?thesis by (auto simp: getCredential_def Let_def AstWalker_new_def)
qed

text \<open>
  On the tree of a credential with at least one certificate, a new walker returns exactly
  that credential: key, certificates in order, and of each certificate its clauses, times, key
  and signature, completed by \<^verbatim>\<open>finalize\<close>.
\<close>

theorem getCredential_layout:
  assumes "wf_cred s" "sx_certs s \<noteq> []" "c_str (ast_toString t) = CREDENTIAL_S" "texts t = cred_layout s"
    "finalize cal (cred_of s) = Inr cr"
  shows "\<exists>w. getCredential cal t AstWalker_new = Some (Inr (Some cr, w))"
  using assms by (rule getCredential_run)

definition leaf :: "string \<Rightarrow> ast" where
  "leaf s = createTypeText 0 s"

definition example_syntax :: cred_syntax where
  "example_syntax = \<lparr>sx_credKey = [''MIGf''], sx_certs = [\<lparr>sx_clauses = [[''p'', ''('', ''a'', '')'']],
     sx_start = [''datime'', ''('', ''2010'', '','', ''1'', '','', ''1'', '','', ''0'', '','', ''0'', '','', ''0'', '')''],
     sx_stop = [''datime'', ''('', ''2011'', '','', ''1'', '','', ''1'', '','', ''0'', '','', ''0'', '','', ''0'', '')''],
     sx_key = [''MIGe''], sx_sig = [''c2ln'']\<rparr>]\<rparr>"

definition example_tree :: "cred_syntax \<Rightarrow> ast" where
  "example_tree s = Node (Some (createToken 4 CREDENTIAL_S)) (map leaf (cred_layout s))"

lemma texts_example: "\<forall>s \<in> set (cred_layout x). c_str s = s \<Longrightarrow> texts (example_tree x) = cred_layout x"
  by (simp add: texts_def example_tree_def leaf_def map_idI)

lemma example_layout: "texts (example_tree example_syntax) = cred_layout example_syntax"
  by (rule texts_example)
    (simp add: example_syntax_def cred_layout_def cert_layout_def cert_body_layout_def clause_layout_def c_str_def
      ast_labels)

lemma example_wf: "wf_cred example_syntax"
  by (simp add: example_syntax_def wf_cred_def wf_cert_def ast_labels)

lemma example_finalize: "\<exists>cr. finalize example_calendar (cred_of example_syntax) = Inr cr"
proof -
  have "\<forall>ct \<in> set (certificates (cred_of example_syntax)). \<exists>y. setCertificateStr example_calendar ct = Inr y \<and> True"
    using setCertificateStr_returns [of "cert_of (hd (sx_certs example_syntax))" example_calendar]
    by (auto simp: cred_of_def example_syntax_def cert_of_def cert_fits_def Certificate_new_def clause_layout_def npos_def)
  from map_res_all [OF this] show ?thesis by (auto simp: finalize_def)
qed

theorem getCredential_layout_witness:
  "\<exists>cr w. getCredential example_calendar (example_tree example_syntax) AstWalker_new = Some (Inr (Some cr, w))"
proof -
  obtain cr where "finalize example_calendar (cred_of example_syntax) = Inr cr" using example_finalize by blast
  from getCredential_layout [OF example_wf _ _ example_layout this]
  show ?thesis by (auto simp: example_syntax_def example_tree_def c_str_def ast_labels)
qed

text \<open>
  C17: a credential that starts with a public key and has no certificate, which the grammar
  accepts, makes the walker read past the last child for ever: the call does not return.
\<close>

theorem getCredential_diverges:
  assumes "c_str (ast_toString t) = CREDENTIAL_S" "texts t = PK_HEADER_S # r" "CERT_S \<notin> set r"
  shows "getCredential cal t AstWalker_new = None"
proof -
  have d: "drop 0 (texts t) = PK_HEADER_S # r" using assms(2) by simp
  note at = getChildStr_at [OF d]
  have "cred_key_loop t cr w (Suc 0) = None" for cr w
    using cred_key_loop_stops [of t cr w "Suc 0"] at(2) assms(3) by (cases "cred_key_loop t cr w (Suc 0)") auto
  then have "makeCredential_loop t Credential_new (AstWalker_new\<lparr>w_sstr := CREDENTIAL_S\<rparr>) 0 = None"
    using at(1,3) by (subst makeCredential_loop.simps) (simp add: Let_def AstWalker_new_def ast_labels)
  then show ?thesis
    using assms(1) by (simp add: getCredential_def Let_def makeCredential_def AstWalker_new_def)
qed

theorem getCredential_diverges_witness:
  "getCredential example_calendar (example_tree \<lparr>sx_credKey = [''MIGf''], sx_certs = []\<rparr>) AstWalker_new = None"
proof (rule getCredential_diverges)
  let ?s = "\<lparr>sx_credKey = [''MIGf''], sx_certs = []\<rparr>"
  show "c_str (ast_toString (example_tree ?s)) = CREDENTIAL_S"
    by (simp add: example_tree_def c_str_def ast_labels)
  show "texts (example_tree ?s) = PK_HEADER_S # [''MIGf'', PK_END_S, END_S]"
    by (simp add: texts_example cred_layout_def c_str_def ast_labels)
  show "CERT_S \<notin> set [''MIGf'', PK_END_S, END_S]" by (simp add: ast_labels)
qed

text \<open>
  \<^verbatim>\<open>getClauseStr\<close> returns exactly when a full stop is among the texts from the index on.
\<close>

theorem getClauseStr_returns_iff:
  "(\<exists>r. getClauseStr t w i = Some r) \<longleftrightarrow> ''.'' \<in> set (drop i (texts t))"
proof
  assume "\<exists>r. getClauseStr t w i = Some r"
  then show "''.'' \<in> set (drop i (texts t))"
    using getClauseStr_loop_stops by (auto simp: getClauseStr_def)
next
  assume "''.'' \<in> set (drop i (texts t))"
  then obtain c r where "drop i (texts t) = c @ ''.'' # r" "''.'' \<notin> set c" by (metis split_list_first)
  from getClauseStr_run [OF this] show "\<exists>r. getClauseStr t w i = Some r" by auto
qed

end
