(* ===== verification/RM_Grammar.thy ===== *)
theory RM_Grammar
  imports RM_Parser_Returns RM_AstWalker
begin

text \<open>
  The language of the parser: what a credential's tokens are, written down independently of the
  parser, and the proof that the generated rules accept them without an error and build the
  tree of the grammar's rewrite rules. Tokens are seen as symbols, pairs of a type and a text, and
  trees by the texts below their root.
\<close>

section \<open>Reading symbols\<close>

type_synonym symbol = "nat \<times> string"

definition symbols_left :: "parser \<Rightarrow> symbol list" where
  "symbols_left p = map (\<lambda>t. (tk_type t, tk_text t)) (tokens_left (pr_cts p))"

text \<open>The parser is ready to read the symbols \<open>xs\<close>, and nothing is wrong.\<close>

definition ready :: "parser \<Rightarrow> symbol list \<Rightarrow> bool" where
  "ready p xs \<longleftrightarrow> p_inv p \<and> \<not> pr_error p \<and> symbols_left p = xs"

text \<open>
  A step that reads the symbols \<open>xs\<close> before \<open>r\<close>, without an error, and changes the local state as \<open>R\<close> says; and
  a rule that reads \<open>xs\<close> before \<open>r\<close> and returns a tree whose texts are \<open>ys\<close>.
\<close>

definition runs :: "'l step \<Rightarrow> ('l \<Rightarrow> 'l \<Rightarrow> bool) \<Rightarrow> symbol list \<Rightarrow> symbol list \<Rightarrow> bool" where
  "runs f R xs r \<longleftrightarrow> (\<forall>l p. ready p (xs @ r) \<longrightarrow>
     (\<exists>l' p'. f (l, p) = ok (l', p') \<and> ready p' r \<and> pr_errorCount p' = pr_errorCount p \<and> R l l'))"

definition flat :: "ast \<Rightarrow> bool" where
  "flat t \<longleftrightarrow> list_all (\<lambda>c. \<not> isNilNode c) (kids t)"

definition tree_adds :: "string list \<Rightarrow> ast option \<Rightarrow> bool" where
  "tree_adds ys t \<longleftrightarrow> spliced_texts t = ys \<and> (case t of None \<Rightarrow> True | Some n \<Rightarrow> isNilNode n \<longrightarrow> flat n)"

definition rule_reads :: "rule_fun \<Rightarrow> symbol list \<Rightarrow> symbol list \<Rightarrow> string list \<Rightarrow> bool" where
  "rule_reads f xs r ys \<longleftrightarrow> (\<forall>p. ready p (xs @ r) \<longrightarrow>
     (\<exists>t p'. f p = ok (t, p') \<and> ready p' r \<and> pr_errorCount p' = pr_errorCount p \<and> tree_adds ys t))"

text \<open>Children with the texts \<open>ys\<close> are appended to the tree.\<close>

definition grows :: "string list \<Rightarrow> ast option \<Rightarrow> ast option \<Rightarrow> bool" where
  "grows ys root root' \<longleftrightarrow> (\<forall>n. root = Some n \<longrightarrow> flat n \<longrightarrow>
     (\<exists>n'. root' = Some n' \<and> payload n' = payload n \<and> flat n' \<and> child_texts n' = child_texts n @ ys))"

lemma symbols_LA:
  assumes "ready p ((ty, s) # xs)"
  shows "p_LA p 1 = ty" "tk_text (tokLT (pr_cts p) 1) = s"
proof -
  have "settled (pr_cts p)" using assms by (simp add: ready_def p_inv_settled)
  from LA_1 [OF this] tokLT_1 [OF this] assms show "p_LA p 1 = ty" "tk_text (tokLT (pr_cts p) 1) = s"
    by (auto simp: ready_def symbols_left_def p_LA_def)
qed

lemma ready_consume: "ready p (x # xs) \<Longrightarrow> ready (p_consume p) xs"
  using p_inv_steps [OF _ consume_steps, of p] tokens_left_consume [of "pr_cts p"] p_inv_settled [of p]
  by (auto simp: ready_def symbols_left_def p_consume_def)

lemma ready_flags [simp]: "ready (p\<lparr>pr_errorRecovery := b\<rparr>) xs = ready p xs" "ready (FOLLOWPUSH f p) xs = ready p xs"
  "ready (FOLLOWPOP p) xs = ready p xs" "pr_errorCount (FOLLOWPUSH f p) = pr_errorCount p"
  "pr_errorCount (FOLLOWPOP p) = pr_errorCount p" "pr_errorCount (p_consume p) = pr_errorCount p"
  by (simp_all add: ready_def symbols_left_def FOLLOWPUSH_def FOLLOWPOP_def p_inv_def p_consume_def)

lemma ready_no_error: "ready p xs \<Longrightarrow> \<not> pr_error p"
  by (simp add: ready_def)

lemma match_reads:
  assumes "ready p ((ty, s) # xs)"
  shows "\<exists>t p'. match ty follow p = ok (Some t, p') \<and> tk_text t = s \<and> ready p' xs \<and> pr_errorCount p' = pr_errorCount p"
  using symbols_LA [OF assms] ready_consume [OF assms] by (auto simp: match_def)

section \<open>Steps\<close>

lemma runsI:
  assumes "\<And>l p. ready p (xs @ r) \<Longrightarrow> \<exists>l' p'. f (l, p) = ok (l', p') \<and> ready p' r \<and> pr_errorCount p' = pr_errorCount p \<and> R l l'"
  shows "runs f R xs r"
  using assms unfolding runs_def by blast

lemma runsE:
  assumes "runs f R xs r" "ready p (xs @ r)"
  obtains l' p' where "f (l, p) = ok (l', p')" "ready p' r" "pr_errorCount p' = pr_errorCount p" "R l l'"
  using assms unfolding runs_def by blast

lemma runs_weaken: "runs f R xs r \<Longrightarrow> (\<And>l l'. R l l' \<Longrightarrow> S l l') \<Longrightarrow> runs f S xs r"
  unfolding runs_def by blast

lemma flat_add: "flat root \<Longrightarrow> (case t of None \<Rightarrow> True | Some n \<Rightarrow> isNilNode n \<longrightarrow> flat n) \<Longrightarrow> flat (addChild root t)"
  by (cases t) (auto simp: flat_def list_all_iff)

lemma spliced_texts_None [simp]: "spliced_texts None = []"
  by (simp add: spliced_texts_def)

lemma grows_add: "tree_adds ys t \<Longrightarrow> grows ys root (adaptor_addChild root t)"
  by (cases t) (auto simp: grows_def tree_adds_def adaptor_addChild_def child_texts_addChild flat_add)

lemma tree_adds_leaf: "tree_adds [tk_text t] (Some (create (Some t)))"
  by (simp add: tree_adds_def spliced_texts_def)

lemma token_step_runs: "runs (token_step ty follow) (=) [(ty, s)] r"
proof (rule runsI)
  fix l :: 'a and p
  assume "ready p ([(ty, s)] @ r)"
  then obtain t p' where "match ty follow p = ok (Some t, p')" "ready p' r" "pr_errorCount p' = pr_errorCount p"
    using match_reads [of p ty s r follow] by auto
  then show "\<exists>l' p'. token_step ty follow (l, p) = ok (l', p') \<and> ready p' r \<and> pr_errorCount p' = pr_errorCount p \<and> l = l'"
    by (simp add: token_step_def)
qed

lemma token_child_runs: "runs (token_child ty follow) (grows [s]) [(ty, s)] r"
proof (rule runsI)
  fix l p
  assume "ready p ([(ty, s)] @ r)"
  then obtain t p' where m: "match ty follow p = ok (Some t, p')" "tk_text t = s" "ready p' r" "pr_errorCount p' = pr_errorCount p"
    using match_reads [of p ty s r follow] by auto
  with grows_add [OF tree_adds_leaf [of t]] ready_no_error [OF m(3)]
  show "\<exists>l' p'. token_child ty follow (l, p) = ok (l', p') \<and> ready p' r \<and> pr_errorCount p' = pr_errorCount p \<and> grows [s] l l'"
    by (simp add: token_child_def)
qed

lemma rule_step_runs:
  assumes "rule_reads f xs r ys"
  shows "runs (rule_step follow f add) (\<lambda>l l'. \<exists>t. tree_adds ys t \<and> l' = add t l) xs r"
proof (rule runsI)
  fix l p
  assume "ready p (xs @ r)"
  then have "ready (FOLLOWPUSH follow p) (xs @ r)" by simp
  with assms obtain t p' where m: "f (FOLLOWPUSH follow p) = ok (t, p')" "ready p' r" "tree_adds ys t"
      "pr_errorCount p' = pr_errorCount (FOLLOWPUSH follow p)"
    unfolding rule_reads_def by blast
  with ready_no_error [OF m(2)] show "\<exists>l' p'. rule_step follow f add (l, p) = ok (l', p') \<and> ready p' r \<and>
      pr_errorCount p' = pr_errorCount p \<and> (\<exists>t. tree_adds ys t \<and> l' = add t l)"
    by (auto simp: rule_step_def Let_def)
qed

lemma rule_child_runs: "rule_reads f xs r ys \<Longrightarrow> runs (rule_child follow f) (grows ys) xs r"
  unfolding rule_child_def by (rule runs_weaken [OF rule_step_runs]) (auto intro: grows_add)

lemma seqs_Nil_runs: "runs (seqs []) (=) [] r"
  by (simp add: runs_def)

lemma seqs_Cons_runs:
  assumes "runs f R xs (zs @ r)" "runs (seqs fs) S zs r"
  shows "runs (seqs (f # fs)) (R OO S) (xs @ zs) r"
proof (rule runsI)
  fix l p
  assume "ready p ((xs @ zs) @ r)"
  then have "ready p (xs @ zs @ r)" by simp
  from runsE [OF assms(1) this] obtain l1 p1 where
    1: "f (l, p) = ok (l1, p1)" "ready p1 (zs @ r)" "pr_errorCount p1 = pr_errorCount p" "R l l1" by metis
  from runsE [OF assms(2) 1(2)] obtain l2 p2 where
    2: "seqs fs (l1, p1) = ok (l2, p2)" "ready p2 r" "pr_errorCount p2 = pr_errorCount p1" "S l1 l2" by metis
  from 1 2 ready_no_error [OF 1(2)]
  show "\<exists>l' p'. seqs (f # fs) (l, p) = ok (l', p') \<and> ready p' r \<and> pr_errorCount p' = pr_errorCount p \<and> (R OO S) l l'" by auto
qed

text \<open>Sequences of children: tokens and rules add up.\<close>

lemma grows_trans: "grows ys a b \<Longrightarrow> grows zs b c \<Longrightarrow> grows (ys @ zs) a c"
  unfolding grows_def by fastforce

lemma grows_refl: "grows [] a a"
  by (simp add: grows_def)

lemma children_Nil: "runs (seqs []) (grows []) [] r"
  by (rule runs_weaken [OF seqs_Nil_runs]) (auto simp: grows_refl)

lemma children_Cons: "runs f (grows ys) xs (zs @ r) \<Longrightarrow> runs (seqs fs) (grows ws) zs r \<Longrightarrow>
    runs (seqs (f # fs)) (grows (ys @ ws)) (xs @ zs) r"
  by (rule runs_weaken [OF seqs_Cons_runs]) (auto intro: grows_trans)

lemma children_token: "runs (seqs fs) (grows ws) zs r \<Longrightarrow> runs (seqs (token_child ty follow # fs)) (grows (s # ws)) ((ty, s) # zs) r"
  using children_Cons [OF token_child_runs] by fastforce

lemma children_rule: "rule_reads f xs (zs @ r) ys \<Longrightarrow> runs (seqs fs) (grows ws) zs r \<Longrightarrow>
    runs (seqs (rule_child follow f # fs)) (grows (ys @ ws)) (xs @ zs) r"
  by (rule children_Cons [OF rule_child_runs])

lemma children_rule_1: "rule_reads f [x] (zs @ r) [y] \<Longrightarrow> runs (seqs fs) (grows ws) zs r \<Longrightarrow>
    runs (seqs (rule_child follow f # fs)) (grows (y # ws)) (x # zs) r"
  using children_rule by fastforce

section \<open>Loops\<close>

text \<open>The test must hold on the first symbol of every item and fail on the symbol that follows.\<close>

definition stops :: "(nat \<Rightarrow> bool) \<Rightarrow> symbol list \<Rightarrow> bool" where
  "stops c r \<longleftrightarrow> (case r of [] \<Rightarrow> \<not> c ANTLR3_TOKEN_EOF | (ty, s) # xs \<Rightarrow> \<not> c ty)"

definition starts :: "(nat \<Rightarrow> bool) \<Rightarrow> symbol list \<Rightarrow> bool" where
  "starts c r \<longleftrightarrow> (case r of [] \<Rightarrow> False | (ty, s) # xs \<Rightarrow> c ty)"

lemma stops_LA: "ready p r \<Longrightarrow> stops c r \<Longrightarrow> \<not> c (p_LA p 1)"
  using LA_1 [of "pr_cts p"] by (cases r) (auto simp: stops_def ready_def symbols_left_def p_LA_def p_inv_settled)

lemma starts_LA: "ready p (xs @ r) \<Longrightarrow> starts c xs \<Longrightarrow> c (p_LA p 1)"
  using symbols_LA(1) by (fastforce simp: starts_def split: list.splits)

lemma star_loop_runs:
  assumes "stops c r" "\<And>xs R r'. (xs, R) \<in> set items \<Longrightarrow> starts c xs \<and> runs body R xs r'"
  shows "runs (star_loop c body) (foldr (OO) (map snd items) (=)) (concat (map fst items)) r"
  using assms(2)
proof (induction items)
  case Nil
  show ?case by (rule runsI) (use stops_LA [OF _ assms(1)] in \<open>subst star_loop.simps; auto\<close>)
next
  case (Cons it items)
  have IH: "runs (star_loop c body) (foldr (OO) (map snd items) (=)) (concat (map fst items)) r" using Cons by auto
  have it: "starts c (fst it)" "runs body (snd it) (fst it) (concat (map fst items) @ r)"
    using Cons.prems [of "fst it" "snd it"] by auto
  show ?case
  proof (rule runsI)
    fix l p
    assume "ready p (concat (map fst (it # items)) @ r)"
    then have rd: "ready p (fst it @ concat (map fst items) @ r)" by simp
    from runsE [OF it(2) rd] obtain l1 p1 where 1: "body (l, p) = ok (l1, p1)" "ready p1 (concat (map fst items) @ r)"
      "pr_errorCount p1 = pr_errorCount p" "snd it l l1" by metis
    from runsE [OF IH 1(2)] obtain l2 p2 where 2: "star_loop c body (l1, p1) = ok (l2, p2)" "ready p2 r"
      "pr_errorCount p2 = pr_errorCount p1" "foldr (OO) (map snd items) (=) l1 l2" by metis
    have "star_loop c body (l, p) = ok (l2, p2)"
      using 1(1) 2(1) starts_LA [OF rd it(1)] ready_no_error [OF 1(2)] by (subst star_loop.simps) simp
    with 1 2 show "\<exists>l' p'. star_loop c body (l, p) = ok (l', p') \<and> ready p' r \<and> pr_errorCount p' = pr_errorCount p \<and>
        foldr (OO) (map snd (it # items)) (=) l l'" by auto
  qed
qed

text \<open>After its first round, the other loop does the same.\<close>

lemma plus_loop_star: "star_loop c body s = Some y \<Longrightarrow> 1 \<le> cnt \<Longrightarrow> plus_loop c body cnt s = Some y"
proof (rule star_loop.raw_induct [of "\<lambda>c body s y. \<forall>cnt. 1 \<le> cnt \<longrightarrow> plus_loop c body cnt s = Some y", THEN spec, THEN mp])
  fix f and c :: "nat \<Rightarrow> bool" and body :: "'l step" and s y
  assume IH: "\<And>c body s y. f c body s = Some y \<Longrightarrow> \<forall>cnt. 1 \<le> cnt \<longrightarrow> plus_loop c body cnt s = Some y"
    and b: "(if c (p_LA (snd s) 1) then obind (body s) (\<lambda>s'. if pr_error (snd s') then ok s' else f c body s') else ok s) = Some y"
  show "\<forall>cnt. 1 \<le> cnt \<longrightarrow> plus_loop c body cnt s = Some y"
  proof (intro allI impI)
    fix cnt :: nat
    assume "1 \<le> cnt"
    show "plus_loop c body cnt s = Some y"
    proof (cases "c (p_LA (snd s) 1)")
      case False
      with b \<open>1 \<le> cnt\<close> show ?thesis by (subst plus_loop.simps) simp
    next
      case c: True
      show ?thesis
      proof (cases "\<exists>s'. body s = ok s'")
        case True
        then obtain s' where s': "body s = ok s'" by blast
        with b c IH [of c body s' y] show ?thesis by (subst plus_loop.simps) (auto split: if_splits)
      next
        case False
        with b c show ?thesis by (subst plus_loop.simps) (cases "body s"; force simp: ok_def obind_def split: sum.splits)
      qed
    qed
  qed
qed

lemma plus_loop_runs:
  assumes "stops c r" "\<And>xs R r'. (xs, R) \<in> set items \<Longrightarrow> starts c xs \<and> runs body R xs r'" "items \<noteq> []"
  shows "runs (plus_loop c body 0) (foldr (OO) (map snd items) (=)) (concat (map fst items)) r"
proof -
  obtain it rest where items: "items = it # rest" using assms(3) by (cases items) auto
  have it: "starts c (fst it)" "runs body (snd it) (fst it) (concat (map fst rest) @ r)"
    using assms(2) [of "fst it" "snd it"] items by auto
  have star: "runs (star_loop c body) (foldr (OO) (map snd rest) (=)) (concat (map fst rest)) r"
    using assms items by (intro star_loop_runs) auto
  show ?thesis
  proof (rule runsI)
    fix l p
    assume "ready p (concat (map fst items) @ r)"
    then have rd: "ready p (fst it @ concat (map fst rest) @ r)" using items by simp
    from runsE [OF it(2) rd] obtain l1 p1 where 1: "body (l, p) = ok (l1, p1)" "ready p1 (concat (map fst rest) @ r)"
      "pr_errorCount p1 = pr_errorCount p" "snd it l l1" by metis
    from runsE [OF star 1(2)] obtain l2 p2 where 2: "star_loop c body (l1, p1) = ok (l2, p2)" "ready p2 r"
      "pr_errorCount p2 = pr_errorCount p1" "foldr (OO) (map snd rest) (=) l1 l2" by metis
    have "plus_loop c body 1 (l1, p1) = ok (l2, p2)" using plus_loop_star [OF 2(1) [unfolded ok_def]] by (simp add: ok_def)
    then have "plus_loop c body 0 (l, p) = ok (l2, p2)"
      using 1(1) starts_LA [OF rd it(1)] ready_no_error [OF 1(2)] by (subst plus_loop.simps) simp
    with 1 2 items show "\<exists>l' p'. plus_loop c body 0 (l, p) = ok (l', p') \<and> ready p' r \<and> pr_errorCount p' = pr_errorCount p \<and>
        foldr (OO) (map snd items) (=) l l'" by auto
  qed
qed

lemma foldr_grows: "foldr (OO) (map (\<lambda>x. grows (g x)) items) (=) a b \<Longrightarrow> grows (concat (map g items)) a b"
  by (induction items arbitrary: a) (auto simp: grows_refl intro: grows_trans)

lemma children_star:
  assumes "stops c r" "\<And>x r'. x \<in> set items \<Longrightarrow> starts c (f x) \<and> runs body (grows (g x)) (f x) r'"
  shows "runs (star_loop c body) (grows (concat (map g items))) (concat (map f items)) r"
proof -
  have "runs (star_loop c body) (foldr (OO) (map snd (map (\<lambda>x. (f x, grows (g x))) items)) (=))
      (concat (map fst (map (\<lambda>x. (f x, grows (g x))) items))) r"
    using assms by (intro star_loop_runs) auto
  then show ?thesis by (auto simp: comp_def intro: runs_weaken foldr_grows)
qed

lemma children_plus:
  assumes "stops c r" "\<And>x r'. x \<in> set items \<Longrightarrow> starts c (f x) \<and> runs body (grows (g x)) (f x) r'" "items \<noteq> []"
  shows "runs (plus_loop c body 0) (grows (concat (map g items))) (concat (map f items)) r"
proof -
  have "runs (plus_loop c body 0) (foldr (OO) (map snd (map (\<lambda>x. (f x, grows (g x))) items)) (=))
      (concat (map fst (map (\<lambda>x. (f x, grows (g x))) items))) r"
    using assms by (intro plus_loop_runs) auto
  then show ?thesis by (auto simp: comp_def intro: runs_weaken foldr_grows)
qed

section \<open>Rules\<close>

lemma spliced_post: "flat n \<Longrightarrow> isNilNode n \<Longrightarrow> tree_adds (child_texts n) (rulePostProcessing (Some n))"
proof (cases "kids n")
  case (Cons c cs)
  moreover assume "flat n" "isNilNode n"
  ultimately show ?thesis
    by (cases cs) (auto simp: tree_adds_def spliced_texts_def rulePostProcessing_def getChildCount_def getChild_def flat_def child_texts_def)
qed (simp add: tree_adds_def spliced_texts_def rulePostProcessing_def getChildCount_def child_texts_def)

lemma plain_rule_reads:
  assumes "\<And>p. ready p (xs @ r) \<Longrightarrow> f p = rule_exit (seqs fs (Some nilNode, p))" "runs (seqs fs) (grows ys) xs r"
  shows "rule_reads f xs r ys"
  unfolding rule_reads_def
proof (intro allI impI)
  fix p
  assume p: "ready p (xs @ r)"
  from runsE [OF assms(2) p] obtain root p' where 1: "seqs fs (Some nilNode, p) = ok (root, p')" "ready p' r"
    "pr_errorCount p' = pr_errorCount p" "grows ys (Some nilNode) root" by metis
  have "flat nilNode" by (simp add: flat_def)
  with 1(4) obtain n where n: "root = Some n" "isNilNode n" "flat n" "child_texts n = ys" by (auto simp: grows_def isNilNode_def)
  from 1 n spliced_post [OF n(3,2)] ready_no_error [OF 1(2)] assms(1) [OF p]
  show "\<exists>t p'. f p = ok (t, p') \<and> ready p' r \<and> pr_errorCount p' = pr_errorCount p \<and> tree_adds ys t"
    by (simp add: rule_exit_def)
qed

section \<open>The symbols of a credential\<close>

datatype predicate = Predicate string string "string list"

datatype literal = Plain predicate | Says string predicate

datatype clause = Fact literal | Implies literal literal "literal list"

datatype time = Time string string string string string string

record cert_source =
  src_clauses :: "clause list"
  src_start :: time
  src_stop :: time
  src_key :: "string list"
  src_sig :: "string list"

record cred_source =
  src_credKey :: "string list"
  src_certs :: "cert_source list"

definition text_sym :: "string \<Rightarrow> symbol" where
  "text_sym w = (TK_TEXT, w)"

abbreviation open_sym :: symbol where "open_sym \<equiv> (T__39, ''('')"
abbreviation close_sym :: symbol where "close_sym \<equiv> (T__40, '')'')"
abbreviation comma_sym :: symbol where "comma_sym \<equiv> (T__41, '','')"
abbreviation stop_sym :: symbol where "stop_sym \<equiv> (T__42, ''.'')"

fun pred_syms :: "predicate \<Rightarrow> symbol list" where
  "pred_syms (Predicate f a as) = text_sym f # open_sym # text_sym a # concat (map (\<lambda>b. [comma_sym, text_sym b]) as) @ [close_sym]"

fun literal_syms :: "literal \<Rightarrow> symbol list" where
  "literal_syms (Plain q) = pred_syms q"
| "literal_syms (Says k q) = (T__46, ''says'') # open_sym # text_sym k # comma_sym # pred_syms q @ [close_sym]"

fun clause_body :: "clause \<Rightarrow> symbol list" where
  "clause_body (Fact l) = literal_syms l"
| "clause_body (Implies l m ms) =
     literal_syms l @ (T__43, '':-'') # literal_syms m @ concat (map (\<lambda>k. comma_sym # literal_syms k) ms)"

definition clause_syms :: "clause \<Rightarrow> symbol list" where
  "clause_syms c = clause_body c @ [stop_sym]"

fun time_body :: "time \<Rightarrow> symbol list" where
  "time_body (Time y mo d h mi s) =
     [(T__44, ''datime''), open_sym, (TK_NUM, y), comma_sym, (TK_NUM, mo), comma_sym, (TK_NUM, d), comma_sym,
      (TK_NUM, h), comma_sym, (TK_NUM, mi), comma_sym, (TK_NUM, s), close_sym]"

definition time_syms :: "time \<Rightarrow> symbol list" where
  "time_syms t = time_body t @ [stop_sym]"

definition key_syms :: "string list \<Rightarrow> symbol list" where
  "key_syms ws = (TK_PUBLIC_KEY_HEADER, PK_HEADER_S) # map text_sym ws @ [(TK_PUBLIC_KEY_END, PK_END_S)]"

definition sig_syms :: "string list \<Rightarrow> symbol list" where
  "sig_syms ws = (TK_SIGNATURE_HEADER, SIG_S) # map text_sym ws @ [(TK_SIGNATURE_END, END_SIG_S)]"

definition validity_syms :: "time \<Rightarrow> time \<Rightarrow> symbol list" where
  "validity_syms t1 t2 = (TK_VALIDITY_HEADER, ''-----BEGIN VALIDITY-----'') # (TK_NOT_BEFORE, ''Not before:'') # time_syms t1 @
     (TK_NOT_AFTER, ''Not after:'') # time_syms t2 @ [(TK_VALIDITY_END, ''-----END VALIDITY-----'')]"

definition cert_syms :: "cert_source \<Rightarrow> symbol list" where
  "cert_syms c = (TK_CERT_HEADER, ''-----BEGIN MPKI CERTIFICATE-----'') # concat (map clause_syms (src_clauses c)) @
     validity_syms (src_start c) (src_stop c) @ key_syms (src_key c) @ sig_syms (src_sig c) @
     [(TK_CERT_END, ''-----END MPKI CERTIFICATE-----'')]"

definition cred_syms :: "cred_source \<Rightarrow> symbol list" where
  "cred_syms s = (TK_CREDENTIAL_HEADER, ''-----BEGIN MPKI CREDENTIAL-----'') # key_syms (src_credKey s) @
     concat (map cert_syms (src_certs s)) @ [(TK_CREDENTIAL_END, ''-----END MPKI CREDENTIAL-----'')]"

text \<open>What the grammar demands beyond the shape: repetitions are not empty.\<close>

definition full_cert :: "cert_source \<Rightarrow> bool" where
  "full_cert c \<longleftrightarrow> src_clauses c \<noteq> [] \<and> src_key c \<noteq> [] \<and> src_sig c \<noteq> []"

definition full_cred :: "cred_source \<Rightarrow> bool" where
  "full_cred s \<longleftrightarrow> src_credKey s \<noteq> [] \<and> list_all full_cert (src_certs s)"

section \<open>The rules without rewriting\<close>

lemma text_reads: "rule_reads parse_text [text_sym s] r [s]"
  unfolding text_sym_def by (rule plain_rule_reads [OF parse_text_def]) (rule children_token [OF children_Nil])

lemma num_reads: "rule_reads parse_num [(TK_NUM, s)] r [s]"
  by (rule plain_rule_reads [OF parse_num_def]) (rule children_token [OF children_Nil])

lemma texts_reads:
  assumes "stops (\<lambda>t. t = TK_TEXT) r" "ws \<noteq> []"
  shows "rule_reads parse_base64 (map text_sym ws) r ws"
proof (rule plain_rule_reads [OF parse_base64_def])
  have "runs (plus_loop (\<lambda>t. t = TK_TEXT) (rule_child FOLLOW_text_in_base64556 parse_text) 0)
      (grows (concat (map (\<lambda>w. [w]) ws))) (concat (map (\<lambda>w. [text_sym w]) ws)) r"
    using assms by (intro children_plus) (auto simp: starts_def text_sym_def intro: rule_child_runs text_reads [unfolded text_sym_def])
  moreover have "concat (map (\<lambda>w. [w]) ws) = ws" "concat (map (\<lambda>w. [text_sym w]) ws) = map text_sym ws"
    by (induction ws) auto
  ultimately have l: "runs (plus_loop (\<lambda>t. t = TK_TEXT) (rule_child FOLLOW_text_in_base64556 parse_text) 0)
      (grows ws) (map text_sym ws) ([] @ r)" by simp
  from children_Cons [OF l children_Nil]
  show "runs (seqs [plus_loop (\<lambda>t. t = TK_TEXT) (rule_child FOLLOW_text_in_base64556 parse_text) 0]) (grows ws) (map text_sym ws) r"
    by simp
qed

lemma key_reads:
  assumes "ws \<noteq> []"
  shows "rule_reads parse_public_key (key_syms ws) r (PK_HEADER_S # ws @ [PK_END_S])"
  unfolding key_syms_def using assms
  by (intro plain_rule_reads [OF parse_public_key_def] children_token children_rule texts_reads children_Nil)
    (simp_all add: stops_def token_types)

lemma sig_reads:
  assumes "ws \<noteq> []"
  shows "rule_reads parse_signature (sig_syms ws) r (SIG_S # ws @ [END_SIG_S])"
  unfolding sig_syms_def using assms
  by (intro plain_rule_reads [OF parse_signature_def] children_token children_rule texts_reads children_Nil)
    (simp_all add: stops_def token_types)

lemma time_reads: "rule_reads parse_time_tuple (time_syms t) r (map snd (time_syms t))"
  by (cases t) (simp add: time_syms_def,
    intro plain_rule_reads [OF parse_time_tuple_def] children_token children_rule_1 num_reads children_Nil)

lemma predicate_reads: "rule_reads parse_predicate (pred_syms q) r (map snd (pred_syms q))"
proof (cases q)
  case (Predicate f a as)
  let ?loop = "star_loop (\<lambda>t. t = T__41)
        (seqs [token_child T__41 FOLLOW_41_in_predicate405, rule_child FOLLOW_text_in_predicate406 parse_text])"
  have body: "runs (seqs [token_child T__41 FOLLOW_41_in_predicate405, rule_child FOLLOW_text_in_predicate406 parse_text])
      (grows ['','', b]) [comma_sym, text_sym b] r'" for b r'
    by (intro children_token children_rule_1 text_reads children_Nil)
  have l: "runs ?loop (grows (concat (map (\<lambda>b. ['','', b]) as))) (concat (map (\<lambda>b. [comma_sym, text_sym b]) as)) ([close_sym] @ r)"
    by (rule children_star) (use body in \<open>auto simp: stops_def starts_def token_types\<close>)
  have t: "map snd (pred_syms q) = f # ''('' # a # concat (map (\<lambda>b. ['','', b]) as) @ ['')'']"
    by (simp add: Predicate text_sym_def map_concat comp_def)
  show ?thesis unfolding t unfolding Predicate pred_syms.simps
    by (intro plain_rule_reads [OF parse_predicate_def] children_rule_1 children_token text_reads children_Cons [OF l] children_Nil)
qed

lemma alternative_reads:
  assumes "\<And>p. ready p (xs @ r) \<Longrightarrow> f p = rule_exit (seqs fs (Some nilNode, p))" "runs (seqs fs) (grows (map snd xs)) xs r"
  shows "rule_reads f xs r (map snd xs)"
  using assms by (rule plain_rule_reads)

lemma children_rule_texts: "(\<And>q. rule_reads f xs q (map snd xs)) \<Longrightarrow> runs (seqs fs) (grows (map snd zs)) zs r \<Longrightarrow>
    runs (seqs (rule_child follow f # fs)) (grows (map snd (xs @ zs))) (xs @ zs) r"
  using children_rule [of f xs zs r "map snd xs"] by simp

lemma children_token_texts: "runs (seqs fs) (grows (map snd zs)) zs r \<Longrightarrow>
    runs (seqs (token_child ty follow # fs)) (grows (map snd ((ty, s) # zs))) ((ty, s) # zs) r"
  using children_token by fastforce

lemma children_Nil_texts: "runs (seqs []) (grows (map snd [])) [] r"
  by (simp add: children_Nil)

lemma literal_reads: "rule_reads parse_literal (literal_syms l) r (map snd (literal_syms l))"
proof (cases l)
  case (Plain q)
  obtain f a as where q: "q = Predicate f a as" by (cases q)
  have "runs (seqs [rule_child FOLLOW_predicate_in_literal362 parse_predicate]) (grows (map snd (pred_syms q @ []))) (pred_syms q @ []) r"
    by (intro children_rule_texts predicate_reads children_Nil_texts)
  moreover have "parse_literal p = rule_exit (seqs [rule_child FOLLOW_predicate_in_literal362 parse_predicate] (Some nilNode, p))"
    if "ready p (pred_syms q @ r)" for p
  proof -
    have "p_LA p 1 = TK_TEXT" using that symbols_LA(1) [of p TK_TEXT f] by (simp add: q text_sym_def)
    then show ?thesis by (simp add: parse_literal_def)
  qed
  ultimately have "rule_reads parse_literal (pred_syms q) r (map snd (pred_syms q))"
    by (intro alternative_reads [where fs = "[rule_child FOLLOW_predicate_in_literal362 parse_predicate]"]) (simp_all del: seqs.simps)
  then show ?thesis by (simp add: Plain)
next
  case (Says k q)
  let ?fs = "[token_child T__46 FOLLOW_46_in_literal369, token_child T__39 FOLLOW_39_in_literal371,
     rule_child FOLLOW_text_in_literal373 parse_text, token_child T__41 FOLLOW_41_in_literal375,
     rule_child FOLLOW_predicate_in_literal377 parse_predicate, token_child T__40 FOLLOW_40_in_literal379]"
  have t: "rule_reads parse_text [(TK_TEXT, k)] r' (map snd [(TK_TEXT, k)])" for r' using text_reads [of k] by (simp add: text_sym_def)
  have "runs (seqs ?fs)
    (grows (map snd ((T__46, ''says'') # (T__39, ''('') # [(TK_TEXT, k)] @ (T__41, '','') # pred_syms q @ (T__40, '')'') # [])))
    ((T__46, ''says'') # (T__39, ''('') # [(TK_TEXT, k)] @ (T__41, '','') # pred_syms q @ (T__40, '')'') # []) r"
    by (intro children_rule_texts children_token_texts t predicate_reads children_Nil_texts)
  moreover have "parse_literal p = rule_exit (seqs ?fs (Some nilNode, p))" if "ready p (literal_syms l @ r)" for p
  proof -
    have "p_LA p 1 = T__46" using that symbols_LA(1) [of p T__46 "''says''"] by (simp add: Says)
    then show ?thesis by (simp add: parse_literal_def token_types)
  qed
  ultimately show ?thesis by (intro alternative_reads [where fs = ?fs]) (simp_all add: Says text_sym_def del: seqs.simps)
qed

section \<open>Clauses\<close>

text \<open>The automaton sees the types that are left.\<close>

lemma clause_alt_symbols: "ready p xs \<Longrightarrow> clause_alt p = Some (dfa_walk pcdfa4 0 (map (int \<circ> fst) xs))"
  using clause_alt_walk [of p] by (auto simp: ready_def symbols_left_def types_left_def comp_def)

lemma clause_steps:
  "dfa_step pcdfa4 0 33 = Goto 1" "dfa_step pcdfa4 0 46 = Goto 2" "dfa_step pcdfa4 1 39 = Goto 3" "dfa_step pcdfa4 2 39 = Goto 4"
  "dfa_step pcdfa4 3 33 = Goto 5" "dfa_step pcdfa4 4 33 = Goto 6" "dfa_step pcdfa4 5 40 = Goto 8" "dfa_step pcdfa4 5 41 = Goto 7"
  "dfa_step pcdfa4 6 41 = Goto 9" "dfa_step pcdfa4 7 33 = Goto 10" "dfa_step pcdfa4 8 42 = Goto 11" "dfa_step pcdfa4 8 43 = Goto 12"
  "dfa_step pcdfa4 9 33 = Goto 13" "dfa_step pcdfa4 10 40 = Goto 8" "dfa_step pcdfa4 10 41 = Goto 7" "dfa_step pcdfa4 13 39 = Goto 14"
  "dfa_step pcdfa4 14 33 = Goto 15" "dfa_step pcdfa4 15 40 = Goto 17" "dfa_step pcdfa4 15 41 = Goto 16" "dfa_step pcdfa4 16 33 = Goto 18"
  "dfa_step pcdfa4 17 40 = Goto 19" "dfa_step pcdfa4 18 40 = Goto 17" "dfa_step pcdfa4 18 41 = Goto 16" "dfa_step pcdfa4 19 42 = Goto 11"
  "dfa_step pcdfa4 19 43 = Goto 12"
  by code_simp+

lemma clause_accepts: "dfa_walk pcdfa4 11 cs = Some 1" "dfa_walk pcdfa4 12 cs = Some 2"
  by (cases cs; simp add: dfa_step_def pcdfa4_def pdfa4_tables at_def)+

definition types :: "symbol list \<Rightarrow> int list" where
  "types xs = map (int \<circ> fst) xs"

lemma types_simps [simp]: "types [] = []" "types (x # xs) = int (fst x) # types xs" "types (xs @ ys) = types xs @ types ys"
  by (simp_all add: types_def)

lemma args_walk:
  assumes "s = 5 \<or> s = 10"
  shows "dfa_walk pcdfa4 s (types (concat (map (\<lambda>b. [comma_sym, text_sym b]) as) @ close_sym # r)) = dfa_walk pcdfa4 8 (types r)"
  using assms by (induction as arbitrary: s) (auto simp: clause_steps text_sym_def token_types)

lemma said_args_walk:
  assumes "s = 15 \<or> s = 18"
  shows "dfa_walk pcdfa4 s (types (concat (map (\<lambda>b. [comma_sym, text_sym b]) as) @ close_sym # close_sym # r)) = dfa_walk pcdfa4 19 (types r)"
  using assms by (induction as arbitrary: s) (auto simp: clause_steps text_sym_def token_types)

lemma literal_walk: "\<exists>s. (s = 8 \<or> s = 19) \<and> dfa_walk pcdfa4 0 (types (literal_syms l @ r)) = dfa_walk pcdfa4 s (types r)"
proof (cases l)
  case (Plain q)
  then show ?thesis using args_walk by (cases q) (auto simp: clause_steps text_sym_def token_types)
next
  case (Says k q)
  then show ?thesis using said_args_walk by (cases q) (auto simp: clause_steps text_sym_def token_types)
qed

lemma clause_alt_fact: "ready p (literal_syms l @ stop_sym # r) \<Longrightarrow> clause_alt p = Some (Some 1)"
  using literal_walk [of l "stop_sym # r"]
  by (auto simp: clause_alt_symbols clause_steps clause_accepts token_types simp flip: types_def)

lemma clause_alt_implies: "ready p (literal_syms l @ (T__43, w) # r) \<Longrightarrow> clause_alt p = Some (Some 2)"
  using literal_walk [of l "(T__43, w) # r"]
  by (auto simp: clause_alt_symbols clause_steps clause_accepts token_types simp flip: types_def)

lemma clause_reads: "rule_reads parse_clause (clause_syms c) r (map snd (clause_syms c))"
proof (cases c)
  case (Fact l)
  let ?fs = "[rule_child FOLLOW_literal_in_clause322 parse_literal, token_child T__42 FOLLOW_42_in_clause324]"
  have "runs (seqs ?fs) (grows (map snd (literal_syms l @ stop_sym # []))) (literal_syms l @ stop_sym # []) r"
    by (intro children_rule_texts children_token_texts literal_reads children_Nil_texts)
  moreover have "parse_clause p = rule_exit (seqs ?fs (Some nilNode, p))" if "ready p (clause_syms c @ r)" for p
    using that clause_alt_fact [of p l r] by (simp add: parse_clause_def Fact clause_syms_def)
  ultimately show ?thesis by (intro alternative_reads [where fs = ?fs]) (simp_all add: Fact clause_syms_def del: seqs.simps)
next
  case (Implies l m ms)
  let ?body = "seqs [token_child T__41 FOLLOW_41_in_clause341, rule_child FOLLOW_literal_in_clause343 parse_literal]"
  let ?fs = "[rule_child FOLLOW_literal_in_clause331 parse_literal, token_child T__43 FOLLOW_43_in_clause333,
     rule_child FOLLOW_literal_in_clause335 parse_literal, star_loop (\<lambda>t. t = T__41) ?body, token_child T__42 FOLLOW_42_in_clause347]"
  let ?ms = "concat (map (\<lambda>k. comma_sym # literal_syms k) ms)"
  have "runs ?body (grows (map snd (comma_sym # literal_syms k @ []))) (comma_sym # literal_syms k @ []) r'" for k r'
    by (intro children_rule_texts children_token_texts literal_reads children_Nil_texts)
  then have body: "runs ?body (grows (map snd (comma_sym # literal_syms k))) (comma_sym # literal_syms k) r'" for k r' by simp
  have "runs (star_loop (\<lambda>t. t = T__41) ?body) (grows (concat (map (\<lambda>k. map snd (comma_sym # literal_syms k)) ms))) ?ms (stop_sym # r)"
    by (rule children_star) (use body in \<open>auto simp: stops_def starts_def token_types\<close>)
  then have l: "runs (star_loop (\<lambda>t. t = T__41) ?body) (grows (map snd ?ms)) ?ms ([stop_sym] @ r)"
    by (simp add: map_concat comp_def)
  from children_Cons [OF l children_token_texts [OF children_Nil_texts]]
  have t: "runs (seqs [star_loop (\<lambda>t. t = T__41) ?body, token_child T__42 FOLLOW_42_in_clause347])
      (grows (map snd (?ms @ [stop_sym]))) (?ms @ [stop_sym]) r" by simp
  have "runs (seqs ?fs) (grows (map snd (literal_syms l @ (T__43, '':-'') # literal_syms m @ ?ms @ [stop_sym])))
      (literal_syms l @ (T__43, '':-'') # literal_syms m @ ?ms @ [stop_sym]) r"
    by (intro children_rule_texts children_token_texts literal_reads t)
  moreover have "parse_clause p = rule_exit (seqs ?fs (Some nilNode, p))" if "ready p (clause_syms c @ r)" for p
    using that clause_alt_implies [of p l "'':-''" "literal_syms m @ ?ms @ stop_sym # r"] by (simp add: parse_clause_def Implies clause_syms_def)
  ultimately show ?thesis by (intro alternative_reads [where fs = ?fs]) (simp_all add: Implies clause_syms_def del: seqs.simps)
qed

section \<open>Rewrite streams\<close>

text \<open>A stream that will still give trees with the texts \<open>yss\<close>, and what adding to it does.\<close>

definition stream_at :: "string list list \<Rightarrow> rewrite_stream \<Rightarrow> bool" where
  "stream_at yss rs \<longleftrightarrow> \<not> rs_dirty rs \<and> rs_cursor rs \<le> length (rs_elements rs) \<and>
     list_all2 (\<lambda>ys t. tree_adds ys (Some t)) yss (drop (rs_cursor rs) (rs_elements rs))"

definition stream_adds :: "string list list \<Rightarrow> rewrite_stream \<Rightarrow> rewrite_stream \<Rightarrow> bool" where
  "stream_adds zss rs rs' \<longleftrightarrow> (\<forall>yss. stream_at yss rs \<longrightarrow> stream_at (yss @ zss) rs')"

lemma stream_at_new: "stream_at [] rs_new"
  by (simp add: stream_at_def rs_new_def)

lemma stream_adds_refl [simp]: "stream_adds [] rs rs"
  by (simp add: stream_adds_def)

lemma stream_adds_trans: "stream_adds yss a b \<Longrightarrow> stream_adds zss b c \<Longrightarrow> stream_adds (yss @ zss) a c"
  unfolding stream_adds_def by fastforce

lemma stream_add: "tree_adds ys t \<Longrightarrow> ys \<noteq> [] \<Longrightarrow> stream_adds [ys] rs (rs_add t rs)"
  by (cases t) (auto simp: stream_adds_def stream_at_def rs_add_def tree_adds_def intro!: list_all2_appendI)

lemma stream_next:
  assumes "stream_at (ys # yss) rs"
  shows "rs_hasNext rs" "tree_adds ys (fst (rs_nextTree rs))" "stream_at yss (snd (rs_nextTree rs))"
proof -
  from assms have c: "rs_cursor rs < length (rs_elements rs)"
    by (cases "rs_cursor rs < length (rs_elements rs)") (auto simp: stream_at_def)
  then have d: "drop (rs_cursor rs) (rs_elements rs) = rs_elements rs ! rs_cursor rs # drop (Suc (rs_cursor rs)) (rs_elements rs)"
    by (simp add: Cons_nth_drop_Suc)
  have n: "rs_nextTree rs = (Some (rs_elements rs ! rs_cursor rs), rs\<lparr>rs_cursor := rs_cursor rs + 1\<rparr>)"
    using assms c by (auto simp: stream_at_def rs_nextTree_def rs_next_def Let_def)
  show "rs_hasNext rs" "tree_adds ys (fst (rs_nextTree rs))" "stream_at yss (snd (rs_nextTree rs))"
    using assms c d n by (auto simp: stream_at_def rs_hasNext_def)
qed

lemma stream_end: "stream_at [] rs \<Longrightarrow> \<not> rs_hasNext rs"
  by (simp add: stream_at_def rs_hasNext_def)

lemma rs_addAll_grows: "stream_at yss rs \<Longrightarrow> grows (concat yss) root (fst (rs_addAll root rs))"
proof (induction yss arbitrary: root rs)
  case Nil
  from stream_end [OF this] show ?case by (subst rs_addAll.simps) (simp add: grows_refl)
next
  case (Cons ys yss)
  from grows_trans [OF grows_add [OF stream_next(2) [OF Cons.prems], of root] Cons.IH [OF stream_next(3) [OF Cons.prems]]]
    stream_next(1) [OF Cons.prems] show ?case by (subst rs_addAll.simps) simp
qed

lemma grows_type_text: "grows [s] root (add_type_text root ty s)"
  unfolding add_type_text_def by (rule grows_add) (simp add: tree_adds_def spliced_texts_def)

lemma times_loop_grows:
  assumes "stream_at [ys, zs] rs"
  shows "grows (''START_TIME'' # ys @ ''STOP_TIME'' # zs) root (times_loop root rs)"
proof -
  note n1 = stream_next [OF assms] and n2 = stream_next [OF stream_next(3) [OF assms]]
  let ?r1 = "add_type_text root TK_START_TIME ''START_TIME''"
  let ?r2 = "adaptor_addChild ?r1 (fst (rs_nextTree rs))"
  let ?r3 = "add_type_text ?r2 TK_STOP_TIME ''STOP_TIME''"
  let ?r4 = "adaptor_addChild ?r3 (fst (rs_nextTree (snd (rs_nextTree rs))))"
  have "times_loop root rs = ?r4"
    using n1(1) stream_end [OF n2(3)] by (subst times_loop.simps, subst times_loop.simps) (simp add: Let_def)
  moreover have "grows ([''START_TIME''] @ (ys @ ([''STOP_TIME''] @ zs))) root ?r4"
    by (rule grows_trans [OF grows_type_text grows_trans [OF grows_add [OF n1(2)] grows_trans [OF grows_type_text grows_add [OF n2(2)]]]])
  ultimately show ?thesis by simp
qed

lemma certs_loop_grows:
  assumes "stream_at cls (st_clause s)" "stream_at [v] (st_validity s)" "stream_at [k] (st_public_key s)"
    "stream_at [g] (st_signature s)" "cls \<noteq> []"
  shows "\<exists>root'. certs_loop root s False = (root', False) \<and>
    grows (''CERT'' # ''CLAUSE'' # concat cls @ v @ k @ g @ [''END_CERT'']) root root'"
proof -
  note v = stream_next [OF assms(2)] and k = stream_next [OF assms(3)] and g = stream_next [OF assms(4)]
  have cl: "rs_hasNext (st_clause s)" using assms(1,5) stream_next(1) by (cases cls) auto
  let ?r1 = "add_type_text (add_type_text root TK_CERT ''CERT'') TK_CLAUSE ''CLAUSE''"
  let ?r2 = "fst (rs_addAll ?r1 (st_clause s))"
  let ?r3 = "adaptor_addChild ?r2 (fst (rs_nextTree (st_validity s)))"
  let ?r4 = "adaptor_addChild ?r3 (fst (rs_nextTree (st_public_key s)))"
  let ?r5 = "adaptor_addChild ?r4 (fst (rs_nextTree (st_signature s)))"
  let ?r6 = "add_type_text ?r5 TK_END_CERT ''END_CERT''"
  let ?s = "\<lparr>st_clause = rs_reset (snd (rs_addAll ?r1 (st_clause s))), st_validity = snd (rs_nextTree (st_validity s)),
     st_public_key = snd (rs_nextTree (st_public_key s)), st_signature = snd (rs_nextTree (st_signature s))\<rparr>"
  have "certs_loop ?r6 ?s False = (?r6, False)"
    using stream_end [OF v(3)] stream_end [OF k(3)] stream_end [OF g(3)] by (subst certs_loop.simps) simp
  then have "certs_loop root s False = (?r6, False)"
    using v(1) cl by (subst certs_loop.simps) (simp add: Let_def split_beta)
  moreover have "grows ([''CERT''] @ ([''CLAUSE''] @ (concat cls @ (v @ (k @ (g @ [''END_CERT''])))))) root ?r6"
    by (rule grows_trans [OF grows_type_text grows_trans [OF grows_type_text grows_trans [OF rs_addAll_grows [OF assms(1)]
      grows_trans [OF grows_add [OF v(2)] grows_trans [OF grows_add [OF k(2)] grows_trans [OF grows_add [OF g(2)] grows_type_text]]]]]])
  ultimately show ?thesis by simp
qed

section \<open>The rules with a rewrite\<close>

lemma grown_post: "grows ys (Some nilNode) t \<Longrightarrow> tree_adds ys (rulePostProcessing t)"
  using spliced_post by (fastforce simp: grows_def flat_def isNilNode_def)

lemma rewriting_reads:
  assumes "\<And>p. f p = rule_exit (obind (seqs fs (l, p)) g)" "runs (seqs fs) R xs r"
    "\<And>l' p'. R l l' \<Longrightarrow> \<not> pr_error p' \<Longrightarrow> \<exists>t. g (l', p') = ok (t, p') \<and> tree_adds ys (rulePostProcessing t)"
  shows "rule_reads f xs r ys"
  unfolding rule_reads_def
proof (intro allI impI)
  fix p
  assume p: "ready p (xs @ r)"
  from runsE [OF assms(2) p] obtain l' p' where 1: "seqs fs (l, p) = ok (l', p')" "ready p' r"
    "pr_errorCount p' = pr_errorCount p" "R l l'" by metis
  from assms(3) [OF 1(4) ready_no_error [OF 1(2)]] obtain t where "g (l', p') = ok (t, p')" "tree_adds ys (rulePostProcessing t)" by blast
  with 1 assms(1) ready_no_error [OF 1(2)]
  show "\<exists>t p'. f p = ok (t, p') \<and> ready p' r \<and> pr_errorCount p' = pr_errorCount p \<and> tree_adds ys t"
    by (simp add: rule_exit_def)
qed

lemma seqs_rule_runs: "rule_reads f xs (zs @ r) ys \<Longrightarrow> runs (seqs fs) S zs r \<Longrightarrow>
    runs (seqs (rule_step follow f add # fs)) ((\<lambda>l l'. \<exists>t. tree_adds ys t \<and> l' = add t l) OO S) (xs @ zs) r"
  by (rule seqs_Cons_runs [OF rule_step_runs])

lemma seqs_token_runs: "runs (seqs fs) S zs r \<Longrightarrow> runs (seqs (token_step ty follow # fs)) S ((ty, s) # zs) r"
  using seqs_Cons_runs [OF token_step_runs, of fs S zs r ty follow s] by (simp add: eq_OO)

definition validity_layout :: "time \<Rightarrow> time \<Rightarrow> string list" where
  "validity_layout t1 t2 = ''START_TIME'' # map snd (time_syms t1) @ ''STOP_TIME'' # map snd (time_syms t2)"

lemma time_texts_nonempty: "map snd (time_syms t) \<noteq> []"
  by (simp add: time_syms_def)

abbreviation reads_tree :: "string list \<Rightarrow> (ast option \<Rightarrow> 'l \<Rightarrow> 'l) \<Rightarrow> 'l \<Rightarrow> 'l \<Rightarrow> bool" where
  "reads_tree ys add \<equiv> (\<lambda>l l'. \<exists>t. tree_adds ys t \<and> l' = add t l)"

lemma validity_steps: "runs (seqs
     [token_step TK_VALIDITY_HEADER FOLLOW_VALIDITY_HEADER_in_validity194,
      token_step TK_NOT_BEFORE FOLLOW_NOT_BEFORE_in_validity196,
      rule_step FOLLOW_time_tuple_in_validity198 parse_time_tuple rs_add,
      token_step TK_NOT_AFTER FOLLOW_NOT_AFTER_in_validity200,
      rule_step FOLLOW_time_tuple_in_validity202 parse_time_tuple rs_add,
      token_step TK_VALIDITY_END FOLLOW_VALIDITY_END_in_validity204])
    (reads_tree (map snd (time_syms t1)) rs_add OO reads_tree (map snd (time_syms t2)) rs_add OO (=)) (validity_syms t1 t2) r"
  unfolding validity_syms_def by (intro seqs_token_runs seqs_rule_runs time_reads seqs_Nil_runs)

lemma validity_reads: "rule_reads parse_validity (validity_syms t1 t2) r (validity_layout t1 t2)"
proof (rule rewriting_reads [OF parse_validity_def validity_steps])
  fix l' and p' :: parser
  assume "(reads_tree (map snd (time_syms t1)) rs_add OO reads_tree (map snd (time_syms t2)) rs_add OO (=)) rs_new l'"
    and e: "\<not> pr_error p'"
  then obtain u1 u2 where u: "tree_adds (map snd (time_syms t1)) u1" "tree_adds (map snd (time_syms t2)) u2"
    "l' = rs_add u2 (rs_add u1 rs_new)" by auto
  from stream_adds_trans [OF stream_add [OF u(1) time_texts_nonempty] stream_add [OF u(2) time_texts_nonempty], of rs_new]
  have "stream_at [map snd (time_syms t1), map snd (time_syms t2)] l'"
    using stream_at_new by (fastforce simp: stream_adds_def u(3))
  from times_loop_grows [OF this, of "Some nilNode"] stream_next(1) [OF this] e
  show "\<exists>t. (case (l', p') of (ts, p1) \<Rightarrow>
        if pr_error p1 then ok (None, p1)
        else if \<not> rs_hasNext ts then ok (Some nilNode, p_exConstruct p1)
        else ok (times_loop (Some nilNode) ts, p1)) = ok (t, p') \<and> tree_adds (validity_layout t1 t2) (rulePostProcessing t)"
    by (auto simp: validity_layout_def intro: grown_post)
qed

text \<open>What the steps of a certificate add to its four streams.\<close>

definition cert_adds :: "string list list \<Rightarrow> string list list \<Rightarrow> string list list \<Rightarrow> string list list \<Rightarrow> cert_streams \<Rightarrow> cert_streams \<Rightarrow> bool" where
  "cert_adds cs vs ks gs l l' \<longleftrightarrow> stream_adds cs (st_clause l) (st_clause l') \<and> stream_adds vs (st_validity l) (st_validity l') \<and>
     stream_adds ks (st_public_key l) (st_public_key l') \<and> stream_adds gs (st_signature l) (st_signature l')"

lemma cert_adds_refl: "cert_adds [] [] [] [] l l"
  by (simp add: cert_adds_def)

lemma cert_adds_trans: "cert_adds a b c d x y \<Longrightarrow> cert_adds a' b' c' d' y z \<Longrightarrow> cert_adds (a @ a') (b @ b') (c @ c') (d @ d') x z"
  by (simp add: cert_adds_def) (blast intro: stream_adds_trans)

abbreviation add_clause_tree :: "ast option \<Rightarrow> cert_streams \<Rightarrow> cert_streams" where
  "add_clause_tree t s \<equiv> s\<lparr>st_clause := rs_add t (st_clause s)\<rparr>"

abbreviation add_validity_tree :: "ast option \<Rightarrow> cert_streams \<Rightarrow> cert_streams" where
  "add_validity_tree t s \<equiv> s\<lparr>st_validity := rs_add t (st_validity s)\<rparr>"

abbreviation add_key_tree :: "ast option \<Rightarrow> cert_streams \<Rightarrow> cert_streams" where
  "add_key_tree t s \<equiv> s\<lparr>st_public_key := rs_add t (st_public_key s)\<rparr>"

abbreviation add_sig_tree :: "ast option \<Rightarrow> cert_streams \<Rightarrow> cert_streams" where
  "add_sig_tree t s \<equiv> s\<lparr>st_signature := rs_add t (st_signature s)\<rparr>"

lemma reads_tree_adds:
  "reads_tree ys add_clause_tree l l' \<Longrightarrow> ys \<noteq> [] \<Longrightarrow> cert_adds [ys] [] [] [] l l'"
  "reads_tree ys add_validity_tree l l' \<Longrightarrow> ys \<noteq> [] \<Longrightarrow> cert_adds [] [ys] [] [] l l'"
  "reads_tree ys add_key_tree l l' \<Longrightarrow> ys \<noteq> [] \<Longrightarrow> cert_adds [] [] [ys] [] l l'"
  "reads_tree ys add_sig_tree l l' \<Longrightarrow> ys \<noteq> [] \<Longrightarrow> cert_adds [] [] [] [ys] l l'"
  by (auto simp: cert_adds_def intro: stream_add)

definition clause_texts :: "clause \<Rightarrow> string list" where
  "clause_texts c = map snd (clause_syms c)"

lemma clause_texts_nonempty: "clause_texts c \<noteq> []"
  by (simp add: clause_texts_def clause_syms_def)

lemma clause_trees_add: "foldr (OO) (map (\<lambda>c. reads_tree (clause_texts c) add_clause_tree) cs) (=) l l' \<Longrightarrow>
    cert_adds (map clause_texts cs) [] [] [] l l'"
proof (induction cs arbitrary: l)
  case (Cons c cs)
  then obtain m where m: "reads_tree (clause_texts c) add_clause_tree l m"
    "foldr (OO) (map (\<lambda>c. reads_tree (clause_texts c) add_clause_tree) cs) (=) m l'" by auto
  from cert_adds_trans [OF reads_tree_adds(1) [OF m(1) clause_texts_nonempty] Cons.IH [OF m(2)]] show ?case by simp
qed (simp add: cert_adds_refl)

lemma literal_starts: "starts (\<lambda>t. t = TK_TEXT \<or> t = T__46) (literal_syms l @ xs)"
proof (cases l)
  case (Plain q)
  then show ?thesis by (cases q) (simp add: starts_def text_sym_def)
qed (simp add: starts_def)

lemma clause_starts: "starts (\<lambda>t. t = TK_TEXT \<or> t = T__46) (clause_syms c)"
  using literal_starts by (cases c) (simp_all add: clause_syms_def)

definition key_texts :: "string list \<Rightarrow> string list" where
  "key_texts ws = PK_HEADER_S # ws @ [PK_END_S]"

definition sig_texts :: "string list \<Rightarrow> string list" where
  "sig_texts ws = SIG_S # ws @ [END_SIG_S]"

lemma clauses_run:
  assumes "stops (\<lambda>t. t = TK_TEXT \<or> t = T__46) r" "cs \<noteq> []"
  shows "runs (plus_loop (\<lambda>t. t = TK_TEXT \<or> t = T__46) (rule_step FOLLOW_clause_in_certificate278 parse_clause add_clause_tree) 0)
    (cert_adds (map clause_texts cs) [] [] []) (concat (map clause_syms cs)) r"
proof -
  let ?items = "map (\<lambda>c. (clause_syms c, reads_tree (clause_texts c) add_clause_tree)) cs"
  have "runs (plus_loop (\<lambda>t. t = TK_TEXT \<or> t = T__46) (rule_step FOLLOW_clause_in_certificate278 parse_clause add_clause_tree) 0)
      (foldr (OO) (map snd ?items) (=)) (concat (map fst ?items)) r"
    using assms by (intro plus_loop_runs)
      (auto simp: clause_texts_def intro: clause_starts rule_step_runs clause_reads)
  then show ?thesis by (auto simp: comp_def intro: runs_weaken clause_trees_add)
qed

definition cert_texts :: "cert_source \<Rightarrow> string list" where
  "cert_texts c = ''CERT'' # ''CLAUSE'' # concat (map clause_texts (src_clauses c)) @ validity_layout (src_start c) (src_stop c) @
     key_texts (src_key c) @ sig_texts (src_sig c) @ [''END_CERT'']"

lemma cert_steps:
  assumes "full_cert c"
  shows "runs (seqs
     [token_step TK_CERT_HEADER FOLLOW_CERT_HEADER_in_certificate276,
      plus_loop (\<lambda>t. t = TK_TEXT \<or> t = T__46) (rule_step FOLLOW_clause_in_certificate278 parse_clause add_clause_tree) 0,
      rule_step FOLLOW_validity_in_certificate281 parse_validity add_validity_tree,
      rule_step FOLLOW_public_key_in_certificate283 parse_public_key add_key_tree,
      rule_step FOLLOW_signature_in_certificate285 parse_signature add_sig_tree,
      token_step TK_CERT_END FOLLOW_CERT_END_in_certificate287])
    (cert_adds (map clause_texts (src_clauses c)) [] [] [] OO reads_tree (validity_layout (src_start c) (src_stop c)) add_validity_tree OO
      reads_tree (key_texts (src_key c)) add_key_tree OO reads_tree (sig_texts (src_sig c)) add_sig_tree OO (=)) (cert_syms c) r"
  unfolding cert_syms_def key_texts_def sig_texts_def using assms
  by (intro seqs_token_runs seqs_Cons_runs [OF clauses_run] seqs_rule_runs validity_reads key_reads sig_reads seqs_Nil_runs)
    (auto simp: full_cert_def stops_def validity_syms_def token_types)

lemma certificate_reads:
  assumes "full_cert c"
  shows "rule_reads parse_certificate (cert_syms c) r (cert_texts c)"
proof (rule rewriting_reads [OF parse_certificate_def cert_steps [OF assms]])
  fix l' and p' :: parser
  let ?v = "validity_layout (src_start c) (src_stop c)" and ?k = "key_texts (src_key c)" and ?g = "sig_texts (src_sig c)"
  let ?cs = "map clause_texts (src_clauses c)"
  assume "(cert_adds ?cs [] [] [] OO reads_tree ?v add_validity_tree OO reads_tree ?k add_key_tree OO reads_tree ?g add_sig_tree OO (=))
      cert_streams_new l'" and e: "\<not> pr_error p'"
  then obtain a b where s: "cert_adds ?cs [] [] [] cert_streams_new a" "reads_tree ?v add_validity_tree a b"
      "(reads_tree ?k add_key_tree OO reads_tree ?g add_sig_tree OO (=)) b l'" by (elim relcomppE) blast
  then obtain d where t: "reads_tree ?k add_key_tree b d" "reads_tree ?g add_sig_tree d l'" by (elim relcomppE) blast
  have n: "?v \<noteq> []" "?k \<noteq> []" "?g \<noteq> []" by (simp_all add: validity_layout_def key_texts_def sig_texts_def)
  from cert_adds_trans [OF s(1) cert_adds_trans [OF reads_tree_adds(2) [OF s(2) n(1)]
      cert_adds_trans [OF reads_tree_adds(3) [OF t(1) n(2)] reads_tree_adds(4) [OF t(2) n(3)]]]]
  have "cert_adds ?cs [?v] [?k] [?g] cert_streams_new l'" by simp
  then have st: "stream_at ?cs (st_clause l')" "stream_at [?v] (st_validity l')" "stream_at [?k] (st_public_key l')"
      "stream_at [?g] (st_signature l')"
    using stream_at_new by (fastforce simp: cert_adds_def stream_adds_def cert_streams_new_def)+
  have "?cs \<noteq> []" using assms by (simp add: full_cert_def)
  from certs_loop_grows [OF st this] obtain root where
    "certs_loop (Some nilNode) l' False = (root, False)" "grows (cert_texts c) (Some nilNode) root" by (auto simp: cert_texts_def)
  with e stream_next(1) [OF st(2)] stream_next(1) [OF st(3)] stream_next(1) [OF st(4)]
  show "\<exists>t. (case (l', p') of (s, p1) \<Rightarrow>
      if pr_error p1 then ok (None, p1)
      else if \<not> rs_hasNext (st_validity s) \<or> \<not> rs_hasNext (st_public_key s) \<or> \<not> rs_hasNext (st_signature s)
      then ok (Some nilNode, p_exConstruct p1)
      else let (root, err) = certs_loop (Some nilNode) s False in ok (root, if err then p_exConstruct p1 else p1)) = ok (t, p') \<and>
        tree_adds (cert_texts c) (rulePostProcessing t)"
    by (auto intro: grown_post)
qed

section \<open>Credentials\<close>

abbreviation add_credKey_tree :: "ast option \<Rightarrow> rewrite_stream \<times> rewrite_stream \<Rightarrow> rewrite_stream \<times> rewrite_stream" where
  "add_credKey_tree t \<equiv> (\<lambda>(keys, certs). (rs_add t keys, certs))"

abbreviation add_cert_tree :: "ast option \<Rightarrow> rewrite_stream \<times> rewrite_stream \<Rightarrow> rewrite_stream \<times> rewrite_stream" where
  "add_cert_tree t \<equiv> (\<lambda>(keys, certs). (keys, rs_add t certs))"

lemma cert_trees_add: "foldr (OO) (map (\<lambda>c. reads_tree (cert_texts c) add_cert_tree) cs) (=) l l' \<Longrightarrow>
    fst l' = fst l \<and> stream_adds (map cert_texts cs) (snd l) (snd l')"
proof (induction cs arbitrary: l)
  case (Cons c cs)
  then obtain m where m: "reads_tree (cert_texts c) add_cert_tree l m"
    "foldr (OO) (map (\<lambda>c. reads_tree (cert_texts c) add_cert_tree) cs) (=) m l'" by auto
  have "cert_texts c \<noteq> []" by (simp add: cert_texts_def)
  then have "fst m = fst l" "stream_adds [cert_texts c] (snd l) (snd m)"
    using m(1) by (cases l; auto intro: stream_add)+
  with stream_adds_trans [OF this(2)] Cons.IH [OF m(2)] show ?case by fastforce
qed simp

lemma certs_run:
  assumes "stops (\<lambda>t. t = TK_CERT_HEADER) r" "list_all full_cert cs"
  shows "runs (star_loop (\<lambda>t. t = TK_CERT_HEADER) (rule_step FOLLOW_certificate_in_credential125 parse_certificate add_cert_tree))
    (\<lambda>l l'. fst l' = fst l \<and> stream_adds (map cert_texts cs) (snd l) (snd l')) (concat (map cert_syms cs)) r"
proof -
  let ?items = "map (\<lambda>c. (cert_syms c, reads_tree (cert_texts c) add_cert_tree)) cs"
  have "runs (star_loop (\<lambda>t. t = TK_CERT_HEADER) (rule_step FOLLOW_certificate_in_credential125 parse_certificate add_cert_tree))
      (foldr (OO) (map snd ?items) (=)) (concat (map fst ?items)) r"
  proof (rule star_loop_runs [OF assms(1)])
    fix xs R r'
    assume "(xs, R) \<in> set ?items"
    then obtain c where c: "c \<in> set cs" "xs = cert_syms c" "R = reads_tree (cert_texts c) add_cert_tree" by auto
    from c assms(2) have "full_cert c" by (simp add: list_all_iff)
    from rule_step_runs [OF certificate_reads [OF this]] c
    show "starts (\<lambda>t. t = TK_CERT_HEADER) xs \<and>
        runs (rule_step FOLLOW_certificate_in_credential125 parse_certificate add_cert_tree) R xs r'"
      by (simp add: starts_def cert_syms_def)
  qed
  then have "runs (star_loop (\<lambda>t. t = TK_CERT_HEADER) (rule_step FOLLOW_certificate_in_credential125 parse_certificate add_cert_tree))
      (foldr (OO) (map (\<lambda>c. reads_tree (cert_texts c) add_cert_tree) cs) (=)) (concat (map cert_syms cs)) r"
    by (simp add: comp_def)
  then show ?thesis by (rule runs_weaken) (rule cert_trees_add)
qed

text \<open>The layout the walker of the trees reads is that of the parser's trees.\<close>

definition cert_source_syntax :: "cert_source \<Rightarrow> cert_syntax" where
  "cert_source_syntax c = \<lparr>sx_clauses = map (\<lambda>k. map snd (clause_body k)) (src_clauses c),
     sx_start = map snd (time_body (src_start c)), sx_stop = map snd (time_body (src_stop c)),
     sx_key = src_key c, sx_sig = src_sig c\<rparr>"

definition cred_source_syntax :: "cred_source \<Rightarrow> cred_syntax" where
  "cred_source_syntax s = \<lparr>sx_credKey = src_credKey s, sx_certs = map cert_source_syntax (src_certs s)\<rparr>"

lemma clause_texts_layout: "clause_texts = (\<lambda>k. clause_layout (map snd (clause_body k)))"
  by (simp add: clause_texts_def clause_syms_def clause_layout_def fun_eq_iff)

lemma cert_texts_layout: "cert_texts = (\<lambda>c. cert_layout (cert_source_syntax c))"
  by (simp add: cert_texts_def cert_layout_def cert_body_layout_def cert_source_syntax_def clause_texts_layout
    clause_layout_def validity_layout_def time_syms_def key_texts_def sig_texts_def ast_labels comp_def fun_eq_iff)

lemma cred_texts_layout: "key_texts (src_credKey s) @ concat (map cert_texts (src_certs s)) @ [''END''] = cred_layout (cred_source_syntax s)"
  by (simp add: cred_layout_def cred_source_syntax_def cert_texts_layout key_texts_def END_S_def comp_def)

definition cred_rest :: "cred_source \<Rightarrow> symbol list" where
  "cred_rest s = key_syms (src_credKey s) @ concat (map cert_syms (src_certs s)) @ [(TK_CREDENTIAL_END, ''-----END MPKI CREDENTIAL-----'')]"

lemma cred_syms_rest: "cred_syms s = (TK_CREDENTIAL_HEADER, ''-----BEGIN MPKI CREDENTIAL-----'') # cred_rest s"
  by (simp add: cred_syms_def cred_rest_def)

lemma cred_steps:
  assumes "full_cred s"
  shows "runs (seqs
     [rule_step FOLLOW_public_key_in_credential123 parse_public_key add_credKey_tree,
      star_loop (\<lambda>t. t = TK_CERT_HEADER) (rule_step FOLLOW_certificate_in_credential125 parse_certificate add_cert_tree),
      token_step TK_CREDENTIAL_END FOLLOW_CREDENTIAL_END_in_credential128])
    (reads_tree (key_texts (src_credKey s)) add_credKey_tree OO
      (\<lambda>l l'. fst l' = fst l \<and> stream_adds (map cert_texts (src_certs s)) (snd l) (snd l')) OO (=)) (cred_rest s) r"
  unfolding cred_rest_def key_texts_def using assms
  by (intro seqs_token_runs seqs_Cons_runs [OF certs_run] seqs_rule_runs key_reads seqs_Nil_runs)
    (auto simp: full_cred_def stops_def token_types)

text \<open>
  The root of a credential is not a list, so the texts are those of its children. The rule is followed
  from the point where its first token has been matched, with or without an error.
\<close>

lemma credential_after_header:
  assumes "full_cred s" "match TK_CREDENTIAL_HEADER FOLLOW_CREDENTIAL_HEADER_in_credential121 p = ok (tok, p1)"
    "ready p1 (cred_rest s @ r)"
  shows "\<exists>t p'. parse_credential p = ok (Some t, p') \<and> ready p' r \<and> pr_errorCount p' = pr_errorCount p1 \<and>
    payload t = Some (createToken TK_CREDENTIAL ''CREDENTIAL'') \<and> child_texts t = cred_layout (cred_source_syntax s)"
proof -
  let ?k = "key_texts (src_credKey s)" and ?cs = "map cert_texts (src_certs s)"
  let ?fs = "[rule_step FOLLOW_public_key_in_credential123 parse_public_key add_credKey_tree,
      star_loop (\<lambda>t. t = TK_CERT_HEADER) (rule_step FOLLOW_certificate_in_credential125 parse_certificate add_cert_tree),
      token_step TK_CREDENTIAL_END FOLLOW_CREDENTIAL_END_in_credential128]"
  obtain l' p' where
    1: "seqs ?fs ((rs_new, rs_new), p1) = ok (l', p')" "ready p' r" "pr_errorCount p' = pr_errorCount p1" and
    2: "(reads_tree ?k add_credKey_tree OO (\<lambda>l l'. fst l' = fst l \<and> stream_adds ?cs (snd l) (snd l')) OO (=)) (rs_new, rs_new) l'"
    by (rule runsE [OF cred_steps [OF assms(1)] assms(3)])
  then obtain t where a: "tree_adds ?k t" "fst l' = rs_add t rs_new" "stream_adds ?cs rs_new (snd l')"
    by (elim relcomppE exE conjE) simp
  have "?k \<noteq> []" by (simp add: key_texts_def)
  from stream_add [OF a(1) this, of rs_new] a(2) have "stream_adds [?k] rs_new (fst l')" by simp
  with a(3) have st: "stream_at [?k] (fst l')" "stream_at ?cs (snd l')"
    using stream_at_new unfolding stream_adds_def by (metis append_Nil)+
  let ?root = "Some (addChild (createTypeText TK_CREDENTIAL ''CREDENTIAL'') (Some nilNode))"
  let ?r1 = "adaptor_addChild ?root (fst (rs_nextTree (fst l')))"
  let ?r2 = "fst (rs_addAll ?r1 (snd l'))"
  let ?r3 = "add_type_text ?r2 TK_END ''END''"
  have "grows (?k @ (concat ?cs @ [''END''])) ?root ?r3"
    by (rule grows_trans [OF grows_add [OF stream_next(2) [OF st(1)]] grows_trans [OF rs_addAll_grows [OF st(2)] grows_type_text]])
  moreover have "flat (addChild (createTypeText TK_CREDENTIAL ''CREDENTIAL'') (Some nilNode))" by (simp add: flat_def)
  ultimately obtain n where n: "?r3 = Some n" "payload n = Some (createToken TK_CREDENTIAL ''CREDENTIAL'')"
      "child_texts n = ?k @ concat ?cs @ [''END'']"
    unfolding grows_def by fastforce
  then have post: "rulePostProcessing (adaptor_addChild (Some nilNode) (Some n)) = Some n"
    by (simp add: adaptor_addChild_def rulePostProcessing_def getChildCount_def getChild_def isNilNode_def)
  have header: "seqs (token_step TK_CREDENTIAL_HEADER FOLLOW_CREDENTIAL_HEADER_in_credential121 # ?fs) ((rs_new, rs_new), p) = ok (l', p')"
    unfolding seqs.simps(2) [of "token_step ty f" for ty f] using assms(2) 1(1) ready_no_error [OF assms(3)]
    by (simp add: token_step_def del: seqs.simps)
  obtain keys certs where l': "l' = (keys, certs)" by (cases l')
  have root: "becomeRoot (Some (createTypeText TK_CREDENTIAL ''CREDENTIAL'')) (Some nilNode) = Inr ?root" by simp
  have "parse_credential p = rule_exit (ok (adaptor_addChild (Some nilNode) (Some n), p'))"
    unfolding parse_credential_def header obind_simps l' prod.case root sum.case Let_def
    using n(1) ready_no_error [OF 1(2)] l' by simp
  then have "parse_credential p = ok (Some n, p')" using post ready_no_error [OF 1(2)] by (simp add: rule_exit_def)
  with 1(2,3) n(2,3) show ?thesis by (auto simp: cred_texts_layout)
qed

lemma credential_reads:
  assumes "full_cred s" "ready p (cred_syms s @ r)"
  shows "\<exists>t p'. parse_credential p = ok (Some t, p') \<and> ready p' r \<and> pr_errorCount p' = pr_errorCount p \<and>
    payload t = Some (createToken TK_CREDENTIAL ''CREDENTIAL'') \<and> child_texts t = cred_layout (cred_source_syntax s)"
proof -
  from assms(2) have "ready p ((TK_CREDENTIAL_HEADER, ''-----BEGIN MPKI CREDENTIAL-----'') # cred_rest s @ r)"
    by (simp add: cred_syms_rest)
  from match_reads [OF this] obtain t p1 where
    m: "match TK_CREDENTIAL_HEADER FOLLOW_CREDENTIAL_HEADER_in_credential121 p = ok (Some t, p1)" "ready p1 (cred_rest s @ r)"
      "pr_errorCount p1 = pr_errorCount p" by blast
  from credential_after_header [OF assms(1) m(1,2)] m(3) show ?thesis by simp
qed

text \<open>A superfluous token before the header is dropped; the error is counted, and nothing else changes.\<close>

lemma credential_after_junk:
  assumes "full_cred s" "ready p (x # cred_syms s @ r)" "fst x \<noteq> TK_CREDENTIAL_HEADER" "\<not> pr_errorRecovery p"
  shows "\<exists>t p'. parse_credential p = ok (Some t, p') \<and> pr_errorCount p' = pr_errorCount p + 1 \<and>
    payload t = Some (createToken TK_CREDENTIAL ''CREDENTIAL'') \<and> child_texts t = cred_layout (cred_source_syntax s)"
proof -
  let ?f = FOLLOW_CREDENTIAL_HEADER_in_credential121
  let ?p1 = "p_reportError (p_consume p)"
  from ready_consume [OF assms(2)] have c: "ready (p_consume p) ((TK_CREDENTIAL_HEADER, ''-----BEGIN MPKI CREDENTIAL-----'') # cred_rest s @ r)"
    by (simp add: cred_syms_rest)
  have "LA (pr_cts p) 2 = p_LA (p_consume p) 1"
    using LA_2_consume [of "pr_cts p"] assms(2) by (simp add: p_LA_def p_consume_def ready_def p_inv_settled)
  then have u: "mismatchIsUnwantedToken p TK_CREDENTIAL_HEADER"
    using symbols_LA(1) [OF c] by (simp add: mismatchIsUnwantedToken_def p_LA_def)
  have "p_LA p 1 \<noteq> TK_CREDENTIAL_HEADER" using symbols_LA(1) [of p "fst x" "snd x"] assms(2,3) by simp
  with u have m: "match TK_CREDENTIAL_HEADER ?f p = ok (Some (tokLT (pr_cts ?p1) 1), (p_consume ?p1)\<lparr>pr_error := False\<rparr>)"
    by (simp add: match_def recoverFromMismatchedToken_def Let_def)
  have "ready ?p1 ((TK_CREDENTIAL_HEADER, ''-----BEGIN MPKI CREDENTIAL-----'') # cred_rest s @ r)"
    using c by (auto simp: p_reportError_def ready_def symbols_left_def p_inv_def)
  from ready_consume [OF this] have "ready ((p_consume ?p1)\<lparr>pr_error := False\<rparr>) (cred_rest s @ r)"
    by (auto simp: ready_def symbols_left_def p_inv_def)
  from credential_after_header [OF assms(1) m this] assms(4) show ?thesis by (auto simp: p_reportError_def p_consume_def)
qed

section \<open>Properties\<close>

lemma ready_new:
  assumes "proper_types toks" "map (\<lambda>t. (tk_type t, tk_text t)) (filter on_channel toks) = x # xs"
  shows "ready (parser_new names toks) (x # xs)"
proof -
  from assms(2) have "filter on_channel toks \<noteq> []" by auto
  then have "\<exists>t \<in> set toks. on_channel t" by (auto simp: filter_empty_conv)
  with assms have "p_inv (parser_new names toks)"
    by (simp add: p_inv_def token_inv_def parser_new_def) (simp add: token_stream_new_def)
  with assms(2) show ?thesis by (simp add: ready_def symbols_left_def parser_new_def)
qed

lemma parses_credential:
  assumes "proper_types toks" "full_cred s" "map (\<lambda>t. (tk_type t, tk_text t)) (filter on_channel toks) = cred_syms s @ r"
  shows "\<exists>t p. parse_credential (parser_new names toks) = ok (Some t, p) \<and> pr_errorCount p = 0 \<and> symbols_left p = r \<and>
    ast_toString t = CREDENTIAL_S \<and> child_texts t = cred_layout (cred_source_syntax s)"
proof -
  have "ready (parser_new names toks) (cred_syms s @ r)"
    using assms(1,3) ready_new by (simp add: cred_syms_def)
  from credential_reads [OF assms(2) this] show ?thesis
    by (auto simp: parser_new_def ready_def ast_toString_def CREDENTIAL_S_def)
qed

text \<open>
  C6. The parser implements the grammar with its rewrite rules: on the tokens of any credential, blanks
  between them, it returns without an error the tree labelled \<^verbatim>\<open>CREDENTIAL\<close> whose children are laid out as the
  grammar says, and leaves unread exactly what follows the credential.
\<close>

theorem parser_implements_grammar:
  assumes "proper_types toks" "full_cred s" "map (\<lambda>t. (tk_type t, tk_text t)) (filter on_channel toks) = cred_syms s @ r"
  shows "\<exists>t p. parse_credential (parser_new RepositoryManagerParserTokenNames toks) = ok (Some t, p) \<and> pr_errorCount p = 0 \<and>
    symbols_left p = r \<and> ast_toString t = CREDENTIAL_S \<and> child_texts t = cred_layout (cred_source_syntax s)"
  using assms by (rule parses_credential)

definition symbol_token :: "symbol \<Rightarrow> token" where
  "symbol_token x = createToken (fst x) (snd x)"

definition example_source :: cred_source where
  "example_source = \<lparr>src_credKey = [''MIGf''], src_certs = [\<lparr>src_clauses = [Fact (Plain (Predicate ''p'' ''a'' [])),
       Implies (Says ''k'' (Predicate ''q'' ''X'' [''Y''])) (Plain (Predicate ''r'' ''X'' [])) [Plain (Predicate ''s'' ''Y'' [])]],
     src_start = Time ''2010'' ''1'' ''1'' ''0'' ''0'' ''0'', src_stop = Time ''2011'' ''1'' ''1'' ''0'' ''0'' ''0'',
     src_key = [''MIGe''], src_sig = [''c2ln'']\<rparr>]\<rparr>"

lemma example_full: "full_cred example_source"
  by (simp add: example_source_def full_cred_def full_cert_def)

lemma symbol_tokens: "map (\<lambda>t. (tk_type t, tk_text t)) (filter on_channel (map symbol_token xs)) = xs"
  by (induction xs) (simp_all add: symbol_token_def on_channel_def createToken_def ANTLR3_TOKEN_DEFAULT_CHANNEL_def)

lemma symbol_tokens_proper: "list_all (\<lambda>x. fst x < 2147483648) xs \<Longrightarrow> proper_types (map symbol_token xs)"
  by (auto simp: proper_types_def symbol_token_def list_all_iff)

lemma example_types: "list_all (\<lambda>x. fst x < 2147483648) (cred_syms example_source)"
  by (simp add: example_source_def cred_syms_def key_syms_def sig_syms_def cert_syms_def clause_syms_def validity_syms_def
      time_syms_def text_sym_def token_types)

theorem parser_implements_grammar_witness:
  "\<exists>t p. parse_credential (parser_new RepositoryManagerParserTokenNames (map symbol_token (cred_syms example_source))) = ok (Some t, p) \<and>
     pr_errorCount p = 0 \<and> ast_toString t = CREDENTIAL_S \<and>
     take 8 (child_texts t) = [PK_HEADER_S, ''MIGf'', PK_END_S, CERT_S, CLAUSE_S, ''p'', ''('', ''a'']"
proof -
  have "map (\<lambda>t. (tk_type t, tk_text t)) (filter on_channel (map symbol_token (cred_syms example_source))) = cred_syms example_source @ []"
    by (simp add: symbol_tokens)
  from parser_implements_grammar [OF symbol_tokens_proper [OF example_types] example_full this]
  show ?thesis
    by (auto simp: cred_layout_def cert_layout_def cert_body_layout_def clause_layout_def cred_source_syntax_def
        cert_source_syntax_def example_source_def text_sym_def)
qed

text \<open>
  A superfluous token before the header of a credential is dropped by the recovery: the tree is the same,
  and only the error count, which the program never reads, tells.
\<close>

theorem parser_drops_superfluous_token:
  assumes "proper_types toks" "full_cred s" "fst x \<noteq> TK_CREDENTIAL_HEADER"
    "map (\<lambda>t. (tk_type t, tk_text t)) (filter on_channel toks) = x # cred_syms s @ r"
  shows "\<exists>t p. parse_credential (parser_new RepositoryManagerParserTokenNames toks) = ok (Some t, p) \<and> pr_errorCount p = 1 \<and>
    ast_toString t = CREDENTIAL_S \<and> child_texts t = cred_layout (cred_source_syntax s)"
proof -
  have "\<not> pr_errorRecovery (parser_new names toks)" "pr_errorCount (parser_new names toks) = 0" for names
    by (simp_all add: parser_new_def)
  with credential_after_junk [OF assms(2) ready_new [OF assms(1,4)] assms(3), of RepositoryManagerParserTokenNames]
  show ?thesis by (fastforce simp: ast_toString_def CREDENTIAL_S_def)
qed

theorem parser_drops_superfluous_token_witness:
  "\<exists>t p. parse_credential (parser_new RepositoryManagerParserTokenNames (map symbol_token ((TK_NUM, ''7'') # cred_syms example_source))) =
     ok (Some t, p) \<and> pr_errorCount p = 1 \<and> ast_toString t = CREDENTIAL_S"
proof -
  let ?xs = "(TK_NUM, ''7'') # cred_syms example_source"
  have "map (\<lambda>t. (tk_type t, tk_text t)) (filter on_channel (map symbol_token ?xs)) = (TK_NUM, ''7'') # cred_syms example_source @ []"
    by (simp add: symbol_tokens del: list.map)
  moreover have "proper_types (map symbol_token ?xs)"
    using example_types by (intro symbol_tokens_proper) (simp add: token_types)
  ultimately show ?thesis
    using parser_drops_superfluous_token [OF _ example_full, of "map symbol_token ?xs" "(TK_NUM, ''7'')" "[]"]
    by (auto simp: token_types)
qed

end
