(* ===== verification/RM_Lexer.thy ===== *)
theory RM_Lexer
  imports RM_Lexer_Tables Antlr_Lexer
begin

text \<open>
  The generated lexer, \<^verbatim>\<open>src/src/parser/RepositoryManagerLexer.c\<close>: one definition for each
  token rule and \<^verbatim>\<open>mTokens\<close>, which asks the automaton for the rule to apply.

  The rules implement the interface \<open>token_rules\<close> of the run time, so fetching a token always
  ends.
\<close>

section \<open>The rules\<close>

text \<open>A rule leaves the type alone if its matching raised an exception.\<close>

definition lex_rule :: "nat \<Rightarrow> (lexer \<Rightarrow> lexer) \<Rightarrow> lexer \<Rightarrow> lexer" where
  "lex_rule ty match lx = (let lx1 = match lx in if lx_error lx1 then lx1 else lx1\<lparr>lx_type := ty\<rparr>)"

definition mT__39 :: "lexer \<Rightarrow> lexer" where
  "mT__39 lx = lex_rule T__39 (matchc 40) lx"

definition mT__40 :: "lexer \<Rightarrow> lexer" where
  "mT__40 lx = lex_rule T__40 (matchc 41) lx"

definition mT__41 :: "lexer \<Rightarrow> lexer" where
  "mT__41 lx = lex_rule T__41 (matchc 44) lx"

definition mT__42 :: "lexer \<Rightarrow> lexer" where
  "mT__42 lx = lex_rule T__42 (matchc 46) lx"

definition mT__43 :: "lexer \<Rightarrow> lexer" where
  "mT__43 lx = lex_rule T__43 (matchs lit_1) lx"

definition mT__44 :: "lexer \<Rightarrow> lexer" where
  "mT__44 lx = lex_rule T__44 (matchs lit_2) lx"

definition mT__45 :: "lexer \<Rightarrow> lexer" where
  "mT__45 lx = lex_rule T__45 (matchs lit_3) lx"

definition mT__46 :: "lexer \<Rightarrow> lexer" where
  "mT__46 lx = lex_rule T__46 (matchs lit_4) lx"

text \<open>
  The loops of \<^verbatim>\<open>mWS\<close>, \<^verbatim>\<open>mNUM\<close> and \<^verbatim>\<open>mTEXT\<close>. In the last two the range test
  inside the loop repeats the one of the \<^verbatim>\<open>switch\<close>, so that its error branch is never taken.
\<close>

lemma consume_shorter: "LA1 lx \<noteq> ANTLR3_CHARSTREAM_EOF \<Longrightarrow> length (lx_rest (lx_consume lx)) < length (lx_rest lx)"
  by (cases "lx_rest lx") (simp_all add: LA1_EOF_iff lx_consume_Cons(2))

lemma forward_shorter: "forward lx lx' \<Longrightarrow> length (lx_rest lx') \<le> length (lx_rest lx)"
  by (auto simp: forward_def)

function ws_loop :: "nat \<Rightarrow> lexer \<Rightarrow> lexer" where
  "ws_loop cnt lx =
     (if LA1 lx = 32 \<or> LA1 lx = 9 \<or> LA1 lx = 10 then ws_loop (cnt + 1) ((lx_consume lx)\<lparr>lx_failed := False\<rparr>)
      else if LA1 lx = 13 then
        (let lx1 = matchc 12 ((lx_consume lx)\<lparr>lx_failed := False\<rparr>) in if lx_error lx1 then lx1 else ws_loop (cnt + 1) lx1)
      else if 1 \<le> cnt then lx else exConstruct lx)"
  by pat_completeness auto
termination
proof (relation "measure (\<lambda>(cnt, lx). length (lx_rest lx))", goal_cases)
  case 1
  show ?case by simp
next
  case (2 cnt lx)
  then show ?case using consume_shorter [of lx] by (auto simp: ANTLR3_CHARSTREAM_EOF_def)
next
  case (3 cnt lx lx1)
  then have "length (lx_rest lx1) \<le> length (lx_rest (lx_consume lx))"
    using forward_shorter [OF forward_matchc [of "(lx_consume lx)\<lparr>lx_failed := False\<rparr>" 12]] by simp
  with 3 show ?case using consume_shorter [of lx] by (auto simp: ANTLR3_CHARSTREAM_EOF_def)
qed

declare ws_loop.simps [simp del]

definition mWS :: "lexer \<Rightarrow> lexer" where
  "mWS lx = (let lx1 = ws_loop 0 lx in if lx_error lx1 then lx1 else lx1\<lparr>lx_channel := 99, lx_type := TK_WS\<rparr>)"

definition num_char :: "int \<Rightarrow> bool" where
  "num_char c \<longleftrightarrow> 48 \<le> c \<and> c \<le> 57"

definition text_char :: "int \<Rightarrow> bool" where
  "text_char c \<longleftrightarrow> c = 43 \<or> c = 45 \<or> (47 \<le> c \<and> c \<le> 58) \<or> c = 61 \<or> (65 \<le> c \<and> c \<le> 90) \<or> c = 95 \<or> (97 \<le> c \<and> c \<le> 122)"

lemma text_char_EOF [simp]: "\<not> text_char ANTLR3_CHARSTREAM_EOF" "\<not> num_char ANTLR3_CHARSTREAM_EOF"
  by (simp_all add: text_char_def num_char_def ANTLR3_CHARSTREAM_EOF_def)

function span_loop :: "(int \<Rightarrow> bool) \<Rightarrow> lexer \<Rightarrow> lexer" where
  "span_loop P lx = (if LA1 lx \<noteq> ANTLR3_CHARSTREAM_EOF \<and> P (LA1 lx) then span_loop P (lx_consume lx) else lx)"
  by pat_completeness auto
termination
proof (relation "measure (\<lambda>(P, lx). length (lx_rest lx))", goal_cases)
  case (2 P lx)
  then show ?case using consume_shorter [of lx] by auto
qed simp

declare span_loop.simps [simp del]

definition mNUM :: "lexer \<Rightarrow> lexer" where
  "mNUM lx = lex_rule TK_NUM (span_loop num_char) lx"

definition mTEXT :: "lexer \<Rightarrow> lexer" where
  "mTEXT lx = lex_rule TK_TEXT (span_loop text_char) lx"

definition mCREDENTIAL_HEADER :: "lexer \<Rightarrow> lexer" where
  "mCREDENTIAL_HEADER lx = lex_rule TK_CREDENTIAL_HEADER (matchs lit_5) lx"

definition mCREDENTIAL_END :: "lexer \<Rightarrow> lexer" where
  "mCREDENTIAL_END lx = lex_rule TK_CREDENTIAL_END (matchs lit_6) lx"

definition mPUBLIC_KEY_HEADER :: "lexer \<Rightarrow> lexer" where
  "mPUBLIC_KEY_HEADER lx = lex_rule TK_PUBLIC_KEY_HEADER (matchs lit_7) lx"

definition mPUBLIC_KEY_END :: "lexer \<Rightarrow> lexer" where
  "mPUBLIC_KEY_END lx = lex_rule TK_PUBLIC_KEY_END (matchs lit_8) lx"

definition mSIGNATURE_HEADER :: "lexer \<Rightarrow> lexer" where
  "mSIGNATURE_HEADER lx = lex_rule TK_SIGNATURE_HEADER (matchs lit_9) lx"

definition mSIGNATURE_END :: "lexer \<Rightarrow> lexer" where
  "mSIGNATURE_END lx = lex_rule TK_SIGNATURE_END (matchs lit_10) lx"

definition mVALIDITY_HEADER :: "lexer \<Rightarrow> lexer" where
  "mVALIDITY_HEADER lx = lex_rule TK_VALIDITY_HEADER (matchs lit_11) lx"

definition mVALIDITY_END :: "lexer \<Rightarrow> lexer" where
  "mVALIDITY_END lx = lex_rule TK_VALIDITY_END (matchs lit_12) lx"

definition mCERT_HEADER :: "lexer \<Rightarrow> lexer" where
  "mCERT_HEADER lx = lex_rule TK_CERT_HEADER (matchs lit_13) lx"

definition mCERT_END :: "lexer \<Rightarrow> lexer" where
  "mCERT_END lx = lex_rule TK_CERT_END (matchs lit_14) lx"

definition mCHALLENGE_HEADER :: "lexer \<Rightarrow> lexer" where
  "mCHALLENGE_HEADER lx = lex_rule TK_CHALLENGE_HEADER (matchs lit_15) lx"

definition mCHALLENGE_END :: "lexer \<Rightarrow> lexer" where
  "mCHALLENGE_END lx = lex_rule TK_CHALLENGE_END (matchs lit_16) lx"

definition mRESPONSE_HEADER :: "lexer \<Rightarrow> lexer" where
  "mRESPONSE_HEADER lx = lex_rule TK_RESPONSE_HEADER (matchs lit_17) lx"

definition mRESPONSE_END :: "lexer \<Rightarrow> lexer" where
  "mRESPONSE_END lx = lex_rule TK_RESPONSE_END (matchs lit_18) lx"

definition mREQUEST_HEADER :: "lexer \<Rightarrow> lexer" where
  "mREQUEST_HEADER lx = lex_rule TK_REQUEST_HEADER (matchs lit_19) lx"

definition mREQUEST_END :: "lexer \<Rightarrow> lexer" where
  "mREQUEST_END lx = lex_rule TK_REQUEST_END (matchs lit_20) lx"

definition mREPLY_HEADER :: "lexer \<Rightarrow> lexer" where
  "mREPLY_HEADER lx = lex_rule TK_REPLY_HEADER (matchs lit_21) lx"

definition mREPLY_END :: "lexer \<Rightarrow> lexer" where
  "mREPLY_END lx = lex_rule TK_REPLY_END (matchs lit_22) lx"

definition mNOT_BEFORE :: "lexer \<Rightarrow> lexer" where
  "mNOT_BEFORE lx = lex_rule TK_NOT_BEFORE (matchs lit_23) lx"

definition mNOT_AFTER :: "lexer \<Rightarrow> lexer" where
  "mNOT_AFTER lx = lex_rule TK_NOT_AFTER (matchs lit_24) lx"


text \<open>
  \<^verbatim>\<open>mTokens\<close>: the automaton looks ahead and rewinds; if it finds no alternative, the
  exception is raised and nothing is consumed.
\<close>

definition token_rule :: "int \<Rightarrow> lexer \<Rightarrow> lexer" where
  "token_rule a lx =
     (if a = 1 then mT__39 lx
      else if a = 2 then mT__40 lx
      else if a = 3 then mT__41 lx
      else if a = 4 then mT__42 lx
      else if a = 5 then mT__43 lx
      else if a = 6 then mT__44 lx
      else if a = 7 then mT__45 lx
      else if a = 8 then mT__46 lx
      else if a = 9 then mWS lx
      else if a = 10 then mNUM lx
      else if a = 11 then mTEXT lx
      else if a = 12 then mCREDENTIAL_HEADER lx
      else if a = 13 then mCREDENTIAL_END lx
      else if a = 14 then mPUBLIC_KEY_HEADER lx
      else if a = 15 then mPUBLIC_KEY_END lx
      else if a = 16 then mSIGNATURE_HEADER lx
      else if a = 17 then mSIGNATURE_END lx
      else if a = 18 then mVALIDITY_HEADER lx
      else if a = 19 then mVALIDITY_END lx
      else if a = 20 then mCERT_HEADER lx
      else if a = 21 then mCERT_END lx
      else if a = 22 then mCHALLENGE_HEADER lx
      else if a = 23 then mCHALLENGE_END lx
      else if a = 24 then mRESPONSE_HEADER lx
      else if a = 25 then mRESPONSE_END lx
      else if a = 26 then mREQUEST_HEADER lx
      else if a = 27 then mREQUEST_END lx
      else if a = 28 then mREPLY_HEADER lx
      else if a = 29 then mREPLY_END lx
      else if a = 30 then mNOT_BEFORE lx
      else if a = 31 then mNOT_AFTER lx
      else lx)"

definition mTokens :: "lexer \<Rightarrow> lexer option" where
  "mTokens lx =
     map_option (\<lambda>r. case r of None \<Rightarrow> exConstruct lx | Some a \<Rightarrow> token_rule a lx)
       (antlr3dfapredict (\<lambda>is. antlr38BitLA is 1) antlr38BitConsume cdfa4 (lx_input lx))"

lemma mTokens_run:
  "mTokens lx = Some (case dfa_run cdfa4 0 (lx_rest lx) of None \<Rightarrow> exConstruct lx | Some a \<Rightarrow> token_rule a lx)"
  by (simp add: mTokens_def antlr3dfapredict_run [OF cdfa4_wf, unfolded One_nat_def])

section \<open>The interface\<close>

text \<open>What every rule keeps.\<close>

definition keeps :: "(lexer \<Rightarrow> lexer) \<Rightarrow> bool" where
  "keeps f \<longleftrightarrow> (\<forall>lx. forward lx (f lx) \<and> lx_start (f lx) = lx_start lx \<and> lx_token (f lx) = lx_token lx)"

named_theorems rules_keep \<open>rules that only move forward\<close>

lemma keepsD: "keeps f \<Longrightarrow> forward lx (f lx) \<and> lx_start (f lx) = lx_start lx \<and> lx_token (f lx) = lx_token lx"
  by (simp add: keeps_def)

lemma keeps_matchc [rules_keep]: "keeps (matchc c)"
  by (simp add: keeps_def matchc_def [of _ "_ :: lexer"] lx_recover_def lx_consume_def exConstruct_def forward_def
      consume_next_le consume_next_bound)

lemma keeps_matchs [rules_keep]: "keeps (matchs cs)"
proof -
  have "lx_start (matchs cs lx) = lx_start lx \<and> lx_token (matchs cs lx) = lx_token lx" for lx
    by (induction cs arbitrary: lx) (simp_all add: lx_recover_def lx_consume_def exConstruct_def)
  then show ?thesis by (simp add: keeps_def)
qed

lemma keeps_lex_rule [rules_keep]: "keeps f \<Longrightarrow> keeps (lex_rule ty f)"
  by (simp add: keeps_def lex_rule_def Let_def)

lemma keeps_ws: "forward lx (ws_loop cnt lx) \<and> lx_start (ws_loop cnt lx) = lx_start lx \<and> lx_token (ws_loop cnt lx) = lx_token lx"
proof (induction cnt lx rule: ws_loop.induct)
  case (1 cnt lx)
  let ?lx1 = "(lx_consume lx)\<lparr>lx_failed := False\<rparr>"
  have c: "forward lx ?lx1" "lx_start ?lx1 = lx_start lx" "lx_token ?lx1 = lx_token lx"
    by (simp_all add: lx_consume_def forward_def consume_next_le consume_next_bound)
  note m = keepsD [OF keeps_matchc [of 12], of ?lx1]
  show ?case
  proof (cases "LA1 lx = 32 \<or> LA1 lx = 9 \<or> LA1 lx = 10")
    case True
    from 1(1) [OF True] c forward_trans [OF c(1)] True show ?thesis by (subst (1 2 3) ws_loop.simps) simp
  next
    case False
    show ?thesis
    proof (cases "LA1 lx = 13 \<and> \<not> lx_error (matchc 12 ?lx1)")
      case True
      with 1(2) [OF False] m c False show ?thesis
        by (subst (1 2 3) ws_loop.simps) (auto simp: Let_def intro: forward_trans [OF c(1)] forward_trans)
    next
      case nf: False
      have "forward lx (matchc 12 ?lx1)" using forward_trans [OF c(1)] m by blast
      then show ?thesis using m c False nf by (subst (1 2 3) ws_loop.simps) (auto simp: Let_def exConstruct_def)
    qed
  qed
qed

lemma keeps_mWS [rules_keep]: "keeps mWS"
  using keeps_ws by (simp add: keeps_def mWS_def Let_def)

lemma keeps_span [rules_keep]: "keeps (span_loop P)"
proof -
  have "forward lx (span_loop P lx) \<and> lx_start (span_loop P lx) = lx_start lx \<and> lx_token (span_loop P lx) = lx_token lx" for lx
  proof (induction P lx rule: span_loop.induct)
    case (1 P lx)
    have "forward lx (lx_consume lx)" "lx_start (lx_consume lx) = lx_start lx" "lx_token (lx_consume lx) = lx_token lx"
      by (simp_all add: lx_consume_def forward_def consume_next_le consume_next_bound)
    with 1 show ?case by (subst (1 2 3) span_loop.simps) (auto intro: forward_trans)
  qed
  then show ?thesis by (simp add: keeps_def)
qed

lemmas rule_defs =
  mT__39_def mT__40_def mT__41_def mT__42_def mT__43_def
  mT__44_def mT__45_def mT__46_def mCREDENTIAL_HEADER_def mCREDENTIAL_END_def
  mPUBLIC_KEY_HEADER_def mPUBLIC_KEY_END_def mSIGNATURE_HEADER_def mSIGNATURE_END_def mVALIDITY_HEADER_def
  mVALIDITY_END_def mCERT_HEADER_def mCERT_END_def mCHALLENGE_HEADER_def mCHALLENGE_END_def
  mRESPONSE_HEADER_def mRESPONSE_END_def mREQUEST_HEADER_def mREQUEST_END_def mREPLY_HEADER_def
  mREPLY_END_def mNOT_BEFORE_def mNOT_AFTER_def
  mNUM_def mTEXT_def

lemma keeps_rules [rules_keep]:
  "keeps mT__39" "keeps mT__40" "keeps mT__41" "keeps mT__42" "keeps mT__43" "keeps mT__44" "keeps mT__45" "keeps mT__46"
  "keeps mNUM" "keeps mTEXT" "keeps mCREDENTIAL_HEADER" "keeps mCREDENTIAL_END" "keeps mPUBLIC_KEY_HEADER"
  "keeps mPUBLIC_KEY_END" "keeps mSIGNATURE_HEADER" "keeps mSIGNATURE_END" "keeps mVALIDITY_HEADER" "keeps mVALIDITY_END"
  "keeps mCERT_HEADER" "keeps mCERT_END" "keeps mCHALLENGE_HEADER" "keeps mCHALLENGE_END" "keeps mRESPONSE_HEADER"
  "keeps mRESPONSE_END" "keeps mREQUEST_HEADER" "keeps mREQUEST_END" "keeps mREPLY_HEADER" "keeps mREPLY_END"
  "keeps mNOT_BEFORE" "keeps mNOT_AFTER"
  by (simp_all add: rule_defs [abs_def] rules_keep)

lemma keeps_if: "(b \<Longrightarrow> keeps f) \<Longrightarrow> (\<not> b \<Longrightarrow> keeps g) \<Longrightarrow> keeps (\<lambda>lx. if b then f lx else g lx)"
  by (cases b) simp_all

lemma token_rule_keeps: "keeps (token_rule a)"
  unfolding token_rule_def [abs_def] by (intro keeps_if rules_keep) (simp add: keeps_def)

interpretation rm: token_rules mTokens
proof
  fix lx lx'
  show "\<exists>lx'. mTokens lx = Some lx'" by (simp add: mTokens_run)
  assume m: "mTokens lx = Some lx'"
  then have "lx' = exConstruct lx \<or> (\<exists>a. lx' = token_rule a lx)" by (auto simp: mTokens_run split: option.splits)
  then show "forward lx lx'" "lx_start lx' = lx_start lx \<and> lx_token lx' = lx_token lx"
    using keepsD [OF token_rule_keeps] by (auto simp: exConstruct_def forward_def)
qed

end
