(* ===== verification/RM_Words.thy ===== *)
theory RM_Words
  imports RM_Lexer
begin

text \<open>
  The automaton of the generated lexer on words, that is on the characters of the token
  \<^verbatim>\<open>TEXT\<close>. Its states after a word are given by \<open>word_state\<close>; the tables are evaluated once for
  each of these states, and from then on the automaton is known as the classification of words
  by longest match: numbers, the four key words, and other texts.
\<close>

lemma list_all_range: "list_all P [a..b] \<Longrightarrow> a \<le> c \<and> c \<le> b \<Longrightarrow> P (c :: int)"
  by (simp add: list_all_iff)

lemma of_char_32: "(of_char c :: int) = 32 \<longleftrightarrow> c = CHR '' ''"
proof -
  have "(of_char c :: int) = of_char (CHR '' '') \<longleftrightarrow> c = CHR '' ''" by (simp only: of_char_eq_iff)
  then show ?thesis by simp
qed

section \<open>The automaton on words\<close>

abbreviation codes :: "string \<Rightarrow> int list" where
  "codes w \<equiv> map of_char w"

text \<open>Where the automaton stands after some characters, or what it has decided.\<close>

fun dfa_scan :: "cyclic_dfa \<Rightarrow> int \<Rightarrow> int list \<Rightarrow> dfa_action" where
  "dfa_scan d s [] = Goto s"
| "dfa_scan d s (c # cs) = (case dfa_step d s c of Goto t \<Rightarrow> dfa_scan d t cs | a \<Rightarrow> a)"

lemma dfa_scan_run:
  "dfa_run d s (w @ r) = (case dfa_scan d s (codes w) of Goto t \<Rightarrow> dfa_run d t r | Alt a \<Rightarrow> Some a | No_Viable_Alt \<Rightarrow> None)"
  by (induction w arbitrary: s) (auto split: dfa_action.split)

lemmas dfa4_tables = dfa4_eot_def dfa4_eof_def dfa4_min_def dfa4_max_def dfa4_accept_def dfa4_special_def
  dfa4_transitions_def

lemmas dfa4_rows = dfa4_T0_def dfa4_T22_def dfa4_T26_def dfa4_T2_def dfa4_T37_def dfa4_T39_def dfa4_T3_def dfa4_T43_def
  dfa4_T47_def dfa4_T48_def dfa4_T49_def dfa4_T4_def dfa4_T54_def dfa4_T55_def dfa4_T56_def dfa4_T57_def
  dfa4_T58_def dfa4_T59_def dfa4_T5_def dfa4_T60_def dfa4_T62_def dfa4_T63_def dfa4_T65_def dfa4_T66_def
  dfa4_T68_def dfa4_T69_def dfa4_T6_def dfa4_T71_def dfa4_T75_def dfa4_T76_def dfa4_T80_def dfa4_T81_def
  dfa4_T86_def dfa4_T9_def

text \<open>
  The states the automaton can be in after a word that no other alternative has been excluded
  for: the beginnings of the key words and of the headers up to the first blank.
\<close>

definition word_trie :: "(int list \<times> int) list" where
  "word_trie = [
     ([45], 12), ([58], 5), ([78], 13), ([100], 6), ([114], 7), ([115], 8), ([45, 45], 19), ([58, 45], 15),
     ([78, 111], 20), ([100, 97], 16), ([114, 101], 17), ([115, 97], 18), ([45, 45, 45], 25), ([78, 111, 116],
     26), ([100, 97, 116], 22), ([114, 101, 113], 23), ([115, 97, 121], 24), ([45, 45, 45, 45], 30), ([100,
     97, 116, 105], 27), ([114, 101, 113, 117], 28), ([115, 97, 121, 115], 29), ([45, 45, 45, 45, 45], 35),
     ([100, 97, 116, 105, 109], 32), ([114, 101, 113, 117, 101], 33), ([45, 45, 45, 45, 45, 66], 40), ([45,
     45, 45, 45, 45, 69], 41), ([100, 97, 116, 105, 109, 101], 38), ([114, 101, 113, 117, 101, 115], 39),
     ([45, 45, 45, 45, 45, 66, 69], 44), ([45, 45, 45, 45, 45, 69, 78], 45), ([114, 101, 113, 117, 101, 115,
     116], 43), ([45, 45, 45, 45, 45, 66, 69, 71], 47), ([45, 45, 45, 45, 45, 69, 78, 68], 48), ([45, 45, 45,
     45, 45, 66, 69, 71, 73], 49), ([45, 45, 45, 45, 45, 66, 69, 71, 73, 78], 51)]"

definition word_state :: "int list \<Rightarrow> int" where
  "word_state w =
     (if w = [] then 0
      else if list_all num_char w then 10
      else case map_of word_trie w of Some s \<Rightarrow> s | None \<Rightarrow> 14)"

lemma step_narrow:
  "dfa_step cdfa4 12 c = (if c = 45 then Goto 19 else Goto 14)"
  "dfa_step cdfa4 5 c = (if c = 45 then Goto 15 else Goto 14)"
  "dfa_step cdfa4 13 c = (if c = 111 then Goto 20 else Goto 14)"
  "dfa_step cdfa4 6 c = (if c = 97 then Goto 16 else Goto 14)"
  "dfa_step cdfa4 7 c = (if c = 101 then Goto 17 else Goto 14)"
  "dfa_step cdfa4 8 c = (if c = 97 then Goto 18 else Goto 14)"
  "dfa_step cdfa4 19 c = (if c = 45 then Goto 25 else Goto 14)"
  "dfa_step cdfa4 20 c = (if c = 116 then Goto 26 else Goto 14)"
  "dfa_step cdfa4 16 c = (if c = 116 then Goto 22 else Goto 14)"
  "dfa_step cdfa4 17 c = (if c = 113 then Goto 23 else Goto 14)"
  "dfa_step cdfa4 18 c = (if c = 121 then Goto 24 else Goto 14)"
  "dfa_step cdfa4 25 c = (if c = 45 then Goto 30 else Goto 14)"
  "dfa_step cdfa4 26 c = (if c = 32 then Goto 31 else Goto 14)"
  "dfa_step cdfa4 22 c = (if c = 105 then Goto 27 else Goto 14)"
  "dfa_step cdfa4 23 c = (if c = 117 then Goto 28 else Goto 14)"
  "dfa_step cdfa4 24 c = (if c = 115 then Goto 29 else Goto 14)"
  "dfa_step cdfa4 30 c = (if c = 45 then Goto 35 else Goto 14)"
  "dfa_step cdfa4 27 c = (if c = 109 then Goto 32 else Goto 14)"
  "dfa_step cdfa4 28 c = (if c = 101 then Goto 33 else Goto 14)"
  "dfa_step cdfa4 32 c = (if c = 101 then Goto 38 else Goto 14)"
  "dfa_step cdfa4 33 c = (if c = 115 then Goto 39 else Goto 14)"
  "dfa_step cdfa4 40 c = (if c = 69 then Goto 44 else Goto 14)"
  "dfa_step cdfa4 41 c = (if c = 78 then Goto 45 else Goto 14)"
  "dfa_step cdfa4 39 c = (if c = 116 then Goto 43 else Goto 14)"
  "dfa_step cdfa4 44 c = (if c = 71 then Goto 47 else Goto 14)"
  "dfa_step cdfa4 45 c = (if c = 68 then Goto 48 else Goto 14)"
  "dfa_step cdfa4 47 c = (if c = 73 then Goto 49 else Goto 14)"
  "dfa_step cdfa4 48 c = (if c = 32 then Goto 50 else Goto 14)"
  "dfa_step cdfa4 49 c = (if c = 78 then Goto 51 else Goto 14)"
  "dfa_step cdfa4 51 c = (if c = 32 then Goto 57 else Goto 14)"
  by (simp_all add: dfa_step_def cdfa4_def at_def dfa4_tables dfa4_rows Let_def)

lemma row_T47: "66 \<le> c \<and> c \<le> 69 \<Longrightarrow> dfa4_T47 ! nat (c - 66) = (if c = 66 then 40 else if c = 69 then 41 else -1)"
proof -
  have "list_all (\<lambda>c. dfa4_T47 ! nat (c - 66) = (if c = 66 then 40 else if c = 69 then 41 else -1)) [66..69]" by code_simp
  then show "66 \<le> c \<and> c \<le> 69 \<Longrightarrow> dfa4_T47 ! nat (c - 66) = (if c = 66 then 40 else if c = 69 then 41 else -1)" by (rule list_all_range)
qed

lemma step_35: "dfa_step cdfa4 35 c = (if c = 66 then Goto 40 else if c = 69 then Goto 41 else Goto 14)"
proof (cases "66 \<le> c \<and> c \<le> 69")
  case True
  with row_T47 [OF this] show ?thesis by (simp add: dfa_step_def cdfa4_def at_def dfa4_tables)
next
  case False
  then have "dfa_step cdfa4 35 c = Goto 14" by (auto simp: dfa_step_def cdfa4_def at_def dfa4_tables)
  with False show ?thesis by auto
qed

lemma row_T49: "43 \<le> c \<and> c \<le> 122 \<Longrightarrow> dfa4_T49 ! nat (c - 43) = (if num_char c then 10 else if text_char c then 14 else -1)"
proof -
  have "list_all (\<lambda>c. dfa4_T49 ! nat (c - 43) = (if num_char c then 10 else if text_char c then 14 else -1)) [43..122]" by code_simp
  then show "43 \<le> c \<and> c \<le> 122 \<Longrightarrow> dfa4_T49 ! nat (c - 43) = (if num_char c then 10 else if text_char c then 14 else -1)" by (rule list_all_range)
qed

lemma step_10: "dfa_step cdfa4 10 c = (if num_char c then Goto 10 else if text_char c then Goto 14 else Goto 11)"
proof (cases "43 \<le> c \<and> c \<le> 122")
  case True
  with row_T49 [OF this] show ?thesis by (simp add: dfa_step_def cdfa4_def at_def dfa4_tables)
next
  case False
  then have "dfa_step cdfa4 10 c = Goto 11" by (auto simp: dfa_step_def cdfa4_def at_def dfa4_tables)
  moreover have "\<not> num_char c" "\<not> text_char c" using False by (auto simp: num_char_def text_char_def)
  ultimately show ?thesis using False by auto
qed

lemma row_T4: "43 \<le> c \<and> c \<le> 122 \<Longrightarrow> dfa4_T4 ! nat (c - 43) = (if text_char c then 14 else -1)"
proof -
  have "list_all (\<lambda>c. dfa4_T4 ! nat (c - 43) = (if text_char c then 14 else -1)) [43..122]" by code_simp
  then show "43 \<le> c \<and> c \<le> 122 \<Longrightarrow> dfa4_T4 ! nat (c - 43) = (if text_char c then 14 else -1)" by (rule list_all_range)
qed

lemma step_15: "dfa_step cdfa4 15 c = (if text_char c then Goto 14 else Goto 21)"
proof (cases "43 \<le> c \<and> c \<le> 122")
  case True
  with row_T4 [OF this] show ?thesis by (simp add: dfa_step_def cdfa4_def at_def dfa4_tables)
next
  case False
  then have "dfa_step cdfa4 15 c = Goto 21" by (auto simp: dfa_step_def cdfa4_def at_def dfa4_tables)
  moreover have "\<not> num_char c" "\<not> text_char c" using False by (auto simp: num_char_def text_char_def)
  ultimately show ?thesis using False by auto
qed

lemma step_29: "dfa_step cdfa4 29 c = (if text_char c then Goto 14 else Goto 34)"
proof (cases "43 \<le> c \<and> c \<le> 122")
  case True
  with row_T4 [OF this] show ?thesis by (simp add: dfa_step_def cdfa4_def at_def dfa4_tables)
next
  case False
  then have "dfa_step cdfa4 29 c = Goto 34" by (auto simp: dfa_step_def cdfa4_def at_def dfa4_tables)
  moreover have "\<not> num_char c" "\<not> text_char c" using False by (auto simp: num_char_def text_char_def)
  ultimately show ?thesis using False by auto
qed

lemma step_38: "dfa_step cdfa4 38 c = (if text_char c then Goto 14 else Goto 42)"
proof (cases "43 \<le> c \<and> c \<le> 122")
  case True
  with row_T4 [OF this] show ?thesis by (simp add: dfa_step_def cdfa4_def at_def dfa4_tables)
next
  case False
  then have "dfa_step cdfa4 38 c = Goto 42" by (auto simp: dfa_step_def cdfa4_def at_def dfa4_tables)
  moreover have "\<not> num_char c" "\<not> text_char c" using False by (auto simp: num_char_def text_char_def)
  ultimately show ?thesis using False by auto
qed

lemma step_43: "dfa_step cdfa4 43 c = (if text_char c then Goto 14 else Goto 46)"
proof (cases "43 \<le> c \<and> c \<le> 122")
  case True
  with row_T4 [OF this] show ?thesis by (simp add: dfa_step_def cdfa4_def at_def dfa4_tables)
next
  case False
  then have "dfa_step cdfa4 43 c = Goto 46" by (auto simp: dfa_step_def cdfa4_def at_def dfa4_tables)
  moreover have "\<not> num_char c" "\<not> text_char c" using False by (auto simp: num_char_def text_char_def)
  ultimately show ?thesis using False by auto
qed

lemma row_T76: "9 \<le> c \<and> c \<le> 122 \<Longrightarrow> dfa4_T76 ! nat (c - 9) = (if c \<in> {9, 10, 13, 32} then 9 else if c = 40 then 1 else if c = 41 then 2
     else if c = 44 then 3 else if c = 46 then 4
     else if num_char c then 10 else if c = 45 then 12 else if c = 58 then 5
     else if c = 78 then 13 else if c = 100 then 6 else if c = 114 then 7 else if c = 115 then 8
     else if text_char c then 14 else -1)"
proof -
  have "list_all (\<lambda>c. dfa4_T76 ! nat (c - 9) = (if c \<in> {9, 10, 13, 32} then 9 else if c = 40 then 1 else if c = 41 then 2
     else if c = 44 then 3 else if c = 46 then 4
     else if num_char c then 10 else if c = 45 then 12 else if c = 58 then 5
     else if c = 78 then 13 else if c = 100 then 6 else if c = 114 then 7 else if c = 115 then 8
     else if text_char c then 14 else -1)) [9..122]" by code_simp
  then show "9 \<le> c \<and> c \<le> 122 \<Longrightarrow> dfa4_T76 ! nat (c - 9) = (if c \<in> {9, 10, 13, 32} then 9 else if c = 40 then 1 else if c = 41 then 2
     else if c = 44 then 3 else if c = 46 then 4
     else if num_char c then 10 else if c = 45 then 12 else if c = 58 then 5
     else if c = 78 then 13 else if c = 100 then 6 else if c = 114 then 7 else if c = 115 then 8
     else if text_char c then 14 else -1)" by (rule list_all_range)
qed

lemma step_0: "dfa_step cdfa4 0 c = (if c \<in> {9, 10, 13, 32} then Goto 9 else if c = 40 then Goto 1 else if c = 41 then Goto 2
     else if c = 44 then Goto 3 else if c = 46 then Goto 4
     else if num_char c then Goto 10 else if c = 45 then Goto 12 else if c = 58 then Goto 5
     else if c = 78 then Goto 13 else if c = 100 then Goto 6 else if c = 114 then Goto 7 else if c = 115 then Goto 8
     else if text_char c then Goto 14 else Goto 11)"
proof (cases "9 \<le> c \<and> c \<le> 122")
  case True
  with row_T76 [OF this] show ?thesis by (simp add: dfa_step_def cdfa4_def at_def dfa4_tables)
next
  case False
  then have "dfa_step cdfa4 0 c = Goto 11" by (auto simp: dfa_step_def cdfa4_def at_def dfa4_tables)
  moreover have "\<not> num_char c" "\<not> text_char c" using False by (auto simp: num_char_def text_char_def)
  ultimately show ?thesis using False by auto
qed

lemma step_final:
  "dfa_step cdfa4 11 c = Alt 10" "dfa_step cdfa4 14 c = Alt 11" "dfa_step cdfa4 21 c = Alt 5" "dfa_step cdfa4 34 c = Alt 8"
  "dfa_step cdfa4 42 c = Alt 6" "dfa_step cdfa4 46 c = Alt 7" "dfa_step cdfa4 1 c = Alt 1" "dfa_step cdfa4 2 c = Alt 2"
  "dfa_step cdfa4 3 c = Alt 3" "dfa_step cdfa4 4 c = Alt 4" "dfa_step cdfa4 9 c = Alt 9"
  by (simp_all add: dfa_step_def cdfa4_def at_def dfa4_tables)

text \<open>The automaton follows the words: after a further letter it is in the state of the longer word.\<close>

lemma word_trie_closed: "map_of word_trie (w @ [c]) = Some s \<Longrightarrow> w = [] \<or> map_of word_trie w \<noteq> None"
proof -
  have "list_all (\<lambda>(w, s). butlast w = [] \<or> map_of word_trie (butlast w) \<noteq> None) word_trie" by code_simp
  moreover assume "map_of word_trie (w @ [c]) = Some s"
  ultimately show ?thesis using map_of_SomeD by (fastforce simp: list_all_iff)
qed

lemma num_words_not_trie: "w \<noteq> [] \<Longrightarrow> list_all num_char w \<Longrightarrow> map_of word_trie w = None"
proof -
  have "list_all (\<lambda>(w, s). \<not> list_all num_char w) word_trie" by code_simp
  then show "list_all num_char w \<Longrightarrow> map_of word_trie w = None"
    using map_of_SomeD [of word_trie w] by (cases "map_of word_trie w") (auto simp: list_all_iff)
qed

lemma word_trie_no_14: "list_all (\<lambda>(w, s). s \<noteq> 14) word_trie"
  by code_simp

lemma text_not_blank: "text_char c \<Longrightarrow> c \<notin> {9, 10, 13, 32, 40, 41, 44, 46}"
  by (auto simp: text_char_def)

lemma num_text_char: "num_char c \<Longrightarrow> text_char c"
  by (auto simp: text_char_def num_char_def)

lemma word_trie_step:
  assumes "text_char c"
  shows "list_all (\<lambda>(w, s). dfa_step cdfa4 s c = Goto (word_state (w @ [c]))) word_trie"
  using text_not_blank [OF assms] assms
  by (simp add: word_trie_def word_state_def num_char_def step_narrow step_35 step_15 step_29 step_38 step_43)

lemma word_step:
  assumes "text_char c" "word_state w \<noteq> 14"
  shows "dfa_step cdfa4 (word_state w) c = Goto (word_state (w @ [c]))"
proof -
  consider "w = []" | "w \<noteq> []" "list_all num_char w" | s where "w \<noteq> []" "\<not> list_all num_char w" "map_of word_trie w = Some s"
    using assms(2) by (fastforce simp: word_state_def)
  then show ?thesis
  proof cases
    case 1
    then show ?thesis using text_not_blank [OF assms(1)] assms(1)
      by (simp add: step_0 word_state_def word_trie_def num_char_def)
  next
    case 2
    then have "map_of word_trie (w @ [c]) = None"
      using word_trie_closed [of w c] num_words_not_trie by fastforce
    with 2 assms(1) show ?thesis by (auto simp: step_10 word_state_def)
  next
    case 3
    then have "word_state w = s" by (simp add: word_state_def)
    with 3 show ?thesis using word_trie_step [OF assms(1)] map_of_SomeD [of word_trie w s] by (fastforce simp: list_all_iff)
  qed
qed

lemma word_sink: "word_state w = 14 \<Longrightarrow> word_state (w @ v) = 14"
proof (induction v rule: rev_induct)
  case (snoc c v)
  then have i: "word_state (w @ v) = 14" by simp
  then have n: "w @ v \<noteq> []" "\<not> list_all num_char (w @ v)" by (auto simp only: word_state_def split: if_splits)
  have "map_of word_trie (w @ v) = None"
  proof (cases "map_of word_trie (w @ v)")
    case (Some s)
    with i n have "s = 14" by (simp only: word_state_def if_False option.case)
    with map_of_SomeD [OF Some] word_trie_no_14 show ?thesis by (auto simp only: list_all_iff)
  qed
  with n(1) word_trie_closed [of "w @ v" c] have "map_of word_trie ((w @ v) @ [c]) = None"
    by (cases "map_of word_trie ((w @ v) @ [c])") auto
  with n show ?case by (auto simp: word_state_def)
qed simp

section \<open>The classification of words\<close>

text \<open>The alternative of \<^verbatim>\<open>mTokens\<close> for a word.\<close>

definition word_alt :: "int list \<Rightarrow> int" where
  "word_alt w =
     (if list_all num_char w then 10
      else if w = lit_1 then 5 else if w = lit_2 then 6 else if w = lit_3 then 7 else if w = lit_4 then 8
      else 11)"

text \<open>
  \<^verbatim>\<open>Not\<close>, \<^verbatim>\<open>-----BEGIN\<close> and \<^verbatim>\<open>-----END\<close>: after one of these words and a blank, the automaton
  has given up the words and only accepts the rest of a header.
\<close>

definition cut_words :: "int list list" where
  "cut_words = [[78, 111, 116], [45, 45, 45, 45, 45, 66, 69, 71, 73, 78], [45, 45, 45, 45, 45, 69, 78, 68]]"

definition stops_with :: "int \<Rightarrow> int \<Rightarrow> int \<Rightarrow> bool" where
  "stops_with s d a \<longleftrightarrow> dfa_step cdfa4 s d = Alt a \<or>
     (\<exists>e \<in> {11, 14, 21, 34, 42, 46}. dfa_step cdfa4 s d = Goto e \<and> dfa_step cdfa4 e 0 = Alt a)"

lemma stops_with_run:
  assumes "stops_with s (case r of [] \<Rightarrow> -1 | c # cs \<Rightarrow> of_char c) a"
  shows "dfa_run cdfa4 s r = Some a"
proof -
  have acc: "dfa_step cdfa4 e 0 = Alt a \<Longrightarrow> dfa_run cdfa4 e cs = Some a \<and> at (dfa_accept cdfa4) e = a"
    if "e \<in> {11, 14, 21, 34, 42, 46}" for e cs
    using that by (cases cs) (auto simp: step_final, simp_all add: cdfa4_def at_def dfa4_accept_def)
  show ?thesis using assms acc by (cases r) (auto simp: stops_with_def split: dfa_action.split)
qed

lemma word_trie_stops:
  assumes "\<not> text_char d"
  shows "list_all (\<lambda>(w, s). (d = 32 \<and> w \<in> set cut_words) \<or> stops_with s d (word_alt w)) word_trie"
proof -
  have "d \<notin> {45, 66, 68, 69, 71, 73, 78, 97, 101, 105, 109, 111, 113, 115, 116, 117, 121}"
    using assms by (auto simp: text_char_def)
  then show ?thesis using assms
    by (simp add: word_trie_def stops_with_def cut_words_def word_alt_def num_char_def lit_1_def lit_2_def lit_3_def lit_4_def
        step_narrow step_35 step_15 step_29 step_38 step_43 step_final)
qed

lemma word_sink_alt: "w \<noteq> [] \<Longrightarrow> word_state w = 14 \<Longrightarrow> word_alt w = 11"
proof -
  have "word_state lit_1 = 15 \<and> word_state lit_2 = 38 \<and> word_state lit_3 = 43 \<and> word_state lit_4 = 29" by code_simp
  then show "w \<noteq> [] \<Longrightarrow> word_state w = 14 \<Longrightarrow> word_alt w = 11"
    by (auto simp: word_alt_def) (auto simp: word_state_def)
qed

lemma word_stops:
  assumes "w \<noteq> []" "\<not> text_char d" "d = 32 \<longrightarrow> w \<notin> set cut_words"
  shows "stops_with (word_state w) d (word_alt w)"
proof -
  consider "list_all num_char w" | "word_state w = 14" | s where "\<not> list_all num_char w" "map_of word_trie w = Some s"
    using assms(1) by (fastforce simp: word_state_def)
  then show ?thesis
  proof cases
    case 1
    then show ?thesis using assms(1,2) num_text_char [of d]
      by (auto simp: stops_with_def word_state_def word_alt_def step_10 step_final)
  next
    case 2
    then show ?thesis using word_sink_alt [OF assms(1)] by (simp add: stops_with_def step_final)
  next
    case 3
    then have "word_state w = s" using assms(1) by (simp add: word_state_def)
    with 3 map_of_SomeD [OF 3(2)] word_trie_stops [OF assms(2)] assms(3) show ?thesis by (fastforce simp: list_all_iff)
  qed
qed

lemma word_state_run:
  assumes "\<not> text_char (case r of [] \<Rightarrow> -1 | c # cs \<Rightarrow> of_char c)"
  shows "list_all text_char (codes w) \<Longrightarrow> p @ codes w \<noteq> [] \<Longrightarrow> (\<exists>cs. r = CHR '' '' # cs) \<longrightarrow> p @ codes w \<notin> set cut_words \<Longrightarrow>
    dfa_run cdfa4 (word_state p) (w @ r) = Some (word_alt (p @ codes w))"
proof (induction w arbitrary: p)
  case Nil
  have "stops_with (word_state p) (case r of [] \<Rightarrow> -1 | c # cs \<Rightarrow> of_char c) (word_alt p)"
  proof (rule word_stops)
    show "(case r of [] \<Rightarrow> -1 | c # cs \<Rightarrow> of_char c) = (32 :: int) \<longrightarrow> p \<notin> set cut_words"
      using Nil(3) of_char_32 by (cases r) auto
  qed (use Nil assms in auto)
  then show ?case by (auto dest: stops_with_run)
next
  case (Cons c w)
  show ?case
  proof (cases "word_state p = 14")
    case True
    have "word_state (p @ codes (c # w)) = 14" using word_sink [OF True] .
    from word_sink_alt [OF _ this] Cons.prems(2) True show ?thesis by (simp add: step_final)
  next
    case False
    have "dfa_step cdfa4 (word_state p) (of_char c) = Goto (word_state (p @ [of_char c]))"
      using word_step [OF _ False] Cons.prems(1) by simp
    with Cons.IH [of "p @ [of_char c]"] Cons.prems show ?thesis by simp
  qed
qed

definition word_end :: "string \<Rightarrow> string \<Rightarrow> bool" where
  "word_end w r \<longleftrightarrow> (case r of [] \<Rightarrow> True | c # cs \<Rightarrow> \<not> text_char (of_char c) \<and> (c = CHR '' '' \<longrightarrow> codes w \<notin> set cut_words))"

theorem word_run:
  assumes "w \<noteq> []" "list_all text_char (codes w)" "word_end w r"
  shows "dfa_run cdfa4 0 (w @ r) = Some (word_alt (codes w))"
proof -
  have "\<not> text_char (case r of [] \<Rightarrow> -1 | c # cs \<Rightarrow> of_char c)"
    using assms(3) by (cases r) (auto simp: word_end_def text_char_def)
  from word_state_run [OF this, of w "[]"] assms show ?thesis by (cases r) (auto simp: word_state_def word_end_def)
qed

end
