(* ===== verification/RM_Lexemes.thy ===== *)
theory RM_Lexemes
  imports RM_Words
begin

text \<open>
  What the generated lexer makes of a text. A text written as a sequence of lexemes is read
  back as exactly those lexemes, without errors. Two defects are proved: at a character
  outside the alphabet of the tokens the token buffer is filled for ever, and a carriage return
  followed by a line feed swallows the character after them.
\<close>

section \<open>Lexemes\<close>

datatype lexeme = Blank string | Mark char | Word string | Header int

text \<open>The headers by their alternative in \<^verbatim>\<open>mTokens\<close>.\<close>

definition header_table :: "(int \<times> int list \<times> nat) list" where
  "header_table =
    [(12, (lit_5, TK_CREDENTIAL_HEADER)),
     (13, (lit_6, TK_CREDENTIAL_END)),
     (14, (lit_7, TK_PUBLIC_KEY_HEADER)),
     (15, (lit_8, TK_PUBLIC_KEY_END)),
     (16, (lit_9, TK_SIGNATURE_HEADER)),
     (17, (lit_10, TK_SIGNATURE_END)),
     (18, (lit_11, TK_VALIDITY_HEADER)),
     (19, (lit_12, TK_VALIDITY_END)),
     (20, (lit_13, TK_CERT_HEADER)),
     (21, (lit_14, TK_CERT_END)),
     (22, (lit_15, TK_CHALLENGE_HEADER)),
     (23, (lit_16, TK_CHALLENGE_END)),
     (24, (lit_17, TK_RESPONSE_HEADER)),
     (25, (lit_18, TK_RESPONSE_END)),
     (26, (lit_19, TK_REQUEST_HEADER)),
     (27, (lit_20, TK_REQUEST_END)),
     (28, (lit_21, TK_REPLY_HEADER)),
     (29, (lit_22, TK_REPLY_END)),
     (30, (lit_23, TK_NOT_BEFORE)),
     (31, (lit_24, TK_NOT_AFTER))]"

definition header_lit :: "int \<Rightarrow> int list" where
  "header_lit a = (case map_of header_table a of Some (l, ty) \<Rightarrow> l | None \<Rightarrow> [])"

definition header_type :: "int \<Rightarrow> nat" where
  "header_type a = (case map_of header_table a of Some (l, ty) \<Rightarrow> ty | None \<Rightarrow> 0)"

definition word_type :: "string \<Rightarrow> nat" where
  "word_type w = (let a = word_alt (codes w) in
     if a = 10 then TK_NUM else if a = 5 then T__43 else if a = 6 then T__44 else if a = 7 then T__45
     else if a = 8 then T__46 else TK_TEXT)"

definition mark_alt :: "char \<Rightarrow> int" where
  "mark_alt c = (if c = CHR ''('' then 1 else if c = CHR '')'' then 2 else if c = CHR '','' then 3 else 4)"

definition mark_type :: "char \<Rightarrow> nat" where
  "mark_type c = (if c = CHR ''('' then T__39 else if c = CHR '')'' then T__40 else if c = CHR '','' then T__41 else T__42)"

definition blank_char :: "char \<Rightarrow> bool" where
  "blank_char c \<longleftrightarrow> c = CHR '' '' \<or> c = CHR 0x09 \<or> c = CHR 0x0A"

fun lexeme_text :: "lexeme \<Rightarrow> string" where
  "lexeme_text (Blank w) = w"
| "lexeme_text (Mark c) = [c]"
| "lexeme_text (Word w) = w"
| "lexeme_text (Header a) = map char_of (header_lit a)"

fun lexeme_alt :: "lexeme \<Rightarrow> int" where
  "lexeme_alt (Blank w) = 9"
| "lexeme_alt (Mark c) = mark_alt c"
| "lexeme_alt (Word w) = word_alt (codes w)"
| "lexeme_alt (Header a) = a"

fun lexeme_type :: "lexeme \<Rightarrow> nat" where
  "lexeme_type (Blank w) = TK_WS"
| "lexeme_type (Mark c) = mark_type c"
| "lexeme_type (Word w) = word_type w"
| "lexeme_type (Header a) = header_type a"

fun lexeme_channel :: "lexeme \<Rightarrow> nat" where
  "lexeme_channel (Blank w) = 99"
| "lexeme_channel _ = ANTLR3_TOKEN_DEFAULT_CHANNEL"

text \<open>When a lexeme may stand before a text.\<close>

fun fits :: "lexeme \<Rightarrow> string \<Rightarrow> bool" where
  "fits (Blank w) r \<longleftrightarrow> w \<noteq> [] \<and> list_all blank_char w \<and> (case r of [] \<Rightarrow> True | c # cs \<Rightarrow> \<not> blank_char c \<and> c \<noteq> CHR 0x0D)"
| "fits (Mark c) r \<longleftrightarrow> c \<in> {CHR ''('', CHR '')'', CHR '','', CHR ''.''}"
| "fits (Word w) r \<longleftrightarrow> w \<noteq> [] \<and> list_all text_char (codes w) \<and> word_end w r"
| "fits (Header a) r \<longleftrightarrow> map_of header_table a \<noteq> None"

definition render :: "lexeme list \<Rightarrow> string" where
  "render ls = concat (map lexeme_text ls)"

fun well_spaced :: "lexeme list \<Rightarrow> string \<Rightarrow> bool" where
  "well_spaced [] r = True"
| "well_spaced (l # ls) r = (fits l (render ls @ r) \<and> well_spaced ls r)"

lemma render_simps [simp]: "render [] = []" "render (l # ls) = lexeme_text l @ render ls"
  by (simp_all add: render_def)

section \<open>The rules on lexemes\<close>

definition advanced :: "lexer \<Rightarrow> string \<Rightarrow> lexer \<Rightarrow> bool" where
  "advanced lx r lx' \<longleftrightarrow> lx_rest lx' = r \<and> lx_error lx' = lx_error lx \<and> lx_channel lx' = lx_channel lx \<and>
     lx_errorCount lx' = lx_errorCount lx"

lemma advanced_consume: "lx_rest lx = c # r \<Longrightarrow> advanced lx r ((lx_consume lx)\<lparr>lx_failed := False\<rparr>)"
  using lx_consume_Cons(2) [of lx c r] by (simp add: advanced_def lx_consume_def)

lemma advanced_trans: "advanced lx r lx1 \<Longrightarrow> advanced lx1 r' lx2 \<Longrightarrow> advanced lx r' lx2"
  by (simp add: advanced_def)

lemma advanced_rest: "advanced lx r lx' \<Longrightarrow> lx_rest lx' = r"
  by (simp add: advanced_def)

lemma matchc_advances: "lx_rest lx = c # r \<Longrightarrow> advanced lx r (matchc (of_char c) lx)"
  by (simp add: matchc_def advanced_consume)

lemma matchs_advances: "lx_rest lx = w @ r \<Longrightarrow> advanced lx r (matchs (codes w) lx)"
proof (induction w arbitrary: lx)
  case Nil
  then show ?case by (simp add: advanced_def)
next
  case (Cons c w)
  then have a: "advanced lx (w @ r) ((lx_consume lx)\<lparr>lx_failed := False\<rparr>)" by (simp add: advanced_consume)
  from Cons.IH [OF advanced_rest [OF a]] advanced_trans [OF a] Cons.prems show ?case by simp
qed

lemma span_advances:
  assumes "case r of [] \<Rightarrow> True | c # cs \<Rightarrow> \<not> P (of_char c)"
  shows "lx_rest lx = w @ r \<Longrightarrow> list_all P (codes w) \<Longrightarrow> advanced lx r (span_loop P lx)"
proof (induction w arbitrary: lx)
  case Nil
  then show ?case using assms by (cases r) (simp_all add: advanced_def span_loop.simps)
next
  case (Cons c w)
  then have a: "advanced lx (w @ r) (lx_consume lx)"
    using advanced_consume [of lx c "w @ r"] by (simp add: advanced_def)
  from Cons.IH [OF advanced_rest [OF a]] advanced_trans [OF a] Cons.prems show ?case
    by (subst span_loop.simps) simp
qed

lemma blank_code: "blank_char c \<Longrightarrow> (of_char c :: int) = 32 \<or> (of_char c :: int) = 9 \<or> (of_char c :: int) = 10"
  by (auto simp: blank_char_def)

lemma not_blank_code:
  assumes "\<not> blank_char c" "c \<noteq> CHR 0x0D"
  shows "(of_char c :: int) \<notin> {32, 9, 10, 13}"
proof -
  have "(of_char c :: int) = of_char d \<longleftrightarrow> c = d" for d by (rule of_char_eq_iff)
  from this [of "CHR '' ''"] this [of "CHR 0x09"] this [of "CHR 0x0A"] this [of "CHR 0x0D"] show ?thesis
    using assms by (simp add: blank_char_def)
qed

lemma ws_advances:
  assumes "case r of [] \<Rightarrow> True | c # cs \<Rightarrow> \<not> blank_char c \<and> c \<noteq> CHR 0x0D"
  shows "lx_rest lx = w @ r \<Longrightarrow> list_all blank_char w \<Longrightarrow> w \<noteq> [] \<or> 1 \<le> cnt \<Longrightarrow> advanced lx r (ws_loop cnt lx)"
proof (induction w arbitrary: lx cnt)
  case Nil
  then have "LA1 lx \<notin> {32, 9, 10, 13}"
    using assms not_blank_code by (cases r) (auto simp: ANTLR3_CHARSTREAM_EOF_def)
  with Nil show ?case by (subst ws_loop.simps) (simp add: advanced_def)
next
  case (Cons c w)
  then have a: "advanced lx (w @ r) ((lx_consume lx)\<lparr>lx_failed := False\<rparr>)" by (simp add: advanced_consume)
  have "LA1 lx = 32 \<or> LA1 lx = 9 \<or> LA1 lx = 10" using Cons.prems blank_code by simp
  with Cons.IH [OF advanced_rest [OF a], of "cnt + 1"] advanced_trans [OF a] Cons.prems(2) show ?case
    by (subst ws_loop.simps) simp
qed


definition read_as :: "lexer \<Rightarrow> string \<Rightarrow> nat \<Rightarrow> nat \<Rightarrow> lexer \<Rightarrow> bool" where
  "read_as lx r ty ch lx' \<longleftrightarrow> lx_rest lx' = r \<and> \<not> lx_error lx' \<and> lx_type lx' = ty \<and> lx_channel lx' = ch \<and>
     lx_errorCount lx' = lx_errorCount lx"

lemma lex_rule_reads:
  "advanced lx r (f lx) \<Longrightarrow> \<not> lx_error lx \<Longrightarrow> read_as lx r ty (lx_channel lx) (lex_rule ty f lx)"
  by (simp add: lex_rule_def advanced_def read_as_def)

lemma ws_reads:
  assumes "fits (Blank w) r" "lx_rest lx = w @ r" "\<not> lx_error lx"
  shows "read_as lx r TK_WS 99 (mWS lx)"
proof -
  have "advanced lx r (ws_loop 0 lx)" using assms ws_advances by auto
  with assms(3) show ?thesis by (simp add: mWS_def Let_def advanced_def read_as_def)
qed

lemma mark_reads:
  assumes "fits (Mark c) r" "lx_rest lx = c # r" "\<not> lx_error lx"
  shows "read_as lx r (mark_type c) (lx_channel lx) (token_rule (mark_alt c) lx)"
proof -
  note m = lex_rule_reads [where f = "matchc (of_char c)", OF matchc_advances [OF assms(2)] assms(3)]
  from assms(1) m show ?thesis
    by (auto simp: mark_alt_def mark_type_def token_rule_def rule_defs)
qed

lemma codes_lit: "codes w = l \<Longrightarrow> lx_rest lx = w @ r \<Longrightarrow> \<not> lx_error lx \<Longrightarrow>
    read_as lx r ty (lx_channel lx) (lex_rule ty (matchs l) lx)"
  using lex_rule_reads [where f = "matchs (codes w)", OF matchs_advances] by blast

lemma word_reads:
  assumes "fits (Word w) r" "lx_rest lx = w @ r" "\<not> lx_error lx"
  shows "read_as lx r (word_type w) (lx_channel lx) (token_rule (word_alt (codes w)) lx)"
proof -
  have e: "case r of [] \<Rightarrow> True | c # cs \<Rightarrow> \<not> text_char (of_char c)" "case r of [] \<Rightarrow> True | c # cs \<Rightarrow> \<not> num_char (of_char c)"
    using assms(1) num_text_char by (auto simp: word_end_def split: list.splits)
  have t: "read_as lx r TK_TEXT (lx_channel lx) (lex_rule TK_TEXT (span_loop text_char) lx)"
    using assms(1) by (intro lex_rule_reads span_advances [OF e(1) assms(2)] assms(3)) simp
  have n: "read_as lx r TK_NUM (lx_channel lx) (lex_rule TK_NUM (span_loop num_char) lx)" if "list_all num_char (codes w)"
    using that by (intro lex_rule_reads span_advances [OF e(2) assms(2)] assms(3))
  note l = codes_lit [OF _ assms(2,3)]
  show ?thesis
    using t n l [of lit_1 T__43] l [of lit_2 T__44] l [of lit_3 T__45] l [of lit_4 T__46]
    by (simp add: word_alt_def word_type_def token_rule_def rule_defs)
qed

lemma header_codes: "map_of header_table a = Some (l, ty) \<Longrightarrow> codes (map char_of l) = l"
proof -
  have "list_all (\<lambda>(a, l, ty). list_all (\<lambda>c. 0 \<le> c \<and> c < 256) l) header_table" by code_simp
  moreover assume "map_of header_table a = Some (l, ty)"
  ultimately have "list_all (\<lambda>c. 0 \<le> c \<and> c < 256) l" using map_of_SomeD by (fastforce simp: list_all_iff)
  then show ?thesis by (induction l) (simp_all add: of_char_of)
qed

lemma header_scan: "map_of header_table a = Some (l, ty) \<Longrightarrow> dfa_scan cdfa4 0 l = Alt a"
proof -
  have "list_all (\<lambda>(a, l, ty). dfa_scan cdfa4 0 l = Alt a) header_table" by code_simp
  then show "map_of header_table a = Some (l, ty) \<Longrightarrow> dfa_scan cdfa4 0 l = Alt a"
    using map_of_SomeD by (fastforce simp: list_all_iff)
qed

lemma header_rule: "map_of header_table a = Some (l, ty) \<Longrightarrow> token_rule a lx = lex_rule ty (matchs l) lx"
proof -
  have "list_all (\<lambda>(a, l, ty). token_rule a lx = lex_rule ty (matchs l) lx) header_table"
    by (simp add: header_table_def token_rule_def rule_defs)
  then show "map_of header_table a = Some (l, ty) \<Longrightarrow> token_rule a lx = lex_rule ty (matchs l) lx"
    using map_of_SomeD by (fastforce simp: list_all_iff)
qed

lemma header_reads:
  assumes "fits (Header a) r" "lx_rest lx = lexeme_text (Header a) @ r" "\<not> lx_error lx"
  shows "read_as lx r (header_type a) (lx_channel lx) (token_rule a lx)"
proof -
  obtain l ty where m: "map_of header_table a = Some (l, ty)" using assms(1) by auto
  then have "lexeme_text (Header a) = map char_of l" "header_type a = ty" by (simp_all add: header_lit_def header_type_def)
  with codes_lit [OF header_codes [OF m] _ assms(3)] assms(2) header_rule [OF m] show ?thesis by simp
qed

text \<open>On a fitting lexeme, the automaton chooses its rule and the rule reads just the lexeme.\<close>

lemma lexeme_predicted:
  assumes "fits l r"
  shows "dfa_run cdfa4 0 (lexeme_text l @ r) = Some (lexeme_alt l)"
proof (cases l)
  case (Blank w)
  with assms obtain c v where w: "w = c # v" "blank_char c" by (cases w) auto
  then have "dfa_step cdfa4 0 (of_char c) = Goto 9" using blank_code [of c] by (auto simp: step_0)
  moreover have "dfa_run cdfa4 9 (v @ r) = Some 9" by (cases "v @ r") (simp_all add: step_final)
  ultimately show ?thesis using Blank w by simp
next
  case (Mark c)
  have "dfa_run cdfa4 k r = Some k" if "k \<in> {1, 2, 3, 4}" for k using that by (cases r) (auto simp: step_final)
  moreover from assms Mark consider "c = CHR ''(''" | "c = CHR '')''" | "c = CHR '',''" | "c = CHR ''.''" by auto
  then have "dfa_step cdfa4 0 (of_char c) = Goto (mark_alt c) \<and> mark_alt c \<in> {1, 2, 3, 4}"
    by cases (simp_all add: mark_alt_def step_0)
  ultimately show ?thesis using Mark by simp
next
  case (Word w)
  with assms show ?thesis by (simp add: word_run)
next
  case (Header a)
  with assms obtain b ty where m: "map_of header_table a = Some (b, ty)" by auto
  with Header header_scan [OF m] header_codes [OF m] show ?thesis by (simp add: dfa_scan_run header_lit_def)
qed

lemma lexeme_read:
  assumes "fits l r" "lx_rest lx = lexeme_text l @ r"
  shows "\<exists>lx'. mTokens (start_token lx) = Some lx' \<and> read_as (start_token lx) r (lexeme_type l) (lexeme_channel l) lx'"
proof -
  let ?lx = "start_token lx"
  have lx: "lx_rest ?lx = lexeme_text l @ r" "\<not> lx_error ?lx" "lx_channel ?lx = ANTLR3_TOKEN_DEFAULT_CHANNEL"
    using assms(2) by (simp_all add: start_token_def)
  have "mTokens ?lx = Some (token_rule (lexeme_alt l) ?lx)"
    using lexeme_predicted [OF assms(1)] lx(1) by (simp add: mTokens_run)
  moreover have "read_as ?lx r (lexeme_type l) (lexeme_channel l) (token_rule (lexeme_alt l) ?lx)"
  proof (cases l)
    case (Blank w)
    with ws_reads [of w r ?lx] assms(1) lx show ?thesis by (simp add: token_rule_def)
  next
    case (Mark c)
    with mark_reads [of c r ?lx] assms(1) lx show ?thesis by simp
  next
    case (Word w)
    with word_reads [of w r ?lx] assms(1) lx show ?thesis by simp
  next
    case (Header a)
    with header_reads [of a r ?lx] assms(1) lx show ?thesis by simp
  qed
  ultimately show ?thesis by blast
qed


section \<open>Texts\<close>

definition token_view :: "token \<Rightarrow> nat \<times> string \<times> nat" where
  "token_view t = (tk_type t, tk_text t, tk_channel t)"

definition lexeme_token :: "lexeme \<Rightarrow> nat \<times> string \<times> nat" where
  "lexeme_token l = (lexeme_type l, lexeme_text l, lexeme_channel l)"

lemmas lit_defs =
  lit_5_def lit_6_def lit_7_def lit_8_def lit_9_def lit_10_def lit_11_def lit_12_def lit_13_def lit_14_def
  lit_15_def lit_16_def lit_17_def lit_18_def lit_19_def lit_20_def lit_21_def lit_22_def lit_23_def lit_24_def

lemma header_literals: "map_of header_table a = Some (l, ty) \<Longrightarrow> l \<noteq> [] \<and> ty \<noteq> ANTLR3_TOKEN_EOF"
proof -
  have "list_all (\<lambda>(a, l, ty). l \<noteq> [] \<and> ty \<noteq> ANTLR3_TOKEN_EOF) header_table"
    by (simp add: header_table_def token_types ANTLR3_TOKEN_EOF_def lit_defs)
  then show "map_of header_table a = Some (l, ty) \<Longrightarrow> l \<noteq> [] \<and> ty \<noteq> ANTLR3_TOKEN_EOF"
    using map_of_SomeD by (fastforce simp: list_all_iff)
qed

lemma word_type_proper: "word_type w \<noteq> ANTLR3_TOKEN_EOF"
  by (simp add: word_type_def Let_def token_types ANTLR3_TOKEN_EOF_def)

lemma lexeme_proper:
  assumes "fits l r"
  shows "lexeme_text l \<noteq> []" "lexeme_type l \<noteq> ANTLR3_TOKEN_EOF"
proof -
  have "lexeme_text l \<noteq> [] \<and> lexeme_type l \<noteq> ANTLR3_TOKEN_EOF"
  proof (cases l)
    case (Header a)
    with assms header_literals [of a] show ?thesis by (auto simp: header_lit_def header_type_def)
  next
    case (Word w)
    with assms word_type_proper show ?thesis by simp
  qed (use assms in \<open>auto simp: mark_type_def token_types ANTLR3_TOKEN_EOF_def\<close>)
  then show "lexeme_text l \<noteq> []" "lexeme_type l \<noteq> ANTLR3_TOKEN_EOF" by auto
qed

text \<open>The buffer is filled with the tokens of the lexemes, up to what follows them.\<close>

lemma fillBuffer_lexemes:
  "well_spaced ls r \<Longrightarrow> lx_rest lx = render ls @ r \<Longrightarrow> in_bounds lx \<Longrightarrow>
    \<exists>ts lx'. fillBuffer mTokens lx toks = fillBuffer mTokens lx' (toks @ ts) \<and> lx_rest lx' = r \<and> in_bounds lx' \<and>
      lx_errorCount lx' = lx_errorCount lx \<and> map token_view ts = map lexeme_token ls \<and>
      map tk_index ts = [length toks..<length toks + length ls]"
proof (induction ls arbitrary: lx toks)
  case Nil
  then show ?case by (intro exI [of _ "[]"] exI [of _ lx]) simp
next
  case (Cons l ls)
  let ?s = "render ls @ r"
  have f: "fits l ?s" and rest: "lx_rest lx = lexeme_text l @ ?s" using Cons.prems by simp_all
  from lexeme_read [OF f rest] obtain lx2 where lx2: "mTokens (start_token lx) = Some lx2"
    and rd: "read_as (start_token lx) ?s (lexeme_type l) (lexeme_channel l) lx2" by blast
  have "lx_rest lx \<noteq> []" "\<not> lx_error lx2" "lx_type lx2 \<noteq> ANTLR3_TOKEN_EOF"
    using rest lexeme_proper [OF f] rd by (simp_all add: read_as_def)
  from rm.fillBuffer_token [OF this(1) Cons.prems(3) lx2 this(2,3), of toks] obtain t where
    t: "fillBuffer mTokens lx toks = fillBuffer mTokens (emit lx2) (toks @ [t])" "in_bounds (emit lx2)"
      "tk_index t = length toks" "lx_rest lx = tk_text t @ lx_rest lx2" "tk_type t = lx_type lx2" "tk_channel t = lx_channel lx2"
    by blast
  have "tk_text t = lexeme_text l" using t(4) rest rd by (simp add: read_as_def)
  then have v: "token_view t = lexeme_token l" using t rd by (simp add: token_view_def lexeme_token_def read_as_def)
  have e: "lx_rest (emit lx2) = ?s" "lx_errorCount (emit lx2) = lx_errorCount lx"
    using rd by (simp_all add: read_as_def start_token_def emit_def)
  from Cons.IH [OF _ e(1) t(2), of "toks @ [t]"] Cons.prems(1) obtain ts lx' where
    "fillBuffer mTokens (emit lx2) (toks @ [t]) = fillBuffer mTokens lx' ((toks @ [t]) @ ts)" "lx_rest lx' = r" "in_bounds lx'"
    "lx_errorCount lx' = lx_errorCount (emit lx2)" "map token_view ts = map lexeme_token ls"
    "map tk_index ts = [length (toks @ [t])..<length (toks @ [t]) + length ls]" by auto
  with t(1,3) v e(2) show ?case
    by (intro exI [of _ "t # ts"] exI [of _ lx']) (simp add: upt_conv_Cons del: upt_Suc)
qed

lemma lexer_new_state [simp]: "lx_rest (lexer_new s) = s" "in_bounds (lexer_new s)" "lx_errorCount (lexer_new s) = 0"
  by (simp_all add: lexer_new_def antlr3InputReset_def in_bounds_def)

lemma buffer_of_lexemes:
  assumes "well_spaced ls []"
  shows "\<exists>ts lx'. fillBuffer mTokens (lexer_new (render ls)) [] = Some (ts, lx') \<and> lx_errorCount lx' = 0 \<and>
    map token_view ts = map lexeme_token ls \<and> map tk_index ts = [0..<length ls]"
proof -
  from fillBuffer_lexemes [OF assms, of "lexer_new (render ls)" "[]"] obtain ts lx' where
    "fillBuffer mTokens (lexer_new (render ls)) [] = fillBuffer mTokens lx' ts" "lx_rest lx' = []" "lx_errorCount lx' = 0"
    "map token_view ts = map lexeme_token ls" "map tk_index ts = [0..<length ls]" by auto
  with rm.fillBuffer_eof [of lx' ts] show ?thesis by (simp add: start_token_def)
qed

text \<open>
  C10. A text written as a sequence of lexemes is read without errors, and the tokens in the buffer
  are the lexemes, numbered from zero: the words are classified by longest match into key words,
  numbers and texts, blanks go to the hidden channel, and the headers are recognised.
\<close>

theorem lexer_reads_lexemes:
  assumes "well_spaced ls []"
  shows "\<exists>ts lx'. fillBuffer mTokens (lexer_new (render ls)) [] = Some (ts, lx') \<and> lx_errorCount lx' = 0 \<and>
    map token_view ts = map lexeme_token ls \<and> map tk_index ts = [0..<length ls]"
  by (rule buffer_of_lexemes [OF assms])

definition example_lexemes :: "lexeme list" where
  "example_lexemes = [Header 26, Blank [CHR 0x0A], Word ''request'', Mark CHR ''('', Word ''read'', Mark CHR '','',
     Word ''file1'', Mark CHR '')'', Blank [CHR 0x0A], Word ''2012'', Blank '' '', Word '':-'', Blank '' '', Word '':-x'',
     Blank [CHR 0x0A], Header 27]"

lemma example_spaced: "well_spaced example_lexemes []"
  by code_simp

theorem lexer_reads_lexemes_witness:
  "\<exists>ts lx'. fillBuffer mTokens (lexer_new (render example_lexemes)) [] = Some (ts, lx') \<and>
    map tk_type ts = [TK_REQUEST_HEADER, TK_WS, T__45, T__39, TK_TEXT, T__41, TK_TEXT, T__40, TK_WS, TK_NUM, TK_WS, T__43,
      TK_WS, TK_TEXT, TK_WS, TK_REQUEST_END]"
proof -
  from lexer_reads_lexemes [OF example_spaced] obtain ts lx' where
    r: "fillBuffer mTokens (lexer_new (render example_lexemes)) [] = Some (ts, lx')" "map token_view ts = map lexeme_token example_lexemes"
    by blast
  have "map tk_type ts = map fst (map token_view ts)" by (simp add: token_view_def comp_def)
  also have "\<dots> = map lexeme_type example_lexemes" by (simp add: r(2) lexeme_token_def comp_def)
  also have "\<dots> = [TK_REQUEST_HEADER, TK_WS, T__45, T__39, TK_TEXT, T__41, TK_TEXT, T__40, TK_WS, TK_NUM, TK_WS, T__43,
      TK_WS, TK_TEXT, TK_WS, TK_REQUEST_END]" by code_simp
  finally show ?thesis using r(1) by (intro exI conjI)
qed

section \<open>Defects\<close>

text \<open>A character that no token contains.\<close>

definition stray :: "char \<Rightarrow> bool" where
  "stray c \<longleftrightarrow> \<not> text_char (of_char c) \<and> \<not> blank_char c \<and> c \<notin> {CHR 0x0D, CHR ''('', CHR '')'', CHR '','', CHR ''.''}"

lemma stray_step:
  assumes "stray c"
  shows "dfa_run cdfa4 0 (c # s) = Some 10"
proof -
  have "(of_char c :: int) = of_char d \<longleftrightarrow> c = d" for d by (rule of_char_eq_iff)
  from this [of "CHR ''(''"] this [of "CHR '')''"] this [of "CHR '',''"] this [of "CHR ''.''"]
  have m: "of_char c \<noteq> (40 :: int)" "of_char c \<noteq> (41 :: int)" "of_char c \<noteq> (44 :: int)" "of_char c \<noteq> (46 :: int)"
    using assms by (simp_all add: stray_def)
  have b: "(of_char c :: int) \<notin> {32, 9, 10, 13}" using assms by (intro not_blank_code) (auto simp: stray_def)
  have t: "\<not> text_char (of_char c)" using assms by (simp add: stray_def)
  then have "\<not> num_char (of_char c)" "(of_char c :: int) \<notin> {45, 58, 78, 100, 114, 115}"
    using num_text_char by (auto simp: text_char_def)
  with t m b have "dfa_step cdfa4 0 (of_char c) = Goto 11" by (simp add: step_0)
  then show ?thesis by (cases s) (simp_all add: step_final)
qed

lemma stray_stuck:
  assumes "stray c" "lx_rest lx = c # s"
  shows "\<exists>lx'. mTokens (start_token lx) = Some lx' \<and> \<not> lx_error lx' \<and> lx_rest lx' = c # s \<and> lx_type lx' \<noteq> ANTLR3_TOKEN_EOF"
proof -
  let ?lx = "start_token lx"
  have "\<not> num_char (of_char c)" using assms(1) num_text_char by (auto simp: stray_def)
  then have "span_loop num_char ?lx = ?lx" using assms(2) by (simp add: span_loop.simps)
  then have "mTokens ?lx = Some (?lx\<lparr>lx_type := TK_NUM\<rparr>)"
    using stray_step [OF assms(1)] assms(2) by (simp add: mTokens_run token_rule_def mNUM_def lex_rule_def Let_def)
  with assms(2) show ?thesis by (simp add: TK_NUM_def ANTLR3_TOKEN_EOF_def)
qed

text \<open>
  If the lexer gets to a character outside the alphabet of its tokens, such as a hash or a
  quotation mark, then the rule for numbers, which accepts the empty text, matches there again and
  again: the call that fills the token buffer does not return.
\<close>

lemma lexer_stuck_at_stray:
  assumes "well_spaced ls (c # s)" "stray c"
  shows "fillBuffer mTokens (lexer_new (render ls @ c # s)) [] = None"
proof -
  from fillBuffer_lexemes [OF assms(1), of "lexer_new (render ls @ c # s)" "[]"] obtain ts lx' where
    f: "fillBuffer mTokens (lexer_new (render ls @ c # s)) [] = fillBuffer mTokens lx' ts" "lx_rest lx' = c # s" by auto
  have "fillBuffer mTokens lx' ts = None"
    by (rule rm.fillBuffer_stuck [OF _ _ f(2)]) (use stray_stuck [OF assms(2)] in auto)
  with f(1) show ?thesis by simp
qed

text \<open>
  The rule for blanks expects a form feed after a carriage return. At a carriage return and a line
  feed it fails, and two recoveries, one in the match and one in the fetching of tokens, remove
  the line feed and the character after it: the next token is that of the text without them.
\<close>

theorem lexer_crlf_swallows:
  assumes "lx_rest lx = CHR 0x0D # CHR 0x0A # c # s"
  shows "\<exists>lx'. nextToken mTokens lx = nextToken mTokens lx' \<and> lx_rest lx' = s \<and> lx_errorCount lx' = lx_errorCount lx + 1"
proof -
  let ?lx = "start_token lx"
  let ?lx1 = "(lx_consume ?lx)\<lparr>lx_failed := False\<rparr>"
  have r: "lx_rest ?lx = CHR 0x0D # CHR 0x0A # c # s" using assms by simp
  have r1: "lx_rest ?lx1 = CHR 0x0A # c # s" using lx_consume_Cons(2) [OF r] by simp
  let ?lx2 = "lx_recover (exConstruct ?lx1)"
  have m: "matchc 12 ?lx1 = ?lx2" using LA1_Cons [OF r1] by (simp add: matchc_def)
  have r2: "lx_rest ?lx2 = c # s"
    using lx_consume_Cons(2) [OF r1] by (simp add: lx_recover_def exConstruct_def lx_consume_def)
  have e2: "lx_error ?lx2" by (simp add: lx_recover_def exConstruct_def lx_consume_def)
  have "ws_loop 0 ?lx = ?lx2" using LA1_Cons [OF r] m e2 by (subst ws_loop.simps) (simp add: Let_def)
  moreover have "dfa_run cdfa4 0 (CHR 0x0D # CHR 0x0A # c # s) = Some 9" by (simp add: step_0 step_final)
  ultimately have t: "mTokens ?lx = Some ?lx2" using assms e2 by (simp add: mTokens_run token_rule_def mWS_def Let_def)
  let ?lx3 = "lx_recover (reportError (?lx2\<lparr>lx_failed := True\<rparr>))"
  have "nextToken mTokens lx = nextToken mTokens ?lx3"
    unfolding nextToken_def using assms by (intro rm.nextTokenStr_error [OF _ t e2]) simp
  moreover have "lx_rest ?lx3 = s" using lx_consume_Cons(2) [OF r2] by (simp add: lx_recover_def reportError_def lx_consume_def)
  moreover have "lx_errorCount ?lx3 = lx_errorCount lx + 1"
    by (simp add: lx_recover_def reportError_def lx_consume_def exConstruct_def start_token_def)
  ultimately show ?thesis by blast
qed

theorem lexer_crlf_swallows_witness:
  "\<exists>lx'. nextToken mTokens (lexer_new (CHR 0x0D # CHR 0x0A # ''-x'')) = nextToken mTokens lx' \<and> lx_rest lx' = ''x''"
  using lexer_crlf_swallows [of "lexer_new (CHR 0x0D # CHR 0x0A # ''-x'')" "CHR ''-''" "''x''"] by fastforce

text \<open>
  Fetching a token returns for every text and position, after any number of lexical errors; the
  token is the end marker at the end of the text, or the text it carries is what the input has
  between the skipped characters and the new position.
\<close>

theorem nextToken_returns:
  assumes "in_next (lx_input lx) \<le> length (in_data (lx_input lx))"
  shows "\<exists>tok lx'. nextToken mTokens lx = Some (tok, lx') \<and>
    ((lx_rest lx' = [] \<and> tk_type tok = ANTLR3_TOKEN_EOF) \<or> (\<exists>skipped. lx_rest lx = skipped @ tk_text tok @ lx_rest lx'))"
  using rm.nextTokenStr_returns [of lx] assms unfolding nextToken_def in_bounds_def by blast

theorem nextToken_returns_witness:
  "\<exists>tok lx'. nextToken mTokens (lexer_new ''#'') = Some (tok, lx') \<and>
    ((lx_rest lx' = [] \<and> tk_type tok = ANTLR3_TOKEN_EOF) \<or> (\<exists>skipped. lx_rest (lexer_new ''#'') = skipped @ tk_text tok @ lx_rest lx'))"
  using nextToken_returns [of "lexer_new ''#''"] by (simp add: lexer_new_def antlr3InputReset_def)

end
