(* ===== verification/RM_Lexer_Types.thy ===== *)
theory RM_Lexer_Types
  imports RM_Lexemes Antlr_TokenStream
begin

text \<open>
  The types of the tokens: whatever the text, every token that gets into the buffer is what the lexer rule of its type in
  the grammar \<^verbatim>\<open>src/src/parser/RepositoryManager.g\<close> describes, and is on the channel on which this
  rule puts its tokens. The parser and its automaton rely on the range of the types.
\<close>

section \<open>The lexer rules of the grammar\<close>

text \<open>The rules that match one literal, in the order of the alternatives of \<^verbatim>\<open>mTokens\<close>.\<close>

definition grammar_literals :: "(nat \<times> string) list" where
  "grammar_literals =
    [(T__39, ''(''), (T__40, '')''), (T__41, '',''), (T__42, ''.''),
     (T__43, '':-''), (T__44, ''datime''), (T__45, ''request''), (T__46, ''says''),
     (TK_CREDENTIAL_HEADER, ''-----BEGIN MPKI CREDENTIAL-----''), (TK_CREDENTIAL_END, ''-----END MPKI CREDENTIAL-----''),
     (TK_PUBLIC_KEY_HEADER, ''-----BEGIN PUBLIC KEY-----''), (TK_PUBLIC_KEY_END, ''-----END PUBLIC KEY-----''),
     (TK_SIGNATURE_HEADER, ''-----BEGIN SIGNATURE-----''), (TK_SIGNATURE_END, ''-----END SIGNATURE-----''),
     (TK_VALIDITY_HEADER, ''-----BEGIN VALIDITY-----''), (TK_VALIDITY_END, ''-----END VALIDITY-----''),
     (TK_CERT_HEADER, ''-----BEGIN MPKI CERTIFICATE-----''), (TK_CERT_END, ''-----END MPKI CERTIFICATE-----''),
     (TK_CHALLENGE_HEADER, ''-----BEGIN MPKI CHALLENGE-----''), (TK_CHALLENGE_END, ''-----END MPKI CHALLENGE-----''),
     (TK_RESPONSE_HEADER, ''-----BEGIN MPKI CHALLENGE RESPONSE-----''), (TK_RESPONSE_END, ''-----END MPKI CHALLENGE RESPONSE-----''),
     (TK_REQUEST_HEADER, ''-----BEGIN REPOSITORY CLIENT REQUEST-----''), (TK_REQUEST_END, ''-----END REPOSITORY CLIENT REQUEST-----''),
     (TK_REPLY_HEADER, ''-----BEGIN REPOSITORY SERVER REPLY-----''), (TK_REPLY_END, ''-----END REPOSITORY SERVER REPLY-----''),
     (TK_NOT_BEFORE, ''Not before:''), (TK_NOT_AFTER, ''Not after:'')]"

definition digit :: "char \<Rightarrow> bool" where
  "digit c \<longleftrightarrow> c \<in> set ''0123456789''"

definition letter :: "char \<Rightarrow> bool" where
  "letter c \<longleftrightarrow> c \<in> set ''abcdefghijklmnopqrstuvwxyzABCDEFGHIJKLMNOPQRSTUVWXYZ0123456789/+=_-:''"

text \<open>Blanks, tabulators, line feeds, and carriage returns with a form feed.\<close>

fun blank_text :: "string \<Rightarrow> bool" where
  "blank_text [] = True"
| "blank_text (c # cs) =
     (if c \<in> {CHR '' '', CHR 0x09, CHR 0x0A} then blank_text cs
      else c = CHR 0x0D \<and> (case cs of [] \<Rightarrow> False | d # ds \<Rightarrow> d = CHR 0x0C \<and> blank_text ds))"

text \<open>
  What a token of a type may be, and on which channel: blanks on the hidden one, and on the default channel digits for
  a number, letters that are neither a number nor a key word for a text, and the literal itself for the other types.
  None of them is empty.
\<close>

definition well_typed :: "nat \<Rightarrow> string \<Rightarrow> nat \<Rightarrow> bool" where
  "well_typed ty w ch \<longleftrightarrow> w \<noteq> '''' \<and>
     (if ty = TK_WS then blank_text w \<and> ch = 99
      else ch = ANTLR3_TOKEN_DEFAULT_CHANNEL \<and>
        (if ty = TK_NUM then list_all digit w
         else if ty = TK_TEXT then list_all letter w \<and> \<not> list_all digit w \<and> w \<notin> snd ` set grammar_literals
         else (ty, w) \<in> set grammar_literals))"

definition token_typed :: "token \<Rightarrow> bool" where
  "token_typed t \<longleftrightarrow> well_typed (tk_type t) (tk_text t) (tk_channel t)"

section \<open>The characters\<close>

lemma char_range: "list_all (\<lambda>n. P (char_of n)) [a..b] \<Longrightarrow> a \<le> (of_char c :: int) \<and> of_char c \<le> b \<Longrightarrow> P c"
proof -
  assume "list_all (\<lambda>n. P (char_of n)) [a..b]" "a \<le> (of_char c :: int) \<and> of_char c \<le> b"
  from list_all_range [OF this] show "P c" by simp
qed

lemma digit_code: "num_char (of_char c) \<longleftrightarrow> digit c"
proof
  have "list_all (\<lambda>n. digit (char_of n)) [48..57]" by (simp add: upto.simps digit_def char_of_def)
  from char_range [OF this] show "num_char (of_char c) \<Longrightarrow> digit c" by (simp add: num_char_def)
  show "digit c \<Longrightarrow> num_char (of_char c)" by (auto simp: digit_def num_char_def)
qed

lemma letter_code: "text_char (of_char c) \<longleftrightarrow> letter c"
proof
  have "list_all (\<lambda>n. letter (char_of n)) [43..43]" "list_all (\<lambda>n. letter (char_of n)) [45..45]"
    "list_all (\<lambda>n. letter (char_of n)) [47..58]" "list_all (\<lambda>n. letter (char_of n)) [61..61]"
    "list_all (\<lambda>n. letter (char_of n)) [65..90]" "list_all (\<lambda>n. letter (char_of n)) [95..95]"
    "list_all (\<lambda>n. letter (char_of n)) [97..122]"
    by (simp_all add: upto.simps letter_def char_of_def)
  from this [THEN char_range, of c] show "text_char (of_char c) \<Longrightarrow> letter c" unfolding text_char_def by linarith
  show "letter c \<Longrightarrow> text_char (of_char c)" by (auto simp: letter_def text_char_def)
qed

lemma digits_codes: "list_all num_char (codes w) \<longleftrightarrow> list_all digit w"
  by (simp add: list_all_iff digit_code)

lemma letters_codes: "list_all text_char (codes w) \<longleftrightarrow> list_all letter w"
  by (simp add: list_all_iff letter_code)

section \<open>What the matching functions consume\<close>

definition consumes :: "lexer \<Rightarrow> string \<Rightarrow> lexer \<Rightarrow> bool" where
  "consumes lx w lx' \<longleftrightarrow> lx_rest lx = w @ lx_rest lx' \<and> lx_channel lx' = lx_channel lx"

lemma consumes_refl [simp]: "consumes lx [] lx"
  by (simp add: consumes_def)

lemma consumes_trans: "consumes lx v lx1 \<Longrightarrow> consumes lx1 w lx2 \<Longrightarrow> consumes lx (v @ w) lx2"
  by (simp add: consumes_def)

lemma consumes_first: "lx_rest lx = c # r \<Longrightarrow> consumes lx [c] ((lx_consume lx)\<lparr>lx_failed := b\<rparr>)"
  using lx_consume_Cons(2) [of lx c r] by (simp add: consumes_def lx_consume_def)

lemma LA1_char:
  assumes "LA1 lx = of_char c"
  shows "\<exists>r. lx_rest lx = c # r"
proof (cases "lx_rest lx")
  case Nil
  with assms of_char_EOF [of c] show ?thesis by simp
next
  case (Cons d r)
  then have "(of_char d :: int) = of_char c" using assms by simp
  then show ?thesis using Cons by (simp only: of_char_eq_iff) blast
qed

lemma matchc_consumes: "\<not> lx_error (matchc (of_char c) lx) \<Longrightarrow> consumes lx [c] (matchc (of_char c) lx)"
  using LA1_char [of lx c] consumes_first [of lx c]
  by (auto simp: matchc_def lx_recover_def lx_consume_def exConstruct_def split: if_splits)

lemma matchs_error: "lx_error lx \<Longrightarrow> lx_error (matchs cs lx)"
  by (induction cs arbitrary: lx) (simp_all add: lx_recover_def lx_consume_def exConstruct_def)

lemma matchs_consumes: "\<not> lx_error (matchs (codes w) lx) \<Longrightarrow> consumes lx w (matchs (codes w) lx)"
proof (induction w arbitrary: lx)
  case (Cons c w)
  have e: "lx_error (lx_recover ((exConstruct lx)\<lparr>lx_failed := True\<rparr>))" by (simp add: lx_recover_def lx_consume_def exConstruct_def)
  show ?case
  proof (cases "LA1 lx = of_char c")
    case True
    obtain r where r: "lx_rest lx = c # r" using LA1_char [OF True] by blast
    have "\<not> lx_error (matchs (codes w) ((lx_consume lx)\<lparr>lx_failed := False\<rparr>))" using Cons.prems True by simp
    from consumes_trans [OF consumes_first [OF r] Cons.IH [OF this]] True show ?thesis by simp
  next
    case False
    with e Cons.prems show ?thesis by simp
  qed
qed simp

lemma span_consumes:
  "\<exists>w. consumes lx w (span_loop P lx) \<and> list_all P (codes w) \<and>
     (case lx_rest (span_loop P lx) of [] \<Rightarrow> True | c # cs \<Rightarrow> \<not> P (of_char c))"
proof (induction P lx rule: span_loop.induct)
  case (1 P lx)
  show ?case
  proof (cases "LA1 lx \<noteq> ANTLR3_CHARSTREAM_EOF \<and> P (LA1 lx)")
    case True
    then obtain c r where r: "lx_rest lx = c # r" by (cases "lx_rest lx") (auto simp: LA1_EOF_iff)
    from 1 [OF True] obtain w where w: "consumes (lx_consume lx) w (span_loop P (lx_consume lx))" "list_all P (codes w)"
      "case lx_rest (span_loop P (lx_consume lx)) of [] \<Rightarrow> True | c # cs \<Rightarrow> \<not> P (of_char c)" by blast
    have "consumes lx [c] (lx_consume lx)" using consumes_first [OF r] by (simp add: consumes_def)
    from consumes_trans [OF this w(1)] have "consumes lx (c # w) (span_loop P (lx_consume lx))" by simp
    moreover have "span_loop P lx = span_loop P (lx_consume lx)" using True by (subst span_loop.simps) simp
    ultimately show ?thesis using w(2,3) True r by (intro exI [of _ "c # w"]) auto
  next
    case False
    then have "span_loop P lx = lx" by (subst span_loop.simps) auto
    moreover have "case lx_rest lx of [] \<Rightarrow> True | c # cs \<Rightarrow> \<not> P (of_char c)"
      using False of_char_EOF by (cases "lx_rest lx") auto
    ultimately show ?thesis by (intro exI [of _ "[]"]) simp
  qed
qed

text \<open>The loop for blanks.\<close>

lemma ws_consumes:
  "\<not> lx_error (ws_loop cnt lx) \<Longrightarrow>
    \<exists>w. consumes lx w (ws_loop cnt lx) \<and> blank_text w \<and> (w \<noteq> [] \<or> 1 \<le> cnt)"
proof (induction cnt lx rule: ws_loop.induct)
  case (1 cnt lx)
  let ?lx1 = "(lx_consume lx)\<lparr>lx_failed := False\<rparr>"
  consider "LA1 lx = 32 \<or> LA1 lx = 9 \<or> LA1 lx = 10" | "LA1 lx = 13" | "LA1 lx \<notin> {32, 9, 10, 13}" by blast
  then show ?case
  proof cases
    case 1
    then obtain c r where r: "lx_rest lx = c # r" "c \<in> {CHR '' '', CHR 0x09, CHR 0x0A}"
      using LA1_char [of lx "CHR '' ''"] LA1_char [of lx "CHR 0x09"] LA1_char [of lx "CHR 0x0A"] by auto
    have eq: "ws_loop cnt lx = ws_loop (cnt + 1) ?lx1" using 1 by (subst ws_loop.simps) simp
    obtain w where "consumes ?lx1 w (ws_loop (cnt + 1) ?lx1)" "blank_text w"
      using "1.IH"(1) [OF 1] "1.prems" eq by auto
    with consumes_trans [OF consumes_first [OF r(1)]] r(2) eq show ?thesis by (intro exI [of _ "c # w"]) auto
  next
    case 2
    then obtain r where r: "lx_rest lx = CHR 0x0D # r" using LA1_char [of lx "CHR 0x0D"] by auto
    let ?lx2 = "matchc 12 ?lx1"
    have eq: "ws_loop cnt lx = (if lx_error ?lx2 then ?lx2 else ws_loop (cnt + 1) ?lx2)"
      using 2 by (subst ws_loop.simps) (simp add: Let_def)
    have ne: "\<not> lx_error ?lx2" using "1.prems" eq by auto
    have m: "consumes ?lx1 [CHR 0x0C] ?lx2" using matchc_consumes [of "CHR 0x0C" ?lx1] ne by simp
    have "\<not> (LA1 lx = 32 \<or> LA1 lx = 9 \<or> LA1 lx = 10)" using 2 by simp
    from "1.IH"(2) [OF this 2 refl ne] "1.prems" eq ne obtain w where
      w: "consumes ?lx2 w (ws_loop (cnt + 1) ?lx2)" "blank_text w" by auto
    from consumes_trans [OF consumes_trans [OF consumes_first [OF r] m] w(1)] w(2) eq ne show ?thesis
      by (intro exI [of _ "CHR 0x0D # CHR 0x0C # w"]) simp
  next
    case 3
    then have eq: "ws_loop cnt lx = (if 1 \<le> cnt then lx else exConstruct lx)" by (subst ws_loop.simps) simp
    with "1.prems" have "1 \<le> cnt" by (auto simp: exConstruct_def split: if_splits)
    with eq show ?thesis by (intro exI [of _ "[]"]) simp
  qed
qed

section \<open>The rules\<close>

text \<open>The automaton only ever chooses one of the alternatives.\<close>

lemma dfa_run_accepts:
  assumes "wf_dfa d"
  shows "0 \<le> s \<Longrightarrow> s < int (length (dfa_eot d)) \<Longrightarrow> dfa_run d s cs = Some a \<Longrightarrow> 1 \<le> a \<and> a \<in> set (dfa_accept d)"
proof -
  have acc: "at (dfa_accept d) s \<in> set (dfa_accept d)" if "0 \<le> s" "s < int (length (dfa_eot d))" for s
    using assms that by (auto simp: wf_dfa_def Let_def at_def intro!: nth_mem)
  have alt: "1 \<le> b \<and> b \<in> set (dfa_accept d)" if "0 \<le> s" "s < int (length (dfa_eot d))" "dfa_step d s c = Alt b" for s c b
  proof -
    have "wf_state d (nat s)" using assms that(1,2) by (intro wf_dfa_state) auto
    with that acc [OF that(1,2)] show ?thesis
      by (auto simp: dfa_step_def Let_def wf_state_def at_def split: if_splits)
  qed
  show "0 \<le> s \<Longrightarrow> s < int (length (dfa_eot d)) \<Longrightarrow> dfa_run d s cs = Some a \<Longrightarrow> 1 \<le> a \<and> a \<in> set (dfa_accept d)"
  proof (induction cs arbitrary: s)
    case Nil
    then show ?case using alt [OF Nil(1,2)] dfa_step_Goto [OF assms Nil(1,2), of "-1"] acc
      by (auto split: dfa_action.splits)
  next
    case (Cons c cs)
    show ?case
    proof (cases "dfa_step d s (of_char c)")
      case (Goto s')
      with dfa_step_Goto [OF assms Cons.prems(1,2)] have "0 \<le> s'" "s' < int (length (dfa_eot d))" by auto
      from Cons.IH [OF this] Cons.prems(3) Goto show ?thesis by simp
    next
      case (Alt b)
      from alt [OF Cons.prems(1,2) this] Cons.prems(3) Alt show ?thesis by simp
    qed (use Cons.prems(3) in simp)
  qed
qed

lemma cdfa4_alternatives:
  assumes "dfa_run cdfa4 0 cs = Some a"
  shows "a = 9 \<or> a = 10 \<or> a = 11 \<or> a \<in> {1..8} \<or> a \<in> {12..31}"
proof -
  have "0 < length (dfa_eot cdfa4)" "list_all (\<lambda>a. a \<le> 31) (dfa_accept cdfa4)" by code_simp+
  with dfa_run_accepts [OF cdfa4_wf _ _ assms] have "1 \<le> a" "a \<le> 31" by (auto simp: list_all_iff)
  then show ?thesis by auto
qed

definition literal_rules :: "(int \<times> nat \<times> string) list" where
  "literal_rules = zip ([1..8] @ [12..31]) grammar_literals"

lemma literal_rule:
  assumes "a \<in> {1..8} \<or> a \<in> {12..31}"
  shows "\<exists>ty l. (ty, l) \<in> set grammar_literals \<and>
    token_rule a = lex_rule ty (if a \<le> 4 then matchc (of_char (hd l)) else matchs (codes l)) \<and> (a \<le> 4 \<longrightarrow> length l = 1)"
proof -
  have "list_all (\<lambda>(a, ty, l). token_rule a = lex_rule ty (if a \<le> 4 then matchc (of_char (hd l)) else matchs (codes l)) \<and>
      (a \<le> 4 \<longrightarrow> length l = 1)) literal_rules"
    by (simp add: literal_rules_def grammar_literals_def upto.simps token_rule_def [abs_def] rule_defs [abs_def] literals)
  moreover have "\<exists>e. (a, e) \<in> set literal_rules"
  proof -
    have n: "length ([1..8] @ [12..31 :: int]) = length grammar_literals" by (simp add: grammar_literals_def)
    have "a \<in> set ([1..8] @ [12..31])" using assms by (simp only: set_append set_upto Un_iff)
    then obtain i where "i < length ([1..8] @ [12..31 :: int])" "([1..8] @ [12..31]) ! i = a" by (metis in_set_conv_nth)
    then have "(a, grammar_literals ! i) \<in> set (zip ([1..8] @ [12..31]) grammar_literals)"
      using n unfolding set_zip by (intro CollectI exI [of _ i]) auto
    then show ?thesis unfolding literal_rules_def by blast
  qed
  moreover have "(a, e) \<in> set literal_rules \<Longrightarrow> e \<in> set grammar_literals" for e
    unfolding literal_rules_def by (rule set_zip_rightD)
  ultimately show ?thesis by (fastforce simp: list_all_iff)
qed

lemma lex_rule_parts: "lx_error (lex_rule ty f lx) = lx_error (f lx)" "lx_rest (lex_rule ty f lx) = lx_rest (f lx)"
  "lx_channel (lex_rule ty f lx) = lx_channel (f lx)" "\<not> lx_error (f lx) \<Longrightarrow> lx_type (lex_rule ty f lx) = ty"
  by (simp_all add: lex_rule_def Let_def)

text \<open>Where the rule for numbers matches the empty text, the lexer is stuck.\<close>

definition stuck :: "string \<Rightarrow> bool" where
  "stuck r \<longleftrightarrow> r \<noteq> [] \<and> dfa_run cdfa4 0 r = Some 10 \<and> \<not> digit (hd r)"

lemma literal_proper: "(ty, l) \<in> set grammar_literals \<Longrightarrow> well_typed ty l ANTLR3_TOKEN_DEFAULT_CHANNEL"
proof -
  have "list_all (\<lambda>(ty, l). l \<noteq> [] \<and> ty \<noteq> TK_WS \<and> ty \<noteq> TK_NUM \<and> ty \<noteq> TK_TEXT) grammar_literals"
    by (simp add: grammar_literals_def token_types)
  then show "(ty, l) \<in> set grammar_literals \<Longrightarrow> well_typed ty l ANTLR3_TOKEN_DEFAULT_CHANNEL"
    by (auto simp: list_all_iff well_typed_def)
qed

lemma text_not_literal: "list_all letter w \<Longrightarrow> word_alt (codes w) = 11 \<Longrightarrow> w \<notin> snd ` set grammar_literals"
proof -
  have "list_all (\<lambda>(ty, l). list_all letter l \<longrightarrow> word_alt (codes l) \<noteq> 11) grammar_literals"
    by (simp add: grammar_literals_def letter_def word_alt_def num_char_def literals)
  then show "list_all letter w \<Longrightarrow> word_alt (codes w) = 11 \<Longrightarrow> w \<notin> snd ` set grammar_literals"
    by (auto simp: list_all_iff)
qed

lemma cut_words_text: "list_all (\<lambda>v. word_alt v = 11) cut_words"
  by code_simp

lemma text_word:
  assumes "dfa_run cdfa4 0 (w @ r) = Some 11" "list_all letter w" "case r of [] \<Rightarrow> True | c # cs \<Rightarrow> \<not> text_char (of_char c)"
  shows "well_typed TK_TEXT w ANTLR3_TOKEN_DEFAULT_CHANNEL"
proof -
  have ne: "w \<noteq> []"
  proof
    assume "w = []"
    have "dfa_run cdfa4 0 [] = Some 10" by code_simp
    with \<open>w = []\<close> assms(1) have "r \<noteq> []" by auto
    then show False
    proof (cases r)
      case (Cons c cs)
      with assms(3) have nt: "\<not> text_char (of_char c)" by simp
      then have "\<not> num_char (of_char c)" "(of_char c :: int) \<notin> {45, 58, 78, 100, 114, 115}"
        using num_text_char by (auto simp: text_char_def)
      with nt Cons \<open>w = []\<close> assms(1) show False by (cases cs) (auto simp: step_0 step_final split: if_splits)
    qed simp
  qed
  have "word_alt (codes w) = 11"
  proof (cases "codes w \<in> set cut_words")
    case True
    with cut_words_text show ?thesis by (auto simp: list_all_iff)
  next
    case False
    then have "word_end w r" using assms(3) by (auto simp: word_end_def split: list.splits)
    from word_run [OF ne _ this] assms(1,2) show ?thesis by (simp add: letters_codes)
  qed
  moreover from this have "\<not> list_all digit w" by (auto simp: word_alt_def digits_codes split: if_splits)
  ultimately show ?thesis
    using ne assms(2) text_not_literal [OF assms(2)] by (simp add: well_typed_def token_types)
qed

lemma token_rule_typed:
  assumes "dfa_run cdfa4 0 (lx_rest lx) = Some a" "\<not> lx_error (token_rule a lx)"
    "lx_channel lx = ANTLR3_TOKEN_DEFAULT_CHANNEL" "lx_rest lx \<noteq> []"
  shows "\<exists>w. lx_rest lx = w @ lx_rest (token_rule a lx) \<and>
    (well_typed (lx_type (token_rule a lx)) w (lx_channel (token_rule a lx)) \<or>
     (w = [] \<and> lx_type (token_rule a lx) = TK_NUM \<and> stuck (lx_rest lx)))"
proof -
  consider (blanks) "a = 9" | (number) "a = 10" | (word) "a = 11" | (literal) "a \<in> {1..8} \<or> a \<in> {12..31}"
    using cdfa4_alternatives [OF assms(1)] by blast
  then show ?thesis
  proof cases
    case blanks
    then have r: "token_rule a lx = mWS lx" by (simp add: token_rule_def)
    then have "\<not> lx_error (ws_loop 0 lx)" using assms(2) by (simp add: mWS_def Let_def split: if_splits)
    from ws_consumes [OF this] this r show ?thesis by (auto simp: mWS_def Let_def consumes_def well_typed_def)
  next
    case number
    then have r: "token_rule a lx = lex_rule TK_NUM (span_loop num_char) lx" by (simp add: token_rule_def mNUM_def)
    from span_consumes [of lx num_char] obtain w where w: "consumes lx w (span_loop num_char lx)" "list_all num_char (codes w)"
      "case lx_rest (span_loop num_char lx) of [] \<Rightarrow> True | c # cs \<Rightarrow> \<not> num_char (of_char c)" by blast
    have ne: "\<not> lx_error (span_loop num_char lx)" using assms(2) unfolding r lex_rule_parts .
    have "well_typed TK_NUM w ANTLR3_TOKEN_DEFAULT_CHANNEL \<or> (w = [] \<and> stuck (lx_rest lx))"
    proof (cases "w = []")
      case True
      then have "lx_rest (span_loop num_char lx) = lx_rest lx" using w(1) by (simp add: consumes_def)
      with w(3) assms(4) have "\<not> digit (hd (lx_rest lx))" by (cases "lx_rest lx") (simp_all only: digit_code list.case list.sel, simp)
      with True assms(1,4) number show ?thesis by (simp add: stuck_def)
    next
      case False
      with w(2) show ?thesis by (simp add: well_typed_def token_types digits_codes)
    qed
    then show ?thesis unfolding r lex_rule_parts(2,3) lex_rule_parts(4) [where f = "span_loop num_char" and lx = lx, OF ne] using w(1) assms(3)
      by (auto simp: consumes_def)
  next
    case word
    then have r: "token_rule a lx = lex_rule TK_TEXT (span_loop text_char) lx" by (simp add: token_rule_def mTEXT_def)
    from span_consumes [of lx text_char] obtain w where w: "consumes lx w (span_loop text_char lx)" "list_all text_char (codes w)"
      "case lx_rest (span_loop text_char lx) of [] \<Rightarrow> True | c # cs \<Rightarrow> \<not> text_char (of_char c)" by blast
    have ne: "\<not> lx_error (span_loop text_char lx)" using assms(2) unfolding r lex_rule_parts .
    have "well_typed TK_TEXT w ANTLR3_TOKEN_DEFAULT_CHANNEL"
      using text_word [OF _ _ w(3)] assms(1) word w(1,2) by (simp add: consumes_def letters_codes)
    then show ?thesis unfolding r lex_rule_parts(2,3) lex_rule_parts(4) [where f = "span_loop text_char" and lx = lx, OF ne] using w(1) assms(3)
      by (auto simp: consumes_def)
  next
    case literal
    from literal_rule [OF this] obtain ty l where l: "(ty, l) \<in> set grammar_literals"
      "token_rule a lx = lex_rule ty (if a \<le> 4 then matchc (of_char (hd l)) else matchs (codes l)) lx" "a \<le> 4 \<longrightarrow> length l = 1"
      by metis
    have ne: "\<not> lx_error ((if a \<le> 4 then matchc (of_char (hd l)) else matchs (codes l)) lx)"
      using assms(2) unfolding l(2) lex_rule_parts .
    have "consumes lx l ((if a \<le> 4 then matchc (of_char (hd l)) else matchs (codes l)) lx)"
    proof (cases "a \<le> 4")
      case True
      with l(3) obtain c where "l = [c]" by (cases l) auto
      with True ne matchc_consumes show ?thesis by simp
    next
      case False
      with ne matchs_consumes show ?thesis by simp
    qed
    then show ?thesis unfolding l(2) lex_rule_parts(2,3) lex_rule_parts(4) [where f = "if a \<le> 4 then matchc (of_char (hd l)) else matchs (codes l)" and lx = lx, OF ne] using literal_proper [OF l(1)] assms(3)
      by (auto simp: consumes_def)
  qed
qed

lemma mTokens_typed:
  assumes "mTokens lx = Some lx'" "\<not> lx_error lx'" "lx_channel lx = ANTLR3_TOKEN_DEFAULT_CHANNEL" "lx_rest lx \<noteq> []"
  shows "\<exists>w. lx_rest lx = w @ lx_rest lx' \<and>
    (well_typed (lx_type lx') w (lx_channel lx') \<or> (w = [] \<and> lx_type lx' = TK_NUM \<and> stuck (lx_rest lx)))"
proof (cases "dfa_run cdfa4 0 (lx_rest lx)")
  case None
  with assms(1,2) show ?thesis by (auto simp: mTokens_run exConstruct_def)
next
  case (Some a)
  with assms(1) have "lx' = token_rule a lx" by (simp add: mTokens_run)
  with token_rule_typed [OF Some _ assms(3,4)] assms(2) show ?thesis by blast
qed

section \<open>The tokens\<close>

lemma emit_typed:
  assumes "mTokens (start_token lx) = Some lx2" "\<not> lx_error lx2" "lx_rest lx \<noteq> []" "in_bounds lx"
  shows "in_bounds (emit lx2) \<and> tk_type (the (lx_token (emit lx2))) \<noteq> ANTLR3_TOKEN_EOF \<and>
    (token_typed (the (lx_token (emit lx2))) \<or> stuck (lx_rest (emit lx2)))"
proof -
  have fw: "forward lx lx2" using rm.rules_forward [OF assms(1)] by simp
  have "lx_start lx2 = in_next (lx_input lx)" using rm.rules_marks [OF assms(1)] by (simp add: start_token_def)
  with emit_text [OF fw _ assms(4)] obtain t where t: "lx_token (emit lx2) = Some t" "lx_rest lx = tk_text t @ lx_rest lx2"
    "tk_type t = lx_type lx2" "tk_channel t = lx_channel lx2" by auto
  have "lx_channel (start_token lx) = ANTLR3_TOKEN_DEFAULT_CHANNEL" by (simp add: start_token_def)
  from mTokens_typed [OF assms(1,2) this] assms(3) t(2)
  have "well_typed (lx_type lx2) (tk_text t) (lx_channel lx2) \<or> (lx_type lx2 = TK_NUM \<and> stuck (lx_rest lx2))" by fastforce
  moreover have "ty \<noteq> ANTLR3_TOKEN_EOF" if "well_typed ty w ch \<or> ty = TK_NUM" for ty w ch
  proof
    assume "ty = ANTLR3_TOKEN_EOF"
    have "list_all (\<lambda>(ty, l). ty \<noteq> ANTLR3_TOKEN_EOF) grammar_literals"
      by (simp add: grammar_literals_def token_types ANTLR3_TOKEN_EOF_def)
    with that \<open>ty = ANTLR3_TOKEN_EOF\<close> show False
      by (auto simp: well_typed_def list_all_iff token_types ANTLR3_TOKEN_EOF_def)
  qed
  moreover have "in_bounds (emit lx2)" using forward_in_bounds [OF fw assms(4)] by (simp add: in_bounds_def)
  ultimately show ?thesis using t by (auto simp: token_typed_def)
qed

lemma nextTokenStr_typed:
  assumes "nextTokenStr mTokens lx = Some (tok, lx')" "in_bounds lx"
  shows "in_bounds lx' \<and> (tk_type tok = ANTLR3_TOKEN_EOF \<or> token_typed tok \<or> stuck (lx_rest lx'))"
proof -
  have "\<forall>tok lx'. r = (tok, lx') \<longrightarrow> m = mTokens \<longrightarrow> in_bounds lx \<longrightarrow>
      in_bounds lx' \<and> (tk_type tok = ANTLR3_TOKEN_EOF \<or> token_typed tok \<or> stuck (lx_rest lx'))"
    if "nextTokenStr m lx = Some r" for m r
  proof (rule nextTokenStr.raw_induct [of "\<lambda>m lx r. \<forall>tok lx'. r = (tok, lx') \<longrightarrow> m = mTokens \<longrightarrow> in_bounds lx \<longrightarrow>
      in_bounds lx' \<and> (tk_type tok = ANTLR3_TOKEN_EOF \<or> token_typed tok \<or> stuck (lx_rest lx'))", OF _ that], intro allI impI)
    fix f :: "(lexer \<Rightarrow> lexer option) \<Rightarrow> lexer \<Rightarrow> (token \<times> lexer) option" and m lx r tok lx'
    assume IH: "\<And>m lx r. f m lx = Some r \<Longrightarrow> \<forall>tok lx'. r = (tok, lx') \<longrightarrow> m = mTokens \<longrightarrow> in_bounds lx \<longrightarrow>
        in_bounds lx' \<and> (tk_type tok = ANTLR3_TOKEN_EOF \<or> token_typed tok \<or> stuck (lx_rest lx'))"
      and body: "(let lx1 = start_token lx in
        if LA1 lx1 = ANTLR3_CHARSTREAM_EOF then Some (eof_token (lx_input lx1), lx1)
        else Option.bind (m lx1) (\<lambda>lx2.
          if lx_error lx2 then f m (lx_recover (reportError (lx2\<lparr>lx_failed := True\<rparr>)))
          else let lx3 = if lx_token lx2 = None then emit lx2 else lx2 in Some (the (lx_token lx3), lx3))) = Some r"
      and r: "r = (tok, lx')" "m = mTokens" "in_bounds lx"
    show "in_bounds lx' \<and> (tk_type tok = ANTLR3_TOKEN_EOF \<or> token_typed tok \<or> stuck (lx_rest lx'))"
    proof (cases "lx_rest lx = []")
      case True
      with body r show ?thesis by (auto simp: Let_def eof_token_def in_bounds_def)
    next
      case False
      then have la: "LA1 lx \<noteq> ANTLR3_CHARSTREAM_EOF" by (simp add: LA1_EOF_iff)
      obtain lx2 where lx2: "mTokens (start_token lx) = Some lx2" using rm.rules_return by blast
      have fw: "forward lx lx2" using rm.rules_forward [OF lx2] by simp
      have tok: "lx_token lx2 = None" using rm.rules_marks [OF lx2] by simp
      show ?thesis
      proof (cases "lx_error lx2")
        case True
        with body r la lx2 have "f mTokens (lx_recover (reportError (lx2\<lparr>lx_failed := True\<rparr>))) = Some (tok, lx')"
          by (simp add: Let_def)
        moreover have "forward lx2 (reportError (lx2\<lparr>lx_failed := True\<rparr>))" by simp
        then have "forward lx2 (lx_recover (reportError (lx2\<lparr>lx_failed := True\<rparr>)))"
          unfolding lx_recover_def by (rule forward_trans [OF _ forward_consume])
        then have "in_bounds (lx_recover (reportError (lx2\<lparr>lx_failed := True\<rparr>)))"
          using forward_in_bounds [OF _ forward_in_bounds [OF fw r(3)]] by blast
        ultimately show ?thesis using IH by blast
      next
        case nerr: False
        with body r la lx2 tok have "tok = the (lx_token (emit lx2))" "lx' = emit lx2" by (auto simp: Let_def)
        with emit_typed [OF lx2 nerr False r(3)] show ?thesis by blast
      qed
    qed
  qed
  from this [OF assms(1)] assms(2) show ?thesis by simp
qed

text \<open>A stuck lexer gives an empty number and is stuck again.\<close>

lemma stuck_token:
  assumes "stuck (lx_rest lx)" "in_bounds lx"
  shows "\<exists>tok lx'. nextTokenStr mTokens lx = Some (tok, lx') \<and> tk_type tok \<noteq> ANTLR3_TOKEN_EOF \<and>
    stuck (lx_rest lx') \<and> in_bounds lx'"
proof -
  let ?lx = "start_token lx"
  obtain c s where s: "lx_rest lx = c # s" "\<not> num_char (of_char c)" "dfa_run cdfa4 0 (lx_rest lx) = Some 10"
    using assms(1) by (cases "lx_rest lx") (auto simp: stuck_def digit_code)
  then have "span_loop num_char ?lx = ?lx" by (simp add: span_loop.simps)
  then have m: "mTokens ?lx = Some (?lx\<lparr>lx_type := TK_NUM\<rparr>)"
    using s by (simp add: mTokens_run token_rule_def mNUM_def lex_rule_def Let_def)
  have ne: "lx_rest lx \<noteq> []" using s(1) by simp
  have "\<not> lx_error (?lx\<lparr>lx_type := TK_NUM\<rparr>)" by simp
  from rm.nextTokenStr_token [OF ne m this] emit_typed [OF m this ne assms(2)] assms(1) show ?thesis by simp
qed

lemma fillBuffer_typed:
  assumes "fillBuffer mTokens lx toks = Some (toks', lx')" "in_bounds lx" "\<forall>t \<in> set toks. token_typed t"
  shows "\<forall>t \<in> set toks'. token_typed t"
proof -
  have "m = mTokens \<longrightarrow> in_bounds lx \<longrightarrow> \<not> stuck (lx_rest lx) \<and>
      ((\<forall>t \<in> set toks. token_typed t) \<longrightarrow> (\<forall>t \<in> set (fst r). token_typed t))"
    if "fillBuffer m lx toks = Some r" for m r
  proof (rule fillBuffer.raw_induct [of "\<lambda>m lx toks r. m = mTokens \<longrightarrow> in_bounds lx \<longrightarrow> \<not> stuck (lx_rest lx) \<and>
      ((\<forall>t \<in> set toks. token_typed t) \<longrightarrow> (\<forall>t \<in> set (fst r). token_typed t))", OF _ that], intro impI)
    fix f :: "(lexer \<Rightarrow> lexer option) \<Rightarrow> lexer \<Rightarrow> token list \<Rightarrow> (token list \<times> lexer) option" and m lx toks r
    assume IH: "\<And>m lx toks r. f m lx toks = Some r \<Longrightarrow> m = mTokens \<longrightarrow> in_bounds lx \<longrightarrow> \<not> stuck (lx_rest lx) \<and>
        ((\<forall>t \<in> set toks. token_typed t) \<longrightarrow> (\<forall>t \<in> set (fst r). token_typed t))"
      and body: "Option.bind (nextToken m lx) (\<lambda>(tok, lx1).
        if tk_type tok \<noteq> ANTLR3_TOKEN_EOF then f m lx1 (toks @ [tok\<lparr>tk_index := length toks\<rparr>]) else Some (toks, lx1)) = Some r"
      and m: "m = mTokens" and b: "in_bounds lx"
    from body obtain tok lx1 where n: "nextTokenStr mTokens lx = Some (tok, lx1)"
      "(if tk_type tok \<noteq> ANTLR3_TOKEN_EOF then f mTokens lx1 (toks @ [tok\<lparr>tk_index := length toks\<rparr>]) else Some (toks, lx1)) = Some r"
      unfolding nextToken_def m by (cases "nextTokenStr mTokens lx") (simp_all del: not_None_eq split: prod.splits)
    note ty = nextTokenStr_typed [OF n(1) b]
    show "\<not> stuck (lx_rest lx) \<and> ((\<forall>t \<in> set toks. token_typed t) \<longrightarrow> (\<forall>t \<in> set (fst r). token_typed t))"
    proof (cases "tk_type tok = ANTLR3_TOKEN_EOF")
      case True
      then have "\<not> stuck (lx_rest lx)" using stuck_token [OF _ b] n(1) by auto
      with True n(2) show ?thesis by auto
    next
      case False
      with n(2) have "f mTokens lx1 (toks @ [tok\<lparr>tk_index := length toks\<rparr>]) = Some r" by simp
      note ih = IH [OF this, THEN mp, THEN mp, OF refl conjunct1 [OF ty]]
      note i = conjunct1 [OF ih]
      moreover have "\<not> stuck (lx_rest lx)" using stuck_token [OF _ b] n(1) i by auto
      moreover have "token_typed tok" using ty False i by blast
      then have "token_typed (tok\<lparr>tk_index := length toks\<rparr>)" by (simp add: token_typed_def)
      then have "\<forall>t \<in> set (toks @ [tok\<lparr>tk_index := length toks\<rparr>]). token_typed t" if "\<forall>t \<in> set toks. token_typed t"
        using that by simp
      with conjunct2 [OF ih, THEN mp] have "(\<forall>t \<in> set toks. token_typed t) \<longrightarrow> (\<forall>t \<in> set (fst r). token_typed t)" by iprover
      ultimately show ?thesis by iprover
    qed
  qed
  from this [OF assms(1)] assms(2,3) show ?thesis by simp
qed

lemma literal_type_bound: "(ty, l) \<in> set grammar_literals \<Longrightarrow> ty < 2147483648"
proof -
  have "list_all (\<lambda>(ty, l). ty < 2147483648) grammar_literals" by (simp add: grammar_literals_def token_types)
  then show "(ty, l) \<in> set grammar_literals \<Longrightarrow> ty < 2147483648" by (auto simp: list_all_iff)
qed

lemma token_typed_proper:
  assumes "\<forall>t \<in> set toks. token_typed t"
  shows "proper_types toks"
  unfolding proper_types_def
proof
  fix t
  assume "t \<in> set toks"
  then have "tk_type t = TK_WS \<or> tk_type t = TK_NUM \<or> tk_type t = TK_TEXT \<or> (tk_type t, tk_text t) \<in> set grammar_literals"
    using assms by (auto simp only: token_typed_def well_typed_def split: if_splits)
  then show "tk_type t < 2147483648" using literal_type_bound by (auto simp: token_types)
qed



end
