(* ===== verification/RM_Rule.thy ===== *)
theory RM_Rule
  imports RM_Prelude
begin

text \<open>
  \<^verbatim>\<open>src/src/utils/Rule.h\<close>: a Binder/Prolog rule cut into its head, its body and the
  literals of the body. The cut is textual: the body is split at every \<^verbatim>\<open>"),"\<close>.
  The theory shows that the split never fails, that joining the pieces gives the body
  back, and that on a body made of the grammar's literals the pieces are the literals.
\<close>

section \<open>The class and its operations\<close>

record rule =
  head :: string
  body :: string
  atom :: string
  clauses :: "string list"

text \<open>The default constructor.\<close>

definition Rule_new :: rule where
  "Rule_new = \<lparr>head = '''', body = '''', atom = '''', clauses = []\<rparr>"

text \<open>
  The loop of \<^verbatim>\<open>getClauses\<close>. A found position \<open>pos\<close> has \<open>pos + 2 \<le> length tmp\<close>, so
  only \<^verbatim>\<open>tmp.length() - 1\<close> can wrap around, on the empty string.
\<close>

function getClauses_loop :: "string \<Rightarrow> string list \<Rightarrow> string list res" where
  "getClauses_loop tmp cls =
     (let pos = str_find tmp ''),'' in
      if pos \<noteq> npos then
        ebind (str_substr tmp 0 (pos + 1)) (\<lambda>c.
        ebind (str_substr tmp (pos + 2) (length tmp - pos - 2)) (\<lambda>tmp'.
          getClauses_loop tmp' (cls @ [c])))
      else
        ebind (str_substr tmp 0 (sz_sub (length tmp) 1)) (\<lambda>c. Inr (cls @ [c])))"
  by pat_completeness auto
termination
proof (relation "measure (\<lambda>(tmp, cls). length tmp)", goal_cases)
  case 1
  show ?case by simp
next
  case (2 tmp cls pos c tmp')
  then have "find_aux ''),'' tmp 0 = Some pos"
    by (auto simp: str_find_def split: option.splits)
  with 2 find_aux_bound [of "''),''" tmp pos] show ?case
    by (auto dest!: str_substr_eq_InrD)
qed

declare getClauses_loop.simps [simp del]

definition getClauses :: "rule \<Rightarrow> (rule \<times> string list) res" where
  "getClauses r =
     (if length (clauses r) < 1 then
        ebind (getClauses_loop (body r) []) (\<lambda>cs. Inr (r\<lparr>clauses := cs\<rparr>, cs))
      else Inr (r, clauses r))"

text \<open>
  \<^verbatim>\<open>Rule(const string & r)\<close>. Without \<^verbatim>\<open>":-"\<close> the search returns \<^verbatim>\<open>npos\<close>, the head is
  the whole text and \<^verbatim>\<open>imp + 2\<close> wraps around to 1.
\<close>

definition mk_Rule :: "string \<Rightarrow> rule res" where
  "mk_Rule r =
     (let imp = str_find r '':-'' in
      ebind (str_substr r 0 imp) (\<lambda>h.
      ebind (str_substr r (sz_add imp 2) (sz_sub (length r) 1)) (\<lambda>b.
      ebind (getClauses \<lparr>head = h, body = b, atom = r, clauses = []\<rparr>) (\<lambda>(r', _). Inr r'))))"

definition Rule_toString :: "rule \<Rightarrow> string" where
  "Rule_toString r =
     ''Rendering Rule For Atom:'' @ ''\<newline>'' @ atom r @ ''\<newline>'' @ ''Head: '' @ head r @ ''\<newline>''
     @ ''Body: '' @ body r @ ''\<newline>'' @ concat (map (\<lambda>c. c @ ''\<newline>'') (clauses r))"

section \<open>The grammar's literals\<close>

text \<open>
  \<^verbatim>\<open>literal : predicate | 'says' '(' text ',' predicate ')'\<close> and
  \<^verbatim>\<open>predicate : text '(' text (',' text)* ')'\<close> of \<^verbatim>\<open>RepositoryManager.g\<close>, and how the
  walker's concatenation of tokens prints them.
\<close>

datatype literal = Pred string "string list" | Says string string "string list"

fun show_pred :: "string \<Rightarrow> string list \<Rightarrow> string" where
  "show_pred p args = p @ ''('' @ join '','' args @ '')''"

fun show_literal :: "literal \<Rightarrow> string" where
  "show_literal (Pred p args) = show_pred p args"
| "show_literal (Says k p args) = ''says('' @ k @ '','' @ show_pred p args @ '')''"

definition plain :: "string \<Rightarrow> bool" where
  "plain s \<longleftrightarrow> set s \<inter> set ''(),.'' = {}"

fun wf_literal :: "literal \<Rightarrow> bool" where
  "wf_literal (Pred p args) \<longleftrightarrow> plain p \<and> args \<noteq> [] \<and> (\<forall>a \<in> set args. plain a)"
| "wf_literal (Says k p args) \<longleftrightarrow> plain k \<and> plain p \<and> args \<noteq> [] \<and> (\<forall>a \<in> set args. plain a)"

definition show_body :: "literal list \<Rightarrow> string" where
  "show_body ls = join '','' (map show_literal ls) @ ''.''"

section \<open>Where the separator can occur\<close>

lemma sublist_two_append:
  "x \<notin> set a \<Longrightarrow> sublist [x, y] (a @ b) \<longleftrightarrow> sublist [x, y] b"
  by (induction a) (auto simp: sublist_Cons_right)

lemma sublist_two_snoc:
  "y \<noteq> z \<Longrightarrow> sublist [x, y] (s @ [z]) \<longleftrightarrow> sublist [x, y] s"
  by (induction s) (auto simp: sublist_Cons_right prefix_Cons)

lemma set_join: "set (join sep xs) \<subseteq> set sep \<union> (\<Union>x \<in> set xs. set x)"
  by (induction sep xs rule: join.induct) auto

lemma plain_join: "(\<forall>a \<in> set args. plain a) \<Longrightarrow> CHR '')'' \<notin> set (join '','' args)"
  using set_join [of "'',''" args] by (auto simp: plain_def)

lemma show_literal_snoc:
  assumes "wf_literal l"
  obtains a where "show_literal l = a @ '')''" "\<not> sublist ''),'' (a @ '')'')"
proof (cases l)
  case (Pred p args)
  let ?a = "p @ ''('' @ join '','' args"
  have "CHR '')'' \<notin> set ?a" using assms Pred plain_join [of args] by (auto simp: plain_def)
  then have "\<not> sublist ''),'' (?a @ '')'')" by (subst sublist_two_append) (auto simp: sublist_Cons_right)
  with Pred show ?thesis using that [of ?a] by simp
next
  case (Says k p args)
  let ?a = "''says('' @ k @ '','' @ p @ ''('' @ join '','' args"
  have "CHR '')'' \<notin> set ?a" using assms Says plain_join [of args] by (auto simp: plain_def)
  then have "\<not> sublist ''),'' (?a @ ''))'')" by (subst sublist_two_append) (auto simp: sublist_Cons_right)
  with Says show ?thesis using that [of "?a @ '')''"] by simp
qed

section \<open>The split\<close>

text \<open>One round of the loop, in both branches.\<close>

lemma getClauses_loop_found:
  assumes "\<not> sublist ''),'' (a @ '')'')" "fits (a @ ''),'' @ b)"
  shows "getClauses_loop (a @ ''),'' @ b) cls = getClauses_loop b (cls @ [a @ '')''])"
proof -
  have "str_find (a @ ''),'' @ b) ''),'' = length a"
    using assms(1) str_find_first [of "''),''" a b] by (simp add: butlast_append)
  with assms(2) show ?thesis by (subst getClauses_loop.simps) (simp add: Let_def)
qed

lemma getClauses_loop_last:
  assumes "\<not> sublist ''),'' s" "fits s"
  shows "getClauses_loop s cls = Inr (cls @ [butlast s])"
proof (cases s)
  case Nil
  then show ?thesis
    by (subst getClauses_loop.simps) (simp add: str_find_def)
next
  case (Cons x xs)
  then have "sz_sub (length s) 1 = length s - 1" using fits_sz [OF assms(2)] by (intro sz_sub_small) auto
  with assms(1) show ?thesis
    by (subst getClauses_loop.simps) (simp add: str_find_npos Let_def butlast_conv_take)
qed

lemma getClauses_loop_cases:
  assumes "fits s"
  obtains (last) "\<not> sublist ''),'' s" "getClauses_loop s cls = Inr (cls @ [butlast s])"
  | (found) a b where "s = a @ ''),'' @ b" "fits b" "length b < length s"
      "getClauses_loop s cls = getClauses_loop b (cls @ [a @ '')''])"
proof (rule str_find_cases [OF assms, of "''),''"])
  assume "\<not> sublist ''),'' s"
  with last getClauses_loop_last assms show thesis by blast
next
  let ?i = "str_find s ''),''"
  let ?a = "take ?i s" and ?b = "drop (?i + 2) s"
  assume ne: "?i \<noteq> npos" and le: "?i + length ''),'' \<le> length s"
    and s: "s = ?a @ ''),'' @ drop (?i + length ''),'') s"
  have sp: "s = ?a @ ''),'' @ ?b" using s by simp
  have at: "s ! ?i = CHR '')''" by (subst sp) (use le in \<open>simp add: nth_append\<close>)
  have "take (?i + 1) s = ?a @ '')''"
    using le at by (simp add: take_Suc_conv_app_nth)
  then have "getClauses_loop s cls = getClauses_loop ?b (cls @ [?a @ '')''])"
    using ne le by (subst getClauses_loop.simps) (simp add: Let_def)
  then show thesis
    using found [of ?a ?b] sp le assms by simp
qed

lemma getClauses_loop_total:
  "fits s \<Longrightarrow> \<exists>ds. getClauses_loop s cls = Inr (cls @ ds) \<and> ds \<noteq> []"
proof (induction s arbitrary: cls rule: length_induct)
  case (1 s)
  show ?case
  proof (cases rule: getClauses_loop_cases [OF "1.prems", of cls])
    case 1
    then show ?thesis by simp
  next
    case (2 a b)
    with "1.IH" obtain ds where "getClauses_loop b (cls @ [a @ '')'']) = Inr ((cls @ [a @ '')'']) @ ds)"
      by blast
    with 2 show ?thesis by simp
  qed
qed

text \<open>
  Joining the pieces gives the text back: all pieces but the last are cut at a
  separator and keep their closing bracket, and the last is what remains (\<open>w\<close>) less its
  final character.
\<close>

lemma getClauses_loop_join:
  "fits s \<Longrightarrow> getClauses_loop s cls = Inr (cls @ ds) \<Longrightarrow>
     \<exists>w. s = join '','' (butlast ds @ [w]) \<and> last ds = butlast w \<and> \<not> sublist ''),'' w
       \<and> (\<forall>c \<in> set (butlast ds). suffix '')'' c)"
proof (induction s arbitrary: cls ds rule: length_induct)
  case (1 s)
  show ?case
  proof (cases rule: getClauses_loop_cases [OF "1.prems"(1), of cls])
    case 1
    with "1.prems" have "ds = [butlast s]" by simp
    with 1 show ?thesis by auto
  next
    case (2 a b)
    obtain es where es: "getClauses_loop b (cls @ [a @ '')'']) = Inr ((cls @ [a @ '')'']) @ es)" "es \<noteq> []"
      using getClauses_loop_total [OF 2(2)] by blast
    with 2 "1.prems" have ds: "ds = (a @ '')'') # es" by simp
    from "1.IH" 2 es(1) obtain w where w: "b = join '','' (butlast es @ [w])" "last es = butlast w"
      "\<not> sublist ''),'' w" "\<forall>c \<in> set (butlast es). suffix '')'' c" by blast
    have "s = join '','' (butlast ds @ [w])"
      using 2(1) w(1) ds es(2) by (simp add: join_Cons)
    then show ?thesis using w ds es(2) by (intro exI [of _ w]) auto
  qed
qed

lemma getClauses_loop_literals:
  "ls \<noteq> [] \<Longrightarrow> (\<forall>l \<in> set ls. wf_literal l) \<Longrightarrow> fits (show_body ls) \<Longrightarrow>
     getClauses_loop (show_body ls) cls = Inr (cls @ map show_literal ls)"
proof (induction ls arbitrary: cls rule: list_nonempty_induct)
  case (single l)
  then obtain a where a: "show_literal l = a @ '')''" "\<not> sublist ''),'' (a @ '')'')"
    by (auto elim: show_literal_snoc)
  then have "\<not> sublist ''),'' (show_literal l @ ''.'')"
    using sublist_two_snoc [of "CHR '',''" "CHR ''.''" "CHR '')''" "a @ '')''"] by simp
  with single show ?case by (simp add: show_body_def getClauses_loop_last)
next
  case (cons l ls)
  then obtain a where a: "show_literal l = a @ '')''" "\<not> sublist ''),'' (a @ '')'')"
    by (auto elim: show_literal_snoc)
  have "show_body (l # ls) = a @ ''),'' @ show_body ls"
    using a cons(1) by (simp add: show_body_def join_Cons)
  then show ?case
    using a cons getClauses_loop_found [of a "show_body ls"] by simp
qed

section \<open>The constructor\<close>

lemma mk_Rule_found:
  assumes "\<not> sublist '':-'' (h @ '':'')" "fits (h @ '':-'' @ b)"
  shows "mk_Rule (h @ '':-'' @ b) =
    ebind (getClauses_loop b []) (\<lambda>cs. Inr \<lparr>head = h, body = b, atom = h @ '':-'' @ b, clauses = cs\<rparr>)"
proof -
  have f: "str_find (h @ '':-'' @ b) '':-'' = length h"
    using assms(1) str_find_first [of "'':-''" h b] by (simp add: butlast_append)
  have "length h + 2 < sz_max" "length (h @ '':-'' @ b) < sz_max"
    using assms(2) by (simp_all add: npos_def sz_max_def)
  with f show ?thesis
    by (cases "getClauses_loop b []") (simp_all add: mk_Rule_def getClauses_def Let_def)
qed

lemma mk_Rule_no_arrow:
  assumes "\<not> sublist '':-'' r" "r \<noteq> ''''" "fits r"
  shows "mk_Rule r =
    ebind (getClauses_loop (tl r) []) (\<lambda>cs. Inr \<lparr>head = r, body = tl r, atom = r, clauses = cs\<rparr>)"
proof -
  have "sz_sub (length r) 1 = length r - 1"
    using assms(2) fits_sz [OF assms(3)] by (intro sz_sub_small) (auto simp: Suc_leI)
  moreover have "take npos r = r" using assms(3) by simp
  ultimately show ?thesis
    using assms(1,2) by (cases "getClauses_loop (tl r) []")
      (simp_all add: mk_Rule_def getClauses_def Let_def str_find_npos sz_add_npos_2 Suc_leI drop_Suc)
qed

lemma mk_Rule_empty: "mk_Rule '''' = Inl Out_Of_Range"
  by (simp add: mk_Rule_def str_find_def Let_def sz_add_npos_2 str_substr_def)

lemma mk_Rule_arrow_split:
  assumes "sublist '':-'' r" "fits r"
  obtains h b where "r = h @ '':-'' @ b" "\<not> sublist '':-'' (h @ '':'')"
proof (rule str_find_cases [OF assms(2), of "'':-''"])
  assume "\<not> sublist '':-'' r"
  with assms show thesis by simp
next
  let ?i = "str_find r '':-''"
  assume le: "?i + length '':-'' \<le> length r" and r: "r = take ?i r @ '':-'' @ drop (?i + length '':-'') r"
    and min: "\<forall>j < ?i. \<not> prefix '':-'' (drop j r)"
  have "\<not> sublist '':-'' (take ?i r @ '':'')"
  proof
    assume "sublist '':-'' (take ?i r @ '':'')"
    then obtain u v where uv: "take ?i r @ '':'' = u @ '':-'' @ v" by (auto simp: sublist_def)
    have "length u < ?i" using arg_cong [OF uv, of length] le by simp
    moreover have "r = (take ?i r @ '':'') @ ''-'' @ drop (?i + length '':-'') r"
      using r by simp
    then have "r = u @ '':-'' @ v @ ''-'' @ drop (?i + length '':-'') r"
      unfolding uv by simp
    then have "prefix '':-'' (drop (length u) r)"
      by (metis append_eq_conv_conj prefixI)
    ultimately show False using min by blast
  qed
  with r that show thesis by blast
qed

lemma mk_Rule_exists:
  assumes "fits r" "r \<noteq> ''''"
  shows "\<exists>R. mk_Rule r = Inr R \<and> atom R = r \<and> clauses R \<noteq> [] \<and>
       (if sublist '':-'' r then r = head R @ '':-'' @ body R \<and> \<not> sublist '':-'' (head R @ '':'')
        else head R = r \<and> body R = tl r)"
proof (cases "sublist '':-'' r")
  case True
  then obtain h b where hb: "r = h @ '':-'' @ b" "\<not> sublist '':-'' (h @ '':'')"
    using assms(1) by (rule mk_Rule_arrow_split)
  moreover obtain ds where "getClauses_loop b [] = Inr ds" "ds \<noteq> []"
    using getClauses_loop_total [of b "[]"] assms(1) hb(1) by auto
  ultimately show ?thesis using True assms mk_Rule_found [of h b] by simp
next
  case False
  moreover have "fits (tl r)" using assms(1) by (cases r) auto
  then obtain ds where "getClauses_loop (tl r) [] = Inr ds" "ds \<noteq> []"
    using getClauses_loop_total [of "tl r" "[]"] by auto
  ultimately show ?thesis using assms mk_Rule_no_arrow [of r] by simp
qed

section \<open>Properties\<close>

text \<open>
  \<^verbatim>\<open>Rule(r)\<close> throws exactly on the empty text. Otherwise it returns, keeps the text as
  the atom and cuts it at the first \<^verbatim>\<open>":-"\<close>; without one the head is the whole text and
  the body all but its first character (the wrap-around of \<^verbatim>\<open>npos + 2\<close>).
\<close>

theorem mk_Rule_total:
  assumes "fits r"
  shows "(mk_Rule r = Inl Out_Of_Range \<longleftrightarrow> r = '''') \<and>
    (r \<noteq> '''' \<longrightarrow> (\<exists>R. mk_Rule r = Inr R \<and> atom R = r \<and> clauses R \<noteq> [] \<and>
       (if sublist '':-'' r then r = head R @ '':-'' @ body R \<and> \<not> sublist '':-'' (head R @ '':'')
        else head R = r \<and> body R = tl r)))"
  using mk_Rule_exists [OF assms] by (cases "r = ''''") (auto simp: mk_Rule_empty)

theorem mk_Rule_total_witness:
  "mk_Rule '''' = Inl Out_Of_Range \<and> (\<exists>R. mk_Rule ''p(a):-q(b).'' = Inr R \<and> atom R = ''p(a):-q(b).'')"
  using mk_Rule_total [of "''''"] mk_Rule_total [of "''p(a):-q(b).''"] by (auto simp: npos_def)

text \<open>
  No text is lost by the split of the body: all pieces but the last end with the bracket
  of a separator, and with \<open>w\<close> the text after the last separator, the body is the pieces
  joined by commas, where the last piece is \<open>w\<close> without its final character.
\<close>

theorem mk_Rule_clauses_join:
  assumes "fits r" "mk_Rule r = Inr R"
  shows "\<exists>w. body R = join '','' (butlast (clauses R) @ [w]) \<and> last (clauses R) = butlast w \<and>
    \<not> sublist ''),'' w \<and> (\<forall>c \<in> set (butlast (clauses R)). suffix '')'' c)"
proof -
  have "getClauses_loop (body R) [] = Inr (clauses R)" "length (body R) \<le> length r"
    using assms(2)
    by (auto simp: mk_Rule_def getClauses_def Let_def ebind_Inr_iff dest!: str_substr_eq_InrD)
  with assms(1) getClauses_loop_join [of "body R" "[]" "clauses R"] show ?thesis by simp
qed

theorem mk_Rule_clauses_join_witness:
  "\<exists>R w. mk_Rule ''p(a):-q(b),r(c).'' = Inr R \<and>
     body R = join '','' (butlast (clauses R) @ [w]) \<and> last (clauses R) = butlast w"
proof -
  have f: "fits ''p(a):-q(b),r(c).''" by (simp add: npos_def)
  then obtain R where "mk_Rule ''p(a):-q(b),r(c).'' = Inr R" using mk_Rule_exists [of "''p(a):-q(b),r(c).''"] by auto
  with mk_Rule_clauses_join [OF f] show ?thesis by blast
qed

text \<open>
  C39: on a rule printed from the grammar's literals the constructor finds the head, the body
  and exactly the literals of the body (also a \<open>says\<close> literal stays whole).
\<close>

theorem mk_Rule_literals:
  assumes "\<not> sublist '':-'' (show_literal h @ '':'')" "ls \<noteq> []" "\<forall>l \<in> set ls. wf_literal l"
    "fits (show_literal h @ '':-'' @ show_body ls)"
  shows "mk_Rule (show_literal h @ '':-'' @ show_body ls) =
    Inr \<lparr>head = show_literal h, body = show_body ls, atom = show_literal h @ '':-'' @ show_body ls,
         clauses = map show_literal ls\<rparr>"
  using assms mk_Rule_found [of "show_literal h" "show_body ls"]
    getClauses_loop_literals [of ls "[]"] by simp

theorem mk_Rule_literals_witness:
  "mk_Rule ''allow(P,read):-says(k,allow(P,read)),ok(P).'' =
    Inr \<lparr>head = ''allow(P,read)'', body = ''says(k,allow(P,read)),ok(P).'',
         atom = ''allow(P,read):-says(k,allow(P,read)),ok(P).'',
         clauses = [''says(k,allow(P,read))'', ''ok(P)'']\<rparr>"
  using mk_Rule_literals [of "Pred ''allow'' [''P'', ''read'']"
      "[Says ''k'' ''allow'' [''P'', ''read''], Pred ''ok'' [''P'']]"]
  by (simp add: show_body_def plain_def npos_def sublist_Cons_right)

end
