(* ===== verification/RM_Policy.thy ===== *)
theory RM_Policy
  imports RM_Rule RM_Utils
begin

text \<open>
  \<^verbatim>\<open>src/src/utils/Policy.h\<close>: the server's policy, read from a Prolog text into facts and
  rules. The theory shows on which texts the reader runs off the string, and that on a
  text that prints clauses one per line it finds exactly these clauses.
\<close>

section \<open>The class and its operations\<close>

record policy =
  pol_pubKey :: string
  policyStr :: string
  pol_keyDigest :: string
  facts :: "string list"
  rules :: "rule list"

definition addRule :: "policy \<Rightarrow> string \<Rightarrow> policy res" where
  "addRule p r = ebind (mk_Rule r) (\<lambda>R. Inr (p\<lparr>rules := rules p @ [R]\<rparr>))"

definition addFact :: "policy \<Rightarrow> string \<Rightarrow> policy" where
  "addFact p f = p\<lparr>facts := facts p @ [f]\<rparr>"

definition setPolicyKeyDigest :: "policy \<Rightarrow> string \<Rightarrow> policy" where
  "setPolicyKeyDigest p kd = p\<lparr>pol_keyDigest := kd\<rparr>"

definition Policy_toString :: "policy \<Rightarrow> string" where
  "Policy_toString p =
     ''Rendering Policy'' @ ''\<newline>'' @ ''Rules'' @ ''\<newline>''
     @ concat (map (\<lambda>r. atom r @ ''\<newline>'') (rules p))
     @ ''\<newline>'' @ ''Facts'' @ ''\<newline>'' @ concat (map (\<lambda>f. f @ ''\<newline>'') (facts p))"

definition getsub :: "string \<Rightarrow> string \<Rightarrow> string res" where
  "getsub source delim =
     (if source \<noteq> '''' \<and> delim \<noteq> '''' then
        (let pos = str_find source delim; dif = sz_sub (length source) (length delim) in
         if pos \<noteq> npos then str_substr source (pos + length delim) dif else Inr '''')
      else Inr '''')"

text \<open>
  \<^verbatim>\<open>while(!isspace(policyStr[pos])) pos--\<close>: reading at the length gives the terminating
  zero, reading beyond it (also after \<open>0 - 1\<close>) is outside the string.
\<close>

fun back_to_space :: "string \<Rightarrow> nat \<Rightarrow> nat res" where
  "back_to_space s 0 = (if s \<noteq> [] \<and> c_isspace (s ! 0) then Inr 0 else Inl Bad_Index)"
| "back_to_space s (Suc n) =
     (if length s < Suc n then Inl Bad_Index
      else if Suc n < length s \<and> c_isspace (s ! Suc n) then Inr (Suc n)
      else back_to_space s n)"

lemma str_find_first_of_bound: "first_of_aux cs s k = Some i \<Longrightarrow> i < k + length s \<and> k \<le> i"
  by (induction cs s k rule: first_of_aux.induct) (auto split: if_splits)

lemma getsub_shorter:
  assumes "getsub s d = Inr t" "s \<noteq> ''''"
  shows "length t < length s"
proof (cases "find_aux d s 0")
  case None
  with assms show ?thesis by (auto simp: getsub_def str_find_def Let_def split: if_splits)
next
  case (Some i)
  from find_aux_bound [OF Some] assms Some show ?thesis
    by (auto simp: getsub_def str_find_def Let_def min.strict_coboundedI1
        split: if_splits dest!: str_substr_eq_InrD)
qed

text \<open>The loop of \<^verbatim>\<open>getAtoms\<close> over the text up to each full stop.\<close>

function getAtoms_loop :: "string \<Rightarrow> string list \<Rightarrow> rule list \<Rightarrow> (string list \<times> rule list) res" where
  "getAtoms_loop tmp fs rs =
     (let idx = str_find_first_of tmp ''.'' in
      if tmp \<noteq> '''' \<and> idx \<noteq> npos then
        ebind (str_substr tmp 0 (idx + 1)) (\<lambda>t.
        ebind (trim t) (\<lambda>a.
        ebind (if str_find a '':-'' \<noteq> npos then ebind (mk_Rule a) (\<lambda>R. Inr (fs, rs @ [R]))
               else Inr (fs @ [a], rs)) (\<lambda>(fs', rs').
        ebind (getsub tmp ''.'') (\<lambda>tmp'. getAtoms_loop tmp' fs' rs'))))
      else Inr (fs, rs))"
  by pat_completeness auto
termination
  by (relation "measure (\<lambda>(tmp, fs, rs). length tmp)") (auto dest: getsub_shorter)

declare getAtoms_loop.simps [simp del]

definition getAtoms :: "policy \<Rightarrow> policy res" where
  "getAtoms p =
     (let s = policyStr p; pos = str_find_first_of s ''('' in
      ebind (if length s < pos then Inl Bad_Index else back_to_space s pos) (\<lambda>pos.
      ebind (str_substr s pos (sz_sub (sz_sub (length s) pos) 1)) (\<lambda>tmp.
      ebind (getAtoms_loop tmp (facts p) (rules p)) (\<lambda>(fs, rs).
        Inr (p\<lparr>facts := fs, rules := rs\<rparr>)))))"

definition Policy_new :: "string \<Rightarrow> policy res" where
  "Policy_new s =
     (if s \<noteq> '''' then
        getAtoms \<lparr>pol_pubKey = '''', policyStr = s, pol_keyDigest = '''', facts = [], rules = []\<rparr>
      else Inr \<lparr>pol_pubKey = '''', policyStr = '''', pol_keyDigest = '''', facts = [], rules = []\<rparr>)"

section \<open>The start of the first clause\<close>

lemma back_to_space_found:
  "\<forall>j. i < j \<and> j \<le> n \<longrightarrow> \<not> c_isspace (s ! j) \<Longrightarrow> i \<le> n \<Longrightarrow> n < length s \<Longrightarrow> c_isspace (s ! i) \<Longrightarrow>
     back_to_space s n = Inr i"
proof (induction n)
  case 0
  then show ?case by (cases s) auto
next
  case (Suc n)
  then show ?case by (cases "i = Suc n") auto
qed

lemma back_to_space_error:
  "n \<le> length s \<Longrightarrow> \<forall>j \<le> n. j < length s \<longrightarrow> \<not> c_isspace (s ! j) \<Longrightarrow> back_to_space s n = Inl Bad_Index"
  by (induction n) auto

lemma back_to_space_bound: "back_to_space s n = Inr i \<Longrightarrow> i < length s"
  by (induction n) (auto split: if_splits)

section \<open>The loop on clauses\<close>

definition atom_text :: "string \<Rightarrow> bool" where
  "atom_text a \<longleftrightarrow> (\<forall>c \<in> set a. \<not> c_isspace c \<and> c \<noteq> CHR ''.'') \<and> \<not> sublist ''/*'' a"

lemma trim_space_isspace: "trim_space c \<Longrightarrow> c_isspace c"
  by (auto simp: trim_space_def c_isspace_def)

lemma c_isspace_bracket: "\<not> c_isspace (CHR ''('')"
  by (simp add: c_isspace_def)

lemma back_to_space_Inl: "back_to_space s n = Inl e \<Longrightarrow> e = Bad_Index"
  by (induction s n rule: back_to_space.induct) (auto split: if_splits)

lemma getAtoms_loop_Nil: "getAtoms_loop '''' fs rs = Inr (fs, rs)"
  by (simp add: getAtoms_loop.simps)

lemma getAtoms_loop_step:
  assumes "\<forall>c \<in> set w. trim_space c" "atom_text a" "fits (w @ a @ ''.'' @ b)"
  shows "getAtoms_loop (w @ a @ ''.'' @ b) fs rs =
    (if sublist '':-'' (a @ ''.'') then
       ebind (mk_Rule (a @ ''.'')) (\<lambda>R. getAtoms_loop b fs (rs @ [R]))
     else getAtoms_loop b (fs @ [a @ ''.'']) rs)"
proof -
  let ?t = "w @ a @ ''.'' @ b"
  have "\<not> trim_space (CHR ''.'')" by (simp add: trim_space_def)
  with assms(1,2) have ndot: "CHR ''.'' \<notin> set (w @ a)" by (auto simp: atom_text_def)
  have idx: "str_find_first_of ?t ''.'' = length (w @ a)"
    using str_find_first_of_append [of "w @ a" "''.''" "CHR ''.''" b] ndot by auto
  have sub: "getsub ?t ''.'' = Inr b"
  proof -
    have "str_find ?t ''.'' = length (w @ a)"
      using str_find_first [of "''.''" "w @ a" b] ndot by (simp add: sublist_singleton butlast_append)
    moreover have "sz_sub (length ?t) 1 = length ?t - 1"
      using fits_sz [OF assms(3)] by (intro sz_sub_small) auto
    ultimately show ?thesis using assms(3) by (simp add: getsub_def Let_def)
  qed
  have "filter (\<lambda>c. \<not> trim_space c) w = []" using assms(1) by simp
  moreover have "filter (\<lambda>c. \<not> trim_space c) a = a"
    using assms(2) trim_space_isspace by (simp add: atom_text_def filter_id_conv) blast
  ultimately have flt: "filter (\<lambda>c. \<not> trim_space c) (w @ a @ ''.'') = a @ ''.''"
    by (simp add: trim_space_def)
  moreover have "\<not> sublist ''/*'' (a @ ''.'')"
    using assms(2) sublist_two_snoc [of "CHR ''*''" "CHR ''.''" "CHR ''/''" a] by (simp add: atom_text_def)
  ultimately have tr: "trim (w @ a @ ''.'') = Inr (a @ ''.'')" using trim_plain by metis
  have fa: "fits (a @ ''.'')" using assms(3) by simp
  have "length (w @ a) \<noteq> npos" using assms(3) by simp
  then show ?thesis
    using idx sub tr str_find_npos_iff [OF fa, of "'':-''"]
    by (subst getAtoms_loop.simps) (simp add: Let_def ebind_assoc cong: if_cong)
qed

lemma getAtoms_loop_clauses:
  "\<forall>(w, a) \<in> set was. (\<forall>c \<in> set w. trim_space c) \<and> atom_text a \<Longrightarrow>
   fits (concat (map (\<lambda>(w, a). w @ a @ ''.'') was)) \<Longrightarrow>
   \<exists>Rs. getAtoms_loop (concat (map (\<lambda>(w, a). w @ a @ ''.'') was)) fs rs =
      Inr (fs @ filter (\<lambda>t. \<not> sublist '':-'' t) (map (\<lambda>(w, a). a @ ''.'') was), rs @ Rs) \<and>
     map atom Rs = filter (\<lambda>t. sublist '':-'' t) (map (\<lambda>(w, a). a @ ''.'') was)"
proof (induction was arbitrary: fs rs)
  case Nil
  then show ?case by (simp add: getAtoms_loop_Nil)
next
  case (Cons wa was)
  obtain w a where wa: "wa = (w, a)" by (cases wa)
  let ?b = "concat (map (\<lambda>(w, a). w @ a @ ''.'') was)"
  have step: "getAtoms_loop (w @ a @ ''.'' @ ?b) fs rs =
    (if sublist '':-'' (a @ ''.'') then
       ebind (mk_Rule (a @ ''.'')) (\<lambda>R. getAtoms_loop ?b fs (rs @ [R]))
     else getAtoms_loop ?b (fs @ [a @ ''.'']) rs)"
    using Cons.prems wa by (intro getAtoms_loop_step) auto
  have IH: "\<And>fs rs. \<exists>Rs. getAtoms_loop ?b fs rs =
      Inr (fs @ filter (\<lambda>t. \<not> sublist '':-'' t) (map (\<lambda>(w, a). a @ ''.'') was), rs @ Rs) \<and>
     map atom Rs = filter (\<lambda>t. sublist '':-'' t) (map (\<lambda>(w, a). a @ ''.'') was)"
    using Cons.prems by (intro Cons.IH) auto
  show ?case
  proof (cases "sublist '':-'' (a @ ''.'')")
    case False
    with IH [of "fs @ [a @ ''.'']" rs] step wa show ?thesis by auto
  next
    case True
    have "fits (a @ ''.'')" using Cons.prems(2) wa by simp
    from mk_Rule_exists [OF this] obtain R where "mk_Rule (a @ ''.'') = Inr R" "atom R = a @ ''.''"
      by auto
    with True IH [of fs "rs @ [R]"] step wa show ?thesis by fastforce
  qed
qed

section \<open>No other failure\<close>

lemma getsub_total: "\<exists>t. getsub s d = Inr t"
proof (cases "find_aux d s 0")
  case None
  then show ?thesis by (simp add: getsub_def str_find_def Let_def)
next
  case (Some i)
  with find_aux_bound [OF Some] show ?thesis by (simp add: getsub_def str_find_def Let_def)
qed

lemma mk_Rule_arrow_total:
  assumes "fits a" "str_find a '':-'' \<noteq> npos"
  shows "\<exists>R. mk_Rule a = Inr R"
proof -
  have "a \<noteq> ''''" using assms(2) by (auto simp: str_find_def)
  with mk_Rule_exists [OF assms(1)] show ?thesis by blast
qed

lemma getAtoms_loop_total: "fits s \<Longrightarrow> \<exists>r. getAtoms_loop s fs rs = Inr r"
proof (induction s arbitrary: fs rs rule: length_induct)
  case (1 s)
  show ?case
  proof (cases "s \<noteq> '''' \<and> str_find_first_of s ''.'' \<noteq> npos")
    case False
    then show ?thesis by (subst getAtoms_loop.simps) (auto simp: Let_def)
  next
    case True
    let ?t = "take (str_find_first_of s ''.'' + 1) s"
    have "length ?t \<le> length s" by (simp add: min.coboundedI1)
    then have "fits ?t" using "1.prems" by (rule le_less_trans)
    from trim_returns [OF this] obtain a where a: "trim ?t = Inr a" "length a \<le> length ?t" by blast
    with \<open>fits ?t\<close> have "fits a" by (meson le_less_trans)
    then obtain fs' rs' where m: "(if str_find a '':-'' \<noteq> npos then ebind (mk_Rule a) (\<lambda>R. Inr (fs, rs @ [R]))
               else Inr (fs @ [a], rs)) = Inr (fs', rs')"
      using mk_Rule_arrow_total [of a] by (cases "str_find a '':-'' \<noteq> npos") force+
    obtain b where b: "getsub s ''.'' = Inr b" using getsub_total by blast
    with True have "length b < length s" using getsub_shorter by blast
    with "1.IH" "1.prems" obtain r where "getAtoms_loop b fs' rs' = Inr r" by fastforce
    with True a(1) m b show ?thesis by (subst getAtoms_loop.simps) (simp add: Let_def)
  qed
qed

lemma first_bracket:
  assumes "CHR ''('' \<in> set s"
  shows "str_find_first_of s ''('' = length (takeWhile (\<lambda>c. c \<noteq> CHR ''('') s)"
    "length (takeWhile (\<lambda>c. c \<noteq> CHR ''('') s) < length s"
proof -
  obtain a b where s: "s = a @ CHR ''('' # b" "CHR ''('' \<notin> set a"
    using split_list_first [OF assms] by blast
  have "takeWhile (\<lambda>c. c \<noteq> CHR ''('') s = a"
    unfolding s(1) using s(2) by (subst takeWhile_append2) auto
  moreover have "str_find_first_of s ''('' = length a"
    unfolding s(1) using s(2) by (intro str_find_first_of_append) auto
  ultimately show "str_find_first_of s ''('' = length (takeWhile (\<lambda>c. c \<noteq> CHR ''('') s)"
    "length (takeWhile (\<lambda>c. c \<noteq> CHR ''('') s) < length s" using s by auto
qed

lemma back_to_space_first_bracket:
  assumes "CHR ''('' \<in> set s"
  shows "back_to_space s (length (takeWhile (\<lambda>c. c \<noteq> CHR ''('') s)) = Inl Bad_Index \<longleftrightarrow>
    (\<forall>c \<in> set (takeWhile (\<lambda>c. c \<noteq> CHR ''('') s). \<not> c_isspace c)"
proof -
  let ?t = "takeWhile (\<lambda>c. c \<noteq> CHR ''('') s" and ?n = "length (takeWhile (\<lambda>c. c \<noteq> CHR ''('') s)"
  have lt: "?n < length s" by (rule first_bracket(2) [OF assms])
  have at: "s ! ?n = CHR ''(''" using nth_length_takeWhile [OF lt] by simp
  have nth: "s ! j = ?t ! j" if "j < ?n" for j using takeWhile_nth [OF that] by simp
  show ?thesis
  proof (cases "\<exists>c \<in> set ?t. c_isspace c")
    case False
    then have "\<forall>j \<le> ?n. j < length s \<longrightarrow> \<not> c_isspace (s ! j)"
      using at nth by (metis c_isspace_bracket le_neq_implies_less nth_mem)
    with lt False show ?thesis by (simp add: back_to_space_error)
  next
    case True
    let ?J = "{j. j < ?n \<and> c_isspace (s ! j)}"
    have ne: "finite ?J" "?J \<noteq> {}" using True nth by (auto simp: in_set_conv_nth)
    then have M: "Max ?J < ?n" "c_isspace (s ! Max ?J)" using Max_in [OF ne] by auto
    have "\<not> c_isspace (s ! j)" if "Max ?J < j" "j \<le> ?n" for j
    proof (cases "j = ?n")
      case True
      with at show ?thesis by (simp add: c_isspace_def)
    next
      case False
      with that have "j < ?n" by simp
      have "j \<le> Max ?J" if "c_isspace (s ! j)"
        using \<open>j < ?n\<close> that by (intro Max_ge [OF ne(1)]) simp
      with that(1) show ?thesis by auto
    qed
    then have "\<forall>j. Max ?J < j \<and> j \<le> ?n \<longrightarrow> \<not> c_isspace (s ! j)" by blast
    then have "back_to_space s ?n = Inr (Max ?J)"
      by (rule back_to_space_found) (use M lt in simp_all)
    with True show ?thesis by simp
  qed
qed

section \<open>Properties\<close>

text \<open>
  The reader leaves the string (an access outside its bounds) exactly when the policy has
  no opening bracket, or no white space before the first one; otherwise it returns.
\<close>

theorem getAtoms_bad_index:
  assumes "fits (policyStr p)"
  shows "if CHR ''('' \<notin> set (policyStr p) \<or>
      (\<forall>c \<in> set (takeWhile (\<lambda>c. c \<noteq> CHR ''('') (policyStr p)). \<not> c_isspace c)
    then getAtoms p = Inl Bad_Index
    else \<exists>fs rs. getAtoms p = Inr (p\<lparr>facts := fs, rules := rs\<rparr>)"
proof (cases "CHR ''('' \<in> set (policyStr p)")
  case False
  then have "str_find_first_of (policyStr p) ''('' = npos"
    by (intro str_find_first_of_npos) auto
  with False assms show ?thesis by (simp add: getAtoms_def Let_def)
next
  case True
  let ?s = "policyStr p"
  note fb = first_bracket [OF True] back_to_space_first_bracket [OF True]
  show ?thesis
  proof (cases "back_to_space ?s (str_find_first_of ?s ''('')")
    case (Inl e)
    moreover have "e = Bad_Index" using Inl by (rule back_to_space_Inl)
    ultimately show ?thesis using True fb by (simp add: getAtoms_def Let_def)
  next
    case (Inr i)
    let ?t = "take (sz_sub (sz_sub (length ?s) i) 1) (drop i ?s)"
    have "fits ?t" using assms by (simp add: min.strict_coboundedI1)
    then obtain r where "getAtoms_loop ?t (facts p) (rules p) = Inr r"
      using getAtoms_loop_total by blast
    with Inr back_to_space_bound [OF Inr] True fb show ?thesis
      by (auto simp: getAtoms_def Let_def split: prod.splits)
  qed
qed

theorem getAtoms_bad_index_witness:
  "getAtoms \<lparr>pol_pubKey = '''', policyStr = ''p(a).'', pol_keyDigest = '''', facts = [], rules = []\<rparr>
     = Inl Bad_Index"
  using getAtoms_bad_index [of "\<lparr>pol_pubKey = '''', policyStr = ''p(a).'', pol_keyDigest = '''', facts = [], rules = []\<rparr>"]
  by (simp add: npos_def c_isspace_def)

lemma butlast_lines:
  "as \<noteq> [] \<Longrightarrow> butlast (w @ concat (map (\<lambda>a. a @ ''.'' @ ''\<newline>'') as)) =
     concat (map (\<lambda>(w, a). w @ a @ ''.'') ((w, hd as) # map (\<lambda>a. (''\<newline>'', a)) (tl as)))"
proof (induction as arbitrary: w rule: list_nonempty_induct)
  case (single a)
  then show ?case by (simp add: butlast_append)
next
  case (cons a as)
  then obtain b bs where "as = b # bs" by (cases as) auto
  with cons(2) [of "w @ a @ ''.'' @ ''\<newline>''"] cons(2) [of "''\<newline>''"] show ?case
    by simp
qed

text \<open>
  C40: a policy text that, after a preamble without brackets and a blank, lists clauses one per
  line is read completely: the clauses without \<^verbatim>\<open>":-"\<close> become the facts, in order, and those
  with it the rules.
\<close>

theorem getAtoms_clauses:
  assumes "policyStr p = pre @ w # concat (map (\<lambda>a. a @ ''.'' @ ''\<newline>'') as)"
    "CHR ''('' \<notin> set pre" "trim_space w" "\<forall>a \<in> set as. atom_text a" "as \<noteq> []"
    "CHR ''('' \<in> set (hd as)" "fits (policyStr p)"
  shows "\<exists>Rs. getAtoms p = Inr (p\<lparr>facts := facts p @ filter (\<lambda>t. \<not> sublist '':-'' t) (map (\<lambda>a. a @ ''.'') as),
        rules := rules p @ Rs\<rparr>) \<and>
     map atom Rs = filter (\<lambda>t. sublist '':-'' t) (map (\<lambda>a. a @ ''.'') as)"
proof -
  let ?s = "policyStr p"
  define ls where "ls = concat (map (\<lambda>a. a @ ''.'' @ ''\<newline>'') as)"
  have s: "?s = pre @ w # ls" using assms(1) by (simp only: ls_def)
  obtain q r where q: "hd as = q @ CHR ''('' # r" "CHR ''('' \<notin> set q"
    using split_list_first [OF assms(6)] by blast
  then obtain t where t: "ls = q @ CHR ''('' # t" unfolding ls_def using assms(5) by (cases as) auto
  have nsp: "\<forall>c \<in> set q. \<not> c_isspace c" using assms(4,5) q(1) by (cases as) (auto simp: atom_text_def)
  have sp: "c_isspace w" "w \<noteq> CHR ''(''" using trim_space_isspace [OF assms(3)] assms(3)
    by (auto simp: trim_space_def)
  have pos: "str_find_first_of ?s ''('' = length (pre @ w # q)"
    using str_find_first_of_append [of "pre @ w # q" "''(''" "CHR ''(''" t] assms(2) q(2) sp t
    by (simp add: s)
  have bk: "back_to_space ?s (length (pre @ w # q)) = Inr (length pre)"
  proof (rule back_to_space_found)
    show "\<forall>j. length pre < j \<and> j \<le> length (pre @ w # q) \<longrightarrow> \<not> c_isspace (?s ! j)"
      using nsp by (auto simp: s t nth_append nth_Cons' c_isspace_bracket)
  qed (use sp in \<open>simp_all add: s t\<close>)
  have len: "sz_sub (sz_sub (length ?s) (length pre)) 1 = length (w # ls) - 1"
    using fits_sz [OF assms(7)] by (simp add: s sz_sub_small [where b = "Suc 0"])
  have tmp: "str_substr ?s (length pre) (length (w # ls) - 1) = Inr (butlast ([w] @ ls))"
    by (simp add: s butlast_conv_take)
  let ?was = "([w], hd as) # map (\<lambda>a. (''\<newline>'', a)) (tl as)"
  have snd: "map (\<lambda>(w, a). a @ ''.'') ?was = map (\<lambda>a. a @ ''.'') as"
    using assms(5) by (cases as) simp_all
  have bl: "butlast ([w] @ ls) = concat (map (\<lambda>(w, a). w @ a @ ''.'') ?was)"
    unfolding ls_def by (rule butlast_lines [OF assms(5)])
  have "length (butlast ([w] @ ls)) \<le> length ?s" by (simp add: s)
  then have "fits (butlast ([w] @ ls))" using assms(7) by (rule le_less_trans)
  then have "\<exists>Rs. getAtoms_loop (butlast ([w] @ ls)) (facts p) (rules p) =
      Inr (facts p @ filter (\<lambda>t. \<not> sublist '':-'' t) (map (\<lambda>(w, a). a @ ''.'') ?was), rules p @ Rs) \<and>
     map atom Rs = filter (\<lambda>t. sublist '':-'' t) (map (\<lambda>(w, a). a @ ''.'') ?was)"
    unfolding bl using assms(3,4,5)
    by (intro getAtoms_loop_clauses) (auto simp: trim_space_def dest: list.set_sel)
  then obtain Rs where loop: "getAtoms_loop (butlast ([w] @ ls)) (facts p) (rules p) =
      Inr (facts p @ filter (\<lambda>t. \<not> sublist '':-'' t) (map (\<lambda>a. a @ ''.'') as), rules p @ Rs)"
    "map atom Rs = filter (\<lambda>t. sublist '':-'' t) (map (\<lambda>a. a @ ''.'') as)"
    unfolding snd by blast
  have "\<not> length ?s < length (pre @ w # q)" by (simp add: s t)
  then have "getAtoms p = Inr (p\<lparr>facts := facts p @ filter (\<lambda>t. \<not> sublist '':-'' t) (map (\<lambda>a. a @ ''.'') as),
        rules := rules p @ Rs\<rparr>)"
    by (simp only: getAtoms_def Let_def pos bk len tmp loop(1) if_False ebind_simps prod.case)
  with loop(2) show ?thesis by blast
qed

theorem getAtoms_clauses_witness:
  "\<exists>Rs. getAtoms \<lparr>pol_pubKey = '''', policyStr = ''/*P*/'' @ ''\<newline>'' @ ''p(a).'' @ ''\<newline>'' @ ''q(X):-p(X).'' @ ''\<newline>'',
       pol_keyDigest = '''', facts = [], rules = []\<rparr> =
     Inr \<lparr>pol_pubKey = '''', policyStr = ''/*P*/'' @ ''\<newline>'' @ ''p(a).'' @ ''\<newline>'' @ ''q(X):-p(X).'' @ ''\<newline>'',
       pol_keyDigest = '''', facts = [''p(a).''], rules = Rs\<rparr> \<and> map atom Rs = [''q(X):-p(X).'']"
  using getAtoms_clauses [of "\<lparr>pol_pubKey = '''', policyStr = ''/*P*/'' @ ''\<newline>'' @ ''p(a).'' @ ''\<newline>'' @ ''q(X):-p(X).'' @ ''\<newline>'',
       pol_keyDigest = '''', facts = [], rules = []\<rparr>" "''/*P*/''" "CHR 0x0A" "[''p(a)'', ''q(X):-p(X)'']"]
  by (simp add: npos_def trim_space_def atom_text_def c_isspace_def sublist_Cons_right)

end
