(* ===== verification/RM_Security.thy ===== *)
theory RM_Security
  imports RM_Policy RM_Credential
begin

text \<open>
  \<^verbatim>\<open>src/src/utils/SecurityService.h\<close>: verification of credentials, translation of their
  clauses into Binder statements, construction and execution of queries.

  OpenSSL is not part of the sources: the base 64 filter, MD5, the PEM reader and RSA are
  the fields of a record that every operation takes. So is what running the query command
  outputs, and when. The theory shows what a verified credential guarantees, what a certificate
  with an unreadable key is accepted with, that every clause is attributed to the key that
  signed it, and what the query that reaches the shell is made of.
\<close>

section \<open>The environment\<close>

text \<open>
  \<open>bio_read C s n\<close> is what \<^verbatim>\<open>BIO_read\<close> of at most \<open>n\<close> bytes from the base 64
  filter over \<open>s\<close> stores and returns. \<open>bio_new_ok\<close> says whether a memory \<^verbatim>\<open>BIO\<close> over
  a text can be made.
\<close>

record 'k crypto =
  bio_new_ok :: "string \<Rightarrow> bool"
  bio_read :: "string \<Rightarrow> nat \<Rightarrow> string \<times> int"
  pem_read :: "string \<Rightarrow> 'k option"
  rsa_size :: "'k \<Rightarrow> nat"
  rsa_verify :: "string \<Rightarrow> string \<Rightarrow> 'k \<Rightarrow> bool"
  md5 :: "string \<Rightarrow> string"

text \<open>
  The thread of a query either cannot be made, has ended when \<^verbatim>\<open>executeQuery\<close> signals it
  (with the output of the command, or \<open>None\<close> if \<^verbatim>\<open>popen\<close> failed), or is still alive then.
\<close>

datatype query_run = No_Thread | Thread_Gone "string option" | Thread_Alive

section \<open>State\<close>

record security =
  sec_policyStr :: string
  sec_policy :: "policy option"
  sec_cred :: "credential option"

definition SecurityService_new :: security where
  "SecurityService_new = \<lparr>sec_policyStr = '''', sec_policy = None, sec_cred = None\<rparr>"

definition setPolicy :: "string \<Rightarrow> security \<Rightarrow> security res" where
  "setPolicy s sec = ebind (Policy_new s) (\<lambda>p. Inr (sec\<lparr>sec_policyStr := s, sec_policy := Some p\<rparr>))"

section \<open>Digests and signatures\<close>

text \<open>The buffer has three times the length and starts zeroed; the length becomes what the read returned.\<close>

definition decodeB64 :: "('k, 'z) crypto_scheme \<Rightarrow> string \<Rightarrow> nat \<Rightarrow> string \<times> int" where
  "decodeB64 C input len =
     (let (bytes, n) = bio_read C (take len input) len in
      (take (3 * len) (take len bytes @ replicate (3 * len) (CHR 0x00)), n))"

text \<open>
  The encoder, which nothing calls. What OpenSSL's base 64 filter wrote and whether it could be flushed is an argument.
\<close>

definition encodeB64 :: "(string \<Rightarrow> bool \<times> string) \<Rightarrow> string \<Rightarrow> nat \<Rightarrow> string option" where
  "encodeB64 bio input len =
     (let (flushed, data) = bio (take len input) in if flushed then Some (data @ [CHR 0x00]) else None)"

lemma encode_decode:
  assumes "bio input = (True, data)" "bio_read C data (length data) = (input, int (length input))" "length input \<le> length data"
  shows "\<exists>e. encodeB64 bio input (length input) = Some e \<and>
    take (length input) (fst (decodeB64 C e (length e - 1))) = input \<and> snd (decodeB64 C e (length e - 1)) = int (length input)"
  using assms by (simp add: encodeB64_def decodeB64_def)

definition MD5_DIGEST_LENGTH :: nat where
  "MD5_DIGEST_LENGTH = 16"

text \<open>The digest buffer: \<^verbatim>\<open>MD5\<close> over \<open>len\<close> bytes of the message, which must be there.\<close>

definition getMsgDigest :: "('k, 'z) crypto_scheme \<Rightarrow> string \<Rightarrow> nat \<Rightarrow> string res" where
  "getMsgDigest C msg len =
     (if length msg < len then Inl Bad_Index
      else Inr (take MD5_DIGEST_LENGTH (md5 C (take len msg) @ replicate MD5_DIGEST_LENGTH (CHR 0x00)) @ [CHR 0x00]))"

definition c_strlen :: "string \<Rightarrow> nat" where
  "c_strlen s = length (takeWhile (\<lambda>c. c \<noteq> CHR 0x00) s)"

definition getMsgDigest_str :: "('k, 'z) crypto_scheme \<Rightarrow> string \<Rightarrow> string res" where
  "getMsgDigest_str C msg = getMsgDigest C msg (c_strlen msg)"

definition hex_digit :: "nat \<Rightarrow> char" where
  "hex_digit n = ''0123456789abcdef'' ! (n mod 16)"

text \<open>\<^verbatim>\<open>sprintf(..., "%02x", c)\<close>.\<close>

definition hex_byte :: "char \<Rightarrow> string" where
  "hex_byte c = [hex_digit (of_char c div 16), hex_digit (of_char c mod 16)]"

text \<open>A negative length becomes a huge one when it is passed on as \<^verbatim>\<open>size_t\<close>.\<close>

definition getKeyDigest :: "('k, 'z) crypto_scheme \<Rightarrow> string \<Rightarrow> string res" where
  "getKeyDigest C key =
     (let (decKey, keyLen) = decodeB64 C key (length key) in
      ebind (if keyLen < 0 then Inl Bad_Index else getMsgDigest C decKey (nat keyLen)) (\<lambda>d.
        Inr (''rsa_'' @ concat (map hex_byte (take MD5_DIGEST_LENGTH d)))))"

text \<open>
  \<^verbatim>\<open>RSA_verify\<close> reads as many bytes of the decoded signature as the key has, whatever the
  length of the signature was. A key that does not parse leaves \<^verbatim>\<open>retVal\<close> as it is: true.
\<close>

definition verifySig :: "('k, 'z) crypto_scheme \<Rightarrow> string \<Rightarrow> string \<Rightarrow> string \<Rightarrow> bool res" where
  "verifySig C key b64sig msg =
     (if key = '''' then Inr False
      else if b64sig = '''' then Inr False
      else if msg = '''' then Inr False
      else
        ebind (getMsgDigest_str C msg) (\<lambda>md5Digest.
          if bio_new_ok C key then
            (case pem_read C key of
               Some pubKey \<Rightarrow>
                 (let (decSig, sigLen) = decodeB64 C b64sig (length b64sig) in
                  if length decSig < rsa_size C pubKey then Inl Bad_Index
                  else Inr (rsa_verify C (take MD5_DIGEST_LENGTH md5Digest) (take (rsa_size C pubKey) decSig) pubKey))
             | None \<Rightarrow> Inr True)
          else Inr True))"

section \<open>Translation of clauses\<close>

fun says_list :: "string \<Rightarrow> string list \<Rightarrow> string" where
  "says_list pfx [] = ''''"
| "says_list pfx (c # cs) =
     pfx @ '','' @ c @ '')'' @ (if cs = [] then ''.'' else '','') @ says_list pfx cs"

definition transformClause :: "policy \<Rightarrow> string \<Rightarrow> (string \<times> policy) res" where
  "transformClause pol clause =
     (let pfx = ''says('' @ pol_keyDigest pol; pos = str_find clause '':-'' in
      if pos \<noteq> npos then
        ebind (mk_Rule clause) (\<lambda>r.
        ebind (if str_find (body r) (head r) \<noteq> npos then Inr (pfx @ '','' @ head r @ ''):-'' @ body r)
               else ebind (getClauses r) (\<lambda>(r', cs). Inr (pfx @ '','' @ head r @ ''):-'' @ says_list pfx cs)))
          (\<lambda>retVal.
        ebind (mk_Rule retVal) (\<lambda>_.
        ebind (addRule pol retVal) (\<lambda>pol'. Inr (retVal, pol')))))
      else
        ebind (str_substr clause 0 (sz_sub (length clause) 1)) (\<lambda>c.
          let retVal = pfx @ '','' @ c @ '').'' in Inr (retVal, addFact pol retVal)))"

section \<open>Verification of a credential\<close>

fun transform_clauses :: "policy \<Rightarrow> string list \<Rightarrow> certificate \<Rightarrow> (certificate \<times> policy) res" where
  "transform_clauses pol [] ct = Inr (ct, pol)"
| "transform_clauses pol (c # cs) ct =
     ebind (transformClause pol c) (\<lambda>(b, pol'). transform_clauses pol' cs (addTransformedCls b ct))"

definition cert_time_ok :: "calendar \<Rightarrow> certificate \<Rightarrow> bool res" where
  "cert_time_ok cal ct =
     (let now = mktime cal (gmtime cal (time_now cal)) in
      case (startTimeSec ct, stopTimeSec ct) of
        (Some a, Some b) \<Rightarrow> Inr (a \<le> now \<and> now < b)
      | _ \<Rightarrow> Inl Uninitialised)"

text \<open>One round of the loop: the flag, the certificate and the policy after it.\<close>

definition verify_certificate ::
  "('k, 'z) crypto_scheme \<Rightarrow> calendar \<Rightarrow> bool \<Rightarrow> policy option \<Rightarrow> certificate \<Rightarrow> (bool \<times> certificate \<times> policy option) res" where
  "verify_certificate C cal validate pol ct =
     ebind (if validate then cert_time_ok cal ct else Inr True) (\<lambda>vTime.
       if validate \<and> \<not> vTime then Inr (False, ct, pol)
       else
         ebind (verifySig C (cert_pubKey ct) (signature ct) (certStr ct)) (\<lambda>ok.
           if ok then
             ebind (getKeyDigest C (cert_pubKey ct)) (\<lambda>d.
               let ct1 = cert_setKeyDigest d ct in
               case pol of
                 None \<Rightarrow> Inl Null_Pointer
               | Some p \<Rightarrow>
                   ebind (transform_clauses (setPolicyKeyDigest p (cert_keyDigest ct1)) (cert_clauses ct1) ct1)
                     (\<lambda>(ct2, p'). Inr (True, ct2, Some p')))
           else Inr (False, ct, pol)))"

fun verify_certificates ::
  "('k, 'z) crypto_scheme \<Rightarrow> calendar \<Rightarrow> bool \<Rightarrow> policy option \<Rightarrow> certificate list
     \<Rightarrow> (bool \<times> certificate list \<times> policy option) res" where
  "verify_certificates C cal validate pol [] = Inr (True, [], pol)"
| "verify_certificates C cal validate pol (ct # cts) =
     ebind (verify_certificate C cal validate pol ct) (\<lambda>(ok, ct', pol').
     ebind (verify_certificates C cal validate pol' cts) (\<lambda>(oks, cts', pol'').
       Inr (ok \<and> oks, ct' # cts', pol'')))"

text \<open>
  \<^verbatim>\<open>verifyCredential\<close>. The credential becomes the service's own (the same object), so the
  state holds its updated value. A null credential is reported and the result is true.
\<close>

definition verifyCredential ::
  "('k, 'z) crypto_scheme \<Rightarrow> calendar \<Rightarrow> bool \<Rightarrow> credential option \<Rightarrow> security \<Rightarrow> (bool \<times> security) res" where
  "verifyCredential C cal validate pCred sec =
     (case pCred of
        None \<Rightarrow> Inr (True, sec)
      | Some cr \<Rightarrow>
          ebind (getKeyDigest C (cred_pubKey cr)) (\<lambda>d.
            let cr1 = cred_setKeyDigest d cr in
            ebind (verify_certificates C cal validate (sec_policy sec) (certificates cr1)) (\<lambda>(ok, cts, pol).
              Inr (ok, sec\<lparr>sec_policy := pol, sec_cred := Some (cr1\<lparr>certificates := cts\<rparr>)\<rparr>))))"

section \<open>Challenges and queries\<close>

definition challenge_char :: "nat \<Rightarrow> char" where
  "challenge_char r =
     (if r mod 5 = 0 then CHR ''@'' else if r mod 3 = 0 then CHR ''!''
      else if r mod 2 = 0 then CHR ''?'' else CHR ''*'')"

text \<open>\<open>rnd i\<close> is the value of the \<open>i\<close>th call of \<^verbatim>\<open>rand()\<close>; the buffer ends with a zero.\<close>

definition generateChallenge :: "(nat \<Rightarrow> nat) \<Rightarrow> string" where
  "generateChallenge rnd = map (\<lambda>i. challenge_char (rnd i)) [0..<MAX_CHALLENGE_BUF] @ [CHR 0x00]"

lemma query_pos_step:
  "sz_add pos (Suc 0) \<noteq> npos \<Longrightarrow>
     (if npos \<le> sz_add pos (Suc 0) then npos + 1 else npos - sz_add pos (Suc 0))
       < (if npos \<le> pos then npos + 1 else npos - pos)"
  by (cases "npos \<le> pos") (auto simp: sz_add_def sz_max_def npos_def)

text \<open>
  The loop of \<^verbatim>\<open>generateQuery\<close>. It reads one position beyond the last character, where
  \<^verbatim>\<open>std::string\<close> has a zero. If there is no parenthesis, \<^verbatim>\<open>pos\<close> starts as \<^verbatim>\<open>npos\<close>
  and the increment makes it 0.
\<close>

function query_args :: "string \<Rightarrow> nat \<Rightarrow> string \<Rightarrow> string list \<Rightarrow> string list res" where
  "query_args msg pos tmp args =
     (if pos \<noteq> length msg then
        let pos1 = sz_add pos 1 in
        if pos1 \<noteq> npos then
          if length msg < pos1 then Inl Bad_Index
          else
            let c = (if pos1 < length msg then msg ! pos1 else CHR 0x00) in
            if (c = CHR '','' \<and> tmp \<noteq> '''') \<or> c = CHR '')'' then query_args msg pos1 '''' (args @ [tmp])
            else if c \<noteq> CHR ''('' \<and> c \<noteq> CHR '')'' then query_args msg pos1 (tmp @ [c]) args
            else query_args msg pos1 tmp args
        else Inr args
      else Inr args)"
  by pat_completeness auto
termination
  by (relation "measure (\<lambda>(msg, pos, tmp, args). if npos \<le> pos then npos + 1 else npos - pos)")
    (auto simp: query_pos_step)

declare query_args.simps [simp del]

text \<open>The message is passed by reference: it is cut down to the request.\<close>

definition generateQuery :: "security \<Rightarrow> string \<Rightarrow> (string \<times> string) res" where
  "generateQuery sec msg =
     (if msg \<noteq> '''' then
        let idx = str_find msg END_CLIENT_REQUEST_S; pos = str_find_first_of msg ''request'' in
        if idx \<noteq> npos \<and> pos \<noteq> npos then
          ebind (str_substr msg pos (sz_sub idx pos)) (\<lambda>msg'.
          ebind (query_args msg' (str_find_first_of msg' ''('') '''' []) (\<lambda>args.
            case sec_cred sec of
              None \<Rightarrow> Inl Null_Pointer
            | Some cr \<Rightarrow> Inr (''allow('' @ cred_keyDigest cr @ '','' @ join '','' args @ '').'', msg')))
        else Inr ('''', msg)
      else Inr ('''', msg))"

text \<open>
  \<^verbatim>\<open>fgets\<close> into 128 bytes: up to 127 characters, or to a newline; each line is then copied
  up to its first zero.
\<close>

fun fgets_line :: "nat \<Rightarrow> string \<Rightarrow> string \<times> string" where
  "fgets_line n [] = ([], [])"
| "fgets_line 0 s = ([], s)"
| "fgets_line (Suc n) (c # s) =
     (if c = CHR ''\<newline>'' then ([c], s) else let (l, r) = fgets_line n s in (c # l, r))"

lemma fgets_line_append: "fst (fgets_line n s) @ snd (fgets_line n s) = s"
  by (induction n s rule: fgets_line.induct) (auto simp: split_beta Let_def)

lemma fgets_line_nonempty: "fgets_line n s = (l, r) \<Longrightarrow> 0 < n \<Longrightarrow> s \<noteq> [] \<Longrightarrow> l \<noteq> []"
  by (induction n s rule: fgets_line.induct) (auto simp: split_beta Let_def split: if_splits)

function read_lines :: "string \<Rightarrow> string" where
  "read_lines s =
     (if s = '''' then ''''
      else let (l, r) = fgets_line 127 s in takeWhile (\<lambda>c. c \<noteq> CHR 0x00) l @ read_lines r)"
  by pat_completeness auto
termination
proof (relation "measure length", goal_cases)
  case 1
  show ?case by simp
next
  case (2 s x l r)
  then obtain c t where s: "s = c # t" by (cases s) auto
  have "l \<noteq> []" using fgets_line_nonempty [of 127 s l r] 2 s by simp
  moreover have "length s = length l + length r"
    using fgets_line_append [of 127 s] 2 by (metis fst_conv length_append snd_conv)
  ultimately show ?case by simp
qed

declare read_lines.simps [simp del]

definition executeQueryProc :: "string option \<Rightarrow> bool \<Rightarrow> bool res" where
  "executeQueryProc out qStats =
     (case out of
        None \<Rightarrow> Inr qStats
      | Some o' \<Rightarrow>
          (let res = read_lines o'; pos = str_find_last_of res ''\<newline>'' in
           ebind (if pos \<noteq> npos then str_substr res (sz_sub pos 3) 3 else Inr res) (\<lambda>res'.
             Inr (if res' = ''yes'' then True else qStats))))"

definition query_command :: "string \<Rightarrow> string" where
  "query_command q = ''xsb --quietload --nobanner --noprompt -e '' @ ''\"['' @ TMP_FILE_S @ '']. '' @ q @ '' halt.\"''"

text \<open>
  \<^verbatim>\<open>executeQuery\<close> waits until the flag is set or a second has passed and then sends
  \<^verbatim>\<open>SIGKILL\<close> to the thread, which ends the whole process if the thread is still there.
\<close>

definition executeQuery :: "(string \<Rightarrow> query_run) \<Rightarrow> string \<Rightarrow> bool res" where
  "executeQuery run q =
     (if q = '''' then Inr False
      else case run (query_command q) of
             No_Thread \<Rightarrow> Inr False
           | Thread_Gone out \<Rightarrow> executeQueryProc out False
           | Thread_Alive \<Rightarrow> Inl Killed)"

section \<open>The Prolog program of a credential\<close>

definition transformed_lines :: "credential \<Rightarrow> string" where
  "transformed_lines cr =
     concat (map (\<lambda>i. case getCertificate cr i of None \<Rightarrow> '''' | Some ct \<Rightarrow>
         concat (map (\<lambda>j. getTransformedCls ct j @ ''\<newline>'') [0..<numTransformedCls ct]))
       [0..<numCertificates cr])"

text \<open>
  \<^verbatim>\<open>writeBinderFile\<close>: the new contents of \<^verbatim>\<open>rlf_tmp.P\<close>, if the file could be opened
  (which empties it), and the result.
\<close>

definition writeBinderFile :: "bool \<Rightarrow> security \<Rightarrow> (bool \<times> string option) res" where
  "writeBinderFile is_open sec =
     (if is_open then
        (case sec_cred sec of
           None \<Rightarrow> Inr (False, Some '''')
         | Some cr \<Rightarrow>
             (case sec_policy sec of
                None \<Rightarrow> Inl Null_Pointer
              | Some p \<Rightarrow>
                  Inr (True, Some (policyStr p @ ''\<newline>'' @ ''/* Begin Transformed Rules */'' @ ''\<newline>''
                    @ transformed_lines cr))))
      else Inr (False, None))"

section \<open>Lengths\<close>

lemma getMsgDigest_returns:
  "len \<le> length msg \<Longrightarrow> \<exists>d. getMsgDigest C msg len = Inr d \<and> length d = MD5_DIGEST_LENGTH + 1"
  by (simp add: getMsgDigest_def)

lemma getMsgDigest_str_returns: "\<exists>d. getMsgDigest_str C msg = Inr d \<and> length d = MD5_DIGEST_LENGTH + 1"
  unfolding getMsgDigest_str_def
  by (rule getMsgDigest_returns) (simp add: c_strlen_def length_takeWhile_le)

lemma length_concat_hex: "length (concat (map hex_byte xs)) = 2 * length xs"
  by (induction xs) (simp_all add: hex_byte_def)

lemma getKeyDigest_length: "getKeyDigest C key = Inr d \<Longrightarrow> length d = 36"
  by (auto simp: getKeyDigest_def ebind_Inr_iff getMsgDigest_def length_concat_hex MD5_DIGEST_LENGTH_def
      simp del: map_append split: prod.splits if_splits)

lemma getClauses_loop_size:
  "fits s \<Longrightarrow> getClauses_loop s cls = Inr (cls @ ds) \<Longrightarrow> length (concat ds) + length ds \<le> length s + 1"
proof (induction s arbitrary: cls ds rule: length_induct)
  case (1 s)
  show ?case
  proof (cases rule: getClauses_loop_cases [OF "1.prems"(1), of cls])
    case 1
    with "1.prems" have "ds = [butlast s]" by simp
    then show ?thesis by simp
  next
    case (2 a b)
    obtain es where es: "getClauses_loop b (cls @ [a @ '')'']) = Inr ((cls @ [a @ '')'']) @ es)"
      using getClauses_loop_total [OF 2(2)] by blast
    with 2 "1.prems" have ds: "ds = (a @ '')'') # es" by simp
    have "length (concat es) + length es \<le> length b + 1" using "1.IH" 2 es by blast
    with 2 ds show ?thesis by simp
  qed
qed

lemma length_says_list: "length (says_list k cs) = length (concat cs) + length cs * (length k + 3)"
  by (induction cs) (simp_all add: algebra_simps)

section \<open>What the translation returns\<close>

definition clause_fits :: "string \<Rightarrow> bool" where
  "clause_fits c \<longleftrightarrow> length c \<le> MAX_BUFF"

lemma mk_Rule_facts:
  assumes "mk_Rule c = Inr r" "fits c" "sublist '':-'' c"
  shows "c = head r @ '':-'' @ body r" "\<not> sublist '':-'' (head r @ '':'')" "getClauses r = Inr (r, clauses r)"
    "getClauses_loop (body r) [] = Inr (clauses r)"
proof -
  have ne: "c \<noteq> []" using assms(3) by auto
  from mk_Rule_exists [OF assms(2) ne] assms(1,3)
  show "c = head r @ '':-'' @ body r" "\<not> sublist '':-'' (head r @ '':'')" by auto
  from mk_Rule_exists [OF assms(2) ne] assms(1) have "clauses r \<noteq> []" by auto
  then show "getClauses r = Inr (r, clauses r)" by (simp add: getClauses_def)
  from assms(1) show "getClauses_loop (body r) [] = Inr (clauses r)"
    by (auto simp: mk_Rule_def getClauses_def Let_def ebind_Inr_iff)
qed

text \<open>The translated rule, for a rule with head \<open>h\<close>, body \<open>b\<close> and literals \<open>cs\<close>.\<close>

definition binder_rule :: "string \<Rightarrow> string \<Rightarrow> string \<Rightarrow> string list \<Rightarrow> string" where
  "binder_rule d h b cs =
     ''says('' @ d @ '','' @ h @ ''):-'' @ (if sublist h b then b else says_list (''says('' @ d) cs)"

lemma length_binder_rule:
  assumes "length (concat cs) + length cs \<le> length b + 1" "length d = 36" "length h + length b + 2 \<le> MAX_BUFF"
  shows "length (binder_rule d h b cs) < npos"
proof -
  have "length (says_list (''says('' @ d) cs) \<le> 44 * (length (concat cs) + length cs)"
    using assms(2) by (simp add: length_says_list)
  also have "\<dots> \<le> 44 * (length b + 1)" using assms(1) by simp
  finally show ?thesis using assms(2,3) by (simp add: binder_rule_def npos_def MAX_BUFF_def)
qed

lemma transformClause_rule:
  assumes "clause_fits c" "length (pol_keyDigest pol) = 36" "mk_Rule c = Inr r" "sublist '':-'' c"
  defines "b \<equiv> binder_rule (pol_keyDigest pol) (head r) (body r) (clauses r)"
  shows "\<exists>R. transformClause pol c = Inr (b, pol\<lparr>rules := rules pol @ [R]\<rparr>)"
proof -
  have fc: "fits c" using assms(1) by (simp add: clause_fits_def MAX_BUFF_def npos_def)
  note r = mk_Rule_facts [OF assms(3) fc assms(4)]
  have len: "length (head r) + length (body r) + 2 \<le> MAX_BUFF"
    using arg_cong [OF r(1), of length] assms(1) by (simp add: clause_fits_def)
  then have fb: "fits (body r)" by (simp add: MAX_BUFF_def npos_def)
  have fits_b: "fits b"
    unfolding b_def using getClauses_loop_size [OF fb, of "[]"] r(4) assms(2) len by (intro length_binder_rule) auto
  have "b \<noteq> []" by (simp add: b_def binder_rule_def)
  then obtain R where R: "mk_Rule b = Inr R" using mk_Rule_exists [OF fits_b] by auto
  have "str_find c '':-'' \<noteq> npos" using assms(4) fc by (simp add: str_find_npos_iff)
  moreover have "str_find (body r) (head r) \<noteq> npos \<longleftrightarrow> sublist (head r) (body r)"
    using fb by (simp add: str_find_npos_iff)
  moreover have "(if sublist (head r) (body r) then ''says('' @ pol_keyDigest pol @ '','' @ head r @ ''):-'' @ body r
      else ''says('' @ pol_keyDigest pol @ '','' @ head r @ ''):-'' @ says_list (''says('' @ pol_keyDigest pol) (clauses r)) = b"
    by (simp add: b_def binder_rule_def)
  ultimately show ?thesis
    using assms(3) r(3) R by (auto simp: transformClause_def Let_def addRule_def split: if_splits)
qed

lemma transformClause_fact:
  fixes pol :: policy
  assumes "clause_fits c" "\<not> sublist '':-'' c"
  defines "b \<equiv> ''says('' @ pol_keyDigest pol @ '','' @ butlast c @ '').''"
  shows "transformClause pol c = Inr (b, pol\<lparr>facts := facts pol @ [b]\<rparr>)"
proof -
  have fc: "fits c" using assms(1) by (simp add: clause_fits_def MAX_BUFF_def npos_def)
  have "take (sz_sub (length c) 1) c = butlast c"
  proof (cases "c = []")
    case False
    then have "1 \<le> length c" by (simp add: Suc_leI)
    with fc have "sz_sub (length c) 1 = length c - 1" by (intro sz_sub_small fits_sz) auto
    then show ?thesis by (simp add: butlast_conv_take)
  qed simp
  with assms(2) show ?thesis
    by (simp add: transformClause_def Let_def str_find_npos addFact_def b_def)
qed

lemma transformClause_returns:
  assumes "clause_fits c" "length (pol_keyDigest pol) = 36"
  shows "\<exists>b pol'. transformClause pol c = Inr (b, pol') \<and> pol_keyDigest pol' = pol_keyDigest pol \<and>
    policyStr pol' = policyStr pol \<and> prefix (''says('' @ pol_keyDigest pol @ '','') b"
proof (cases "sublist '':-'' c")
  case True
  have fc: "fits c" using assms(1) by (simp add: clause_fits_def MAX_BUFF_def npos_def)
  have "c \<noteq> []" using True by auto
  with mk_Rule_exists [OF fc] obtain r where "mk_Rule c = Inr r" by blast
  from transformClause_rule [OF assms this True] show ?thesis by (auto simp: binder_rule_def)
next
  case False
  from transformClause_fact [OF assms(1) this, of pol] show ?thesis by auto
qed

lemma transform_clauses_returns:
  assumes "\<forall>c \<in> set cs. clause_fits c" "length (pol_keyDigest pol) = 36"
  shows "\<exists>bs pol'. transform_clauses pol cs ct = Inr (ct\<lparr>transformedCls := transformedCls ct @ bs\<rparr>, pol') \<and>
    policyStr pol' = policyStr pol \<and> length bs = length cs \<and> (\<forall>b \<in> set bs. prefix (''says('' @ pol_keyDigest pol @ '','') b)"
  using assms
proof (induction cs arbitrary: pol ct)
  case Nil
  then show ?case by (intro exI [of _ "[]"]) simp
next
  case (Cons c cs)
  then obtain b pol' where b: "transformClause pol c = Inr (b, pol')" "pol_keyDigest pol' = pol_keyDigest pol"
    "policyStr pol' = policyStr pol" "prefix (''says('' @ pol_keyDigest pol @ '','') b"
    using transformClause_returns [of c pol] by auto
  have *: "\<forall>c \<in> set cs. clause_fits c" "length (pol_keyDigest pol') = 36" using Cons.prems b(2) by simp_all
  obtain bs pol'' where "transform_clauses pol' cs (addTransformedCls b ct) =
      Inr ((addTransformedCls b ct)\<lparr>transformedCls := transformedCls (addTransformedCls b ct) @ bs\<rparr>, pol'')"
    "policyStr pol'' = policyStr pol'" "length bs = length cs" "\<forall>b \<in> set bs. prefix (''says('' @ pol_keyDigest pol' @ '','') b"
    using Cons.IH [OF *] by blast
  then show ?case using b by (intro exI [of _ "b # bs"]) (auto simp: addTransformedCls_def)
qed

section \<open>Verification returns\<close>

text \<open>What is asked of OpenSSL's reads and of the sizes: no access outside a buffer.\<close>

definition key_decodes :: "('k, 'z) crypto_scheme \<Rightarrow> string \<Rightarrow> bool" where
  "key_decodes C key \<longleftrightarrow> 0 \<le> snd (bio_read C key (length key)) \<and> snd (bio_read C key (length key)) \<le> int (length key)"

definition cert_checkable :: "('k, 'z) crypto_scheme \<Rightarrow> certificate \<Rightarrow> bool" where
  "cert_checkable C ct \<longleftrightarrow> key_decodes C (cert_pubKey ct) \<and>
     (\<forall>k. pem_read C (cert_pubKey ct) = Some k \<longrightarrow> rsa_size C k \<le> 3 * length (signature ct)) \<and>
     (\<forall>c \<in> set (cert_clauses ct). clause_fits c)"

definition sig_accepted :: "('k, 'z) crypto_scheme \<Rightarrow> certificate \<Rightarrow> bool" where
  "sig_accepted C ct \<longleftrightarrow> verifySig C (cert_pubKey ct) (signature ct) (certStr ct) = Inr True"

text \<open>
  A certificate after the round of the loop that accepted it: every clause has one translation,
  and each is a statement said by the key that signed the certificate.
\<close>

definition attributed :: "('k, 'z) crypto_scheme \<Rightarrow> certificate \<Rightarrow> certificate \<Rightarrow> bool" where
  "attributed C ct ct' \<longleftrightarrow>
     (\<exists>d bs. getKeyDigest C (cert_pubKey ct) = Inr d \<and>
        ct' = ct\<lparr>cert_keyDigest := d, transformedCls := transformedCls ct @ bs\<rparr> \<and>
        length bs = length (cert_clauses ct) \<and> (\<forall>b \<in> set bs. prefix (''says('' @ d @ '','') b))"

lemma length_decodeB64: "length (fst (decodeB64 C s n)) = 3 * n"
  by (simp add: decodeB64_def split: prod.split)

lemma snd_decodeB64: "snd (decodeB64 C s (length s)) = snd (bio_read C s (length s))"
  by (simp add: decodeB64_def split: prod.split)

lemma verifySig_returns:
  assumes "\<And>k. pem_read C key = Some k \<Longrightarrow> rsa_size C k \<le> 3 * length sg"
  shows "\<exists>b. verifySig C key sg msg = Inr b"
proof -
  obtain d where "getMsgDigest_str C msg = Inr d" using getMsgDigest_str_returns by blast
  with assms length_decodeB64 [of C sg "length sg"] show ?thesis
    by (auto simp: verifySig_def Let_def split_beta split: option.split)
qed

lemma getKeyDigest_returns: "key_decodes C key \<Longrightarrow> \<exists>d. getKeyDigest C key = Inr d"
  using length_decodeB64 [of C key "length key"] snd_decodeB64 [of C key]
  by (auto simp: getKeyDigest_def key_decodes_def Let_def split_beta getMsgDigest_def)

lemma verify_certificate_returns:
  assumes "cert_checkable C ct"
  shows "if sig_accepted C ct
    then \<exists>ct' p'. verify_certificate C cal False (Some p) ct = Inr (True, ct', Some p') \<and> policyStr p' = policyStr p \<and> attributed C ct ct'
    else verify_certificate C cal False (Some p) ct = Inr (False, ct, Some p)"
proof -
  obtain b where b: "verifySig C (cert_pubKey ct) (signature ct) (certStr ct) = Inr b"
    using verifySig_returns [of C "cert_pubKey ct" "signature ct"] assms unfolding cert_checkable_def by blast
  show ?thesis
  proof (cases b)
    case True
    obtain d where d: "getKeyDigest C (cert_pubKey ct) = Inr d"
      using getKeyDigest_returns [of C "cert_pubKey ct"] assms unfolding cert_checkable_def by blast
    let ?p = "setPolicyKeyDigest p d" and ?ct = "cert_setKeyDigest d ct"
    have "length (pol_keyDigest ?p) = 36" using getKeyDigest_length [OF d] by (simp add: setPolicyKeyDigest_def)
    then obtain bs p' where "transform_clauses ?p (cert_clauses ct) ?ct =
        Inr (?ct\<lparr>transformedCls := transformedCls ?ct @ bs\<rparr>, p')" "policyStr p' = policyStr ?p" "length bs = length (cert_clauses ct)"
      "\<forall>b \<in> set bs. prefix (''says('' @ pol_keyDigest ?p @ '','') b"
      using transform_clauses_returns [of "cert_clauses ct" ?p ?ct] assms by (auto simp: cert_checkable_def)
    then show ?thesis
      using b d True
      by (auto simp: verify_certificate_def sig_accepted_def attributed_def cert_setKeyDigest_def setPolicyKeyDigest_def)
  next
    case False
    with b show ?thesis by (simp add: verify_certificate_def sig_accepted_def)
  qed
qed

lemma verify_certificates_returns:
  assumes "\<forall>ct \<in> set cts. cert_checkable C ct"
  shows "\<exists>cts' p'. verify_certificates C cal False (Some p) cts =
      Inr ((\<forall>ct \<in> set cts. sig_accepted C ct), cts', Some p') \<and> policyStr p' = policyStr p \<and>
    list_all2 (\<lambda>ct ct'. if sig_accepted C ct then attributed C ct ct' else ct' = ct) cts cts'"
  using assms
proof (induction cts arbitrary: p)
  case Nil
  then show ?case by simp
next
  case (Cons ct cts)
  then obtain ct' p' where ct': "verify_certificate C cal False (Some p) ct = Inr (sig_accepted C ct, ct', Some p')"
    "policyStr p' = policyStr p" "if sig_accepted C ct then attributed C ct ct' else ct' = ct"
    using verify_certificate_returns [of C ct cal p] by (auto split: if_splits)
  have "\<forall>ct \<in> set cts. cert_checkable C ct" using Cons.prems by simp
  from Cons.IH [OF this, of p'] ct' show ?case by fastforce
qed

lemma verify_certificate_True:
  assumes "verify_certificate C cal v pol ct = Inr (True, r)"
  shows "sig_accepted C ct \<and> (v \<longrightarrow> cert_time_ok cal ct = Inr True)"
  using assms
  by (auto simp: verify_certificate_def sig_accepted_def ebind_Inr_iff split: if_splits)

lemma verify_certificates_True:
  "verify_certificates C cal v pol cts = Inr (True, r) \<Longrightarrow>
     \<forall>ct \<in> set cts. sig_accepted C ct \<and> (v \<longrightarrow> cert_time_ok cal ct = Inr True)"
  by (induction cts arbitrary: pol r) (auto simp: ebind_Inr_iff dest: verify_certificate_True)

lemma sig_accepted_verified:
  assumes "sig_accepted C ct" "bio_new_ok C (cert_pubKey ct)" "pem_read C (cert_pubKey ct) = Some k"
  shows "\<exists>d. getMsgDigest_str C (certStr ct) = Inr d \<and>
    rsa_verify C (take MD5_DIGEST_LENGTH d)
      (take (rsa_size C k) (fst (decodeB64 C (signature ct) (length (signature ct))))) k"
  using assms by (auto simp: sig_accepted_def verifySig_def ebind_Inr_iff Let_def split_beta split: if_splits)

lemma sig_accepted_unreadable:
  assumes "cert_pubKey ct \<noteq> ''''" "signature ct \<noteq> ''''" "certStr ct \<noteq> ''''" "pem_read C (cert_pubKey ct) = None"
  shows "sig_accepted C ct"
  using assms getMsgDigest_str_returns [of C "certStr ct"] by (auto simp: sig_accepted_def verifySig_def)

section \<open>Properties\<close>

text \<open>
  C2: \<^verbatim>\<open>verifyCredential\<close> returns, and its result is whether the signature of every
  certificate is accepted. The service holds the credential afterwards: certificates that were
  not accepted are unchanged, and an accepted one carries the digest of its own key and one
  translation per clause, each of which is said by that key.
\<close>

theorem verifyCredential_attributes:
  assumes "key_decodes C (cred_pubKey cr)" "\<forall>ct \<in> set (certificates cr). cert_checkable C ct"
    "sec_policy sec = Some p"
  shows "\<exists>cts sec' cr'. verifyCredential C cal False (Some cr) sec =
      Inr ((\<forall>ct \<in> set (certificates cr). sig_accepted C ct), sec') \<and>
    sec_cred sec' = Some cr' \<and> getKeyDigest C (cred_pubKey cr) = Inr (cred_keyDigest cr') \<and>
    certificates cr' = cts \<and>
    list_all2 (\<lambda>ct ct'. if sig_accepted C ct then attributed C ct ct' else ct' = ct) (certificates cr) cts"
proof -
  obtain d where d: "getKeyDigest C (cred_pubKey cr) = Inr d" using getKeyDigest_returns [OF assms(1)] by blast
  obtain cts p' where c: "verify_certificates C cal False (Some p) (certificates cr) =
      Inr ((\<forall>ct \<in> set (certificates cr). sig_accepted C ct), cts, Some p')"
    "list_all2 (\<lambda>ct ct'. if sig_accepted C ct then attributed C ct ct' else ct' = ct) (certificates cr) cts"
    using verify_certificates_returns [OF assms(2), of cal p] by blast
  show ?thesis
    using d c assms(3) by (auto simp: verifyCredential_def cred_setKeyDigest_def)
qed

text \<open>A stand-in for OpenSSL: keys are numbers, every decoding is empty, a signature is never right.\<close>

definition example_crypto :: "nat crypto" where
  "example_crypto = \<lparr>bio_new_ok = (\<lambda>_. True), bio_read = (\<lambda>_ _. ('''', 0)),
     pem_read = (\<lambda>s. if s = ''junk'' then None else Some 0), rsa_size = (\<lambda>_. 1),
     rsa_verify = (\<lambda>d sg k. d \<noteq> '''' \<and> sg \<noteq> ''''), md5 = (\<lambda>_. ''0123456789abcdef'')\<rparr>"

definition example_signed :: "string \<Rightarrow> certificate" where
  "example_signed key = Certificate_new\<lparr>cert_clauses := [''p(a).''], cert_pubKey := key, signature := ''x'',
     certStr := ''p(a).''\<rparr>"

definition example_security :: security where
  "example_security = SecurityService_new\<lparr>sec_policy := Some \<lparr>pol_pubKey = '''', policyStr = '''', pol_keyDigest = '''',
     facts = [], rules = []\<rparr>\<rparr>"

abbreviation example_cred :: "string \<Rightarrow> credential" where
  "example_cred key \<equiv> \<lparr>cred_pubKey = ''key'', cred_keyDigest = '''', certificates = [example_signed key]\<rparr>"

lemma example_checkable: "cert_checkable example_crypto (example_signed key)"
  by (simp add: cert_checkable_def key_decodes_def example_crypto_def example_signed_def clause_fits_def
      MAX_BUFF_def Certificate_new_def)

lemma example_policy: "\<exists>p. sec_policy example_security = Some p"
  by (simp add: example_security_def)

theorem verifyCredential_attributes_witness:
  "\<exists>sec'. verifyCredential example_crypto example_calendar False (Some (example_cred ''key'')) example_security =
     Inr (sig_accepted example_crypto (example_signed ''key''), sec')"
proof -
  obtain p where p: "sec_policy example_security = Some p" using example_policy by blast
  have "key_decodes example_crypto ''key''" by (simp add: key_decodes_def example_crypto_def)
  with verifyCredential_attributes [of example_crypto "example_cred ''key''", OF _ _ p, of example_calendar]
    example_checkable [of "''key''"]
  show ?thesis by auto
qed

text \<open>
  C3: if every certificate's key can be read, a positive result of \<^verbatim>\<open>verifyCredential\<close> means
  that \<^verbatim>\<open>RSA_verify\<close> accepted, for every certificate, the MD5 digest of its signed text with
  its signature and its key, and with time validation on, that it is valid now.
\<close>

theorem verifyCredential_sound:
  assumes "verifyCredential C cal v (Some cr) sec = Inr (True, sec')" "ct \<in> set (certificates cr)"
    "bio_new_ok C (cert_pubKey ct)" "pem_read C (cert_pubKey ct) = Some k"
  shows "(\<exists>d. getMsgDigest_str C (certStr ct) = Inr d \<and>
      rsa_verify C (take MD5_DIGEST_LENGTH d)
        (take (rsa_size C k) (fst (decodeB64 C (signature ct) (length (signature ct))))) k) \<and>
    (v \<longrightarrow> cert_time_ok cal ct = Inr True)"
proof -
  from assms(1) obtain pol cts pol' where
    "verify_certificates C cal v pol (certificates cr) = Inr (True, cts, pol')"
    by (auto simp: verifyCredential_def ebind_Inr_iff Let_def cred_setKeyDigest_def)
  from verify_certificates_True [OF this] assms(2) have "sig_accepted C ct" "v \<longrightarrow> cert_time_ok cal ct = Inr True"
    by auto
  with sig_accepted_verified [OF _ assms(3,4)] show ?thesis by blast
qed

theorem verifyCredential_sound_witness:
  "\<exists>d. getMsgDigest_str example_crypto ''p(a).'' = Inr d \<and>
     rsa_verify example_crypto (take MD5_DIGEST_LENGTH d) (take 1 (fst (decodeB64 example_crypto ''x'' 1))) 0"
proof -
  let ?cr = "example_cred ''key''"
  obtain p where p: "sec_policy example_security = Some p" using example_policy by blast
  have "sig_accepted example_crypto (example_signed ''key'')"
    by (simp add: sig_accepted_def verifySig_def example_signed_def Certificate_new_def example_crypto_def
        getMsgDigest_str_def getMsgDigest_def c_strlen_def MD5_DIGEST_LENGTH_def decodeB64_def)
  then have ok: "\<forall>ct \<in> set (certificates ?cr). sig_accepted example_crypto ct" by simp
  have "\<exists>cts p'. verify_certificates example_crypto example_calendar False (Some p) (certificates ?cr) =
      Inr (True, cts, p')"
    using verify_certificates_returns [of "certificates ?cr" example_crypto example_calendar p] ok
      example_checkable [of "''key''"] by auto
  moreover have "\<exists>d. getKeyDigest example_crypto ''key'' = Inr d"
    by (rule getKeyDigest_returns) (simp add: key_decodes_def example_crypto_def)
  ultimately obtain sec' where
    "verifyCredential example_crypto example_calendar False (Some ?cr) example_security = Inr (True, sec')"
    using p by (auto simp: verifyCredential_def cred_setKeyDigest_def)
  from verifyCredential_sound [OF this, of "example_signed ''key''" 0]
  show ?thesis by (simp add: example_signed_def example_crypto_def Certificate_new_def)
qed

text \<open>
  C16: a certificate whose public key OpenSSL cannot read is accepted with any clauses and any
  signature: if all certificates of a credential are such, \<^verbatim>\<open>verifyCredential\<close> returns true.
  So does a null credential.
\<close>

theorem verifyCredential_unreadable_keys:
  assumes "key_decodes C (cred_pubKey cr)" "\<forall>ct \<in> set (certificates cr). cert_checkable C ct"
    "sec_policy sec = Some p"
    "\<forall>ct \<in> set (certificates cr). cert_pubKey ct \<noteq> '''' \<and> signature ct \<noteq> '''' \<and> certStr ct \<noteq> '''' \<and>
       pem_read C (cert_pubKey ct) = None"
  shows "(\<exists>sec'. verifyCredential C cal False (Some cr) sec = Inr (True, sec')) \<and>
    verifyCredential C cal False None sec = Inr (True, sec)"
proof -
  have "\<forall>ct \<in> set (certificates cr). sig_accepted C ct" using assms(4) sig_accepted_unreadable by blast
  moreover obtain d where "getKeyDigest C (cred_pubKey cr) = Inr d" using getKeyDigest_returns [OF assms(1)] by blast
  ultimately show ?thesis
    using verify_certificates_returns [OF assms(2), of cal p] assms(3)
    by (auto simp: verifyCredential_def cred_setKeyDigest_def)
qed

theorem verifyCredential_unreadable_keys_witness:
  "\<exists>sec'. verifyCredential example_crypto example_calendar False (Some (example_cred ''junk'')) example_security =
     Inr (True, sec')"
proof -
  obtain p where p: "sec_policy example_security = Some p" using example_policy by blast
  have "key_decodes example_crypto ''key''" by (simp add: key_decodes_def example_crypto_def)
  with verifyCredential_unreadable_keys [of example_crypto "example_cred ''junk''", OF _ _ p, of example_calendar]
    example_checkable [of "''junk''"]
  show ?thesis by (auto simp: example_signed_def Certificate_new_def example_crypto_def)
qed

text \<open>
  C7: a rule of the grammar whose head does not occur in its body is translated literal by
  literal: the key that signed it says the head if it says every literal of the body.
\<close>

theorem transformClause_literals:
  assumes "\<not> sublist '':-'' (show_literal h @ '':'')" "ls \<noteq> []" "\<forall>l \<in> set ls. wf_literal l"
    "clause_fits (show_literal h @ '':-'' @ show_body ls)" "length (pol_keyDigest pol) = 36"
    "\<not> sublist (show_literal h) (show_body ls)"
  shows "\<exists>R. transformClause pol (show_literal h @ '':-'' @ show_body ls) =
    Inr (''says('' @ pol_keyDigest pol @ '','' @ show_literal h @ ''):-''
           @ join '','' (map (\<lambda>l. ''says('' @ pol_keyDigest pol @ '','' @ show_literal l @ '')'') ls) @ ''.'',
         pol\<lparr>rules := rules pol @ [R]\<rparr>)"
proof -
  have f: "fits (show_literal h @ '':-'' @ show_body ls)"
    using assms(4) by (simp add: clause_fits_def MAX_BUFF_def npos_def)
  have "sublist '':-'' (show_literal h @ '':-'' @ show_body ls)" by (metis sublist_appendI)
  moreover have "mk_Rule (show_literal h @ '':-'' @ show_body ls) =
    Inr \<lparr>head = show_literal h, body = show_body ls, atom = show_literal h @ '':-'' @ show_body ls,
         clauses = map show_literal ls\<rparr>"
    using assms(1-3) f mk_Rule_found [of "show_literal h" "show_body ls"] getClauses_loop_literals [of ls "[]"]
    by simp
  moreover have "says_list k (map show_literal ls) =
      join '','' (map (\<lambda>l. k @ '','' @ show_literal l @ '')'') ls) @ ''.''" for k
    using assms(2) by (induction ls rule: list_nonempty_induct) (simp_all add: join_Cons)
  ultimately show ?thesis
    using transformClause_rule [OF assms(4,5)] assms(6) by (fastforce simp: binder_rule_def)
qed

definition example_policy_of :: "string \<Rightarrow> policy" where
  "example_policy_of d = \<lparr>pol_pubKey = '''', policyStr = '''', pol_keyDigest = d, facts = [], rules = []\<rparr>"

theorem transformClause_literals_witness:
  "\<exists>p'. transformClause (example_policy_of ''rsa_0123456789abcdef0123456789abcdef'') ''ok(P):-staff(P),says(k,good(P)).'' =
     Inr (''says(rsa_0123456789abcdef0123456789abcdef,ok(P)):-says(rsa_0123456789abcdef0123456789abcdef,staff(P)),''
       @ ''says(rsa_0123456789abcdef0123456789abcdef,says(k,good(P))).'', p')"
  using transformClause_literals [of "Pred ''ok'' [''P'']" "[Pred ''staff'' [''P''], Says ''k'' ''good'' [''P'']]"
      "example_policy_of ''rsa_0123456789abcdef0123456789abcdef''"]
  by (auto simp: show_body_def plain_def clause_fits_def MAX_BUFF_def sublist_Cons_right example_policy_of_def)

text \<open>
  If the text of the head occurs anywhere in the body, also as a part of a longer name, the
  body is left as it is: its literals are then looked up among the server's own statements
  and not among those the key says.
\<close>

theorem transformClause_untranslated:
  assumes "\<not> sublist '':-'' (h @ '':'')" "clause_fits (h @ '':-'' @ b)" "length (pol_keyDigest pol) = 36"
    "sublist h b"
  shows "\<exists>R. transformClause pol (h @ '':-'' @ b) =
    Inr (''says('' @ pol_keyDigest pol @ '','' @ h @ ''):-'' @ b, pol\<lparr>rules := rules pol @ [R]\<rparr>)"
proof -
  have f: "fits (h @ '':-'' @ b)" using assms(2) by (simp add: clause_fits_def MAX_BUFF_def npos_def)
  then have fb: "fits b" by simp
  obtain cs where "getClauses_loop b [] = Inr cs" using getClauses_loop_total [OF fb, of "[]"] by auto
  then have "mk_Rule (h @ '':-'' @ b) = Inr \<lparr>head = h, body = b, atom = h @ '':-'' @ b, clauses = cs\<rparr>"
    using mk_Rule_found [OF assms(1) f] by simp
  moreover have "sublist '':-'' (h @ '':-'' @ b)" by (metis sublist_appendI)
  ultimately show ?thesis
    using transformClause_rule [OF assms(2,3)] assms(4) by (fastforce simp: binder_rule_def)
qed

theorem transformClause_untranslated_witness:
  "\<exists>p'. transformClause (example_policy_of ''rsa_0123456789abcdef0123456789abcdef'') ''p(a):-pp(a).'' =
     Inr (''says(rsa_0123456789abcdef0123456789abcdef,p(a)):-pp(a).'', p')"
  using transformClause_untranslated [of "''p(a)''" "''pp(a).''" "example_policy_of ''rsa_0123456789abcdef0123456789abcdef''"]
  by (auto simp: clause_fits_def MAX_BUFF_def sublist_Cons_right example_policy_of_def)

subsection \<open>Queries\<close>

text \<open>The argument scanner over the characters it reads, the terminating zero included.\<close>

fun scan_args :: "string \<Rightarrow> string \<Rightarrow> string list \<Rightarrow> string list" where
  "scan_args [] tmp args = args"
| "scan_args (c # s) tmp args =
     (if (c = CHR '','' \<and> tmp \<noteq> '''') \<or> c = CHR '')'' then scan_args s '''' (args @ [tmp])
      else if c \<noteq> CHR ''('' \<and> c \<noteq> CHR '')'' then scan_args s (tmp @ [c]) args
      else scan_args s tmp args)"

lemma query_args_scan:
  assumes "fits msg" "pos \<le> length msg"
  shows "query_args msg pos tmp args =
    Inr (scan_args (if pos < length msg then drop (Suc pos) msg @ [CHR 0x00] else []) tmp args)"
  using assms(2)
proof (induction "length msg - pos" arbitrary: pos tmp args)
  case 0
  then show ?case by (subst query_args.simps) simp
next
  case (Suc n)
  have lt: "pos < length msg" using Suc.hyps(2) by simp
  then have p1: "sz_add pos (Suc 0) = Suc pos" "Suc pos \<noteq> npos"
    using assms(1) fits_sz [OF assms(1)] by (auto intro!: sz_add_small [THEN trans])
  note IH = Suc.hyps(1) [of "Suc pos"]
  show ?case
  proof (cases "Suc pos < length msg")
    case True
    have "drop (Suc pos) msg = msg ! Suc pos # drop (Suc (Suc pos)) msg"
      using True by (simp add: Cons_nth_drop_Suc)
    then show ?thesis
      using lt p1 True IH Suc.hyps(2) by (subst query_args.simps) (simp add: Let_def)
  next
    case False
    then have "Suc pos = length msg" using lt by simp
    then show ?thesis
      using lt p1 IH Suc.hyps(2) by (subst query_args.simps) (simp add: Let_def)
  qed
qed

lemma scan_args_plain: "set s \<inter> set ''(),'' = {} \<Longrightarrow> scan_args (s @ r) tmp args = scan_args r (tmp @ s) args"
  by (induction s arbitrary: tmp) auto

lemma generateQuery_run:
  assumes "set before \<inter> set ''request'' = {}" "set operation \<inter> set ''(),'' = {}" "operation \<noteq> ''''"
    "set object \<inter> set ''(),'' = {}" "set between \<inter> set ''(),'' = {}"
    "\<not> sublist END_CLIENT_REQUEST_S (butlast (before @ ''request('' @ operation @ '','' @ object @ '')''
        @ between @ END_CLIENT_REQUEST_S))"
    "fits (before @ ''request('' @ operation @ '','' @ object @ '')'' @ between @ END_CLIENT_REQUEST_S @ after)"
    "sec_cred sec = Some cr"
  shows "generateQuery sec (before @ ''request('' @ operation @ '','' @ object @ '')'' @ between
      @ END_CLIENT_REQUEST_S @ after) =
    Inr (''allow('' @ cred_keyDigest cr @ '','' @ operation @ '','' @ object @ '').'',
      ''request('' @ operation @ '','' @ object @ '')'' @ between)"
proof -
  let ?rest = "operation @ '','' @ object @ '')'' @ between"
  define req where "req = ''request('' @ ?rest"
  define msg where "msg = before @ req @ END_CLIENT_REQUEST_S @ after"
  have idx: "str_find msg END_CLIENT_REQUEST_S = length (before @ req)"
    using str_find_first [of END_CLIENT_REQUEST_S "before @ req" after] assms(6) by (simp add: msg_def req_def)
  have pos: "str_find_first_of msg ''request'' = length before"
    using str_find_first_of_append [OF assms(1), of "CHR ''r''"] by (simp add: msg_def req_def)
  have fm: "fits msg" using assms(7) by (simp add: msg_def req_def)
  have fr: "fits req" using fm by (simp add: msg_def)
  have "length (before @ req) < sz_max" using fits_sz [OF fm] by (simp add: msg_def)
  then have "sz_sub (length (before @ req)) (length before) = length req" by simp
  then have sub: "str_substr msg (length before) (sz_sub (length (before @ req)) (length before)) = Inr req"
    by (simp add: msg_def)
  have "str_find_first_of (''request'' @ CHR ''('' # ?rest) ''('' = length ''request''"
    by (rule str_find_first_of_append) simp_all
  then have open_br: "str_find_first_of req ''('' = 7" by (simp add: req_def)
  have "query_args req 7 '''' [] = Inr (scan_args (?rest @ [CHR 0x00]) '''' [])"
    using query_args_scan [OF fr, of 7] by (simp add: req_def)
  also have "scan_args (?rest @ [CHR 0x00]) '''' [] = scan_args (between @ [CHR 0x00]) '''' [operation, object]"
    using scan_args_plain [OF assms(2), of "'','' @ object @ '')'' @ between @ [CHR 0x00]" "''''"]
      scan_args_plain [OF assms(4), of "'')'' @ between @ [CHR 0x00]" "''''"] assms(3) by simp
  also have "\<dots> = [operation, object]"
    using scan_args_plain [OF assms(5), of "[CHR 0x00]" "''''"] by simp
  finally have args: "query_args req 7 '''' [] = Inr [operation, object]" .
  have "msg \<noteq> ''''" "length (before @ req) \<noteq> npos" "length before \<noteq> npos"
    using fm by (auto simp: msg_def req_def)
  then have "generateQuery sec msg = Inr (''allow('' @ cred_keyDigest cr @ '','' @ operation @ '','' @ object @ '').'', req)"
    using assms(8) idx pos sub open_br args unfolding generateQuery_def Let_def by simp
  then show ?thesis by (simp add: msg_def req_def)
qed

text \<open>
  From a well-formed request the query \<^verbatim>\<open>allow(digest,operation,object).\<close> is built, with
  the digest of the authenticated client's key. Operation and object are copied as they are:
  any character but a comma or a parenthesis reaches the shell command line, quotes included.
\<close>

theorem generateQuery_request:
  assumes "set before \<inter> set ''request'' = {}" "set operation \<inter> set ''(),'' = {}" "operation \<noteq> ''''"
    "set object \<inter> set ''(),'' = {}" "set between \<inter> set ''(),'' = {}"
    "\<not> sublist END_CLIENT_REQUEST_S (butlast (before @ ''request('' @ operation @ '','' @ object @ '')''
        @ between @ END_CLIENT_REQUEST_S))"
    "fits (before @ ''request('' @ operation @ '','' @ object @ '')'' @ between @ END_CLIENT_REQUEST_S @ after)"
    "sec_cred sec = Some cr"
  shows "generateQuery sec (before @ ''request('' @ operation @ '','' @ object @ '')'' @ between
      @ END_CLIENT_REQUEST_S @ after) =
    Inr (''allow('' @ cred_keyDigest cr @ '','' @ operation @ '','' @ object @ '').'',
      ''request('' @ operation @ '','' @ object @ '')'' @ between)"
  using assms by (rule generateQuery_run)

theorem generateQuery_request_witness:
  "generateQuery (SecurityService_new\<lparr>sec_cred := Some (Credential_new\<lparr>cred_keyDigest := ''rsa_00''\<rparr>)\<rparr>)
     (''-----BEGIN REPOSITORY CLIENT REQUEST-----'' @ ''request('' @ ''read'' @ '','' @ ''a\"; echo $HOME; \"'' @ '')'' @ '''' @
       END_CLIENT_REQUEST_S @ ''\<newline>'') =
   Inr (''allow(rsa_00,read,a\"; echo $HOME; \").'', ''request(read,a\"; echo $HOME; \")'')"
  using generateQuery_request [of "''-----BEGIN REPOSITORY CLIENT REQUEST-----''" "''read''" "''a\"; echo $HOME; \"''" "''''"
      "''\<newline>''" "SecurityService_new\<lparr>sec_cred := Some (Credential_new\<lparr>cred_keyDigest := ''rsa_00''\<rparr>)\<rparr>"
      "Credential_new\<lparr>cred_keyDigest := ''rsa_00''\<rparr>"]
  by (simp add: END_CLIENT_REQUEST_S_def npos_def sublist_Cons_right)

lemma executeQueryProc_newline:
  assumes "read_lines out = a @ ''\<newline>'' @ b" "CHR ''\<newline>'' \<notin> set b" "length (read_lines out) + 3 < npos"
  shows "executeQueryProc (Some out) q =
    (if length a < 3 then Inl Out_Of_Range else Inr (q \<or> suffix ''yes'' a))"
proof -
  have pos: "str_find_last_of (read_lines out) ''\<newline>'' = length a"
    using str_find_last_of_append [of b "''\<newline>''" "CHR ''\<newline>''" a] assms(1,2) by simp
  have ne: "length a \<noteq> npos" using assms(1,3) by simp
  show ?thesis
  proof (cases "length a < 3")
    case True
    then have "length (read_lines out) < sz_sub (length a) 3"
      using assms(3) by (simp add: sz_sub_def sz_max_def npos_def)
    with pos ne True show ?thesis by (simp add: executeQueryProc_def Let_def str_substr_def)
  next
    case False
    then have s: "sz_sub (length a) 3 = length a - 3"
      using assms(1,3) by (intro sz_sub_small) (auto simp: npos_def sz_max_def)
    have "take 3 (drop (length a - 3) (read_lines out)) = drop (length a - 3) a"
      using False assms(1) by simp
    moreover have "drop (length a - 3) a = ''yes'' \<longleftrightarrow> suffix ''yes'' a"
    proof
      assume "drop (length a - 3) a = ''yes''"
      then show "suffix ''yes'' a" by (metis suffix_drop)
    qed (auto simp: suffix_def)
    ultimately show ?thesis
      using pos ne False s assms(1) by (simp add: executeQueryProc_def Let_def)
  qed
qed

lemma executeQueryProc_no_newline:
  assumes "CHR ''\<newline>'' \<notin> set (read_lines out)"
  shows "executeQueryProc (Some out) q = Inr (q \<or> read_lines out = ''yes'')"
proof -
  have "str_find_last_of (read_lines out) ''\<newline>'' = npos"
    using assms first_of_aux_None [of "''\<newline>''" "rev (read_lines out)" 0] by (simp add: str_find_last_of_def)
  then show ?thesis by (simp add: executeQueryProc_def Let_def)
qed

text \<open>
  C9: a query succeeds exactly when the command ran to its end and what it printed ends, up to
  the last newline, with \<^verbatim>\<open>yes\<close> (or is just that); output whose last newline is among its
  first three characters is an exception.
\<close>

theorem executeQuery_granted:
  assumes "run (query_command q) = Thread_Gone (Some out)" "length (read_lines out) + 3 < npos" "q \<noteq> ''''"
  shows "(executeQuery run q = Inr True \<longleftrightarrow>
      read_lines out = ''yes'' \<or> (\<exists>a b. read_lines out = a @ ''yes'' @ ''\<newline>'' @ b \<and> CHR ''\<newline>'' \<notin> set b)) \<and>
    (executeQuery run q = Inl Out_Of_Range \<longleftrightarrow>
      (\<exists>a b. read_lines out = a @ ''\<newline>'' @ b \<and> CHR ''\<newline>'' \<notin> set b \<and> length a < 3))"
proof (cases "CHR ''\<newline>'' \<in> set (read_lines out)")
  case True
  then obtain a b where ab: "read_lines out = a @ ''\<newline>'' @ b" "CHR ''\<newline>'' \<notin> set b"
    by (metis append_Cons append_Nil split_list_last)
  have uniq: "a' = a \<and> b' = b" if "read_lines out = a' @ ''\<newline>'' @ b'" "CHR ''\<newline>'' \<notin> set b'" for a' b'
  proof -
    have "dropWhile (\<lambda>c. c \<noteq> CHR ''\<newline>'') (rev (x @ ''\<newline>'' @ y)) = CHR ''\<newline>'' # rev x"
      if "CHR ''\<newline>'' \<notin> set y" for x y :: string
      using that by (auto simp: dropWhile_append)
    then show ?thesis using that ab by (metis append_same_eq list.inject rev_is_rev_conv append_eq_append_conv)
  qed
  have "(\<exists>a' b'. read_lines out = a' @ ''yes'' @ ''\<newline>'' @ b' \<and> CHR ''\<newline>'' \<notin> set b') \<longleftrightarrow> suffix ''yes'' a"
  proof
    assume "\<exists>a' b'. read_lines out = a' @ ''yes'' @ ''\<newline>'' @ b' \<and> CHR ''\<newline>'' \<notin> set b'"
    then obtain a' b' where "read_lines out = (a' @ ''yes'') @ ''\<newline>'' @ b'" "CHR ''\<newline>'' \<notin> set b'" by auto
    from uniq [OF this] show "suffix ''yes'' a" by (auto simp: suffix_def)
  next
    assume "suffix ''yes'' a"
    then obtain z where "a = z @ ''yes''" by (auto simp: suffix_def)
    with ab have "read_lines out = z @ ''yes'' @ ''\<newline>'' @ b" by simp
    with ab(2) show "\<exists>a' b'. read_lines out = a' @ ''yes'' @ ''\<newline>'' @ b' \<and> CHR ''\<newline>'' \<notin> set b'" by blast
  qed
  moreover have "read_lines out \<noteq> ''yes''" using True by auto
  moreover have "(\<exists>a' b'. read_lines out = a' @ ''\<newline>'' @ b' \<and> CHR ''\<newline>'' \<notin> set b' \<and> length a' < 3) \<longleftrightarrow> length a < 3"
    using uniq ab by blast
  moreover have "suffix ''yes'' a \<Longrightarrow> \<not> length a < 3" by (auto simp: suffix_def)
  ultimately show ?thesis
    using executeQueryProc_newline [OF ab assms(2), of False] assms(1,3) by (auto simp: executeQuery_def)
next
  case False
  then have "\<nexists>a b. read_lines out = a @ ''\<newline>'' @ b" by auto
  moreover have "\<nexists>a b. read_lines out = a @ ''yes'' @ ''\<newline>'' @ b" using False by auto
  ultimately show ?thesis
    using executeQueryProc_no_newline [OF False, of False] assms(1,3) by (auto simp: executeQuery_def)
qed

theorem executeQuery_granted_witness:
  "executeQuery (\<lambda>_. Thread_Gone (Some ''\<newline>yes\<newline>'')) ''allow(k,read,f).'' = Inr True \<and>
   executeQuery (\<lambda>_. Thread_Gone (Some ''no\<newline>'')) ''allow(k,read,f).'' = Inl Out_Of_Range"
proof -
  have r: "read_lines ''\<newline>yes\<newline>'' = ''\<newline>yes\<newline>''" "read_lines ''no\<newline>'' = ''no\<newline>''"
    by (simp_all add: read_lines.simps numeral_eq_Suc)
  have "\<exists>a b. ''\<newline>yes\<newline>'' = a @ ''yes'' @ ''\<newline>'' @ b \<and> CHR ''\<newline>'' \<notin> set b"
    by (intro exI [of _ "''\<newline>''"] exI [of _ "''''"]) simp
  moreover have "\<exists>a b. ''no\<newline>'' = a @ ''\<newline>'' @ b \<and> CHR ''\<newline>'' \<notin> set b \<and> length a < 3"
    by (intro exI [of _ "''no''"] exI [of _ "''''"]) simp
  ultimately show ?thesis
    using executeQuery_granted [of "\<lambda>_. Thread_Gone (Some ''\<newline>yes\<newline>'')" "''allow(k,read,f).''" "''\<newline>yes\<newline>''"]
      executeQuery_granted [of "\<lambda>_. Thread_Gone (Some ''no\<newline>'')" "''allow(k,read,f).''" "''no\<newline>''"] r
    by (simp add: npos_def)
qed

end
