(* ===== verification/RM_Double.thy ===== *)
theory RM_Double
  imports RM_Prelude "HOL-Library.Log_Nat"
begin

text \<open>
  The double precision arithmetic of \<^verbatim>\<open>Timer.h\<close>: non-negative numbers as rationals, each operation followed by
  rounding to 53 bits, to nearest and to even on ties, with gradual underflow. Overflow does not occur at
  the sizes of times. The lemmas give the order, the exact cases and the relative error of rounding.
\<close>

section \<open>Rounding\<close>

lemma powi_less: "(2 :: rat) powi a < 2 powi b \<Longrightarrow> a < b"
  using power_int_increasing [of b a "2 :: rat"] by (meson not_le one_le_numeral)

definition round_even :: "rat \<Rightarrow> int" where
  "round_even x =
     (let f = \<lfloor>x\<rfloor>; d = x - of_int f in
      if d < 1 / 2 then f else if 1 / 2 < d then f + 1 else if even f then f else f + 1)"

text \<open>The exponent of the leading bit, for numbers from the least positive double on.\<close>

definition min_exp :: int where
  "min_exp = -1074"

definition ilog2 :: "rat \<Rightarrow> int" where
  "ilog2 x = bitlen \<lfloor>x / 2 powi min_exp\<rfloor> + min_exp - 1"

text \<open>The exponent of the last bit that is kept.\<close>

definition ulp :: "rat \<Rightarrow> int" where
  "ulp x = max (ilog2 x - 52) min_exp"

definition rnd :: "rat \<Rightarrow> rat" where
  "rnd x = of_int (round_even (x / 2 powi ulp x)) * 2 powi ulp x"

lemma round_even_near: "\<bar>of_int (round_even x) - x\<bar> \<le> 1 / 2"
proof -
  define d where "d = x - of_int \<lfloor>x\<rfloor>"
  have "0 \<le> d" "d < 1" by (simp_all add: d_def frac_def [symmetric] frac_ge_0 frac_lt_1)
  moreover have "of_int (round_even x) - x = (if d < 1 / 2 then - d else if 1 / 2 < d then 1 - d else if even \<lfloor>x\<rfloor> then - d else 1 - d)"
    by (simp add: round_even_def Let_def d_def)
  ultimately show ?thesis by (auto split: if_splits)
qed

lemma round_even_int [simp]: "round_even (of_int n) = n"
  by (simp add: round_even_def)

lemma round_even_mono:
  assumes "x \<le> y"
  shows "round_even x \<le> round_even y"
proof (cases "\<lfloor>x\<rfloor> = \<lfloor>y\<rfloor>")
  case True
  with assms show ?thesis by (auto simp: round_even_def Let_def)
next
  case False
  with assms floor_mono [OF assms] have "\<lfloor>x\<rfloor> + 1 \<le> \<lfloor>y\<rfloor>" by linarith
  moreover have "round_even x \<le> \<lfloor>x\<rfloor> + 1" "\<lfloor>y\<rfloor> \<le> round_even y" by (simp_all add: round_even_def Let_def)
  ultimately show ?thesis by linarith
qed

lemma ilog2_mono: "x \<le> y \<Longrightarrow> ilog2 x \<le> ilog2 y"
proof -
  assume "x \<le> y"
  then have "\<lfloor>x / 2 powi min_exp\<rfloor> \<le> \<lfloor>y / 2 powi min_exp\<rfloor>" by (intro floor_mono divide_right_mono) simp_all
  from floorlog_mono [OF nat_mono [OF this], of 2] show ?thesis by (simp add: ilog2_def bitlen_def)
qed

lemma ulp_mono: "x \<le> y \<Longrightarrow> ulp x \<le> ulp y"
  using ilog2_mono [of x y] by (simp add: ulp_def)

lemma ilog2_bounds:
  assumes "2 powi min_exp \<le> x"
  shows "2 powi ilog2 x \<le> x" "x < 2 powi (ilog2 x + 1)"
proof -
  let ?l = "2 powi min_exp :: rat" and ?n = "\<lfloor>x / 2 powi min_exp\<rfloor>"
  have l: "0 < ?l" by simp
  have "1 \<le> x / ?l" using assms l by (simp add: field_simps)
  then have n: "0 < ?n" by simp
  then have b: "1 \<le> bitlen ?n" by (simp add: bitlen_alt_def)
  note bb = bitlen_bounds [OF n]
  have p: "(2 :: rat) powi k = of_int (2 ^ nat k)" if "0 \<le> k" for k using that by (simp add: power_int_def)
  have "(2 :: rat) powi (bitlen ?n - 1) \<le> of_int ?n" using b bb p [of "bitlen ?n - 1"] by (simp only: of_int_le_iff)
  also have "\<dots> \<le> x / ?l" by simp
  finally have "2 powi (bitlen ?n - 1) * ?l \<le> x" using l by (simp add: field_simps)
  moreover have "2 powi (bitlen ?n - 1) * ?l = 2 powi ilog2 x" by (simp add: ilog2_def flip: power_int_add) (simp add: algebra_simps)
  ultimately show "2 powi ilog2 x \<le> x" by simp
  have "x / ?l < of_int (?n + 1)" using floor_correct [of "x / ?l"] by simp
  also have "\<dots> \<le> 2 powi bitlen ?n"
  proof -
    have "0 \<le> bitlen ?n" "?n + 1 \<le> 2 ^ nat (bitlen ?n)" using b bb by simp_all
    then show ?thesis by (simp only: p of_int_le_iff)
  qed
  finally have "x < 2 powi bitlen ?n * ?l" using l by (simp add: field_simps)
  moreover have "2 powi bitlen ?n * ?l = 2 powi (ilog2 x + 1)" by (simp add: ilog2_def flip: power_int_add)
  ultimately show "x < 2 powi (ilog2 x + 1)" by simp
qed

lemma small_ilog2:
  assumes "0 \<le> x" "x < 2 powi min_exp"
  shows "ilog2 x = min_exp - 1"
proof -
  have "0 < (2 powi min_exp :: rat)" by simp
  with assms have "0 \<le> x / 2 powi min_exp" "x / 2 powi min_exp < 1" by (simp_all add: field_simps)
  then have "\<lfloor>x / 2 powi min_exp\<rfloor> = 0" by (simp add: floor_eq_iff)
  then show ?thesis by (simp add: ilog2_def)
qed

lemma below_ulp: "0 \<le> x \<Longrightarrow> x < 2 powi (ulp x + 53)"
proof (cases "x < 2 powi min_exp")
  case True
  also have "(2 powi min_exp :: rat) \<le> 2 powi (ulp x + 53)" by (intro power_int_increasing) (simp_all add: ulp_def)
  finally show ?thesis .
next
  case False
  then have "x < 2 powi (ilog2 x + 1)" by (intro ilog2_bounds) simp
  also have "\<dots> \<le> 2 powi (ulp x + 53)" by (intro power_int_increasing) (simp_all add: ulp_def)
  finally show ?thesis .
qed

lemma rnd_near: "\<bar>rnd x - x\<bar> \<le> 2 powi ulp x / 2"
proof -
  let ?u = "2 powi ulp x :: rat"
  have "0 < ?u" by simp
  then have "rnd x - x = (of_int (round_even (x / ?u)) - x / ?u) * ?u" by (simp add: rnd_def field_simps)
  then have "\<bar>rnd x - x\<bar> = \<bar>of_int (round_even (x / ?u)) - x / ?u\<bar> * ?u" using \<open>0 < ?u\<close> by (simp add: abs_mult)
  also have "\<dots> \<le> 1 / 2 * ?u" using round_even_near \<open>0 < ?u\<close> by (intro mult_right_mono) simp_all
  finally show ?thesis by simp
qed

lemma rnd_mono:
  assumes "0 \<le> x" "x \<le> y"
  shows "rnd x \<le> rnd y"
proof (cases "ulp x = ulp y")
  case True
  have "round_even (x / 2 powi ulp x) \<le> round_even (y / 2 powi ulp x)"
    using assms(2) by (intro round_even_mono divide_right_mono) simp_all
  then show ?thesis unfolding rnd_def True by (intro mult_right_mono) simp_all
next
  case False
  with ulp_mono [OF assms(2)] have less: "ulp x + 1 \<le> ulp y" by simp
  then have uy: "ulp y = ilog2 y - 52" by (auto simp: ulp_def max_def split: if_splits)
  have "x / 2 powi ulp x \<le> of_int (2 ^ 53)"
    using below_ulp [OF assms(1)] by (simp add: power_int_add field_simps)
  from round_even_mono [OF this] have "rnd x \<le> of_int (2 ^ 53) * 2 powi ulp x"
    unfolding rnd_def round_even_int by (intro mult_right_mono) (simp_all only: of_int_le_iff, simp)
  also have "\<dots> = 2 powi (ulp x + 53)" by (simp add: power_int_add)
  also have "\<dots> \<le> 2 powi (ulp y + 52)" using less by (intro power_int_increasing) simp_all
  also have "\<dots> = of_int (2 ^ 52) * 2 powi ulp y" by (simp add: power_int_add)
  also have "\<dots> \<le> rnd y"
  proof -
    have "\<not> y < 2 powi min_exp" using small_ilog2 [of y] assms less uy by (auto simp: ulp_def)
    then have "2 powi (ulp y + 52) \<le> y" using ilog2_bounds(1) [of y] by (simp add: uy)
    then have "of_int (2 ^ 52) \<le> y / 2 powi ulp y" by (simp add: power_int_add field_simps)
    from round_even_mono [OF this] show ?thesis
      unfolding rnd_def round_even_int by (intro mult_right_mono) (simp_all only: of_int_le_iff, simp)
  qed
  finally show ?thesis .
qed

lemma rnd_0 [simp]: "rnd 0 = 0"
  using round_even_int [of 0] by (simp add: rnd_def)

text \<open>Numbers of at most 53 bits are kept.\<close>

lemma rnd_exact:
  assumes "0 \<le> m" "m < 2 ^ 53"
  shows "rnd (of_int m * 2 ^ j) = of_int m * 2 ^ j"
proof (cases "m = 0")
  case False
  let ?x = "of_int m * 2 ^ j :: rat"
  have "1 * 1 \<le> ?x" using False assms(1) by (intro mult_mono) simp_all
  moreover have "2 powi min_exp \<le> (2 powi 0 :: rat)" by (intro power_int_increasing) (simp_all add: min_exp_def)
  ultimately have "2 powi min_exp \<le> ?x" by simp
  from ilog2_bounds(1) [OF this] have "2 powi ilog2 ?x \<le> ?x" .
  also have "?x < 2 powi (int j + 53)"
  proof -
    have "(of_int m :: rat) < 2 ^ 53" using assms(2) by (metis of_int_less_iff of_int_numeral of_int_power)
    then have "of_int m * 2 ^ j < 2 ^ 53 * (2 ^ j :: rat)" by (intro mult_strict_right_mono) simp_all
    moreover have "(2 powi (int j + 53) :: rat) = 2 ^ 53 * 2 ^ j" by (simp add: power_int_add)
    ultimately show ?thesis by simp
  qed
  finally have "ilog2 ?x < int j + 53" by (rule powi_less)
  then have u: "ulp ?x \<le> int j" by (simp add: ulp_def min_exp_def)
  then have "?x / 2 powi ulp ?x = of_int m * 2 powi (int j - ulp ?x)" by (simp add: power_int_diff)
  also have "\<dots> = of_int (m * 2 ^ nat (int j - ulp ?x))" using u by (simp add: power_int_def)
  finally have e: "?x / 2 powi ulp ?x = of_int (m * 2 ^ nat (int j - ulp ?x))" .
  have "rnd ?x = of_int (m * 2 ^ nat (int j - ulp ?x)) * 2 powi ulp ?x" unfolding rnd_def e round_even_int ..
  also have "\<dots> = ?x" unfolding e [symmetric] by simp
  finally show ?thesis .
qed simp

lemma rnd_int: "0 \<le> m \<Longrightarrow> m < 2 ^ 53 \<Longrightarrow> rnd (of_int m) = of_int m"
  using rnd_exact [of m 0] by simp

section \<open>Relative error\<close>

definition eps :: rat where
  "eps = 1 / 2 ^ 53"

definition near :: "nat \<Rightarrow> rat \<Rightarrow> rat \<Rightarrow> bool" where
  "near n x y \<longleftrightarrow> x * (1 - eps) ^ n \<le> y \<and> y \<le> x * (1 + eps) ^ n"

lemma near_rnd:
  assumes "2 powi (min_exp + 53) \<le> x"
  shows "near 1 x (rnd x)"
proof -
  have "(2 powi min_exp :: rat) \<le> 2 powi (min_exp + 53)" by (intro power_int_increasing) simp_all
  with assms have x: "2 powi min_exp \<le> x" by linarith
  have "(2 :: rat) powi (min_exp + 53) < 2 powi (ilog2 x + 1)"
    using assms ilog2_bounds(2) [OF x] by linarith
  then have "min_exp + 53 < ilog2 x + 1" by (rule powi_less)
  then have u: "ulp x = ilog2 x - 52" by (simp add: ulp_def)
  have "(2 powi ulp x :: rat) / 2 = 2 powi ilog2 x * eps" by (simp add: u power_int_diff eps_def)
  also have "\<dots> \<le> x * eps" using ilog2_bounds(1) [OF x] by (intro mult_right_mono) (simp_all add: eps_def)
  finally have "\<bar>rnd x - x\<bar> \<le> x * eps" using rnd_near [of x] by linarith
  then show ?thesis by (simp add: near_def algebra_simps abs_le_iff)
qed

lemma near_mult:
  assumes "near n x y" "near m a b" "0 \<le> x" "0 \<le> a"
  shows "near (n + m) (x * a) (y * b)"
proof -
  have e: "0 \<le> 1 - eps" "0 \<le> 1 + eps" by (simp_all add: eps_def)
  have y: "0 \<le> y" "0 \<le> b" using assms e by (meson near_def order_trans mult_nonneg_nonneg zero_le_power)+
  have "x * a * (1 - eps) ^ (n + m) = (x * (1 - eps) ^ n) * (a * (1 - eps) ^ m)" by (simp add: power_add)
  also have "\<dots> \<le> y * b" using assms e y by (intro mult_mono) (simp_all add: near_def)
  finally have l: "x * a * (1 - eps) ^ (n + m) \<le> y * b" .
  have "y * b \<le> (x * (1 + eps) ^ n) * (a * (1 + eps) ^ m)" using assms e y by (intro mult_mono) (simp_all add: near_def)
  also have "\<dots> = x * a * (1 + eps) ^ (n + m)" by (simp add: power_add)
  finally show ?thesis using l by (simp add: near_def)
qed

lemma near_trans:
  assumes "near n x y" "near m y z"
  shows "near (n + m) x z"
proof -
  have e: "0 \<le> (1 - eps) ^ m" "0 \<le> (1 + eps) ^ m" by (simp_all add: eps_def)
  have "x * (1 - eps) ^ (n + m) = x * (1 - eps) ^ n * (1 - eps) ^ m" by (simp add: power_add)
  also have "\<dots> \<le> y * (1 - eps) ^ m" using assms(1) e by (intro mult_right_mono) (simp_all add: near_def)
  also have "\<dots> \<le> z" using assms(2) by (simp add: near_def)
  finally have l: "x * (1 - eps) ^ (n + m) \<le> z" .
  have "z \<le> y * (1 + eps) ^ m" using assms(2) by (simp add: near_def)
  also have "\<dots> \<le> x * (1 + eps) ^ n * (1 + eps) ^ m" using assms(1) e by (intro mult_right_mono) (simp_all add: near_def)
  also have "\<dots> = x * (1 + eps) ^ (n + m)" by (simp add: power_add)
  finally show ?thesis using l by (simp add: near_def)
qed

end
