(* ===== verification/RM_Timer.thy ===== *)
theory RM_Timer
  imports RM_Double "HOL-Library.Word"
begin

text \<open>
  \<^verbatim>\<open>src/src/utils/Timer.h\<close>, the version for POSIX systems: the idle timer of the server. Times are unsigned 64 bit
  numbers of nanoseconds, computed from a \<^verbatim>\<open>timespec\<close> in doubles; the conversions to larger units are
  chains of double multiplications. Every call that asks for the time takes what the clock
  shows then as an argument; \<^verbatim>\<open>clock_gettime\<close> does not fail for the real time clock. Members that the
  constructor leaves uninitialised are \<open>None\<close>.
\<close>

section \<open>Times\<close>

type_synonym tulong = "64 word"

record timespec =
  tv_sec :: nat
  tv_nsec :: nat

definition to_tulong :: "rat \<Rightarrow> tulong" where
  "to_tulong x = word_of_int \<lfloor>x\<rfloor>"

definition of_tulong :: "tulong \<Rightarrow> rat" where
  "of_tulong w = rnd (of_int (uint w))"

definition getTimeNSecs :: "timespec \<Rightarrow> tulong" where
  "getTimeNSecs ts = to_tulong (rnd (rnd (rnd (of_nat (tv_sec ts)) * 10 ^ 9) + rnd (of_nat (tv_nsec ts))))"

text \<open>The factors \<^verbatim>\<open>0.0010\<close> and \<^verbatim>\<open>0.1000\<close>.\<close>

definition c0010 :: rat where
  "c0010 = rnd (1 / 1000)"

definition c1000 :: rat where
  "c1000 = rnd (1 / 10)"

definition getTimeUSecs :: "timespec \<Rightarrow> rat" where
  "getTimeUSecs ts = rnd (of_tulong (getTimeNSecs ts) * c0010)"

definition getTimeMSecs :: "timespec \<Rightarrow> rat" where
  "getTimeMSecs ts = rnd (getTimeUSecs ts * c0010)"

definition getTimeCSecs :: "timespec \<Rightarrow> rat" where
  "getTimeCSecs ts = rnd (getTimeMSecs ts * c1000)"

definition getTimeDSecs :: "timespec \<Rightarrow> rat" where
  "getTimeDSecs ts = rnd (getTimeCSecs ts * c1000)"

definition getTimeSecs :: "timespec \<Rightarrow> rat" where
  "getTimeSecs ts = rnd (getTimeDSecs ts * c1000)"

section \<open>The timer\<close>

datatype eSuffix = eSec | eDsec | eCsec | eMsec | eUsec | eNsec

fun suffix :: "eSuffix \<Rightarrow> string" where
  "suffix eSec = ''s''"
| "suffix eDsec = ''ds''"
| "suffix eCsec = ''cs''"
| "suffix eMsec = ''ms''"
| "suffix eUsec = ''us''"
| "suffix eNsec = ''ns''"

record timer =
  tm_startTime :: "timespec option"
  tm_endTime :: "timespec option"
  tm_curTime :: timespec
  tm_offset :: tulong
  tm_stopped :: bool
  tm_started :: bool
  tm_sfx :: eSuffix
  tm_ssfx :: string

definition start :: "timespec \<Rightarrow> timer \<Rightarrow> tulong \<times> timer" where
  "start now t =
     (if tm_stopped t
      then (getTimeNSecs now, t\<lparr>tm_stopped := False, tm_startTime := Some now, tm_curTime := now, tm_started := True\<rparr>)
      else (0, t))"

definition stop :: "timespec \<Rightarrow> timer \<Rightarrow> tulong \<times> timer" where
  "stop now t =
     (if \<not> tm_stopped t then (getTimeNSecs now, t\<lparr>tm_stopped := True, tm_endTime := Some now, tm_curTime := now\<rparr>)
      else (0, t))"

definition resume :: "timespec \<Rightarrow> timer \<Rightarrow> (tulong \<times> timer) res" where
  "resume now t =
     (if tm_stopped t then
        (case tm_endTime t of
           None \<Rightarrow> Inl Uninitialised
         | Some e \<Rightarrow>
             let offset = tm_offset t + (getTimeNSecs now - getTimeNSecs e)
             in Inr (offset, t\<lparr>tm_curTime := now, tm_offset := offset, tm_stopped := False\<rparr>))
      else Inr (tm_offset t, t))"

text \<open>Both constructors set the suffix text to that of the default argument of \<^verbatim>\<open>getSuffix\<close>.\<close>

definition Timer_new :: "timespec \<Rightarrow> eSuffix \<Rightarrow> timer" where
  "Timer_new now s = \<lparr>tm_startTime = None, tm_endTime = None, tm_curTime = now, tm_offset = 0, tm_stopped = True,
     tm_started = False, tm_sfx = s, tm_ssfx = suffix eNsec\<rparr>"

definition Timer_started :: "timespec \<Rightarrow> timespec \<Rightarrow> bool \<Rightarrow> eSuffix \<Rightarrow> timer" where
  "Timer_started now now' startTimer s =
     (if startTimer then snd (start now' (Timer_new now s)) else Timer_new now s)"

definition getElapsedNSecs :: "timespec \<Rightarrow> timer \<Rightarrow> tulong \<times> timer" where
  "getElapsedNSecs now t =
     (if tm_started t then (getTimeNSecs now - getTimeNSecs (tm_curTime t), t\<lparr>tm_curTime := now\<rparr>) else (0, t))"

definition getElapsedUSecs :: "timespec \<Rightarrow> timer \<Rightarrow> rat \<times> timer" where
  "getElapsedUSecs now t = (let (d, t1) = getElapsedNSecs now t in (rnd (of_tulong d * c0010), t1))"

definition getElapsedMSecs :: "timespec \<Rightarrow> timer \<Rightarrow> rat \<times> timer" where
  "getElapsedMSecs now t = (let (d, t1) = getElapsedUSecs now t in (rnd (d * c0010), t1))"

definition getElapsedCSecs :: "timespec \<Rightarrow> timer \<Rightarrow> rat \<times> timer" where
  "getElapsedCSecs now t = (let (d, t1) = getElapsedMSecs now t in (rnd (d * c1000), t1))"

definition getElapsedDSecs :: "timespec \<Rightarrow> timer \<Rightarrow> rat \<times> timer" where
  "getElapsedDSecs now t = (let (d, t1) = getElapsedCSecs now t in (rnd (d * c1000), t1))"

definition getElapsedSecs :: "timespec \<Rightarrow> timer \<Rightarrow> rat \<times> timer" where
  "getElapsedSecs now t = (let (d, t1) = getElapsedDSecs now t in (rnd (d * c1000), t1))"

text \<open>\<^verbatim>\<open>getDurationNSecs\<close> asks for the time when it stops a running timer and when it resumes.\<close>

definition getDurationNSecs :: "timespec \<Rightarrow> timespec \<Rightarrow> timer \<Rightarrow> (tulong \<times> timer) res" where
  "getDurationNSecs now now' t =
     (let t1 = (if \<not> tm_stopped t then snd (stop now t) else t) in
      case (tm_endTime t1, tm_startTime t1) of
        (Some e, Some s) \<Rightarrow>
          ebind (resume now' t1) (\<lambda>(_, t2). Inr (getTimeNSecs e - getTimeNSecs s - tm_offset t1, t2))
      | _ \<Rightarrow> Inl Uninitialised)"

definition timer_reset :: "timespec \<Rightarrow> timer \<Rightarrow> timer" where
  "timer_reset now t = t\<lparr>tm_offset := 0, tm_stopped := True, tm_started := False, tm_startTime := Some now\<rparr>"

definition timer_minus :: "timespec \<Rightarrow> timespec \<Rightarrow> timer \<Rightarrow> timer \<Rightarrow> tulong \<times> timer \<times> timer" where
  "timer_minus now now' t u =
     (let (e1, t1) = getElapsedNSecs now t; (e2, u1) = getElapsedNSecs now' u
      in (if e2 < e1 then e1 - e2 else e2 - e1, t1, u1))"

definition running :: "timer \<Rightarrow> bool" where
  "running t \<longleftrightarrow> tm_started t"

text \<open>The other units, of the offset and of the duration.\<close>

definition getOffsetUSecs :: "timer \<Rightarrow> rat" where
  "getOffsetUSecs t = rnd (of_tulong (tm_offset t) * c0010)"

definition getOffsetMSecs :: "timer \<Rightarrow> rat" where
  "getOffsetMSecs t = rnd (getOffsetUSecs t * c0010)"

definition getOffsetCSecs :: "timer \<Rightarrow> rat" where
  "getOffsetCSecs t = rnd (getOffsetMSecs t * c1000)"

definition getOffsetDSecs :: "timer \<Rightarrow> rat" where
  "getOffsetDSecs t = rnd (getOffsetCSecs t * c1000)"

definition getOffsetSecs :: "timer \<Rightarrow> rat" where
  "getOffsetSecs t = rnd (getOffsetDSecs t * c1000)"

definition getDurationUSecs :: "timespec \<Rightarrow> timespec \<Rightarrow> timer \<Rightarrow> (rat \<times> timer) res" where
  "getDurationUSecs now now' t = ebind (getDurationNSecs now now' t) (\<lambda>(d, t1). Inr (rnd (of_tulong d * c0010), t1))"

definition getDurationMSecs :: "timespec \<Rightarrow> timespec \<Rightarrow> timer \<Rightarrow> (rat \<times> timer) res" where
  "getDurationMSecs now now' t = ebind (getDurationUSecs now now' t) (\<lambda>(d, t1). Inr (rnd (d * c0010), t1))"

definition getDurationCSecs :: "timespec \<Rightarrow> timespec \<Rightarrow> timer \<Rightarrow> (rat \<times> timer) res" where
  "getDurationCSecs now now' t = ebind (getDurationMSecs now now' t) (\<lambda>(d, t1). Inr (rnd (d * c1000), t1))"

definition getDurationDSecs :: "timespec \<Rightarrow> timespec \<Rightarrow> timer \<Rightarrow> (rat \<times> timer) res" where
  "getDurationDSecs now now' t = ebind (getDurationCSecs now now' t) (\<lambda>(d, t1). Inr (rnd (d * c1000), t1))"

definition getDurationSecs :: "timespec \<Rightarrow> timespec \<Rightarrow> timer \<Rightarrow> (rat \<times> timer) res" where
  "getDurationSecs now now' t = ebind (getDurationDSecs now now' t) (\<lambda>(d, t1). Inr (rnd (d * c1000), t1))"

section \<open>Reading the clock\<close>

definition time_value :: "timespec \<Rightarrow> nat" where
  "time_value ts = tv_sec ts * 10 ^ 9 + tv_nsec ts"

text \<open>A time that the clock can show until the year 2043.\<close>

definition clock_time :: "timespec \<Rightarrow> bool" where
  "clock_time ts \<longleftrightarrow> tv_nsec ts < 10 ^ 9 \<and> time_value ts < 2 ^ 61"

lemma rnd_nat: "n < 2 ^ 53 \<Longrightarrow> rnd (of_nat n) = of_nat n"
  using rnd_int [of "int n"] by simp

lemma ulp_bound:
  assumes "0 \<le> x" "x < 2 powi k" "min_exp + 53 \<le> k"
  shows "ulp x \<le> k - 53"
proof (cases "2 powi min_exp \<le> x")
  case True
  have "2 powi ilog2 x < (2 powi k :: rat)" using ilog2_bounds(1) [OF True] assms(2) by linarith
  with assms(3) powi_less [OF this] show ?thesis by (simp add: ulp_def)
next
  case False
  with small_ilog2 [of x] assms show ?thesis by (simp add: ulp_def)
qed

lemma getTimeNSecs_rnd:
  assumes "clock_time ts"
  shows "getTimeNSecs ts = to_tulong (rnd (of_nat (time_value ts)))"
proof -
  have v: "tv_nsec ts < 10 ^ 9" "tv_sec ts * 10 ^ 9 + tv_nsec ts < 2 ^ 61" using assms by (simp_all add: clock_time_def time_value_def)
  then have s: "tv_sec ts < 2 ^ 53" "int (tv_sec ts) * 5 ^ 9 < 2 ^ 53" by simp_all
  have "(of_nat (tv_sec ts) :: rat) * 10 ^ 9 = of_int (int (tv_sec ts) * 5 ^ 9) * 2 ^ 9" by simp
  then have "rnd (of_nat (tv_sec ts) * 10 ^ 9) = of_nat (tv_sec ts) * 10 ^ 9"
    using rnd_exact [of "int (tv_sec ts) * 5 ^ 9" 9] s(2) by (simp add: mult.commute)
  moreover have "rnd (of_nat (tv_nsec ts)) = of_nat (tv_nsec ts)" using v(1) by (intro rnd_nat) simp
  ultimately show ?thesis using rnd_nat [OF s(1)] by (simp add: getTimeNSecs_def time_value_def)
qed

lemma rnd_integral:
  assumes "0 \<le> m"
  shows "\<exists>k. rnd (of_int m) = of_int k"
proof (cases "m < 2 ^ 53")
  case True
  with rnd_int [OF assms] show ?thesis by blast
next
  case False
  have "(2 powi 53 :: rat) \<le> of_int m"
    using False by (metis le_less_linear of_int_le_iff of_int_numeral of_int_power power_int_numeral)
  moreover have "(2 powi min_exp :: rat) \<le> 2 powi 53" by (intro power_int_increasing) (simp_all add: min_exp_def)
  ultimately have "2 powi min_exp \<le> (of_int m :: rat)" by linarith
  from ilog2_bounds(2) [OF this] have "(2 powi 53 :: rat) < 2 powi (ilog2 (of_int m) + 1)"
    using \<open>2 powi 53 \<le> of_int m\<close> by linarith
  from powi_less [OF this] have "0 \<le> ulp (of_int m)" by (simp add: ulp_def)
  then have "rnd (of_int m) = of_int (round_even (of_int m / 2 powi ulp (of_int m)) * 2 ^ nat (ulp (of_int m)))"
    by (simp add: rnd_def power_int_def)
  then show ?thesis by blast
qed

lemma uint_getTimeNSecs:
  assumes "clock_time ts"
  shows "of_int (uint (getTimeNSecs ts)) = rnd (of_nat (time_value ts))"
proof -
  let ?v = "time_value ts"
  have v: "?v < 2 ^ 61" using assms by (simp add: clock_time_def)
  obtain k where k: "rnd (of_nat ?v) = of_int k" using rnd_integral [of "int ?v"] by auto
  have "of_int 0 \<le> (of_int k :: rat)" using rnd_mono [of 0 "of_nat ?v"] k by simp
  then have "0 \<le> k" by (simp only: of_int_le_iff)
  have "(of_nat ?v :: rat) \<le> of_nat (2 ^ 61)" using v by (simp only: of_nat_le_iff)
  then have "(of_nat ?v :: rat) \<le> of_int 1 * 2 ^ 61" by simp
  from rnd_mono [OF _ this] rnd_exact [of 1 61] k have "(of_int k :: rat) \<le> of_int (2 ^ 61)" by simp
  then have "k \<le> 2 ^ 61" by (simp only: of_int_le_iff)
  with \<open>0 \<le> k\<close> have "uint (word_of_int k :: tulong) = k" by (simp add: uint_word_of_int)
  then show ?thesis using k by (simp add: getTimeNSecs_rnd [OF assms] to_tulong_def)
qed

lemma getTimeNSecs_error:
  assumes "clock_time ts"
  shows "\<bar>uint (getTimeNSecs ts) - int (time_value ts)\<bar> \<le> 128"
proof -
  let ?v = "of_nat (time_value ts) :: rat"
  have "time_value ts < 2 ^ 61" using assms by (simp add: clock_time_def)
  then have "?v < of_nat (2 ^ 61)" by (simp only: of_nat_less_iff)
  then have "?v < 2 powi 61" by simp
  then have "ulp ?v \<le> 8" using ulp_bound [of ?v 61] by (simp add: min_exp_def)
  then have "(2 powi ulp ?v :: rat) \<le> 2 powi 8" by (intro power_int_increasing) simp_all
  with rnd_near [of ?v] have n: "\<bar>rnd ?v - ?v\<bar> \<le> 128" by simp
  define k where "k = uint (getTimeNSecs ts)"
  have "rnd ?v = of_int k" unfolding k_def uint_getTimeNSecs [OF assms] ..
  with n have "of_int \<bar>k - int (time_value ts)\<bar> \<le> (of_int 128 :: rat)" by simp
  then have "\<bar>k - int (time_value ts)\<bar> \<le> 128" by (simp only: of_int_le_iff)
  then show ?thesis by (simp add: k_def)
qed

lemma getTimeNSecs_mono:
  assumes "clock_time ts" "clock_time ts'" "time_value ts \<le> time_value ts'"
  shows "getTimeNSecs ts \<le> getTimeNSecs ts'"
proof -
  have "rnd (of_nat (time_value ts)) \<le> rnd (of_nat (time_value ts'))" using assms(3) by (intro rnd_mono) simp_all
  then have "(of_int (uint (getTimeNSecs ts)) :: rat) \<le> of_int (uint (getTimeNSecs ts'))"
    by (simp only: uint_getTimeNSecs assms(1,2))
  then show ?thesis by (simp only: word_le_def of_int_le_iff)
qed

section \<open>The threshold of the time-out\<close>

text \<open>The seconds of an elapsed time: six roundings and three rounded factors in a chain.\<close>

definition secs_of :: "tulong \<Rightarrow> rat" where
  "secs_of d = rnd (rnd (rnd (rnd (rnd (of_tulong d * c0010) * c0010) * c1000) * c1000) * c1000)"

lemma getElapsedSecs_eq: "getElapsedSecs now t = (secs_of (fst (getElapsedNSecs now t)), snd (getElapsedNSecs now t))"
  by (simp add: getElapsedSecs_def getElapsedDSecs_def getElapsedCSecs_def getElapsedMSecs_def getElapsedUSecs_def secs_of_def
      split_beta Let_def)

lemma large_enough: "(2 powi (min_exp + 53) :: rat) \<le> 1 / 10 ^ 11"
proof -
  have "(2 powi (min_exp + 53) :: rat) \<le> 2 powi (-40)" by (intro power_int_increasing) (simp_all add: min_exp_def)
  moreover have "(2 powi (-40) :: rat) \<le> 1 / 10 ^ 11" by (simp add: power_int_def power_one_over)
  ultimately show ?thesis by linarith
qed

lemma near_lower:
  assumes "near n x y" "n \<le> 12" "0 \<le> x"
  shows "x / 2 \<le> y"
proof -
  have "(1 / 2 :: rat) \<le> 1 - 12 * eps" by (simp add: eps_def)
  also have "\<dots> \<le> (1 - eps) ^ 12" using Bernoulli_inequality [of "- eps" 12] by (simp add: eps_def)
  also have "\<dots> \<le> (1 - eps) ^ n" using assms(2) by (intro power_decreasing) (simp_all add: eps_def)
  finally have "x * (1 / 2) \<le> x * (1 - eps) ^ n" using assms(3) by (intro mult_left_mono)
  with assms(1) show ?thesis by (simp add: near_def)
qed

lemma near_step:
  assumes "near n x y" "near 1 c c'" "n \<le> 11" "1 / 10 ^ 10 \<le> x * c" "0 \<le> x" "0 \<le> c" "m = n + 2"
  shows "near m (x * c) (rnd (y * c'))"
proof -
  have m: "near (n + 1) (x * c) (y * c')" using near_mult [OF assms(1,2,5,6)] .
  have "1 / 10 ^ 11 \<le> x * c / 2" using assms(4) by simp
  also have "\<dots> \<le> y * c'" using near_lower [OF m] assms(3-6) by simp
  finally have "near 1 (y * c') (rnd (y * c'))" using large_enough by (intro near_rnd) linarith
  from near_trans [OF m this] show ?thesis by (simp add: assms(7))
qed

lemma factors_near: "near 1 (1 / 1000) c0010" "near 1 (1 / 10) c1000"
  unfolding c0010_def c1000_def using large_enough by (intro near_rnd; simp)+

lemma secs_of_near:
  assumes "0 < d"
  shows "near 11 (of_int (uint d) / 10 ^ 9) (secs_of d)"
proof -
  let ?x = "of_int (uint d) :: rat"
  have "0 < uint d" using assms by (simp add: word_less_def)
  then have "of_int 1 \<le> ?x" by (simp only: of_int_le_iff)
  then have x: "1 \<le> ?x" by (simp only: of_int_1)
  then have 0: "near 1 ?x (of_tulong d)" unfolding of_tulong_def using large_enough by (intro near_rnd) simp
  have 1: "near 3 (?x * (1 / 1000)) (rnd (of_tulong d * c0010))"
    by (rule near_step [OF 0 factors_near(1)]) (use x in simp_all)
  have 2: "near 5 (?x * (1 / 1000) * (1 / 1000)) (rnd (rnd (of_tulong d * c0010) * c0010))"
    by (rule near_step [OF 1 factors_near(1)]) (use x in simp_all)
  have 3: "near 7 (?x * (1 / 1000) * (1 / 1000) * (1 / 10)) (rnd (rnd (rnd (of_tulong d * c0010) * c0010) * c1000))"
    by (rule near_step [OF 2 factors_near(2)]) (use x in simp_all)
  have 4: "near 9 (?x * (1 / 1000) * (1 / 1000) * (1 / 10) * (1 / 10))
      (rnd (rnd (rnd (rnd (of_tulong d * c0010) * c0010) * c1000) * c1000))"
    by (rule near_step [OF 3 factors_near(2)]) (use x in simp_all)
  have "near 11 (?x * (1 / 1000) * (1 / 1000) * (1 / 10) * (1 / 10) * (1 / 10)) (secs_of d)"
    unfolding secs_of_def by (rule near_step [OF 4 factors_near(2)]) (use x in simp_all)
  then show ?thesis by simp
qed

text \<open>The comparison of the computed seconds with ten is that of whole nanoseconds.\<close>

lemma secs_of_above: "10 ^ 10 < uint d \<Longrightarrow> 10 < secs_of d"
proof -
  assume d: "10 ^ 10 < uint d"
  then have "0 < d" by (simp add: word_less_def)
  have "of_int (10 ^ 10 + 1) \<le> (of_int (uint d) :: rat)" using d by (simp only: of_int_le_iff)
  then have "(10 ^ 10 + 1) / 10 ^ 9 \<le> of_int (uint d) / (10 ^ 9 :: rat)" by (intro divide_right_mono) simp_all
  then have "(10 ^ 10 + 1) / 10 ^ 9 * (1 - eps) ^ 11 \<le> of_int (uint d) / 10 ^ 9 * (1 - eps) ^ 11"
    by (intro mult_right_mono) (simp_all add: eps_def)
  also have "\<dots> \<le> secs_of d" using secs_of_near [OF \<open>0 < d\<close>] by (simp only: near_def)
  finally have l: "(10 ^ 10 + 1) / 10 ^ 9 * (1 - eps) ^ 11 \<le> secs_of d" .
  have "(1 - 11 * eps) \<le> (1 - eps) ^ 11" using Bernoulli_inequality [of "- eps" 11] by (simp add: eps_def)
  then have "(10 ^ 10 + 1) / 10 ^ 9 * (1 - 11 * eps) \<le> (10 ^ 10 + 1) / 10 ^ 9 * (1 - eps) ^ 11" by (intro mult_left_mono) simp_all
  moreover have "10 < (10 ^ 10 + 1) / 10 ^ 9 * (1 - 11 * eps)" by (simp add: eps_def)
  ultimately show "10 < secs_of d" using l by linarith
qed

lemma secs_of_below: "uint d < 10 ^ 10 \<Longrightarrow> secs_of d < 10"
proof (cases "d = 0")
  case False
  then have "0 < d" by (simp add: word_neq_0_conv)
  assume d: "uint d < 10 ^ 10"
  then have "(of_int (uint d) :: rat) \<le> of_int (10 ^ 10 - 1)" by (simp only: of_int_le_iff)
  then have "of_int (uint d) / (10 ^ 9 :: rat) \<le> (10 ^ 10 - 1) / 10 ^ 9" by (intro divide_right_mono) simp_all
  then have "of_int (uint d) / 10 ^ 9 * (1 + eps) ^ 11 \<le> (10 ^ 10 - 1) / 10 ^ 9 * (1 + eps) ^ 11"
    by (intro mult_right_mono) (simp_all add: eps_def)
  moreover have "secs_of d \<le> of_int (uint d) / 10 ^ 9 * (1 + eps) ^ 11" using secs_of_near [OF \<open>0 < d\<close>] by (simp only: near_def)
  moreover have "(10 ^ 10 - 1) / 10 ^ 9 * (1 + eps) ^ 11 < 10" by (simp add: eps_def power_divide)
  ultimately show ?thesis by linarith
qed (simp add: secs_of_def of_tulong_def)

text \<open>At the limit the chain gives ten exactly.\<close>

lemma rnd_eqI:
  assumes "2 ^ 52 \<le> x * 2 ^ k" "x * 2 ^ k < 2 ^ 53" "\<bar>x * 2 ^ k - of_int m\<bar> < 1 / 2" "min_exp \<le> - int k"
  shows "rnd x = of_int m / 2 ^ k"
proof -
  have p: "(2 powi (- int k + int j) :: rat) = 2 ^ j / 2 ^ k" for j
    by (simp add: power_int_diff)
  have l: "2 powi (- int k + int 52) \<le> x" "x < 2 powi (- int k + int 53)"
    unfolding p using assms(1,2) by (simp_all only: divide_le_eq less_divide_eq zero_less_power zero_less_numeral if_True)
  have "(2 powi min_exp :: rat) \<le> 2 powi (- int k + int 52)" using assms(4) by (intro power_int_increasing) simp_all
  with l(1) have x: "2 powi min_exp \<le> x" by linarith
  have "(2 :: rat) powi (- int k + int 52) < 2 powi (ilog2 x + 1)" "(2 :: rat) powi ilog2 x < 2 powi (- int k + int 53)"
    using ilog2_bounds [OF x] l by linarith+
  from powi_less [OF this(1)] powi_less [OF this(2)] assms(4) have u: "ulp x = - int k" by (simp add: ulp_def)
  have k: "(2 powi (- int k) :: rat) = 1 / 2 ^ k" by (simp add: power_int_minus field_simps)
  have "\<bar>of_int (round_even (x * 2 ^ k)) - x * 2 ^ k\<bar> \<le> 1 / 2" by (rule round_even_near)
  with assms(3) have "\<bar>of_int (round_even (x * 2 ^ k)) - of_int m\<bar> < (1 :: rat)" by linarith
  then have "of_int \<bar>round_even (x * 2 ^ k) - m\<bar> < (of_int 1 :: rat)" by simp
  then have "\<bar>round_even (x * 2 ^ k) - m\<bar> < 1" by (simp only: of_int_less_iff)
  then show ?thesis by (simp add: rnd_def u k)
qed

lemma factors: "c0010 = 4611686018427388 / 2 ^ 62" "c1000 = 7205759403792794 / 2 ^ 56"
proof -
  show "c0010 = 4611686018427388 / 2 ^ 62"
    unfolding c0010_def by (rule trans [OF rnd_eqI [of _ 62 4611686018427388]]) (simp_all add: min_exp_def)
  show "c1000 = 7205759403792794 / 2 ^ 56"
    unfolding c1000_def by (rule trans [OF rnd_eqI [of _ 56 7205759403792794]]) (simp_all add: min_exp_def)
qed

lemma limit_step: "2 ^ 52 \<le> x * c * 2 ^ k \<Longrightarrow> x * c * 2 ^ k < 2 ^ 53 \<Longrightarrow> \<bar>x * c * 2 ^ k - of_int m\<bar> < 1 / 2 \<Longrightarrow> min_exp \<le> - int k \<Longrightarrow>
    y = of_int m / 2 ^ k \<Longrightarrow> rnd (x * c) = y"
  using rnd_eqI by simp

lemma secs_of_limit: "secs_of (10 ^ 10) = 10"
proof -
  have 0: "of_tulong (10 ^ 10) = 10000000000" using rnd_int [of "10 ^ 10"] by (simp add: of_tulong_def)
  have 1: "rnd (10000000000 * c0010) = 10000000"
    by (rule limit_step [of _ _ 29 5368709120000000]) (simp_all add: factors min_exp_def)
  have 2: "rnd (10000000 * c0010) = 10000"
    by (rule limit_step [of _ _ 39 5497558138880000]) (simp_all add: factors min_exp_def)
  have 3: "rnd (10000 * c1000) = 1000"
    by (rule limit_step [of _ _ 43 8796093022208000]) (simp_all add: factors min_exp_def)
  have 4: "rnd (1000 * c1000) = 100"
    by (rule limit_step [of _ _ 46 7036874417766400]) (simp_all add: factors min_exp_def)
  have 5: "rnd (100 * c1000) = 10"
    by (rule limit_step [of _ _ 49 5629499534213120]) (simp_all add: factors min_exp_def)
  show ?thesis unfolding secs_of_def 0 1 2 3 4 5 ..
qed

lemma secs_of_limit_iff: "10 < secs_of d \<longleftrightarrow> 10 ^ 10 < uint d"
proof (cases "uint d = 10 ^ 10")
  case True
  then have "d = 10 ^ 10" by (intro word_uint_eqI) simp
  then show ?thesis using True secs_of_limit by simp
next
  case False
  then show ?thesis using secs_of_above [of d] secs_of_below [of d] by (cases "10 ^ 10 < uint d") auto
qed

lemma getElapsedSecs_limit:
  "10 < fst (getElapsedSecs now t) \<longleftrightarrow> 10 ^ 10 < uint (fst (getElapsedNSecs now t))"
  by (simp only: getElapsedSecs_eq secs_of_limit_iff fst_conv)

text \<open>If the clock is set back, the difference wraps around.\<close>

lemma wrap_bounds:
  "(0 :: int) \<le> a \<Longrightarrow> a < b \<Longrightarrow> b \<le> 2 ^ 61 + 128 \<Longrightarrow> 10 ^ 10 < a - b + 2 ^ 64 \<and> 0 \<le> a - b + 2 ^ 64 \<and> a - b + 2 ^ 64 < 2 ^ 64"
  by simp

lemma elapsed_wraps:
  assumes "tm_started t" "clock_time now" "clock_time (tm_curTime t)" "time_value now + 256 < time_value (tm_curTime t)"
  shows "10 ^ 10 < uint (fst (getElapsedNSecs now t))"
proof -
  let ?a = "uint (getTimeNSecs now)" and ?b = "uint (getTimeNSecs (tm_curTime t))"
  have "int (time_value (tm_curTime t)) < 2 ^ 61" using assms(3) by (simp add: clock_time_def)
  moreover note getTimeNSecs_error [OF assms(2)] getTimeNSecs_error [OF assms(3)]
  ultimately have "?a < ?b" "?b \<le> 2 ^ 61 + 128" using assms(4) by linarith+
  moreover have "0 \<le> ?a" by simp
  ultimately have "10 ^ 10 < ?a - ?b + 2 ^ 64 \<and> 0 \<le> ?a - ?b + 2 ^ 64 \<and> ?a - ?b + 2 ^ 64 < 2 ^ 64" by (intro wrap_bounds)
  moreover have "uint (getTimeNSecs now - getTimeNSecs (tm_curTime t)) = (?a - ?b) mod 2 ^ 64"
    by (simp add: uint_word_ariths)
  moreover have "(?a - ?b) mod 2 ^ 64 = ?a - ?b + 2 ^ 64"
    using calculation(1) by (subst mod_add_self2 [symmetric]) (simp only: mod_pos_pos_trivial)
  ultimately show ?thesis using assms(1) by (simp add: getElapsedNSecs_def)
qed

section \<open>The timer as a stopwatch\<close>

text \<open>
  The abstract stopwatch adds up the lengths of the intervals in which it runs, and apart from them those of its
  pauses. It is going since a time or pausing since a time, and remembers when it was last touched or looked at.
\<close>

datatype sw_phase = Going tulong | Pausing tulong

record stopwatch =
  sw_total :: tulong
  sw_pauses :: tulong
  sw_phase :: sw_phase
  sw_seen :: tulong

datatype timer_op = Stop timespec | Resume timespec | Elapsed timespec | Duration timespec timespec

definition sw_stop :: "tulong \<Rightarrow> stopwatch \<Rightarrow> stopwatch" where
  "sw_stop now w =
     (case sw_phase w of
        Going m \<Rightarrow> w\<lparr>sw_total := sw_total w + (now - m), sw_phase := Pausing now, sw_seen := now\<rparr>
      | Pausing _ \<Rightarrow> w)"

definition sw_resume :: "tulong \<Rightarrow> stopwatch \<Rightarrow> stopwatch" where
  "sw_resume now w =
     (case sw_phase w of
        Going _ \<Rightarrow> w
      | Pausing m \<Rightarrow> w\<lparr>sw_pauses := sw_pauses w + (now - m), sw_phase := Going now, sw_seen := now\<rparr>)"

definition sw_going :: "stopwatch \<Rightarrow> bool" where
  "sw_going w = (case sw_phase w of Going _ \<Rightarrow> True | Pausing _ \<Rightarrow> False)"

text \<open>
  What each operation answers: a stop the time of the stop, or 0 if it does not go; a resumption the sum of the pauses
  so far; a look the time since it was last touched or looked at; a question for the duration the time it has been
  going.
\<close>

fun sw_step :: "timer_op \<Rightarrow> stopwatch \<Rightarrow> tulong \<times> stopwatch" where
  "sw_step (Stop n) w = (if sw_going w then getTimeNSecs n else 0, sw_stop (getTimeNSecs n) w)"
| "sw_step (Resume n) w = (let w1 = sw_resume (getTimeNSecs n) w in (sw_pauses w1, w1))"
| "sw_step (Elapsed n) w = (getTimeNSecs n - sw_seen w, w\<lparr>sw_seen := getTimeNSecs n\<rparr>)"
| "sw_step (Duration n n') w =
     (let w1 = sw_stop (getTimeNSecs n) w in (sw_total w1, sw_resume (getTimeNSecs n') w1))"

fun timer_step :: "timer_op \<Rightarrow> timer \<Rightarrow> (tulong \<times> timer) res" where
  "timer_step (Stop n) t = Inr (stop n t)"
| "timer_step (Resume n) t = resume n t"
| "timer_step (Elapsed n) t = Inr (getElapsedNSecs n t)"
| "timer_step (Duration n n') t = getDurationNSecs n n' t"

fun sw_run :: "timer_op list \<Rightarrow> stopwatch \<Rightarrow> tulong list" where
  "sw_run [] w = []"
| "sw_run (x # xs) w = fst (sw_step x w) # sw_run xs (snd (sw_step x w))"

fun timer_run :: "timer_op list \<Rightarrow> timer \<Rightarrow> tulong list res" where
  "timer_run [] t = Inr []"
| "timer_run (x # xs) t = ebind (timer_step x t) (\<lambda>(out, t1). ebind (timer_run xs t1) (\<lambda>outs. Inr (out # outs)))"

text \<open>
  The stopwatch that a timer is: the offset is what the pauses add up to, and the total is what is left of the time
  since the start.
\<close>

definition tracks :: "timer \<Rightarrow> stopwatch \<Rightarrow> bool" where
  "tracks t w \<longleftrightarrow> tm_started t \<and> getTimeNSecs (tm_curTime t) = sw_seen w \<and> tm_offset t = sw_pauses w \<and>
     (\<exists>s. tm_startTime t = Some s \<and>
       (case sw_phase w of
          Going m \<Rightarrow> \<not> tm_stopped t \<and> sw_total w = m - getTimeNSecs s - tm_offset t
        | Pausing m \<Rightarrow> tm_stopped t \<and> sw_total w = m - getTimeNSecs s - tm_offset t \<and>
            (\<exists>e. tm_endTime t = Some e \<and> getTimeNSecs e = m)))"

lemma tracks_stop:
  "tracks t w \<Longrightarrow> fst (stop n t) = fst (sw_step (Stop n) w) \<and> tracks (snd (stop n t)) (sw_stop (getTimeNSecs n) w)"
  by (auto simp: tracks_def stop_def sw_stop_def sw_going_def split: sw_phase.splits)

lemma tracks_resume:
  "tracks t w \<Longrightarrow> \<exists>t'. resume n t = Inr (sw_pauses (sw_resume (getTimeNSecs n) w), t') \<and> tracks t' (sw_resume (getTimeNSecs n) w)"
  by (auto simp: tracks_def resume_def sw_resume_def Let_def split: sw_phase.splits)

lemma tracks_elapsed:
  "tracks t w \<Longrightarrow> fst (getElapsedNSecs n t) = getTimeNSecs n - sw_seen w \<and>
     tracks (snd (getElapsedNSecs n t)) (w\<lparr>sw_seen := getTimeNSecs n\<rparr>)"
  by (auto simp: tracks_def getElapsedNSecs_def split: sw_phase.splits)

lemma stop_stopped: "tm_stopped (snd (stop n t))"
  by (simp add: stop_def)

lemma tracks_stopped: "tracks t w \<Longrightarrow> tm_stopped t \<Longrightarrow>
    \<exists>s e. tm_startTime t = Some s \<and> tm_endTime t = Some e \<and> sw_total w = getTimeNSecs e - getTimeNSecs s - tm_offset t"
  by (cases "sw_phase w") (auto simp: tracks_def)

lemma timer_step_simulates:
  assumes "tracks t w"
  shows "\<exists>t'. timer_step x t = Inr (fst (sw_step x w), t') \<and> tracks t' (snd (sw_step x w))"
proof (cases x)
  case (Stop n)
  with tracks_stop [OF assms, of n] show ?thesis by (cases "stop n t") simp
next
  case (Resume n)
  with tracks_resume [OF assms, of n] show ?thesis by (simp add: Let_def)
next
  case (Elapsed n)
  with tracks_elapsed [OF assms, of n] show ?thesis by (cases "getElapsedNSecs n t") simp
next
  case (Duration n n')
  have eq: "(if \<not> tm_stopped t then snd (stop n t) else t) = snd (stop n t)" by (simp add: stop_def)
  have t1: "tracks (snd (stop n t)) (sw_stop (getTimeNSecs n) w)" using tracks_stop [OF assms] by simp
  from tracks_stopped [OF t1 stop_stopped] tracks_resume [OF t1, of n'] show ?thesis
    by (auto simp: Duration getDurationNSecs_def eq Let_def)
qed

lemma timer_run_simulates: "tracks t w \<Longrightarrow> timer_run xs t = Inr (sw_run xs w)"
proof (induction xs arbitrary: t w)
  case (Cons x xs)
  from timer_step_simulates [OF Cons.prems, of x] Cons.IH show ?case by auto
qed simp

section \<open>Properties\<close>

text \<open>
  Until the year 2043, the nanoseconds that the timer computes in doubles are at most 128 off, and they do not run
  backwards when the clock does not.
\<close>

theorem clock_reading:
  assumes "clock_time ts" "clock_time ts'" "time_value ts \<le> time_value ts'"
  shows "\<bar>uint (getTimeNSecs ts) - int (time_value ts)\<bar> \<le> 128 \<and> getTimeNSecs ts \<le> getTimeNSecs ts'"
  using getTimeNSecs_error [OF assms(1)] getTimeNSecs_mono [OF assms] by blast

definition example_time :: "nat \<Rightarrow> timespec" where
  "example_time n = \<lparr>tv_sec = 1340000000 + n, tv_nsec = 123456789\<rparr>"

lemma example_clock: "n < 1000 \<Longrightarrow> clock_time (example_time n)"
  by (simp add: clock_time_def example_time_def time_value_def)

theorem clock_reading_witness:
  "\<bar>uint (getTimeNSecs (example_time 0)) - 1340000000123456789\<bar> \<le> 128 \<and> getTimeNSecs (example_time 0) \<le> getTimeNSecs (example_time 1)"
  using clock_reading [OF example_clock [of 0] example_clock [of 1]] by (simp add: example_time_def time_value_def)

text \<open>
  C18: the chain of five multiplications with rounded factors decides the time-out exactly as a comparison of whole
  nanoseconds would: the seconds exceed ten if and only if the nanoseconds exceed ten thousand millions.
\<close>

theorem timeout_equivalence:
  "10 < fst (getElapsedSecs now t) \<longleftrightarrow> 10 ^ 10 < uint (fst (getElapsedNSecs now t))"
  by (rule getElapsedSecs_limit)

text \<open>
  C19: from its start on, under any sequence of stops, resumptions, looks at the elapsed time and questions for the
  duration, repeated ones included, the timer answers as a stopwatch does, modulo the width of the numbers: a stop with
  the time of the stop, or 0 if it is stopped already; a resumption with the sum of the pauses so far; a look with the
  time since it was last started, stopped, resumed or looked at; and a question for the duration with the sum of the
  intervals in which it ran, although the timer keeps only the start, the last end, the last reading and the sum of the
  pauses. No operation in such a sequence reads a time that was never stored.
\<close>

theorem timer_refines_stopwatch:
  "timer_run xs (Timer_started now now' True s) =
     Inr (sw_run xs \<lparr>sw_total = 0, sw_pauses = 0, sw_phase = Going (getTimeNSecs now'), sw_seen = getTimeNSecs now'\<rparr>)"
  by (rule timer_run_simulates) (simp add: tracks_def Timer_started_def Timer_new_def start_def)

end
