(* ===== verification/RM_Transport.thy ===== *)
theory RM_Transport
  imports RM_AstWalker RM_Security RM_Timer
begin

text \<open>
  \<^verbatim>\<open>src/src/manager/TransportService.h\<close> and \<^verbatim>\<open>RepositoryManager.cpp\<close>: one process
  listens, and forks a child for each client that connects. The child parses and verifies the
  credential, sends a challenge, checks the signed response, writes the client's statements
  beside the policy into the file \<^verbatim>\<open>rlf_tmp.P\<close> and then answers requests.

  A session is the state of such a child. What it reads from the socket, what running the
  query command on the current file gives, OpenSSL, the clock and the parser are fields of an
  environment. The file is shared by all children and is passed separately.

  The theory shows that the receive loops stay inside their buffers, that \<^verbatim>\<open>granted\<close> is only
  ever sent to a client whose credential was verified and who answered the challenge, and three
  weaknesses of the protocol: every client gets the same challenge, a client with an unreadable
  key needs no valid response, and a query may run on the statements of another client.
\<close>

section \<open>The environment and the state\<close>

text \<open>
  \<open>env_reads i\<close> is the \<open>i\<close>th \<^verbatim>\<open>read\<close> on the client's socket: bytes (none at the end of
  the stream) or \<open>None\<close> for an error. \<open>env_parse\<close> gives \<open>None\<close> where the parser does not
  return, and the tree, or a null pointer, where it does.
\<close>

record 'k env =
  env_crypto :: "'k crypto"
  env_calendar :: calendar
  env_validate :: bool
  env_parse :: "string \<Rightarrow> ast option option"
  env_rand :: "nat \<Rightarrow> nat"
  env_reads :: "nat \<Rightarrow> string option"
  env_file_open :: bool
  env_run :: "string option \<Rightarrow> string \<Rightarrow> query_run"

record session =
  ts_socketMsg :: string
  ts_policy :: string
  ts_sec :: security
  clientAuthenticated :: bool
  processingRequests :: bool
  socketListening :: bool
  ts_open :: bool
  ts_reads :: nat
  ts_sent :: "string list"

text \<open>\<^verbatim>\<open>readPolicy\<close>: the text up to the first zero, if the file is there and not empty.\<close>

definition readPolicy :: "(string \<Rightarrow> string option) \<Rightarrow> string \<Rightarrow> string \<Rightarrow> bool \<times> string" where
  "readPolicy files name policy =
     (if name \<noteq> '''' then
        (case files name of
           None \<Rightarrow> (False, policy)
         | Some s \<Rightarrow> if 0 < length s then (True, c_str s) else (False, policy))
      else (False, policy))"

text \<open>
  The part of the constructor that concerns the sessions. A policy that cannot be read is
  reported and the server goes on with an empty one.
\<close>

definition TransportService_new :: "(string \<Rightarrow> string option) \<Rightarrow> string \<Rightarrow> session" where
  "TransportService_new files name =
     \<lparr>ts_socketMsg = '''', ts_policy = snd (readPolicy files name ''''), ts_sec = SecurityService_new,
      clientAuthenticated = False, processingRequests = False, socketListening = False, ts_open = False,
      ts_reads = 0, ts_sent = []\<rparr>"

section \<open>Receiving and sending\<close>

text \<open>
  The receive loop of \<^verbatim>\<open>authenticateClient\<close> and \<^verbatim>\<open>processRequest\<close>. \<open>got\<close> are the bytes
  stored so far in the zeroed buffer of \<^verbatim>\<open>MAX_BUFF + 1\<close> bytes; the search for the end marker
  and the final conversion see them up to the first zero. A failed read adds \<open>-1\<close> to the
  count, but ends the loop.
\<close>

definition read_chunk :: "string option \<Rightarrow> string" where
  "read_chunk r = (case r of None \<Rightarrow> '''' | Some s \<Rightarrow> take MAX_READ s)"

function read_msg :: "(nat \<Rightarrow> string option) \<Rightarrow> nat \<Rightarrow> string \<Rightarrow> string \<Rightarrow> string \<times> nat" where
  "read_msg rd i marker got =
     (let chunk = read_chunk (rd i); got1 = got @ chunk in
      if \<not> sublist marker (c_str got1) \<and> length got1 + MAX_READ < MAX_BUFF \<and> 0 < length chunk
      then read_msg rd (i + 1) marker got1 else (got1, i + 1))"
  by pat_completeness auto
termination
  by (relation "measure (\<lambda>(rd, i, marker, got). MAX_BUFF - length got)") (auto simp: MAX_READ_def intro!: diff_less_mono2)

declare read_msg.simps [simp del]

text \<open>Every offset at which the loop stores a chunk.\<close>

function read_offsets :: "(nat \<Rightarrow> string option) \<Rightarrow> nat \<Rightarrow> string \<Rightarrow> string \<Rightarrow> nat list" where
  "read_offsets rd i marker got =
     length got #
     (let chunk = read_chunk (rd i); got1 = got @ chunk in
      if \<not> sublist marker (c_str got1) \<and> length got1 + MAX_READ < MAX_BUFF \<and> 0 < length chunk
      then read_offsets rd (i + 1) marker got1 else [])"
  by pat_completeness auto
termination
  by (relation "measure (\<lambda>(rd, i, marker, got). MAX_BUFF - length got)") (auto simp: MAX_READ_def intro!: diff_less_mono2)

declare read_offsets.simps [simp del]

definition receive :: "(nat \<Rightarrow> string option) \<Rightarrow> string \<Rightarrow> session \<Rightarrow> string \<times> session" where
  "receive rd marker s =
     (let (got, i) = read_msg rd (ts_reads s) marker '''' in (c_str got, s\<lparr>ts_reads := i\<rparr>))"

definition send :: "string \<Rightarrow> session \<Rightarrow> session" where
  "send m s = (if ts_open s then s\<lparr>ts_sent := ts_sent s @ [m]\<rparr> else s)"

section \<open>Authentication\<close>

definition challenge_of :: "'k env \<Rightarrow> string" where
  "challenge_of E = c_str (generateChallenge (env_rand E))"

definition challenge_msg :: "'k env \<Rightarrow> string" where
  "challenge_msg E = BEGIN_CHALLENGE_S @ ''\<newline>'' @ challenge_of E @ ''\<newline>'' @ END_CHALLENGE_S @ ''\<newline>''"

definition authenticateClient :: "'k env \<Rightarrow> string \<Rightarrow> session \<Rightarrow> (bool \<times> session) res" where
  "authenticateClient E pubKey s =
     (let s1 = send (challenge_msg E) s in
      ebind (getMsgDigest_str (env_crypto E) (challenge_of E)) (\<lambda>_.
        let (response, s2) = receive (env_reads E) END_RESPONSE_S s1 in
        ebind (verifySig (env_crypto E) pubKey response (challenge_of E)) (\<lambda>ok. Inr (ok, s2))))"

section \<open>The credential message\<close>

text \<open>The end of \<^verbatim>\<open>processMsg\<close>, for a credential; the result is the session and the file.\<close>

definition admit ::
  "'k env \<Rightarrow> credential \<Rightarrow> session \<Rightarrow> string option \<Rightarrow> (session \<times> string option) res" where
  "admit E cr s file =
     ebind (Credential_toString (env_calendar E) cr) (\<lambda>(cr1, _).
     ebind (setPolicy (ts_policy s) (ts_sec s)) (\<lambda>sec1.
     ebind (verifyCredential (env_crypto E) (env_calendar E) (env_validate E) (Some cr1) sec1) (\<lambda>(ok, sec2).
       let s1 = s\<lparr>ts_sec := sec2\<rparr> in
       if ok then
         ebind (authenticateClient E (cred_pubKey cr1) s1) (\<lambda>(auth, s2).
           let s3 = s2\<lparr>clientAuthenticated := auth\<rparr> in
           if auth then
             ebind (writeBinderFile (env_file_open E) (ts_sec s3)) (\<lambda>(written, content).
               let file1 = (case content of None \<Rightarrow> file | Some _ \<Rightarrow> content) in
               Inr (if written then s3\<lparr>processingRequests := True\<rparr> else s3, file1))
           else Inr (s3\<lparr>ts_open := False\<rparr>, file))
       else Inr (s1\<lparr>ts_open := False\<rparr>, file))))"

definition processMsg ::
  "'k env \<Rightarrow> session \<Rightarrow> string option \<Rightarrow> (bool \<times> session \<times> string option) res option" where
  "processMsg E s file =
     (if ts_socketMsg s = '''' then Some (Inr (False, s, file))
      else
        Option.bind (env_parse E (ts_socketMsg s)) (\<lambda>tt.
          case tt of
            None \<Rightarrow> Some (Inl Null_Pointer)
          | Some t \<Rightarrow>
              map_option
                (\<lambda>r. ebind r (\<lambda>(c, _).
                   case c of
                     None \<Rightarrow> Inr (True, s\<lparr>ts_open := False\<rparr>, file)
                   | Some cr \<Rightarrow> ebind (admit E cr s file) (\<lambda>(s1, file1). Inr (True, s1, file1))))
                (getCredential (env_calendar E) t AstWalker_new)))"

section \<open>Requests\<close>

definition reply_msg :: "string \<Rightarrow> string" where
  "reply_msg verdict = BEGIN_SERVER_RESPONSE_S @ ''\<newline>'' @ verdict @ ''\<newline>'' @ END_SERVER_RESPONSE_S @ ''\<newline>''"

definition query_verdict :: "'k env \<Rightarrow> security \<Rightarrow> string option \<Rightarrow> string \<Rightarrow> bool res" where
  "query_verdict E sec file request =
     ebind (generateQuery sec request) (\<lambda>(query, _).
       if query \<noteq> '''' then executeQuery (env_run E file) query else Inr False)"

definition processRequest :: "'k env \<Rightarrow> session \<Rightarrow> string option \<Rightarrow> (bool \<times> session) res" where
  "processRequest E s file =
     (let (request, s1) = receive (env_reads E) END_CLIENT_REQUEST_S s;
          s2 = (if str_find request FIN_S \<noteq> npos then s1\<lparr>processingRequests := False\<rparr>
                else if request = '''' then s1\<lparr>processingRequests := False\<rparr> else s1) in
      if processingRequests s2 then
        ebind (query_verdict E (ts_sec s2) file request) (\<lambda>granted.
          Inr (True, send (reply_msg (if granted then GRANT_S else DENY_S)) s2))
      else Inr (False, s2\<lparr>socketListening := False, ts_open := False\<rparr>))"

section \<open>A child process\<close>

text \<open>
  What a forked child does after \<^verbatim>\<open>fork\<close>: \<^verbatim>\<open>processMsg\<close>, then \<^verbatim>\<open>processRequest\<close> until
  it returns false, then it exits. An exception or a signal ends it too.
\<close>

datatype phase = Forked | Serving | Exited | Crashed

inductive child_step :: "'k env \<Rightarrow> phase \<times> session \<times> string option \<Rightarrow> phase \<times> session \<times> string option \<Rightarrow> bool"
  for E :: "'k env" where
  step_msg: "processMsg E s file = Some (Inr (b, s', file')) \<Longrightarrow>
      child_step E (Forked, s, file) (Serving, s', file')"
| step_msg_crash: "processMsg E s file = Some (Inl e) \<Longrightarrow> child_step E (Forked, s, file) (Crashed, s, file)"
| step_request: "processRequest E s file = Inr (True, s') \<Longrightarrow> child_step E (Serving, s, file) (Serving, s', file)"
| step_exit: "processRequest E s file = Inr (False, s') \<Longrightarrow> child_step E (Serving, s, file) (Exited, s', file)"
| step_crash: "processRequest E s file = Inl e \<Longrightarrow> child_step E (Serving, s, file) (Crashed, s, file)"
| step_other: "child_step E (ph, s, file) (ph, s, file')"

text \<open>The last rule is another child that writes the shared file between two steps.\<close>

inductive_cases child_stepE: "child_step E (ph, s, file) r"

section \<open>The listening process\<close>

text \<open>
  \<^verbatim>\<open>startListening\<close> in the parent. \<open>srv_rand\<close> counts the calls of \<^verbatim>\<open>rand()\<close> in this
  process; a forked child starts with a copy of everything, the generator's state included, and
  nothing it does comes back.
\<close>

definition TIME_OUT :: int where
  "TIME_OUT = 10"

record server =
  srv_self :: session
  srv_children :: nat
  srv_rand :: nat
  srv_forked :: "(session \<times> nat) list"
  srv_timer :: timer

text \<open>
  One round of the loop: the descriptor \<^verbatim>\<open>accept\<close> returned, the bytes read (\<open>None\<close> for an
  error, after which the buffer is still zero), whether \<^verbatim>\<open>fork\<close> succeeded, and what the clock shows when
  the timer is asked and when it is asked again for the message that is printed. The test of
  \<^verbatim>\<open>bytesRead\<close> never succeeds, since the variable is only ever set to zero; a failed read gives
  an empty message.
\<close>

record conn =
  cn_fd :: int
  cn_data :: "string option"
  cn_forks :: bool
  cn_clock :: timespec
  cn_clock_again :: timespec

definition fork_child :: "session \<Rightarrow> server \<Rightarrow> server" where
  "fork_child s sv = sv\<lparr>srv_forked := srv_forked sv @ [(s, srv_rand sv)]\<rparr>"

definition accept_round :: "conn \<Rightarrow> server \<Rightarrow> server" where
  "accept_round cn sv =
     (let sv1 = (if processingRequests (srv_self sv) then fork_child (srv_self sv) sv else sv) in
      if cn_fd cn \<noteq> 0 then
        let msg = ts_socketMsg (srv_self sv1) @ (case cn_data cn of None \<Rightarrow> '''' | Some d \<Rightarrow> c_str (take MAX_BUFF d));
            self = (srv_self sv1)\<lparr>ts_socketMsg := msg, ts_open := True\<rparr>;
            sv2 = (if cn_forks cn then fork_child self sv1 else sv1)
        in sv2\<lparr>srv_self := self\<lparr>ts_socketMsg := ''''\<rparr>\<rparr>
      else sv1)"

text \<open>The end of the round: the printing of the message asks the timer again.\<close>

definition check_time_out :: "conn \<Rightarrow> server \<Rightarrow> server" where
  "check_time_out cn sv =
     (if srv_children sv = 0 then
        let (secs, t1) = getElapsedSecs (cn_clock cn) (srv_timer sv) in
        if of_int TIME_OUT < secs
        then sv\<lparr>srv_timer := snd (getElapsedSecs (cn_clock_again cn) t1), srv_self := (srv_self sv)\<lparr>socketListening := False\<rparr>\<rparr>
        else sv\<lparr>srv_timer := t1\<rparr>
      else sv)"

definition listen_round :: "conn \<Rightarrow> server \<Rightarrow> server" where
  "listen_round cn sv = check_time_out cn (accept_round cn sv)"

fun listen_loop :: "conn list \<Rightarrow> server \<Rightarrow> server" where
  "listen_loop [] sv = sv"
| "listen_loop (cn # cns) sv =
     (if socketListening (srv_self sv) then listen_loop cns (listen_round cn sv) else sv)"

text \<open>The timer is a local variable that is started on construction; the clock is read twice.\<close>

definition startListening :: "bool \<Rightarrow> timespec \<Rightarrow> timespec \<Rightarrow> conn list \<Rightarrow> server \<Rightarrow> server" where
  "startListening socketInit now now' cns sv =
     (if socketInit then
        listen_loop cns (sv\<lparr>srv_self := (srv_self sv)\<lparr>socketListening := True\<rparr>, srv_timer := Timer_started now now' True eNsec\<rparr>)
      else sv)"

text \<open>
  \<^verbatim>\<open>main\<close>, after the arguments are there: the generator is seeded once, so that
  \<open>rand_seq\<close> is the sequence of its values from then on.
\<close>

definition no_time :: timespec where
  "no_time = \<lparr>tv_sec = 0, tv_nsec = 0\<rparr>"

definition main_server :: "(string \<Rightarrow> string option) \<Rightarrow> string \<Rightarrow> server" where
  "main_server files name =
     \<lparr>srv_self = TransportService_new files name, srv_children = 0, srv_rand = 0, srv_forked = [],
      srv_timer = Timer_new no_time eNsec\<rparr>"

text \<open>What a child forked after \<open>n\<close> calls of the generator sees.\<close>

definition child_env :: "(nat \<Rightarrow> nat) \<Rightarrow> nat \<Rightarrow> 'k env \<Rightarrow> 'k env" where
  "child_env rand_seq n E = E\<lparr>env_rand := (\<lambda>i. rand_seq (n + i))\<rparr>"

section \<open>The receive loop\<close>

lemma read_chunk_bound: "length (read_chunk r) \<le> MAX_READ"
  by (simp add: read_chunk_def split: option.split)

lemma read_offsets_bound:
  assumes "length got + MAX_READ \<le> MAX_BUFF"
  shows "\<forall>n \<in> set (read_offsets rd i marker got). n + MAX_READ \<le> MAX_BUFF"
  using assms
proof (induction rd i marker got rule: read_offsets.induct)
  case (1 rd i marker got)
  then show ?case by (subst read_offsets.simps) (auto simp: Let_def)
qed

lemma read_msg_bound:
  assumes "length got + MAX_READ \<le> MAX_BUFF"
  shows "length (fst (read_msg rd i marker got)) \<le> MAX_BUFF"
  using assms
proof (induction rd i marker got rule: read_msg.induct)
  case (1 rd i marker got)
  show ?case
    using 1 read_chunk_bound [of "rd i"] by (subst read_msg.simps) (auto simp: Let_def)
qed

lemma read_msg_reads: "i < snd (read_msg rd i marker got)"
proof (induction rd i marker got rule: read_msg.induct)
  case (1 rd i marker got)
  then show ?case by (subst read_msg.simps) (auto simp: Let_def intro: less_trans)
qed

section \<open>What a session keeps\<close>

definition initial :: "session \<Rightarrow> bool" where
  "initial s \<longleftrightarrow> \<not> clientAuthenticated s \<and> \<not> processingRequests s \<and> ts_sent s = [] \<and> ts_reads s = 0
     \<and> ts_sec s = SecurityService_new \<and> ts_open s"

text \<open>The response that the session reads after it has sent its challenge.\<close>

definition response_of :: "'k env \<Rightarrow> session \<Rightarrow> string" where
  "response_of E s = c_str (fst (read_msg (env_reads E) (ts_reads s) END_RESPONSE_S ''''))"

definition after_response :: "'k env \<Rightarrow> session \<Rightarrow> nat" where
  "after_response E s = snd (read_msg (env_reads E) (ts_reads s) END_RESPONSE_S '''')"

text \<open>
  What makes session \<open>s\<close> admitted, when it began as \<open>s0\<close>: the message \<open>s0\<close> came with was parsed to a
  credential, this credential was verified and left the security state of \<open>s\<close>, the challenge was the first message
  sent, and what was read first after it was accepted as the answer under the key of this credential. All requests
  are read behind the response.
\<close>

definition admitted :: "'k env \<Rightarrow> session \<Rightarrow> session \<Rightarrow> bool" where
  "admitted E s0 s \<longleftrightarrow> clientAuthenticated s \<and> after_response E s0 \<le> ts_reads s \<and>
     (\<exists>rs. ts_sent s = challenge_msg E # rs) \<and>
     (\<exists>t cr w cr1 shown sec1.
        env_parse E (ts_socketMsg s0) = Some (Some t) \<and>
        getCredential (env_calendar E) t AstWalker_new = Some (Inr (Some cr, w)) \<and>
        Credential_toString (env_calendar E) cr = Inr (cr1, shown) \<and>
        setPolicy (ts_policy s0) (ts_sec s0) = Inr sec1 \<and>
        verifyCredential (env_crypto E) (env_calendar E) (env_validate E) (Some cr1) sec1 = Inr (True, ts_sec s) \<and>
        verifySig (env_crypto E) (cred_pubKey cr1) (response_of E s0) (challenge_of E) = Inr True \<and>
        (\<exists>cr2. sec_cred (ts_sec s) = Some cr2 \<and> cred_pubKey cr2 = cred_pubKey cr1 \<and>
           getKeyDigest (env_crypto E) (cred_pubKey cr1) = Inr (cred_keyDigest cr2)))"

text \<open>The request that a session reads next, and the test that it is neither empty nor the end.\<close>

definition request_of :: "'k env \<Rightarrow> session \<Rightarrow> string" where
  "request_of E s = fst (receive (env_reads E) END_CLIENT_REQUEST_S s)"

definition asks :: "string \<Rightarrow> bool" where
  "asks request \<longleftrightarrow> str_find request FIN_S = npos \<and> request \<noteq> ''''"

lemma receive_simps [simp]:
  "ts_sec (snd (receive rd m s)) = ts_sec s" "ts_sent (snd (receive rd m s)) = ts_sent s"
  "processingRequests (snd (receive rd m s)) = processingRequests s"
  "clientAuthenticated (snd (receive rd m s)) = clientAuthenticated s" "ts_open (snd (receive rd m s)) = ts_open s"
  by (simp_all add: receive_def split: prod.split)

lemma receive_reads: "ts_reads s < ts_reads (snd (receive rd m s))"
  using read_msg_reads [of "ts_reads s" rd m "''''"] by (simp add: receive_def split_beta)

lemma send_simps [simp]:
  "ts_sec (send m s) = ts_sec s" "processingRequests (send m s) = processingRequests s"
  "clientAuthenticated (send m s) = clientAuthenticated s" "ts_reads (send m s) = ts_reads s"
  by (simp_all add: send_def)

lemma verifyCredential_cred:
  "verifyCredential C cal v (Some cr) sec = Inr (ok, sec') \<Longrightarrow>
     \<exists>cr'. sec_cred sec' = Some cr' \<and> cred_pubKey cr' = cred_pubKey cr \<and> getKeyDigest C (cred_pubKey cr) = Inr (cred_keyDigest cr')"
  by (auto simp: verifyCredential_def ebind_Inr_iff Let_def cred_setKeyDigest_def split: prod.splits)

lemma authenticateClient_eq:
  "authenticateClient E key s =
     ebind (verifySig (env_crypto E) key (response_of E s) (challenge_of E))
       (\<lambda>ok. Inr (ok, (send (challenge_msg E) s)\<lparr>ts_reads := after_response E s\<rparr>))"
proof -
  obtain d where "getMsgDigest_str (env_crypto E) (challenge_of E) = Inr d" using getMsgDigest_str_returns by blast
  moreover have "ts_reads (send m s) = ts_reads s" for m by (simp add: send_def)
  ultimately show ?thesis
    by (simp add: authenticateClient_def response_of_def after_response_def receive_def split_beta Let_def)
qed

lemma response_sec [simp]: "response_of E (s\<lparr>ts_sec := x\<rparr>) = response_of E s" "after_response E (s\<lparr>ts_sec := x\<rparr>) = after_response E s"
  by (simp_all add: response_of_def after_response_def)

lemma challenge_not_grant: "reply_msg GRANT_S \<noteq> challenge_msg E"
  by (simp add: reply_msg_def challenge_msg_def message_labels)

lemma grant_not_deny: "reply_msg GRANT_S \<noteq> reply_msg DENY_S"
  by (simp add: reply_msg_def message_labels)

text \<open>Processing the message sends no more than the challenge, and serves only who is admitted.\<close>

lemma admit_sent:
  assumes "admit E cr s file = Inr (s', file')" "ts_sent s = []"
  shows "reply_msg GRANT_S \<notin> set (ts_sent s')"
  using assms
  by (auto simp: admit_def authenticateClient_eq send_def challenge_not_grant ebind_Inr_iff Let_def split: prod.splits if_splits)

lemma admit_admitted:
  assumes "admit E cr s file = Inr (s', file')" "initial s" "processingRequests s'"
    "env_parse E (ts_socketMsg s) = Some (Some t)" "getCredential (env_calendar E) t AstWalker_new = Some (Inr (Some cr, w))"
  shows "admitted E s s'"
proof -
  obtain cr1 shown sec1 ok sec2 where v: "Credential_toString (env_calendar E) cr = Inr (cr1, shown)"
    "setPolicy (ts_policy s) (ts_sec s) = Inr sec1"
    "verifyCredential (env_crypto E) (env_calendar E) (env_validate E) (Some cr1) sec1 = Inr (ok, sec2)"
    and r: "(if ok then
         ebind (authenticateClient E (cred_pubKey cr1) (s\<lparr>ts_sec := sec2\<rparr>)) (\<lambda>(auth, s2).
           let s3 = s2\<lparr>clientAuthenticated := auth\<rparr> in
           if auth then
             ebind (writeBinderFile (env_file_open E) (ts_sec s3)) (\<lambda>(written, content).
               let file1 = (case content of None \<Rightarrow> file | Some _ \<Rightarrow> content) in
               Inr (if written then s3\<lparr>processingRequests := True\<rparr> else s3, file1))
           else Inr (s3\<lparr>ts_open := False\<rparr>, file))
       else Inr (s\<lparr>ts_sec := sec2, ts_open := False\<rparr>, file)) = Inr (s', file')"
    using assms(1) by (auto simp: admit_def ebind_Inr_iff Let_def split: prod.splits)
  have np: "\<not> processingRequests s" "ts_sent s = []" "ts_open s" using assms(2) by (simp_all add: initial_def)
  have "ok" using r assms(3) np by (auto split: if_splits)
  obtain auth where a: "verifySig (env_crypto E) (cred_pubKey cr1) (response_of E s) (challenge_of E) = Inr auth"
    using r \<open>ok\<close> by (auto simp: authenticateClient_eq ebind_Inr_iff)
  have "auth" using r \<open>ok\<close> a assms(3) np by (auto simp: authenticateClient_eq Let_def split: if_splits)
  have "clientAuthenticated s' \<and> ts_reads s' = after_response E s \<and> ts_sent s' = [challenge_msg E] \<and> ts_sec s' = sec2"
    using r \<open>ok\<close> a \<open>auth\<close> np by (auto simp: authenticateClient_eq send_def ebind_Inr_iff Let_def)
  then show ?thesis using v \<open>ok\<close> a \<open>auth\<close> assms(4,5) verifyCredential_cred [OF v(3)] unfolding admitted_def by auto
qed

lemma processMsg_session:
  assumes "processMsg E s file = Some (Inr (b, s', file'))" "initial s"
  shows "(\<exists>t cr w. env_parse E (ts_socketMsg s) = Some (Some t) \<and>
      getCredential (env_calendar E) t AstWalker_new = Some (Inr (Some cr, w)) \<and> admit E cr s file = Inr (s', file')) \<or>
    (\<not> processingRequests s' \<and> ts_sent s' = [])"
  using assms
  by (auto simp: processMsg_def initial_def bind_eq_Some_conv ebind_Inr_iff split: if_splits option.splits prod.splits)

lemma processMsg_admitted:
  assumes "processMsg E s file = Some (Inr (b, s', file'))" "initial s"
  shows "reply_msg GRANT_S \<notin> set (ts_sent s')" "processingRequests s' \<Longrightarrow> admitted E s s'"
proof -
  have "ts_sent s = []" using assms(2) by (simp add: initial_def)
  with processMsg_session [OF assms] show "reply_msg GRANT_S \<notin> set (ts_sent s')"
    using admit_sent [of E _ s "file" s' file'] by auto
  show "processingRequests s' \<Longrightarrow> admitted E s s'"
    using processMsg_session [OF assms] admit_admitted [OF _ assms(2)] by blast
qed

text \<open>A request is answered, or it ends the session and nothing is sent.\<close>

lemma processRequest_served:
  "processingRequests s \<and> asks (request_of E s) \<Longrightarrow>
    processRequest E s file =
      ebind (query_verdict E (ts_sec s) file (request_of E s)) (\<lambda>granted.
        Inr (True, send (reply_msg (if granted then GRANT_S else DENY_S)) (snd (receive (env_reads E) END_CLIENT_REQUEST_S s))))"
  by (simp add: processRequest_def request_of_def asks_def Let_def split_beta)

lemma processRequest_ends:
  "\<not> (processingRequests s \<and> asks (request_of E s)) \<Longrightarrow>
    \<exists>s'. processRequest E s file = Inr (False, s') \<and> ts_sent s' = ts_sent s \<and> ts_sec s' = ts_sec s \<and>
      clientAuthenticated s' = clientAuthenticated s \<and> \<not> processingRequests s'"
  by (auto simp: processRequest_def request_of_def asks_def Let_def split_beta)

lemma processRequest_keeps:
  assumes "processRequest E s file = Inr (b, s')" "processingRequests s'"
  shows "processingRequests s" "ts_sec s' = ts_sec s" "clientAuthenticated s' = clientAuthenticated s"
    "ts_reads s \<le> ts_reads s'" "\<exists>rs. ts_sent s' = ts_sent s @ rs"
proof -
  have c: "processingRequests s \<and> asks (request_of E s)" using processRequest_ends [of s E "file"] assms by auto
  then show "processingRequests s" ..
  obtain m where s': "s' = send m (snd (receive (env_reads E) END_CLIENT_REQUEST_S s))"
    using assms(1) by (auto simp: processRequest_served [OF c] ebind_Inr_iff)
  show "ts_sec s' = ts_sec s" "clientAuthenticated s' = clientAuthenticated s" by (simp_all add: s')
  show "ts_reads s \<le> ts_reads s'"
    using receive_reads [of s "env_reads E" END_CLIENT_REQUEST_S] by (simp add: s')
  show "\<exists>rs. ts_sent s' = ts_sent s @ rs" by (simp add: s' send_def)
qed

lemma processRequest_grants:
  assumes "processRequest E s file = Inr (b, s')"
    "count_list (ts_sent s) (reply_msg GRANT_S) < count_list (ts_sent s') (reply_msg GRANT_S)"
  shows "b \<and> processingRequests s \<and> ts_sent s' = ts_sent s @ [reply_msg GRANT_S] \<and> asks (request_of E s) \<and>
    (\<exists>q rest. generateQuery (ts_sec s) (request_of E s) = Inr (q, rest) \<and> q \<noteq> '''' \<and> executeQuery (env_run E file) q = Inr True)"
proof -
  have c: "processingRequests s \<and> asks (request_of E s)" using processRequest_ends [of s E "file"] assms by fastforce
  obtain granted where g: "query_verdict E (ts_sec s) file (request_of E s) = Inr granted"
    "s' = send (reply_msg (if granted then GRANT_S else DENY_S)) (snd (receive (env_reads E) END_CLIENT_REQUEST_S s))" b
    using assms(1) by (auto simp: processRequest_served [OF c] ebind_Inr_iff)
  have sent: "ts_sent s' = (if ts_open s then ts_sent s @ [reply_msg (if granted then GRANT_S else DENY_S)] else ts_sent s)"
    unfolding g(2) by (simp add: send_def)
  then have "ts_open s" using assms(2) by (auto split: if_splits)
  moreover from this have "granted" using sent assms(2) grant_not_deny [symmetric] by (cases granted) simp_all
  ultimately have "ts_sent s' = ts_sent s @ [reply_msg GRANT_S]" using sent by simp
  moreover have "query_verdict E (ts_sec s) file (request_of E s) = Inr True" using g(1) \<open>granted\<close> by simp
  then have "\<exists>q rest. generateQuery (ts_sec s) (request_of E s) = Inr (q, rest) \<and> q \<noteq> '''' \<and>
      executeQuery (env_run E file) q = Inr True"
    by (auto simp: query_verdict_def ebind_Inr_iff split: if_splits)
  ultimately show ?thesis using g(3) c by blast
qed

definition child_inv :: "'k env \<Rightarrow> session \<Rightarrow> phase \<times> session \<times> string option \<Rightarrow> bool" where
  "child_inv E s0 c = (case c of (ph, s, file) \<Rightarrow>
     (ph = Forked \<longrightarrow> s = s0) \<and> (processingRequests s \<longrightarrow> admitted E s0 s))"

lemma admitted_keeps:
  assumes "admitted E s0 s" "processRequest E s file = Inr (b, s')" "processingRequests s'"
  shows "admitted E s0 s'"
proof -
  note k = processRequest_keeps [OF assms(2,3)]
  show ?thesis using assms(1) k(2-5) unfolding admitted_def by auto
qed

lemma child_inv_step:
  assumes "child_step E c c'" "child_inv E s0 c" "initial s0"
  shows "child_inv E s0 c'"
  using assms
proof cases
  case (step_msg s fl b s' fl')
  with assms(2) have "s = s0" by (simp add: child_inv_def)
  with step_msg processMsg_admitted(2) [of E s0 fl b s' fl'] assms(3) show ?thesis by (simp add: child_inv_def)
next
  case (step_request s fl s')
  then show ?thesis
    using assms(2) admitted_keeps [OF _ step_request(3), of s0] processRequest_keeps(1) [OF step_request(3)]
    by (auto simp: child_inv_def)
next
  case (step_exit s fl s')
  then show ?thesis
    using assms(2) admitted_keeps [OF _ step_exit(3), of s0] processRequest_keeps(1) [OF step_exit(3)]
    by (auto simp: child_inv_def)
qed (auto simp: child_inv_def)

lemma child_inv_reachable:
  assumes "(child_step E)\<^sup>*\<^sup>* (Forked, s0, file0) c" "initial s0"
  shows "child_inv E s0 c"
  using assms
proof (induction rule: rtranclp_induct)
  case base
  then show ?case by (simp add: child_inv_def initial_def)
next
  case (step c c')
  then show ?case using child_inv_step by blast
qed

text \<open>A step in which one more \<^verbatim>\<open>granted\<close> is sent is a request that the file of this step answers with yes.\<close>

lemma step_grants:
  assumes "child_step E (ph, s, file) (ph', s', file')" "child_inv E s0 (ph, s, file)" "initial s0"
    "count_list (ts_sent s) (reply_msg GRANT_S) < count_list (ts_sent s') (reply_msg GRANT_S)"
  shows "processingRequests s \<and> ts_sent s' = ts_sent s @ [reply_msg GRANT_S] \<and> asks (request_of E s) \<and>
    (\<exists>q rest. generateQuery (ts_sec s) (request_of E s) = Inr (q, rest) \<and> q \<noteq> '''' \<and> executeQuery (env_run E file) q = Inr True)"
  using assms(1)
proof cases
  case (step_msg b)
  then have "s = s0" using assms(2) by (simp add: child_inv_def)
  with processMsg_admitted(1) [of E s0 "file" b s' file'] step_msg assms(3,4) show ?thesis
    by (auto simp: count_list_0_iff)
next
  case step_request
  then show ?thesis using processRequest_grants [OF _ assms(4)] by blast
next
  case step_exit
  then show ?thesis using processRequest_grants [OF _ assms(4)] by blast
qed (use assms(4) in simp_all)

section \<open>Serving an honest client\<close>

lemma render_certificates_complete:
  "\<forall>ct \<in> set cts. certStr ct \<noteq> '''' \<Longrightarrow> \<exists>t. render_certificates cal i cts = Inr (cts, t)"
proof (induction cts arbitrary: i)
  case (Cons ct cts)
  then obtain t where "render_certificates cal (i + 1) cts = Inr (cts, t)" by auto
  moreover have "\<exists>u. Certificate_toString cal ct = Inr (ct, u)"
    using Cons.prems by (simp add: Certificate_toString_def)
  ultimately show ?case by auto
qed simp

lemma Credential_toString_complete:
  assumes "\<forall>ct \<in> set (certificates cr). certStr ct \<noteq> ''''"
  shows "\<exists>t. Credential_toString cal cr = Inr (cr, t)"
proof -
  obtain t where "render_certificates cal 0 (certificates cr) = Inr (certificates cr, t)"
    using render_certificates_complete [OF assms] by blast
  then show ?thesis by (simp add: Credential_toString_def)
qed

lemma concat_nth_map: "concat (map (\<lambda>j. f (xs ! j)) [0..<length xs]) = concat (map f xs)"
proof -
  have "map (\<lambda>j. f (xs ! j)) [0..<length xs] = map f (map ((!) xs) [0..<length xs])" by simp
  then show ?thesis by (simp only: map_nth)
qed

lemma transformed_lines_eq:
  "transformed_lines cr = concat (map (\<lambda>ct. concat (map (\<lambda>b. b @ ''\<newline>'') (transformedCls ct))) (certificates cr))"
proof -
  have ct: "concat (map (\<lambda>j. getTransformedCls ct j @ ''\<newline>'') [0..<numTransformedCls ct]) =
      concat (map (\<lambda>b. b @ ''\<newline>'') (transformedCls ct))" for ct
  proof -
    have "map (\<lambda>j. getTransformedCls ct j @ ''\<newline>'') [0..<numTransformedCls ct] =
        map (\<lambda>j. (\<lambda>b. b @ ''\<newline>'') (transformedCls ct ! j)) [0..<length (transformedCls ct)]"
      by (simp add: getTransformedCls_def numTransformedCls_def)
    then show ?thesis using concat_nth_map [of "\<lambda>b. b @ ''\<newline>''" "transformedCls ct"] by simp
  qed
  have "map (\<lambda>i. case getCertificate cr i of None \<Rightarrow> '''' | Some ct \<Rightarrow>
        concat (map (\<lambda>j. getTransformedCls ct j @ ''\<newline>'') [0..<numTransformedCls ct])) [0..<numCertificates cr] =
      map (\<lambda>i. (\<lambda>ct. concat (map (\<lambda>b. b @ ''\<newline>'') (transformedCls ct))) (certificates cr ! i)) [0..<length (certificates cr)]"
    by (simp add: getCertificate_def numCertificates_def ct)
  then show ?thesis
    unfolding transformed_lines_def using concat_nth_map [of _ "certificates cr"] by simp
qed

text \<open>What is asked of a client: a checkable credential whose signatures are accepted, and the response.\<close>

definition honest :: "'k env \<Rightarrow> credential \<Rightarrow> session \<Rightarrow> bool" where
  "honest E cr s \<longleftrightarrow> key_decodes (env_crypto E) (cred_pubKey cr) \<and>
     (\<forall>ct \<in> set (certificates cr). cert_checkable (env_crypto E) ct \<and> sig_accepted (env_crypto E) ct \<and> certStr ct \<noteq> '''') \<and>
     verifySig (env_crypto E) (cred_pubKey cr) (response_of E s) (challenge_of E) = Inr True"

lemma admit_serves:
  assumes "honest E cr s" "\<not> env_validate E" "env_file_open E" "setPolicy (ts_policy s) (ts_sec s) = Inr sec1"
    "sec_policy sec1 = Some p"
  shows "\<exists>sec2 cr' (p' :: policy). policyStr p' = policyStr p \<and> sec_cred sec2 = Some cr' \<and> getKeyDigest (env_crypto E) (cred_pubKey cr) = Inr (cred_keyDigest cr') \<and>
    list_all2 (attributed (env_crypto E)) (certificates cr) (certificates cr') \<and>
    admit E cr s file = Inr ((send (challenge_msg E) (s\<lparr>ts_sec := sec2\<rparr>))\<lparr>ts_reads := after_response E s, clientAuthenticated := True,
        processingRequests := True\<rparr>,
      Some (policyStr p' @ ''\<newline>'' @ ''/* Begin Transformed Rules */'' @ ''\<newline>'' @ transformed_lines cr'))"
proof -
  have h: "key_decodes (env_crypto E) (cred_pubKey cr)" "\<forall>ct \<in> set (certificates cr). cert_checkable (env_crypto E) ct"
    "\<forall>ct \<in> set (certificates cr). sig_accepted (env_crypto E) ct" "\<forall>ct \<in> set (certificates cr). certStr ct \<noteq> ''''"
    "verifySig (env_crypto E) (cred_pubKey cr) (response_of E s) (challenge_of E) = Inr True"
    using assms(1) by (auto simp: honest_def)
  obtain t where t: "Credential_toString (env_calendar E) cr = Inr (cr, t)" using Credential_toString_complete [OF h(4)] by blast
  obtain d where d: "getKeyDigest (env_crypto E) (cred_pubKey cr) = Inr d" using getKeyDigest_returns [OF h(1)] by blast
  obtain cts p' where c: "verify_certificates (env_crypto E) (env_calendar E) False (Some p) (certificates cr) = Inr (True, cts, Some p')"
    "policyStr p' = policyStr p" "list_all2 (\<lambda>ct ct'. if sig_accepted (env_crypto E) ct then attributed (env_crypto E) ct ct' else ct' = ct) (certificates cr) cts"
    using verify_certificates_returns [OF h(2), of "env_calendar E" p] h(3) by auto
  have att: "list_all2 (attributed (env_crypto E)) (certificates cr) cts"
    using c(3) h(3) by (auto simp: list_all2_conv_all_nth)
  define cr' where "cr' = cr\<lparr>cred_keyDigest := d, certificates := cts\<rparr>"
  define sec2 where "sec2 = sec1\<lparr>sec_policy := Some p', sec_cred := Some cr'\<rparr>"
  have v: "verifyCredential (env_crypto E) (env_calendar E) (env_validate E) (Some cr) sec1 = Inr (True, sec2)"
    using d c(1) assms(2,5) by (simp add: verifyCredential_def cred_setKeyDigest_def sec2_def cr'_def)
  have a: "authenticateClient E (cred_pubKey cr) (s\<lparr>ts_sec := sec2\<rparr>) =
      Inr (True, (send (challenge_msg E) (s\<lparr>ts_sec := sec2\<rparr>))\<lparr>ts_reads := after_response E s\<rparr>)"
    using h(5) by (simp add: authenticateClient_eq)
  have w: "writeBinderFile (env_file_open E) sec2 = Inr (True, Some (policyStr p' @ ''\<newline>'' @
      ''/* Begin Transformed Rules */'' @ ''\<newline>'' @ transformed_lines cr'))"
    using assms(3) by (simp add: writeBinderFile_def sec2_def)
  have "admit E cr s file = Inr ((send (challenge_msg E) (s\<lparr>ts_sec := sec2\<rparr>))\<lparr>ts_reads := after_response E s, clientAuthenticated := True,
        processingRequests := True\<rparr>,
      Some (policyStr p' @ ''\<newline>'' @ ''/* Begin Transformed Rules */'' @ ''\<newline>'' @ transformed_lines cr'))"
    using t assms(4) v a w unfolding admit_def by (simp add: Let_def)
  moreover have "sec_cred sec2 = Some cr'" "getKeyDigest (env_crypto E) (cred_pubKey cr) = Inr (cred_keyDigest cr')"
    "list_all2 (attributed (env_crypto E)) (certificates cr) (certificates cr')"
    using d att by (simp_all add: sec2_def cr'_def)
  ultimately show ?thesis using c(2)
    by (intro exI [of _ sec2] exI [of _ cr'] exI [of _ p'] conjI)
qed

lemma getAtoms_keeps: "getAtoms p = Inr p' \<Longrightarrow> policyStr p' = policyStr p"
  by (auto simp: getAtoms_def Let_def ebind_Inr_iff split: if_splits)

lemma setPolicy_policy: "Policy_new str = Inr p \<Longrightarrow> setPolicy str sec = Inr (sec\<lparr>sec_policyStr := str, sec_policy := Some p\<rparr>)"
  by (simp add: setPolicy_def)

lemma Policy_new_str: "Policy_new str = Inr p \<Longrightarrow> policyStr p = str"
  by (auto simp: Policy_new_def dest: getAtoms_keeps split: if_splits)

lemma c_str_append: "CHR 0x00 \<notin> set a \<Longrightarrow> c_str (a @ CHR 0x00 # b) = a"
  unfolding c_str_def by (subst takeWhile_append2) auto

lemma challenge_of_eq: "challenge_of E = map (\<lambda>i. challenge_char (env_rand E i)) [0..<MAX_CHALLENGE_BUF]"
proof -
  have "CHR 0x00 \<notin> set (map (\<lambda>i. challenge_char (env_rand E i)) [0..<MAX_CHALLENGE_BUF])"
    by (auto simp: challenge_char_def)
  then show ?thesis
    unfolding challenge_of_def generateChallenge_def by (rule c_str_append)
qed

lemma challenge_of_nonempty: "challenge_of E \<noteq> []"
  by (simp add: challenge_of_eq MAX_CHALLENGE_BUF_def)

lemma processMsg_serves:
  assumes "ts_socketMsg s \<noteq> ''''" "env_parse E (ts_socketMsg s) = Some (Some t)"
    "getCredential (env_calendar E) t AstWalker_new = Some (Inr (Some cr, w))"
    "honest E cr s" "\<not> env_validate E" "env_file_open E" "Policy_new (ts_policy s) = Inr p"
  shows "\<exists>sec cr'. sec_cred sec = Some cr' \<and>
    getKeyDigest (env_crypto E) (cred_pubKey cr) = Inr (cred_keyDigest cr') \<and>
    list_all2 (attributed (env_crypto E)) (certificates cr) (certificates cr') \<and>
    processMsg E s file = Some (Inr (True,
      (send (challenge_msg E) (s\<lparr>ts_sec := sec\<rparr>))\<lparr>ts_reads := after_response E s, clientAuthenticated := True, processingRequests := True\<rparr>,
      Some (ts_policy s @ ''\<newline>'' @ ''/* Begin Transformed Rules */'' @ ''\<newline>'' @ transformed_lines cr')))"
proof -
  let ?sec1 = "(ts_sec s)\<lparr>sec_policyStr := ts_policy s, sec_policy := Some p\<rparr>"
  have "sec_policy ?sec1 = Some p" by simp
  from admit_serves [OF assms(4-6) setPolicy_policy [OF assms(7)] this, of "file"] Policy_new_str [OF assms(7)] assms(1-3)
  show ?thesis by (fastforce simp: processMsg_def)
qed

text \<open>An environment in which the client of the example credential is served.\<close>

definition example_env :: "nat env" where
  "example_env = \<lparr>env_crypto = example_crypto, env_calendar = example_calendar, env_validate = False,
     env_parse = (\<lambda>_. Some (Some (example_tree example_syntax))), env_rand = (\<lambda>_. 1),
     env_reads = (\<lambda>i. if i = 0 then Some END_RESPONSE_S
        else if i = 1 then Some (''request(read,f)'' @ END_CLIENT_REQUEST_S) else Some ''''),
     env_file_open = True, env_run = (\<lambda>_ _. Thread_Gone (Some ''\<newline>yes\<newline>''))\<rparr>"

definition example_session :: session where
  "example_session = \<lparr>ts_socketMsg = ''m'', ts_policy = '''', ts_sec = SecurityService_new, clientAuthenticated = False,
     processingRequests = False, socketListening = True, ts_open = True, ts_reads = 0, ts_sent = []\<rparr>"

lemma example_initial: "initial example_session"
  by (simp add: initial_def example_session_def)

lemma example_verifySig:
  assumes "key \<noteq> ''''" "key \<noteq> ''junk''" "sg \<noteq> ''''" "msg \<noteq> ''''"
  shows "verifySig example_crypto key sg msg = Inr True"
proof -
  obtain d where "getMsgDigest_str example_crypto msg = Inr d" "length d = MD5_DIGEST_LENGTH + 1"
    using getMsgDigest_str_returns by blast
  moreover have "1 \<le> 3 * length sg" using assms(3) by (cases sg) auto
  moreover have "d \<noteq> []" using calculation(2) by auto
  ultimately show ?thesis
    using assms by (simp add: verifySig_def example_crypto_def decodeB64_def MD5_DIGEST_LENGTH_def)
qed

lemma example_response:
  assumes "ts_reads s = 0"
  shows "response_of example_env s = END_RESPONSE_S" "after_response example_env s = 1"
proof -
  have "read_msg (env_reads example_env) 0 END_RESPONSE_S '''' = (END_RESPONSE_S, 1)"
    by (subst read_msg.simps)
      (simp add: example_env_def read_chunk_def MAX_READ_def message_labels c_str_def Let_def)
  with assms show "response_of example_env s = END_RESPONSE_S" "after_response example_env s = 1"
    by (simp_all add: response_of_def after_response_def message_labels c_str_def)
qed

lemma example_honest:
  assumes "finalize example_calendar (cred_of example_syntax) = Inr cr"
  shows "honest example_env cr example_session"
proof -
  obtain ct where ct: "setCertificateStr example_calendar (cert_of (hd (sx_certs example_syntax))) = Inr ct"
    "cr = (cred_of example_syntax)\<lparr>certificates := [ct]\<rparr>"
    using assms by (auto simp: finalize_def ebind_Inr_iff cred_of_def example_syntax_def)
  have f: "cert_pubKey ct = cert_pubKey (cert_of (hd (sx_certs example_syntax)))"
    "signature ct = signature (cert_of (hd (sx_certs example_syntax)))"
    "cert_clauses ct = cert_clauses (cert_of (hd (sx_certs example_syntax)))" "certStr ct \<noteq> ''''"
    using ct(1) by (auto simp: setCertificateStr_def Let_def ebind_Inr_iff cert_of_def Certificate_new_def clause_layout_def)
  have pk: "cert_pubKey ct \<noteq> ''''" "cert_pubKey ct \<noteq> ''junk''" "signature ct \<noteq> ''''" "cred_pubKey cr \<noteq> ''''" "cred_pubKey cr \<noteq> ''junk''"
    using f ct(2) by (simp_all add: cert_of_def cred_of_def example_syntax_def ast_labels Certificate_new_def)
  have kd: "key_decodes example_crypto k" for k by (simp add: key_decodes_def example_crypto_def)
  have "sig_accepted example_crypto ct" using example_verifySig pk f(4) by (simp add: sig_accepted_def)
  moreover have "cert_checkable example_crypto ct"
    using kd pk(3) f(3) by (simp add: cert_checkable_def example_crypto_def cert_of_def example_syntax_def
        clause_layout_def clause_fits_def MAX_BUFF_def Suc_leI)
  moreover have "verifySig example_crypto (cred_pubKey cr) (response_of example_env example_session) (challenge_of example_env) = Inr True"
    using example_verifySig [OF pk(4,5)] challenge_of_nonempty [of example_env] example_response [of example_session]
    by (simp add: example_session_def message_labels)
  ultimately show ?thesis
    using ct(2) f(4) kd by (simp add: honest_def example_env_def)
qed

lemma example_served:
  "\<exists>s' file cr. processMsg example_env example_session None = Some (Inr (True, s', file)) \<and> processingRequests s' \<and>
     clientAuthenticated s' \<and> ts_open s' \<and> sec_cred (ts_sec s') = Some cr \<and> ts_reads s' = 1"
proof -
  obtain cr where cr: "finalize example_calendar (cred_of example_syntax) = Inr cr" using example_finalize by blast
  obtain w where w: "getCredential example_calendar (example_tree example_syntax) AstWalker_new = Some (Inr (Some cr, w))"
    using getCredential_run [OF example_wf _ _ example_layout cr]
    by (auto simp: example_syntax_def example_tree_def c_str_def ast_labels)
  have e: "env_calendar example_env = example_calendar"
    "env_parse example_env (ts_socketMsg example_session) = Some (Some (example_tree example_syntax))"
    "\<not> env_validate example_env" "env_file_open example_env" by (simp_all add: example_env_def)
  obtain p where pol: "Policy_new (ts_policy example_session) = Inr p" by (simp add: Policy_new_def example_session_def)
  have msg: "ts_socketMsg example_session \<noteq> ''''" by (simp add: example_session_def)
  have n: "after_response example_env example_session = 1" using example_response by (simp add: example_session_def)
  from processMsg_serves [OF msg e(2) w [folded e(1)] example_honest [OF cr] e(3,4) pol, of None] n
  show ?thesis by (fastforce simp: send_def example_session_def)
qed

lemma example_request:
  assumes "sec_cred (ts_sec s) = Some cr" "ts_reads s = 1" "processingRequests s" "ts_open s"
  shows "\<exists>s'. processRequest example_env s fl = Inr (True, s') \<and> reply_msg GRANT_S \<in> set (ts_sent s')"
proof -
  let ?m = "''request(read,f)'' @ END_CLIENT_REQUEST_S"
  have "read_msg (env_reads example_env) 1 END_CLIENT_REQUEST_S '''' = (?m, 2)"
    by (subst read_msg.simps)
      (simp add: example_env_def read_chunk_def MAX_READ_def message_labels c_str_def Let_def sublist_Cons_right)
  then have rc: "receive (env_reads example_env) END_CLIENT_REQUEST_S s = (?m, s\<lparr>ts_reads := 2\<rparr>)"
    using assms(2) by (simp add: receive_def c_str_def message_labels)
  have fin: "str_find ?m FIN_S = npos"
    by (rule str_find_npos) (simp add: message_labels sublist_Cons_right)
  have q: "generateQuery (ts_sec s) ?m = Inr (''allow('' @ cred_keyDigest cr @ '',read,f).'', ''request(read,f)'')"
    using generateQuery_run [of "''''" "''read''" "''f''" "''''" "''''" "ts_sec s" cr] assms(1)
    by (simp add: message_labels npos_def sublist_Cons_right)
  have rl: "read_lines ''\<newline>yes\<newline>'' = ''\<newline>yes'' @ ''\<newline>'' @ ''''"
    by (simp add: read_lines.simps numeral_eq_Suc)
  have "executeQuery (env_run example_env fl) (''allow('' @ cred_keyDigest cr @ '',read,f).'') = Inr True"
    using executeQueryProc_newline [OF rl] by (simp add: executeQuery_def example_env_def suffix_def npos_def rl)
  then have "query_verdict example_env (ts_sec s) fl ?m = Inr True" using q by (simp add: query_verdict_def)
  then show ?thesis
    using rc fin assms(3,4) by (simp add: processRequest_def Let_def send_def)
qed

section \<open>Properties\<close>

text \<open>
  C1: whatever the client sends, whatever the other children write into the shared file and
  however the steps interleave, whenever a child sends one more \<^verbatim>\<open>granted\<close>:
  it is the answer to the request read in this very step, and the query generated from this request and the digest of
  the session's client was run in this step and answered yes on the file as it is then; and the session was admitted:
  the message it was forked with was parsed to a credential that was verified and is the one of the security
  state with which the query was generated, with the digest of its key, its challenge was sent first, and what the client sent first after it was
  accepted by \<^verbatim>\<open>verifySig\<close> as the answer to this challenge under the key of this credential.
\<close>

theorem granted_only_if_admitted:
  assumes "(child_step E)\<^sup>*\<^sup>* (Forked, s0, file0) (ph, s, file)" "initial s0"
    "child_step E (ph, s, file) (ph', s', file')"
    "count_list (ts_sent s) (reply_msg GRANT_S) < count_list (ts_sent s') (reply_msg GRANT_S)"
  shows "ts_sent s' = ts_sent s @ [reply_msg GRANT_S] \<and>
    (\<exists>request s1 q rest.
       receive (env_reads E) END_CLIENT_REQUEST_S s = (request, s1) \<and> request \<noteq> '''' \<and> str_find request FIN_S = npos \<and>
       generateQuery (ts_sec s) request = Inr (q, rest) \<and> q \<noteq> '''' \<and>
       executeQuery (env_run E file) q = Inr True) \<and>
    clientAuthenticated s \<and>
    (\<exists>t cr w cr1 shown sec1.
       env_parse E (ts_socketMsg s0) = Some (Some t) \<and>
       getCredential (env_calendar E) t AstWalker_new = Some (Inr (Some cr, w)) \<and>
       Credential_toString (env_calendar E) cr = Inr (cr1, shown) \<and>
       setPolicy (ts_policy s0) (ts_sec s0) = Inr sec1 \<and>
       verifyCredential (env_crypto E) (env_calendar E) (env_validate E) (Some cr1) sec1 = Inr (True, ts_sec s) \<and>
       verifySig (env_crypto E) (cred_pubKey cr1) (c_str (fst (read_msg (env_reads E) 0 END_RESPONSE_S ''''))) (challenge_of E) = Inr True \<and>
       (\<exists>cr2. sec_cred (ts_sec s) = Some cr2 \<and> cred_pubKey cr2 = cred_pubKey cr1 \<and>
          getKeyDigest (env_crypto E) (cred_pubKey cr1) = Inr (cred_keyDigest cr2))) \<and>
    (\<exists>rs. ts_sent s = challenge_msg E # rs) \<and>
    snd (read_msg (env_reads E) 0 END_RESPONSE_S '''') \<le> ts_reads s"
proof -
  have inv: "child_inv E s0 (ph, s, file)" using child_inv_reachable [OF assms(1,2)] .
  note g = step_grants [OF assms(3) inv assms(2,4)]
  then have "admitted E s0 s" using inv by (simp add: child_inv_def)
  moreover have "ts_reads s0 = 0" using assms(2) by (simp add: initial_def)
  moreover have "\<exists>s1. receive (env_reads E) END_CLIENT_REQUEST_S s = (request_of E s, s1)"
    by (simp add: request_of_def prod_eq_iff)
  ultimately show ?thesis
    using g by (auto simp: admitted_def asks_def response_of_def after_response_def)
qed

text \<open>
  C38: the receive loops never store outside their buffer of \<^verbatim>\<open>MAX_BUFF + 1\<close> bytes: every
  chunk of up to \<^verbatim>\<open>MAX_READ\<close> bytes starts where it still fits, and the final zero byte stays.
\<close>

theorem read_msg_in_buffer:
  "(\<forall>n \<in> set (read_offsets rd i marker []). n + MAX_READ \<le> MAX_BUFF) \<and>
   length (fst (read_msg rd i marker [])) \<le> MAX_BUFF"
  using read_offsets_bound [of "[]"] read_msg_bound [of "[]"] by (simp add: MAX_READ_def MAX_BUFF_def)

theorem read_msg_in_buffer_witness:
  "length (fst (read_msg (\<lambda>_. Some (replicate 1000 CHR ''a'')) 0 END_RESPONSE_S [])) \<le> 51200"
  using read_msg_in_buffer [of "\<lambda>_. Some (replicate 1000 CHR ''a'')" 0 END_RESPONSE_S] by (simp add: MAX_BUFF_def)

theorem granted_only_if_admitted_witness:
  "\<exists>s s' :: session. count_list (ts_sent s) (reply_msg GRANT_S) < count_list (ts_sent s') (reply_msg GRANT_S) \<and>
     clientAuthenticated s \<and>
     (\<exists>request s1 q rest. receive (env_reads example_env) END_CLIENT_REQUEST_S s = (request, s1) \<and>
        generateQuery (ts_sec s) request = Inr (q, rest) \<and> executeQuery (env_run example_env None) q = Inr True)"
proof -
  obtain s1 f1 cr where s1: "processMsg example_env example_session None = Some (Inr (True, s1, f1))"
    "processingRequests s1" "ts_open s1" "sec_cred (ts_sec s1) = Some cr" "ts_reads s1 = 1"
    using example_served by blast
  obtain s2 where s2: "processRequest example_env s1 None = Inr (True, s2)" "reply_msg GRANT_S \<in> set (ts_sent s2)"
    using example_request [OF s1(4,5,2,3)] by blast
  have "child_step example_env (Forked, example_session, None) (Serving, s1, f1)" using s1(1) by (rule step_msg)
  moreover have "child_step example_env (Serving, s1, f1) (Serving, s1, None)" by (rule step_other)
  ultimately have r: "(child_step example_env)\<^sup>*\<^sup>* (Forked, example_session, None) (Serving, s1, None)" by simp
  have st: "child_step example_env (Serving, s1, None) (Serving, s2, None)" using s2(1) by (rule step_request)
  have c: "count_list (ts_sent s1) (reply_msg GRANT_S) < count_list (ts_sent s2) (reply_msg GRANT_S)"
    using processMsg_admitted(1) [OF s1(1) example_initial] s2(2) count_list_0_iff [of "ts_sent s1"] count_list_0_iff [of "ts_sent s2"]
    by (metis gr0I)
  from granted_only_if_admitted [OF r example_initial st c] c show ?thesis by blast
qed

text \<open>
  A client whose credential is verified and whose response is accepted is served: the
  session answers requests from then on, with the digest of that client's key, and the shared
  file holds the policy followed by the translated clauses of this client's certificates.
\<close>

theorem client_served:
  assumes "ts_socketMsg s \<noteq> ''''" "env_parse E (ts_socketMsg s) = Some (Some t)"
    "getCredential (env_calendar E) t AstWalker_new = Some (Inr (Some cr, w))"
    "honest E cr s" "\<not> env_validate E" "env_file_open E" "Policy_new (ts_policy s) = Inr p"
  shows "\<exists>s' cr'. processMsg E s file = Some (Inr (True, s',
      Some (ts_policy s @ ''\<newline>'' @ ''/* Begin Transformed Rules */'' @ ''\<newline>''
        @ concat (map (\<lambda>ct. concat (map (\<lambda>b. b @ ''\<newline>'') (transformedCls ct))) (certificates cr'))))) \<and>
    processingRequests s' \<and> sec_cred (ts_sec s') = Some cr' \<and>
    getKeyDigest (env_crypto E) (cred_pubKey cr) = Inr (cred_keyDigest cr') \<and>
    list_all2 (attributed (env_crypto E)) (certificates cr) (certificates cr')"
  using processMsg_serves [OF assms, of "file"] unfolding transformed_lines_eq by fastforce

theorem client_served_witness:
  "\<exists>s' fl cr'. processMsg example_env example_session None = Some (Inr (True, s', fl)) \<and>
     processingRequests s' \<and> sec_cred (ts_sec s') = Some cr'"
proof -
  obtain cr where cr: "finalize example_calendar (cred_of example_syntax) = Inr cr" using example_finalize by blast
  obtain w where w: "getCredential example_calendar (example_tree example_syntax) AstWalker_new = Some (Inr (Some cr, w))"
    using getCredential_run [OF example_wf _ _ example_layout cr]
    by (auto simp: example_syntax_def example_tree_def c_str_def ast_labels)
  have e: "env_calendar example_env = example_calendar"
    "env_parse example_env (ts_socketMsg example_session) = Some (Some (example_tree example_syntax))"
    "\<not> env_validate example_env" "env_file_open example_env" by (simp_all add: example_env_def)
  obtain p where pol: "Policy_new (ts_policy example_session) = Inr p" by (simp add: Policy_new_def example_session_def)
  have msg: "ts_socketMsg example_session \<noteq> ''''" by (simp add: example_session_def)
  from client_served [OF msg e(2) w [folded e(1)] example_honest [OF cr] e(3,4) pol, of None]
  show ?thesis by blast
qed

text \<open>
  A client whose public key OpenSSL cannot read is authenticated by any response that is
  not empty.
\<close>

theorem authenticateClient_unreadable_key:
  assumes "key \<noteq> ''''" "response_of E s \<noteq> ''''" "pem_read (env_crypto E) key = None"
  shows "\<exists>s'. authenticateClient E key s = Inr (True, s')"
proof -
  obtain d where "getMsgDigest_str (env_crypto E) (challenge_of E) = Inr d" using getMsgDigest_str_returns by blast
  then have "verifySig (env_crypto E) key (response_of E s) (challenge_of E) = Inr True"
    using assms challenge_of_nonempty [of E] by (simp add: verifySig_def)
  then show ?thesis by (simp add: authenticateClient_eq)
qed

theorem authenticateClient_unreadable_key_witness:
  "\<exists>s'. authenticateClient example_env ''junk'' example_session = Inr (True, s')"
  using authenticateClient_unreadable_key [of "''junk''" example_env example_session] example_response [of example_session]
  by (simp add: example_env_def example_crypto_def example_session_def message_labels)

section \<open>The listening process\<close>

definition server_inv :: "server \<Rightarrow> bool" where
  "server_inv sv \<longleftrightarrow> srv_children sv = 0 \<and> srv_rand sv = 0 \<and>
     initial ((srv_self sv)\<lparr>ts_open := True\<rparr>) \<and> ts_socketMsg (srv_self sv) = '''' \<and>
     (\<forall>(s, n) \<in> set (srv_forked sv). initial s \<and> n = 0)"

lemma listen_round_inv: "server_inv sv \<Longrightarrow> server_inv (listen_round cn sv)"
proof -
  assume "server_inv sv"
  then have "server_inv (accept_round cn sv)"
    by (auto simp: server_inv_def accept_round_def fork_child_def Let_def initial_def)
  then show ?thesis by (simp add: listen_round_def check_time_out_def server_inv_def initial_def split_beta Let_def)
qed

lemma listen_loop_inv: "server_inv sv \<Longrightarrow> server_inv (listen_loop cns sv)"
  by (induction cns sv rule: listen_loop.induct) (simp_all add: listen_round_inv)

definition listening :: "timespec \<Rightarrow> timespec \<Rightarrow> (string \<Rightarrow> string option) \<Rightarrow> string \<Rightarrow> server" where
  "listening now now' files name = (main_server files name)\<lparr>srv_self := (TransportService_new files name)\<lparr>socketListening := True\<rparr>,
     srv_timer := Timer_started now now' True eNsec\<rparr>"

lemma startListening_main: "startListening True now now' cns (main_server files name) = listen_loop cns (listening now now' files name)"
  by (simp add: startListening_def listening_def main_server_def)

lemma listening_inv: "server_inv (listening now now' files name)"
  by (simp add: server_inv_def listening_def main_server_def TransportService_new_def initial_def)

lemma startListening_inv: "server_inv (startListening b now now' cns (main_server files name))"
proof (cases b)
  case True
  then show ?thesis using listen_loop_inv [OF listening_inv] by (simp add: startListening_main)
next
  case False
  then show ?thesis by (simp add: startListening_def server_inv_def main_server_def TransportService_new_def initial_def)
qed

text \<open>
  C14: every client that ever connects to a running server gets the same challenge: the
  generator is advanced in the children only, and each starts from the parent's state. A
  response seen once is valid for every later session with that key. Each child starts as a
  fresh session.
\<close>

theorem same_challenge:
  assumes "(s, n) \<in> set (srv_forked (startListening b now now' cns (main_server files name)))"
    "(s', n') \<in> set (srv_forked (startListening b now now' cns (main_server files name)))"
  shows "challenge_msg (child_env rand_seq n E) = challenge_msg (child_env rand_seq n' E') \<and> initial s \<and> initial s'"
proof -
  have "n = 0" "n' = 0" "initial s" "initial s'"
    using startListening_inv [of b now now' cns files name] assms by (auto simp: server_inv_def)
  then show ?thesis by (simp add: challenge_msg_def challenge_of_eq child_env_def)
qed

definition example_conn :: "string \<Rightarrow> nat \<Rightarrow> conn" where
  "example_conn m t = \<lparr>cn_fd = 4, cn_data = Some m, cn_forks = True, cn_clock = example_time t, cn_clock_again = example_time t\<rparr>"

lemma example_conn_simps [simp]: "cn_fd (example_conn m t) = 4" "cn_data (example_conn m t) = Some m"
  "cn_forks (example_conn m t) = True" "cn_clock (example_conn m t) = example_time t"
  by (simp_all add: example_conn_def)

section \<open>The time-out\<close>

text \<open>
  While the loop goes on, the timer is at the last reading: the time that is compared is that since the
  check in the round before.
\<close>

definition timed :: "timespec \<Rightarrow> server \<Rightarrow> bool" where
  "timed prev sv \<longleftrightarrow> srv_children sv = 0 \<and> socketListening (srv_self sv) \<and> tm_started (srv_timer sv) \<and> tm_curTime (srv_timer sv) = prev"

definition in_time :: "timespec \<Rightarrow> timespec \<Rightarrow> bool" where
  "in_time prev now \<longleftrightarrow> uint (getTimeNSecs now - getTimeNSecs prev) \<le> 10 ^ 10"

fun all_in_time :: "timespec \<Rightarrow> conn list \<Rightarrow> bool" where
  "all_in_time prev [] = True"
| "all_in_time prev (cn # cns) = (in_time prev (cn_clock cn) \<and> all_in_time (cn_clock cn) cns)"

lemma accept_round_timed: "timed prev sv \<Longrightarrow> timed prev (accept_round cn sv)"
  by (simp add: timed_def accept_round_def fork_child_def Let_def)

lemma check_timed:
  assumes "timed prev sv"
  shows "in_time prev (cn_clock cn) \<Longrightarrow> timed (cn_clock cn) (check_time_out cn sv)"
    "\<not> in_time prev (cn_clock cn) \<Longrightarrow> \<not> socketListening (srv_self (check_time_out cn sv))"
proof -
  have e: "getElapsedNSecs (cn_clock cn) (srv_timer sv) =
      (getTimeNSecs (cn_clock cn) - getTimeNSecs prev, (srv_timer sv)\<lparr>tm_curTime := cn_clock cn\<rparr>)"
    using assms by (simp add: getElapsedNSecs_def timed_def)
  have "10 < fst (getElapsedSecs (cn_clock cn) (srv_timer sv)) \<longleftrightarrow> \<not> in_time prev (cn_clock cn)"
    unfolding getElapsedSecs_limit e in_time_def by (simp only: fst_conv not_le)
  moreover have "snd (getElapsedSecs (cn_clock cn) (srv_timer sv)) = (srv_timer sv)\<lparr>tm_curTime := cn_clock cn\<rparr>"
    by (simp add: getElapsedSecs_eq e)
  ultimately show "in_time prev (cn_clock cn) \<Longrightarrow> timed (cn_clock cn) (check_time_out cn sv)"
    "\<not> in_time prev (cn_clock cn) \<Longrightarrow> \<not> socketListening (srv_self (check_time_out cn sv))"
    using assms by (simp_all add: check_time_out_def TIME_OUT_def split_beta Let_def timed_def)
qed

lemma listen_round_timed:
  assumes "timed prev sv"
  shows "in_time prev (cn_clock cn) \<Longrightarrow> timed (cn_clock cn) (listen_round cn sv)"
    "\<not> in_time prev (cn_clock cn) \<Longrightarrow> \<not> socketListening (srv_self (listen_round cn sv))"
  using check_timed [OF accept_round_timed [OF assms, of cn], of cn] by (simp_all add: listen_round_def)

lemma listen_loop_closed: "\<not> socketListening (srv_self sv) \<Longrightarrow> listen_loop cns sv = sv"
  by (cases cns) simp_all

lemma listen_loop_listening: "timed prev sv \<Longrightarrow> socketListening (srv_self (listen_loop cns sv)) \<longleftrightarrow> all_in_time prev cns"
proof (induction cns arbitrary: prev sv)
  case (Cons cn cns)
  have l: "socketListening (srv_self sv)" using Cons.prems by (simp add: timed_def)
  show ?case
  proof (cases "in_time prev (cn_clock cn)")
    case True
    from Cons.IH [OF listen_round_timed(1) [OF Cons.prems True]] l True show ?thesis by simp
  next
    case False
    from listen_loop_closed [OF listen_round_timed(2) [OF Cons.prems False]] listen_round_timed(2) [OF Cons.prems False] l False
    show ?thesis by simp
  qed
qed (simp add: timed_def)

lemma listening_timed: "timed now' (listening now now' files name)"
  by (simp add: timed_def listening_def main_server_def Timer_started_def Timer_new_def start_def)

text \<open>
  C15: the server goes on listening exactly as long as no two of its checks are more than ten seconds
  apart. Clients that are being served do not keep it alive, since they are only counted in the
  children, and it is not idle time that is measured: the check comes after a connection has been
  accepted, and compares with the check before.
\<close>

theorem server_listens:
  "socketListening (srv_self (startListening True now now' cns (main_server files name))) \<longleftrightarrow> all_in_time now' cns"
  using listen_loop_listening [OF listening_timed] by (simp add: startListening_main)

theorem same_challenge_witness:
  "\<exists>s s' :: session. ts_socketMsg s = ''a'' \<and> ts_socketMsg s' = ''b'' \<and> initial s \<and> initial s' \<and>
     challenge_msg (child_env id 0 example_env) = challenge_msg (child_env id 0 (example_env\<lparr>env_validate := True\<rparr>))"
proof -
  let ?t = "example_time 0"
  let ?cns = "[example_conn ''a'' 0, example_conn ''b'' 0]"
  let ?sv = "startListening True ?t ?t ?cns (main_server (\<lambda>_. None) ''p'')"
  let ?s = "\<lambda>m. (TransportService_new (\<lambda>_. None) ''p'')\<lparr>socketListening := True, ts_socketMsg := m, ts_open := True\<rparr>"
  have z: "getElapsedSecs ?t (t\<lparr>tm_curTime := ?t, tm_started := True\<rparr>) = (0, t\<lparr>tm_curTime := ?t, tm_started := True\<rparr>)" for t
    by (simp add: getElapsedSecs_eq getElapsedNSecs_def secs_of_def of_tulong_def)
  have t: "Timer_started ?t ?t True eNsec = (Timer_started ?t ?t True eNsec)\<lparr>tm_curTime := ?t, tm_started := True\<rparr>"
    by (simp add: Timer_started_def Timer_new_def start_def)
  have "srv_forked ?sv = [(?s ''a'', 0), (?s ''b'', 0)]"
    using z [of "Timer_started ?t ?t True eNsec"]
    by (simp add: startListening_def listen_round_def accept_round_def check_time_out_def fork_child_def main_server_def
        TransportService_new_def TIME_OUT_def c_str_def MAX_BUFF_def readPolicy_def Let_def flip: t)
  then have "(?s ''a'', 0) \<in> set (srv_forked ?sv)" "(?s ''b'', 0) \<in> set (srv_forked ?sv)" by simp_all
  from same_challenge [OF this, of id example_env "example_env\<lparr>env_validate := True\<rparr>"] show ?thesis
    by (intro exI [of _ "?s ''a''"] exI [of _ "?s ''b''"]) simp
qed

text \<open>
  Setting the clock back stops the server: the unsigned difference of the times wraps around, which the
  comparison takes for an idle time of centuries, so the next connection is the last one.
\<close>

theorem clock_set_back_stops:
  assumes "clock_time (cn_clock cn)" "clock_time (cn_clock cn')" "time_value (cn_clock cn') + 256 < time_value (cn_clock cn)"
  shows "\<not> socketListening (srv_self (startListening True now now' (cns @ cn # cn' # cns') (main_server files name)))"
proof -
  let ?t = "(Timer_new (cn_clock cn) eNsec)\<lparr>tm_started := True\<rparr>"
  have "10 ^ 10 < uint (fst (getElapsedNSecs (cn_clock cn') ?t))"
    using assms by (intro elapsed_wraps) (simp_all add: Timer_new_def)
  then have "\<not> in_time (cn_clock cn) (cn_clock cn')" by (simp add: in_time_def getElapsedNSecs_def Timer_new_def)
  then have "\<not> all_in_time prev (cns @ cn # cn' # cns')" for prev by (induction cns arbitrary: prev) simp_all
  then show ?thesis using listen_loop_listening [OF listening_timed] by (simp add: startListening_main)
qed

theorem clock_set_back_stops_witness:
  "\<not> socketListening (srv_self (startListening True (example_time 0) (example_time 0)
     ([] @ example_conn ''a'' 5 # example_conn ''b'' 4 # []) (main_server (\<lambda>_. None) ''p'')))"
proof (rule clock_set_back_stops)
  show "clock_time (cn_clock (example_conn ''a'' 5))" "clock_time (cn_clock (example_conn ''b'' 4))"
    using example_clock by simp_all
qed (simp add: example_time_def time_value_def)

end
