(* ===== verification/RM_Reader.thy ===== *)
theory RM_Reader
  imports RM_Grammar RM_Lexemes RM_Lexer_Types RM_Transport
begin

text \<open>
  How a message is read: \<^verbatim>\<open>processMsg\<close> in \<^verbatim>\<open>src/src/manager/TransportService.h\<close> builds a lexer, a
  token stream and a parser over it and hands the tree to the walker. The results of the lexer, the parser
  and the walker are composed here: a text that spells a credential of the grammar, with any
  blanks, is read as that credential, and a client who sends it is served.
\<close>

section \<open>From a text to a tree\<close>

definition parse_message :: "string \<Rightarrow> ast option option" where
  "parse_message msg =
     Option.bind (fillBuffer mTokens (lexer_new msg) []) (\<lambda>(toks, lx).
       map_option (\<lambda>r. case r of Inl e \<Rightarrow> None | Inr (t, p) \<Rightarrow> t)
         (parse_credential (parser_new RepositoryManagerParserTokenNames toks)))"

text \<open>The symbols of a sequence of lexemes: blanks are not seen by the parser.\<close>

definition lexeme_symbol :: "lexeme \<Rightarrow> symbol" where
  "lexeme_symbol l = (lexeme_type l, lexeme_text l)"

definition symbols :: "lexeme list \<Rightarrow> symbol list" where
  "symbols ls = map lexeme_symbol (filter (\<lambda>l. lexeme_channel l = ANTLR3_TOKEN_DEFAULT_CHANNEL) ls)"

lemma token_views:
  assumes "map token_view ts = map lexeme_token ls"
  shows "map (\<lambda>t. (tk_type t, tk_text t)) (filter on_channel ts) = symbols ls" "map tk_type ts = map lexeme_type ls"
proof -
  let ?on = "\<lambda>(ty, w, ch). ch = ANTLR3_TOKEN_DEFAULT_CHANNEL" and ?sym = "\<lambda>(ty, w, ch). (ty, w)"
  have on: "on_channel = (\<lambda>t. tk_channel t = ANTLR3_TOKEN_DEFAULT_CHANNEL)" by (simp add: fun_eq_iff on_channel_def)
  have "map (\<lambda>t. (tk_type t, tk_text t)) (filter on_channel ts) = map ?sym (filter ?on (map token_view ts))"
    by (simp add: filter_map comp_def token_view_def on)
  also have "\<dots> = symbols ls"
    by (simp add: assms filter_map comp_def lexeme_token_def symbols_def lexeme_symbol_def)
  finally show "map (\<lambda>t. (tk_type t, tk_text t)) (filter on_channel ts) = symbols ls" .
  have "map tk_type ts = map fst (map token_view ts)" by (simp add: token_view_def)
  also have "\<dots> = map lexeme_type ls" by (simp add: assms lexeme_token_def)
  finally show "map tk_type ts = map lexeme_type ls" .
qed

lemma header_type_small: "map_of header_table a \<noteq> None \<Longrightarrow> header_type a < 39 \<and> header_type a \<noteq> TK_TEXT \<and> header_type a \<noteq> TK_NUM"
proof -
  have "list_all (\<lambda>(a, l, ty). ty < 39 \<and> ty \<noteq> TK_TEXT \<and> ty \<noteq> TK_NUM) header_table"
    by (simp add: header_table_def token_types)
  then show "map_of header_table a \<noteq> None \<Longrightarrow> header_type a < 39 \<and> header_type a \<noteq> TK_TEXT \<and> header_type a \<noteq> TK_NUM"
    using map_of_SomeD by (fastforce simp: list_all_iff header_type_def)
qed

lemma fits_member: "well_spaced ls r \<Longrightarrow> l \<in> set ls \<Longrightarrow> \<exists>r'. fits l r'"
  by (induction ls) auto

lemma tokens_of_text:
  assumes "well_spaced ls []"
  obtains toks lx where "fillBuffer mTokens (lexer_new (render ls)) [] = Some (toks, lx)" "proper_types toks"
    "map (\<lambda>t. (tk_type t, tk_text t)) (filter on_channel toks) = symbols ls"
proof -
  from fillBuffer_lexemes [OF assms, of "lexer_new (render ls)" "[]"] obtain ts lx' where
    f: "fillBuffer mTokens (lexer_new (render ls)) [] = fillBuffer mTokens lx' ts" "lx_rest lx' = []" and
    v: "map token_view ts = map lexeme_token ls" by auto
  have "fillBuffer mTokens (lexer_new (render ls)) [] = Some (ts, start_token lx')"
    using rm.fillBuffer_eof [OF f(2)] f(1) by simp
  moreover from this have "proper_types ts"
    using fillBuffer_typed [OF _ lexer_new_state(2)] token_typed_proper by (metis empty_iff list.set(1))
  ultimately show ?thesis using token_views(1) [OF v] that by blast
qed

lemma parse_message_credential:
  assumes "well_spaced ls []" "symbols ls = cred_syms s @ r" "full_cred s"
  shows "\<exists>t. parse_message (render ls) = Some (Some t) \<and> ast_toString t = CREDENTIAL_S \<and>
    child_texts t = cred_layout (cred_source_syntax s)"
proof -
  from tokens_of_text [OF assms(1)] obtain toks lx where
    f: "fillBuffer mTokens (lexer_new (render ls)) [] = Some (toks, lx)" "proper_types toks"
      "map (\<lambda>t. (tk_type t, tk_text t)) (filter on_channel toks) = cred_syms s @ r" using assms(2) by metis
  from parses_credential [OF f(2) assms(3) f(3), of RepositoryManagerParserTokenNames] f(1) show ?thesis
    by (auto simp: parse_message_def ok_def)
qed

section \<open>What the words of a text can be\<close>

definition symbol_ok :: "symbol \<Rightarrow> bool" where
  "symbol_ok x \<longleftrightarrow> fst x = TK_TEXT \<or> fst x = TK_NUM \<longrightarrow> list_all text_char (codes (snd x))"

lemma symbols_ok:
  assumes "well_spaced ls r" "x \<in> set (symbols ls)"
  shows "symbol_ok x"
proof -
  from assms(2) obtain l where l: "l \<in> set ls" "x = lexeme_symbol l" "lexeme_channel l = ANTLR3_TOKEN_DEFAULT_CHANNEL"
    by (auto simp: symbols_def)
  from fits_member [OF assms(1) l(1)] obtain r' where "fits l r'" by blast
  with l(2,3) show ?thesis
    using header_type_small by (cases l) (auto simp: symbol_ok_def lexeme_symbol_def mark_type_def token_types ANTLR3_TOKEN_DEFAULT_CHANNEL_def)
qed

text \<open>
  A label of the walker could be mistaken for a word only if it is spelled as one: \<^verbatim>\<open>CERT\<close> as a line of the
  key, or \<^verbatim>\<open>START_TIME\<close> as the first word of a clause.
\<close>

definition clear_cert :: "cert_source \<Rightarrow> bool" where
  "clear_cert c \<longleftrightarrow> list_all (\<lambda>k. take 1 (map snd (clause_body k)) \<noteq> [START_TIME_S]) (src_clauses c)"

definition clear_cred :: "cred_source \<Rightarrow> bool" where
  "clear_cred s \<longleftrightarrow> CERT_S \<notin> set (src_credKey s) \<and> list_all clear_cert (src_certs s)"

definition fixed_symbols :: "symbol list" where
  "fixed_symbols = [open_sym, close_sym, comma_sym, (T__43, '':-''), (T__44, ''datime''), (T__46, ''says'')]"

definition body_symbol :: "symbol \<Rightarrow> bool" where
  "body_symbol x \<longleftrightarrow> fst x = TK_TEXT \<or> fst x = TK_NUM \<or> x \<in> set fixed_symbols"

lemma body_symbols [simp]: "body_symbol open_sym" "body_symbol close_sym" "body_symbol comma_sym" "body_symbol (T__43, '':-'')"
    "body_symbol (T__44, ''datime'')" "body_symbol (T__46, ''says'')" "body_symbol (text_sym w)" "body_symbol (TK_NUM, w)"
  by (simp_all add: body_symbol_def fixed_symbols_def text_sym_def)

lemma pred_body: "\<forall>x \<in> set (pred_syms q). body_symbol x"
  by (cases q) simp

lemma literal_body: "\<forall>x \<in> set (literal_syms l). body_symbol x"
  using pred_body by (cases l) (simp_all add: ball_Un)

lemma clause_body_symbols: "\<forall>x \<in> set (clause_body c). body_symbol x"
  using literal_body by (cases c) (simp_all add: ball_Un)

lemma time_body_symbols: "\<forall>x \<in> set (time_body t). body_symbol x"
  by (cases t) simp

text \<open>No symbol of a body is a full stop, and none contains a zero.\<close>

lemma word_no_stop: "list_all text_char (codes w) \<Longrightarrow> w \<noteq> ''.'' \<and> CHR 0x00 \<notin> set w \<and> CHR '' '' \<notin> set w"
  by (auto simp: text_char_def list_all_iff)

lemma body_symbol_text:
  assumes "body_symbol x" "symbol_ok x"
  shows "snd x \<noteq> ''.'' \<and> CHR 0x00 \<notin> set (snd x)"
  using assms word_no_stop [of "snd x"] by (auto simp: body_symbol_def symbol_ok_def fixed_symbols_def)

lemma body_texts:
  assumes "\<forall>x \<in> set xs. body_symbol x \<and> symbol_ok x"
  shows "''.'' \<notin> set (map snd xs)" "\<forall>w \<in> set (map snd xs). CHR 0x00 \<notin> set w"
  using assms body_symbol_text by fastforce+

lemma cred_symbol_parts:
  assumes "\<forall>x \<in> set (cred_syms s). P x"
  shows "\<forall>w \<in> set (src_credKey s). P (text_sym w)" "\<forall>c \<in> set (src_certs s). \<forall>x \<in> set (cert_syms c). P x"
  using assms by (auto simp: cred_syms_def key_syms_def)

lemma cert_symbol_parts:
  assumes "\<forall>x \<in> set (cert_syms c). P x"
  shows "\<forall>k \<in> set (src_clauses c). \<forall>x \<in> set (clause_body k). P x" "\<forall>x \<in> set (time_body (src_start c)). P x"
    "\<forall>x \<in> set (time_body (src_stop c)). P x" "\<forall>w \<in> set (src_key c). P (text_sym w)" "\<forall>w \<in> set (src_sig c). P (text_sym w)"
  using assms
  by (auto simp: cert_syms_def key_syms_def sig_syms_def clause_syms_def validity_syms_def time_syms_def ball_Un split: if_splits)

lemma text_sym_ok: "symbol_ok (text_sym w) \<Longrightarrow> CHR 0x00 \<notin> set w \<and> CHR '' '' \<notin> set w"
  using word_no_stop [of w] by (simp add: symbol_ok_def text_sym_def)

lemma source_wf_cert:
  assumes "\<forall>x \<in> set (cert_syms c). symbol_ok x" "clear_cert c"
  shows "wf_cert (cert_source_syntax c)"
proof -
  note parts = cert_symbol_parts [OF assms(1)]
  have "''.'' \<notin> set (map snd (clause_body k)) \<and> take 1 (map snd (clause_body k)) \<noteq> [START_TIME_S]" if "k \<in> set (src_clauses c)" for k
    using body_texts(1) [of "clause_body k"] parts(1) clause_body_symbols that assms(2) by (simp add: clear_cert_def list_all_iff)
  moreover have "''.'' \<notin> set (map snd (time_body t))" if "t \<in> {src_start c, src_stop c}" for t
    using body_texts(1) [of "time_body t"] parts(2,3) time_body_symbols that by auto
  moreover have "SIG_S \<notin> set (src_key c)" "END_SIG_S \<notin> set (src_sig c)"
    using parts(4,5) text_sym_ok by (fastforce simp: ast_labels)+
  ultimately show ?thesis by (auto simp: wf_cert_def cert_source_syntax_def)
qed

lemma source_wf:
  assumes "\<forall>x \<in> set (cred_syms s). symbol_ok x" "clear_cred s"
  shows "wf_cred (cred_source_syntax s)"
  using cred_symbol_parts(2) [OF assms(1)] source_wf_cert assms(2) by (auto simp: wf_cred_def cred_source_syntax_def clear_cred_def list_all_iff)

lemma source_layout_no_zero:
  assumes "\<forall>x \<in> set (cred_syms s). symbol_ok x" "w \<in> set (cred_layout (cred_source_syntax s))"
  shows "CHR 0x00 \<notin> set w"
proof -
  have cert: "CHR 0x00 \<notin> set w" if c: "c \<in> set (src_certs s)" and w: "w \<in> set (cert_layout (cert_source_syntax c))" for c
  proof -
    have "\<forall>x \<in> set (cert_syms c). symbol_ok x" using cred_symbol_parts(2) [OF assms(1)] c by blast
    note parts = cert_symbol_parts [OF this]
    have cl: "CHR 0x00 \<notin> set w" if "k \<in> set (src_clauses c)" "w \<in> set (map snd (clause_body k))" for k
      using body_texts(2) [of "clause_body k"] parts(1) clause_body_symbols that by blast
    have tm: "CHR 0x00 \<notin> set w" if "t \<in> {src_start c, src_stop c}" "w \<in> set (map snd (time_body t))" for t
      using body_texts(2) [of "time_body t"] parts(2,3) time_body_symbols that by blast
    have ks: "CHR 0x00 \<notin> set w" if "w \<in> set (src_key c) \<union> set (src_sig c)" using parts(4,5) text_sym_ok that by blast
    from w consider "w \<in> {CERT_S, CLAUSE_S, START_TIME_S, STOP_TIME_S, PK_HEADER_S, PK_END_S, SIG_S, END_SIG_S, END_CERT_S, ''.''}"
      | k where "k \<in> set (src_clauses c)" "w \<in> set (map snd (clause_body k))"
      | t where "t \<in> {src_start c, src_stop c}" "w \<in> set (map snd (time_body t))" | "w \<in> set (src_key c) \<union> set (src_sig c)"
      by (auto simp: cert_layout_def cert_body_layout_def cert_source_syntax_def clause_layout_def split: if_splits)
    then show ?thesis using cl tm ks by cases (auto simp: ast_labels)
  qed
  from assms(2) consider "w \<in> {PK_HEADER_S, PK_END_S, END_S}" | "w \<in> set (src_credKey s)"
    | c where "c \<in> set (src_certs s)" "w \<in> set (cert_layout (cert_source_syntax c))"
    by (auto simp: cred_layout_def cred_source_syntax_def)
  then show ?thesis
  proof cases
    case 2
    then show ?thesis using cred_symbol_parts(1) [OF assms(1)] text_sym_ok by blast
  qed (use cert in \<open>auto simp: ast_labels\<close>)
qed

section \<open>From a text to a credential\<close>

lemma texts_child: "\<forall>w \<in> set (child_texts t). CHR 0x00 \<notin> set w \<Longrightarrow> texts t = child_texts t"
  by (auto simp: texts_def child_texts_def c_str_def intro!: takeWhile_eq_all_conv [THEN iffD2])

lemma message_credential:
  assumes "well_spaced ls []" "symbols ls = cred_syms s @ r" "full_cred s" "clear_cred s" "src_certs s \<noteq> []"
    "finalize cal (cred_of (cred_source_syntax s)) = Inr cr"
  shows "\<exists>t w. parse_message (render ls) = Some (Some t) \<and> getCredential cal t AstWalker_new = Some (Inr (Some cr, w))"
proof -
  from parse_message_credential [OF assms(1-3)] obtain t where t: "parse_message (render ls) = Some (Some t)"
    "ast_toString t = CREDENTIAL_S" "child_texts t = cred_layout (cred_source_syntax s)" by blast
  have ok: "\<forall>x \<in> set (cred_syms s). symbol_ok x" using symbols_ok [OF assms(1)] assms(2) by auto
  have "texts t = cred_layout (cred_source_syntax s)"
    using texts_child [of t] source_layout_no_zero [OF ok] t(3) by simp
  moreover have "c_str (ast_toString t) = CREDENTIAL_S" using t(2) by (simp add: c_str_def CREDENTIAL_S_def)
  moreover have "sx_certs (cred_source_syntax s) \<noteq> []" using assms(5) by (simp add: cred_source_syntax_def)
  ultimately show ?thesis
    using getCredential_run [OF source_wf [OF ok assms(4)] _ _ _ assms(6), of t] t(1) by blast
qed

section \<open>Properties\<close>

text \<open>
  C4. A text that spells a credential of the grammar, with any blanks between its words, is read back as
  exactly that credential: lexer, parser and walker undo the writing of it. What follows the
  credential is ignored.
\<close>

theorem message_roundtrip:
  assumes "well_spaced ls []" "symbols ls = cred_syms s @ r" "full_cred s" "clear_cred s" "src_certs s \<noteq> []"
    "finalize cal (cred_of (cred_source_syntax s)) = Inr cr"
  shows "\<exists>t w. parse_message (render ls) = Some (Some t) \<and> getCredential cal t AstWalker_new = Some (Inr (Some cr, w))"
  using assms by (rule message_credential)

text \<open>One way to write symbols: a line for each.\<close>

definition symbol_lexeme :: "symbol \<Rightarrow> lexeme" where
  "symbol_lexeme x =
     (if T__39 \<le> fst x \<and> fst x \<le> T__42 then Mark (hd (snd x))
      else
        (case find (\<lambda>(a, l, ty). ty = fst x) header_table of
           Some (a, l, ty) \<Rightarrow> Header a
         | None \<Rightarrow> Word (snd x)))"

definition spell :: "symbol list \<Rightarrow> lexeme list" where
  "spell xs = concat (map (\<lambda>x. [symbol_lexeme x, Blank [CHR 0x0A]]) xs)"

definition simple_source :: cred_source where
  "simple_source = \<lparr>src_credKey = [''MIGf''], src_certs = [\<lparr>src_clauses = [Fact (Plain (Predicate ''p'' ''a'' []))],
     src_start = Time ''2010'' ''1'' ''1'' ''0'' ''0'' ''0'', src_stop = Time ''2011'' ''1'' ''1'' ''0'' ''0'' ''0'',
     src_key = [''MIGe''], src_sig = [''c2ln'']\<rparr>]\<rparr>"

lemma simple_syntax: "cred_source_syntax simple_source = example_syntax"
  by (simp add: simple_source_def cred_source_syntax_def cert_source_syntax_def example_syntax_def text_sym_def)

text \<open>Symbols that can be written: the words have the type that the lexer gives them.\<close>

definition spellable :: "symbol \<Rightarrow> bool" where
  "spellable x \<longleftrightarrow> lexeme_symbol (symbol_lexeme x) = x \<and> fits (symbol_lexeme x) [CHR 0x0A]"

lemma fits_line: "fits l [CHR 0x0A] \<Longrightarrow> fits l (CHR 0x0A # r)"
  by (cases l) (auto simp: word_end_def blank_char_def)

lemma spell_simps: "spell [] = []" "spell (x # xs) = symbol_lexeme x # Blank [CHR 0x0A] # spell xs"
  by (simp_all add: spell_def)

lemma symbol_lexeme_visible: "lexeme_channel (symbol_lexeme x) = ANTLR3_TOKEN_DEFAULT_CHANNEL"
  by (auto simp: symbol_lexeme_def split: option.splits)

lemma spell_symbols: "list_all spellable xs \<Longrightarrow> symbols (spell xs) = xs"
  by (induction xs) (simp_all add: spell_simps symbols_def spellable_def symbol_lexeme_visible ANTLR3_TOKEN_DEFAULT_CHANNEL_def)

lemma header_first: "map_of header_table a \<noteq> None \<Longrightarrow> \<exists>c cs. map char_of (header_lit a) = c # cs \<and> \<not> blank_char c \<and> c \<noteq> CHR 0x0D"
proof -
  have "list_all (\<lambda>(a, l, ty). l \<noteq> [] \<and> hd l \<in> {45, 78}) header_table"
    by (simp add: header_table_def lit_defs)
  moreover have "\<not> blank_char (char_of (45 :: int)) \<and> char_of (45 :: int) \<noteq> CHR 0x0D"
    "\<not> blank_char (char_of (78 :: int)) \<and> char_of (78 :: int) \<noteq> CHR 0x0D" by code_simp+
  ultimately show "map_of header_table a \<noteq> None \<Longrightarrow> \<exists>c cs. map char_of (header_lit a) = c # cs \<and> \<not> blank_char c \<and> c \<noteq> CHR 0x0D"
    using map_of_SomeD by (fastforce simp: list_all_iff header_lit_def neq_Nil_conv)
qed

lemma visible_first:
  assumes "fits l r" "lexeme_channel l = ANTLR3_TOKEN_DEFAULT_CHANNEL"
  shows "\<exists>c cs. lexeme_text l = c # cs \<and> \<not> blank_char c \<and> c \<noteq> CHR 0x0D"
proof (cases l)
  case (Word w)
  with assms(1) obtain c cs where "w = c # cs" "text_char (of_char c)" by (cases w) auto
  with Word show ?thesis by (auto simp: blank_char_def text_char_def)
next
  case (Header a)
  with assms(1) header_first show ?thesis by simp
qed (use assms in \<open>auto simp: blank_char_def ANTLR3_TOKEN_DEFAULT_CHANNEL_def\<close>)

lemma spell_spaced: "list_all spellable xs \<Longrightarrow> well_spaced (spell xs) []"
proof (induction xs)
  case (Cons x xs)
  have "fits (Blank [CHR 0x0A]) (render (spell xs))"
  proof (cases xs)
    case (Cons y ys)
    with \<open>list_all spellable (x # xs)\<close> have "fits (symbol_lexeme y) [CHR 0x0A]" by (simp add: spellable_def)
    from visible_first [OF this symbol_lexeme_visible] Cons show ?thesis by (auto simp: spell_simps blank_char_def)
  qed (simp add: spell_simps blank_char_def)
  then show ?case using Cons fits_line by (simp add: spell_simps spellable_def)
qed (simp add: spell_simps)

lemma simple_spellable: "list_all spellable (cred_syms simple_source)"
  by code_simp

lemmas simple_spelled = spell_spaced [OF simple_spellable]

lemmas simple_symbols = spell_symbols [OF simple_spellable]

lemma simple_source_ok: "full_cred simple_source" "clear_cred simple_source" "src_certs simple_source \<noteq> []"
  by (simp_all add: simple_source_def full_cred_def full_cert_def clear_cred_def clear_cert_def ast_labels text_sym_def)

theorem message_roundtrip_witness:
  "\<exists>cr t w. parse_message (render (spell (cred_syms simple_source))) = Some (Some t) \<and>
     getCredential example_calendar t AstWalker_new = Some (Inr (Some cr, w)) \<and> cred_pubKey cr \<noteq> ''''"
proof -
  obtain cr where f: "finalize example_calendar (cred_of example_syntax) = Inr cr" using example_finalize by blast
  have "symbols (spell (cred_syms simple_source)) = cred_syms simple_source @ []" by (simp add: simple_symbols)
  from message_roundtrip [OF simple_spelled this simple_source_ok] f
  have "\<exists>t w. parse_message (render (spell (cred_syms simple_source))) = Some (Some t) \<and>
      getCredential example_calendar t AstWalker_new = Some (Inr (Some cr, w))" by (simp add: simple_syntax)
  moreover have "cred_pubKey cr = cred_pubKey (cred_of example_syntax)" using f by (auto simp: finalize_def ebind_Inr_iff)
  moreover have "cred_pubKey (cred_of example_syntax) \<noteq> ''''" by (simp add: cred_of_def example_syntax_def ast_labels)
  ultimately show ?thesis by metis
qed

text \<open>
  C5. A client whose message spells its credential, whose certificates are verified and whose response is
  accepted is served: the whole way from the characters on the socket to the session that
  answers requests.
\<close>

theorem client_text_served:
  assumes "env_parse E = parse_message" "ts_socketMsg s = render ls" "well_spaced ls []" "symbols ls = cred_syms src @ r"
    "full_cred src" "clear_cred src" "src_certs src \<noteq> []" "finalize (env_calendar E) (cred_of (cred_source_syntax src)) = Inr cr"
    "honest E cr s" "\<not> env_validate E" "env_file_open E" "Policy_new (ts_policy s) = Inr p"
  shows "\<exists>s' content cr'. processMsg E s file = Some (Inr (True, s', Some content)) \<and> processingRequests s' \<and> clientAuthenticated s' \<and>
    sec_cred (ts_sec s') = Some cr' \<and> list_all2 (attributed (env_crypto E)) (certificates cr) (certificates cr')"
proof -
  from message_credential [OF assms(3-8)] obtain t w where t: "parse_message (render ls) = Some (Some t)"
    "getCredential (env_calendar E) t AstWalker_new = Some (Inr (Some cr, w))" by blast
  have "ls \<noteq> []" using assms(4) by (auto simp: symbols_def cred_syms_def)
  then have "render ls \<noteq> []" using assms(3) lexeme_proper(1) by (cases ls) auto
  then have m: "ts_socketMsg s \<noteq> ''''" using assms(2) by simp
  have "env_parse E (ts_socketMsg s) = Some (Some t)" using assms(1,2) t(1) by simp
  from processMsg_serves [OF m this t(2) assms(9-12), of "file"] show ?thesis by fastforce
qed

definition reading_env :: "nat env" where
  "reading_env = example_env\<lparr>env_parse := parse_message\<rparr>"

definition reading_session :: session where
  "reading_session = example_session\<lparr>ts_socketMsg := render (spell (cred_syms simple_source))\<rparr>"

theorem client_text_served_witness:
  "\<exists>s' content. processMsg reading_env reading_session None = Some (Inr (True, s', Some content)) \<and> processingRequests s' \<and>
     clientAuthenticated s'"
proof -
  obtain cr where f: "finalize example_calendar (cred_of example_syntax) = Inr cr" using example_finalize by blast
  have "honest reading_env cr reading_session = honest example_env cr example_session"
    by (simp add: reading_env_def reading_session_def honest_def response_of_def challenge_of_def)
  then have h: "honest reading_env cr reading_session" using example_honest [OF f] by simp
  have e: "env_parse reading_env = parse_message" "ts_socketMsg reading_session = render (spell (cred_syms simple_source))"
    "\<not> env_validate reading_env" "env_file_open reading_env" "env_calendar reading_env = example_calendar"
    by (simp_all add: reading_env_def reading_session_def example_env_def)
  have y: "symbols (spell (cred_syms simple_source)) = cred_syms simple_source @ []" by (simp add: simple_symbols)
  have g: "finalize (env_calendar reading_env) (cred_of (cred_source_syntax simple_source)) = Inr cr"
    using f by (simp add: simple_syntax e(5))
  obtain p where pol: "Policy_new (ts_policy reading_session) = Inr p"
    by (simp add: Policy_new_def reading_session_def example_session_def)
  from client_text_served [OF e(1,2) simple_spelled y simple_source_ok g h e(3,4) pol] show ?thesis by blast
qed

text \<open>
  C12. A message with a character outside the alphabet of the tokens, such as a hash or a quotation mark, after
  any lexemes makes the child process that reads it loop for ever: \<^verbatim>\<open>processMsg\<close> does not return.
\<close>

theorem processMsg_stray_hangs:
  assumes "env_parse E = parse_message" "ts_socketMsg s = render ls @ c # cs" "well_spaced ls (c # cs)" "stray c"
  shows "processMsg E s file = None"
  using lexer_stuck_at_stray [OF assms(3,4)] assms(1,2) by (simp add: processMsg_def parse_message_def)

theorem processMsg_stray_hangs_witness:
  "processMsg reading_env (reading_session\<lparr>ts_socketMsg := ''a #''\<rparr>) None = None"
  by (rule processMsg_stray_hangs [where ls = "[Word ''a'', Blank '' '']" and c = "CHR ''#''" and cs = "[]"])
    ((simp add: reading_env_def reading_session_def | code_simp)+)

text \<open>
  Only the lexer can keep a message from being read: whenever the token buffer of a text is filled, whatever
  the tokens, the parser and its error recovery come to an end.
\<close>

theorem parse_message_returns:
  assumes "fillBuffer mTokens (lexer_new msg) [] = Some (toks, lx)"
  shows "\<exists>t. parse_message msg = Some t"
proof -
  have "\<forall>t \<in> set toks. token_typed t" using fillBuffer_typed [OF assms] by simp
  from start_rule_returns [OF token_typed_proper [OF this]] assms show ?thesis by (auto simp: parse_message_def)
qed

theorem parse_message_returns_witness:
  "\<exists>t. parse_message (render example_lexemes) = Some t"
proof -
  from tokens_of_text [OF example_spaced] obtain toks lx where
    "fillBuffer mTokens (lexer_new (render example_lexemes)) [] = Some (toks, lx)" by blast
  from parse_message_returns [OF this] show ?thesis .
qed

end
