(* ===== verification/RM_Queue.thy ===== *)
theory RM_Queue
  imports RM_Prelude
begin

text \<open>
  \<^verbatim>\<open>src/src/utils/FifoQueue.h\<close>: a queue as a linked list with a head, a tail and a node counter, guarded by a mutex.
  The nodes live in an explicit heap, so that aliasing, dangling pointers and leaks are visible: using a
  null pointer is \<open>Null_Pointer\<close> and using a node that is not allocated is \<open>Uninitialised\<close>. Allocation does
  not fail. The counter is an \<^verbatim>\<open>int\<close> in the code and an integer here: the model is that of queues with fewer than \<open>2 ^ 31\<close>
  nodes at a time, which at two pointers each would take 32 GiB.

  With one consumer the list refines the abstract queue and no pointer is used wrongly. The
  test of the head in \<^verbatim>\<open>dequeue\<close> is outside the critical section: with two consumers a null pointer is
  dereferenced.
\<close>

section \<open>The heap of nodes\<close>

type_synonym address = nat

record 'a qnode =
  qn_data :: 'a
  qn_next :: "address option"

type_synonym 'a store = "address \<Rightarrow> 'a qnode option"

definition read_node :: "'a store \<Rightarrow> address option \<Rightarrow> 'a qnode res" where
  "read_node h p =
     (case p of
        None \<Rightarrow> Inl Null_Pointer
      | Some a \<Rightarrow> (case h a of None \<Rightarrow> Inl Uninitialised | Some n \<Rightarrow> Inr n))"

definition set_next :: "address option \<Rightarrow> address option \<Rightarrow> 'a store \<Rightarrow> 'a store res" where
  "set_next p v h = ebind (read_node h p) (\<lambda>n. Inr (h(the p \<mapsto> n\<lparr>qn_next := v\<rparr>)))"

section \<open>The queue\<close>

record 'a queue =
  q_size :: int
  q_head :: "address option"
  q_tail :: "address option"
  q_current :: "address option"
  q_store :: "'a store"
  q_fresh :: address

definition queue_new :: "'a queue" where
  "queue_new = \<lparr>q_size = 0, q_head = None, q_tail = None, q_current = None, q_store = Map.empty, q_fresh = 0\<rparr>"

definition enqueue :: "'a \<Rightarrow> 'a queue \<Rightarrow> 'a queue res" where
  "enqueue x q =
     (let c = Some (q_fresh q);
          h = (q_store q)(q_fresh q \<mapsto> \<lparr>qn_data = x, qn_next = None\<rparr>);
          q1 = q\<lparr>q_current := c, q_size := q_size q + 1, q_fresh := q_fresh q + 1\<rparr> in
      if q_head q = None then
        ebind (set_next c None h) (\<lambda>h1. Inr (q1\<lparr>q_tail := c, q_head := c, q_store := h1\<rparr>))
      else
        ebind (if q_head q = q_tail q then set_next (q_head q) (q_tail q) h else Inr h) (\<lambda>h1.
        ebind (set_next (q_tail q) c h1) (\<lambda>h2.
        ebind (set_next c None h2) (\<lambda>h3. Inr (q1\<lparr>q_tail := c, q_store := h3\<rparr>)))))"

text \<open>The part of \<^verbatim>\<open>dequeue\<close> inside the critical section, and the whole of it.\<close>

definition dequeue_locked :: "'a queue \<Rightarrow> ('a \<times> 'a queue) res" where
  "dequeue_locked q =
     ebind (read_node (q_store q) (q_head q)) (\<lambda>n.
       let q1 = q\<lparr>q_size := q_size q - 1, q_store := (q_store q)(the (q_head q) := None)\<rparr> in
       Inr (qn_data n,
         if qn_next n = None then q1\<lparr>q_current := None, q_head := None, q_tail := None\<rparr>
         else q1\<lparr>q_current := qn_next n, q_head := qn_next n\<rparr>))"

definition dequeue :: "'a queue \<Rightarrow> ('a option \<times> 'a queue) res" where
  "dequeue q =
     (if q_head q \<noteq> None then ebind (dequeue_locked q) (\<lambda>(x, q1). Inr (Some x, q1)) else Inr (None, q))"

definition queue_length :: "'a queue \<Rightarrow> int" where
  "queue_length q = q_size q"

definition queue_empty :: "'a queue \<Rightarrow> bool" where
  "queue_empty q \<longleftrightarrow> q_size q = 0"

text \<open>The destructor; the loop might not end, were the list cyclic.\<close>

partial_function (option) queue_free :: "'a queue \<Rightarrow> 'a queue res option" where
  "queue_free q =
     (case q_head q of
        None \<Rightarrow> Some (Inr q)
      | Some a \<Rightarrow>
          (case read_node (q_store q) (Some a) of
             Inl e \<Rightarrow> Some (Inl e)
           | Inr n \<Rightarrow> queue_free (q\<lparr>q_head := qn_next n, q_store := (q_store q)(a := None), q_current := None\<rparr>)))"

section \<open>The abstraction\<close>

text \<open>\<open>path h p as xs\<close>: from \<open>p\<close> the list runs through the nodes \<open>as\<close>, which hold \<open>xs\<close>, and ends.\<close>

fun path :: "'a store \<Rightarrow> address option \<Rightarrow> address list \<Rightarrow> 'a list \<Rightarrow> bool" where
  "path h p [] [] \<longleftrightarrow> p = None"
| "path h p (a # as) (x # xs) \<longleftrightarrow> p = Some a \<and> (\<exists>v. h a = Some \<lparr>qn_data = x, qn_next = v\<rparr> \<and> path h v as xs)"
| "path h p _ _ \<longleftrightarrow> False"

text \<open>The list is all that is allocated: nothing leaks.\<close>

definition represents :: "'a queue \<Rightarrow> 'a list \<Rightarrow> bool" where
  "represents q xs \<longleftrightarrow> (\<exists>as. path (q_store q) (q_head q) as xs \<and> distinct as \<and> dom (q_store q) = set as \<and>
     (\<forall>a \<in> set as. a < q_fresh q) \<and> q_size q = int (length xs) \<and>
     q_tail q = (if as = [] then None else Some (last as)))"

lemma path_length: "path h p as xs \<Longrightarrow> length as = length xs"
  by (induction h p as xs rule: path.induct) auto

lemma path_cong: "(\<And>a. a \<in> set as \<Longrightarrow> h a = h' a) \<Longrightarrow> path h p as xs = path h' p as xs"
  by (induction h p as xs rule: path.induct) auto

lemma path_delete: "path h p as xs \<Longrightarrow> a \<notin> set as \<Longrightarrow> path (h(a := None)) p as xs"
  using path_cong [of as h "h(a := None)" p xs] by (metis fun_upd_other)

lemma path_Nil: "path h p [] xs \<longleftrightarrow> xs = [] \<and> p = None"
  by (cases xs) auto

lemma path_head: "path h p as xs \<Longrightarrow> p = (case as of [] \<Rightarrow> None | a # _ \<Rightarrow> Some a)"
  by (cases as; cases xs) auto

text \<open>Appending a node behind the last one.\<close>

lemma path_snoc:
  assumes "path h p as xs" "distinct as" "as \<noteq> []" "c \<notin> set as" "h (last as) = Some n"
  shows "path (h(last as \<mapsto> n\<lparr>qn_next := Some c\<rparr>, c \<mapsto> \<lparr>qn_data = x, qn_next = None\<rparr>)) p (as @ [c]) (xs @ [x])"
  using assms
proof (induction as arbitrary: p xs)
  case (Cons a as)
  then obtain y ys v where x: "xs = y # ys" "p = Some a" "h a = Some \<lparr>qn_data = y, qn_next = v\<rparr>" "path h v as ys"
    by (cases xs) auto
  show ?case
  proof (cases "as = []")
    case True
    with x Cons.prems show ?thesis by (auto simp: path_Nil)
  next
    case False
    then have "last as \<noteq> a" "c \<noteq> a" using Cons.prems(2,4) last_in_set by auto
    with Cons.IH [OF x(4)] Cons.prems False x show ?thesis by auto
  qed
qed simp

lemma path_last: "path h p as xs \<Longrightarrow> as \<noteq> [] \<Longrightarrow> \<exists>n. h (last as) = Some n"
  by (induction h p as xs rule: path.induct) auto

lemma represents_new: "represents queue_new []"
  by (intro exI [of _ "[]"] | simp add: represents_def queue_new_def)+

lemma enqueue_represents:
  assumes "represents q xs"
  shows "\<exists>q'. enqueue x q = Inr q' \<and> represents q' (xs @ [x])"
proof -
  from assms obtain as where as: "path (q_store q) (q_head q) as xs" "distinct as" "dom (q_store q) = set as"
    "\<forall>a \<in> set as. a < q_fresh q" "q_size q = int (length xs)" "q_tail q = (if as = [] then None else Some (last as))"
    by (auto simp: represents_def)
  let ?c = "q_fresh q" and ?n = "\<lparr>qn_data = x, qn_next = None\<rparr>"
  have c: "?c \<notin> set as" using as(4) by auto
  show ?thesis
  proof (cases "as = []")
    case True
    with as have "xs = []" "q_head q = None" by (auto simp: path_Nil)
    with True as(3,5) show ?thesis
      by (auto simp: enqueue_def set_next_def read_node_def represents_def Let_def intro!: exI [of _ "[?c]"])
  next
    case False
    then obtain a as' where a: "as = a # as'" by (cases as) auto
    have h: "q_head q = Some a" using path_head [OF as(1)] a by simp
    obtain n where n: "q_store q (last as) = Some n" using path_last [OF as(1) False] by blast
    have lc: "last as \<noteq> ?c" using c False last_in_set by metis
    let ?h = "(q_store q)(?c \<mapsto> ?n)"
    have one: "\<exists>h1 n1. (if q_head q = q_tail q then set_next (q_head q) (q_tail q) ?h else Inr ?h) = Inr h1 \<and>
        h1 (last as) = Some n1 \<and> n1\<lparr>qn_next := Some ?c\<rparr> = n\<lparr>qn_next := Some ?c\<rparr> \<and> h1(last as := None) = ?h(last as := None)"
      using n lc False as(6) h by (auto simp: set_next_def read_node_def)
    then obtain h1 n1 where h1: "(if q_head q = q_tail q then set_next (q_head q) (q_tail q) ?h else Inr ?h) = Inr h1"
      "h1 (last as) = Some n1" "n1\<lparr>qn_next := Some ?c\<rparr> = n\<lparr>qn_next := Some ?c\<rparr>" "h1(last as := None) = ?h(last as := None)" by blast
    let ?h2 = "h1(last as \<mapsto> n\<lparr>qn_next := Some ?c\<rparr>)"
    have h2: "set_next (q_tail q) (Some ?c) h1 = Inr ?h2"
      using h1(2,3) False as(6) by (simp add: set_next_def read_node_def)
    have "?h2 = ?h(last as \<mapsto> n\<lparr>qn_next := Some ?c\<rparr>)" using h1(4) by (metis fun_upd_upd)
    also have "\<dots> = (q_store q)(last as \<mapsto> n\<lparr>qn_next := Some ?c\<rparr>, ?c \<mapsto> ?n)" using lc by (simp add: fun_upd_twist)
    finally have e: "?h2 = (q_store q)(last as \<mapsto> n\<lparr>qn_next := Some ?c\<rparr>, ?c \<mapsto> ?n)" .
    have h3: "set_next (Some ?c) None ?h2 = Inr ?h2" unfolding e by (simp add: set_next_def read_node_def)
    have p: "path ?h2 (q_head q) (as @ [?c]) (xs @ [x])"
      unfolding e by (rule path_snoc [OF as(1,2) False c n])
    have d: "dom ?h2 = set (as @ [?c])" unfolding e using as(3) False last_in_set by auto
    have "enqueue x q = Inr (q\<lparr>q_current := Some ?c, q_size := q_size q + 1, q_fresh := ?c + 1, q_tail := Some ?c, q_store := ?h2\<rparr>)"
      using h h1(1) h2 h3 by (simp add: enqueue_def Let_def)
    with p d as c show ?thesis
      by (auto simp: represents_def less_Suc_eq intro!: exI [of _ "as @ [?c]"])
  qed
qed

lemma dequeue_locked_represents:
  assumes "represents q (x # xs)"
  shows "\<exists>q'. dequeue_locked q = Inr (x, q') \<and> represents q' xs"
proof -
  from assms obtain as where as: "path (q_store q) (q_head q) as (x # xs)" "distinct as" "dom (q_store q) = set as"
    "\<forall>a \<in> set as. a < q_fresh q" "q_size q = int (length (x # xs))" "q_tail q = (if as = [] then None else Some (last as))"
    by (auto simp: represents_def)
  from as(1) obtain a as' v where a: "as = a # as'" "q_head q = Some a" "q_store q a = Some \<lparr>qn_data = x, qn_next = v\<rparr>"
    "path (q_store q) v as' xs" by (cases as) auto
  have "path ((q_store q)(a := None)) v as' xs"
    using path_delete [OF a(4)] a(1) as(2) by simp
  moreover have "dom ((q_store q)(a := None)) = set as'" using as(2,3) a(1) by auto
  moreover have "v = None \<longleftrightarrow> as' = []" using path_head [OF a(4)] by (cases as') auto
  ultimately show ?thesis using as a
    by (auto simp: dequeue_locked_def read_node_def represents_def Let_def intro!: exI [of _ as'])
qed

lemma represents_head: "represents q xs \<Longrightarrow> q_head q = None \<longleftrightarrow> xs = []"
proof -
  assume "represents q xs"
  then obtain as where "path (q_store q) (q_head q) as xs" by (auto simp: represents_def)
  then show ?thesis by (cases as; cases xs) auto
qed

lemma dequeue_represents:
  assumes "represents q xs"
  shows "\<exists>q'. dequeue q = Inr (case xs of [] \<Rightarrow> None | x # _ \<Rightarrow> Some x, q') \<and> represents q' (tl xs)"
proof (cases xs)
  case Nil
  with assms represents_head [OF assms] show ?thesis by (auto simp: dequeue_def)
next
  case (Cons x ys)
  with dequeue_locked_represents [of q x ys] assms represents_head [OF assms] show ?thesis by (auto simp: dequeue_def)
qed

text \<open>The destructor follows the list to its end and leaves nothing allocated.\<close>

lemma queue_free_run:
  assumes "path (q_store q) (q_head q) as xs" "distinct as"
  shows "\<exists>q'. queue_free q = Some (Inr q') \<and> q_store q' = (q_store q) |` (- set as)"
  using assms
proof (induction as arbitrary: q xs)
  case Nil
  then have "q_head q = None" by (simp add: path_Nil)
  then show ?case by (subst queue_free.simps) (simp add: restrict_map_def)
next
  case (Cons a as)
  then obtain x ys v where a: "q_head q = Some a" "q_store q a = Some \<lparr>qn_data = x, qn_next = v\<rparr>" "path (q_store q) v as ys"
    by (cases xs) auto
  let ?q = "q\<lparr>q_head := v, q_store := (q_store q)(a := None), q_current := None\<rparr>"
  have "path (q_store ?q) (q_head ?q) as ys"
    using path_delete [OF a(3)] Cons.prems(2) by simp
  from Cons.IH [OF this] Cons.prems(2) obtain q' where
    q': "queue_free ?q = Some (Inr q')" "q_store q' = q_store ?q |` (- set as)" by (metis distinct.simps(2))
  have "queue_free q = queue_free ?q" using a by (subst queue_free.simps) (simp add: read_node_def)
  moreover have "q_store ?q |` (- set as) = (q_store q) |` (- set (a # as))"
    by (simp add: restrict_map_def fun_eq_iff)
  ultimately show ?case using q' by simp
qed

lemma queue_free_represents: "represents q xs \<Longrightarrow> \<exists>q'. queue_free q = Some (Inr q') \<and> q_store q' = Map.empty"
proof -
  assume "represents q xs"
  then obtain as where as: "path (q_store q) (q_head q) as xs" "distinct as" "dom (q_store q) = set as" by (auto simp: represents_def)
  have "(q_store q) |` (- set as) = Map.empty" using as(3) by (auto simp: restrict_map_def fun_eq_iff dom_def)
  with queue_free_run [OF as(1,2)] show ?thesis by auto
qed

section \<open>The interface of a queue\<close>

datatype 'a queue_op = Enqueue 'a | Dequeue

text \<open>A sequence of operations on an implementation and on the abstract queue, with what the removals return.\<close>

fun run_ops :: "('a \<Rightarrow> 'q \<Rightarrow> 'q res) \<Rightarrow> ('q \<Rightarrow> ('a option \<times> 'q) res) \<Rightarrow> 'a queue_op list \<Rightarrow> 'q \<Rightarrow> ('a option list \<times> 'q) res" where
  "run_ops enq deq [] q = Inr ([], q)"
| "run_ops enq deq (Enqueue x # ops) q = ebind (enq x q) (run_ops enq deq ops)"
| "run_ops enq deq (Dequeue # ops) q =
     ebind (deq q) (\<lambda>(y, q1). ebind (run_ops enq deq ops q1) (\<lambda>(ys, q2). Inr (y # ys, q2)))"

fun spec_out :: "'a queue_op list \<Rightarrow> 'a list \<Rightarrow> 'a option list" where
  "spec_out [] xs = []"
| "spec_out (Enqueue x # ops) xs = spec_out ops (xs @ [x])"
| "spec_out (Dequeue # ops) xs = (case xs of [] \<Rightarrow> None # spec_out ops [] | y # ys \<Rightarrow> Some y # spec_out ops ys)"

fun spec_left :: "'a queue_op list \<Rightarrow> 'a list \<Rightarrow> 'a list" where
  "spec_left [] xs = xs"
| "spec_left (Enqueue x # ops) xs = spec_left ops (xs @ [x])"
| "spec_left (Dequeue # ops) xs = spec_left ops (tl xs)"

locale fifo =
  fixes rep :: "'q \<Rightarrow> 'a list \<Rightarrow> bool" and enq :: "'a \<Rightarrow> 'q \<Rightarrow> 'q res" and deq :: "'q \<Rightarrow> ('a option \<times> 'q) res"
  assumes enq_rep: "rep q xs \<Longrightarrow> \<exists>q'. enq x q = Inr q' \<and> rep q' (xs @ [x])"
    and deq_rep: "rep q xs \<Longrightarrow> \<exists>q'. deq q = Inr (case xs of [] \<Rightarrow> None | x # _ \<Rightarrow> Some x, q') \<and> rep q' (tl xs)"
begin

lemma run_refines: "rep q xs \<Longrightarrow> \<exists>q'. run_ops enq deq ops q = Inr (spec_out ops xs, q') \<and> rep q' (spec_left ops xs)"
proof (induction ops arbitrary: q xs)
  case (Cons a ops)
  show ?case
  proof (cases a)
    case (Enqueue x)
    from enq_rep [OF Cons.prems, of x] obtain q' where "enq x q = Inr q'" "rep q' (xs @ [x])" by blast
    with Cons.IH [of q' "xs @ [x]"] Enqueue show ?thesis by auto
  next
    case Dequeue
    from deq_rep [OF Cons.prems] obtain q' where
      "deq q = Inr (case xs of [] \<Rightarrow> None | x # _ \<Rightarrow> Some x, q')" "rep q' (tl xs)" by blast
    with Cons.IH [of q' "tl xs"] Dequeue show ?thesis by (cases xs) auto
  qed
qed simp

text \<open>Everything that goes in comes out in order, unless it is still there.\<close>

lemma spec_fifo: "map Some xs @ map Some [x. Enqueue x \<leftarrow> ops] = filter (\<lambda>y. y \<noteq> None) (spec_out ops xs) @ map Some (spec_left ops xs)"
proof (induction ops arbitrary: xs)
  case (Cons a ops)
  show ?case
  proof (cases a)
    case (Enqueue x)
    with Cons.IH [of "xs @ [x]"] show ?thesis by simp
  next
    case Dequeue
    with Cons.IH [of "tl xs"] show ?thesis by (cases xs) auto
  qed
qed simp

end

interpretation list_queue: fifo represents enqueue dequeue
  by unfold_locales (rule enqueue_represents dequeue_represents; assumption)+

section \<open>Threads\<close>

text \<open>
  What one thread does in a critical section is one step, since all critical sections are guarded by the same
  mutex. The test of the head is a step of its own: \<open>pc t\<close> says that the consumer \<open>t\<close> has found the
  queue not empty and waits for the mutex. Any number of producers may run.
\<close>

datatype 'a qstate = Running "'a queue" "nat \<Rightarrow> bool" | Crashed_With cpp_error

inductive qstep :: "nat set \<Rightarrow> 'a qstate \<Rightarrow> 'a qstate \<Rightarrow> bool" for C :: "nat set" where
  q_produce: "enqueue x q = Inr q' \<Longrightarrow> qstep C (Running q pc) (Running q' pc)"
| q_produce_crash: "enqueue x q = Inl e \<Longrightarrow> qstep C (Running q pc) (Crashed_With e)"
| q_test: "t \<in> C \<Longrightarrow> \<not> pc t \<Longrightarrow> q_head q \<noteq> None \<Longrightarrow> qstep C (Running q pc) (Running q (pc(t := True)))"
| q_take: "t \<in> C \<Longrightarrow> pc t \<Longrightarrow> dequeue_locked q = Inr (x, q') \<Longrightarrow> qstep C (Running q pc) (Running q' (pc(t := False)))"
| q_take_crash: "t \<in> C \<Longrightarrow> pc t \<Longrightarrow> dequeue_locked q = Inl e \<Longrightarrow> qstep C (Running q pc) (Crashed_With e)"

inductive_cases qstepE: "qstep C s s'"

definition queue_start :: "'a qstate" where
  "queue_start = Running queue_new (\<lambda>_. False)"

definition consumer_inv :: "nat \<Rightarrow> 'a qstate \<Rightarrow> bool" where
  "consumer_inv c s \<longleftrightarrow> (\<exists>q pc xs. s = Running q pc \<and> represents q xs \<and> (pc c \<longrightarrow> xs \<noteq> []))"

lemma consumer_inv_step:
  assumes "qstep {c} s s'" "consumer_inv c s"
  shows "consumer_inv c s'"
  using assms(1)
proof (cases rule: qstep.cases)
  case (q_produce x q q' pc)
  with assms(2) enqueue_represents [of q _ x] show ?thesis by (fastforce simp: consumer_inv_def)
next
  case (q_produce_crash x q e pc)
  with assms(2) enqueue_represents [of q _ x] show ?thesis by (fastforce simp: consumer_inv_def)
next
  case (q_test t pc q)
  with assms(2) represents_head [of q] show ?thesis by (auto simp: consumer_inv_def)
next
  case (q_take t pc q x q')
  with assms(2) obtain y ys where "represents q (y # ys)" by (auto simp: consumer_inv_def neq_Nil_conv)
  with dequeue_locked_represents [OF this] q_take show ?thesis by (auto simp: consumer_inv_def)
next
  case (q_take_crash t pc q e)
  with assms(2) obtain y ys where "represents q (y # ys)" by (auto simp: consumer_inv_def neq_Nil_conv)
  with dequeue_locked_represents [OF this] q_take_crash show ?thesis by auto
qed

lemma consumer_inv_reachable: "(qstep {c})\<^sup>*\<^sup>* queue_start s \<Longrightarrow> consumer_inv c s"
proof (induction rule: rtranclp_induct)
  case base
  show ?case using represents_new by (auto simp: consumer_inv_def queue_start_def)
next
  case (step s s')
  then show ?case using consumer_inv_step by blast
qed

section \<open>Properties\<close>

text \<open>
  C20. The linked queue refines the abstract one: for every sequence of operations from the empty queue, no pointer is used
  wrongly, the removals return what the abstract queue returns, so what was put in comes out in order, and the
  destructor then ends and leaves nothing allocated.
\<close>

theorem queue_refines_list:
  "\<exists>q q'. run_ops enqueue dequeue ops (queue_new :: 'a queue) = Inr (spec_out ops [], q) \<and> queue_free q = Some (Inr q') \<and>
     q_store q' = Map.empty \<and> q_size q = int (length (spec_left ops [])) \<and>
     map Some [x. Enqueue x \<leftarrow> ops] = filter (\<lambda>y. y \<noteq> None) (spec_out ops []) @ map Some (spec_left ops [])"
proof -
  from list_queue.run_refines [OF represents_new, of ops] obtain q where
    q: "run_ops enqueue dequeue ops (queue_new :: 'a queue) = Inr (spec_out ops [], q)" "represents q (spec_left ops [])" by blast
  from queue_free_represents [OF q(2)] obtain q' where "queue_free q = Some (Inr q')" "q_store q' = Map.empty" by blast
  moreover have "q_size q = int (length (spec_left ops []))" using q(2) by (auto simp: represents_def)
  ultimately show ?thesis using q(1) list_queue.spec_fifo [of "[]" ops] by auto
qed

text \<open>
  C21. With one consumer and any number of producers, no interleaving of their steps makes the queue use a pointer
  wrongly.
\<close>

theorem single_consumer_safe:
  assumes "(qstep {c})\<^sup>*\<^sup>* (queue_start :: 'a qstate) s"
  shows "\<exists>q pc xs. s = Running q pc \<and> represents q xs"
  using consumer_inv_reachable [OF assms] by (auto simp: consumer_inv_def)

lemma one_element: "\<exists>q. enqueue x (queue_new :: 'a queue) = Inr q \<and> q_head q \<noteq> None \<and> represents q [x]"
proof -
  from enqueue_represents [OF represents_new, of x] obtain q :: "'a queue" where q: "enqueue x queue_new = Inr q" "represents q [x]" by auto
  with represents_head [OF q(2)] show ?thesis by auto
qed

theorem single_consumer_safe_witness:
  "\<exists>q pc. (qstep {0})\<^sup>*\<^sup>* (queue_start :: nat qstate) (Running q pc) \<and> pc 0 \<and> (\<exists>xs. represents q xs)"
proof -
  from one_element [of "7 :: nat"] obtain q :: "nat queue" where q: "enqueue 7 queue_new = Inr q" "q_head q \<noteq> None" by blast
  let ?pc = "(\<lambda>_. False)(0 := True) :: nat \<Rightarrow> bool"
  have "qstep {0} queue_start (Running q (\<lambda>_. False))" unfolding queue_start_def using q(1) by (rule q_produce)
  moreover have "qstep {0} (Running q (\<lambda>_. False)) (Running q ?pc)" using q(2) by (intro q_test) simp_all
  ultimately have r: "(qstep {0})\<^sup>*\<^sup>* queue_start (Running q ?pc)" by simp
  from single_consumer_safe [OF r] r show ?thesis by (intro exI [of _ q] exI [of _ ?pc]) auto
qed

text \<open>
  C22. With two consumers, both may find the single element of the queue before either of them takes it: the second one
  dereferences a null pointer.
\<close>

theorem two_consumers_crash: "(qstep {0, 1})\<^sup>*\<^sup>* (queue_start :: nat qstate) (Crashed_With Null_Pointer)"
proof -
  from one_element [of "7 :: nat"] obtain q :: "nat queue" where
    q: "enqueue 7 queue_new = Inr q" "q_head q \<noteq> None" "represents q [7]" by blast
  from dequeue_locked_represents [OF q(3)] obtain q' where q': "dequeue_locked q = Inr (7, q')" "represents q' []" by blast
  let ?p0 = "\<lambda>_ :: nat. False"
  let ?p1 = "?p0(0 := True)" and ?p2 = "(?p0(0 := True))(1 := True)"
  have "qstep {0, 1} queue_start (Running q ?p0)" unfolding queue_start_def using q(1) by (rule q_produce)
  moreover have "qstep {0, 1} (Running q ?p0) (Running q ?p1)" using q(2) by (intro q_test) simp_all
  moreover have "qstep {0, 1} (Running q ?p1) (Running q ?p2)" using q(2) by (intro q_test) simp_all
  moreover have "qstep {0, 1} (Running q ?p2) (Running q' (?p2(0 := False)))" using q'(1) by (intro q_take) simp_all
  moreover have "qstep {0, 1} (Running q' (?p2(0 := False))) (Crashed_With Null_Pointer)"
    using represents_head [OF q'(2)] by (intro q_take_crash [of 1]) (simp_all add: dequeue_locked_def read_node_def)
  ultimately show ?thesis by (meson rtranclp.rtrancl_refl rtranclp.rtrancl_into_rtrancl)
qed

end
