(* ===== verification/RM_Main.thy ===== *)
theory RM_Main
  imports RM_Transport
begin

text \<open>
  The program itself (\<^verbatim>\<open>src/src/manager/RepositoryManager.cpp\<close>) and the parts of \<^verbatim>\<open>TransportService\<close> it starts
  and ends with: the reading of the arguments, the opening of the socket in the constructor, and the
  destructor. What the operating system answers to the calls for the socket is an argument.
\<close>

section \<open>The arguments\<close>

text \<open>
  \<^verbatim>\<open>atoi\<close> as the C library of the build's platform has it: \<^verbatim>\<open>strtol\<close>, whose result is a 64 bit number that
  stays at the bounds when the text is out of range, cut to the 32 bits of an \<^verbatim>\<open>int\<close>.
\<close>

definition atoi :: "string \<Rightarrow> int" where
  "atoi s =
     (let (sgn, t) = read_sign (dropWhile c_isspace s);
          v = max (- (2 ^ 63)) (min (2 ^ 63 - 1) (sgn * digits_val 0 (takeWhile c_isdigit t)))
      in sint (word_of_int v :: 32 word))"

text \<open>What \<^verbatim>\<open>htons\<close> keeps of the port.\<close>

definition sin_port :: "int \<Rightarrow> 16 word" where
  "sin_port port = word_of_int port"

section \<open>The socket\<close>

record sockets =
  sk_socket :: int
  sk_bind :: int
  sk_listen :: int

text \<open>The members the constructor sets; \<open>None\<close> is a member that keeps whatever the memory held.\<close>

record endpoint =
  socketInit :: "bool option"
  socketErr :: "int option"
  bound_port :: "16 word option"

definition open_socket :: "sockets \<Rightarrow> int \<Rightarrow> endpoint" where
  "open_socket sk port =
     (if 0 < sk_socket sk then
        if sk_bind sk = 0 then
          \<lparr>socketInit = Some (sk_listen sk = 0), socketErr = Some (sk_listen sk), bound_port = Some (sin_port port)\<rparr>
        else \<lparr>socketInit = None, socketErr = Some (sk_bind sk), bound_port = None\<rparr>
      else \<lparr>socketInit = None, socketErr = None, bound_port = None\<rparr>)"

text \<open>
  The destructor removes the file of the statements. It runs when \<^verbatim>\<open>main\<close> returns; the children end with
  \<^verbatim>\<open>exit\<close>, which does not run it.
\<close>

definition TransportService_delete :: "(string \<Rightarrow> string option) \<Rightarrow> string \<Rightarrow> string option" where
  "TransportService_delete fs = fs(TMP_FILE_S @ ''.P'' := None)"

section \<open>The program\<close>

record run =
  run_exit :: "int option"
  run_validate :: bool
  run_endpoint :: "endpoint option"
  run_server :: "server option"
  run_files :: "string \<Rightarrow> string option"

text \<open>
  \<^verbatim>\<open>main\<close>: \<open>argv\<close> includes the name of the program, \<open>fs\<close> are the files; there is no exit code while the
  server waits for the next connection after those in \<open>cns\<close>. The test of \<^verbatim>\<open>socketInit\<close> at the start
  of \<^verbatim>\<open>startListening\<close> may read a member that was never set.
\<close>

definition main_run ::
  "(string \<Rightarrow> string option) \<Rightarrow> sockets \<Rightarrow> timespec \<Rightarrow> timespec \<Rightarrow> conn list \<Rightarrow> string list \<Rightarrow> run res" where
  "main_run fs sk now now' cns argv =
     (if length argv < 3 then
        Inr \<lparr>run_exit = Some 1, run_validate = False, run_endpoint = None, run_server = None, run_files = fs\<rparr>
      else
        let ep = open_socket sk (atoi (argv ! 1)) in
        case socketInit ep of
          None \<Rightarrow> Inl Uninitialised
        | Some b \<Rightarrow>
            let sv = startListening b now now' cns (main_server fs (argv ! 2)); waits = socketListening (srv_self sv) in
            Inr \<lparr>run_exit = (if waits then None else Some 0), run_validate = (length argv = 4), run_endpoint = Some ep,
              run_server = Some sv, run_files = (if waits then fs else TransportService_delete fs)\<rparr>)"

section \<open>What the arguments decide\<close>

lemma main_run_validate: "main_run fs sk now now' cns argv = Inr r \<Longrightarrow> run_validate r \<longleftrightarrow> length argv = 4"
  by (auto simp: main_run_def Let_def split: if_splits option.splits)

text \<open>Without validation the calendar plays no part in the verification.\<close>

lemma verify_certificates_no_time:
  "verify_certificates C cal False pol cts = verify_certificates C cal' False pol cts"
proof (induction cts arbitrary: pol)
  case (Cons ct cts)
  have "verify_certificate C cal False pol ct = verify_certificate C cal' False pol ct" for pol
    by (simp add: verify_certificate_def)
  with Cons.IH show ?case by (simp cong: ebind_cong)
qed simp

text \<open>
  If the socket cannot be opened or bound, for instance because another server has the port, the program
  does not report it: it goes on to test a flag that was never set. This is the only way in which its start
  fails.
\<close>

theorem main_start_uninitialised:
  "main_run fs sk now now' cns argv = Inl e \<longleftrightarrow>
     e = Uninitialised \<and> 3 \<le> length argv \<and> \<not> (0 < sk_socket sk \<and> sk_bind sk = 0)"
  by (auto simp: main_run_def open_socket_def Let_def)

text \<open>
  C13: started with exactly a port, a policy and one more argument, the server verifies no credential that has a
  certificate outside its time of validity.
\<close>

theorem validity_enforced:
  assumes "main_run fs sk now now' cns argv = Inr r" "length argv = 4"
    "ct \<in> set (certificates cr)" "startTimeSec ct = Some a" "stopTimeSec ct = Some b"
    "t = mktime cal (gmtime cal (time_now cal))" "t < a \<or> b \<le> t"
  shows "verifyCredential C cal (run_validate r) (Some cr) sec \<noteq> Inr (True, sec')"
proof
  assume "verifyCredential C cal (run_validate r) (Some cr) sec = Inr (True, sec')"
  with main_run_validate [OF assms(1)] assms(2) obtain pol q where
    "verify_certificates C cal True pol (certificates cr) = Inr (True, q)"
    by (auto simp: verifyCredential_def ebind_Inr_iff Let_def cred_setKeyDigest_def)
  from verify_certificates_True [OF this] assms(3) have "cert_time_ok cal ct = Inr True" by simp
  with assms(4-7) show False by (auto simp: cert_time_ok_def Let_def)
qed

definition ok_sockets :: sockets where
  "ok_sockets = \<lparr>sk_socket = 3, sk_bind = 0, sk_listen = 0\<rparr>"

lemma ok_run:
  assumes "3 \<le> length argv"
  shows "\<exists>r. main_run fs ok_sockets now now' cns argv = Inr r"
  using assms by (simp add: main_run_def open_socket_def ok_sockets_def Let_def)

definition expired_cred :: credential where
  "expired_cred = \<lparr>cred_pubKey = ''key'', cred_keyDigest = '''',
     certificates = [(example_signed ''key'')\<lparr>startTimeSec := Some 1, stopTimeSec := Some 0\<rparr>]\<rparr>"

theorem validity_enforced_witness:
  "\<exists>r. main_run (\<lambda>_. None) ok_sockets no_time no_time [] [''rm'', ''8080'', ''p'', ''v''] = Inr r \<and>
     (\<forall>sec'. verifyCredential example_crypto example_calendar (run_validate r) (Some expired_cred) example_security \<noteq> Inr (True, sec'))"
proof -
  obtain r where r: "main_run (\<lambda>_. None) ok_sockets no_time no_time [] [''rm'', ''8080'', ''p'', ''v''] = Inr r"
    using ok_run [of "[''rm'', ''8080'', ''p'', ''v'']" "\<lambda>_. None" no_time no_time "[]"] by auto
  have "verifyCredential example_crypto example_calendar (run_validate r) (Some expired_cred) example_security \<noteq> Inr (True, sec')" for sec'
    by (rule validity_enforced [OF r, of "(example_signed ''key'')\<lparr>startTimeSec := Some 1, stopTimeSec := Some 0\<rparr>" _ 1 0])
      (auto simp: expired_cred_def)
  with r show ?thesis by blast
qed

text \<open>
  Started in any other way, with one argument more for instance, it does not look at the time: whatever the
  clock shows, the result of the verification is the same, so expired certificates are accepted.
\<close>

theorem validity_ignored:
  assumes "main_run fs sk now now' cns argv = Inr r" "length argv \<noteq> 4"
  shows "verifyCredential C cal (run_validate r) c sec = verifyCredential C cal' (run_validate r) c sec"
  using main_run_validate [OF assms(1)] assms(2) verify_certificates_no_time [of C cal _ _ cal']
  by (simp add: verifyCredential_def cong: option.case_cong)

theorem validity_ignored_witness:
  "\<exists>r. main_run (\<lambda>_. None) ok_sockets no_time no_time [] [''rm'', ''8080'', ''p'', ''v'', ''x''] = Inr r \<and>
     verifyCredential example_crypto example_calendar (run_validate r) (Some expired_cred) example_security =
     verifyCredential example_crypto (example_calendar\<lparr>time_now := 10 ^ 9\<rparr>) (run_validate r) (Some expired_cred) example_security"
proof -
  obtain r where r: "main_run (\<lambda>_. None) ok_sockets no_time no_time [] [''rm'', ''8080'', ''p'', ''v'', ''x''] = Inr r"
    using ok_run [of "[''rm'', ''8080'', ''p'', ''v'', ''x'']" "\<lambda>_. None" no_time no_time "[]"] by auto
  from validity_ignored [OF r] r show ?thesis by fastforce
qed

end
