(* ===== verification/RM_Clock.thy ===== *)
theory RM_Clock
  imports RM_Timer RM_Credential
begin

text \<open>
  The rest of \<^verbatim>\<open>src/src/utils/Timer.h\<close>: the time of day as a text, the destructor, and the second class
  \<^verbatim>\<open>Timer\<close>, which systems without the POSIX clock get and which measures the processor time by \<^verbatim>\<open>clock\<close>. What that
  function returns is an argument; \<^verbatim>\<open>clock_t\<close> is a signed 64 bit number, whose differences are
  those of words.
\<close>

section \<open>The time of day\<close>

definition two_digits :: "int \<Rightarrow> string" where
  "two_digits n = (if n < 10 then ''0'' else '''') @ show_size (nat n)"

definition getTimeStr :: "calendar \<Rightarrow> string" where
  "getTimeStr cal =
     (let now = gmtime cal (time_now cal) in two_digits (tm_hour now) @ '':'' @ two_digits (tm_min now) @ '':'' @ two_digits (tm_sec now))"

definition Timer_delete :: "timespec \<Rightarrow> timer \<Rightarrow> timer" where
  "Timer_delete now t = (if \<not> tm_stopped t then snd (stop now t) else t)"

lemma two_digits_value:
  assumes "0 \<le> n" "n < 100"
  shows "length (two_digits n) = 2" "digits_val 0 (two_digits n) = n"
proof -
  have n: "n = int (nat n)" "nat n < 100" using assms by auto
  have s: "show_size (nat n) = (if nat n < 10 then '''' else [char_of (48 + nat n div 10)]) @ [char_of (48 + nat n mod 10)]"
  proof -
    have "show_size (nat n) = show_nat_aux (Suc (Suc 18)) (nat n)" by (simp add: show_size_def del: show_nat_aux.simps)
    moreover have "nat n div 10 < 10" using n(2) by auto
    ultimately show ?thesis unfolding show_nat_aux.simps by simp
  qed
  show "length (two_digits n) = 2" using assms by (simp add: two_digits_def s nat_less_iff)
  have c: "(of_char (char_of m :: char) :: int) = int m" if "m < 256" for m
  proof -
    have "(of_char (char_of m :: char) :: nat) = m" using that by simp
    then show ?thesis by (metis of_nat_of_char)
  qed
  show "digits_val 0 (two_digits n) = n"
    using assms c [of "48 + nat n div 10"] c [of "48 + nat n mod 10"]
    by (auto simp: two_digits_def s zdiv_int zmod_int mod_pos_pos_trivial)
qed

text \<open>The text has eight characters, from which the time can be read.\<close>

lemma getTimeStr_roundtrip:
  assumes "gmtime cal (time_now cal) = t" "0 \<le> tm_hour t" "tm_hour t < 24" "0 \<le> tm_min t" "tm_min t < 60" "0 \<le> tm_sec t" "tm_sec t \<le> 60"
  defines "s \<equiv> getTimeStr cal"
  shows "length s = 8" "digits_val 0 (take 2 s) = tm_hour t" "digits_val 0 (take 2 (drop 3 s)) = tm_min t" "digits_val 0 (drop 6 s) = tm_sec t"
  using assms two_digits_value [of "tm_hour t"] two_digits_value [of "tm_min t"] two_digits_value [of "tm_sec t"]
  by (simp_all add: getTimeStr_def Let_def)

section \<open>The timer on processor time\<close>

type_synonym clock_t = "64 word"

record clock_timer =
  ct_startTime :: clock_t
  ct_endTime :: "clock_t option"
  ct_curTime :: "clock_t option"
  ct_offset :: tulong
  ct_stopped :: bool
  ct_started :: bool

definition CLOCKS_PER_SEC :: tulong where
  "CLOCKS_PER_SEC = 1000000"

definition ct_new :: "clock_t \<Rightarrow> clock_timer" where
  "ct_new c = \<lparr>ct_startTime = c, ct_endTime = None, ct_curTime = None, ct_offset = 0, ct_stopped = True, ct_started = False\<rparr>"

definition ct_start :: "clock_t \<Rightarrow> clock_timer \<Rightarrow> clock_timer" where
  "ct_start c t = t\<lparr>ct_curTime := Some c, ct_startTime := c, ct_stopped := False, ct_started := True\<rparr>"

definition ct_stop :: "clock_t \<Rightarrow> clock_timer \<Rightarrow> clock_timer" where
  "ct_stop c t = t\<lparr>ct_curTime := Some c, ct_endTime := Some c, ct_stopped := True\<rparr>"

definition ct_reset :: "clock_timer \<Rightarrow> clock_timer" where
  "ct_reset t = t\<lparr>ct_offset := 0, ct_stopped := True, ct_started := False\<rparr>"

definition ct_resume :: "clock_t \<Rightarrow> clock_timer \<Rightarrow> (tulong \<times> clock_timer) res" where
  "ct_resume c t =
     (case ct_endTime t of
        None \<Rightarrow> Inl Uninitialised
      | Some e \<Rightarrow> Inr (e - c, t\<lparr>ct_offset := e - c, ct_stopped := False\<rparr>))"

definition ct_elapsed :: "clock_t \<Rightarrow> clock_timer \<Rightarrow> rat" where
  "ct_elapsed c t = rnd (rnd (of_int (sint (c - ct_startTime t))) / 1000000)"

definition ct_ticks :: "clock_timer \<Rightarrow> tulong res" where
  "ct_ticks t = (case ct_endTime t of None \<Rightarrow> Inl Uninitialised | Some e \<Rightarrow> Inr (e - ct_startTime t - ct_offset t))"

definition ct_duration :: "clock_timer \<Rightarrow> rat res" where
  "ct_duration t = ebind (ct_ticks t) (\<lambda>n. Inr (rnd (of_int (uint (n div CLOCKS_PER_SEC)))))"

definition ct_delete :: "clock_t \<Rightarrow> clock_timer \<Rightarrow> clock_timer" where
  "ct_delete c t = (if \<not> ct_stopped t then ct_stop c t else t)"

lemmas ct_defs = ct_new_def ct_start_def ct_stop_def ct_resume_def ct_ticks_def ct_reset_def

text \<open>Without a pause the ticks between start and stop are counted.\<close>

lemma ct_ticks_plain: "ct_ticks (ct_stop b (ct_start a (ct_new c))) = Inr (b - a)"
  by (simp add: ct_defs)

text \<open>
  A pause is added where it should be subtracted, since \<^verbatim>\<open>resume\<close> takes the difference the wrong way round:
  started at \<open>a\<close>, paused from \<open>b\<close> to \<open>c\<close> and stopped at \<open>d\<close>, the timer counts the whole time and the pause once more.
\<close>

lemma ct_pause_added:
  "ebind (ct_resume c (ct_stop b (ct_start a (ct_new z)))) (\<lambda>(_, t). ct_ticks (ct_stop d t)) = Inr ((d - a) + (c - b))"
  by (simp add: ct_defs)

text \<open>Two pauses: only the last one counts, since it overwrites the offset.\<close>

lemma ct_pause_overwritten:
  assumes "ct_resume c t = Inr (n, t1)" "ct_resume e (ct_stop d t1) = Inr (m, t2)"
  shows "ct_ticks (ct_stop f t2) = Inr ((f - ct_startTime t) + (e - d))"
  using assms by (auto simp: ct_defs split: option.splits)

end
