(* ===== verification/Antlr_Bitset.thy ===== *)
theory Antlr_Bitset
  imports Antlr_Parser
begin

text \<open>
  The bit sets of the ANTLR run time (\<^verbatim>\<open>antlr3bitset.c\<close>) as arrays of 64 bit words, and the sets of numbers
  they stand for. Every operation of the interface is modelled; an array is the list of its words, whose length
  is the member \<^verbatim>\<open>length\<close>. Numbers of bits and of words are natural numbers for \<^verbatim>\<open>ANTLR3_UINT32\<close>, reduced
  modulo \<open>2 ^ 32\<close> wherever the C code can overflow: the number of bits of an array of \<open>2 ^ 26\<close> words is 0. The recognizer (theory \<open>Antlr_Parser\<close>) works with sets of one word: here
  the loop that combines its follow sets is the one of the C code, on arrays, and shown to be the same.
\<close>

unbundle bit_operations_syntax

section \<open>The operations\<close>

type_synonym bitset_words = "64 word list"

definition u32n :: "nat \<Rightarrow> nat" where
  "u32n n = n mod 2 ^ 32"

lemma u32n_small [simp]: "n < 4294967296 \<Longrightarrow> u32n n = n"
  by (simp add: u32n_def)

definition wordNumber :: "nat \<Rightarrow> nat" where
  "wordNumber n = n div 64"

definition numWordsToHold :: "nat \<Rightarrow> nat" where
  "numWordsToHold n = n div 64 + 1"

definition bitMask :: "nat \<Rightarrow> 64 word" where
  "bitMask n = push_bit (n mod 64) 1"

definition antlr3BitsetNew :: "nat \<Rightarrow> bitset_words" where
  "antlr3BitsetNew numBits = replicate (((if numBits < 8 * 64 then 8 * 64 else numBits) - 1) div 64 + 1) 0"

text \<open>\<^verbatim>\<open>grow\<close> copies the old words; it is only called with a larger size.\<close>

definition grow :: "nat \<Rightarrow> bitset_words \<Rightarrow> bitset_words" where
  "grow newSize bs = bs @ replicate (newSize - length bs) 0"

definition growToInclude :: "nat \<Rightarrow> bitset_words \<Rightarrow> bitset_words" where
  "growToInclude n bs =
     (let bl = u32n (2 * length bs); nw = numWordsToHold n in if nw < bl then grow bl bs else grow nw bs)"

definition bitset_clone :: "bitset_words \<Rightarrow> bitset_words" where
  "bitset_clone bs = bs @ drop (length bs) (antlr3BitsetNew (u32n (64 * length bs)))"

text \<open>\<^verbatim>\<open>antlr3BitsetLoad\<close>: the words of a static list, copied into a new set that grows word by word.\<close>

fun load_words :: "64 word list \<Rightarrow> nat \<Rightarrow> bitset_words \<Rightarrow> bitset_words" where
  "load_words [] count bs = bs"
| "load_words (w # ws) count bs =
     load_words ws (count + 1) ((if length bs \<le> count then grow (count + 1) bs else bs)[count := w])"

definition antlr3BitsetLoad :: "64 word list option \<Rightarrow> bitset_words" where
  "antlr3BitsetLoad inBits = (case inBits of None \<Rightarrow> antlr3BitsetNew 0 | Some ws \<Rightarrow> load_words ws 0 (antlr3BitsetNew 0))"

definition bitset_add :: "nat \<Rightarrow> bitset_words \<Rightarrow> bitset_words" where
  "bitset_add n bs =
     (let bs1 = (if length bs \<le> wordNumber n then growToInclude n bs else bs)
      in bs1[wordNumber n := bs1 ! wordNumber n OR bitMask n])"

definition antlr3BitsetOf :: "nat list \<Rightarrow> bitset_words" where
  "antlr3BitsetOf ns = fold bitset_add ns (antlr3BitsetNew 0)"

definition bitset_isMember :: "bitset_words \<Rightarrow> nat \<Rightarrow> bool" where
  "bitset_isMember bs n \<longleftrightarrow> wordNumber n < length bs \<and> bs ! wordNumber n AND bitMask n \<noteq> 0"

definition bitset_remove :: "nat \<Rightarrow> bitset_words \<Rightarrow> bitset_words" where
  "bitset_remove n bs =
     (if wordNumber n < length bs then bs[wordNumber n := bs ! wordNumber n AND NOT (bitMask n)] else bs)"

text \<open>
  \<^verbatim>\<open>antlr3BitsetORInPlace\<close>. The argument of \<^verbatim>\<open>growToInclude\<close> is a number of bits; the code passes the bytes of the
  second array.
\<close>

fun or_words :: "nat \<Rightarrow> bitset_words \<Rightarrow> bitset_words \<Rightarrow> bitset_words" where
  "or_words 0 bs bs2 = bs"
| "or_words (Suc i) bs bs2 = or_words i (bs[i := bs ! i OR bs2 ! i]) bs2"

definition bitset_borInPlace :: "bitset_words \<Rightarrow> bitset_words option \<Rightarrow> bitset_words" where
  "bitset_borInPlace bs b2 =
     (case b2 of
        None \<Rightarrow> bs
      | Some bs2 \<Rightarrow>
          let bs1 = (if length bs < length bs2 then growToInclude (u32n (length bs2 * 8)) bs else bs)
          in or_words (min (length bs1) (length bs2)) bs1 bs2)"

definition bitset_bor :: "bitset_words option \<Rightarrow> bitset_words option \<Rightarrow> bitset_words option" where
  "bitset_bor b1 b2 =
     (case b1 of
        None \<Rightarrow> map_option bitset_clone b2
      | Some bs1 \<Rightarrow> (case b2 of None \<Rightarrow> Some (bitset_clone bs1) | Some bs2 \<Rightarrow> Some (bitset_borInPlace (bitset_clone bs1) b2)))"

definition word_degree :: "64 word \<Rightarrow> nat" where
  "word_degree w = (if w \<noteq> 0 then length [i \<leftarrow> [0..<64]. w AND push_bit i 1 \<noteq> 0] else 0)"

definition bitset_size :: "bitset_words \<Rightarrow> nat" where
  "bitset_size bs = u32n (sum_list (map word_degree (rev bs)))"

definition bitset_numBits :: "bitset_words \<Rightarrow> nat" where
  "bitset_numBits bs = u32n (length bs * 64)"

definition bitset_isNilNode :: "bitset_words \<Rightarrow> bool" where
  "bitset_isNilNode bs \<longleftrightarrow> list_all (\<lambda>w. w = 0) (rev bs)"

definition bitset_equals :: "bitset_words option \<Rightarrow> bitset_words option \<Rightarrow> bool" where
  "bitset_equals b1 b2 =
     (case (b1, b2) of
        (Some bs1, Some bs2) \<Rightarrow>
          (let minimum = min (length bs1) (length bs2) in
           take minimum bs1 = take minimum bs2 \<and>
           (if minimum < length bs1 then list_all (\<lambda>w. w = 0) (drop minimum bs1)
            else if minimum < length bs2 then list_all (\<lambda>w. w = 0) (drop minimum bs2) else True))
      | _ \<Rightarrow> False)"

text \<open>\<^verbatim>\<open>antlr3BitsetToIntList\<close>: the first entry is the length of the list, itself included.\<close>

definition bitset_toIntList :: "bitset_words \<Rightarrow> nat list" where
  "bitset_toIntList bs = u32n (bitset_size bs + 1) # filter (bitset_isMember bs) [0..<bitset_numBits bs]"

section \<open>The set of numbers\<close>

definition elems :: "bitset_words \<Rightarrow> nat set" where
  "elems bs = {n. n div 64 < length bs \<and> bit (bs ! (n div 64)) (n mod 64)}"

lemma bit_bitMask: "i < 64 \<Longrightarrow> bit (bitMask n) i \<longleftrightarrow> i = n mod 64"
  by (auto simp: bitMask_def bit_simps)

lemma and_bitMask: "(w AND bitMask n \<noteq> 0) \<longleftrightarrow> bit w (n mod 64)" for w :: "64 word"
proof -
  have "w AND bitMask n = 0 \<longleftrightarrow> (\<forall>i < 64. \<not> bit (w AND bitMask n) i)"
    by (auto intro: bit_word_eqI)
  also have "\<dots> \<longleftrightarrow> \<not> bit w (n mod 64)"
  proof
    assume "\<forall>i < 64. \<not> bit (w AND bitMask n) i"
    from spec [OF this, of "n mod 64"] show "\<not> bit w (n mod 64)" by (simp add: bit_and_iff bit_bitMask)
  qed (auto simp: bit_and_iff bit_bitMask)
  finally show ?thesis by simp
qed

lemma isMember_elems [simp]: "bitset_isMember bs n \<longleftrightarrow> n \<in> elems bs"
  by (simp add: bitset_isMember_def elems_def wordNumber_def and_bitMask)

lemma nth_append_zero: "i < length bs + k \<Longrightarrow> (bs @ replicate k 0) ! i = (if i < length bs then bs ! i else 0)"
  by (simp add: nth_append)

lemma elems_append_zero [simp]: "elems (bs @ replicate k 0) = elems bs"
  by (auto simp: elems_def nth_append_zero split: if_splits)

lemma elems_replicate [simp]: "elems (replicate k 0) = {}"
  by (auto simp: elems_def)

lemma elems_new [simp]: "elems (antlr3BitsetNew n) = {}"
  unfolding antlr3BitsetNew_def by (rule elems_replicate)

lemma elems_grow [simp]: "elems (grow k bs) = elems bs"
  by (simp add: grow_def)

lemma elems_growToInclude [simp]: "elems (growToInclude n bs) = elems bs"
  by (simp add: growToInclude_def Let_def)

lemma length_grow [simp]: "length (grow k bs) = max k (length bs)"
  by (auto simp: grow_def)

lemma length_growToInclude: "length bs < 2 ^ 31 \<Longrightarrow> length (growToInclude n bs) = max (n div 64 + 1) (2 * length bs)"
  by (auto simp: growToInclude_def numWordsToHold_def Let_def)

lemma growToInclude_holds: "n div 64 < length (growToInclude n bs)"
  by (auto simp: growToInclude_def numWordsToHold_def Let_def)

lemma div_mod_64: "n div 64 = m div 64 \<Longrightarrow> n mod 64 = m mod 64 \<Longrightarrow> n = (m :: nat)"
  by (metis div_mult_mod_eq)

lemma elems_add [simp]: "elems (bitset_add n bs) = insert n (elems bs)"
proof -
  define bs1 where "bs1 = (if length bs \<le> wordNumber n then growToInclude n bs else bs)"
  have l: "n div 64 < length bs1" using growToInclude_holds [of n bs] by (auto simp: bs1_def wordNumber_def)
  have e: "elems bs1 = elems bs" by (simp add: bs1_def)
  have "elems (bs1[n div 64 := bs1 ! (n div 64) OR bitMask n]) = insert n (elems bs1)"
    using l by (auto simp: elems_def nth_list_update bit_or_iff bit_bitMask dest: div_mod_64)
  then show ?thesis using e by (simp add: bitset_add_def bs1_def wordNumber_def Let_def)
qed

lemma elems_remove [simp]: "elems (bitset_remove n bs) = elems bs - {n}"
  by (auto simp: bitset_remove_def elems_def wordNumber_def nth_list_update bit_and_iff bit_not_iff bit_bitMask dest: div_mod_64)

text \<open>The interface that the recognizer and the sorter use: a set of numbers that grows and shrinks by one.\<close>

locale number_set =
  fixes contents :: "'s \<Rightarrow> nat set" and none :: 's and put :: "nat \<Rightarrow> 's \<Rightarrow> 's" and take_out :: "nat \<Rightarrow> 's \<Rightarrow> 's"
    and has :: "'s \<Rightarrow> nat \<Rightarrow> bool"
  assumes none: "contents none = {}" and put: "contents (put n s) = insert n (contents s)"
    and take_out: "contents (take_out n s) = contents s - {n}" and has: "has s n \<longleftrightarrow> n \<in> contents s"
begin

lemma put_all: "contents (fold put ns s) = contents s \<union> set ns"
  by (induction ns arbitrary: s) (auto simp: put)

lemma has_put_all: "has (fold put ns none) n \<longleftrightarrow> n \<in> set ns"
  by (simp add: has put_all none)

end

interpretation bits: number_set elems "antlr3BitsetNew k" bitset_add bitset_remove bitset_isMember for k
  by unfold_locales simp_all

lemma elems_of [simp]: "elems (antlr3BitsetOf ns) = set ns"
  by (simp add: antlr3BitsetOf_def bits.put_all)

section \<open>Size, comparison, enumeration\<close>

lemma elems_Nil [simp]: "elems [] = {}"
  by (simp add: elems_def)

lemma add_64_div: "(m + 64) div 64 = Suc (m div 64)" for m :: nat
  by simp

lemma elems_Cons: "elems (w # bs) = {i. i < 64 \<and> bit w i} \<union> (\<lambda>n. n + 64) ` elems bs"
proof (intro equalityI subsetI)
  fix n assume n: "n \<in> elems (w # bs)"
  show "n \<in> {i. i < 64 \<and> bit w i} \<union> (\<lambda>n. n + 64) ` elems bs"
  proof (cases "n < 64")
    case False
    then obtain m where m: "n = m + 64" by (metis add.commute le_Suc_ex not_less)
    with n have "m \<in> elems bs" by (simp add: elems_def add_64_div)
    with m show ?thesis by blast
  qed (use n in \<open>simp add: elems_def\<close>)
next
  fix n assume "n \<in> {i. i < 64 \<and> bit w i} \<union> (\<lambda>n. n + 64) ` elems bs"
  then show "n \<in> elems (w # bs)" by (auto simp: elems_def add_64_div)
qed

lemma finite_elems [simp]: "finite (elems bs)"
  by (induction bs) (simp_all add: elems_Cons)

lemma word_degree_card: "word_degree w = card {i. i < 64 \<and> bit w i}"
proof -
  have "w AND push_bit i 1 \<noteq> 0 \<longleftrightarrow> bit w i" if "i < 64" for i
    using and_bitMask [of w i] that by (simp add: bitMask_def)
  then have "[i \<leftarrow> [0..<64]. w AND push_bit i 1 \<noteq> 0] = [i \<leftarrow> [0..<64]. bit w i]" by (intro filter_cong) auto
  moreover have "length [i \<leftarrow> [0..<64]. bit w i] = card (set [i \<leftarrow> [0..<64]. bit w i])" by (subst distinct_card) simp_all
  ultimately have "length [i \<leftarrow> [0..<64]. w AND push_bit i 1 \<noteq> 0] = card (set [i \<leftarrow> [0..<64]. bit w i])" by simp
  then show ?thesis by (auto simp: word_degree_def intro!: arg_cong [of _ _ card])
qed

lemma degrees_card: "sum_list (map word_degree (rev bs)) = card (elems bs)"
proof (induction bs)
  case (Cons w bs)
  have "card (elems (w # bs)) = card {i. i < 64 \<and> bit w i} + card ((\<lambda>n. n + 64) ` elems bs)"
    unfolding elems_Cons by (rule card_Un_disjoint) auto
  also have "card ((\<lambda>n. n + 64) ` elems bs) = card (elems bs)" by (rule card_image) simp
  finally show ?case using Cons.IH by (simp add: word_degree_card)
qed simp

lemma elems_subset: "elems bs \<subseteq> {..<length bs * 64}"
  by (auto simp: elems_def div_less_iff_less_mult)

lemma bitset_size_card: "length bs < 2 ^ 26 \<Longrightarrow> bitset_size bs = card (elems bs)"
proof -
  assume "length bs < 2 ^ 26"
  moreover have "card (elems bs) \<le> length bs * 64"
    using card_mono [OF finite_lessThan elems_subset [of bs]] by simp
  ultimately have "card (elems bs) < 4294967296" by simp
  then show ?thesis by (simp add: bitset_size_def degrees_card)
qed

lemma zero_word: "w = 0 \<longleftrightarrow> {i. i < 64 \<and> bit w i} = {}" for w :: "64 word"
  by (auto intro: bit_word_eqI)

lemma zero_words: "list_all (\<lambda>w. w = 0) bs \<longleftrightarrow> elems bs = {}"
  by (induction bs) (simp_all add: elems_Cons zero_word)

lemma bitset_isNilNode_elems [simp]: "bitset_isNilNode bs \<longleftrightarrow> elems bs = {}"
  unfolding bitset_isNilNode_def list_all_rev by (rule zero_words)

text \<open>Two arrays have the same elements if they agree where both have words and the rest is zero.\<close>

lemma elems_eq_take:
  assumes "length bs1 \<le> length bs2"
  shows "elems bs1 = elems bs2 \<longleftrightarrow> bs1 = take (length bs1) bs2 \<and> elems (drop (length bs1) bs2) = {}"
  using assms
proof (induction bs1 arbitrary: bs2)
  case (Cons w bs1)
  then obtain v cs where c: "bs2 = v # cs" by (cases bs2) auto
  have inj: "inj (\<lambda>n :: nat. n + 64)" by (simp add: inj_def)
  have "elems (w # bs1) = elems (v # cs) \<longleftrightarrow> {i. i < 64 \<and> bit w i} = {i. i < 64 \<and> bit v i} \<and> elems bs1 = elems cs"
  proof
    assume e: "elems (w # bs1) = elems (v # cs)"
    have low: "{n \<in> elems (x # xs). n < 64} = {i. i < 64 \<and> bit x i}" for x xs by (auto simp: elems_Cons)
    have high: "{n \<in> elems (x # xs). 64 \<le> n} = (\<lambda>n. n + 64) ` elems xs" for x xs by (auto simp: elems_Cons)
    have "{i. i < 64 \<and> bit w i} = {i. i < 64 \<and> bit v i}" using low [of w bs1] low [of v cs] e by simp
    moreover have "(\<lambda>n. n + 64) ` elems bs1 = (\<lambda>n. n + 64) ` elems cs" using high [of w bs1] high [of v cs] e by simp
    ultimately show "{i. i < 64 \<and> bit w i} = {i. i < 64 \<and> bit v i} \<and> elems bs1 = elems cs"
      using inj_image_eq_iff [OF inj] by blast
  qed (simp add: elems_Cons)
  moreover have "{i. i < 64 \<and> bit w i} = {i. i < 64 \<and> bit v i} \<longleftrightarrow> w = v"
  proof
    assume "{i. i < 64 \<and> bit w i} = {i. i < 64 \<and> bit v i}"
    then have "i < 64 \<Longrightarrow> bit w i \<longleftrightarrow> bit v i" for i by blast
    then show "w = v" by (intro bit_word_eqI) simp
  qed simp
  ultimately show ?case using Cons c by simp
qed auto

lemma bitset_equals_elems: "bitset_equals (Some bs1) (Some bs2) \<longleftrightarrow> elems bs1 = elems bs2"
proof (cases "length bs1 \<le> length bs2")
  case True
  then show ?thesis
    by (cases "length bs1 = length bs2")
      (auto simp: bitset_equals_def min_absorb1 elems_eq_take zero_words Let_def)
next
  case False
  then have "elems bs1 = elems bs2 \<longleftrightarrow> bs2 = take (length bs2) bs1 \<and> elems (drop (length bs2) bs1) = {}"
    using elems_eq_take [of bs2 bs1] by auto
  with False show ?thesis by (auto simp: bitset_equals_def min_absorb2 zero_words Let_def)
qed

lemma elems_bound: "n \<in> elems bs \<Longrightarrow> length bs < 2 ^ 26 \<Longrightarrow> n < bitset_numBits bs"
  by (simp add: elems_def bitset_numBits_def div_less_iff_less_mult)

lemma toIntList_elems:
  assumes "length bs < 2 ^ 26"
  shows "tl (bitset_toIntList bs) = sorted_list_of_set (elems bs)"
proof -
  note elems_bound = elems_bound [OF _ assms]
  have "filter (bitset_isMember bs) [0..<bitset_numBits bs] = sorted_list_of_set (elems bs)"
    by (rule sorted_distinct_set_unique) (auto simp: sorted_wrt_filter dest: elems_bound)
  then show ?thesis by (simp add: bitset_toIntList_def)
qed

section \<open>Union\<close>

lemma length_or_words [simp]: "length (or_words i bs bs2) = length bs"
  by (induction i bs bs2 rule: or_words.induct) simp_all

lemma nth_or_words:
  "i \<le> length bs \<Longrightarrow> j < length bs \<Longrightarrow> or_words i bs bs2 ! j = (if j < i then bs ! j OR bs2 ! j else bs ! j)"
  by (induction i bs bs2 rule: or_words.induct) (auto simp: nth_list_update less_Suc_eq)

text \<open>What the union has: the elements of the second set that lie beyond the array as it grew are lost.\<close>

definition grown :: "bitset_words \<Rightarrow> bitset_words \<Rightarrow> nat" where
  "grown bs bs2 = (if length bs < length bs2 then max (length bs2 div 8 + 1) (2 * length bs) else length bs)"

lemma elems_borInPlace:
  assumes "length bs < 2 ^ 31" "length bs2 < 2 ^ 29"
  shows "elems (bitset_borInPlace bs (Some bs2)) = elems bs \<union> {n \<in> elems bs2. n div 64 < grown bs bs2}"
proof -
  define bs1 where "bs1 = (if length bs < length bs2 then growToInclude (u32n (length bs2 * 8)) bs else bs)"
  have l: "length bs1 = grown bs bs2" using assms by (auto simp: bs1_def grown_def length_growToInclude)
  have e: "elems bs1 = elems bs" by (simp add: bs1_def)
  have "elems (or_words (min (length bs1) (length bs2)) bs1 bs2) = elems bs1 \<union> {n \<in> elems bs2. n div 64 < length bs1}"
    by (auto simp: elems_def nth_or_words bit_or_iff split: if_splits)
  then show ?thesis using e by (simp add: bitset_borInPlace_def bs1_def l [unfolded bs1_def] Let_def)
qed

lemma elems_borInPlace_small:
  assumes "length bs2 \<le> 2 * length bs" "length bs < 2 ^ 28"
  shows "elems (bitset_borInPlace bs (Some bs2)) = elems bs \<union> elems bs2"
proof -
  have "n div 64 < grown bs bs2" if "n \<in> elems bs2" for n using that assms by (auto simp: elems_def grown_def)
  moreover have "length bs < 2 ^ 31" "length bs2 < 2 ^ 29" using assms by simp_all
  ultimately show ?thesis by (auto simp: elems_borInPlace)
qed

lemma elems_clone [simp]: "elems (bitset_clone bs) = elems bs"
  by (simp add: bitset_clone_def antlr3BitsetNew_def drop_replicate del: replicate.simps)

section \<open>The follow sets of the recognizer\<close>

lemma load_words_append:
  "count \<le> length bs \<Longrightarrow> load_words ws count bs = take count bs @ ws @ drop (count + length ws) bs"
proof (induction ws count bs rule: load_words.induct)
  case (2 w ws count bs)
  define bs1 where "bs1 = (if length bs \<le> count then grow (count + 1) bs else bs)[count := w]"
  have "count + 1 \<le> length bs1" using 2(2) by (simp add: bs1_def)
  moreover have "take (count + 1) bs1 = take count bs @ [w]" "drop (count + 1 + k) bs1 = drop (count + 1 + k) bs" for k
    using 2(2) by (auto simp: bs1_def grow_def take_Suc_conv_app_nth nth_append)
  ultimately show ?case using 2(1) by (simp add: bs1_def)
qed simp

lemma antlr3BitsetLoad_words: "antlr3BitsetLoad (Some ws) = ws @ replicate (8 - length ws) 0"
  by (simp add: antlr3BitsetLoad_def antlr3BitsetNew_def load_words_append drop_replicate del: replicate.simps)

lemma elems_load [simp]: "elems (antlr3BitsetLoad (Some ws)) = elems ws"
  by (simp add: antlr3BitsetLoad_words)

text \<open>
  \<^verbatim>\<open>combineFollows\<close>: the stack from the top. With \<open>exact\<close> it goes down only as long as the end of the rule can be
  seen, and the marker of the end stays only if that holds for the start rule.
\<close>

fun combine_stack :: "bool \<Rightarrow> 64 word list option list \<Rightarrow> bitset_words \<Rightarrow> bitset_words" where
  "combine_stack exact [] s = s"
| "combine_stack exact (l # ls) s =
     (let localFollowSet = antlr3BitsetLoad l; s1 = bitset_borInPlace s (Some localFollowSet) in
      if exact then
        if \<not> bitset_isMember localFollowSet ANTLR3_EOR_TOKEN_TYPE
        then combine_stack exact ls (if ls \<noteq> [] then bitset_remove ANTLR3_EOR_TOKEN_TYPE s1 else s1)
        else s1
      else combine_stack exact ls s1)"

lemma length_borInPlace:
  "length bs < 2 ^ 31 \<Longrightarrow> length bs2 < 2 ^ 29 \<Longrightarrow> length (bitset_borInPlace bs (Some bs2)) = grown bs bs2"
  by (auto simp: bitset_borInPlace_def grown_def length_growToInclude Let_def)

lemma combine_stack_words:
  "length s = 8 \<Longrightarrow> elems (combine_stack False (map (\<lambda>w. Some [w]) ws) s) = elems s \<union> \<Union> ((\<lambda>w. elems [w]) ` set ws)"
proof (induction ws arbitrary: s)
  case (Cons w ws)
  have l: "length (antlr3BitsetLoad (Some [w])) = 8" by (simp add: antlr3BitsetLoad_words)
  with Cons.prems have "length (bitset_borInPlace s (Some (antlr3BitsetLoad (Some [w])))) = 8"
    by (simp add: length_borInPlace grown_def)
  from Cons.IH [OF this] Cons.prems l show ?case by (auto simp: elems_borInPlace_small Let_def)
qed simp

lemma bit_foldr_or: "bit (foldr (\<lambda>l s. s OR l) ws (0 :: 64 word)) n \<longleftrightarrow> (\<exists>w \<in> set ws. bit w n)"
  by (induction ws) (auto simp: bit_or_iff)

text \<open>
  C30: the follow sets of the recognizer's model, single words, are what the C code computes on arrays: the combination of
  any stack of sets of one word, as the generated parser pushes them, has the same members.
\<close>

theorem combineFollows_arrays:
  "elems (combine_stack False (map (\<lambda>w. Some [w]) (rev (pr_following p))) (antlr3BitsetNew 0)) =
     {n. antlr3BitsetMember (combineFollows p) n}"
proof -
  have "length (antlr3BitsetNew 0) = 8" by (simp add: antlr3BitsetNew_def)
  from combine_stack_words [OF this] show ?thesis
    by (auto simp: antlr3BitsetMember_def combineFollows_def bit_foldr_or elems_Cons)
qed

text \<open>
  The union of two sets whose arrays differ a lot loses elements, since the array is grown by a number of bytes where a
  number of bits is expected: a number from 1024 on that is alone in a set gets lost in the union with a new set.
\<close>

theorem borInPlace_loses:
  assumes "1024 \<le> n" "n < 2 ^ 32"
  shows "elems (bitset_borInPlace (antlr3BitsetNew 0) (Some (antlr3BitsetOf [n]))) = {}"
proof -
  have "length (antlr3BitsetNew 0) = 8" by (simp add: antlr3BitsetNew_def)
  moreover have "16 \<le> n div 64" using assms(1) by simp
  ultimately have "length (antlr3BitsetOf [n]) = n div 64 + 1"
    by (simp add: antlr3BitsetOf_def bitset_add_def wordNumber_def length_growToInclude Let_def)
  moreover have "n div 64 + 1 < 2 ^ 29" using assms(2) by simp
  moreover have "\<not> n div 64 < max ((n div 64 + 1) div 8 + 1) 16" using \<open>16 \<le> n div 64\<close> by simp
  ultimately show ?thesis using \<open>length (antlr3BitsetNew 0) = 8\<close> by (auto simp: elems_borInPlace grown_def)
qed

theorem borInPlace_loses_witness:
  "elems (bitset_borInPlace (antlr3BitsetNew 0) (Some (antlr3BitsetOf [1100]))) = {}"
  by (rule borInPlace_loses) simp_all

end
