(* ===== verification/Antlr_Vector.thy ===== *)
theory Antlr_Vector
  imports Antlr_Parser
begin

text \<open>
  The vectors and stacks of the ANTLR run time (\<^verbatim>\<open>antlr3collections.c\<close>), in which the trees keep their children,
  the token stream its tokens and the recognizer its follow sets. An array has a capacity; the cells behind the
  entries in use are memory that was never set, or entries that are no longer in use. The models of the other
  theories use lists: here these are shown to be what the arrays implement. Numbers and sizes are natural numbers where
  the code has 32 bits; how many operations it takes before a size could overflow is part of the property below.
\<close>

section \<open>Vectors\<close>

text \<open>An entry: the pointer, \<open>None\<close> for a null pointer, and whether there is a function to free it.\<close>

record 'a ventry =
  en_element :: "'a option"
  en_free :: bool

text \<open>The cells of the array; \<open>None\<close> is a cell that was never set.\<close>

record 'a vector =
  vc_cells :: "'a ventry option list"
  vc_count :: nat

abbreviation elementsSize :: "'a vector \<Rightarrow> nat" where
  "elementsSize v \<equiv> length (vc_cells v)"

definition ANTLR3_VECTOR_INTERNAL_SIZE :: nat where
  "ANTLR3_VECTOR_INTERNAL_SIZE = 16"

definition null_entry :: "'a ventry" where
  "null_entry = \<lparr>en_element = None, en_free = False\<rparr>"

definition antlr3VectorNew :: "nat \<Rightarrow> 'a vector" where
  "antlr3VectorNew sizeHint =
     \<lparr>vc_cells = replicate (if ANTLR3_VECTOR_INTERNAL_SIZE < sizeHint then sizeHint else ANTLR3_VECTOR_INTERNAL_SIZE) None,
      vc_count = 0\<rparr>"

definition read_cell :: "'a vector \<Rightarrow> nat \<Rightarrow> 'a ventry res" where
  "read_cell v i =
     (if i < elementsSize v then (case vc_cells v ! i of None \<Rightarrow> Inl Uninitialised | Some e \<Rightarrow> Inr e) else Inl Bad_Index)"

text \<open>The call of the function that frees an entry is recorded.\<close>

definition call_free :: "'a ventry \<Rightarrow> 'a option list" where
  "call_free e = (if en_free e then [en_element e] else [])"

definition antlr3VectorGet :: "'a vector \<Rightarrow> nat \<Rightarrow> 'a option res" where
  "antlr3VectorGet v entry =
     (if entry < vc_count v then ebind (read_cell v entry) (\<lambda>e. Inr (en_element e)) else Inr None)"

text \<open>The removal of one cell: the last one is cleared, behind another one the rest is moved up.\<close>

definition close_gap :: "nat \<Rightarrow> 'a vector \<Rightarrow> 'a vector" where
  "close_gap entry v =
     v\<lparr>vc_cells :=
         (if entry = vc_count v - 1 then (vc_cells v)[entry := Some null_entry]
          else take entry (vc_cells v) @ take (vc_count v - entry - 1) (drop (entry + 1) (vc_cells v)) @
            drop (vc_count v - 1) (vc_cells v)),
       vc_count := vc_count v - 1\<rparr>"

definition antlr3VectorDel :: "nat \<Rightarrow> 'a vector \<Rightarrow> ('a option list \<times> 'a vector) res" where
  "antlr3VectorDel entry v =
     (if vc_count v \<le> entry then Inr ([], v)
      else ebind (read_cell v entry) (\<lambda>e.
        let v1 = v\<lparr>vc_cells := (vc_cells v)[entry := Some (e\<lparr>en_free := False\<rparr>)]\<rparr>
        in Inr (call_free e, close_gap entry v1)))"

definition antrl3VectorRemove :: "nat \<Rightarrow> 'a vector \<Rightarrow> ('a option \<times> 'a vector) res" where
  "antrl3VectorRemove entry v =
     (if vc_count v \<le> entry then Inr (None, v)
      else ebind (read_cell v entry) (\<lambda>e. Inr (en_element e, close_gap entry v)))"

definition antlr3VectorResize :: "nat \<Rightarrow> 'a vector \<Rightarrow> 'a vector" where
  "antlr3VectorResize hint v =
     (let newSize = (if hint = 0 \<or> hint < elementsSize v then elementsSize v * 2 else hint * 2);
          kept = (if ANTLR3_VECTOR_INTERNAL_SIZE < elementsSize v then vc_cells v
                  else take ANTLR3_VECTOR_INTERNAL_SIZE (vc_cells v))
      in v\<lparr>vc_cells := kept @ replicate (newSize - length kept) None\<rparr>)"

definition antlr3VectorAdd :: "'a ventry \<Rightarrow> 'a vector \<Rightarrow> nat \<times> 'a vector" where
  "antlr3VectorAdd e v =
     (let v1 = (if vc_count v = elementsSize v then antlr3VectorResize 0 v else v);
          v2 = v1\<lparr>vc_cells := (vc_cells v1)[vc_count v1 := Some e], vc_count := vc_count v1 + 1\<rparr>
      in (vc_count v2, v2))"

definition antlr3VectorSet :: "nat \<Rightarrow> 'a ventry \<Rightarrow> bool \<Rightarrow> 'a vector \<Rightarrow> ('a option list \<times> 'a vector) res" where
  "antlr3VectorSet entry e freeExisting v =
     (let v1 = (if elementsSize v \<le> entry then antlr3VectorResize entry v else v) in
      ebind (if entry < vc_count v1 \<and> freeExisting then ebind (read_cell v1 entry) (\<lambda>old. Inr (call_free old)) else Inr [])
        (\<lambda>freed. Inr (freed, v1\<lparr>vc_cells := (vc_cells v1)[entry := Some e], vc_count := max (vc_count v1) (entry + 1)\<rparr>)))"

definition antlr3VectorSwap :: "nat \<Rightarrow> nat \<Rightarrow> 'a vector \<Rightarrow> bool \<times> 'a vector" where
  "antlr3VectorSwap entry1 entry2 v =
     (if elementsSize v \<le> entry1 \<or> elementsSize v \<le> entry2 then (False, v)
      else (True, v\<lparr>vc_cells := (vc_cells v)[entry1 := vc_cells v ! entry2, entry2 := vc_cells v ! entry1]\<rparr>))"

fun clear_cells :: "nat \<Rightarrow> nat \<Rightarrow> 'a vector \<Rightarrow> ('a option list \<times> 'a vector) res" where
  "clear_cells i 0 v = Inr ([], v)"
| "clear_cells i (Suc n) v =
     ebind (read_cell v i) (\<lambda>e.
     ebind (clear_cells (i + 1) n (v\<lparr>vc_cells := (vc_cells v)[i := Some null_entry]\<rparr>)) (\<lambda>(freed, v').
       Inr (call_free e @ freed, v')))"

definition antlr3VectorClear :: "'a vector \<Rightarrow> ('a option list \<times> 'a vector) res" where
  "antlr3VectorClear v = ebind (clear_cells 0 (vc_count v) v) (\<lambda>(freed, v'). Inr (freed, v'\<lparr>vc_count := 0\<rparr>))"

section \<open>The list that a vector stands for\<close>

definition holds :: "'a vector \<Rightarrow> 'a ventry list \<Rightarrow> bool" where
  "holds v xs \<longleftrightarrow> vc_count v = length xs \<and> length xs \<le> elementsSize v \<and> ANTLR3_VECTOR_INTERNAL_SIZE \<le> elementsSize v \<and>
     take (length xs) (vc_cells v) = map Some xs"

lemma holdsD:
  assumes "holds v xs"
  shows "vc_count v = length xs" "length xs \<le> elementsSize v" "16 \<le> elementsSize v"
    "i < length xs \<Longrightarrow> vc_cells v ! i = Some (xs ! i)"
  using assms by (auto simp: holds_def ANTLR3_VECTOR_INTERNAL_SIZE_def) (metis nth_map nth_take)

lemma holdsI:
  assumes "vc_count v = length xs" "length xs \<le> elementsSize v" "16 \<le> elementsSize v"
    "\<And>i. i < length xs \<Longrightarrow> vc_cells v ! i = Some (xs ! i)"
  shows "holds v xs"
  using assms by (auto simp: holds_def ANTLR3_VECTOR_INTERNAL_SIZE_def intro!: nth_equalityI)

lemma new_holds: "holds (antlr3VectorNew hint) []"
  by (simp add: holds_def antlr3VectorNew_def)

lemma read_cell_holds: "holds v xs \<Longrightarrow> i < length xs \<Longrightarrow> read_cell v i = Inr (xs ! i)"
  by (simp add: read_cell_def holdsD order.strict_trans2 [OF _ holdsD(2)])

lemma get_holds: "holds v xs \<Longrightarrow> antlr3VectorGet v i = Inr (if i < length xs then en_element (xs ! i) else None)"
  by (simp add: antlr3VectorGet_def holdsD read_cell_holds)

lemma resize_holds:
  assumes "holds v xs"
  shows "holds (antlr3VectorResize hint v) xs" "elementsSize v < elementsSize (antlr3VectorResize hint v)"
    "hint < elementsSize (antlr3VectorResize hint v)"
proof -
  note v = holdsD [OF assms]
  define kept where "kept = (if ANTLR3_VECTOR_INTERNAL_SIZE < elementsSize v then vc_cells v
    else take ANTLR3_VECTOR_INTERNAL_SIZE (vc_cells v))"
  have k: "kept = vc_cells v" using v(3) by (simp add: kept_def ANTLR3_VECTOR_INTERNAL_SIZE_def)
  define n where "n = (if hint = 0 \<or> hint < elementsSize v then elementsSize v * 2 else hint * 2)"
  have c: "vc_cells (antlr3VectorResize hint v) = vc_cells v @ replicate (n - elementsSize v) None" "elementsSize v < n" "hint < n"
    using v(3) by (auto simp: antlr3VectorResize_def Let_def n_def k [unfolded kept_def])
  moreover have "vc_count (antlr3VectorResize hint v) = vc_count v" by (simp add: antlr3VectorResize_def Let_def)
  ultimately show "holds (antlr3VectorResize hint v) xs" "elementsSize v < elementsSize (antlr3VectorResize hint v)"
    "hint < elementsSize (antlr3VectorResize hint v)"
    using v by (auto intro!: holdsI simp: nth_append)
qed

lemma write_end_holds:
  assumes "holds v xs" "length xs < elementsSize v"
  shows "holds (v\<lparr>vc_cells := (vc_cells v)[length xs := Some e], vc_count := Suc (length xs)\<rparr>) (xs @ [e])"
  using holdsD [OF assms(1)] assms(2) by (intro holdsI) (auto simp: nth_append nth_list_update less_Suc_eq)

lemma write_holds:
  assumes "holds v xs" "i < length xs"
  shows "holds (v\<lparr>vc_cells := (vc_cells v)[i := Some e]\<rparr>) (xs[i := e])"
  using holdsD [OF assms(1)] assms(2) by (intro holdsI) (auto simp: nth_list_update)

lemma add_holds:
  assumes "holds v xs"
  shows "fst (antlr3VectorAdd e v) = length xs + 1" "holds (snd (antlr3VectorAdd e v)) (xs @ [e])"
proof -
  define v1 where "v1 = (if vc_count v = elementsSize v then antlr3VectorResize 0 v else v)"
  have h: "holds v1 xs" using resize_holds(1) [OF assms] assms by (simp add: v1_def)
  have "length xs < elementsSize v1"
    using resize_holds(2) [OF assms, of 0] holdsD(1,2) [OF assms] by (auto simp: v1_def)
  from write_end_holds [OF h this] holdsD(1) [OF h]
  show "fst (antlr3VectorAdd e v) = length xs + 1" "holds (snd (antlr3VectorAdd e v)) (xs @ [e])"
    by (simp_all add: antlr3VectorAdd_def v1_def Let_def)
qed

definition delete_at :: "nat \<Rightarrow> 'b list \<Rightarrow> 'b list" where
  "delete_at i xs = take i xs @ drop (i + 1) xs"

lemma nth_delete_at: "i < length xs \<Longrightarrow> j < length xs - 1 \<Longrightarrow> delete_at i xs ! j = (if j < i then xs ! j else xs ! (j + 1))"
  by (auto simp: delete_at_def nth_append)

lemma length_delete_at: "i < length xs \<Longrightarrow> length (delete_at i xs) = length xs - 1"
  by (auto simp: delete_at_def)

lemma close_gap_holds:
  assumes "holds v xs" "i < length xs"
  shows "holds (close_gap i v) (delete_at i xs)"
proof (rule holdsI)
  note v = holdsD [OF assms(1)]
  have l: "elementsSize (close_gap i v) = elementsSize v" using v(1,2) assms(2) by (auto simp: close_gap_def)
  with v(2,3) assms(2) show "length (delete_at i xs) \<le> elementsSize (close_gap i v)" "16 \<le> elementsSize (close_gap i v)"
    by (simp_all add: length_delete_at)
  show "vc_count (close_gap i v) = length (delete_at i xs)" using v(1) assms(2) by (simp add: close_gap_def length_delete_at)
  fix j assume j: "j < length (delete_at i xs)"
  then have j': "j < length xs - 1" using assms(2) by (simp add: length_delete_at)
  show "vc_cells (close_gap i v) ! j = Some (delete_at i xs ! j)"
  proof (cases "i = length xs - 1")
    case True
    with j' show ?thesis using v assms(2) by (simp add: close_gap_def nth_delete_at)
  next
    case False
    then show ?thesis using v assms(2) j' by (auto simp: close_gap_def nth_delete_at nth_append)
  qed
qed

lemma del_holds:
  assumes "holds v xs"
  shows "\<exists>v'. antlr3VectorDel i v = Inr (if i < length xs then call_free (xs ! i) else [], v') \<and>
    holds v' (if i < length xs then delete_at i xs else xs)"
proof (cases "i < length xs")
  case True
  have "delete_at i (xs[i := e]) = delete_at i xs" for e using True by (simp add: delete_at_def)
  with close_gap_holds [OF write_holds [OF assms True], of i] True read_cell_holds [OF assms True] holdsD(1) [OF assms]
  show ?thesis by (auto simp: antlr3VectorDel_def Let_def)
qed (use assms holdsD(1) [OF assms] in \<open>simp add: antlr3VectorDel_def\<close>)

lemma remove_holds:
  assumes "holds v xs"
  shows "\<exists>v'. antrl3VectorRemove i v = Inr (if i < length xs then en_element (xs ! i) else None, v') \<and>
    holds v' (if i < length xs then delete_at i xs else xs)"
  using assms holdsD(1) [OF assms] close_gap_holds [OF assms, of i] read_cell_holds [OF assms, of i]
  by (auto simp: antrl3VectorRemove_def)

lemma set_holds:
  assumes "holds v xs" "i \<le> length xs"
  shows "\<exists>v'. antlr3VectorSet i e b v = Inr (if i < length xs \<and> b then call_free (xs ! i) else [], v') \<and>
    holds v' (if i < length xs then xs[i := e] else xs @ [e])"
proof -
  define v1 where "v1 = (if elementsSize v \<le> i then antlr3VectorResize i v else v)"
  have h: "holds v1 xs" using resize_holds(1) [OF assms(1)] assms(1) by (simp add: v1_def)
  have s: "i < elementsSize v1" using resize_holds(3) [OF assms(1), of i] by (auto simp: v1_def)
  have f: "(if i < vc_count v1 \<and> b then ebind (read_cell v1 i) (\<lambda>old. Inr (call_free old)) else Inr []) =
      Inr (if i < length xs \<and> b then call_free (xs ! i) else [])"
    using holdsD(1) [OF h] read_cell_holds [OF h] by simp
  have "holds (v1\<lparr>vc_cells := (vc_cells v1)[i := Some e], vc_count := max (vc_count v1) (i + 1)\<rparr>)
      (if i < length xs then xs[i := e] else xs @ [e])"
  proof (cases "i < length xs")
    case True
    then have "max (vc_count v1) (i + 1) = vc_count v1" using holdsD(1) [OF h] by simp
    with True write_holds [OF h True, of e] show ?thesis by (auto simp: holds_def)
  next
    case False
    with assms(2) write_end_holds [OF h] s holdsD(1) [OF h] show ?thesis by simp
  qed
  then show ?thesis using f by (auto simp: antlr3VectorSet_def v1_def Let_def)
qed

lemma swap_holds:
  assumes "holds v xs" "i < length xs" "j < length xs"
  shows "fst (antlr3VectorSwap i j v)" "holds (snd (antlr3VectorSwap i j v)) (xs[i := xs ! j, j := xs ! i])"
proof -
  note v = holdsD [OF assms(1)]
  with assms(2,3) show "fst (antlr3VectorSwap i j v)" by (simp add: antlr3VectorSwap_def)
  from v assms(2,3) show "holds (snd (antlr3VectorSwap i j v)) (xs[i := xs ! j, j := xs ! i])"
    by (auto intro!: holdsI simp: antlr3VectorSwap_def nth_list_update)
qed

lemma clear_cells_holds:
  assumes "i + n \<le> elementsSize v" "\<And>j. j < n \<Longrightarrow> vc_cells v ! (i + j) = Some (ys ! j)" "length ys = n"
  shows "\<exists>v'. clear_cells i n v = Inr (concat (map call_free ys), v') \<and> elementsSize v' = elementsSize v"
  using assms
proof (induction n arbitrary: i v ys)
  case (Suc n)
  then obtain y zs where ys: "ys = y # zs" by (cases ys) auto
  have r: "read_cell v i = Inr y" using Suc.prems(1) Suc.prems(2) [of 0] ys by (simp add: read_cell_def)
  let ?v = "v\<lparr>vc_cells := (vc_cells v)[i := Some null_entry]\<rparr>"
  have "vc_cells ?v ! (i + 1 + j) = Some (zs ! j)" if "j < n" for j
    using Suc.prems(2) [of "Suc j"] that ys by simp
  then obtain v' where "clear_cells (i + 1) n ?v = Inr (concat (map call_free zs), v') \<and> elementsSize v' = elementsSize ?v"
    using Suc.IH [of "i + 1" ?v zs] Suc.prems(1,3) ys by auto
  with r ys show ?case by simp
qed simp

lemma clear_holds:
  assumes "holds v xs"
  shows "\<exists>v'. antlr3VectorClear v = Inr (concat (map call_free xs), v') \<and> holds v' []"
proof -
  note v = holdsD [OF assms]
  obtain v' where "clear_cells 0 (length xs) v = Inr (concat (map call_free xs), v')" "elementsSize v' = elementsSize v"
    using clear_cells_holds [of 0 "length xs" v xs] v by auto
  with v(1,3) show ?thesis by (auto simp: antlr3VectorClear_def intro!: holdsI)
qed

section \<open>The interface, and what it promises\<close>

text \<open>What an operation answers: the calls of the functions that free entries, and the pointer or number it returns.\<close>

datatype 'a answer = Freed "'a option list" | Pointer "'a option" | Number nat

datatype 'a vector_op = Add "'a ventry" | Del nat | Remove nat | Get nat | Set nat "'a ventry" bool | Swap nat nat | Clear | Size

fun vector_step :: "'a vector_op \<Rightarrow> 'a vector \<Rightarrow> ('a answer \<times> 'a vector) res" where
  "vector_step (Add e) v = Inr (let (n, v') = antlr3VectorAdd e v in (Number n, v'))"
| "vector_step (Del i) v = ebind (antlr3VectorDel i v) (\<lambda>(f, v'). Inr (Freed f, v'))"
| "vector_step (Remove i) v = ebind (antrl3VectorRemove i v) (\<lambda>(x, v'). Inr (Pointer x, v'))"
| "vector_step (Get i) v = ebind (antlr3VectorGet v i) (\<lambda>x. Inr (Pointer x, v))"
| "vector_step (Set i e b) v = ebind (antlr3VectorSet i e b v) (\<lambda>(f, v'). Inr (Freed f, v'))"
| "vector_step (Swap i j) v = Inr (let (b, v') = antlr3VectorSwap i j v in (Number (if b then 1 else 0), v'))"
| "vector_step Clear v = ebind (antlr3VectorClear v) (\<lambda>(f, v'). Inr (Freed f, v'))"
| "vector_step Size v = Inr (Number (vc_count v), v)"

text \<open>
  The list of entries, with the same operations. There is no answer to the two the code does not guard: setting an entry
  beyond the end, and swapping with one that is not in use.
\<close>

fun list_step :: "'a vector_op \<Rightarrow> 'a ventry list \<Rightarrow> ('a answer \<times> 'a ventry list) option" where
  "list_step (Add e) xs = Some (Number (length xs + 1), xs @ [e])"
| "list_step (Del i) xs =
     Some (if i < length xs then (Freed (call_free (xs ! i)), delete_at i xs) else (Freed [], xs))"
| "list_step (Remove i) xs =
     Some (if i < length xs then (Pointer (en_element (xs ! i)), delete_at i xs) else (Pointer None, xs))"
| "list_step (Get i) xs = Some (Pointer (if i < length xs then en_element (xs ! i) else None), xs)"
| "list_step (Set i e b) xs =
     (if i < length xs then Some (Freed (if b then call_free (xs ! i) else []), xs[i := e])
      else if i = length xs then Some (Freed [], xs @ [e]) else None)"
| "list_step (Swap i j) xs =
     (if i < length xs \<and> j < length xs then Some (Number 1, xs[i := xs ! j, j := xs ! i]) else None)"
| "list_step Clear xs = Some (Freed (concat (map call_free xs)), [])"
| "list_step Size xs = Some (Number (length xs), xs)"

lemma vector_step_holds:
  assumes "holds v xs" "list_step op xs = Some (a, ys)"
  shows "\<exists>v'. vector_step op v = Inr (a, v') \<and> holds v' ys"
proof (cases op)
  case (Add e)
  with assms add_holds [OF assms(1), of e] show ?thesis by (simp add: split_beta)
next
  case (Del i)
  with assms del_holds [OF assms(1), of i] show ?thesis by (auto split: if_splits)
next
  case (Remove i)
  with assms remove_holds [OF assms(1), of i] show ?thesis by (auto split: if_splits)
next
  case (Get i)
  with assms get_holds [OF assms(1), of i] show ?thesis by auto
next
  case (Set i e b)
  with assms set_holds [OF assms(1), of i e b] show ?thesis by (auto split: if_splits)
next
  case (Swap i j)
  with assms swap_holds [OF assms(1), of i j] show ?thesis by (auto simp: split_beta split: if_splits)
next
  case Clear
  with assms clear_holds [OF assms(1)] show ?thesis by auto
next
  case Size
  with assms holdsD(1) [OF assms(1)] show ?thesis by auto
qed

fun vector_run :: "'a vector_op list \<Rightarrow> 'a vector \<Rightarrow> ('a answer list \<times> 'a vector) res" where
  "vector_run [] v = Inr ([], v)"
| "vector_run (op # ops) v =
     ebind (vector_step op v) (\<lambda>(a, v'). ebind (vector_run ops v') (\<lambda>(as, v''). Inr (a # as, v'')))"

fun list_run :: "'a vector_op list \<Rightarrow> 'a ventry list \<Rightarrow> ('a answer list \<times> 'a ventry list) option" where
  "list_run [] xs = Some ([], xs)"
| "list_run (op # ops) xs =
     Option.bind (list_step op xs) (\<lambda>(a, ys). map_option (\<lambda>(as, zs). (a # as, zs)) (list_run ops ys))"

lemma vector_run_holds:
  assumes "holds v xs" "list_run ops xs = Some (as, ys)"
  shows "\<exists>v'. vector_run ops v = Inr (as, v') \<and> holds v' ys"
  using assms
proof (induction ops arbitrary: v xs as)
  case (Cons op ops)
  from Cons.prems(2) obtain a zs as' where s: "list_step op xs = Some (a, zs)" "list_run ops zs = Some (as', ys)" "as = a # as'"
    by (auto simp: bind_eq_Some_conv)
  from vector_step_holds [OF Cons.prems(1) s(1)] obtain v' where v: "vector_step op v = Inr (a, v')" "holds v' zs" by blast
  from Cons.IH [OF v(2) s(2)] v(1) s(3) show ?case by auto
qed simp

text \<open>
  The array is only enlarged when it is full, to twice the number of its entries.
\<close>

lemma resize_size:
  "16 \<le> elementsSize v \<Longrightarrow> elementsSize (antlr3VectorResize hint v) =
     (if hint = 0 \<or> hint < elementsSize v then elementsSize v * 2 else hint * 2)"
  by (auto simp: antlr3VectorResize_def Let_def ANTLR3_VECTOR_INTERNAL_SIZE_def)

lemma close_gap_size: "i < vc_count v \<Longrightarrow> vc_count v \<le> elementsSize v \<Longrightarrow> elementsSize (close_gap i v) = elementsSize v"
  by (auto simp: close_gap_def)

lemma clear_cells_size: "clear_cells i n v = Inr (f, v') \<Longrightarrow> elementsSize v' = elementsSize v"
  by (induction n arbitrary: i v f) (fastforce simp: ebind_Inr_iff)+

lemma vector_step_size:
  assumes "holds v xs" "list_step op xs = Some (a, ys)" "vector_step op v = Inr (b, v')"
  shows "elementsSize v' \<le> max (elementsSize v) (2 * length xs)" "length ys \<le> length xs + 1"
proof -
  note v = holdsD(1-3) [OF assms(1)]
  show "length ys \<le> length xs + 1" using assms(2) by (cases op) (auto simp: length_delete_at split: if_splits)
  show "elementsSize v' \<le> max (elementsSize v) (2 * length xs)"
  proof (cases op)
    case (Add e)
    with assms(3) v show ?thesis by (auto simp: antlr3VectorAdd_def resize_size Let_def split: if_splits)
  next
    case (Del i)
    with assms(3) v show ?thesis by (auto simp: close_gap_size antlr3VectorDel_def ebind_Inr_iff Let_def split: if_splits)
  next
    case (Remove i)
    with assms(3) v show ?thesis by (auto simp: close_gap_size antrl3VectorRemove_def ebind_Inr_iff split: if_splits)
  next
    case (Set i e c)
    with assms(2,3) v show ?thesis by (auto simp: antlr3VectorSet_def resize_size ebind_Inr_iff Let_def split: if_splits)
  next
    case Clear
    with assms(3) clear_cells_size show ?thesis by (fastforce simp: antlr3VectorClear_def ebind_Inr_iff)
  qed (use assms(3) in \<open>auto simp: ebind_Inr_iff antlr3VectorSwap_def split: if_splits\<close>)
qed

lemma vector_run_size:
  assumes "holds v xs" "list_run ops xs = Some (as, ys)" "vector_run ops v = Inr (bs, v')"
  shows "elementsSize v' \<le> max (elementsSize v) (2 * (length xs + length ops))"
  using assms
proof (induction ops arbitrary: v xs as bs)
  case (Cons op ops)
  from Cons.prems(2) obtain a zs as' where s: "list_step op xs = Some (a, zs)" "list_run ops zs = Some (as', ys)"
    by (auto simp: bind_eq_Some_conv)
  from vector_step_holds [OF Cons.prems(1) s(1)] obtain v1 where v1: "vector_step op v = Inr (a, v1)" "holds v1 zs" by blast
  from Cons.prems(3) v1(1) obtain bs' where "vector_run ops v1 = Inr (bs', v')" by (auto simp: ebind_Inr_iff)
  from Cons.IH [OF v1(2) s(2) this] vector_step_size [OF Cons.prems(1) s(1) v1(1)] show ?case by simp
qed simp

text \<open>
  C29: the growing array is a list: whatever the size it starts with and however often it is enlarged, every sequence of
  operations that sets no entry beyond the end and swaps only entries in use gets the answers of the list, frees the
  same entries, and never looks at a cell that was not set. The size of the array stays below \<open>2 ^ 32\<close> if there are fewer
  than \<open>2 ^ 31\<close> operations and no larger initial size is asked for, so that its 32 bits do not overflow.
\<close>

theorem vector_refines_list:
  assumes "list_run ops [] = Some (as, xs)"
  shows "\<exists>v. vector_run ops (antlr3VectorNew hint) = Inr (as, v) \<and> holds v xs \<and>
    (length ops < 2 ^ 31 \<and> hint < 2 ^ 32 \<longrightarrow> elementsSize v < 2 ^ 32)"
proof -
  obtain v where v: "vector_run ops (antlr3VectorNew hint) = Inr (as, v)" "holds v xs"
    using vector_run_holds [OF new_holds assms] by blast
  moreover have "elementsSize (antlr3VectorNew hint :: 'a vector) = max hint 16"
    by (simp add: antlr3VectorNew_def ANTLR3_VECTOR_INTERNAL_SIZE_def)
  ultimately show ?thesis using vector_run_size [OF new_holds assms v(1)] by auto
qed

theorem vector_refines_list_witness:
  "\<exists>v. vector_run [Add \<lparr>en_element = Some (5 :: nat), en_free = True\<rparr>, Del 0, Get 0] (antlr3VectorNew 3) =
     Inr ([Number 1, Freed [Some 5], Pointer None], v) \<and> elementsSize v < 2 ^ 32"
  using vector_refines_list [of "[Add \<lparr>en_element = Some (5 :: nat), en_free = True\<rparr>, Del 0, Get 0]"
      "[Number 1, Freed [Some 5], Pointer None]" "[]" 3]
  by (auto simp: call_free_def delete_at_def)

text \<open>The operation that the code does not guard: the entries between the old end and the new one are garbage.\<close>

lemma set_beyond_end_garbage: "vector_run [Set 5 e b, Get 0] (antlr3VectorNew hint) = Inl Uninitialised"
  by (simp add: antlr3VectorSet_def antlr3VectorNew_def antlr3VectorGet_def read_cell_def ANTLR3_VECTOR_INTERNAL_SIZE_def Let_def)

section \<open>Stacks\<close>

record 'a stack =
  stk_vector :: "'a vector"
  stk_top :: "'a option"

definition antlr3StackNew :: "nat \<Rightarrow> 'a stack" where
  "antlr3StackNew sizeHint = \<lparr>stk_vector = antlr3VectorNew sizeHint, stk_top = None\<rparr>"

text \<open>\<^verbatim>\<open>count - 1\<close> of an empty vector is the largest number of 32 bits.\<close>

definition last_index :: "'a vector \<Rightarrow> nat" where
  "last_index v = (if vc_count v = 0 then 4294967295 else vc_count v - 1)"

definition antlr3StackPop :: "'a stack \<Rightarrow> ('a option list \<times> 'a option \<times> 'a stack) res" where
  "antlr3StackPop s =
     ebind (antlr3VectorDel (last_index (stk_vector s)) (stk_vector s)) (\<lambda>(freed, v).
     ebind (antlr3VectorGet v (last_index v)) (\<lambda>t. Inr (freed, t, \<lparr>stk_vector = v, stk_top = t\<rparr>)))"

definition antlr3StackGet :: "'a stack \<Rightarrow> nat \<Rightarrow> 'a option res" where
  "antlr3StackGet s key = antlr3VectorGet (stk_vector s) key"

definition antlr3StackPeek :: "'a stack \<Rightarrow> 'a option" where
  "antlr3StackPeek s = stk_top s"

definition antlr3StackSize :: "'a stack \<Rightarrow> nat" where
  "antlr3StackSize s = vc_count (stk_vector s)"

definition antlr3StackPush :: "'a ventry \<Rightarrow> 'a stack \<Rightarrow> nat \<times> 'a stack" where
  "antlr3StackPush e s = (let (n, v) = antlr3VectorAdd e (stk_vector s) in (n, \<lparr>stk_vector = v, stk_top = en_element e\<rparr>))"

definition stack_holds :: "'a stack \<Rightarrow> 'a ventry list \<Rightarrow> bool" where
  "stack_holds s xs \<longleftrightarrow> holds (stk_vector s) xs \<and> stk_top s = (if xs = [] then None else en_element (last xs)) \<and>
     length xs < 4294967295"

text \<open>A stack as its clients use it: \<open>top\<close> after \<open>pop\<close> is that of what is left.\<close>

locale stack_of =
  fixes inv :: "'s \<Rightarrow> 'e list \<Rightarrow> bool" and push_it :: "'e \<Rightarrow> 's \<Rightarrow> 's" and pop_it :: "'s \<Rightarrow> 's res" and top_of :: "'s \<Rightarrow> 'v option"
    and val :: "'e \<Rightarrow> 'v option" and bound :: nat
  assumes push: "inv s xs \<Longrightarrow> length xs < bound \<Longrightarrow> inv (push_it e s) (xs @ [e])"
    and pop: "inv s xs \<Longrightarrow> \<exists>s'. pop_it s = Inr s' \<and> inv s' (butlast xs)"
    and top: "inv s xs \<Longrightarrow> top_of s = (if xs = [] then None else val (last xs))"
begin

text \<open>What is pushed for the time of a call is gone after it.\<close>

lemma push_pop:
  assumes "inv s xs" "length xs < bound"
  shows "\<exists>s'. pop_it (push_it e s) = Inr s' \<and> inv s' xs \<and> top_of s' = top_of s"
proof -
  obtain s' where s: "pop_it (push_it e s) = Inr s'" "inv s' xs" using pop [OF push [OF assms, of e]] by auto
  with top [OF s(2)] top [OF assms(1)] show ?thesis by auto
qed

lemma top_push: "inv s xs \<Longrightarrow> length xs < bound \<Longrightarrow> top_of (push_it e s) = val e"
  using top [OF push] by simp

end

lemma stack_new_holds: "stack_holds (antlr3StackNew n) []"
  by (simp add: stack_holds_def antlr3StackNew_def new_holds)

lemma delete_last: "xs \<noteq> [] \<Longrightarrow> delete_at (length xs - 1) xs = butlast xs"
  by (simp add: delete_at_def butlast_conv_take)

lemma stack_pop_holds:
  assumes "stack_holds s xs"
  shows "\<exists>s'. antlr3StackPop s = Inr (if xs = [] then [] else call_free (last xs), stk_top s', s') \<and> stack_holds s' (butlast xs)"
proof -
  have h: "holds (stk_vector s) xs" and b: "length xs < 4294967295" using assms by (simp_all add: stack_holds_def)
  have i: "last_index (stk_vector s) = (if xs = [] then 4294967295 else length xs - 1)"
    using holdsD(1) [OF h] by (auto simp: last_index_def)
  obtain v' where v: "antlr3VectorDel (last_index (stk_vector s)) (stk_vector s) =
      Inr (if xs = [] then [] else call_free (last xs), v')" "holds v' (butlast xs)"
    using del_holds [OF h, of "last_index (stk_vector s)"] i b by (cases "xs = []") (auto simp: delete_last [symmetric] last_conv_nth)
  have i': "last_index v' = (if butlast xs = [] then 4294967295 else length (butlast xs) - 1)"
    using holdsD(1) [OF v(2)] by (cases "butlast xs") (simp_all add: last_index_def del: length_butlast)
  have g: "antlr3VectorGet v' (last_index v') = Inr (if butlast xs = [] then None else en_element (last (butlast xs)))"
  proof (cases "butlast xs = []")
    case True
    with get_holds [OF v(2), of "last_index v'"] i' show ?thesis by simp
  next
    case False
    then have "length (butlast xs) - 1 < length (butlast xs)" by (metis diff_less length_greater_0_conv zero_less_one)
    with False get_holds [OF v(2), of "last_index v'"] i' show ?thesis by (simp add: last_conv_nth del: length_butlast)
  qed
  with v b show ?thesis by (auto simp: antlr3StackPop_def stack_holds_def)
qed

definition pop_only :: "'a stack \<Rightarrow> 'a stack res" where
  "pop_only s = ebind (antlr3StackPop s) (\<lambda>(freed, t, s'). Inr s')"

interpretation stk: stack_of stack_holds "\<lambda>e s. snd (antlr3StackPush e s)" pop_only antlr3StackPeek en_element 4294967294
proof unfold_locales
  fix s :: "'a stack" and xs e
  show "stack_holds (snd (antlr3StackPush e s)) (xs @ [e])" if "stack_holds s xs" "length xs < 4294967294"
    using that add_holds [of "stk_vector s" xs e] by (simp add: stack_holds_def antlr3StackPush_def split_beta)
  show "\<exists>s'. pop_only s = Inr s' \<and> stack_holds s' (butlast xs)" if "stack_holds s xs"
    using stack_pop_holds [OF that] by (auto simp: pop_only_def)
  show "antlr3StackPeek s = (if xs = [] then None else en_element (last xs))" if "stack_holds s xs"
    using that by (simp add: stack_holds_def antlr3StackPeek_def)
qed

text \<open>The stack of follow sets: the lists of the recognizer's model are what the stack holds.\<close>

definition follow_entries :: "parser \<Rightarrow> bitset ventry list" where
  "follow_entries p = map (\<lambda>w. \<lparr>en_element = Some w, en_free = False\<rparr>) (pr_following p)"

lemma follow_stack:
  assumes "stack_holds s (follow_entries p)" "length (pr_following p) < 4294967294"
  shows "stack_holds (snd (antlr3StackPush \<lparr>en_element = Some w, en_free = False\<rparr> s)) (follow_entries (FOLLOWPUSH w p))"
    "\<exists>s'. pop_only s = Inr s' \<and> stack_holds s' (follow_entries (FOLLOWPOP p))"
  using stk.push [OF assms(1)] stk.pop [OF assms(1)] assms(2)
  by (simp_all add: follow_entries_def FOLLOWPUSH_def FOLLOWPOP_def map_butlast)

end
