(* ===== verification/Antlr_Topo.thy ===== *)
theory Antlr_Topo
  imports Antlr_Bitset Antlr_Vector "HOL-Library.Multiset"
begin

text \<open>
  The topological sorter of the ANTLR run time (\<^verbatim>\<open>antlr3collections.c\<close>): nodes are numbers, an edge says that a
  node depends on another one, and the sorter lists every node after those it depends on or reports a cycle. The
  sorted numbers can then be applied to a vector.
\<close>

section \<open>The sorter\<close>

text \<open>
  \<open>tp_sorted\<close> and \<open>tp_cycle\<close> are the parts of the two arrays that are filled, \<^verbatim>\<open>topo->limit\<close> (during the sorting) and
  \<^verbatim>\<open>topo->cycleMark\<close> entries.
\<close>

record topo =
  tp_edges :: "bitset_words option list option"
  tp_limit :: nat
  tp_visited :: bitset_words
  tp_sorted :: "nat list"
  tp_cycle :: "nat list"
  tp_hasCycle :: bool

definition antlr3TopoNew :: topo where
  "antlr3TopoNew = \<lparr>tp_edges = None, tp_limit = 1, tp_visited = [], tp_sorted = [], tp_cycle = [], tp_hasCycle = False\<rparr>"

text \<open>
  The number of entries is a 32 bit number: for the node \<open>2 ^ 32 - 1\<close> it wraps around to 0, and the code then
  clears or reads entries behind the array.
\<close>

definition addEdge :: "nat \<Rightarrow> nat \<Rightarrow> topo \<Rightarrow> topo res" where
  "addEdge edge dependency tp =
     (let maxEdge = (if dependency < edge then edge else dependency);
          room = u32n (maxEdge + 1);
          resized = (case tp_edges tp of
              None \<Rightarrow> Inr (replicate room None, room)
            | Some es \<Rightarrow>
                if tp_limit tp \<le> maxEdge
                then
                  if room \<le> maxEdge then Inl Bad_Index
                  else Inr (take (tp_limit tp) es @ replicate (room - tp_limit tp) None, room)
                else Inr (es, tp_limit tp))
      in ebind resized (\<lambda>(es, limit).
           if edge = dependency then Inr (tp\<lparr>tp_edges := Some es, tp_limit := limit\<rparr>)
           else if length es \<le> edge then Inl Bad_Index
           else
             let es' = es[edge := Some (bitset_add dependency (case es ! edge of None \<Rightarrow> antlr3BitsetNew 0 | Some b \<Rightarrow> b))]
             in Inr (tp\<lparr>tp_edges := Some es', tp_limit := limit\<rparr>)))"

text \<open>The search for a node in the stack of nodes being visited; it goes on after the stack has been cut.\<close>

function search_cycle :: "nat \<Rightarrow> nat \<Rightarrow> topo \<Rightarrow> topo" where
  "search_cycle i node tp =
     (if i < length (tp_cycle tp) then
        search_cycle (i + 1) node
          (if tp_cycle tp ! i = node then tp\<lparr>tp_cycle := drop i (tp_cycle tp), tp_hasCycle := True\<rparr> else tp)
      else tp)"
  by pat_completeness auto
termination by (relation "measure (\<lambda>(i, node, tp). length (tp_cycle tp) - i)") auto

declare search_cycle.simps [simp del]

text \<open>The loop over the bits of an edge set, with the number of those that are still to come.\<close>

fun visit_edges :: "(nat \<Rightarrow> 's \<Rightarrow> 's option) \<Rightarrow> bitset_words \<Rightarrow> nat list \<Rightarrow> nat \<Rightarrow> 's \<Rightarrow> 's option" where
  "visit_edges f edges [] left s = Some s"
| "visit_edges f edges (i # is) left s =
     (if 0 < left then
        if bitset_isMember edges i then Option.bind (f i s) (\<lambda>s'. visit_edges f edges is (left - 1) s')
        else visit_edges f edges is left s
      else Some s)"

lemma visit_edges_mono [partial_function_mono]:
  assumes "\<And>i s. mono_option (\<lambda>f. C i s f)"
  shows "mono_option (\<lambda>f. visit_edges (\<lambda>i s. C i s f) edges is left s)"
proof (induction "is" arbitrary: left s)
  case Nil
  show ?case by (simp add: option.const_mono)
next
  case (Cons i "is")
  have "mono_option (\<lambda>f. Option.bind (C i s f) (\<lambda>s'. visit_edges (\<lambda>i s. C i s f) edges is (left - 1) s'))"
    by (intro bind_mono assms Cons.IH)
  with Cons.IH show ?case
    by (cases "0 < left"; cases "bitset_isMember edges i") (simp_all add: option.const_mono del: One_nat_def)
qed

partial_function (option) DFS :: "bitset_words option list \<Rightarrow> nat \<Rightarrow> topo \<Rightarrow> topo option" where
  "DFS es node tp =
     (if tp_hasCycle tp then Some tp
      else if bitset_isMember (tp_visited tp) node then Some (search_cycle 0 node tp)
      else
        let tp1 = tp\<lparr>tp_cycle := tp_cycle tp @ [node], tp_visited := bitset_add node (tp_visited tp)\<rparr> in
        Option.bind
          (case es ! node of
             None \<Rightarrow> Some tp1
           | Some edges \<Rightarrow> visit_edges (DFS es) edges [0..<Suc (bitset_numBits edges)] (bitset_size edges) tp1)
          (\<lambda>tp2.
             let tp3 = tp2\<lparr>tp_sorted := tp_sorted tp2 @ [node]\<rparr>
             in Some (if tp_hasCycle tp3 then tp3 else tp3\<lparr>tp_cycle := butlast (tp_cycle tp3)\<rparr>)))"

fun sort_nodes :: "bitset_words option list \<Rightarrow> nat list \<Rightarrow> topo \<Rightarrow> topo option" where
  "sort_nodes es [] tp = Some tp"
| "sort_nodes es (v # vs) tp =
     Option.bind (if \<not> bitset_isMember (tp_visited tp) v then DFS es v tp else Some tp)
       (\<lambda>tp'. if tp_hasCycle tp' then Some tp' else sort_nodes es vs tp')"

text \<open>\<^verbatim>\<open>sortToArray\<close>: the array, \<open>None\<close> for a null pointer, and the sorter.\<close>

definition sortToArray :: "topo \<Rightarrow> (nat list option \<times> topo) option" where
  "sortToArray tp =
     (case tp_edges tp of
        None \<Rightarrow> Some (None, tp)
      | Some es \<Rightarrow>
          map_option (\<lambda>tp'. (Some (tp_sorted tp'), tp'))
            (sort_nodes es [0..<tp_limit tp] (tp\<lparr>tp_sorted := [], tp_visited := antlr3BitsetNew 0\<rparr>)))"

section \<open>Dependencies, orders and cycles\<close>

definition deps :: "bitset_words option list \<Rightarrow> nat \<Rightarrow> nat set" where
  "deps es n = (if n < length es then case es ! n of None \<Rightarrow> {} | Some b \<Rightarrow> elems b else {})"

text \<open>Every dependency is a node, and the arrays are so short that the numbers of their bits do not wrap around.\<close>

definition short_sets :: "bitset_words option list \<Rightarrow> bool" where
  "short_sets es \<longleftrightarrow> (\<forall>b. Some b \<in> set es \<longrightarrow> length b < 2 ^ 26)"

definition wf_edges :: "bitset_words option list \<Rightarrow> bool" where
  "wf_edges es \<longleftrightarrow> (\<forall>n. deps es n \<subseteq> {..<length es}) \<and> short_sets es"

text \<open>Every node comes after those it depends on.\<close>

definition in_order :: "bitset_words option list \<Rightarrow> nat list \<Rightarrow> bool" where
  "in_order es xs \<longleftrightarrow> (\<forall>i < length xs. deps es (xs ! i) \<subseteq> set (take i xs))"

definition chain :: "bitset_words option list \<Rightarrow> nat list \<Rightarrow> bool" where
  "chain es c \<longleftrightarrow> (\<forall>i. Suc i < length c \<longrightarrow> c ! Suc i \<in> deps es (c ! i))"

definition is_cycle :: "bitset_words option list \<Rightarrow> nat list \<Rightarrow> bool" where
  "is_cycle es c \<longleftrightarrow> c \<noteq> [] \<and> chain es c \<and> hd c \<in> deps es (last c)"

lemma in_order_snoc: "in_order es xs \<Longrightarrow> deps es n \<subseteq> set xs \<Longrightarrow> in_order es (xs @ [n])"
  by (auto simp: in_order_def less_Suc_eq nth_append)

lemma chain_snoc:
  assumes "chain es c" "c = [] \<or> n \<in> deps es (last c)"
  shows "chain es (c @ [n])"
proof -
  have "(c @ [n]) ! Suc i \<in> deps es ((c @ [n]) ! i)" if "Suc i < length (c @ [n])" for i
  proof (cases "Suc i < length c")
    case True
    with assms(1) show ?thesis by (simp add: chain_def nth_append)
  next
    case False
    with that have "Suc i = length c" by simp
    then have "c \<noteq> []" "i = length c - 1" by auto
    then have "c ! i = last c" by (simp add: last_conv_nth)
    with assms(2) \<open>Suc i = length c\<close> \<open>c \<noteq> []\<close> show ?thesis by (simp add: nth_append)
  qed
  then show ?thesis by (simp add: chain_def)
qed

lemma chain_drop: "chain es c \<Longrightarrow> chain es (drop i c)"
  by (simp add: chain_def)

section \<open>The search\<close>

text \<open>A state in which no cycle has been found: what has been visited is listed or on the way.\<close>

definition searching :: "bitset_words option list \<Rightarrow> topo \<Rightarrow> bool" where
  "searching es tp \<longleftrightarrow> \<not> tp_hasCycle tp \<and> distinct (tp_sorted tp @ tp_cycle tp) \<and>
     elems (tp_visited tp) = set (tp_sorted tp) \<union> set (tp_cycle tp) \<and> elems (tp_visited tp) \<subseteq> {..<length es} \<and>
     in_order es (tp_sorted tp) \<and> chain es (tp_cycle tp)"

definition went_well :: "bitset_words option list \<Rightarrow> topo \<Rightarrow> topo \<Rightarrow> bool" where
  "went_well es tp tp' \<longleftrightarrow> searching es tp' \<and> tp_cycle tp' = tp_cycle tp \<and> set (tp_sorted tp) \<subseteq> set (tp_sorted tp')"

definition found_cycle :: "bitset_words option list \<Rightarrow> topo \<Rightarrow> topo \<Rightarrow> bool" where
  "found_cycle es tp tp' \<longleftrightarrow> tp_hasCycle tp' \<and> is_cycle es (tp_cycle tp') \<and> distinct (tp_sorted tp') \<and>
     elems (tp_visited tp) \<subseteq> elems (tp_visited tp') \<and> elems (tp_visited tp') \<subseteq> {..<length es} \<and>
     set (tp_sorted tp') \<subseteq> set (tp_sorted tp) \<union> (elems (tp_visited tp') - elems (tp_visited tp))"

lemma went_well_refl: "searching es tp \<Longrightarrow> went_well es tp tp"
  by (simp add: went_well_def)

lemma went_well_trans: "went_well es s t \<Longrightarrow> went_well es t u \<Longrightarrow> went_well es s u"
  by (auto simp: went_well_def)

lemma went_well_found:
  assumes "searching es s" "went_well es s t" "found_cycle es t u"
  shows "found_cycle es s u"
  using assms by (auto simp: searching_def went_well_def found_cycle_def)

lemma search_cycle_other: "node \<notin> set (drop i (tp_cycle tp)) \<Longrightarrow> search_cycle i node tp = tp"
proof (induction i node tp rule: search_cycle.induct)
  case (1 i node tp)
  show ?case
  proof (cases "i < length (tp_cycle tp)")
    case True
    then have "drop i (tp_cycle tp) = tp_cycle tp ! i # drop (i + 1) (tp_cycle tp)" by (simp add: Cons_nth_drop_Suc)
    with 1 True show ?thesis by (subst search_cycle.simps) auto
  qed (subst search_cycle.simps, simp)
qed

lemma search_cycle_found:
  assumes "distinct (tp_cycle tp)" "j < length (tp_cycle tp)" "tp_cycle tp ! j = node" "i \<le> j"
  shows "search_cycle i node tp = tp\<lparr>tp_cycle := drop j (tp_cycle tp), tp_hasCycle := True\<rparr>"
  using assms
proof (induction i node tp rule: search_cycle.induct)
  case (1 i node tp)
  show ?case
  proof (cases "i = j")
    case True
    have "node \<notin> set (drop (i + 1) (drop i (tp_cycle tp)))"
      using 1(2-4) True by (auto simp: in_set_conv_nth nth_eq_iff_index_eq)
    with 1(3,4) True show ?thesis by (subst search_cycle.simps) (simp add: search_cycle_other)
  next
    case False
    with 1(2-5) have "tp_cycle tp ! i \<noteq> node" by (auto simp: nth_eq_iff_index_eq)
    with 1 False show ?thesis by (subst search_cycle.simps) simp
  qed
qed

lemma DFS_stopped: "tp_hasCycle tp \<Longrightarrow> DFS es node tp = Some tp"
  by (simp add: DFS.simps)

lemma visit_edges_stopped: "tp_hasCycle tp \<Longrightarrow> visit_edges (DFS es) b is left tp = Some tp"
  by (induction "is" arbitrary: left) (simp_all add: DFS_stopped)

text \<open>A node that has been visited: it is listed, or it closes a cycle.\<close>

lemma visited_node:
  assumes "searching es tp" "node \<in> elems (tp_visited tp)" "tp_cycle tp = [] \<or> node \<in> deps es (last (tp_cycle tp))"
  shows "(went_well es tp (search_cycle 0 node tp) \<and> node \<in> set (tp_sorted (search_cycle 0 node tp))) \<or>
    found_cycle es tp (search_cycle 0 node tp)"
proof (cases "node \<in> set (tp_cycle tp)")
  case True
  then obtain j where j: "j < length (tp_cycle tp)" "tp_cycle tp ! j = node" by (auto simp: in_set_conv_nth)
  have c: "chain es (tp_cycle tp)" "distinct (tp_cycle tp)" using assms(1) by (auto simp: searching_def)
  from True assms(3) have "node \<in> deps es (last (tp_cycle tp))" by auto
  with j c(1) have "is_cycle es (drop j (tp_cycle tp))"
    by (auto simp: is_cycle_def chain_drop hd_drop_conv_nth last_drop)
  with search_cycle_found [OF c(2) j, of 0] assms(1) show ?thesis by (auto simp: found_cycle_def searching_def)
next
  case False
  then have "search_cycle 0 node tp = tp" by (simp add: search_cycle_other)
  with False assms show ?thesis by (auto simp: went_well_refl searching_def)
qed

text \<open>What the search from a node does, to be shown by induction on the number of nodes not visited.\<close>

definition searches :: "bitset_words option list \<Rightarrow> nat \<Rightarrow> topo \<Rightarrow> bool" where
  "searches es node tp \<longleftrightarrow>
     (\<exists>tp'. DFS es node tp = Some tp' \<and> ((went_well es tp tp' \<and> node \<in> set (tp_sorted tp')) \<or> found_cycle es tp tp'))"

lemma visit_edges_search:
  assumes "\<And>i s. i \<in> elems b \<Longrightarrow> searching es s \<Longrightarrow> tp_cycle s = c \<Longrightarrow> A \<subseteq> elems (tp_visited s) \<Longrightarrow> searches es i s"
    "searching es s" "tp_cycle s = c" "A \<subseteq> elems (tp_visited s)" "distinct is" "left = card (elems b \<inter> set is)"
  shows "\<exists>s'. visit_edges (DFS es) b is left s = Some s' \<and>
    ((went_well es s s' \<and> elems b \<inter> set is \<subseteq> set (tp_sorted s')) \<or> found_cycle es s s')"
  using assms(2-)
proof (induction "is" arbitrary: s left)
  case (Cons i "is")
  show ?case
  proof (cases "i \<in> elems b")
    case False
    with Cons.prems have e: "elems b \<inter> set (i # is) = elems b \<inter> set is" by auto
    show ?thesis
    proof (cases "left = 0")
      case True
      with Cons.prems(5) have "elems b \<inter> set (i # is) = {}" by simp
      with True Cons.prems(1) show ?thesis by (auto simp: went_well_refl)
    next
      case left: False
      with Cons.IH [OF Cons.prems(1-3), of left] Cons.prems(4,5) e False show ?thesis by simp
    qed
  next
    case True
    then have l: "0 < left" "left - 1 = card (elems b \<inter> set is)" using Cons.prems(4,5) by auto
    obtain s1 where s1: "DFS es i s = Some s1"
      "(went_well es s s1 \<and> i \<in> set (tp_sorted s1)) \<or> found_cycle es s s1"
      using assms(1) [OF True Cons.prems(1-3)] by (auto simp: searches_def)
    from s1(2) show ?thesis
    proof
      assume w: "went_well es s s1 \<and> i \<in> set (tp_sorted s1)"
      then have "A \<subseteq> elems (tp_visited s1)" using Cons.prems(1,3) by (auto simp: went_well_def searching_def)
      then obtain s' where s': "visit_edges (DFS es) b is (left - 1) s1 = Some s'"
        "(went_well es s1 s' \<and> elems b \<inter> set is \<subseteq> set (tp_sorted s')) \<or> found_cycle es s1 s'"
        using Cons.IH [of s1 "left - 1"] w Cons.prems(2,4) l(2) by (auto simp: went_well_def)
      have "(went_well es s s' \<and> elems b \<inter> set (i # is) \<subseteq> set (tp_sorted s')) \<or> found_cycle es s s'"
        using s'(2) w went_well_trans [of es s s1 s'] went_well_found [OF Cons.prems(1), of s1 s'] by (auto simp: went_well_def)
      with s1(1) s'(1) True l(1) show ?thesis by auto
    next
      assume f: "found_cycle es s s1"
      then have "visit_edges (DFS es) b is (left - 1) s1 = Some s1" by (simp add: visit_edges_stopped found_cycle_def)
      with s1(1) f True l(1) show ?thesis by simp
    qed
  qed
qed (simp add: went_well_refl)

lemma DFS_searches:
  assumes "wf_edges es" "searching es tp" "node < length es" "tp_cycle tp = [] \<or> node \<in> deps es (last (tp_cycle tp))"
  shows "searches es node tp"
  using assms(2-)
proof (induction "card ({..<length es} - elems (tp_visited tp))" arbitrary: node tp rule: less_induct)
  case less
  show ?case
  proof (cases "node \<in> elems (tp_visited tp)")
    case True
    with visited_node [OF less.prems(1) True less.prems(3)] less.prems(1) show ?thesis
      by (simp add: searches_def DFS.simps searching_def)
  next
    case False
    define tp1 where "tp1 = tp\<lparr>tp_cycle := tp_cycle tp @ [node], tp_visited := bitset_add node (tp_visited tp)\<rparr>"
    define c where "c = tp_cycle tp @ [node]"
    have s1: "searching es tp1" "tp_cycle tp1 = c" "elems (tp_visited tp1) = insert node (elems (tp_visited tp))"
      using less.prems False by (auto simp: tp1_def c_def searching_def intro: chain_snoc)
    have fewer: "searches es i s" if "i \<in> deps es node" "searching es s" "tp_cycle s = c" "elems (tp_visited tp1) \<subseteq> elems (tp_visited s)" for i s
    proof (rule less.hyps)
      have "{..<length es} - elems (tp_visited s) \<subset> {..<length es} - elems (tp_visited tp)"
        using that(4) s1(3) False less.prems(2) by auto
      then show "card ({..<length es} - elems (tp_visited s)) < card ({..<length es} - elems (tp_visited tp))"
        by (intro psubset_card_mono) auto
    qed (use that assms(1) in \<open>auto simp: c_def wf_edges_def\<close>)
    obtain tp2 where tp2: "(case es ! node of None \<Rightarrow> Some tp1
        | Some edges \<Rightarrow> visit_edges (DFS es) edges [0..<Suc (bitset_numBits edges)] (bitset_size edges) tp1) = Some tp2"
      "(went_well es tp1 tp2 \<and> deps es node \<subseteq> set (tp_sorted tp2)) \<or> found_cycle es tp1 tp2"
    proof (cases "es ! node")
      case None
      with s1(1) less.prems(2) show ?thesis by (intro that [of tp1]) (simp_all add: went_well_refl deps_def)
    next
      case (Some b)
      then have d: "deps es node = elems b" using less.prems(2) by (simp add: deps_def)
      have sh: "length b < 2 ^ 26"
        using assms(1) Some less.prems(2) nth_mem [of node es] by (auto simp: wf_edges_def short_sets_def)
      define js where "js = [0..<Suc (bitset_numBits b)]"
      have js: "elems b \<inter> set js = elems b" "distinct js" using elems_bound [OF _ sh] by (auto simp: js_def)
      have "\<exists>s'. visit_edges (DFS es) b js (bitset_size b) tp1 = Some s' \<and>
          ((went_well es tp1 s' \<and> elems b \<inter> set js \<subseteq> set (tp_sorted s')) \<or> found_cycle es tp1 s')"
        by (rule visit_edges_search [OF fewer s1(1,2) order_refl js(2)]) (simp_all add: d js(1) bitset_size_card [OF sh])
      then obtain s' where "visit_edges (DFS es) b js (bitset_size b) tp1 = Some s'"
        "(went_well es tp1 s' \<and> elems b \<subseteq> set (tp_sorted s')) \<or> found_cycle es tp1 s'"
        unfolding js(1) by blast
      then show ?thesis by (intro that [of s']) (simp_all add: Some d js_def del: upt_Suc)
    qed
    define tp3 where "tp3 = tp2\<lparr>tp_sorted := tp_sorted tp2 @ [node]\<rparr>"
    have D: "DFS es node tp = Some (if tp_hasCycle tp3 then tp3 else tp3\<lparr>tp_cycle := butlast (tp_cycle tp3)\<rparr>)"
      using less.prems(1) False tp2(1)
      by (subst DFS.simps) (simp add: searching_def tp3_def tp1_def [symmetric] Let_def del: upt_Suc)
    from tp2(2) show ?thesis
    proof
      assume w: "went_well es tp1 tp2 \<and> deps es node \<subseteq> set (tp_sorted tp2)"
      let ?t = "tp3\<lparr>tp_cycle := butlast (tp_cycle tp3)\<rparr>"
      have c2: "tp_cycle tp2 = tp_cycle tp @ [node]" "searching es tp2" "set (tp_sorted tp) \<subseteq> set (tp_sorted tp2)"
        using w s1(2) by (simp_all add: went_well_def c_def tp1_def)
      have "chain es (tp_cycle tp)" using less.prems(1) by (simp add: searching_def)
      with c2 w have "searching es ?t" by (auto simp: searching_def tp3_def intro!: in_order_snoc)
      with c2 have "went_well es tp ?t" by (auto simp: went_well_def tp3_def)
      moreover have "\<not> tp_hasCycle tp3" using w by (simp add: went_well_def searching_def tp3_def)
      ultimately show ?thesis using D by (simp add: searches_def tp3_def)
    next
      assume f: "found_cycle es tp1 tp2"
      have "node \<notin> set (tp_sorted tp1)" using False less.prems(1) by (auto simp: tp1_def searching_def)
      with f s1(3) False have "found_cycle es tp tp3" by (auto simp: found_cycle_def tp3_def tp1_def)
      with D show ?thesis by (auto simp: searches_def found_cycle_def)
    qed
  qed
qed

lemma sort_nodes_search:
  assumes "wf_edges es" "searching es tp" "tp_cycle tp = []" "set vs \<subseteq> {..<length es}"
  shows "\<exists>tp'. sort_nodes es vs tp = Some tp' \<and> ((went_well es tp tp' \<and> set vs \<subseteq> set (tp_sorted tp')) \<or> found_cycle es tp tp')"
  using assms(2-)
proof (induction vs arbitrary: tp)
  case (Cons v vs)
  have h: "\<not> tp_hasCycle tp" using Cons.prems(1) by (simp add: searching_def)
  obtain tp1 where tp1: "(if \<not> bitset_isMember (tp_visited tp) v then DFS es v tp else Some tp) = Some tp1"
    "(went_well es tp tp1 \<and> v \<in> set (tp_sorted tp1)) \<or> found_cycle es tp tp1"
  proof (cases "v \<in> elems (tp_visited tp)")
    case True
    with Cons.prems(1,2) show ?thesis by (intro that [of tp]) (auto simp: went_well_refl searching_def)
  next
    case False
    with DFS_searches [OF assms(1) Cons.prems(1), of v] Cons.prems(2,3) show ?thesis by (auto simp: searches_def intro: that)
  qed
  from tp1(2) show ?case
  proof
    assume w: "went_well es tp tp1 \<and> v \<in> set (tp_sorted tp1)"
    then obtain tp' where "sort_nodes es vs tp1 = Some tp'"
      "(went_well es tp1 tp' \<and> set vs \<subseteq> set (tp_sorted tp')) \<or> found_cycle es tp1 tp'"
      using Cons.IH [of tp1] Cons.prems(2,3) by (auto simp: went_well_def)
    moreover have "\<not> tp_hasCycle tp1" using w by (simp add: went_well_def searching_def)
    ultimately show ?thesis
      using tp1(1) w went_well_trans [of es tp tp1 tp'] went_well_found [OF Cons.prems(1), of tp1 tp'] by (auto simp: went_well_def)
  next
    assume "found_cycle es tp tp1"
    with tp1(1) show ?thesis by (auto simp: found_cycle_def)
  qed
qed (simp add: went_well_refl)

section \<open>The edges\<close>

text \<open>The sorter that has been given the edges \<open>ds\<close>, each a node and one it depends on.\<close>

definition sorter :: "(nat \<times> nat) list \<Rightarrow> topo res" where
  "sorter ds = fold (\<lambda>(e, d) r. ebind r (addEdge e d)) ds (Inr antlr3TopoNew)"

definition numbered :: "(nat \<times> nat) list \<Rightarrow> bool" where
  "numbered ds \<longleftrightarrow> (\<forall>(e, d) \<in> set ds. e < 2 ^ 31 \<and> d < 2 ^ 31)"

definition knows :: "(nat \<times> nat) list \<Rightarrow> topo \<Rightarrow> bool" where
  "knows ds tp \<longleftrightarrow> \<not> tp_hasCycle tp \<and> tp_cycle tp = [] \<and>
     (if ds = [] then tp_edges tp = None
      else \<exists>es. tp_edges tp = Some es \<and> tp_limit tp = length es \<and> short_sets es \<and>
        length es = Suc (Max (set (map fst ds @ map snd ds))) \<and> (\<forall>n. deps es n = {d. (n, d) \<in> set ds \<and> d \<noteq> n}))"

text \<open>A set of numbers below \<open>2 ^ 31\<close> stays short: it is only doubled if the number is behind its end.\<close>

lemma bitset_add_short: "n < 2 ^ 31 \<Longrightarrow> length b < 2 ^ 26 \<Longrightarrow> length (bitset_add n b) < 2 ^ 26"
  by (auto simp: bitset_add_def wordNumber_def length_growToInclude Let_def)

lemma new_short: "length (antlr3BitsetNew 0) < 2 ^ 26"
  by (simp add: antlr3BitsetNew_def)

lemma short_append_None: "short_sets (es @ replicate k None) = short_sets es"
  by (auto simp: short_sets_def)

lemma short_update:
  assumes "short_sets es" "e < length es" "d < 2 ^ 31"
  shows "short_sets (es[e := Some (bitset_add d (case es ! e of None \<Rightarrow> antlr3BitsetNew 0 | Some b \<Rightarrow> b))])"
proof -
  have "length (case es ! e of None \<Rightarrow> antlr3BitsetNew 0 | Some b \<Rightarrow> b) < 2 ^ 26"
  proof (cases "es ! e")
    case (Some b)
    with assms(1,2) nth_mem [of e es] show ?thesis by (auto simp: short_sets_def)
  qed (use new_short in simp)
  from bitset_add_short [OF assms(3) this] show ?thesis
    using assms(1) set_update_subset_insert [of es e] by (fastforce simp: short_sets_def)
qed

lemma deps_append_None: "deps (es @ replicate k None) n = deps es n"
  by (auto simp: deps_def nth_append split: option.splits)

lemma deps_replicate_None: "deps (replicate k None) n = {}"
  using deps_append_None [of "[]" k n] by (simp add: deps_def)

lemma deps_update:
  "e < length es \<Longrightarrow> deps (es[e := Some (bitset_add d (case es ! e of None \<Rightarrow> antlr3BitsetNew 0 | Some b \<Rightarrow> b))]) n =
    (if n = e then insert d (deps es e) else deps es n)"
  by (auto simp: deps_def nth_list_update split: option.splits)

lemma addEdge_knows:
  assumes "knows ds tp" "e < 2 ^ 31" "d < 2 ^ 31"
  shows "\<exists>tp'. addEdge e d tp = Inr tp' \<and> knows (ds @ [(e, d)]) tp'"
proof -
  define m where "m = (if d < e then e else d)"
  have m: "e \<le> m" "d \<le> m" "m = max e d" "m < 2 ^ 31" using assms(2,3) by (auto simp: m_def)
  then have room: "u32n (m + 1) = m + 1" by simp
  define es0 where "es0 = (case tp_edges tp of None \<Rightarrow> [] | Some es \<Rightarrow> es)"
  define es1 where "es1 = es0 @ replicate (Suc m - length es0) None"
  have ds: "length es0 = (if ds = [] then 0 else Suc (Max (set (map fst ds @ map snd ds))))" "short_sets es0"
    "deps es0 n = {k. (n, k) \<in> set ds \<and> k \<noteq> n}" for n
    using assms(1) by (auto simp: knows_def es0_def deps_def short_sets_def split: if_splits)
  have l: "length es1 = Suc (Max (set (map fst (ds @ [(e, d)]) @ map snd (ds @ [(e, d)]))))"
  proof (cases "ds = []")
    case False
    have "set (map fst (ds @ [(e, d)]) @ map snd (ds @ [(e, d)])) = insert e (insert d (set (map fst ds @ map snd ds)))" by auto
    moreover have "Max (insert e (insert d (set (map fst ds @ map snd ds)))) = max e (max d (Max (set (map fst ds @ map snd ds))))"
      using False by simp
    ultimately show ?thesis using False ds(1) m(3) by (simp add: es1_def)
  qed (use ds(1) m(3) in \<open>simp add: es1_def\<close>)
  have r: "(case tp_edges tp of
      None \<Rightarrow> Inr (replicate (m + 1) None, m + 1)
    | Some es \<Rightarrow>
        if tp_limit tp \<le> m then
          if m + 1 \<le> m then Inl Bad_Index
          else Inr (take (tp_limit tp) es @ replicate (m + 1 - tp_limit tp) None, m + 1)
        else Inr (es, tp_limit tp)) = (Inr (es1, length es1) :: (bitset_words option list \<times> nat) res)"
    using assms(1) by (auto simp: knows_def es1_def es0_def split: if_splits)
  have e: "e < length es1" using m(1) by (simp add: es1_def)
  define es2 where "es2 = (if e = d then es1
      else es1[e := Some (bitset_add d (case es1 ! e of None \<Rightarrow> antlr3BitsetNew 0 | Some b \<Rightarrow> b))])"
  have a: "addEdge e d tp = Inr (tp\<lparr>tp_edges := Some es2, tp_limit := length es1\<rparr>)"
    unfolding addEdge_def Let_def m_def [symmetric] room r using e by (simp add: es2_def)
  have "deps es1 n = {k. (n, k) \<in> set ds \<and> k \<noteq> n}" for n using ds(3) by (simp add: es1_def deps_append_None)
  then have "deps es2 n = {k. (n, k) \<in> set (ds @ [(e, d)]) \<and> k \<noteq> n}" for n
    using e by (auto simp: es2_def deps_update)
  moreover have "short_sets es1" using ds(2) by (simp add: es1_def short_append_None)
  then have "short_sets es2" using short_update [OF _ e assms(3)] by (simp add: es2_def)
  moreover have "length es2 = length es1" by (simp add: es2_def)
  ultimately show ?thesis using a l assms(1) by (simp add: knows_def split: if_splits)
qed

lemma sorter_knows: "numbered ds \<Longrightarrow> \<exists>tp. sorter ds = Inr tp \<and> knows ds tp"
proof (induction ds rule: rev_induct)
  case Nil
  show ?case by (simp add: knows_def sorter_def antlr3TopoNew_def)
next
  case (snoc x ds)
  then obtain tp where "sorter ds = Inr tp" "knows ds tp" by (auto simp: numbered_def)
  with addEdge_knows [of ds tp "fst x" "snd x"] snoc.prems show ?case by (simp add: sorter_def split_beta numbered_def)
qed

section \<open>The result\<close>

definition before :: "nat list \<Rightarrow> nat \<Rightarrow> nat \<Rightarrow> bool" where
  "before xs a b \<longleftrightarrow> (\<exists>i j. i < j \<and> j < length xs \<and> xs ! i = a \<and> xs ! j = b)"

definition nodes :: "(nat \<times> nat) list \<Rightarrow> nat set" where
  "nodes ds = {..Max (set (map fst ds @ map snd ds))}"

lemma in_order_before:
  assumes "in_order es xs" "e \<in> set xs" "d \<in> deps es e"
  shows "before xs d e"
proof -
  obtain j where j: "j < length xs" "xs ! j = e" using assms(2) by (auto simp: in_set_conv_nth)
  with assms(1,3) have "d \<in> set (take j xs)" by (auto simp: in_order_def)
  then obtain i where "i < j" "xs ! i = d" by (auto simp: in_set_conv_nth)
  with j show ?thesis by (auto simp: before_def)
qed

lemma ordered_acyclic:
  assumes "distinct xs" "\<And>e d. (e, d) \<in> R \<Longrightarrow> before xs d e"
  shows "acyclic R"
proof -
  define pos where "pos x = (THE i. i < length xs \<and> xs ! i = x)" for x
  have pos: "pos (xs ! i) = i" if "i < length xs" for i
    using assms(1) that by (auto simp: pos_def nth_eq_iff_index_eq intro!: the_equality)
  have "R \<subseteq> (measure pos)\<inverse>"
  proof
    fix x assume "x \<in> R"
    obtain e d where x: "x = (e, d)" by (cases x)
    with \<open>x \<in> R\<close> assms(2) [of e d] obtain i j where "x = (e, d)" "i < j" "j < length xs" "xs ! i = d" "xs ! j = e"
      by (auto simp: before_def)
    with pos [of i] pos [of j] show "x \<in> (measure pos)\<inverse>" by auto
  qed
  then show ?thesis by (rule acyclic_subset [rotated]) (simp add: acyclic_converse wf_acyclic)
qed

lemma cycle_not_acyclic:
  assumes "c \<noteq> []" "\<And>i. Suc i < length c \<Longrightarrow> (c ! i, c ! Suc i) \<in> R" "(last c, hd c) \<in> R"
  shows "\<not> acyclic R"
proof -
  have "i < length c \<Longrightarrow> (hd c, c ! i) \<in> R\<^sup>*" for i
  proof (induction i)
    case 0
    then show ?case by (simp add: hd_conv_nth)
  next
    case (Suc i)
    with assms(2) [of i] show ?case by (meson Suc_lessD rtrancl.rtrancl_into_rtrancl)
  qed
  from this [of "length c - 1"] assms(1) have "(hd c, last c) \<in> R\<^sup>*" by (simp add: last_conv_nth)
  from this assms(3) have "(hd c, hd c) \<in> R\<^sup>+" by (rule rtrancl_into_trancl1)
  then show ?thesis by (auto simp: acyclic_def)
qed

lemma sort_nodes_limit:
  assumes "\<And>v tp tp'. DFS es v tp = Some tp' \<Longrightarrow> tp_limit tp' = tp_limit tp" "sort_nodes es vs tp = Some tp'"
  shows "tp_limit tp' = tp_limit tp"
  using assms(2)
  by (induction vs arbitrary: tp) (auto simp: bind_eq_Some_conv dest: assms(1) split: if_splits)

lemma search_cycle_limit: "tp_limit (search_cycle i node tp) = tp_limit tp"
  by (induction i node tp rule: search_cycle.induct) (subst search_cycle.simps, auto)

lemma DFS_limit:
  assumes "DFS es v tp = Some tp'"
  shows "tp_limit tp' = tp_limit tp"
proof (rule DFS.raw_induct [of "\<lambda>es v tp tp'. tp_limit tp' = tp_limit tp", OF _ assms])
  fix dfs :: "bitset_words option list \<Rightarrow> nat \<Rightarrow> topo \<Rightarrow> topo option" and es node tp tp'
  let ?f = "dfs es"
  assume step: "\<And>es v s s'. dfs es v s = Some s' \<Longrightarrow> tp_limit s' = tp_limit s"
    "(if tp_hasCycle tp then Some tp
      else if bitset_isMember (tp_visited tp) node then Some (search_cycle 0 node tp)
      else
        let tp1 = tp\<lparr>tp_cycle := tp_cycle tp @ [node], tp_visited := bitset_add node (tp_visited tp)\<rparr> in
        Option.bind
          (case es ! node of
             None \<Rightarrow> Some tp1
           | Some edges \<Rightarrow> visit_edges (dfs es) edges [0..<Suc (bitset_numBits edges)] (bitset_size edges) tp1)
          (\<lambda>tp2.
             let tp3 = tp2\<lparr>tp_sorted := tp_sorted tp2 @ [node]\<rparr>
             in Some (if tp_hasCycle tp3 then tp3 else tp3\<lparr>tp_cycle := butlast (tp_cycle tp3)\<rparr>))) = Some tp'"
  have IH: "?f v s = Some s' \<Longrightarrow> tp_limit s' = tp_limit s" for v s s' by (rule step(1))
  have l: "visit_edges ?f b is n s = Some s' \<Longrightarrow> tp_limit s' = tp_limit s" for b "is" n s s'
    by (induction "is" arbitrary: n s) (auto simp: bind_eq_Some_conv dest!: IH split: if_splits)
  from step(2) show "tp_limit tp' = tp_limit tp"
    by (auto simp: Let_def bind_eq_Some_conv search_cycle_limit split: if_splits option.splits dest!: l)
qed

lemma sort_result:
  assumes "ds \<noteq> []" "numbered ds"
  shows "\<exists>tp0 tp. sorter ds = Inr tp0 \<and> sortToArray tp0 = Some (Some (tp_sorted tp), tp) \<and> tp_limit tp = Suc (Max (set (map fst ds @ map snd ds))) \<and>
    distinct (tp_sorted tp) \<and> set (tp_sorted tp) \<subseteq> nodes ds \<and>
    (if acyclic (set ds - Id)
     then \<not> tp_hasCycle tp \<and> set (tp_sorted tp) = nodes ds \<and> (\<forall>(e, d) \<in> set ds. e \<noteq> d \<longrightarrow> before (tp_sorted tp) d e)
     else tp_hasCycle tp \<and> tp_cycle tp \<noteq> [] \<and> (last (tp_cycle tp), hd (tp_cycle tp)) \<in> set ds - Id \<and>
       (\<forall>i. Suc i < length (tp_cycle tp) \<longrightarrow> (tp_cycle tp ! i, tp_cycle tp ! Suc i) \<in> set ds - Id))"
proof -
  obtain tp0 where k: "sorter ds = Inr tp0" "knows ds tp0" using sorter_knows [OF assms(2)] by blast
  with assms(1) obtain es where es: "tp_edges tp0 = Some es" "tp_limit tp0 = length es"
    "length es = Suc (Max (set (map fst ds @ map snd ds)))" "\<And>n. deps es n = {d. (n, d) \<in> set ds \<and> d \<noteq> n}" "short_sets es"
    by (auto simp: knows_def)
  have n: "{..<length es} = nodes ds" unfolding nodes_def es(3) by auto
  then have n': "set [0..<length es] = nodes ds" by (simp add: lessThan_atLeast0)
  have "d \<in> nodes ds" if "(e, d) \<in> set ds" for e d unfolding nodes_def using that by (force intro!: Max_ge)
  then have wf: "wf_edges es" using es(5) unfolding wf_edges_def n by (auto simp: es(4))
  let ?tp = "tp0\<lparr>tp_sorted := [], tp_visited := antlr3BitsetNew 0\<rparr>"
  have s: "searching es ?tp" "tp_cycle ?tp = []" using k(2) by (auto simp: searching_def knows_def in_order_def chain_def)
  have all: "set [0..<length es] \<subseteq> {..<length es}" by auto
  obtain tp where tp: "sort_nodes es [0..<length es] ?tp = Some tp"
    "(went_well es ?tp tp \<and> set [0..<length es] \<subseteq> set (tp_sorted tp)) \<or> found_cycle es ?tp tp"
    using sort_nodes_search [OF wf s all] by blast
  have r: "sorter ds = Inr tp0" "sortToArray tp0 = Some (Some (tp_sorted tp), tp)"
    "tp_limit tp = Suc (Max (set (map fst ds @ map snd ds)))"
    using k(1) tp(1) es(1,2,3) sort_nodes_limit [OF DFS_limit tp(1)] by (simp_all add: sortToArray_def)
  have e: "(a, b) \<in> set ds - Id \<longleftrightarrow> b \<in> deps es a" for a b by (auto simp: es(4))
  from tp(2) show ?thesis
  proof
    assume w: "went_well es ?tp tp \<and> set [0..<length es] \<subseteq> set (tp_sorted tp)"
    then have all: "nodes ds \<subseteq> set (tp_sorted tp)" unfolding n' by simp
    from w have o: "distinct (tp_sorted tp)" "set (tp_sorted tp) = nodes ds" "in_order es (tp_sorted tp)" "\<not> tp_hasCycle tp"
      using n all by (auto simp: went_well_def searching_def)
    have b: "before (tp_sorted tp) d e'" if "(e', d) \<in> set ds - Id" for e' d
    proof (rule in_order_before [OF o(3)])
      show "d \<in> deps es e'" using that e by blast
      then show "e' \<in> set (tp_sorted tp)" using o(2) n by (auto simp: deps_def split: if_splits)
    qed
    have "acyclic (set ds - Id)" by (rule ordered_acyclic [OF o(1) b])
    with r o b show ?thesis by auto
  next
    assume f: "found_cycle es ?tp tp"
    then have c: "tp_hasCycle tp" "tp_cycle tp \<noteq> []" "(last (tp_cycle tp), hd (tp_cycle tp)) \<in> set ds - Id"
      "\<And>i. Suc i < length (tp_cycle tp) \<Longrightarrow> (tp_cycle tp ! i, tp_cycle tp ! Suc i) \<in> set ds - Id"
      "distinct (tp_sorted tp)" "set (tp_sorted tp) \<subseteq> nodes ds"
      using n by (auto simp: found_cycle_def is_cycle_def chain_def es(4))
    have "\<not> acyclic (set ds - Id)" by (rule cycle_not_acyclic [OF c(2,4,3)])
    with r c show ?thesis by auto
  qed
qed

text \<open>
  C23: the sorter sorts: for every list of edges that is not empty, between nodes with numbers below \<open>2 ^ 31\<close>, the edges
  are all entered and the search ends. Without a cycle the result lists every node up to the highest number once, after all
  the nodes it depends on; otherwise a cycle is reported, and it is one of the given edges. In either case the result has
  no more entries than there are nodes, which is the size of its array.
\<close>

theorem topological_sort:
  assumes "ds \<noteq> []" "\<forall>(e, d) \<in> set ds. e < 2 ^ 31 \<and> d < 2 ^ 31"
  shows "\<exists>tp0 xs tp. sorter ds = Inr tp0 \<and> sortToArray tp0 = Some (Some xs, tp) \<and>
    distinct xs \<and> set xs \<subseteq> nodes ds \<and> length xs \<le> tp_limit tp0 \<and>
    (if acyclic (set ds - Id)
     then \<not> tp_hasCycle tp \<and> set xs = nodes ds \<and> (\<forall>(e, d) \<in> set ds. e \<noteq> d \<longrightarrow> before xs d e)
     else tp_hasCycle tp \<and> tp_cycle tp \<noteq> [] \<and> (last (tp_cycle tp), hd (tp_cycle tp)) \<in> set ds - Id \<and>
       (\<forall>i. Suc i < length (tp_cycle tp) \<longrightarrow> (tp_cycle tp ! i, tp_cycle tp ! Suc i) \<in> set ds - Id))"
proof -
  have nd: "numbered ds" using assms(2) by (simp add: numbered_def)
  from sort_result [OF assms(1) nd] obtain tp0 tp where r: "sorter ds = Inr tp0" "sortToArray tp0 = Some (Some (tp_sorted tp), tp)"
    "distinct (tp_sorted tp)" "set (tp_sorted tp) \<subseteq> nodes ds"
    "(if acyclic (set ds - Id)
     then \<not> tp_hasCycle tp \<and> set (tp_sorted tp) = nodes ds \<and> (\<forall>(e, d) \<in> set ds. e \<noteq> d \<longrightarrow> before (tp_sorted tp) d e)
     else tp_hasCycle tp \<and> tp_cycle tp \<noteq> [] \<and> (last (tp_cycle tp), hd (tp_cycle tp)) \<in> set ds - Id \<and>
       (\<forall>i. Suc i < length (tp_cycle tp) \<longrightarrow> (tp_cycle tp ! i, tp_cycle tp ! Suc i) \<in> set ds - Id))" by blast
  have "tp_limit tp0 = card (nodes ds)"
    using sorter_knows [OF nd] r(1) assms(1) by (auto simp: knows_def nodes_def)
  moreover have "length (tp_sorted tp) \<le> card (nodes ds)"
    using card_mono [OF _ r(4)] distinct_card [OF r(3)] by (simp add: nodes_def)
  ultimately show ?thesis using r by (intro exI [of _ tp0] exI [of _ "tp_sorted tp"] exI [of _ tp]) simp
qed

theorem topological_sort_witness:
  "\<exists>tp0 xs tp. sorter [(3, 0), (0, 1)] = Inr tp0 \<and> sortToArray tp0 = Some (Some xs, tp) \<and> before xs 0 3 \<and> before xs 1 0"
proof -
  have "before [1, 0, 3] (0 :: nat) 3" unfolding before_def by (rule exI [of _ 1], rule exI [of _ 2]) simp
  moreover have "before [1, 0, 3] (1 :: nat) 0" unfolding before_def by (rule exI [of _ 0], rule exI [of _ 1]) simp
  ultimately have "acyclic (set [(3, 0), (0, 1 :: nat)] - Id)" by (intro ordered_acyclic [of "[1, 0, 3]"]) auto
  with topological_sort [of "[(3, 0), (0, 1)]"] show ?thesis by fastforce
qed

text \<open>
  The bound on the numbers is needed: an edge from or to the last node number that fits in 32 bits makes the sorter
  allocate an array without entries and read outside it.
\<close>

theorem addEdge_last_node: "e < 4294967295 \<Longrightarrow> addEdge e 4294967295 antlr3TopoNew = Inl Bad_Index"
  by (simp add: addEdge_def antlr3TopoNew_def u32n_def)

theorem addEdge_last_node_witness: "addEdge 0 4294967295 antlr3TopoNew = Inl Bad_Index"
  by (rule addEdge_last_node) simp

section \<open>Sorting a vector\<close>

text \<open>
  \<open>vIndex\<close> is to say where the entry that was at a position is now. The numbers that are looked up are those of the
  sorted array, which may be beyond the limit when the vector is shorter than the list of nodes.
\<close>

function move_entries :: "nat list \<Rightarrow> nat \<Rightarrow> nat \<Rightarrow> nat list \<Rightarrow> 'a vector \<Rightarrow> 'a vector res" where
  "move_entries srt i limit vIndex v =
     (if i < limit then
        if length vIndex \<le> srt ! i then Inl Bad_Index
        else if vIndex ! (srt ! i) = i then move_entries srt (i + 1) limit vIndex v
        else
          let ind = vIndex ! (srt ! i)
          in move_entries srt (i + 1) limit (vIndex[srt ! i := i, i := ind]) (snd (antlr3VectorSwap i ind v))
      else Inr v)"
  by pat_completeness auto
termination by (relation "measure (\<lambda>(srt, i, limit, vIndex, v). limit - i)") auto

declare move_entries.simps [simp del]

definition sortVector :: "topo \<Rightarrow> 'a vector \<Rightarrow> (topo \<times> 'a vector) res option" where
  "sortVector tp v =
     map_option
       (\<lambda>(array, tp1).
          if array = None \<or> tp_hasCycle tp1 then Inr (tp1, v)
          else
            let limit = (if vc_count v < tp_limit tp1 then vc_count v else tp_limit tp1)
            in ebind (move_entries (tp_sorted tp1) 0 limit [0..<limit] v) (\<lambda>v'. Inr (tp1\<lparr>tp_limit := limit\<rparr>, v')))
       (sortToArray tp)"

lemma move_entries_permutes:
  assumes "holds v xs" "limit \<le> length xs" "length vIndex = limit" "\<forall>k < limit. vIndex ! k < limit" "\<forall>k < limit. srt ! k < limit"
  shows "\<exists>v' ys. move_entries srt i limit vIndex v = Inr v' \<and> holds v' ys \<and> mset ys = mset xs"
  using assms
proof (induction srt i limit vIndex v arbitrary: xs rule: move_entries.induct)
  case (1 srt i limit vIndex v)
  show ?case
  proof (cases "i < limit")
    case True
    then have n: "srt ! i < limit" "vIndex ! (srt ! i) < limit" using 1 by auto
    show ?thesis
    proof (cases "vIndex ! (srt ! i) = i")
      case same: True
      with 1 True n show ?thesis by (subst move_entries.simps) auto
    next
      case False
      define ind where "ind = vIndex ! (srt ! i)"
      define xs' where "xs' = xs[i := xs ! ind, ind := xs ! i]"
      have h: "holds (snd (antlr3VectorSwap i ind v)) xs'"
        using swap_holds(2) [OF 1(3), of i ind] True n(2) 1(4) by (simp add: xs'_def ind_def)
      have m: "mset xs' = mset xs" using True n(2) 1(4) by (simp add: xs'_def ind_def mset_swap)
      have k: "\<forall>k < limit. vIndex[srt ! i := i, i := ind] ! k < limit"
        using 1(5,6) True n by (auto simp: nth_list_update ind_def)
      have "\<not> length vIndex \<le> srt ! i" "limit \<le> length xs'" "length (vIndex[srt ! i := i, i := ind]) = limit"
        using 1(4,5) n(1) by (simp_all add: xs'_def)
      from 1(2) [OF True this(1) False ind_def h this(2,3) k 1(7)] m
      obtain v' ys where "move_entries srt (i + 1) limit (vIndex[srt ! i := i, i := ind]) (snd (antlr3VectorSwap i ind v)) = Inr v'"
        "holds v' ys" "mset ys = mset xs"
        by auto
      with True n False 1(5) show ?thesis by (subst move_entries.simps) (auto simp: ind_def [symmetric] Let_def)
    qed
  qed (use 1 in \<open>subst move_entries.simps, auto\<close>)
qed

lemma sortVector_moves:
  assumes "ds \<noteq> []" "acyclic (set ds - Id)" "holds v xs" "Max (set (map fst ds @ map snd ds)) < length xs" "numbered ds"
  shows "\<exists>tp0 tp. sorter ds = Inr tp0 \<and> sortVector tp0 v =
      Some (ebind (move_entries (tp_sorted tp) 0 (tp_limit tp) [0..<tp_limit tp] v) (\<lambda>v'. Inr (tp, v'))) \<and>
    tp_limit tp = Suc (Max (set (map fst ds @ map snd ds))) \<and> distinct (tp_sorted tp) \<and> set (tp_sorted tp) = nodes ds \<and>
    (\<forall>(e, d) \<in> set ds. e \<noteq> d \<longrightarrow> before (tp_sorted tp) d e)"
proof -
  obtain tp0 tp where tp0: "sorter ds = Inr tp0" and tp: "sortToArray tp0 = Some (Some (tp_sorted tp), tp)"
    "tp_limit tp = Suc (Max (set (map fst ds @ map snd ds)))" "distinct (tp_sorted tp)" "\<not> tp_hasCycle tp"
    "set (tp_sorted tp) = nodes ds" "\<forall>(e, d) \<in> set ds. e \<noteq> d \<longrightarrow> before (tp_sorted tp) d e"
    using sort_result [OF assms(1,5)] assms(2) by auto
  have "\<not> vc_count v < tp_limit tp" using holdsD(1) [OF assms(3)] assms(4) tp(2) by simp
  then have "sortVector tp0 v =
      Some (ebind (move_entries (tp_sorted tp) 0 (tp_limit tp) [0..<tp_limit tp] v) (\<lambda>v'. Inr (tp, v')))"
    using tp(1,4) by (simp add: sortVector_def Let_def)
  with tp0 tp(2,3,5,6) show ?thesis by blast
qed

text \<open>The entries of the vector stay the same, in some order.\<close>

lemma sortVector_permutes:
  assumes "ds \<noteq> []" "acyclic (set ds - Id)" "holds v xs" "Max (set (map fst ds @ map snd ds)) < length xs" "numbered ds"
  shows "\<exists>tp0 tp v' ys. sorter ds = Inr tp0 \<and> sortVector tp0 v = Some (Inr (tp, v')) \<and> holds v' ys \<and> mset ys = mset xs"
proof -
  obtain tp0 tp where tp0: "sorter ds = Inr tp0" and tp: "sortVector tp0 v =
      Some (ebind (move_entries (tp_sorted tp) 0 (tp_limit tp) [0..<tp_limit tp] v) (\<lambda>v'. Inr (tp, v')))"
    "tp_limit tp = Suc (Max (set (map fst ds @ map snd ds)))" "distinct (tp_sorted tp)" "set (tp_sorted tp) = nodes ds"
    using sortVector_moves [OF assms] by blast
  have "length (tp_sorted tp) = tp_limit tp"
    using distinct_card [OF tp(3)] tp(2) unfolding tp(4) nodes_def by simp
  then have "\<forall>k < tp_limit tp. tp_sorted tp ! k < tp_limit tp"
    using tp(2,4) nth_mem [of _ "tp_sorted tp"] by (auto simp: nodes_def less_Suc_eq_le)
  moreover have "tp_limit tp \<le> length xs" "length [0..<tp_limit tp] = tp_limit tp" "\<forall>k < tp_limit tp. [0..<tp_limit tp] ! k < tp_limit tp"
    using assms(4) tp(2) by (simp_all del: upt_Suc)
  ultimately obtain v' ys where "move_entries (tp_sorted tp) 0 (tp_limit tp) [0..<tp_limit tp] v = Inr v'" "holds v' ys" "mset ys = mset xs"
    using move_entries_permutes [OF assms(3)] by blast
  with tp0 tp(1) show ?thesis by auto
qed

lemma three_in_order:
  assumes "distinct xs" "set xs = {..2 :: nat}" "before xs 2 0" "before xs 1 2"
  shows "xs = [1, 2, 0]"
proof -
  have l: "length xs = 3" using distinct_card [OF assms(1)] assms(2) by simp
  obtain i j where ij: "i < j" "j < 3" "xs ! i = 2" "xs ! j = 0" using assms(3) l by (auto simp: before_def)
  obtain k m where km: "k < m" "m < 3" "xs ! k = 1" "xs ! m = 2" using assms(4) l by (auto simp: before_def)
  have "i = m" using assms(1) ij km l by (metis less_trans nth_eq_iff_index_eq)
  with ij(1,2) km(1,2) have "k = 0" "m = 1" "j = 2" by auto
  with ij km l show ?thesis by (intro nth_equalityI) (auto simp: less_Suc_eq numeral_2_eq_2 numeral_3_eq_3)
qed

text \<open>
  The vector is not brought into the order that was found: the table of positions is updated for the position instead
  of the entry that was moved away. With three nodes, of which the first depends on the third and the third on the
  second, the order is found, but the entries end in another one, in which the first still comes before the third.
\<close>

theorem sortVector_wrong_order:
  assumes "holds v [a, b, c]"
  shows "\<exists>tp0 tp v'. sorter [(0, 2), (2, 1)] = Inr tp0 \<and> sortVector tp0 v = Some (Inr (tp, v')) \<and> tp_sorted tp = [1, 2, 0] \<and> holds v' [b, a, c]"
proof -
  let ?ds = "[(0, 2), (2, 1)] :: (nat \<times> nat) list"
  have "before [1, 2, 0] 2 0" unfolding before_def by (rule exI [of _ 1], rule exI [of _ 2]) simp
  moreover have "before [1, 2, 0] 1 2" unfolding before_def by (rule exI [of _ 0], rule exI [of _ 1]) simp
  ultimately have "acyclic (set ?ds - Id)" by (intro ordered_acyclic [of "[1, 2, 0]"]) auto
  moreover have m: "Max (set (map fst ?ds @ map snd ?ds)) = 2" by simp
  moreover have "numbered ?ds" by (simp add: numbered_def)
  ultimately obtain tp0 tp where tp0: "sorter ?ds = Inr tp0" and tp: "sortVector tp0 v =
      Some (ebind (move_entries (tp_sorted tp) 0 (tp_limit tp) [0..<tp_limit tp] v) (\<lambda>v'. Inr (tp, v')))"
    "tp_limit tp = 3" "distinct (tp_sorted tp)" "set (tp_sorted tp) = {..2}" "before (tp_sorted tp) 2 0" "before (tp_sorted tp) 1 2"
    using sortVector_moves [of ?ds v, OF _ _ assms] unfolding nodes_def m by auto
  have s: "tp_sorted tp = [1, 2, 0]" by (rule three_in_order [OF tp(3-6)])
  define v1 where "v1 = snd (antlr3VectorSwap 0 1 v)"
  define v2 where "v2 = snd (antlr3VectorSwap 1 2 v1)"
  have h: "holds v1 [b, a, c]" "holds v2 [b, c, a]" "holds (snd (antlr3VectorSwap 2 1 v2)) [b, a, c]"
  proof -
    show h1: "holds v1 [b, a, c]" using swap_holds(2) [OF assms, of 0 1] by (simp add: v1_def)
    show h2: "holds v2 [b, c, a]" using swap_holds(2) [OF h1, of 1 2] by (simp add: v2_def)
    show "holds (snd (antlr3VectorSwap 2 1 v2)) [b, a, c]" using swap_holds(2) [OF h2, of 2 1] by simp
  qed
  have "move_entries [1, 2, 0] 0 3 [0, 1, 2] v = Inr (snd (antlr3VectorSwap 2 1 v2))"
    by (simp add: move_entries.simps [of _ 0] move_entries.simps [of _ "Suc 0"] move_entries.simps [of _ "Suc (Suc 0)"]
        move_entries.simps [of _ "Suc (Suc (Suc 0))"] v1_def v2_def numeral_2_eq_2 numeral_3_eq_3)
  moreover have "[0..<3] = [0, 1, 2]" by (simp add: upt_rec)
  ultimately show ?thesis using tp0 tp(1,2) s h(3) by auto
qed

theorem sortVector_wrong_order_witness:
  "\<exists>tp0 tp v'. sorter [(0, 2), (2, 1)] = Inr tp0 \<and> sortVector tp0
      (snd (antlr3VectorAdd null_entry (snd (antlr3VectorAdd null_entry (snd (antlr3VectorAdd
        \<lparr>en_element = Some (7 :: nat), en_free = False\<rparr> (antlr3VectorNew 0))))))) = Some (Inr (tp, v')) \<and>
     tp_sorted tp = [1, 2, 0] \<and> holds v' [null_entry, \<lparr>en_element = Some 7, en_free = False\<rparr>, null_entry]"
  by (rule sortVector_wrong_order)
    (use add_holds(2) [OF add_holds(2) [OF add_holds(2) [OF new_holds]], of null_entry null_entry] in \<open>simp\<close>)

end
