(* ===== verification/Antlr_Trie.thy ===== *)
theory Antlr_Trie
  imports RM_Prelude "HOL-Library.Word"
begin

text \<open>
  The integer trie of the ANTLR run time (\<^verbatim>\<open>antlr3collections.c\<close>), in which a recognizer memoizes what it has
  parsed. It is a Patricia trie with back pointers: a node is a bit number to test and at the same time the holder of a
  key, a pointer to a node with a bit number that is not smaller ends the descent. Nodes are the entries of a
  list, pointers are indices, the root is node 0; keys are unsigned numbers of 32 bits, as the build is configured. The
  depth is at most 63, as the comment on \<^verbatim>\<open>antlr3IntTrieNew\<close> asks: the code looks up the bit to test in an array of 64 masks, and with a greater
  depth the test at the root would read behind it. The recognizers use the depths 63 and 15.
\<close>

unbundle bit_operations_syntax

section \<open>The trie\<close>

type_synonym key = "32 word"

record 'v trie_node =
  tn_bitNum :: nat
  tn_key :: key
  tn_buckets :: "'v list"
  tn_left :: nat
  tn_right :: nat

record 'v trie =
  tr_nodes :: "'v trie_node list"
  tr_count :: nat
  tr_allowDups :: bool

abbreviation bitNum :: "'v trie_node list \<Rightarrow> nat \<Rightarrow> nat" where
  "bitNum ns a \<equiv> tn_bitNum (ns ! a)"

text \<open>The root has the highest bit number, the key 0, no entries and points to itself.\<close>

definition antlr3IntTrieNew :: "nat \<Rightarrow> 'v trie" where
  "antlr3IntTrieNew depth =
     \<lparr>tr_nodes = [\<lparr>tn_bitNum = depth, tn_key = 0, tn_buckets = [], tn_left = 0, tn_right = 0\<rparr>],
      tr_count = 0, tr_allowDups = False\<rparr>"

definition next_node :: "'v trie_node list \<Rightarrow> key \<Rightarrow> nat \<Rightarrow> nat" where
  "next_node ns k a = (if bit k (bitNum ns a) then tn_right (ns ! a) else tn_left (ns ! a))"

text \<open>The descent, from a node and the one it points to.\<close>

function descend :: "'v trie_node list \<Rightarrow> key \<Rightarrow> nat \<Rightarrow> nat \<Rightarrow> nat" where
  "descend ns k thisNode nextNode =
     (if bitNum ns nextNode < bitNum ns thisNode then descend ns k nextNode (next_node ns k nextNode) else nextNode)"
  by pat_completeness auto
termination by (relation "measure (\<lambda>(ns, k, this, next). bitNum ns this)") auto

declare descend.simps [simp del]

definition intTrieGet :: "'v trie \<Rightarrow> key \<Rightarrow> 'v list option" where
  "intTrieGet t k =
     (if tr_count t = 0 then None
      else
        let ns = tr_nodes t; nextNode = descend ns k 0 (tn_left (ns ! 0)) in
        if tn_key (ns ! nextNode) = k then if tn_buckets (ns ! nextNode) = [] then None else Some (tn_buckets (ns ! nextNode))
        else None)"

text \<open>\<^verbatim>\<open>intTrieDel\<close> does nothing and says so.\<close>

definition intTrieDel :: "'v trie \<Rightarrow> key \<Rightarrow> bool \<times> 'v trie" where
  "intTrieDel t k = (False, t)"

text \<open>The table of the highest bit that is set in a byte, and the choice of the byte.\<close>

definition bitIndex :: "nat list" where
  "bitIndex = replicate 2 0 @ replicate 2 1 @ replicate 4 2 @ replicate 8 3 @ replicate 16 4 @ replicate 32 5 @ replicate 64 6 @
     replicate 128 7"

definition byte_at :: "key \<Rightarrow> nat \<Rightarrow> nat" where
  "byte_at x s = unat (drop_bit s x AND 0xFF)"

definition highest_bit :: "key \<Rightarrow> nat" where
  "highest_bit x =
     (if x AND 0xFFFF0000 \<noteq> 0 then
        if x AND 0xFF000000 \<noteq> 0 then 24 + bitIndex ! byte_at x 24 else 16 + bitIndex ! byte_at x 16
      else if x AND 0xFF00 \<noteq> 0 then 8 + bitIndex ! byte_at x 8 else bitIndex ! byte_at x 0)"

text \<open>The second descent stops earlier, above the bit in which the keys differ; it returns the last two nodes.\<close>

function descend_to :: "'v trie_node list \<Rightarrow> key \<Rightarrow> nat \<Rightarrow> nat \<Rightarrow> nat \<Rightarrow> nat \<times> nat" where
  "descend_to ns k depth thisNode entNode =
     (if bitNum ns entNode < bitNum ns thisNode \<and> depth < bitNum ns entNode
      then descend_to ns k depth entNode (next_node ns k entNode) else (thisNode, entNode))"
  by pat_completeness auto
termination by (relation "measure (\<lambda>(ns, k, d, this, ent). bitNum ns this)") auto

declare descend_to.simps [simp del]

text \<open>
  The new node tests that bit; one of its pointers leads to itself, the other to what was there before. The
  node above gets it in the place of the pointer that was followed.
\<close>

definition new_node :: "key \<Rightarrow> 'v \<Rightarrow> nat \<Rightarrow> nat \<Rightarrow> nat \<Rightarrow> 'v trie_node" where
  "new_node k x depth entNode new =
     (if bit k depth then \<lparr>tn_bitNum = depth, tn_key = k, tn_buckets = [x], tn_left = entNode, tn_right = new\<rparr>
      else \<lparr>tn_bitNum = depth, tn_key = k, tn_buckets = [x], tn_left = new, tn_right = entNode\<rparr>)"

definition hang :: "key \<Rightarrow> nat \<Rightarrow> nat \<Rightarrow> 'v trie_node list \<Rightarrow> 'v trie_node list" where
  "hang k thisNode new ns =
     (if bit k (bitNum ns thisNode) then ns[thisNode := (ns ! thisNode)\<lparr>tn_right := new\<rparr>]
      else ns[thisNode := (ns ! thisNode)\<lparr>tn_left := new\<rparr>])"

text \<open>
  An entry for a key that is there is appended to those it has, or refused. The loop to the last of them starts
  at the first without a test.
\<close>

definition intTrieAdd :: "'v trie \<Rightarrow> key \<Rightarrow> 'v \<Rightarrow> (bool \<times> 'v trie) res" where
  "intTrieAdd t k x =
     (let ns = tr_nodes t; nextNode = descend ns k 0 (tn_left (ns ! 0)) in
      if tn_key (ns ! nextNode) = k then
        if tr_allowDups t then
          if tn_buckets (ns ! nextNode) = [] then Inl Null_Pointer
          else Inr (True, t\<lparr>tr_nodes := ns[nextNode := (ns ! nextNode)\<lparr>tn_buckets := tn_buckets (ns ! nextNode) @ [x]\<rparr>],
            tr_count := tr_count t + 1\<rparr>)
        else Inr (False, t)
      else
        let depth = highest_bit (k XOR tn_key (ns ! nextNode));
            (thisNode, entNode) = descend_to ns k depth 0 (tn_left (ns ! 0));
            new = length ns
        in Inr (True, t\<lparr>tr_nodes := hang k thisNode new (ns @ [new_node k x depth entNode new]), tr_count := tr_count t + 1\<rparr>))"

section \<open>The highest bit\<close>

definition is_highest :: "key \<Rightarrow> nat \<Rightarrow> bool" where
  "is_highest x d \<longleftrightarrow> bit x d \<and> (\<forall>i > d. \<not> bit x i)"

lemma bitIndex_table:
  assumes "1 \<le> n" "n < 256"
  shows "2 ^ (bitIndex ! n) \<le> n \<and> n < 2 ^ Suc (bitIndex ! n)"
  using assms unfolding bitIndex_def
  by (cases "n < 2"; cases "n < 4"; cases "n < 8"; cases "n < 16"; cases "n < 32"; cases "n < 64"; cases "n < 128")
    (simp_all add: nth_append less_diff_conv2 not_less del: replicate.simps)

lemma bit_highest_nat:
  fixes b :: nat
  assumes "2 ^ j \<le> b" "b < 2 ^ Suc j"
  shows "bit b j" "j < i \<Longrightarrow> \<not> bit b i"
proof -
  have "b div 2 ^ j = 1" using assms by (simp add: div_nat_eqI)
  then show "bit b j" by (simp add: bit_iff_odd)
  assume "j < i"
  then have "(2 :: nat) ^ Suc j \<le> 2 ^ i" by (intro power_increasing) auto
  with assms(2) show "\<not> bit b i" by (simp add: bit_iff_odd)
qed

lemma bit_byte_at: "bit (byte_at x s) i \<longleftrightarrow> i < 8 \<and> bit x (s + i)"
proof -
  have "(0xFF :: key) = mask 8" by (simp add: mask_eq_exp_minus_1)
  then have "byte_at x s = unat (drop_bit s x AND mask 8)" by (simp only: byte_at_def)
  then show ?thesis using bit_imp_le_length [of x "s + i"] by (auto simp: bit_unsigned_iff bit_and_iff bit_mask_iff bit_drop_bit_eq)
qed

lemma byte_highest:
  assumes "i < 8" "bit x (s + i)"
  shows "bit x (s + bitIndex ! byte_at x s)" "bitIndex ! byte_at x s < k \<Longrightarrow> k < 8 \<Longrightarrow> \<not> bit x (s + k)"
proof -
  let ?b = "byte_at x s"
  have "bit ?b i" using assms by (simp add: bit_byte_at)
  then have "1 \<le> ?b" by (cases "?b = 0") simp_all
  moreover have "?b < 256"
  proof -
    have "take_bit 8 ?b = ?b" by (rule bit_eqI) (auto simp: bit_take_bit_iff bit_byte_at)
    then show ?thesis using take_bit_nat_less_exp [of 8 ?b] by simp
  qed
  ultimately have t: "2 ^ (bitIndex ! ?b) \<le> ?b" "?b < 2 ^ Suc (bitIndex ! ?b)" using bitIndex_table by auto
  from bit_highest_nat(1) [OF t] show "bit x (s + bitIndex ! ?b)" by (simp add: bit_byte_at)
  show "\<not> bit x (s + k)" if "bitIndex ! ?b < k" "k < 8"
    using bit_highest_nat(2) [OF t that(1)] that(2) by (simp add: bit_byte_at)
qed

lemma and_zero_iff: "x AND m = 0 \<longleftrightarrow> (\<forall>i < 32. bit m i \<longrightarrow> \<not> bit x i)" for x m :: key
proof
  assume "x AND m = 0"
  then have "\<not> bit (x AND m) i" for i by simp
  then show "\<forall>i < 32. bit m i \<longrightarrow> \<not> bit x i" by (auto simp: bit_and_iff)
next
  assume "\<forall>i < 32. bit m i \<longrightarrow> \<not> bit x i"
  then show "x AND m = 0" by (intro bit_word_eqI) (auto simp: bit_and_iff)
qed

lemma and_masks:
  "x AND 0xFFFF0000 = 0 \<longleftrightarrow> (\<forall>k. 16 \<le> k \<and> k < 32 \<longrightarrow> \<not> bit x k)"
  "x AND 0xFF000000 = 0 \<longleftrightarrow> (\<forall>k. 24 \<le> k \<and> k < 32 \<longrightarrow> \<not> bit x k)"
  "x AND 0xFF00 = 0 \<longleftrightarrow> (\<forall>k. 8 \<le> k \<and> k < 16 \<longrightarrow> \<not> bit x k)" for x :: key
proof -
  have m: "(0xFFFF0000 :: key) = push_bit 16 (mask 16)" "(0xFF000000 :: key) = push_bit 24 (mask 8)" "(0xFF00 :: key) = push_bit 8 (mask 8)"
    by (simp_all add: mask_eq_exp_minus_1 push_bit_eq_mult)
  show "x AND 0xFFFF0000 = 0 \<longleftrightarrow> (\<forall>k. 16 \<le> k \<and> k < 32 \<longrightarrow> \<not> bit x k)"
    "x AND 0xFF000000 = 0 \<longleftrightarrow> (\<forall>k. 24 \<le> k \<and> k < 32 \<longrightarrow> \<not> bit x k)"
    unfolding m and_zero_iff by (auto simp: bit_push_bit_iff bit_mask_iff)
  have "(\<forall>i < 32. bit (push_bit 8 (mask 8) :: key) i \<longrightarrow> \<not> bit x i) \<longleftrightarrow> (\<forall>i < 32. 8 \<le> i \<and> i < 16 \<longrightarrow> \<not> bit x i)"
    by (auto simp: bit_push_bit_iff bit_mask_iff)
  then show "x AND 0xFF00 = 0 \<longleftrightarrow> (\<forall>k. 8 \<le> k \<and> k < 16 \<longrightarrow> \<not> bit x k)"
    unfolding m and_zero_iff by simp (auto dest: less_trans [of _ 16 32])
qed

lemma is_highest_byte:
  assumes "i < 8" "bit x (s + i)" "\<And>k. s + 8 \<le> k \<Longrightarrow> k < 32 \<Longrightarrow> \<not> bit x k"
  shows "is_highest x (s + bitIndex ! byte_at x s)"
proof -
  have "\<not> bit x k" if "s + bitIndex ! byte_at x s < k" for k
  proof (cases "k < s + 8")
    case True
    with that byte_highest(2) [OF assms(1,2), of "k - s"] show ?thesis by auto
  next
    case False
    then show ?thesis using assms(3) [of k] bit_imp_le_length [of x k] by fastforce
  qed
  with byte_highest(1) [OF assms(1,2)] show ?thesis by (simp add: is_highest_def)
qed

lemma highest_bit_highest:
  assumes "x \<noteq> 0"
  shows "is_highest x (highest_bit x)"
proof -
  obtain i where i: "i < 32" "bit x i" using assms and_zero_iff [of x "- 1"] by auto
  have split: "\<exists>j < 8. bit x (s + j)" if "s \<le> k" "k < s + 8" "bit x k" for s k
    using that by (intro exI [of _ "k - s"]) auto
  show ?thesis
  proof (cases "x AND 0xFFFF0000 = 0")
    case True
    then have up: "\<And>k. 16 \<le> k \<Longrightarrow> k < 32 \<Longrightarrow> \<not> bit x k" by (simp add: and_masks)
    show ?thesis
    proof (cases "x AND 0xFF00 = 0")
      case low: True
      then have "\<And>k. 8 \<le> k \<Longrightarrow> k < 32 \<Longrightarrow> \<not> bit x k" using up by (simp add: and_masks) (meson not_le)
      moreover from this [of i] i have "i < 8" by (meson not_le)
      ultimately show ?thesis using is_highest_byte [of i x 0] i True low by (simp add: highest_bit_def)
    next
      case False
      then obtain k where "8 \<le> k" "k < 16" "bit x k" by (auto simp: and_masks)
      with split [of 8 k] obtain j where "j < 8" "bit x (8 + j)" by auto
      with is_highest_byte [of j x 8] up True False show ?thesis by (simp add: highest_bit_def)
    qed
  next
    case False
    show ?thesis
    proof (cases "x AND 0xFF000000 = 0")
      case top: True
      then have up: "\<And>k. 24 \<le> k \<Longrightarrow> k < 32 \<Longrightarrow> \<not> bit x k" by (simp add: and_masks)
      with False obtain k where "16 \<le> k" "k < 24" "bit x k" by (auto simp: and_masks) (meson not_le)
      with split [of 16 k] obtain j where "j < 8" "bit x (16 + j)" by auto
      with is_highest_byte [of j x 16] up top False show ?thesis by (simp add: highest_bit_def)
    next
      case top: False
      then obtain k where "24 \<le> k" "k < 32" "bit x k" by (auto simp: and_masks)
      with split [of 24 k] obtain j where "j < 8" "bit x (24 + j)" by auto
      with is_highest_byte [of j x 24] top False show ?thesis by (simp add: highest_bit_def)
    qed
  qed
qed

section \<open>The tree behind the pointers\<close>

text \<open>
  What the pointers down to the back pointers describe: inner nodes are the addresses that are passed, leaves those
  at which a descent ends. Every node of a trie is a leaf once, and all but the root are an inner node once.
\<close>

datatype ptree = Lf nat | Nd nat ptree ptree

primrec leaves :: "ptree \<Rightarrow> nat set" where
  "leaves (Lf c) = {c}"
| "leaves (Nd c l r) = leaves l \<union> leaves r"

primrec inner :: "ptree \<Rightarrow> nat list" where
  "inner (Lf c) = []"
| "inner (Nd c l r) = c # inner l @ inner r"

primrec rep :: "'v trie_node list \<Rightarrow> nat \<Rightarrow> nat \<Rightarrow> ptree \<Rightarrow> bool" where
  "rep ns b a (Lf c) \<longleftrightarrow> a = c \<and> c < length ns \<and> b \<le> bitNum ns c"
| "rep ns b a (Nd c l r) \<longleftrightarrow> a = c \<and> c < length ns \<and> bitNum ns c < b \<and>
     rep ns (bitNum ns c) (tn_left (ns ! c)) l \<and> rep ns (bitNum ns c) (tn_right (ns ! c)) r"

text \<open>Below a node the keys agree above its bit and differ in it as the pointers say.\<close>

primrec keyed :: "'v trie_node list \<Rightarrow> ptree \<Rightarrow> bool" where
  "keyed ns (Lf c) \<longleftrightarrow> True"
| "keyed ns (Nd c l r) \<longleftrightarrow> keyed ns l \<and> keyed ns r \<and>
     (\<forall>x \<in> leaves l. \<not> bit (tn_key (ns ! x)) (bitNum ns c)) \<and> (\<forall>x \<in> leaves r. bit (tn_key (ns ! x)) (bitNum ns c)) \<and>
     (\<forall>x \<in> leaves l \<union> leaves r. \<forall>y \<in> leaves l \<union> leaves r. \<forall>i > bitNum ns c. bit (tn_key (ns ! x)) i = bit (tn_key (ns ! y)) i)"

primrec find_leaf :: "'v trie_node list \<Rightarrow> key \<Rightarrow> ptree \<Rightarrow> nat" where
  "find_leaf ns k (Lf c) = c"
| "find_leaf ns k (Nd c l r) = (if bit k (bitNum ns c) then find_leaf ns k r else find_leaf ns k l)"

lemma descend_find: "rep ns (bitNum ns p) a s \<Longrightarrow> descend ns k p a = find_leaf ns k s"
proof (induction s arbitrary: p a)
  case (Lf c)
  then show ?case by (auto simp: descend.simps [of ns k p c])
next
  case (Nd c l r)
  then have "descend ns k p a = descend ns k c (next_node ns k c)" by (auto simp: descend.simps [of ns k p c])
  also have "\<dots> = find_leaf ns k (Nd c l r)" using Nd by (simp add: next_node_def)
  finally show ?case .
qed

lemma find_leaf_in [simp]: "find_leaf ns k s \<in> leaves s"
  by (induction s) auto

lemma find_leaf_own: "keyed ns s \<Longrightarrow> x \<in> leaves s \<Longrightarrow> find_leaf ns (tn_key (ns ! x)) s = x"
  by (induction s) auto

lemma rep_in_range:
  assumes "rep ns b a s"
  shows "x \<in> leaves s \<Longrightarrow> x < length ns" "x \<in> set (inner s) \<Longrightarrow> x < length ns"
  using assms by (induction s arbitrary: b a) auto

text \<open>Insertion into the tree.\<close>

definition put_above :: "key \<Rightarrow> nat \<Rightarrow> nat \<Rightarrow> ptree \<Rightarrow> ptree" where
  "put_above k d new s = (if bit k d then Nd new s (Lf new) else Nd new (Lf new) s)"

fun insert_leaf :: "'v trie_node list \<Rightarrow> key \<Rightarrow> nat \<Rightarrow> nat \<Rightarrow> ptree \<Rightarrow> ptree" where
  "insert_leaf ns k d new (Lf c) = put_above k d new (Lf c)"
| "insert_leaf ns k d new (Nd c l r) =
     (if d < bitNum ns c
      then if bit k (bitNum ns c) then Nd c l (insert_leaf ns k d new r) else Nd c (insert_leaf ns k d new l) r
      else put_above k d new (Nd c l r))"

lemma leaves_join [simp]: "leaves (put_above k d new s) = insert new (leaves s)"
  by (simp add: put_above_def)

lemma leaves_insert [simp]: "leaves (insert_leaf ns k d new s) = insert new (leaves s)"
  by (induction s) auto

lemma inner_insert:
  "set (inner (insert_leaf ns k d new s)) = insert new (set (inner s))"
  "new \<notin> set (inner s) \<Longrightarrow> distinct (inner s) \<Longrightarrow> distinct (inner (insert_leaf ns k d new s))"
  by (induction s) (auto simp: put_above_def)

text \<open>The keys of the tree with the new leaf are arranged as they have to be.\<close>

definition differs :: "key \<Rightarrow> key \<Rightarrow> nat \<Rightarrow> bool" where
  "differs k k' d \<longleftrightarrow> bit k d \<noteq> bit k' d \<and> (\<forall>i > d. bit k i = bit k' i)"

lemma highest_bit_differs: "k \<noteq> k' \<Longrightarrow> differs k k' (highest_bit (k XOR k'))"
proof -
  assume "k \<noteq> k'"
  then have "k XOR k' \<noteq> 0" by (auto simp: bit_eq_iff bit_xor_iff)
  from highest_bit_highest [OF this] show ?thesis by (auto simp: is_highest_def differs_def bit_xor_iff)
qed

lemma keyed_bit:
  assumes "keyed ns (Nd c l r)" "x = find_leaf ns k (Nd c l r)"
  shows "bit (tn_key (ns ! x)) (bitNum ns c) = bit k (bitNum ns c)"
  using assms find_leaf_in by (auto split: if_splits)

lemma differs_not_tested:
  assumes "keyed ns (Nd c l r)" "differs k (tn_key (ns ! find_leaf ns k (Nd c l r))) d"
  shows "bitNum ns c \<noteq> d"
  using keyed_bit [OF assms(1) refl, of k] assms(2) by (auto simp: differs_def)

text \<open>A store with the same nodes and perhaps more, in which some pointers may be others.\<close>

definition extends :: "'v trie_node list \<Rightarrow> 'v trie_node list \<Rightarrow> bool" where
  "extends ns ns' \<longleftrightarrow> length ns \<le> length ns' \<and>
     (\<forall>a < length ns. bitNum ns' a = bitNum ns a \<and> tn_key (ns' ! a) = tn_key (ns ! a))"

lemma keyed_extends:
  "extends ns ns' \<Longrightarrow> rep ns b a s \<Longrightarrow> keyed ns' s = keyed ns s"
proof (induction s arbitrary: b a)
  case (Nd c l r)
  then have "\<forall>x \<in> leaves l \<union> leaves r. tn_key (ns' ! x) = tn_key (ns ! x)"
    by (auto simp: extends_def dest!: rep_in_range(1))
  moreover have "bitNum ns' c = bitNum ns c" "keyed ns' l = keyed ns l" "keyed ns' r = keyed ns r"
    using Nd by (auto simp: extends_def)
  ultimately show ?case by simp
qed simp

lemma keyed_join:
  assumes "keyed ns s" "\<forall>x \<in> leaves s. differs k (tn_key (ns ! x)) (bitNum ns new)" "tn_key (ns ! new) = k"
  shows "keyed ns (put_above k (bitNum ns new) new s)"
  using assms by (auto simp: put_above_def differs_def)

lemma agree_below:
  assumes "keyed ns s" "differs k (tn_key (ns ! find_leaf ns k s)) d" "\<And>c l r. s = Nd c l r \<Longrightarrow> bitNum ns c < d" "x \<in> leaves s"
  shows "differs k (tn_key (ns ! x)) d"
proof (cases s)
  case (Nd c l r)
  with assms(3) have "bitNum ns c < d" by simp
  moreover have "bit (tn_key (ns ! x)) i = bit (tn_key (ns ! find_leaf ns k s)) i" if "bitNum ns c < i" for i
    using assms(1,4) find_leaf_in [of ns k s] that unfolding Nd keyed.simps leaves.simps by blast
  ultimately show ?thesis using assms(2) by (auto simp: differs_def)
qed (use assms in simp)

lemma keyed_insert:
  assumes e: "extends ns ns'" "bitNum ns' (length ns) = d" "tn_key (ns' ! length ns) = k"
  shows "keyed ns s \<Longrightarrow> rep ns b a s \<Longrightarrow> differs k (tn_key (ns ! find_leaf ns k s)) d \<Longrightarrow> keyed ns' (insert_leaf ns k d (length ns) s)"
proof (induction s arbitrary: b a)
  case (Lf c)
  then show ?case using e keyed_join [of ns' "Lf c" k "length ns"] by (simp add: extends_def)
next
  case (Nd c l r)
  let ?s = "Nd c l r"
  have k': "keyed ns' ?s" using keyed_extends [OF e(1) Nd.prems(2)] Nd.prems(1) by blast
  have c: "bitNum ns' c = bitNum ns c" using Nd.prems(2) e(1) by (simp add: extends_def)
  have key': "tn_key (ns' ! x) = tn_key (ns ! x)" if "x \<in> leaves ?s" for x
    using rep_in_range(1) [OF Nd.prems(2) that] e(1) by (simp add: extends_def)
  show ?case
  proof (cases "d < bitNum ns c")
    case True
    have f: "bit (tn_key (ns' ! x)) i = bit k i" if "x \<in> leaves ?s" "bitNum ns c < i" for x i
    proof -
      have "bit (tn_key (ns ! x)) i = bit (tn_key (ns ! find_leaf ns k ?s)) i"
        using Nd.prems(1) find_leaf_in [of ns k ?s] that unfolding keyed.simps leaves.simps by blast
      then show ?thesis using Nd.prems(3) True that key' by (simp add: differs_def)
    qed
    show ?thesis
    proof (cases "bit k (bitNum ns c)")
      case b: True
      then have "keyed ns' (insert_leaf ns k d (length ns) r)" using Nd.IH(2) [of "bitNum ns c" "tn_right (ns ! c)"] Nd.prems by simp
      with k' f True b c e(3) show ?thesis by simp
    next
      case b: False
      then have "keyed ns' (insert_leaf ns k d (length ns) l)" using Nd.IH(1) [of "bitNum ns c" "tn_left (ns ! c)"] Nd.prems by simp
      with k' f True b c e(3) show ?thesis by simp
    qed
  next
    case False
    then have "bitNum ns c < d" using differs_not_tested [OF Nd.prems(1,3)] by simp
    then have "\<forall>x \<in> leaves ?s. differs k (tn_key (ns' ! x)) d"
      using agree_below [OF Nd.prems(1,3)] key' by simp
    with keyed_join [OF k', of k "length ns"] e False show ?thesis by simp
  qed
qed

text \<open>The store after the insertion represents the tree with the new leaf.\<close>

lemma rep_other:
  assumes "rep ns b a s" "extends ns ns'" "\<And>c. c < length ns \<Longrightarrow> c \<noteq> this \<Longrightarrow> tn_left (ns' ! c) = tn_left (ns ! c) \<and> tn_right (ns' ! c) = tn_right (ns ! c)"
    "this \<notin> set (inner s)"
  shows "rep ns' b a s"
  using assms(1,4)
proof (induction s arbitrary: b a)
  case (Lf c)
  then show ?case using assms(2) by (simp add: extends_def)
next
  case (Nd c l r)
  then have "bitNum ns' c = bitNum ns c" "c < length ns'" "tn_left (ns' ! c) = tn_left (ns ! c)" "tn_right (ns' ! c) = tn_right (ns ! c)"
    using assms(2) assms(3) [of c] by (auto simp: extends_def)
  with Nd show ?case by simp
qed

definition grown_store :: "'v trie_node list \<Rightarrow> key \<Rightarrow> 'v \<Rightarrow> nat \<Rightarrow> nat \<times> nat \<Rightarrow> 'v trie_node list" where
  "grown_store ns k x d q = hang k (fst q) (length ns) (ns @ [new_node k x d (snd q) (length ns)])"

lemma length_grown_store [simp]: "length (grown_store ns k x d q) = Suc (length ns)"
  by (simp add: grown_store_def hang_def)

lemma grown_store_extends:
  assumes "this < length ns"
  shows "extends ns (grown_store ns k x d (this, ent))"
  using assms by (auto simp: extends_def grown_store_def hang_def nth_append nth_list_update)

lemma grown_store_new:
  assumes "this < length ns"
  shows "grown_store ns k x d (this, ent) ! length ns = new_node k x d ent (length ns)"
  using assms by (simp add: grown_store_def hang_def nth_append)

lemma grown_store_others:
  assumes "c < length ns" "c \<noteq> this"
  shows "grown_store ns k x d (this, ent) ! c = ns ! c"
  using assms by (simp add: grown_store_def hang_def nth_append)

lemma grown_store_this:
  assumes "this < length ns"
  shows "next_node (grown_store ns k x d (this, ent)) k this = length ns"
    "bit k (bitNum ns this) \<Longrightarrow> tn_left (grown_store ns k x d (this, ent) ! this) = tn_left (ns ! this)"
    "\<not> bit k (bitNum ns this) \<Longrightarrow> tn_right (grown_store ns k x d (this, ent) ! this) = tn_right (ns ! this)"
  using assms by (auto simp: grown_store_def hang_def next_node_def nth_append)

lemma rep_join:
  assumes "rep ns b a s" "d < b" "\<And>c l r. s = Nd c l r \<Longrightarrow> bitNum ns c < d"
  shows "rep ns d a s"
  using assms by (cases s) auto

lemma rep_at_join:
  fixes ns :: "'v trie_node list" and x :: 'v
  assumes "rep ns (bitNum ns p) a s" "a = next_node ns k p" "p < length ns" "p \<notin> set (inner s)" "d < bitNum ns p"
    "\<And>c l r. s = Nd c l r \<Longrightarrow> bitNum ns c < d"
  defines "ns' \<equiv> grown_store ns k x d (p, a)"
  shows "rep ns' (bitNum ns p) (next_node ns' k p) (put_above k d (length ns) s)"
proof -
  have e: "extends ns ns'" unfolding ns'_def by (rule grown_store_extends [OF assms(3)])
  have n: "ns' ! length ns = new_node k x d a (length ns)" unfolding ns'_def by (rule grown_store_new [OF assms(3)])
  have "rep ns d a s" by (rule rep_join [OF assms(1,5,6)])
  then have "rep ns' d a s"
    by (rule rep_other [OF _ e _ assms(4)]) (simp_all add: ns'_def grown_store_others)
  moreover have "next_node ns' k p = length ns" unfolding ns'_def by (rule grown_store_this(1) [OF assms(3)])
  ultimately show ?thesis using n assms(5) by (auto simp: put_above_def new_node_def ns'_def)
qed

lemma descend_to_inside:
  "rep ns (bitNum ns p) a s \<Longrightarrow> fst (descend_to ns k d p a) \<in> insert p (set (inner s))"
proof (induction s arbitrary: p a)
  case (Lf c)
  then show ?case by (auto simp: descend_to.simps [of ns k d p c])
next
  case (Nd c l r)
  then have "fst (descend_to ns k d c (next_node ns k c)) \<in> insert c (set (inner l) \<union> set (inner r))"
    using Nd.IH(1) [of c "tn_left (ns ! c)"] Nd.IH(2) [of c "tn_right (ns ! c)"] by (auto simp: next_node_def)
  with Nd.prems show ?case by (auto simp: descend_to.simps [of ns k d p c])
qed

lemma rep_insert:
  fixes ns :: "'v trie_node list" and x :: 'v
  assumes "rep ns (bitNum ns p) (next_node ns k p) s" "p < length ns" "p \<notin> set (inner s)" "distinct (inner s)" "d < bitNum ns p"
    "keyed ns s" "differs k (tn_key (ns ! find_leaf ns k s)) d"
  defines "ns' \<equiv> grown_store ns k x d (descend_to ns k d p (next_node ns k p))"
  shows "rep ns' (bitNum ns p) (next_node ns' k p) (insert_leaf ns k d (length ns) s)"
  using assms(1-7) unfolding ns'_def
proof (induction s arbitrary: p)
  case (Lf c)
  then have "descend_to ns k d p (next_node ns k p) = (p, next_node ns k p)"
    by (auto simp: descend_to.simps [of ns k d p c])
  with rep_at_join [OF Lf.prems(1) refl Lf.prems(2,3,5)] show ?case by simp
next
  case (Nd c l r)
  let ?a = "next_node ns k p" and ?s = "Nd c l r"
  have a: "?a = c" "c < length ns" "bitNum ns c < bitNum ns p" using Nd.prems(1) by auto
  show ?case
  proof (cases "d < bitNum ns c")
    case False
    with a(1) have "descend_to ns k d p ?a = (p, ?a)" by (simp add: descend_to.simps [of ns k d p c])
    moreover have "bitNum ns c < d" using False differs_not_tested [OF Nd.prems(6,7)] by simp
    ultimately show ?thesis using rep_at_join [OF Nd.prems(1) refl Nd.prems(2,3,5)] False by simp
  next
    case True
    define q where "q = descend_to ns k d c (next_node ns k c)"
    define ns' where "ns' = grown_store ns k x d q"
    let ?b = "bit k (bitNum ns c)"
    define t u where "t = (if ?b then r else l)" and "u = (if ?b then l else r)"
    have dt: "descend_to ns k d p ?a = q" using a True by (simp add: descend_to.simps [of ns k d p c] q_def)
    have rt: "rep ns (bitNum ns c) (next_node ns k c) t" using Nd.prems(1) by (auto simp: next_node_def t_def)
    have in_q: "fst q \<in> insert c (set (inner t))" unfolding q_def by (rule descend_to_inside [OF rt])
    then have q: "fst q < length ns" "fst q \<noteq> p" "fst q \<notin> set (inner u)"
      using a(2) rep_in_range(2) [OF rt] Nd.prems(3,4) by (auto simp: t_def u_def split: if_splits)
    obtain this ent where te: "q = (this, ent)" by fastforce
    have e: "extends ns ns'" using grown_store_extends q(1) by (simp add: ns'_def te)
    have p': "next_node ns' k p = c"
      using grown_store_others [OF Nd.prems(2)] q(2) a(1) by (simp add: next_node_def ns'_def te split: if_splits)
    have bc: "bitNum ns' c = bitNum ns c" "c < length ns'" using e a(2) by (auto simp: extends_def)
    have t': "rep ns' (bitNum ns c) (next_node ns' k c) (insert_leaf ns k d (length ns) t)"
      using Nd.IH(1) [of c] Nd.IH(2) [of c] rt True a(2) Nd.prems(3,4,6,7)
      by (cases ?b) (simp_all add: t_def q_def ns'_def)
    have oth: "tn_left (ns' ! x) = tn_left (ns ! x) \<and> tn_right (ns' ! x) = tn_right (ns ! x)" if "x < length ns" "x \<noteq> this" for x
      using grown_store_others [OF that] by (simp add: ns'_def te)
    have ru: "rep ns (bitNum ns c) (if ?b then tn_left (ns ! c) else tn_right (ns ! c)) u" using Nd.prems(1) by (simp add: u_def)
    have u': "rep ns' (bitNum ns c) (if ?b then tn_left (ns ! c) else tn_right (ns ! c)) u"
      by (rule rep_other [OF ru e oth]) (use q(3) te in simp_all)
    have cu: "(if ?b then tn_left (ns' ! c) else tn_right (ns' ! c)) = (if ?b then tn_left (ns ! c) else tn_right (ns ! c))"
      using oth [OF a(2)] grown_store_this(2,3) [of c ns k x d ent] a(2) by (cases "c = this") (auto simp: ns'_def te)
    have "rep ns' (bitNum ns p) c (insert_leaf ns k d (length ns) ?s)"
      using t' u' cu bc a True by (cases ?b) (simp_all add: t_def u_def next_node_def)
    then show ?thesis using dt p' by (simp add: ns'_def)
  qed
qed

section \<open>The trie is a map\<close>

definition contents :: "'v trie \<Rightarrow> key \<Rightarrow> 'v list option" where
  "contents t = map_of (map (\<lambda>n. (tn_key n, tn_buckets n)) (tl (tr_nodes t)))"

abbreviation short_key :: "nat \<Rightarrow> key \<Rightarrow> bool" where
  "short_key D k \<equiv> (\<forall>i. bit k i \<longrightarrow> i < D)"

text \<open>The invariant of a trie of depth \<open>D\<close>.\<close>

definition well_formed :: "nat \<Rightarrow> 'v trie_node list \<Rightarrow> bool" where
  "well_formed D ns \<longleftrightarrow> ns \<noteq> [] \<and> bitNum ns 0 = D \<and> tn_key (ns ! 0) = 0 \<and> tn_buckets (ns ! 0) = [] \<and>
     (\<forall>a < length ns. short_key D (tn_key (ns ! a)) \<and> (0 < a \<longrightarrow> tn_buckets (ns ! a) \<noteq> [])) \<and>
     (\<exists>s. rep ns D (tn_left (ns ! 0)) s \<and> keyed ns s \<and> distinct (inner s) \<and> leaves s = {..<length ns})"

definition trie_inv :: "nat \<Rightarrow> 'v trie \<Rightarrow> bool" where
  "trie_inv D t \<longleftrightarrow> well_formed D (tr_nodes t) \<and> (tr_count t = 0 \<longrightarrow> length (tr_nodes t) = 1)"

lemma new_inv: "trie_inv D (antlr3IntTrieNew D)" "contents (antlr3IntTrieNew D) = Map.empty"
proof -
  have "rep (tr_nodes (antlr3IntTrieNew D)) D 0 (Lf 0)" by (simp add: antlr3IntTrieNew_def)
  moreover have "keyed (tr_nodes (antlr3IntTrieNew D)) (Lf 0)" "distinct (inner (Lf 0))" "leaves (Lf 0) = {..<1}" by auto
  ultimately have "\<exists>s. rep (tr_nodes (antlr3IntTrieNew D)) D 0 s \<and> keyed (tr_nodes (antlr3IntTrieNew D)) s \<and> distinct (inner s) \<and>
    leaves s = {..<1}" by blast
  then show "trie_inv D (antlr3IntTrieNew D)"
    by (simp add: trie_inv_def well_formed_def antlr3IntTrieNew_def)
qed (simp add: contents_def antlr3IntTrieNew_def)

text \<open>A descent from the root finds the node of a key, if there is one.\<close>

lemma descent:
  assumes "well_formed D ns"
  shows "descend ns k 0 (tn_left (ns ! 0)) < length ns"
    "a < length ns \<Longrightarrow> descend ns (tn_key (ns ! a)) 0 (tn_left (ns ! 0)) = a"
proof -
  obtain s where s: "rep ns (bitNum ns 0) (tn_left (ns ! 0)) s" "keyed ns s" "leaves s = {..<length ns}"
    using assms by (auto simp: well_formed_def)
  show "descend ns k 0 (tn_left (ns ! 0)) < length ns" using descend_find [OF s(1)] find_leaf_in [of ns k s] s(3) by simp
  show "descend ns (tn_key (ns ! a)) 0 (tn_left (ns ! 0)) = a" if "a < length ns"
    using descend_find [OF s(1)] find_leaf_own [OF s(2), of a] s(3) that by simp
qed

lemma keys_differ: "well_formed D ns \<Longrightarrow> a < length ns \<Longrightarrow> b < length ns \<Longrightarrow> tn_key (ns ! a) = tn_key (ns ! b) \<Longrightarrow> a = b"
  using descent(2) by metis

lemma contents_iff:
  assumes "well_formed D (tr_nodes t)"
  shows "contents t k = Some vs \<longleftrightarrow>
    (\<exists>a. 0 < a \<and> a < length (tr_nodes t) \<and> tn_key (tr_nodes t ! a) = k \<and> tn_buckets (tr_nodes t ! a) = vs)"
proof -
  let ?ns = "tr_nodes t"
  obtain n ms where ns: "?ns = n # ms" using assms by (cases ?ns) (auto simp: well_formed_def)
  have "distinct (map tn_key ms)"
    using keys_differ [OF assms, of "Suc _" "Suc _"] by (auto simp: ns distinct_conv_nth)
  then have "distinct (map fst (map (\<lambda>n. (tn_key n, tn_buckets n)) ms))" by (simp add: comp_def)
  then have "contents t k = Some vs \<longleftrightarrow> (k, vs) \<in> set (map (\<lambda>n. (tn_key n, tn_buckets n)) ms)"
    unfolding contents_def ns list.sel by (rule map_of_eq_Some_iff)
  also have "\<dots> \<longleftrightarrow> (\<exists>a < length ms. tn_key (ms ! a) = k \<and> tn_buckets (ms ! a) = vs)" by (fastforce simp: in_set_conv_nth)
  also have "\<dots> \<longleftrightarrow> (\<exists>a. 0 < a \<and> a < length ?ns \<and> tn_key (?ns ! a) = k \<and> tn_buckets (?ns ! a) = vs)"
    unfolding ns by (auto simp: gr0_conv_Suc intro: exI [of _ "Suc _"])
  finally show ?thesis .
qed

lemma contents_None:
  assumes "well_formed D (tr_nodes t)" "contents t k = None" "0 < a" "a < length (tr_nodes t)"
  shows "tn_key (tr_nodes t ! a) \<noteq> k"
  using contents_iff [OF assms(1), of k "tn_buckets (tr_nodes t ! a)"] assms(2-4) by auto

lemma get_contents:
  assumes "trie_inv D t"
  shows "intTrieGet t k = contents t k"
proof -
  let ?ns = "tr_nodes t"
  define f where "f = descend ?ns k 0 (tn_left (?ns ! 0))"
  have w: "well_formed D ?ns" using assms by (simp add: trie_inv_def)
  have f: "f < length ?ns" using descent(1) [OF w] by (simp add: f_def)
  show ?thesis
  proof (cases "contents t k")
    case None
    then have "tn_key (?ns ! f) = k \<Longrightarrow> f = 0" using contents_None [OF w None _ f] by auto
    with w None show ?thesis by (auto simp: intTrieGet_def f_def [symmetric] Let_def well_formed_def)
  next
    case (Some vs)
    then obtain a where a: "0 < a" "a < length ?ns" "tn_key (?ns ! a) = k" "tn_buckets (?ns ! a) = vs"
      using contents_iff [OF w] by blast
    then have "f = a" using descent(2) [OF w a(2)] by (simp add: f_def)
    moreover have "tr_count t \<noteq> 0" "vs \<noteq> []" using a assms w by (auto simp: trie_inv_def well_formed_def)
    ultimately show ?thesis using a Some by (simp add: intTrieGet_def f_def [symmetric] Let_def)
  qed
qed

lemma rep_inner_less: "rep ns b a s \<Longrightarrow> x \<in> set (inner s) \<Longrightarrow> bitNum ns x < b"
proof (induction s arbitrary: b a)
  case (Nd c l r)
  show ?case
    using Nd.IH(1) [of "bitNum ns c" "tn_left (ns ! c)"] Nd.IH(2) [of "bitNum ns c" "tn_right (ns ! c)"] Nd.prems by auto
qed simp

lemma differs_short: "differs k k' d \<Longrightarrow> short_key D k \<Longrightarrow> short_key D k' \<Longrightarrow> d < D"
  unfolding differs_def by blast

lemma grown_store_entries:
  assumes "this < length ns"
  shows "map (\<lambda>n. (tn_key n, tn_buckets n)) (grown_store ns k x d (this, ent)) = map (\<lambda>n. (tn_key n, tn_buckets n)) ns @ [(k, [x])]"
proof (rule nth_equalityI)
  fix i
  assume "i < length (map (\<lambda>n. (tn_key n, tn_buckets n)) (grown_store ns k x d (this, ent)))"
  then consider "i = length ns" | "i < length ns" by fastforce
  then show "map (\<lambda>n. (tn_key n, tn_buckets n)) (grown_store ns k x d (this, ent)) ! i = (map (\<lambda>n. (tn_key n, tn_buckets n)) ns @ [(k, [x])]) ! i"
  proof cases
    case 1
    then show ?thesis using grown_store_new [OF assms, of k x d ent] by (simp add: nth_append new_node_def)
  next
    case 2
    then show ?thesis using assms by (simp add: nth_append grown_store_def hang_def nth_list_update)
  qed
qed simp

lemma well_formed_grow:
  assumes w: "well_formed D ns" and k: "short_key D k" "tn_key (ns ! descend ns k 0 (tn_left (ns ! 0))) \<noteq> k"
  defines "d \<equiv> highest_bit (k XOR tn_key (ns ! descend ns k 0 (tn_left (ns ! 0))))"
  defines "q \<equiv> descend_to ns k d 0 (tn_left (ns ! 0))"
  shows "well_formed D (grown_store ns k x d q)" "fst q < length ns"
proof -
  obtain s where s: "rep ns D (tn_left (ns ! 0)) s" "keyed ns s" "distinct (inner s)" "leaves s = {..<length ns}"
    using w by (auto simp: well_formed_def)
  have root: "bitNum ns 0 = D" "0 < length ns" "ns \<noteq> []" using w by (auto simp: well_formed_def)
  have f: "descend ns k 0 (tn_left (ns ! 0)) = find_leaf ns k s" using descend_find s(1) root(1) by blast
  have d: "differs k (tn_key (ns ! find_leaf ns k s)) d" using highest_bit_differs k(2) f by (metis d_def)
  have "short_key D (tn_key (ns ! find_leaf ns k s))" using w find_leaf_in [of ns k s] s(4) by (auto simp: well_formed_def)
  then have dD: "d < D" by (rule differs_short [OF d k(1)])
  have nx: "next_node ns k 0 = tn_left (ns ! 0)" using k(1) root by (auto simp: next_node_def)
  have "0 \<notin> set (inner s)" using rep_inner_less [OF s(1)] root(1) by blast
  then have r: "rep (grown_store ns k x d q) D (next_node (grown_store ns k x d q) k 0) (insert_leaf ns k d (length ns) s)"
    using rep_insert [of ns 0 k s d x] s nx root dD d by (simp add: q_def)
  have in_q: "fst q \<in> insert 0 (set (inner s))" unfolding q_def using descend_to_inside s(1) root(1) by blast
  then show q: "fst q < length ns" using rep_in_range(2) [OF s(1)] root(2) by auto
  obtain this ent where te: "q = (this, ent)" by fastforce
  let ?ns = "grown_store ns k x d q"
  have th: "this < length ns" using q te by simp
  have e: "extends ns ?ns" using grown_store_extends [OF th] by (simp add: te)
  have n: "?ns ! length ns = new_node k x d ent (length ns)" using grown_store_new [OF th] by (simp add: te)
  have "bitNum ?ns 0 = D" "tn_key (?ns ! 0) = 0" using e root w by (auto simp: extends_def well_formed_def)
  moreover have "next_node ?ns k 0 = tn_left (?ns ! 0)" using \<open>bitNum ?ns 0 = D\<close> k(1) by (auto simp: next_node_def)
  moreover have "keyed ?ns (insert_leaf ns k d (length ns) s)"
    by (rule keyed_insert [OF e _ _ s(2,1) d]) (simp_all add: n new_node_def)
  moreover have "distinct (inner (insert_leaf ns k d (length ns) s))"
    using inner_insert(2) [OF _ s(3)] rep_in_range(2) [OF s(1)] by blast
  moreover have "leaves (insert_leaf ns k d (length ns) s) = {..<length ?ns}" by (simp add: s(4) lessThan_Suc)
  moreover have b: "tn_buckets (?ns ! a) = tn_buckets (ns ! a)" if "a < length ns" for a
    using th that by (simp add: te grown_store_def hang_def nth_append nth_list_update)
  moreover have "short_key D (tn_key (?ns ! a)) \<and> (0 < a \<longrightarrow> tn_buckets (?ns ! a) \<noteq> [])" if "a < length ?ns" for a
  proof (cases "a = length ns")
    case False
    with that have "a < length ns" by simp
    with w e b show ?thesis by (auto simp: well_formed_def extends_def)
  qed (use n k(1) in \<open>auto simp: new_node_def\<close>)
  moreover have "?ns \<noteq> []" by (metis length_grown_store length_0_conv nat.distinct(1))
  moreover have "tn_buckets (?ns ! 0) = []" using b [OF root(2)] w by (simp add: well_formed_def)
  ultimately show "well_formed D ?ns" using r unfolding well_formed_def by metis
qed

lemma add_new:
  assumes "trie_inv D t" "short_key D k" "k \<noteq> 0" "contents t k = None"
  shows "\<exists>t'. intTrieAdd t k x = Inr (True, t') \<and> trie_inv D t' \<and> contents t' = (contents t)(k \<mapsto> [x]) \<and> tr_allowDups t' = tr_allowDups t"
proof -
  let ?ns = "tr_nodes t"
  define f where "f = descend ?ns k 0 (tn_left (?ns ! 0))"
  define d where "d = highest_bit (k XOR tn_key (?ns ! f))"
  define q where "q = descend_to ?ns k d 0 (tn_left (?ns ! 0))"
  have w: "well_formed D ?ns" using assms(1) by (simp add: trie_inv_def)
  have "f < length ?ns" using descent(1) [OF w] by (simp add: f_def)
  then have kf: "tn_key (?ns ! f) \<noteq> k"
    using contents_None [OF w assms(4)] w assms(3) by (cases "f = 0") (auto simp: well_formed_def)
  note g = well_formed_grow [OF w assms(2) kf [unfolded f_def], folded f_def, folded d_def, folded q_def]
  let ?t = "t\<lparr>tr_nodes := grown_store ?ns k x d q, tr_count := tr_count t + 1\<rparr>"
  have "intTrieAdd t k x = Inr (True, ?t)"
    using kf by (simp add: intTrieAdd_def Let_def f_def [symmetric] d_def [symmetric] q_def [symmetric] grown_store_def split: prod.splits)
  moreover have "trie_inv D ?t" using g(1) by (simp add: trie_inv_def)
  moreover have "contents ?t = (contents t)(k \<mapsto> [x])"
  proof -
    have "map (\<lambda>n. (tn_key n, tn_buckets n)) (tl (grown_store ?ns k x d q)) = map (\<lambda>n. (tn_key n, tn_buckets n)) (tl ?ns) @ [(k, [x])]"
      using grown_store_entries [OF g(2), of k x d "snd q"] w by (simp add: map_tl well_formed_def)
    with assms(4) show ?thesis by (auto simp: contents_def map_add_def fun_eq_iff split: option.splits)
  qed
  ultimately show ?thesis by simp
qed

lemma option_map_eqI: "(\<And>k v. m k = Some v \<longleftrightarrow> m' k = Some v) \<Longrightarrow> m = m'"
  by (rule ext) (metis option.exhaust)

lemma add_old:
  assumes "trie_inv D t" "contents t k = Some vs"
  shows "intTrieAdd t k x =
    (if tr_allowDups t then
       Inr (True, t\<lparr>tr_nodes := (tr_nodes t)[descend (tr_nodes t) k 0 (tn_left (tr_nodes t ! 0)) :=
         (tr_nodes t ! descend (tr_nodes t) k 0 (tn_left (tr_nodes t ! 0)))\<lparr>tn_buckets := vs @ [x]\<rparr>], tr_count := tr_count t + 1\<rparr>)
     else Inr (False, t))"
    "\<exists>a. a = descend (tr_nodes t) k 0 (tn_left (tr_nodes t ! 0)) \<and> 0 < a \<and> a < length (tr_nodes t) \<and> tn_key (tr_nodes t ! a) = k"
proof -
  have w: "well_formed D (tr_nodes t)" using assms(1) by (simp add: trie_inv_def)
  then obtain a where a: "0 < a" "a < length (tr_nodes t)" "tn_key (tr_nodes t ! a) = k" "tn_buckets (tr_nodes t ! a) = vs"
    using contents_iff assms(2) by blast
  have d: "descend (tr_nodes t) k 0 (tn_left (tr_nodes t ! 0)) = a" using descent(2) [OF w a(2)] a(3) by simp
  moreover have "vs \<noteq> []" using w a by (auto simp: well_formed_def)
  ultimately show "intTrieAdd t k x =
    (if tr_allowDups t then
       Inr (True, t\<lparr>tr_nodes := (tr_nodes t)[descend (tr_nodes t) k 0 (tn_left (tr_nodes t ! 0)) :=
         (tr_nodes t ! descend (tr_nodes t) k 0 (tn_left (tr_nodes t ! 0)))\<lparr>tn_buckets := vs @ [x]\<rparr>], tr_count := tr_count t + 1\<rparr>)
     else Inr (False, t))"
    using a(3,4) unfolding intTrieAdd_def Let_def d by simp
  show "\<exists>a. a = descend (tr_nodes t) k 0 (tn_left (tr_nodes t ! 0)) \<and> 0 < a \<and> a < length (tr_nodes t) \<and> tn_key (tr_nodes t ! a) = k"
    using a(1-3) d by (intro exI [of _ a]) simp
qed

lemma update_buckets:
  assumes w: "well_formed D (tr_nodes t)" and a: "0 < a" "a < length (tr_nodes t)" "tn_key (tr_nodes t ! a) = k" "ws \<noteq> []"
    and t': "tr_nodes t' = (tr_nodes t)[a := (tr_nodes t ! a)\<lparr>tn_buckets := ws\<rparr>]"
  shows "well_formed D (tr_nodes t')" "contents t' = (contents t)(k \<mapsto> ws)"
proof -
  let ?ns = "tr_nodes t" and ?ns' = "tr_nodes t'"
  have n: "?ns' ! b = (if b = a then (?ns ! a)\<lparr>tn_buckets := ws\<rparr> else ?ns ! b)" "length ?ns' = length ?ns" for b
    using a(2) by (simp_all add: t' nth_list_update)
  have e: "extends ?ns ?ns'" by (simp add: extends_def n)
  obtain s where s: "rep ?ns D (tn_left (?ns ! 0)) s" "keyed ?ns s" "distinct (inner s)" "leaves s = {..<length ?ns}"
    using w by (auto simp: well_formed_def)
  have "length ?ns \<notin> set (inner s)" using rep_in_range(2) [OF s(1)] by blast
  then have "rep ?ns' D (tn_left (?ns ! 0)) s" by (intro rep_other [OF s(1) e, of "length ?ns"]) (simp_all add: n)
  moreover have "keyed ?ns' s" using keyed_extends [OF e s(1)] s(2) by simp
  moreover have "short_key D (tn_key (?ns' ! b)) \<and> (0 < b \<longrightarrow> tn_buckets (?ns' ! b) \<noteq> [])" if "b < length ?ns" for b
    using w that a(2,4) by (simp add: n well_formed_def)
  moreover have "?ns' \<noteq> []" using a(2) n(2) by force
  ultimately show w': "well_formed D ?ns'"
    using s(3,4) w a(1) n by (auto simp: well_formed_def)
  show "contents t' = (contents t)(k \<mapsto> ws)"
  proof (rule option_map_eqI)
    fix j v
    show "contents t' j = Some v \<longleftrightarrow> ((contents t)(k \<mapsto> ws)) j = Some v"
    proof (cases "j = k")
      case True
      have "tn_key (?ns' ! b) = k \<longleftrightarrow> b = a" if "b < length ?ns" for b
      proof -
        have "tn_key (?ns' ! b) = tn_key (?ns ! b)" by (simp add: n(1))
        then show ?thesis using keys_differ [OF w that a(2)] a(3) by metis
      qed
      then have "contents t' k = Some v \<longleftrightarrow> tn_buckets (?ns' ! a) = v"
        unfolding contents_iff [OF w'] n(2) using a(1,2) by blast
      then show ?thesis using True by (auto simp: n(1))
    next
      case False
      then have "(0 < b \<and> b < length ?ns' \<and> tn_key (?ns' ! b) = j \<and> tn_buckets (?ns' ! b) = v) \<longleftrightarrow>
        (0 < b \<and> b < length ?ns \<and> tn_key (?ns ! b) = j \<and> tn_buckets (?ns ! b) = v)" for b
        using a(3) by (auto simp: n)
      then show ?thesis using False contents_iff [OF w'] contents_iff [OF w] by simp
    qed
  qed
qed

section \<open>The contract\<close>

text \<open>What a user of the trie relies on: a map that is extended, with or without several entries for a key.\<close>

definition map_put :: "bool \<Rightarrow> key \<Rightarrow> 'v \<Rightarrow> (key \<Rightarrow> 'v list option) \<Rightarrow> bool \<times> (key \<Rightarrow> 'v list option)" where
  "map_put dups k x m =
     (case m k of None \<Rightarrow> (True, m(k \<mapsto> [x])) | Some vs \<Rightarrow> if dups then (True, m(k \<mapsto> vs @ [x])) else (False, m))"

fun put_all :: "bool \<Rightarrow> (key \<times> 'v) list \<Rightarrow> (key \<Rightarrow> 'v list option) \<Rightarrow> bool list \<times> (key \<Rightarrow> 'v list option)" where
  "put_all dups [] m = ([], m)"
| "put_all dups ((k, x) # kxs) m =
     (let (b, m1) = map_put dups k x m; (bs, m2) = put_all dups kxs m1 in (b # bs, m2))"

fun add_all :: "('t \<Rightarrow> key \<Rightarrow> 'v \<Rightarrow> (bool \<times> 't) res) \<Rightarrow> (key \<times> 'v) list \<Rightarrow> 't \<Rightarrow> (bool list \<times> 't) res" where
  "add_all add [] t = Inr ([], t)"
| "add_all add ((k, x) # kxs) t = ebind (add t k x) (\<lambda>(b, t1). ebind (add_all add kxs t1) (\<lambda>(bs, t2). Inr (b # bs, t2)))"

locale key_map =
  fixes holds_map :: "'t \<Rightarrow> (key \<Rightarrow> 'v list option) \<Rightarrow> bool"
    and get :: "'t \<Rightarrow> key \<Rightarrow> 'v list option"
    and add :: "'t \<Rightarrow> key \<Rightarrow> 'v \<Rightarrow> (bool \<times> 't) res"
    and dups :: "'t \<Rightarrow> bool"
    and usable :: "key \<Rightarrow> bool"
  assumes get_law: "holds_map t m \<Longrightarrow> get t k = m k"
    and add_law: "holds_map t m \<Longrightarrow> usable k \<Longrightarrow> map_put (dups t) k x m = (b, m') \<Longrightarrow>
      \<exists>t'. add t k x = Inr (b, t') \<and> holds_map t' m' \<and> dups t' = dups t"
begin

lemma add_all_law:
  "holds_map t m \<Longrightarrow> \<forall>(k, x) \<in> set kxs. usable k \<Longrightarrow> put_all (dups t) kxs m = (bs, m') \<Longrightarrow>
     \<exists>t'. add_all add kxs t = Inr (bs, t') \<and> holds_map t' m'"
proof (induction kxs arbitrary: t m bs)
  case (Cons p kxs)
  obtain k x where p: "p = (k, x)" by fastforce
  obtain b m1 where 1: "map_put (dups t) k x m = (b, m1)" by fastforce
  obtain bs' where 2: "put_all (dups t) kxs m1 = (bs', m')" "bs = b # bs'"
    using Cons.prems(3) by (auto simp: p 1 split: prod.splits)
  from add_law [OF Cons.prems(1) _ 1] Cons.prems(2) obtain t1 where t1: "add t k x = Inr (b, t1)" "holds_map t1 m1" "dups t1 = dups t"
    by (auto simp: p)
  from Cons.IH [OF t1(2)] Cons.prems(2) 2(1) t1(3) obtain t' where "add_all add kxs t1 = Inr (bs', t')" "holds_map t' m'" by auto
  with t1(1) 2(2) show ?case by (simp add: p)
qed simp

end

definition trie_holds :: "nat \<Rightarrow> 'v trie \<Rightarrow> (key \<Rightarrow> 'v list option) \<Rightarrow> bool" where
  "trie_holds D t m \<longleftrightarrow> trie_inv D t \<and> contents t = m"

lemma trie_add_law:
  assumes "trie_holds D t m" "k \<noteq> 0 \<and> short_key D k" "map_put (tr_allowDups t) k x m = (b, m')"
  shows "\<exists>t'. intTrieAdd t k x = Inr (b, t') \<and> trie_holds D t' m' \<and> tr_allowDups t' = tr_allowDups t"
proof -
  have t: "trie_inv D t" "contents t = m" using assms(1) by (auto simp: trie_holds_def)
  show ?thesis
  proof (cases "m k")
    case None
    with add_new [OF t(1)] t(2) assms(2,3) show ?thesis by (auto simp: map_put_def trie_holds_def)
  next
    case (Some vs)
    then have c: "contents t k = Some vs" by (simp add: t(2))
    note o = add_old [OF t(1) c]
    obtain a where a: "descend (tr_nodes t) k 0 (tn_left (tr_nodes t ! 0)) = a" "0 < a" "a < length (tr_nodes t)" "tn_key (tr_nodes t ! a) = k"
      using o(2) by blast
    let ?t = "t\<lparr>tr_nodes := (tr_nodes t)[a := (tr_nodes t ! a)\<lparr>tn_buckets := vs @ [x]\<rparr>], tr_count := tr_count t + 1\<rparr>"
    have "trie_holds D ?t (m(k \<mapsto> vs @ [x]))"
      using update_buckets [of D t a k "vs @ [x]" ?t] t a by (simp add: trie_holds_def trie_inv_def)
    with o(1) [of x] Some assms(1,3) a(1) show ?thesis by (auto simp: map_put_def)
  qed
qed

interpretation tmap: key_map "trie_holds D" intTrieGet intTrieAdd tr_allowDups "\<lambda>k. k \<noteq> 0 \<and> short_key D k" for D
proof
  show "trie_holds D t m \<Longrightarrow> intTrieGet t k = m k" for t :: "'v trie" and m k
    using get_contents by (auto simp: trie_holds_def)
qed (rule trie_add_law)

text \<open>
  C24: the trie is a map: whatever entries are added for keys that are not 0 and fit its depth, every addition
  succeeds or is refused as the map says, and afterwards every key is found with the entries it has
  in the map, in their order, and no other key is found.
\<close>

theorem trie_refines_map:
  assumes "\<forall>(k, x) \<in> set kxs. k \<noteq> 0 \<and> short_key D k" "put_all dups kxs Map.empty = (bs, m)"
  shows "\<exists>t. add_all intTrieAdd kxs ((antlr3IntTrieNew D)\<lparr>tr_allowDups := dups\<rparr>) = Inr (bs, t) \<and> intTrieGet t = m"
proof -
  let ?t = "(antlr3IntTrieNew D)\<lparr>tr_allowDups := dups\<rparr>"
  have "trie_holds D ?t Map.empty" using new_inv [of D] by (auto simp: trie_holds_def trie_inv_def contents_def)
  from tmap.add_all_law [OF this assms(1)] assms(2) obtain t where "add_all intTrieAdd kxs ?t = Inr (bs, t)" "trie_holds D t m" by auto
  with tmap.get_law show ?thesis by blast
qed

lemma take_bit_short: "take_bit D k = k \<Longrightarrow> bit k i \<Longrightarrow> i < D" for k :: key
  by (metis bit_take_bit_iff)

theorem trie_refines_map_witness:
  "\<exists>t. add_all intTrieAdd [(5, CHR ''a''), (3, CHR ''b''), (5, CHR ''c'')] ((antlr3IntTrieNew 4)\<lparr>tr_allowDups := True\<rparr>) =
     Inr ([True, True, True], t) \<and> intTrieGet t 5 = Some ''ac'' \<and> intTrieGet t 4 = None"
proof -
  have "\<forall>(k, x) \<in> set [(5 :: key, CHR ''a''), (3, CHR ''b''), (5, CHR ''c'')]. k \<noteq> 0 \<and> short_key 4 k"
    using take_bit_short [of 4 5] take_bit_short [of 4 3] by simp
  from trie_refines_map [OF this, of True] show ?thesis by (fastforce simp: map_put_def)
qed

text \<open>The key 0 is that of the root: it cannot be entered, and where several entries are allowed the attempt crashes.\<close>

lemma add_zero:
  assumes "trie_inv D t"
  shows "intTrieAdd t 0 x = (if tr_allowDups t then Inl Null_Pointer else Inr (False, t))"
proof -
  have w: "well_formed D (tr_nodes t)" using assms by (simp add: trie_inv_def)
  then have r: "tn_key (tr_nodes t ! 0) = 0" "tn_buckets (tr_nodes t ! 0) = []" "0 < length (tr_nodes t)" by (auto simp: well_formed_def)
  have d: "descend (tr_nodes t) 0 0 (tn_left (tr_nodes t ! 0)) = 0" using descent(2) [OF w r(3)] r(1) by simp
  show ?thesis unfolding intTrieAdd_def Let_def d using r(1,2) by simp
qed

end
