(* ===== verification/Antlr_Memo.thy ===== *)
theory Antlr_Memo
  imports Antlr_Trie Antlr_TokenStream
begin

text \<open>
  The memory of a backtracking recognizer (\<^verbatim>\<open>antlr3baserecognizer.c\<close>): for every rule a trie of the places where
  the rule was tried, with the place where it stopped. The tries of the rules are held by pointer in
  the trie of the recognizer; the entries of that one are indices into a list of tries.
\<close>

section \<open>The operations\<close>

record memo_state =
  ms_ruleMemo :: "nat trie option"
  ms_lists :: "key trie list"
  ms_failed :: bool
  ms_backtracking :: nat
  ms_cts :: token_stream

definition MEMO_RULE_FAILED :: key where
  "MEMO_RULE_FAILED = 0xFFFFFFFE"

definition MEMO_RULE_UNKNOWN :: key where
  "MEMO_RULE_UNKNOWN = 0xFFFFFFFF"

definition seek :: "key \<Rightarrow> token_stream \<Rightarrow> token_stream" where
  "seek i cts = cts\<lparr>cts_p := unat i\<rparr>"

definition getRuleMemoization :: "key \<Rightarrow> key \<Rightarrow> memo_state \<Rightarrow> (key \<times> memo_state) res" where
  "getRuleMemoization ruleIndex ruleParseStart ms =
     (case ms_ruleMemo ms of
        None \<Rightarrow> Inl Null_Pointer
      | Some memo \<Rightarrow>
          (case intTrieGet memo ruleIndex of
            None \<Rightarrow>
              ebind (intTrieAdd memo ruleIndex (length (ms_lists ms))) (\<lambda>(_, memo1).
                Inr (MEMO_RULE_UNKNOWN, ms\<lparr>ms_ruleMemo := Some memo1, ms_lists := ms_lists ms @ [antlr3IntTrieNew 63]\<rparr>))
          | Some es \<Rightarrow>
              let stopIndex = (case intTrieGet (ms_lists ms ! hd es) ruleParseStart of None \<Rightarrow> 0 | Some vs \<Rightarrow> hd vs)
              in Inr (if stopIndex = 0 then MEMO_RULE_UNKNOWN else stopIndex, ms)))"

definition alreadyParsedRule :: "key \<Rightarrow> memo_state \<Rightarrow> (bool \<times> memo_state) res" where
  "alreadyParsedRule ruleIndex ms =
     ebind (getRuleMemoization ruleIndex (of_nat (cts_p (ms_cts ms))) ms) (\<lambda>(stopIndex, ms1).
       if stopIndex = MEMO_RULE_UNKNOWN then Inr (False, ms1)
       else if stopIndex = MEMO_RULE_FAILED then Inr (True, ms1\<lparr>ms_failed := True\<rparr>)
       else Inr (True, ms1\<lparr>ms_cts := seek (stopIndex + 1) (ms_cts ms1)\<rparr>))"

definition memoize :: "key \<Rightarrow> key \<Rightarrow> memo_state \<Rightarrow> memo_state res" where
  "memoize ruleIndex ruleParseStart ms =
     (let stopIndex = (if ms_failed ms then MEMO_RULE_FAILED else of_nat (cts_p (ms_cts ms)) - 1) in
      case ms_ruleMemo ms of
        None \<Rightarrow> Inl Null_Pointer
      | Some memo \<Rightarrow>
          (case intTrieGet memo ruleIndex of
            None \<Rightarrow> Inr ms
          | Some es \<Rightarrow>
              ebind (intTrieAdd (ms_lists ms ! hd es) ruleParseStart stopIndex) (\<lambda>(_, list1).
                Inr (ms\<lparr>ms_lists := (ms_lists ms)[hd es := list1]\<rparr>))))"

text \<open>A recognizer that memoizes starts with a trie for up to 32768 rules.\<close>

definition memo_new :: "token list \<Rightarrow> memo_state" where
  "memo_new toks = \<lparr>ms_ruleMemo = Some (antlr3IntTrieNew 15), ms_lists = [], ms_failed = False, ms_backtracking = 0, ms_cts = token_stream_new toks\<rparr>"

text \<open>A syntactic predicate tries a part of the grammar from the current token and comes back to it.\<close>

definition synpred :: "(memo_state \<Rightarrow> memo_state) \<Rightarrow> memo_state \<Rightarrow> bool \<times> memo_state" where
  "synpred predicate ms =
     (let start = of_nat (cts_p (ms_cts ms)) :: key;
          ms1 = predicate (ms\<lparr>ms_backtracking := ms_backtracking ms + 1\<rparr>);
          ms2 = ms1\<lparr>ms_cts := seek start (ms_cts ms1), ms_backtracking := ms_backtracking ms1 - 1\<rparr>
      in (\<not> ms_failed ms2, ms2\<lparr>ms_failed := False\<rparr>))"

text \<open>The reset of the recognizer drops what was memoized.\<close>

definition br_reset :: "memo_state \<Rightarrow> memo_state" where
  "br_reset ms = ms\<lparr>ms_failed := False, ms_backtracking := 0,
     ms_ruleMemo := map_option (\<lambda>_. antlr3IntTrieNew 15) (ms_ruleMemo ms), ms_lists := []\<rparr>"

section \<open>The table behind it\<close>

text \<open>For the rules that were asked for, where each one stopped from which start.\<close>

type_synonym table = "key \<Rightarrow> (key \<Rightarrow> key option) option"

definition table_get :: "key \<Rightarrow> key \<Rightarrow> table \<Rightarrow> key" where
  "table_get r p T =
     (case T r of None \<Rightarrow> MEMO_RULE_UNKNOWN
      | Some f \<Rightarrow> (case f p of None \<Rightarrow> MEMO_RULE_UNKNOWN | Some s \<Rightarrow> if s = 0 then MEMO_RULE_UNKNOWN else s))"

definition table_ask :: "key \<Rightarrow> table \<Rightarrow> table" where
  "table_ask r T = (if r = 0 \<or> T r \<noteq> None then T else T(r \<mapsto> Map.empty))"

definition table_note :: "key \<Rightarrow> key \<Rightarrow> key \<Rightarrow> table \<Rightarrow> table" where
  "table_note r p s T =
     (case T r of None \<Rightarrow> T | Some f \<Rightarrow> if p = 0 \<or> f p \<noteq> None then T else T(r \<mapsto> f(p \<mapsto> s)))"

definition starts_of :: "key trie \<Rightarrow> (key \<Rightarrow> key option) \<Rightarrow> bool" where
  "starts_of l f \<longleftrightarrow> trie_holds 63 l (\<lambda>p. map_option (\<lambda>s. [s]) (f p)) \<and> \<not> tr_allowDups l \<and> f 0 = None"

text \<open>The relation of the tries and the table: \<open>ix\<close> is the number of a rule's trie.\<close>

definition memo_holds :: "memo_state \<Rightarrow> table \<Rightarrow> bool" where
  "memo_holds ms T \<longleftrightarrow> (\<exists>memo ix. ms_ruleMemo ms = Some memo \<and> trie_holds 15 memo (\<lambda>r. map_option (\<lambda>i. [i]) (ix r)) \<and>
     \<not> tr_allowDups memo \<and> T 0 = None \<and> inj_on ix (dom ix) \<and> dom ix = dom T \<and>
     (\<forall>r i. ix r = Some i \<longrightarrow> i < length (ms_lists ms) \<and> starts_of (ms_lists ms ! i) (the (T r))))"

lemma new_holds_memo: "memo_holds (memo_new toks) Map.empty"
proof -
  have "trie_holds 15 (antlr3IntTrieNew 15) Map.empty" by (simp add: trie_holds_def new_inv)
  then show ?thesis
    unfolding memo_holds_def by (intro exI [of _ "antlr3IntTrieNew 15"] exI [of _ Map.empty]) (simp add: memo_new_def antlr3IntTrieNew_def)
qed

lemma memo_holds_frame [simp]:
  "memo_holds (ms\<lparr>ms_failed := b\<rparr>) T = memo_holds ms T" "memo_holds (ms\<lparr>ms_cts := c\<rparr>) T = memo_holds ms T"
  "memo_holds (ms\<lparr>ms_backtracking := n\<rparr>) T = memo_holds ms T"
  by (simp_all add: memo_holds_def)

lemma br_reset_holds: "memo_holds ms T \<Longrightarrow> memo_holds (br_reset ms) Map.empty"
proof -
  assume "memo_holds ms T"
  then have "ms_ruleMemo (br_reset ms) = Some (antlr3IntTrieNew 15)" by (auto simp: memo_holds_def br_reset_def)
  moreover have "trie_holds 15 (antlr3IntTrieNew 15) Map.empty" by (simp add: trie_holds_def new_inv)
  ultimately show ?thesis
    unfolding memo_holds_def by (intro exI [of _ "antlr3IntTrieNew 15"] exI [of _ Map.empty]) (simp add: antlr3IntTrieNew_def)
qed

text \<open>A predicate that balances its own backtracking leaves nothing behind but its memory.\<close>

lemma synpred_restores:
  assumes "cts_p (ms_cts ms) < 2 ^ 32" "\<And>s. cts_tokens (ms_cts (predicate s)) = cts_tokens (ms_cts s)"
    "\<And>s. ms_backtracking (predicate s) = ms_backtracking s" "\<And>s T. memo_holds s T \<Longrightarrow> \<exists>T'. memo_holds (predicate s) T'"
    "memo_holds ms T"
  obtains b ms' T' where "synpred predicate ms = (b, ms')" "ms_cts ms' = ms_cts ms" "ms_backtracking ms' = ms_backtracking ms"
    "\<not> ms_failed ms'" "memo_holds ms' T'"
proof -
  let ?s = "ms\<lparr>ms_backtracking := ms_backtracking ms + 1\<rparr>" and ?p = "cts_p (ms_cts ms)"
  have "unat (of_nat ?p :: key) = ?p" using assms(1) by (simp add: unsigned_of_nat take_bit_nat_eq_self)
  then have "seek (of_nat ?p) (ms_cts (predicate ?s)) = ms_cts ms"
    using assms(2) [of ?s] by (cases "ms_cts ms", cases "ms_cts (predicate ?s)") (simp add: seek_def)
  moreover have "memo_holds ?s T" using assms(5) by simp
  then obtain T' where "memo_holds (predicate ?s) T'" using assms(4) by blast
  ultimately show ?thesis
    by (intro that [of "fst (synpred predicate ms)" "snd (synpred predicate ms)" T']) (simp_all add: synpred_def Let_def assms(3))
qed

lemma short_63: "short_key 63 k"
  using bit_imp_le_length [of k] by fastforce

lemma ask_holds:
  assumes "memo_holds ms T" "short_key 15 r"
  shows "\<exists>ms'. getRuleMemoization r p ms = Inr (table_get r p T, ms') \<and> memo_holds ms' (table_ask r T) \<and>
    ms_failed ms' = ms_failed ms \<and> ms_cts ms' = ms_cts ms"
proof -
  obtain memo ix where m: "ms_ruleMemo ms = Some memo" "trie_holds 15 memo (\<lambda>r. map_option (\<lambda>i. [i]) (ix r))" "\<not> tr_allowDups memo"
    "T 0 = None" "inj_on ix (dom ix)" "dom ix = dom T"
    "\<And>r i. ix r = Some i \<Longrightarrow> i < length (ms_lists ms) \<and> starts_of (ms_lists ms ! i) (the (T r))"
    using assms(1) by (auto simp: memo_holds_def)
  have get: "intTrieGet memo r = map_option (\<lambda>i. [i]) (ix r)" using tmap.get_law [OF m(2)] by simp
  show ?thesis
  proof (cases "T r")
    case (Some f)
    then obtain i where i: "ix r = Some i" using m(6) by blast
    then have "starts_of (ms_lists ms ! i) f" using m(7) Some by fastforce
    then have "intTrieGet (ms_lists ms ! i) p = map_option (\<lambda>s. [s]) (f p)"
      unfolding starts_of_def using tmap.get_law by blast
    then have "getRuleMemoization r p ms = Inr (table_get r p T, ms)"
      using m(1) get i Some by (auto simp: getRuleMemoization_def table_get_def Let_def split: option.splits)
    moreover have "table_ask r T = T" using Some by (simp add: table_ask_def)
    ultimately show ?thesis using assms(1) by auto
  next
    case None
    then have ixr: "ix r = None" using m(6) by blast
    let ?n = "length (ms_lists ms)"
    have "trie_holds 63 (antlr3IntTrieNew 63) Map.empty" by (simp add: trie_holds_def new_inv)
    then have new: "starts_of (antlr3IntTrieNew 63) Map.empty" by (simp add: starts_of_def antlr3IntTrieNew_def)
    show ?thesis
    proof (cases "r = 0")
      case True
      then have "intTrieAdd memo r ?n = Inr (False, memo)" using add_zero [of 15 memo ?n] m(2,3) by (auto simp: trie_holds_def)
      then have "getRuleMemoization r p ms =
          Inr (MEMO_RULE_UNKNOWN, ms\<lparr>ms_ruleMemo := Some memo, ms_lists := ms_lists ms @ [antlr3IntTrieNew 63]\<rparr>)"
        using m(1) get ixr by (simp add: getRuleMemoization_def)
      moreover have "memo_holds (ms\<lparr>ms_ruleMemo := Some memo, ms_lists := ms_lists ms @ [antlr3IntTrieNew 63]\<rparr>) T"
        unfolding memo_holds_def using m(1-6) by (intro exI [of _ memo] exI [of _ ix]) (auto simp: nth_append dest!: m(7))
      ultimately show ?thesis using True None by (simp add: table_get_def table_ask_def)
    next
      case False
      have "map_put (tr_allowDups memo) r ?n (\<lambda>r. map_option (\<lambda>i. [i]) (ix r)) =
          (True, (\<lambda>q. map_option (\<lambda>i. [i]) ((ix(r \<mapsto> ?n)) q)))"
        using ixr by (auto simp: map_put_def fun_eq_iff)
      from tmap.add_law [OF m(2) _ this] False assms(2) obtain memo1 where
        m1: "intTrieAdd memo r ?n = Inr (True, memo1)" "trie_holds 15 memo1 (\<lambda>q. map_option (\<lambda>i. [i]) ((ix(r \<mapsto> ?n)) q))"
        "\<not> tr_allowDups memo1" using m(3) by auto
      let ?ms = "ms\<lparr>ms_ruleMemo := Some memo1, ms_lists := ms_lists ms @ [antlr3IntTrieNew 63]\<rparr>"
      have "getRuleMemoization r p ms = Inr (MEMO_RULE_UNKNOWN, ?ms)"
        using m(1) get ixr m1(1) by (simp add: getRuleMemoization_def)
      moreover have "memo_holds ?ms (T(r \<mapsto> Map.empty))"
      proof -
        have "inj_on (ix(r \<mapsto> ?n)) (dom (ix(r \<mapsto> ?n)))"
          using m(5) m(7) by (force simp: inj_on_def dom_def)
        moreover have "i < length (ms_lists ?ms) \<and> starts_of (ms_lists ?ms ! i) (the ((T(r \<mapsto> Map.empty)) q))"
          if "(ix(r \<mapsto> ?n)) q = Some i" for q i
          using that m(7) [of q i] new by (auto simp: nth_append split: if_splits)
        ultimately show ?thesis
          unfolding memo_holds_def using m1 m(4,6) False by (intro exI [of _ memo1] exI [of _ "ix(r \<mapsto> ?n)"]) auto
      qed
      ultimately show ?thesis using False None by (simp add: table_get_def table_ask_def)
    qed
  qed
qed

lemma starts_of_note:
  assumes "starts_of l f"
  shows "\<exists>b l'. intTrieAdd l p s = Inr (b, l') \<and> starts_of l' (if p = 0 \<or> f p \<noteq> None then f else f(p \<mapsto> s))"
proof (cases "p = 0")
  case True
  then have "intTrieAdd l p s = Inr (False, l)" using add_zero [of 63 l s] assms by (auto simp: starts_of_def trie_holds_def)
  with True assms show ?thesis by auto
next
  case False
  have h: "trie_holds 63 l (\<lambda>p. map_option (\<lambda>s. [s]) (f p))" "\<not> tr_allowDups l" "f 0 = None" using assms by (auto simp: starts_of_def)
  show ?thesis
  proof (cases "f p")
    case None
    then have "map_put (tr_allowDups l) p s (\<lambda>p. map_option (\<lambda>s. [s]) (f p)) = (True, (\<lambda>q. map_option (\<lambda>s. [s]) ((f(p \<mapsto> s)) q)))"
      by (auto simp: map_put_def fun_eq_iff)
    from tmap.add_law [OF h(1) _ this] False short_63 None h(2,3) show ?thesis by (fastforce simp: starts_of_def)
  next
    case (Some v)
    then have "map_put (tr_allowDups l) p s (\<lambda>p. map_option (\<lambda>s. [s]) (f p)) = (False, (\<lambda>p. map_option (\<lambda>s. [s]) (f p)))"
      using h(2) by (simp add: map_put_def)
    from tmap.add_law [OF h(1) _ this] False short_63 Some h(2,3) show ?thesis by (fastforce simp: starts_of_def)
  qed
qed

definition stop_of :: "bool \<Rightarrow> nat \<Rightarrow> key" where
  "stop_of failed q = (if failed then MEMO_RULE_FAILED else of_nat q - 1)"

lemma note_holds:
  assumes "memo_holds ms T"
  shows "\<exists>ms'. memoize r p ms = Inr ms' \<and> memo_holds ms' (table_note r p (stop_of (ms_failed ms) (cts_p (ms_cts ms))) T)"
proof -
  let ?s = "stop_of (ms_failed ms) (cts_p (ms_cts ms))"
  obtain memo ix where m: "ms_ruleMemo ms = Some memo" "trie_holds 15 memo (\<lambda>r. map_option (\<lambda>i. [i]) (ix r))" "\<not> tr_allowDups memo"
    "T 0 = None" "inj_on ix (dom ix)" "dom ix = dom T"
    "\<And>r i. ix r = Some i \<Longrightarrow> i < length (ms_lists ms) \<and> starts_of (ms_lists ms ! i) (the (T r))"
    using assms(1) by (auto simp: memo_holds_def)
  have get: "intTrieGet memo r = map_option (\<lambda>i. [i]) (ix r)" using tmap.get_law [OF m(2)] by simp
  show ?thesis
  proof (cases "T r")
    case None
    then have "ix r = None" using m(6) by blast
    with m(1) get None assms show ?thesis by (simp add: memoize_def table_note_def)
  next
    case (Some f)
    then obtain i where i: "ix r = Some i" using m(6) by blast
    let ?f = "if p = 0 \<or> f p \<noteq> None then f else f(p \<mapsto> ?s)"
    have li: "i < length (ms_lists ms)" "starts_of (ms_lists ms ! i) f" using m(7) [OF i] Some by auto
    from starts_of_note [OF li(2)] obtain b l where l: "intTrieAdd (ms_lists ms ! i) p ?s = Inr (b, l)" "starts_of l ?f" by blast
    let ?ms = "ms\<lparr>ms_lists := (ms_lists ms)[i := l]\<rparr>"
    have "memoize r p ms = Inr ?ms" using m(1) get i l(1) by (simp add: memoize_def stop_of_def Let_def)
    moreover have "memo_holds ?ms (T(r \<mapsto> ?f))"
    proof -
      have "j < length (ms_lists ?ms) \<and> starts_of (ms_lists ?ms ! j) (the ((T(r \<mapsto> ?f)) q))" if q: "ix q = Some j" for q j
      proof (cases "q = r")
        case True
        with q i li(1) l(2) show ?thesis by simp
      next
        case False
        then have "j \<noteq> i" using m(5) i q by (auto simp: inj_on_def dom_def)
        with False m(7) [OF q] show ?thesis by simp
      qed
      moreover have "T r \<noteq> None" "r \<noteq> 0" using Some m(4) by auto
      ultimately show ?thesis
        unfolding memo_holds_def using m(1-6) by (intro exI [of _ memo] exI [of _ ix]) (auto simp: dom_def)
    qed
    moreover have "T(r \<mapsto> ?f) = table_note r p ?s T" using Some by (auto simp: table_note_def fun_eq_iff)
    ultimately show ?thesis by auto
  qed
qed

section \<open>Rules and their outcomes\<close>

text \<open>
  What a recognizer does with its memory: it asks at a token whether a rule was parsed from there, and it notes
  that a rule was tried from one token to another, or failed. The position and the flag are what the
  parse in between left.
\<close>

datatype memo_op = Ask key nat | Note key nat nat bool

abbreviation left_at :: "nat \<Rightarrow> bool \<Rightarrow> memo_state \<Rightarrow> memo_state" where
  "left_at p failed ms \<equiv> ms\<lparr>ms_failed := failed, ms_cts := (ms_cts ms)\<lparr>cts_p := p\<rparr>\<rparr>"

fun memo_step :: "memo_op \<Rightarrow> memo_state \<Rightarrow> memo_state res" where
  "memo_step (Ask r p) ms = ebind (alreadyParsedRule r (left_at p False ms)) (\<lambda>(_, ms1). Inr ms1)"
| "memo_step (Note r start q failed) ms = memoize r (of_nat start) (left_at q failed ms)"

fun memo_run :: "memo_op list \<Rightarrow> memo_state \<Rightarrow> memo_state res" where
  "memo_run [] ms = Inr ms"
| "memo_run (op # ops) ms = ebind (memo_step op ms) (memo_run ops)"

fun table_step :: "memo_op \<Rightarrow> table \<Rightarrow> table" where
  "table_step (Ask r p) T = table_ask r T"
| "table_step (Note r start q failed) T = table_note r (of_nat start) (stop_of failed q) T"

definition rule_small :: "memo_op \<Rightarrow> bool" where
  "rule_small op = (case op of Ask r p \<Rightarrow> short_key 15 r | _ \<Rightarrow> True)"

lemma memo_step_holds:
  assumes "memo_holds ms T" "rule_small op"
  shows "\<exists>ms'. memo_step op ms = Inr ms' \<and> memo_holds ms' (table_step op T)"
proof (cases op)
  case (Ask r p)
  have "memo_holds (left_at p False ms) T" using assms(1) by simp
  from ask_holds [OF this, of r "of_nat p"] assms(2) Ask obtain ms' where
    "getRuleMemoization r (of_nat p) (left_at p False ms) = Inr (table_get r (of_nat p) T, ms')" "memo_holds ms' (table_ask r T)"
    by (auto simp: rule_small_def)
  with Ask show ?thesis by (simp add: alreadyParsedRule_def)
next
  case (Note r p q failed)
  have "memo_holds (left_at q failed ms) T" using assms(1) by simp
  from note_holds [OF this, of r "of_nat p"] Note show ?thesis by simp
qed

lemma memo_run_holds:
  assumes "memo_holds ms T" "\<forall>op \<in> set ops. rule_small op"
  shows "\<exists>ms'. memo_run ops ms = Inr ms' \<and> memo_holds ms' (fold table_step ops T)"
  using assms
proof (induction ops arbitrary: ms T)
  case (Cons op ops)
  from memo_step_holds [OF Cons.prems(1)] Cons.prems(2) obtain ms' where
    "memo_step op ms = Inr ms'" "memo_holds ms' (table_step op T)" by auto
  with Cons.IH [OF this(2)] Cons.prems(2) show ?case by simp
qed simp

lemma table_entries:
  assumes "fold table_step ops T r = Some f" "f p = Some s"
  shows "(\<exists>g. T r = Some g \<and> g p = Some s) \<or> (\<exists>start q failed. Note r start q failed \<in> set ops \<and> of_nat start = p \<and> s = stop_of failed q)"
  using assms(1)
proof (induction ops arbitrary: T)
  case Nil
  then show ?case using assms(2) by simp
next
  case (Cons op ops)
  then consider (old) g where "table_step op T r = Some g" "g p = Some s"
    | (new) "\<exists>start q failed. Note r start q failed \<in> set ops \<and> of_nat start = p \<and> s = stop_of failed q" by fastforce
  then show ?case
  proof cases
    case old
    then show ?thesis
      by (cases op) (fastforce simp: table_ask_def table_note_def split: if_splits option.splits)+
  next
    case new
    then show ?thesis by auto
  qed
qed

definition in_range :: "memo_op \<Rightarrow> bool" where
  "in_range op \<longleftrightarrow> rule_small op \<and> (case op of Ask r p \<Rightarrow> True | Note r start q failed \<Rightarrow> start < 2 ^ 32 - 1 \<and> q < 2 ^ 32 - 1)"

lemma unat_key: "q < 2 ^ 32 \<Longrightarrow> unat (of_nat q :: key) = q"
  by (simp add: unsigned_of_nat take_bit_nat_eq_self)

lemma of_nat_key_eq: "p < 2 ^ 32 \<Longrightarrow> q < 2 ^ 32 \<Longrightarrow> (of_nat p :: key) = of_nat q \<longleftrightarrow> p = q"
  by (metis unat_key)

lemma stop_not_failed: "q < 2 ^ 32 - 1 \<Longrightarrow> of_nat q - 1 \<noteq> MEMO_RULE_FAILED"
proof
  assume "q < 2 ^ 32 - 1" "of_nat q - 1 = MEMO_RULE_FAILED"
  then have "(of_nat q :: key) = of_nat (2 ^ 32 - 1)" by (simp add: MEMO_RULE_FAILED_def diff_eq_eq)
  with of_nat_key_eq [of q "2 ^ 32 - 1"] \<open>q < 2 ^ 32 - 1\<close> show False by simp
qed

text \<open>
  C25: a rule is skipped only if it was tried from the same token before, and then the recognizer is brought where that
  attempt left it: to the token where the rule stopped, or to its failure. For whatever was asked and noted before, no
  call crashes, and if the rule is not skipped, position and flag are as they were.
\<close>

theorem memo_sound:
  assumes "\<forall>op \<in> set ops. in_range op" "short_key 15 r" "p < 2 ^ 32 - 1"
  shows "\<exists>ms b ms'. memo_run ops (memo_new toks) = Inr ms \<and> alreadyParsedRule r (left_at p False ms) = Inr (b, ms') \<and>
    (if b then \<exists>q failed. Note r p q failed \<in> set ops \<and> ms_failed ms' = failed \<and> cts_p (ms_cts ms') = (if failed then p else q)
     else \<not> ms_failed ms' \<and> cts_p (ms_cts ms') = p)"
proof -
  let ?T = "fold table_step ops Map.empty" and ?p = "of_nat p :: key"
  have "\<forall>op \<in> set ops. rule_small op" using assms(1) by (auto simp: in_range_def)
  from memo_run_holds [OF new_holds_memo [of toks] this] obtain ms where
    ms: "memo_run ops (memo_new toks) = Inr ms" "memo_holds (left_at p False ms) ?T" by auto
  from ask_holds [OF ms(2) assms(2), of ?p] obtain ms1 where
    ms1: "getRuleMemoization r ?p (left_at p False ms) = Inr (table_get r ?p ?T, ms1)" "\<not> ms_failed ms1" "cts_p (ms_cts ms1) = p" by auto
  show ?thesis
  proof (cases "table_get r ?p ?T = MEMO_RULE_UNKNOWN")
    case True
    with ms(1) ms1 show ?thesis by (auto simp: alreadyParsedRule_def)
  next
    case False
    then obtain f s where f: "?T r = Some f" "f ?p = Some s" "table_get r ?p ?T = s"
      by (auto simp: table_get_def split: option.splits if_splits)
    from table_entries [OF f(1,2)] obtain start q failed where
      n: "Note r start q failed \<in> set ops" "of_nat start = ?p" "s = stop_of failed q" by auto
    have range: "start < 2 ^ 32 - 1" "q < 2 ^ 32 - 1" using assms(1) n(1) by (auto simp: in_range_def)
    have "start = p" using of_nat_key_eq [of start p] n(2) range(1) assms(3) by simp
    moreover have "unat (of_nat q :: key) = q" using unat_key [of q] range(2) by simp
    ultimately show ?thesis
      using ms(1) ms1 f(3) n(1,3) False stop_not_failed [OF range(2)]
      by (cases failed) (auto simp: alreadyParsedRule_def seek_def stop_of_def)
  qed
qed

theorem memo_sound_witness:
  "\<exists>ms b ms'. memo_run [Ask 3 5, Note 3 5 9 False] (memo_new []) = Inr ms \<and> alreadyParsedRule 3 (left_at 5 False ms) = Inr (b, ms') \<and>
    (if b then \<exists>q failed. Note 3 5 q failed \<in> set [Ask 3 5, Note 3 5 9 False] \<and> ms_failed ms' = failed \<and>
       cts_p (ms_cts ms') = (if failed then 5 else q)
     else \<not> ms_failed ms' \<and> cts_p (ms_cts ms') = 5)"
proof (rule memo_sound)
  show s: "short_key 15 3" using take_bit_short [of 15 3] by simp
  show "\<forall>op \<in> set [Ask 3 5, Note 3 5 9 False]. in_range op" using s by (simp add: in_range_def rule_small_def)
qed simp

lemma table_keeps:
  assumes "T r = Some f"
  shows "\<exists>g. fold table_step ops T r = Some g \<and> (\<forall>s. f p = Some s \<longrightarrow> g p = Some s)"
  using assms
proof (induction ops arbitrary: T f)
  case (Cons op ops)
  then have "\<exists>g. table_step op T r = Some g \<and> (\<forall>s. f p = Some s \<longrightarrow> g p = Some s)"
    by (cases op) (auto simp: table_ask_def table_note_def split: option.splits)
  then obtain g where g: "table_step op T r = Some g" "\<forall>s. f p = Some s \<longrightarrow> g p = Some s" by blast
  from Cons.IH [of "table_step op T" g] g show ?case by auto
qed simp

lemma asked_known:
  assumes "Ask r p \<in> set ops" "r \<noteq> 0"
  shows "fold table_step ops T r \<noteq> None"
proof -
  obtain us vs where ops: "ops = us @ Ask r p # vs" using assms(1) by (auto simp: in_set_conv_decomp)
  let ?T = "fold table_step us T"
  have "table_step (Ask r p) ?T r \<noteq> None" using assms(2) by (simp add: table_ask_def)
  then obtain f where "table_step (Ask r p) ?T r = Some f" by blast
  from table_keeps [of "table_step (Ask r p) ?T" r f vs, OF this] show ?thesis by (auto simp: ops)
qed

lemma stop_of_known: "failed \<or> 2 \<le> q \<and> q < 2 ^ 32 \<Longrightarrow> stop_of failed q \<noteq> 0 \<and> stop_of failed q \<noteq> MEMO_RULE_UNKNOWN"
proof (cases failed)
  case False
  moreover assume "failed \<or> 2 \<le> q \<and> q < 2 ^ 32"
  ultimately have "(of_nat q :: key) \<noteq> of_nat 1" "(of_nat q :: key) \<noteq> of_nat 0" using of_nat_key_eq [of q 1] of_nat_key_eq [of q 0] by auto
  then show ?thesis using False by (auto simp: stop_of_def MEMO_RULE_UNKNOWN_def diff_eq_eq)
qed (simp add: stop_of_def MEMO_RULE_FAILED_def MEMO_RULE_UNKNOWN_def)

text \<open>
  What was noted is found again: if the rule has been asked for, and each attempt from the token ended as this one
  did, then the rule is skipped from that token on, whatever is noted afterwards. Neither the rule nor the token may have
  the number 0, and the rule must have stopped behind the second token or failed: otherwise the parse is repeated.
\<close>

theorem memo_hits:
  assumes "\<forall>op \<in> set (us @ Note r p q failed # vs). in_range op" "Ask r p' \<in> set us" "short_key 15 r" "r \<noteq> 0" "p \<noteq> 0"
    "\<forall>q' failed'. Note r p q' failed' \<in> set us \<longrightarrow> q' = q \<and> failed' = failed" "failed \<or> 2 \<le> q"
  shows "\<exists>ms ms'. memo_run (us @ Note r p q failed # vs) (memo_new toks) = Inr ms \<and>
    alreadyParsedRule r (left_at p False ms) = Inr (True, ms') \<and> ms_failed ms' = failed \<and> cts_p (ms_cts ms') = (if failed then p else q)"
proof -
  let ?p = "of_nat p :: key" and ?ops = "us @ Note r p q failed # vs"
  let ?T = "fold table_step us Map.empty"
  have range: "p < 2 ^ 32 - 1" "q < 2 ^ 32 - 1" using assms(1) by (auto simp: in_range_def)
  have p0: "?p \<noteq> 0" using of_nat_key_eq [of p 0] range(1) assms(5) by simp
  obtain f where f: "?T r = Some f" using asked_known [OF assms(2,4), of Map.empty] by blast
  have old: "s = stop_of failed q" if "f ?p = Some s" for s
  proof -
    from table_entries [OF f that] obtain start q' failed' where
      n: "Note r start q' failed' \<in> set us" "of_nat start = ?p" "s = stop_of failed' q'" by auto
    have "in_range (Note r start q' failed')" using n(1) assms(1) by simp
    then have "start < 2 ^ 32 - 1" by (simp add: in_range_def)
    then have "start = p" using of_nat_key_eq [of start p] n(2) range(1) by simp
    with n assms(6) show ?thesis by blast
  qed
  have "\<exists>g. table_step (Note r p q failed) ?T r = Some g \<and> g ?p = Some (stop_of failed q)"
    using f p0 old by (auto simp: table_note_def)
  then obtain g where g: "table_step (Note r p q failed) ?T r = Some g" "g ?p = Some (stop_of failed q)" by blast
  from table_keeps [of "table_step (Note r p q failed) ?T" r g vs ?p, OF g(1)] g(2) obtain h where
    h: "fold table_step ?ops Map.empty r = Some h" "h ?p = Some (stop_of failed q)" by auto
  have known: "stop_of failed q \<noteq> 0" "stop_of failed q \<noteq> MEMO_RULE_UNKNOWN" using stop_of_known [of failed q] assms(7) range(2) by auto
  then have get: "table_get r ?p (fold table_step ?ops Map.empty) = stop_of failed q" using h by (simp add: table_get_def)
  have "\<forall>op \<in> set ?ops. rule_small op" using assms(1) by (auto simp: in_range_def)
  from memo_run_holds [OF new_holds_memo [of toks] this] obtain ms where
    ms: "memo_run ?ops (memo_new toks) = Inr ms" "memo_holds (left_at p False ms) (fold table_step ?ops Map.empty)" by auto
  from ask_holds [OF ms(2) assms(3), of ?p] get obtain ms1 where
    "getRuleMemoization r ?p (left_at p False ms) = Inr (stop_of failed q, ms1)" "\<not> ms_failed ms1" "cts_p (ms_cts ms1) = p" by auto
  then show ?thesis
    using ms(1) known(2) stop_not_failed [OF range(2)] unat_key [of q] range(2)
    by (cases failed) (auto simp: alreadyParsedRule_def seek_def stop_of_def)
qed

theorem memo_hits_witness:
  "\<exists>ms ms'. memo_run ([Ask 3 5] @ Note 3 5 9 False # [Note 3 5 11 True]) (memo_new []) = Inr ms \<and>
    alreadyParsedRule 3 (left_at 5 False ms) = Inr (True, ms') \<and> ms_failed ms' = False \<and> cts_p (ms_cts ms') = (if False then 5 else 9)"
proof (rule memo_hits)
  show s: "short_key 15 3" using take_bit_short [of 15 3] by simp
  show "\<forall>op \<in> set ([Ask 3 5] @ Note 3 5 9 False # [Note 3 5 11 True]). in_range op" using s by (simp add: in_range_def rule_small_def)
qed auto

text \<open>At the first token nothing is remembered: its number is the key of the root.\<close>

lemma first_token_forgotten: "table_note r 0 s T = T"
  by (simp add: table_note_def split: option.split)

end
