(* ===== verification/Antlr_Hash.thy ===== *)
theory Antlr_Hash
  imports RM_Prelude "HOL-Library.Word"
begin

text \<open>
  The hash tables of the ANTLR run time (\<^verbatim>\<open>antlr3collections.c\<close>), their enumeration and the lists that are built
  on them. The chain of a bucket is a list of entries; a table may be used with numbers or with texts as keys, and
  an entry does not check with which of the two it was made. A \<^verbatim>\<open>void *\<close> is an option, \<open>None\<close> the null pointer; the
  calls of free functions are part of the results.
\<close>

unbundle bit_operations_syntax

section \<open>Tables\<close>

type_synonym intkey = "32 word"

datatype hash_key = is_IKey: IKey intkey | is_SKey: SKey string

record 'a hentry =
  he_key :: hash_key
  he_data :: "'a option"
  he_free :: bool

record 'a htable =
  ht_allowDups :: bool
  ht_modulo :: nat
  ht_buckets :: "'a hentry list list"
  ht_count :: nat
  ht_doStrdup :: bool

definition ANTLR3_SUCCESS :: int where
  "ANTLR3_SUCCESS = 0"

definition ANTLR3_ERR_HASHDUP :: int where
  "ANTLR3_ERR_HASHDUP = 3"

definition antlr3HashTableNew :: "nat \<Rightarrow> 'a htable" where
  "antlr3HashTableNew sizeHint =
     \<lparr>ht_allowDups = False, ht_modulo = sizeHint, ht_buckets = replicate sizeHint [], ht_count = 0, ht_doStrdup = True\<rparr>"

definition hash_byte :: "intkey \<Rightarrow> char \<Rightarrow> intkey" where
  "hash_byte hash c =
     (let h = push_bit 4 hash + of_char c; i1 = h AND 0xF0000000 in
      if i1 \<noteq> 0 then (h XOR drop_bit 24 i1) XOR i1 else h)"

definition antlr3Hash :: "string \<Rightarrow> intkey" where
  "antlr3Hash key = foldl hash_byte 0 key"

text \<open>The bucket of a key. A table that was made without buckets divides by 0.\<close>

definition hash_of :: "'a htable \<Rightarrow> hash_key \<Rightarrow> nat" where
  "hash_of t k = unat (case k of IKey n \<Rightarrow> n | SKey s \<Rightarrow> antlr3Hash s) mod ht_modulo t"

definition bucket_of :: "'a htable \<Rightarrow> hash_key \<Rightarrow> nat res" where
  "bucket_of t k = (if ht_modulo t = 0 then Inl Killed else Inr (hash_of t k))"

text \<open>
  The comparison with the key of an entry. The fields of the key share their memory: a text is compared
  with a number by reading at the address that the number is, and a number with the address of a text.
\<close>

fun key_matches :: "hash_key \<Rightarrow> hash_key \<Rightarrow> bool res" where
  "key_matches (IKey a) (IKey b) = Inr (b = a)"
| "key_matches (SKey a) (SKey b) = Inr (a = b)"
| "key_matches (SKey a) (IKey b) = Inl Bad_Index"
| "key_matches (IKey a) (SKey b) = Inl Uninitialised"

fun find_entry :: "hash_key \<Rightarrow> 'a hentry list \<Rightarrow> 'a hentry option res" where
  "find_entry k [] = Inr None"
| "find_entry k (e # es) = ebind (key_matches k (he_key e)) (\<lambda>b. if b then Inr (Some e) else find_entry k es)"

fun take_out :: "hash_key \<Rightarrow> 'a hentry list \<Rightarrow> ('a hentry option \<times> 'a hentry list) res" where
  "take_out k [] = Inr (None, [])"
| "take_out k (e # es) =
     ebind (key_matches k (he_key e)) (\<lambda>b.
       if b then Inr (Some e, es) else ebind (take_out k es) (\<lambda>(r, es1). Inr (r, e # es1)))"

text \<open>The walk to the end of the chain, where a new entry is hung; \<open>None\<close> if the key is found on the way.\<close>

fun chain_end :: "bool \<Rightarrow> hash_key \<Rightarrow> 'a hentry \<Rightarrow> 'a hentry list \<Rightarrow> 'a hentry list option res" where
  "chain_end dups k new [] = Inr (Some [new])"
| "chain_end dups k new (e # es) =
     ebind (if dups then Inr False else key_matches k (he_key e)) (\<lambda>b.
       if b then Inr None else ebind (chain_end dups k new es) (\<lambda>r. Inr (map_option (\<lambda>es1. e # es1) r)))"

definition hash_get :: "'a htable \<Rightarrow> hash_key \<Rightarrow> 'a option res" where
  "hash_get t k =
     ebind (bucket_of t k) (\<lambda>h. ebind (find_entry k (ht_buckets t ! h)) (\<lambda>r.
       Inr (case r of None \<Rightarrow> None | Some e \<Rightarrow> he_data e)))"

definition hash_put :: "'a htable \<Rightarrow> hash_key \<Rightarrow> 'a option \<Rightarrow> bool \<Rightarrow> (int \<times> 'a htable) res" where
  "hash_put t k element freeptr =
     ebind (bucket_of t k) (\<lambda>h.
       ebind (chain_end (ht_allowDups t) k \<lparr>he_key = k, he_data = element, he_free = freeptr\<rparr> (ht_buckets t ! h)) (\<lambda>r.
         case r of
           None \<Rightarrow> Inr (ANTLR3_ERR_HASHDUP, t)
         | Some es \<Rightarrow> Inr (ANTLR3_SUCCESS, t\<lparr>ht_buckets := (ht_buckets t)[h := es], ht_count := ht_count t + 1\<rparr>)))"

definition hash_remove :: "'a htable \<Rightarrow> hash_key \<Rightarrow> ('a hentry option \<times> 'a htable) res" where
  "hash_remove t k =
     ebind (bucket_of t k) (\<lambda>h. ebind (take_out k (ht_buckets t ! h)) (\<lambda>(r, es).
       case r of
         None \<Rightarrow> Inr (None, t)
       | Some e \<Rightarrow> Inr (Some e, t\<lparr>ht_buckets := (ht_buckets t)[h := es], ht_count := ht_count t - 1\<rparr>)))"

text \<open>The data that is freed.\<close>

definition free_data :: "'a hentry \<Rightarrow> 'a option list" where
  "free_data e = (if he_free e then [he_data e] else [])"

definition hash_delete :: "'a htable \<Rightarrow> hash_key \<Rightarrow> ('a option list \<times> 'a htable) res" where
  "hash_delete t k =
     ebind (hash_remove t k) (\<lambda>(r, t1). Inr (case r of None \<Rightarrow> [] | Some e \<Rightarrow> free_data e, t1))"

text \<open>The operations for the two kinds of keys.\<close>

abbreviation antlr3HashGetI :: "'a htable \<Rightarrow> intkey \<Rightarrow> 'a option res" where
  "antlr3HashGetI t n \<equiv> hash_get t (IKey n)"

abbreviation antlr3HashGet :: "'a htable \<Rightarrow> string \<Rightarrow> 'a option res" where
  "antlr3HashGet t s \<equiv> hash_get t (SKey s)"

abbreviation antlr3HashPutI :: "'a htable \<Rightarrow> intkey \<Rightarrow> 'a option \<Rightarrow> bool \<Rightarrow> (int \<times> 'a htable) res" where
  "antlr3HashPutI t n \<equiv> hash_put t (IKey n)"

abbreviation antlr3HashPut :: "'a htable \<Rightarrow> string \<Rightarrow> 'a option \<Rightarrow> bool \<Rightarrow> (int \<times> 'a htable) res" where
  "antlr3HashPut t s \<equiv> hash_put t (SKey s)"

abbreviation antlr3HashRemoveI :: "'a htable \<Rightarrow> intkey \<Rightarrow> ('a hentry option \<times> 'a htable) res" where
  "antlr3HashRemoveI t n \<equiv> hash_remove t (IKey n)"

abbreviation antlr3HashRemove :: "'a htable \<Rightarrow> string \<Rightarrow> ('a hentry option \<times> 'a htable) res" where
  "antlr3HashRemove t s \<equiv> hash_remove t (SKey s)"

abbreviation antlr3HashDeleteI :: "'a htable \<Rightarrow> intkey \<Rightarrow> ('a option list \<times> 'a htable) res" where
  "antlr3HashDeleteI t n \<equiv> hash_delete t (IKey n)"

abbreviation antlr3HashDelete :: "'a htable \<Rightarrow> string \<Rightarrow> ('a option list \<times> 'a htable) res" where
  "antlr3HashDelete t s \<equiv> hash_delete t (SKey s)"

definition antlr3HashSize :: "'a htable \<Rightarrow> nat" where
  "antlr3HashSize t = ht_count t"

text \<open>
  The release of a table: the data that is freed, bucket by bucket, and the texts of the keys that are freed,
  which does not depend on whether the table made copies of them.
\<close>

definition antlr3HashFree :: "'a htable \<Rightarrow> 'a option list \<times> string list" where
  "antlr3HashFree t =
     (let es = concat (take (ht_modulo t) (ht_buckets t)) in
      (concat (map free_data es), concat (map (\<lambda>e. case he_key e of IKey n \<Rightarrow> [] | SKey s \<Rightarrow> [s]) es)))"

section \<open>Enumeration\<close>

text \<open>The entry an enumeration stands at is the first of the rest of its chain.\<close>

record 'a henum =
  en_table :: "'a htable"
  en_bucket :: nat
  en_entry :: "'a hentry list"

function next_bucket :: "'a htable \<Rightarrow> nat \<Rightarrow> 'a hentry list \<Rightarrow> nat \<times> 'a hentry list" where
  "next_bucket t b es =
     (if b < ht_modulo t then if ht_buckets t ! b \<noteq> [] then (b, ht_buckets t ! b) else next_bucket t (b + 1) es else (b, es))"
  by pat_completeness auto
termination by (relation "measure (\<lambda>(t, b, es). ht_modulo t - b)") auto

declare next_bucket.simps [simp del]

definition antlr3EnumNextEntry :: "'a henum \<Rightarrow> 'a henum" where
  "antlr3EnumNextEntry en =
     (if en_entry en \<noteq> [] \<and> tl (en_entry en) \<noteq> [] then en\<lparr>en_entry := tl (en_entry en)\<rparr>
      else let (b, es) = next_bucket (en_table en) (en_bucket en + 1) (en_entry en) in en\<lparr>en_bucket := b, en_entry := es\<rparr>)"

definition antlr3EnumNew :: "'a htable \<Rightarrow> 'a henum res" where
  "antlr3EnumNew t =
     (if ht_buckets t = [] then Inl Bad_Index
      else
        let en = \<lparr>en_table = t, en_bucket = 0, en_entry = ht_buckets t ! 0\<rparr> in
        Inr (if en_entry en = [] then antlr3EnumNextEntry en else en))"

text \<open>\<open>None\<close> stands for \<^verbatim>\<open>ANTLR3_FAIL\<close>, the end.\<close>

definition antlr3EnumNext :: "'a henum \<Rightarrow> ((hash_key \<times> 'a option) option \<times> 'a henum) res" where
  "antlr3EnumNext en =
     (if ht_modulo (en_table en) \<le> en_bucket en then Inr (None, en)
      else
        (case en_entry en of
           [] \<Rightarrow> Inl Null_Pointer
         | e # _ \<Rightarrow> Inr (Some (he_key e, he_data e), antlr3EnumNextEntry en)))"

section \<open>Lists\<close>

text \<open>A list is a table with numbers as keys; a new element gets the number after the size.\<close>

definition antlr3ListNew :: "nat \<Rightarrow> 'a htable" where
  "antlr3ListNew sizeHint = antlr3HashTableNew sizeHint"

definition antlr3ListGet :: "'a htable \<Rightarrow> intkey \<Rightarrow> 'a option res" where
  "antlr3ListGet l key = antlr3HashGetI l key"

definition antlr3ListPut :: "'a htable \<Rightarrow> intkey \<Rightarrow> 'a option \<Rightarrow> bool \<Rightarrow> (int \<times> 'a htable) res" where
  "antlr3ListPut l key element freeptr = antlr3HashPutI l key element freeptr"

definition antlr3ListAdd :: "'a htable \<Rightarrow> 'a option \<Rightarrow> bool \<Rightarrow> (int \<times> 'a htable) res" where
  "antlr3ListAdd l element freeptr = antlr3ListPut l (of_nat (antlr3HashSize l + 1)) element freeptr"

definition antlr3ListRemove :: "'a htable \<Rightarrow> intkey \<Rightarrow> ('a option \<times> 'a htable) res" where
  "antlr3ListRemove l key =
     ebind (antlr3HashRemoveI l key) (\<lambda>(r, l1). Inr (case r of None \<Rightarrow> None | Some e \<Rightarrow> he_data e, l1))"

definition antlr3ListDelete :: "'a htable \<Rightarrow> intkey \<Rightarrow> ('a option list \<times> 'a htable) res" where
  "antlr3ListDelete l key = antlr3HashDeleteI l key"

section \<open>Chains\<close>

abbreviation comparable :: "hash_key \<Rightarrow> 'a hentry list \<Rightarrow> bool" where
  "comparable k es \<equiv> \<forall>e \<in> set es. key_matches k (he_key e) = Inr (he_key e = k)"

abbreviation entries_of :: "hash_key \<Rightarrow> 'a hentry list \<Rightarrow> 'a hentry list" where
  "entries_of k es \<equiv> filter (\<lambda>e. he_key e = k) es"

lemma find_entry_first:
  "comparable k es \<Longrightarrow> find_entry k es = Inr (case entries_of k es of [] \<Rightarrow> None | e # _ \<Rightarrow> Some e)"
  by (induction es) auto

lemma chain_end_appends:
  "comparable k es \<Longrightarrow> chain_end dups k new es = Inr (if \<not> dups \<and> entries_of k es \<noteq> [] then None else Some (es @ [new]))"
  by (induction es) auto

definition taken_out :: "hash_key \<Rightarrow> 'a hentry list \<Rightarrow> 'a hentry option \<Rightarrow> 'a hentry list \<Rightarrow> bool" where
  "taken_out k es r es' \<longleftrightarrow>
     (case r of
        None \<Rightarrow> es' = es \<and> entries_of k es = []
      | Some e \<Rightarrow> entries_of k es = e # entries_of k es' \<and> (\<forall>k'. k' \<noteq> k \<longrightarrow> entries_of k' es' = entries_of k' es) \<and> set es' \<subseteq> set es)"

lemma take_out_first:
  assumes "comparable k es"
  shows "\<exists>r es'. take_out k es = Inr (r, es') \<and> taken_out k es r es'"
  using assms
proof (induction es)
  case (Cons e es)
  show ?case
  proof (cases "he_key e = k")
    case True
    with Cons.prems have "take_out k (e # es) = Inr (Some e, es)" by simp
    moreover have "taken_out k (e # es) (Some e) es" using True by (auto simp: taken_out_def)
    ultimately show ?thesis by blast
  next
    case False
    from Cons obtain r es' where r: "take_out k es = Inr (r, es')" "taken_out k es r es'" by auto
    have "take_out k (e # es) = Inr (r, e # es')" using Cons.prems False r(1) by simp
    moreover have "taken_out k (e # es) r (e # es')" using False r(2) by (cases r) (auto simp: taken_out_def)
    ultimately show ?thesis by blast
  qed
qed (simp add: taken_out_def)

section \<open>The contract of a table\<close>

text \<open>
  A table with keys of one kind holds for every key the data that was put under it, in that order, of which
  \<^verbatim>\<open>get\<close> and \<^verbatim>\<open>remove\<close> see the first.
\<close>

type_synonym ('k, 'a) multi = "'k \<Rightarrow> ('a option \<times> bool) list"

definition first_data :: "('a option \<times> bool) list \<Rightarrow> 'a option" where
  "first_data ds = (case ds of [] \<Rightarrow> None | d # _ \<Rightarrow> fst d)"

datatype ('k, 'a) dict_op = Store 'k "'a option" bool | Fetch 'k | Erase 'k

datatype 'a dict_answer = Stored bool | Fetched "'a option" | Erased "'a option list"

fun multi_step :: "bool \<Rightarrow> ('k, 'a) dict_op \<Rightarrow> ('k, 'a) multi \<Rightarrow> 'a dict_answer \<times> ('k, 'a) multi" where
  "multi_step dups (Store k d f) m =
     (if \<not> dups \<and> m k \<noteq> [] then (Stored False, m) else (Stored True, m(k := m k @ [(d, f)])))"
| "multi_step dups (Fetch k) m = (Fetched (first_data (m k)), m)"
| "multi_step dups (Erase k) m =
     (Erased (case m k of [] \<Rightarrow> [] | d # _ \<Rightarrow> if snd d then [fst d] else []), m(k := tl (m k)))"

fun multi_run :: "bool \<Rightarrow> ('k, 'a) dict_op list \<Rightarrow> ('k, 'a) multi \<Rightarrow> 'a dict_answer list \<times> ('k, 'a) multi" where
  "multi_run dups [] m = ([], m)"
| "multi_run dups (op # ops) m =
     (let (a, m1) = multi_step dups op m; (as, m2) = multi_run dups ops m1 in (a # as, m2))"

fun dict_step ::
  "('t \<Rightarrow> 'k \<Rightarrow> 'a option res) \<Rightarrow> ('t \<Rightarrow> 'k \<Rightarrow> 'a option \<Rightarrow> bool \<Rightarrow> (int \<times> 't) res) \<Rightarrow> ('t \<Rightarrow> 'k \<Rightarrow> ('a option list \<times> 't) res) \<Rightarrow>
   ('k, 'a) dict_op \<Rightarrow> 't \<Rightarrow> ('a dict_answer \<times> 't) res" where
  "dict_step get put del (Store k d f) t = ebind (put t k d f) (\<lambda>(c, t1). Inr (Stored (c = ANTLR3_SUCCESS), t1))"
| "dict_step get put del (Fetch k) t = ebind (get t k) (\<lambda>d. Inr (Fetched d, t))"
| "dict_step get put del (Erase k) t = ebind (del t k) (\<lambda>(ds, t1). Inr (Erased ds, t1))"

fun dict_run ::
  "('t \<Rightarrow> 'k \<Rightarrow> 'a option res) \<Rightarrow> ('t \<Rightarrow> 'k \<Rightarrow> 'a option \<Rightarrow> bool \<Rightarrow> (int \<times> 't) res) \<Rightarrow> ('t \<Rightarrow> 'k \<Rightarrow> ('a option list \<times> 't) res) \<Rightarrow>
   ('k, 'a) dict_op list \<Rightarrow> 't \<Rightarrow> ('a dict_answer list \<times> 't) res" where
  "dict_run get put del [] t = Inr ([], t)"
| "dict_run get put del (op # ops) t =
     ebind (dict_step get put del op t) (\<lambda>(a, t1). ebind (dict_run get put del ops t1) (\<lambda>(as, t2). Inr (a # as, t2)))"

locale dictionary =
  fixes holds :: "bool \<Rightarrow> 't \<Rightarrow> ('k, 'a) multi \<Rightarrow> bool"
    and get :: "'t \<Rightarrow> 'k \<Rightarrow> 'a option res"
    and put :: "'t \<Rightarrow> 'k \<Rightarrow> 'a option \<Rightarrow> bool \<Rightarrow> (int \<times> 't) res"
    and del :: "'t \<Rightarrow> 'k \<Rightarrow> ('a option list \<times> 't) res"
  assumes get_law: "holds dups t m \<Longrightarrow> get t k = Inr (first_data (m k))"
    and put_refused: "holds False t m \<Longrightarrow> m k \<noteq> [] \<Longrightarrow> put t k d f = Inr (ANTLR3_ERR_HASHDUP, t)"
    and put_law: "holds dups t m \<Longrightarrow> dups \<or> m k = [] \<Longrightarrow> \<exists>t'. put t k d f = Inr (ANTLR3_SUCCESS, t') \<and> holds dups t' (m(k := m k @ [(d, f)]))"
    and del_law: "holds dups t m \<Longrightarrow> \<exists>t'. del t k = Inr (case m k of [] \<Rightarrow> [] | d # _ \<Rightarrow> if snd d then [fst d] else [], t') \<and>
      holds dups t' (m(k := tl (m k)))"
begin

lemma step_law:
  assumes "holds dups t m" "multi_step dups op m = (a, m')"
  shows "\<exists>t'. dict_step get put del op t = Inr (a, t') \<and> holds dups t' m'"
proof (cases op)
  case (Store k d f)
  show ?thesis
  proof (cases "\<not> dups \<and> m k \<noteq> []")
    case True
    with put_refused [of t m k d f] assms Store show ?thesis by (auto simp: ANTLR3_SUCCESS_def ANTLR3_ERR_HASHDUP_def)
  next
    case False
    with put_law [OF assms(1), of k d f] assms(2) Store show ?thesis by auto
  qed
next
  case (Fetch k)
  with get_law [OF assms(1)] assms show ?thesis by auto
next
  case (Erase k)
  with del_law [OF assms(1), of k] assms(2) show ?thesis by auto
qed

lemma run_law:
  assumes "holds dups t m" "multi_run dups ops m = (as, m')"
  shows "\<exists>t'. dict_run get put del ops t = Inr (as, t') \<and> holds dups t' m'"
  using assms
proof (induction ops arbitrary: t m as)
  case (Cons op ops)
  obtain a m1 where 1: "multi_step dups op m = (a, m1)" by fastforce
  obtain as' where 2: "multi_run dups ops m1 = (as', m')" "as = a # as'"
    using Cons.prems(2) 1 by (auto split: prod.splits)
  from step_law [OF Cons.prems(1) 1] obtain t1 where t1: "dict_step get put del op t = Inr (a, t1)" "holds dups t1 m1" by blast
  from Cons.IH [OF t1(2) 2(1)] t1(1) 2(2) show ?case by auto
qed simp

end

section \<open>Hash tables fulfil it\<close>

definition uniform :: "(hash_key \<Rightarrow> bool) \<Rightarrow> bool" where
  "uniform kind \<longleftrightarrow> (\<forall>a b. kind a \<longrightarrow> kind b \<longrightarrow> key_matches a b = Inr (b = a))"

lemma uniform_kinds: "uniform is_IKey" "uniform is_SKey"
  by (auto simp: uniform_def is_IKey_def is_SKey_def)

definition table_holds :: "(hash_key \<Rightarrow> bool) \<Rightarrow> bool \<Rightarrow> 'a htable \<Rightarrow> (hash_key, 'a) multi \<Rightarrow> bool" where
  "table_holds kind dups t m \<longleftrightarrow> ht_allowDups t = dups \<and> 0 < ht_modulo t \<and> length (ht_buckets t) = ht_modulo t \<and>
     (\<forall>h < ht_modulo t. \<forall>e \<in> set (ht_buckets t ! h). kind (he_key e) \<and> hash_of t (he_key e) = h) \<and>
     (\<forall>k. kind k \<longrightarrow> map (\<lambda>e. (he_data e, he_free e)) (entries_of k (ht_buckets t ! hash_of t k)) = m k)"

lemma new_holds_table: "0 < n \<Longrightarrow> table_holds kind dups ((antlr3HashTableNew n)\<lparr>ht_allowDups := dups\<rparr>) (\<lambda>_. [])"
  by (simp add: table_holds_def antlr3HashTableNew_def hash_of_def)

lemma hash_of_less: "0 < ht_modulo t \<Longrightarrow> hash_of t k < ht_modulo t"
  by (simp add: hash_of_def)

lemma hash_of_frame [simp]: "hash_of (t\<lparr>ht_buckets := bs, ht_count := n\<rparr>) k = hash_of t k"
  by (simp add: hash_of_def)

lemma table_holds_chain:
  assumes "uniform kind" "table_holds kind dups t m" "kind k"
  shows "bucket_of t k = Inr (hash_of t k)" "comparable k (ht_buckets t ! hash_of t k)" "hash_of t k < length (ht_buckets t)"
    "map (\<lambda>e. (he_data e, he_free e)) (entries_of k (ht_buckets t ! hash_of t k)) = m k"
  using assms hash_of_less [of t k] by (auto simp: table_holds_def bucket_of_def uniform_def)

text \<open>An operation that changes one chain, and there only the entries of its key, changes the table at this key.\<close>

lemma table_holds_update:
  assumes "uniform kind" "table_holds kind dups t m" "kind k"
    "\<forall>e \<in> set es. e \<in> set (ht_buckets t ! hash_of t k) \<or> he_key e = k"
    "\<forall>k'. k' \<noteq> k \<longrightarrow> entries_of k' es = entries_of k' (ht_buckets t ! hash_of t k)"
    "map (\<lambda>e. (he_data e, he_free e)) (entries_of k es) = ds"
  shows "table_holds kind dups (t\<lparr>ht_buckets := (ht_buckets t)[hash_of t k := es], ht_count := n\<rparr>) (m(k := ds))"
proof -
  let ?h = "hash_of t k" and ?bs = "(ht_buckets t)[hash_of t k := es]"
  have t: "ht_allowDups t = dups" "0 < ht_modulo t" "length (ht_buckets t) = ht_modulo t"
    "\<And>h e. h < ht_modulo t \<Longrightarrow> e \<in> set (ht_buckets t ! h) \<Longrightarrow> kind (he_key e) \<and> hash_of t (he_key e) = h"
    "\<And>k. kind k \<Longrightarrow> map (\<lambda>e. (he_data e, he_free e)) (entries_of k (ht_buckets t ! hash_of t k)) = m k"
    using assms(2) by (auto simp: table_holds_def)
  have h: "?h < ht_modulo t" using hash_of_less [OF t(2)] .
  have "kind (he_key e) \<and> hash_of t (he_key e) = h" if "h < ht_modulo t" "e \<in> set (?bs ! h)" for h e
    using that t(3) t(4) [OF h, of e] t(4) [OF that(1), of e] assms(3,4) by (cases "h = ?h") (auto simp: nth_list_update)
  moreover have "map (\<lambda>e. (he_data e, he_free e)) (entries_of k' (?bs ! hash_of t k')) = (m(k := ds)) k'" if "kind k'" for k'
    using t(3) t(5) [OF that] h assms(5,6) by (cases "hash_of t k' = ?h") (auto simp: nth_list_update)
  ultimately show ?thesis using t(1-3) by (simp add: table_holds_def)
qed

lemma hash_get_law:
  assumes "uniform kind" "table_holds kind dups t m" "kind k"
  shows "hash_get t k = Inr (first_data (m k))"
proof -
  note c = table_holds_chain [OF assms]
  from find_entry_first [OF c(2)] c(1) show ?thesis
    by (simp add: hash_get_def first_data_def c(4) [symmetric] split: list.split)
qed

lemma hash_put_law:
  assumes "uniform kind" "table_holds kind dups t m" "kind k"
  shows "\<not> dups \<Longrightarrow> m k \<noteq> [] \<Longrightarrow> hash_put t k d f = Inr (ANTLR3_ERR_HASHDUP, t)"
    "dups \<or> m k = [] \<Longrightarrow> \<exists>t'. hash_put t k d f = Inr (ANTLR3_SUCCESS, t') \<and> table_holds kind dups t' (m(k := m k @ [(d, f)]))"
proof -
  let ?es = "ht_buckets t ! hash_of t k" and ?e = "\<lparr>he_key = k, he_data = d, he_free = f\<rparr>"
  note c = table_holds_chain [OF assms]
  have dups: "ht_allowDups t = dups" using assms(2) by (simp add: table_holds_def)
  have none: "entries_of k ?es = [] \<longleftrightarrow> m k = []" using c(4) by (metis map_is_Nil_conv)
  show "hash_put t k d f = Inr (ANTLR3_ERR_HASHDUP, t)" if "\<not> dups" "m k \<noteq> []"
    using that none c(1) chain_end_appends [OF c(2), of dups ?e] dups by (simp add: hash_put_def)
  assume "dups \<or> m k = []"
  then have "hash_put t k d f = Inr (ANTLR3_SUCCESS, t\<lparr>ht_buckets := (ht_buckets t)[hash_of t k := ?es @ [?e]], ht_count := ht_count t + 1\<rparr>)"
    using none c(1) chain_end_appends [OF c(2), of dups ?e] dups by (auto simp: hash_put_def)
  moreover have "table_holds kind dups (t\<lparr>ht_buckets := (ht_buckets t)[hash_of t k := ?es @ [?e]], ht_count := ht_count t + 1\<rparr>) (m(k := m k @ [(d, f)]))"
    by (rule table_holds_update [OF assms]) (use c(4) in auto)
  ultimately show "\<exists>t'. hash_put t k d f = Inr (ANTLR3_SUCCESS, t') \<and> table_holds kind dups t' (m(k := m k @ [(d, f)]))" by blast
qed

lemma hash_remove_law:
  assumes "uniform kind" "table_holds kind dups t m" "kind k"
  shows "\<exists>r t'. hash_remove t k = Inr (r, t') \<and> table_holds kind dups t' (m(k := tl (m k))) \<and>
    (case r of None \<Rightarrow> m k = [] | Some e \<Rightarrow> m k = (he_data e, he_free e) # tl (m k))"
proof -
  let ?es = "ht_buckets t ! hash_of t k"
  note c = table_holds_chain [OF assms]
  obtain r es where r: "take_out k ?es = Inr (r, es)" "taken_out k ?es r es" using take_out_first [OF c(2)] by blast
  show ?thesis
  proof (cases r)
    case None
    then have "m k = []" using r(2) c(4) by (simp add: taken_out_def)
    then have "m(k := tl (m k)) = m" by (simp add: fun_eq_iff)
    with None r(1) c(1) assms(2) \<open>m k = []\<close> show ?thesis by (simp add: hash_remove_def)
  next
    case (Some e)
    let ?t = "t\<lparr>ht_buckets := (ht_buckets t)[hash_of t k := es], ht_count := ht_count t - 1\<rparr>"
    have e: "entries_of k ?es = e # entries_of k es" "\<forall>k'. k' \<noteq> k \<longrightarrow> entries_of k' es = entries_of k' ?es" "set es \<subseteq> set ?es"
      using r(2) Some by (auto simp: taken_out_def)
    have "m k = (he_data e, he_free e) # map (\<lambda>e. (he_data e, he_free e)) (entries_of k es)"
      unfolding c(4) [symmetric] e(1) by simp
    then have mk: "m k = (he_data e, he_free e) # tl (m k)" "map (\<lambda>e. (he_data e, he_free e)) (entries_of k es) = tl (m k)"
      by simp_all
    have "hash_remove t k = Inr (Some e, ?t)" using Some r(1) c(1) by (simp add: hash_remove_def)
    moreover have "table_holds kind dups ?t (m(k := tl (m k)))"
      by (rule table_holds_update [OF assms]) (use e(2,3) mk(2) in auto)
    ultimately show ?thesis using mk(1) by (intro exI [of _ "Some e"] exI [of _ ?t]) simp
  qed
qed

lemma hash_delete_law:
  assumes "uniform kind" "table_holds kind dups t m" "kind k"
  shows "\<exists>t'. hash_delete t k = Inr (case m k of [] \<Rightarrow> [] | d # _ \<Rightarrow> if snd d then [fst d] else [], t') \<and>
    table_holds kind dups t' (m(k := tl (m k)))"
proof -
  obtain r t' where r: "hash_remove t k = Inr (r, t')" "table_holds kind dups t' (m(k := tl (m k)))"
    "case r of None \<Rightarrow> m k = [] | Some e \<Rightarrow> m k = (he_data e, he_free e) # tl (m k)"
    using hash_remove_law [OF assms] by blast
  have "(case r of None \<Rightarrow> [] | Some e \<Rightarrow> free_data e) = (case m k of [] \<Rightarrow> [] | d # _ \<Rightarrow> if snd d then [fst d] else [])"
    using r(3) by (auto simp: free_data_def split: option.splits list.splits)
  with r(1,2) show ?thesis by (simp add: hash_delete_def)
qed

text \<open>Seen by one kind of keys.\<close>

definition text_holds :: "bool \<Rightarrow> 'a htable \<Rightarrow> (string, 'a) multi \<Rightarrow> bool" where
  "text_holds dups t m \<longleftrightarrow> table_holds is_SKey dups t (\<lambda>k. case k of SKey s \<Rightarrow> m s | IKey n \<Rightarrow> [])"

definition number_holds :: "bool \<Rightarrow> 'a htable \<Rightarrow> (intkey, 'a) multi \<Rightarrow> bool" where
  "number_holds dups t m \<longleftrightarrow> table_holds is_IKey dups t (\<lambda>k. case k of IKey n \<Rightarrow> m n | SKey s \<Rightarrow> [])"

lemma case_key_nil [simp]: "(case k of IKey n \<Rightarrow> [] | SKey s \<Rightarrow> []) = []"
  by (cases k) simp_all

lemma case_key_upd:
  "(\<lambda>k. case k of SKey s \<Rightarrow> m s | IKey n \<Rightarrow> [])(SKey s := ds) = (\<lambda>k. case k of SKey s' \<Rightarrow> (m(s := ds)) s' | IKey n \<Rightarrow> [])"
  "(\<lambda>k. case k of IKey n \<Rightarrow> m' n | SKey s \<Rightarrow> [])(IKey n := ds) = (\<lambda>k. case k of IKey n' \<Rightarrow> (m'(n := ds)) n' | SKey s \<Rightarrow> [])"
  by (auto simp: fun_eq_iff split: hash_key.splits)

interpretation texts: dictionary text_holds antlr3HashGet antlr3HashPut antlr3HashDelete
proof
  fix dups and t :: "'a htable" and m :: "(string, 'a) multi" and s d f
  let ?m = "\<lambda>k. case k of SKey s \<Rightarrow> m s | IKey n \<Rightarrow> []"
  show "text_holds dups t m \<Longrightarrow> antlr3HashGet t s = Inr (first_data (m s))"
    using hash_get_law [OF uniform_kinds(2), of dups t ?m "SKey s"] by (simp add: text_holds_def)
  show "text_holds False t m \<Longrightarrow> m s \<noteq> [] \<Longrightarrow> antlr3HashPut t s d f = Inr (ANTLR3_ERR_HASHDUP, t)"
    using hash_put_law(1) [OF uniform_kinds(2), of False t ?m "SKey s"] by (simp add: text_holds_def)
  show "text_holds dups t m \<Longrightarrow> dups \<or> m s = [] \<Longrightarrow>
      \<exists>t'. antlr3HashPut t s d f = Inr (ANTLR3_SUCCESS, t') \<and> text_holds dups t' (m(s := m s @ [(d, f)]))"
    using hash_put_law(2) [OF uniform_kinds(2), of dups t ?m "SKey s"] by (simp add: text_holds_def case_key_upd)
  show "text_holds dups t m \<Longrightarrow>
      \<exists>t'. antlr3HashDelete t s = Inr (case m s of [] \<Rightarrow> [] | d # _ \<Rightarrow> if snd d then [fst d] else [], t') \<and> text_holds dups t' (m(s := tl (m s)))"
    using hash_delete_law [OF uniform_kinds(2), of dups t ?m "SKey s"] by (simp add: text_holds_def case_key_upd)
qed

interpretation numbers: dictionary number_holds antlr3ListGet antlr3ListPut antlr3ListDelete
proof
  fix dups and t :: "'a htable" and m :: "(intkey, 'a) multi" and n d f
  let ?m = "\<lambda>k. case k of IKey n \<Rightarrow> m n | SKey s \<Rightarrow> []"
  show "number_holds dups t m \<Longrightarrow> antlr3ListGet t n = Inr (first_data (m n))"
    using hash_get_law [OF uniform_kinds(1), of dups t ?m "IKey n"] by (simp add: number_holds_def antlr3ListGet_def)
  show "number_holds False t m \<Longrightarrow> m n \<noteq> [] \<Longrightarrow> antlr3ListPut t n d f = Inr (ANTLR3_ERR_HASHDUP, t)"
    using hash_put_law(1) [OF uniform_kinds(1), of False t ?m "IKey n"] by (simp add: number_holds_def antlr3ListPut_def)
  show "number_holds dups t m \<Longrightarrow> dups \<or> m n = [] \<Longrightarrow>
      \<exists>t'. antlr3ListPut t n d f = Inr (ANTLR3_SUCCESS, t') \<and> number_holds dups t' (m(n := m n @ [(d, f)]))"
    using hash_put_law(2) [OF uniform_kinds(1), of dups t ?m "IKey n"] by (simp add: number_holds_def case_key_upd antlr3ListPut_def)
  show "number_holds dups t m \<Longrightarrow>
      \<exists>t'. antlr3ListDelete t n = Inr (case m n of [] \<Rightarrow> [] | d # _ \<Rightarrow> if snd d then [fst d] else [], t') \<and> number_holds dups t' (m(n := tl (m n)))"
    using hash_delete_law [OF uniform_kinds(1), of dups t ?m "IKey n"] by (simp add: number_holds_def case_key_upd antlr3ListDelete_def)
qed

text \<open>
  C28: a hash table with texts as keys does what it promises: every sequence of puts, gets and deletes gets the
  answers of the collection of what was put under each key, frees the same data, and never crashes,
  whatever the number of buckets and however the keys collide.
\<close>

theorem hash_refines_multimap:
  assumes "0 < n" "multi_run dups ops (\<lambda>_. []) = (as, m)"
  shows "\<exists>t. dict_run antlr3HashGet antlr3HashPut antlr3HashDelete ops ((antlr3HashTableNew n)\<lparr>ht_allowDups := dups\<rparr>) = Inr (as, t) \<and>
    (\<forall>s. antlr3HashGet t s = Inr (first_data (m s)))"
proof -
  let ?t = "(antlr3HashTableNew n)\<lparr>ht_allowDups := dups\<rparr>"
  have "text_holds dups ?t (\<lambda>_. [])" using new_holds_table [OF assms(1)] by (simp add: text_holds_def)
  from texts.run_law [OF this assms(2)] texts.get_law show ?thesis by blast
qed

theorem hash_refines_multimap_witness:
  "\<exists>t. dict_run antlr3HashGet antlr3HashPut antlr3HashDelete [Store ''a'' (Some 1) True, Store ''b'' (Some 2) False, Erase ''a'', Fetch ''a'']
      ((antlr3HashTableNew 1)\<lparr>ht_allowDups := False\<rparr>) = Inr ([Stored True, Stored True, Erased [Some (1 :: nat)], Fetched None], t) \<and>
    antlr3HashGet t ''b'' = Inr (Some 2)"
proof -
  let ?ops = "[Store ''a'' (Some (1 :: nat)) True, Store ''b'' (Some 2) False, Erase ''a'', Fetch ''a'']"
  have "\<exists>m. multi_run False ?ops (\<lambda>_. []) = ([Stored True, Stored True, Erased [Some 1], Fetched None], m) \<and> first_data (m ''b'') = Some 2"
    by (simp add: first_data_def)
  then obtain m where m: "multi_run False ?ops (\<lambda>_. []) = ([Stored True, Stored True, Erased [Some 1], Fetched None], m)"
    "first_data (m ''b'') = Some 2" by blast
  from hash_refines_multimap [OF zero_less_one m(1)] m(2) show ?thesis by metis
qed

section \<open>The enumeration is complete\<close>

fun enum_take :: "nat \<Rightarrow> 'a henum \<Rightarrow> ((hash_key \<times> 'a option) list \<times> 'a henum) res" where
  "enum_take 0 en = Inr ([], en)"
| "enum_take (Suc n) en =
     ebind (antlr3EnumNext en) (\<lambda>(r, en1).
       case r of None \<Rightarrow> Inr ([], en1) | Some x \<Rightarrow> ebind (enum_take n en1) (\<lambda>(xs, en2). Inr (x # xs, en2)))"

text \<open>What is still to come.\<close>

definition to_come :: "'a henum \<Rightarrow> 'a hentry list" where
  "to_come en =
     (if en_bucket en < ht_modulo (en_table en) then en_entry en @ concat (drop (Suc (en_bucket en)) (ht_buckets (en_table en))) else [])"

definition enum_ok :: "'a henum \<Rightarrow> bool" where
  "enum_ok en \<longleftrightarrow> length (ht_buckets (en_table en)) = ht_modulo (en_table en) \<and>
     (en_bucket en < ht_modulo (en_table en) \<longrightarrow> en_entry en \<noteq> [])"

lemma next_bucket_to_come:
  assumes "length (ht_buckets t) = ht_modulo t" "next_bucket t b es = (b', es')"
  shows "if b' < ht_modulo t then es' \<noteq> [] \<and> concat (drop b (ht_buckets t)) = es' @ concat (drop (Suc b') (ht_buckets t))
    else concat (drop b (ht_buckets t)) = []"
  using assms
proof (induction t b es rule: next_bucket.induct)
  case (1 t b es)
  show ?case
  proof (cases "b < ht_modulo t")
    case True
    then have d: "concat (drop b (ht_buckets t)) = ht_buckets t ! b @ concat (drop (Suc b) (ht_buckets t))"
      using 1(2) by (metis Cons_nth_drop_Suc concat.simps(2))
    show ?thesis
    proof (cases "ht_buckets t ! b = []")
      case empty: True
      then have "next_bucket t (b + 1) es = (b', es')" using 1(3) True by (simp add: next_bucket.simps [of t b])
      from 1(1) [OF True _ 1(2) this] empty d show ?thesis by (auto split: if_splits)
    next
      case False
      then have "b' = b" "es' = ht_buckets t ! b" using 1(3) True by (auto simp: next_bucket.simps [of t b])
      with True False d show ?thesis by simp
    qed
  next
    case False
    then show ?thesis using 1(2,3) by (auto simp: next_bucket.simps [of t b])
  qed
qed

lemma next_entry_to_come:
  assumes "length (ht_buckets (en_table en)) = ht_modulo (en_table en)"
    "en_bucket en < ht_modulo (en_table en) \<Longrightarrow> en_entry en \<noteq> [] \<or> en_bucket en = 0"
  shows "enum_ok (antlr3EnumNextEntry en)" "en_bucket en < ht_modulo (en_table en) \<Longrightarrow> to_come (antlr3EnumNextEntry en) =
    (if en_entry en = [] then to_come en else tl (to_come en))"
proof -
  let ?t = "en_table en"
  have *: "enum_ok (antlr3EnumNextEntry en) \<and> (en_bucket en < ht_modulo ?t \<longrightarrow> to_come (antlr3EnumNextEntry en) =
    (if en_entry en = [] then to_come en else tl (to_come en)))"
  proof (cases "en_entry en \<noteq> [] \<and> tl (en_entry en) \<noteq> []")
    case True
    with assms(1) show ?thesis by (auto simp: antlr3EnumNextEntry_def enum_ok_def to_come_def)
  next
    case False
    obtain b es where n: "next_bucket ?t (en_bucket en + 1) (en_entry en) = (b, es)" by fastforce
    note t = next_bucket_to_come [OF assms(1) n]
    have "en_entry en = [] \<or> tl (en_entry en) = []" using False by auto
    then have "(if en_entry en = [] then to_come en else tl (to_come en)) = concat (drop (Suc (en_bucket en)) (ht_buckets ?t))"
      if "en_bucket en < ht_modulo ?t" using that by (cases "en_entry en") (auto simp: to_come_def)
    with t False n assms(1) show ?thesis
      by (auto simp: antlr3EnumNextEntry_def enum_ok_def to_come_def split: if_splits)
  qed
  then show "enum_ok (antlr3EnumNextEntry en)" "en_bucket en < ht_modulo ?t \<Longrightarrow> to_come (antlr3EnumNextEntry en) =
    (if en_entry en = [] then to_come en else tl (to_come en))" by auto
qed

lemma enum_take_all:
  assumes "enum_ok en" "length (to_come en) = n"
  shows "\<exists>en'. enum_take n en = Inr (map (\<lambda>e. (he_key e, he_data e)) (to_come en), en') \<and> antlr3EnumNext en' = Inr (None, en')"
  using assms
proof (induction n arbitrary: en)
  case 0
  then have "\<not> en_bucket en < ht_modulo (en_table en)" by (auto simp: to_come_def enum_ok_def)
  with 0 show ?case by (simp add: antlr3EnumNext_def)
next
  case (Suc n)
  then have b: "en_bucket en < ht_modulo (en_table en)" by (auto simp: to_come_def split: if_splits)
  then obtain e es where e: "en_entry en = e # es" using Suc.prems(1) by (cases "en_entry en") (auto simp: enum_ok_def)
  have nx: "enum_ok (antlr3EnumNextEntry en)" "to_come (antlr3EnumNextEntry en) = tl (to_come en)"
    using next_entry_to_come [of en] Suc.prems(1) b e by (auto simp: enum_ok_def)
  obtain en' where "enum_take n (antlr3EnumNextEntry en) = Inr (map (\<lambda>e. (he_key e, he_data e)) (tl (to_come en)), en')"
    "antlr3EnumNext en' = Inr (None, en')"
    using Suc.IH [OF nx(1)] nx(2) Suc.prems(2) by auto
  moreover have "map (\<lambda>e. (he_key e, he_data e)) (to_come en) = (he_key e, he_data e) # map (\<lambda>e. (he_key e, he_data e)) (tl (to_come en))"
    using b e by (simp add: to_come_def)
  moreover have "antlr3EnumNext en = Inr (Some (he_key e, he_data e), antlr3EnumNextEntry en)" using b e by (simp add: antlr3EnumNext_def)
  ultimately show ?case by simp
qed

text \<open>
  An enumeration of a table gives every entry once, bucket by bucket, and then the end.
\<close>

lemma enum_complete:
  assumes "table_holds kind dups t m"
  defines "es \<equiv> concat (ht_buckets t)"
  shows "\<exists>en en'. antlr3EnumNew t = Inr en \<and> enum_take (length es) en = Inr (map (\<lambda>e. (he_key e, he_data e)) es, en') \<and>
    antlr3EnumNext en' = Inr (None, en')"
proof -
  let ?en = "\<lparr>en_table = t, en_bucket = 0, en_entry = ht_buckets t ! 0\<rparr>"
  have t: "length (ht_buckets t) = ht_modulo t" "0 < ht_modulo t" "ht_buckets t \<noteq> []" using assms(1) by (auto simp: table_holds_def)
  have all: "to_come ?en = es" using t by (cases "ht_buckets t") (auto simp: to_come_def es_def)
  obtain en where en: "antlr3EnumNew t = Inr en" "enum_ok en" "to_come en = es"
  proof (cases "ht_buckets t ! 0 = []")
    case True
    with that [of "antlr3EnumNextEntry ?en"] next_entry_to_come [of ?en] t all show ?thesis by (simp add: antlr3EnumNew_def)
  next
    case False
    with that [of ?en] t all show ?thesis by (simp add: antlr3EnumNew_def enum_ok_def)
  qed
  with enum_take_all [OF en(2) refl] show ?thesis by auto
qed

section \<open>The numbers of list elements\<close>

lemma hash_put_count: "hash_put t k d f = Inr (ANTLR3_SUCCESS, t') \<Longrightarrow> ht_count t' = ht_count t + 1"
  by (auto simp: hash_put_def ebind_Inr_iff ANTLR3_SUCCESS_def ANTLR3_ERR_HASHDUP_def split: option.splits)

lemma hash_remove_count: "hash_remove t k = Inr (Some e, t') \<Longrightarrow> ht_count t' = ht_count t - 1"
  by (auto simp: hash_remove_def ebind_Inr_iff split: option.splits prod.splits)

lemma hash_delete_count:
  assumes "number_holds dups t m" "m n \<noteq> []" "antlr3ListDelete t n = Inr (ds, t')"
  shows "ht_count t' = ht_count t - 1"
proof -
  let ?m = "\<lambda>k. case k of IKey n \<Rightarrow> m n | SKey s \<Rightarrow> []"
  have "table_holds is_IKey dups t ?m" using assms(1) by (simp add: number_holds_def)
  from hash_remove_law [OF uniform_kinds(1) this, of "IKey n"] assms(2) obtain e t1 where
    "hash_remove t (IKey n) = Inr (Some e, t1)" by (auto split: option.splits)
  with assms(3) hash_remove_count [OF this] show ?thesis by (simp add: antlr3ListDelete_def hash_delete_def)
qed

fun list_adds :: "'a option list \<Rightarrow> 'a htable \<Rightarrow> 'a htable res" where
  "list_adds [] l = Inr l"
| "list_adds (d # ds) l = ebind (antlr3ListAdd l d False) (\<lambda>(_, l1). list_adds ds l1)"

text \<open>A list that was only added to: the elements have the numbers from 1 on.\<close>

definition numbering :: "'a option list \<Rightarrow> (intkey, 'a) multi" where
  "numbering ds k = (if 1 \<le> unat k \<and> unat k \<le> length ds then [(ds ! (unat k - 1), False)] else [])"

definition numbered :: "'a htable \<Rightarrow> 'a option list \<Rightarrow> bool" where
  "numbered l ds \<longleftrightarrow> ht_count l = length ds \<and> length ds < 2 ^ 32 - 1 \<and>
     number_holds False l (numbering ds)"

lemma unat_of_small: "n < 2 ^ 32 \<Longrightarrow> unat (of_nat n :: intkey) = n"
  by (simp add: unsigned_of_nat take_bit_nat_eq_self)

lemma numbering_Nil [simp]: "numbering [] = (\<lambda>_. [])"
  by (auto simp: fun_eq_iff numbering_def)

lemma new_holds_number: "0 < hint \<Longrightarrow> number_holds False (antlr3ListNew hint) (\<lambda>_. [])"
  using new_holds_table [of hint is_IKey False] by (simp add: number_holds_def antlr3ListNew_def antlr3HashTableNew_def)

lemma numbered_new: "0 < hint \<Longrightarrow> numbered (antlr3ListNew hint) []"
  by (simp add: numbered_def new_holds_number) (simp add: antlr3ListNew_def antlr3HashTableNew_def)

lemma numbered_add:
  assumes "numbered l ds" "Suc (length ds) < 2 ^ 32 - 1"
  shows "\<exists>l'. antlr3ListAdd l d False = Inr (ANTLR3_SUCCESS, l') \<and> numbered l' (ds @ [d])"
proof -
  let ?n = "of_nat (length ds + 1) :: intkey"
  have n: "unat ?n = length ds + 1" using assms(2) by (intro unat_of_small) simp
  have h: "number_holds False l (numbering ds)" "ht_count l = length ds" using assms(1) by (auto simp: numbered_def)
  have "numbering ds ?n = []" using n by (simp add: numbering_def)
  with numbers.put_law [OF h(1), of ?n d False] obtain l' where
    l': "antlr3ListPut l ?n d False = Inr (ANTLR3_SUCCESS, l')" "number_holds False l' ((numbering ds)(?n := [(d, False)]))" by auto
  have "(numbering ds)(?n := [(d, False)]) = numbering (ds @ [d])"
  proof
    fix k
    show "((numbering ds)(?n := [(d, False)])) k = numbering (ds @ [d]) k"
    proof (cases "k = ?n")
      case True
      with n show ?thesis by (simp add: numbering_def)
    next
      case False
      then have "unat k \<noteq> length ds + 1" using n by (metis word_unat_eq_iff)
      with False show ?thesis by (auto simp: numbering_def nth_append)
    qed
  qed
  moreover have "ht_count l' = Suc (length ds)" using hash_put_count l'(1) h(2) by (fastforce simp: antlr3ListPut_def)
  ultimately have "numbered l' (ds @ [d])" using l'(2) assms(2) by (simp add: numbered_def)
  moreover have "antlr3ListAdd l d False = Inr (ANTLR3_SUCCESS, l')" using l'(1) h(2) by (simp add: antlr3ListAdd_def antlr3HashSize_def)
  ultimately show ?thesis by blast
qed

lemma numbered_adds:
  assumes "numbered l es" "length es + length ds < 2 ^ 32 - 1"
  shows "\<exists>l'. list_adds ds l = Inr l' \<and> numbered l' (es @ ds)"
  using assms
proof (induction ds arbitrary: l es)
  case (Cons d ds)
  from numbered_add [OF Cons.prems(1), of d] Cons.prems(2) obtain l' where
    "antlr3ListAdd l d False = Inr (ANTLR3_SUCCESS, l')" "numbered l' (es @ [d])" by auto
  with Cons.IH [of l' "es @ [d]"] Cons.prems(2) show ?case by simp
qed simp

text \<open>
  The elements that are added to a list get the numbers from 1 on and are found under them; but after an element
  other than the last one was deleted, the next one cannot be added: its number is computed from
  the size and is that of the last element.
\<close>

theorem list_add_refused:
  assumes "0 < hint" "length ds < 2 ^ 32 - 1" "1 \<le> i" "i < length ds"
  shows "\<exists>l fr l'. list_adds ds (antlr3ListNew hint) = Inr l \<and>
    (\<forall>j < length ds. antlr3ListGet l (of_nat (j + 1)) = Inr (ds ! j)) \<and>
    antlr3ListDelete l (of_nat i) = Inr (fr, l') \<and> antlr3ListAdd l' d f = Inr (ANTLR3_ERR_HASHDUP, l')"
proof -
  let ?m = "numbering ds"
  have "length [] + length ds < 2 ^ 32 - 1" using assms(2) by simp
  from numbered_adds [OF numbered_new [OF assms(1)] this] obtain l where
    l: "list_adds ds (antlr3ListNew hint) = Inr l" "number_holds False l ?m" "ht_count l = length ds" by (auto simp: numbered_def)
  have u: "unat (of_nat j :: intkey) = j" if "j \<le> length ds" for j using that assms(2) by (intro unat_of_small) simp
  have get: "antlr3ListGet l (of_nat (j + 1)) = Inr (ds ! j)" if "j < length ds" for j
    using numbers.get_law [OF l(2), of "of_nat (j + 1)"] u [of "j + 1"] that by (simp add: first_data_def numbering_def)
  have i: "?m (of_nat i) \<noteq> []" using u [of i] assms(3,4) by (simp add: numbering_def)
  from numbers.del_law [OF l(2), of "of_nat i"] obtain fr l' where
    l': "antlr3ListDelete l (of_nat i) = Inr (fr, l')" "number_holds False l' (?m(of_nat i := tl (?m (of_nat i))))" by blast
  have "ht_count l' = length ds - 1" using hash_delete_count [OF l(2) i l'(1)] l(3) by simp
  then have n: "of_nat (antlr3HashSize l' + 1) = (of_nat (length ds) :: intkey)" using assms(4) by (simp add: antlr3HashSize_def)
  have "(of_nat (length ds) :: intkey) \<noteq> of_nat i" using u [of i] u [of "length ds"] assms(4) by (metis less_imp_le less_irrefl order_refl)
  then have "(?m(of_nat i := tl (?m (of_nat i)))) (of_nat (length ds)) \<noteq> []" using u [of "length ds"] assms(3,4) by (simp add: numbering_def)
  from numbers.put_refused [OF l'(2) this] have "antlr3ListAdd l' d f = Inr (ANTLR3_ERR_HASHDUP, l')"
    by (simp only: antlr3ListAdd_def n)
  with l(1) get l'(1) show ?thesis by blast
qed

theorem list_add_refused_witness:
  "\<exists>l fr l'. list_adds [Some True, None, Some False] (antlr3ListNew 31) = Inr l \<and>
    (\<forall>j < length [Some True, None, Some False]. antlr3ListGet l (of_nat (j + 1)) = Inr ([Some True, None, Some False] ! j)) \<and>
    antlr3ListDelete l (of_nat 2) = Inr (fr, l') \<and> antlr3ListAdd l' (Some True) False = Inr (ANTLR3_ERR_HASHDUP, l')"
  by (rule list_add_refused) simp_all

end
