(* ===== verification/Antlr_TokenTools.thy ===== *)
theory Antlr_TokenTools
  imports Antlr_Hash Antlr_Bitset Antlr_TokenStream
begin

text \<open>
  What else the buffered token stream offers (\<^verbatim>\<open>antlr3tokenstream.c\<close>) and this program does not use: types of tokens that
  are dropped or moved to another channel when the buffer is filled, both kept in lists with numbers as keys, the
  selection of tokens by type, marks, and the text of a part of the stream. The buffer is the list of its tokens; the
  tokens of the source are those before the end of the input.
\<close>

section \<open>Types that are dropped or moved\<close>

record options =
  op_discardSet :: "intkey htable option"
  op_discardOffChannel :: bool
  op_channelOverrides :: "intkey htable option"
  op_channel :: nat

text \<open>What \<^verbatim>\<open>reset\<close> leaves.\<close>

definition reset_options :: options where
  "reset_options = \<lparr>op_discardSet = None, op_discardOffChannel = False, op_channelOverrides = None,
     op_channel = ANTLR3_TOKEN_DEFAULT_CHANNEL\<rparr>"

text \<open>A number that is stored as a pointer.\<close>

definition func_ptr :: "intkey \<Rightarrow> intkey option" where
  "func_ptr n = (if n = 0 then None else Some n)"

definition setTokenTypeChannel :: "nat \<Rightarrow> nat \<Rightarrow> options \<Rightarrow> options res" where
  "setTokenTypeChannel ttype channel st =
     (let l = (case op_channelOverrides st of None \<Rightarrow> antlr3ListNew 10 | Some l \<Rightarrow> l) in
      ebind (antlr3ListPut l (of_nat ttype) (func_ptr (of_nat channel + 1)) False) (\<lambda>(_, l1).
        Inr (st\<lparr>op_channelOverrides := Some l1\<rparr>)))"

definition discardTokenType :: "nat \<Rightarrow> options \<Rightarrow> options res" where
  "discardTokenType ttype st =
     (let l = (case op_discardSet st of None \<Rightarrow> antlr3ListNew 31 | Some l \<Rightarrow> l) in
      ebind (antlr3ListPut l (of_nat ttype) (func_ptr (of_nat ttype + 1)) False) (\<lambda>(_, l1).
        Inr (st\<lparr>op_discardSet := Some l1\<rparr>)))"

definition discardOffChannel :: "bool \<Rightarrow> options \<Rightarrow> options" where
  "discardOffChannel discard st = st\<lparr>op_discardOffChannel := discard\<rparr>"

text \<open>One round of the loop of \<^verbatim>\<open>fillBuffer\<close>, and the loop.\<close>

definition discarded :: "options \<Rightarrow> token \<Rightarrow> bool res" where
  "discarded st tok =
     ebind (case op_discardSet st of
              None \<Rightarrow> Inr False
            | Some l \<Rightarrow> ebind (antlr3ListGet l (of_nat (tk_type tok))) (\<lambda>d. Inr (d \<noteq> None))) (\<lambda>b.
       Inr (b \<or> op_discardOffChannel st \<and> tk_channel tok \<noteq> op_channel st))"

definition overridden :: "options \<Rightarrow> token \<Rightarrow> token res" where
  "overridden st tok =
     (case op_channelOverrides st of
        None \<Rightarrow> Inr tok
      | Some l \<Rightarrow>
          ebind (antlr3ListGet l (of_nat (tk_type tok) + 1)) (\<lambda>channelI.
            Inr (case channelI of None \<Rightarrow> tok | Some n \<Rightarrow> tok\<lparr>tk_channel := unat (n - 1)\<rparr>)))"

fun fill_tokens :: "options \<Rightarrow> token list \<Rightarrow> token list \<Rightarrow> token list res" where
  "fill_tokens st [] toks = Inr toks"
| "fill_tokens st (tok # src) toks =
     ebind (discarded st tok) (\<lambda>discard.
       if discard then fill_tokens st src toks
       else ebind (overridden st tok) (\<lambda>tok1. fill_tokens st src (toks @ [tok1\<lparr>tk_index := length toks\<rparr>])))"

section \<open>Marks\<close>

definition tindex :: "token_stream \<Rightarrow> nat" where
  "tindex cts = cts_p cts"

definition ts_mark :: "token_stream \<Rightarrow> nat" where
  "ts_mark cts = tindex cts"

definition rewindStream :: "nat \<Rightarrow> token_stream \<Rightarrow> token_stream" where
  "rewindStream marker cts = cts\<lparr>cts_p := marker\<rparr>"

lemma token_rewind_mark:
  "rewindStream (ts_mark cts) (consume cts) = cts" "rewindStream (ts_mark cts) ((consume ^^ n) cts) = cts"
proof -
  have c: "cts_tokens ((consume ^^ n) cts) = cts_tokens cts" for n
    by (induction n) (simp_all add: consume_def)
  show "rewindStream (ts_mark cts) ((consume ^^ n) cts) = cts" for n
    using c [of n] by (cases cts, cases "(consume ^^ n) cts") (simp add: rewindStream_def ts_mark_def tindex_def)
  from this [of 1] show "rewindStream (ts_mark cts) (consume cts) = cts" by simp
qed

section \<open>Tokens of a type\<close>

abbreviation ts_size :: "token_stream \<Rightarrow> nat" where
  "ts_size cts \<equiv> length (cts_tokens cts)"

definition ts_get :: "token_stream \<Rightarrow> nat \<Rightarrow> token option" where
  "ts_get cts i = (if i < ts_size cts then Some (cts_tokens cts ! i) else None)"

text \<open>
  The closing bracket of the call of \<^verbatim>\<open>isMember\<close> stands behind the comparison with \<^verbatim>\<open>ANTLR3_TRUE\<close>, which is 1:
  the number that is looked up is the truth value of the comparison of the type with 1.
\<close>

fun pick_tokens :: "token_stream \<Rightarrow> bitset_words option \<Rightarrow> nat list \<Rightarrow> nat \<Rightarrow> token htable \<Rightarrow> token htable res" where
  "pick_tokens cts types [] n l = Inr l"
| "pick_tokens cts types (i # is) n l =
     (let tok = ts_get cts i in
      ebind (case types of
               None \<Rightarrow> Inr True
             | Some bs \<Rightarrow>
                 (case tok of None \<Rightarrow> Inl Null_Pointer | Some t \<Rightarrow> Inr (bitset_isMember bs (if tk_type t = 1 then 1 else 0)))) (\<lambda>b.
        if b then ebind (antlr3ListPut l (of_nat n) tok False) (\<lambda>(_, l1). pick_tokens cts types is (n + 1) l1)
        else pick_tokens cts types is n l))"

definition getTokensSet :: "token_stream \<Rightarrow> nat \<Rightarrow> nat \<Rightarrow> bitset_words option \<Rightarrow> token htable option res" where
  "getTokensSet cts start stop types =
     (let stop1 = (if ts_size cts < stop then ts_size cts else stop) in
      if stop1 < start then Inr None
      else
        ebind (pick_tokens cts types [start..<Suc stop1] 0 (antlr3ListNew (ts_size cts))) (\<lambda>l.
          Inr (if antlr3HashSize l = 0 then None else Some l)))"

definition getTokenRange :: "token_stream \<Rightarrow> nat \<Rightarrow> nat \<Rightarrow> token htable option res" where
  "getTokenRange cts start stop = getTokensSet cts start stop None"

definition getTokensType :: "token_stream \<Rightarrow> nat \<Rightarrow> nat \<Rightarrow> nat \<Rightarrow> token htable option res" where
  "getTokensType cts start stop type = getTokensSet cts start stop (Some (antlr3BitsetOf [type]))"

text \<open>\<^verbatim>\<open>antlr3BitsetList\<close> builds the set of the data of a table, loses it and returns the null pointer.\<close>

fun add_data :: "nat \<Rightarrow> nat henum \<Rightarrow> bitset_words \<Rightarrow> bitset_words res" where
  "add_data 0 en bs = Inr bs"
| "add_data (Suc fuel) en bs =
     ebind (antlr3EnumNext en) (\<lambda>(r, en1).
       case r of None \<Rightarrow> Inr bs | Some (k, d) \<Rightarrow> add_data fuel en1 (bitset_add (case d of None \<Rightarrow> 0 | Some n \<Rightarrow> n) bs))"

definition antlr3BitsetList :: "nat htable \<Rightarrow> bitset_words option res" where
  "antlr3BitsetList l =
     ebind (antlr3EnumNew l) (\<lambda>en. ebind (add_data (antlr3HashSize l + 1) en (antlr3BitsetNew 0)) (\<lambda>_. Inr None))"

definition getTokensList :: "token_stream \<Rightarrow> nat \<Rightarrow> nat \<Rightarrow> nat htable \<Rightarrow> token htable option res" where
  "getTokensList cts start stop list =
     ebind (antlr3BitsetList list) (\<lambda>bitSet.
       ebind (getTokensSet cts start stop bitSet) (\<lambda>newlist. case bitSet of None \<Rightarrow> Inl Null_Pointer | Some _ \<Rightarrow> Inr newlist))"

section \<open>Text\<close>

text \<open>The index runs over 32 bit numbers; \<open>None\<close> is a loop that does not end.\<close>

partial_function (option) text_loop :: "token_stream \<Rightarrow> intkey \<Rightarrow> intkey \<Rightarrow> string \<Rightarrow> string option" where
  "text_loop cts i stop acc =
     (if i \<le> stop then
        text_loop cts (i + 1) stop (case ts_get cts (unat i) of None \<Rightarrow> acc | Some t \<Rightarrow> acc @ tk_text t)
      else Some acc)"

definition toStringSS :: "token_stream \<Rightarrow> intkey \<Rightarrow> intkey \<Rightarrow> string option" where
  "toStringSS cts start stop =
     text_loop cts start (if of_nat (ts_size cts) \<le> stop then of_nat (ts_size cts) - 1 else stop) ''''"

definition ts_toString :: "token_stream \<Rightarrow> string option" where
  "ts_toString cts = toStringSS cts 0 (of_nat (ts_size cts))"

definition toStringTT :: "token_stream \<Rightarrow> token option \<Rightarrow> token option \<Rightarrow> string option option" where
  "toStringTT cts start stop =
     (case (start, stop) of
        (Some a, Some b) \<Rightarrow> Some (toStringSS cts (of_nat (tk_index a)) (of_nat (tk_index b)))
      | _ \<Rightarrow> None)"

section \<open>What filling the buffer does\<close>

fun renumber :: "nat \<Rightarrow> token list \<Rightarrow> token list" where
  "renumber n [] = []"
| "renumber n (t # ts) = t\<lparr>tk_index := n\<rparr> # renumber (Suc n) ts"

lemma fill_tokens_general:
  assumes "\<And>t. t \<in> set src \<Longrightarrow> discarded st t = Inr (D t)" "\<And>t. t \<in> set src \<Longrightarrow> overridden st t = Inr (R t)"
  shows "fill_tokens st src toks = Inr (toks @ renumber (length toks) (map R (filter (\<lambda>t. \<not> D t) src)))"
  using assms
proof (induction src arbitrary: toks)
  case (Cons t src)
  then show ?case by (cases "D t") simp_all
qed simp

text \<open>Without options all tokens are kept as they are.\<close>

lemma fill_tokens_plain: "fill_tokens reset_options src [] = Inr (renumber 0 src)"
  using fill_tokens_general [of src reset_options "\<lambda>_. False" "\<lambda>t. t" "[]"]
  by (simp add: discarded_def overridden_def reset_options_def)

lemma key_of_nat_eq: "a < 2 ^ 32 \<Longrightarrow> b < 2 ^ 32 \<Longrightarrow> (of_nat a :: intkey) = of_nat b \<longleftrightarrow> a = b"
  using unat_of_small by metis

lemma func_ptr_Suc: "n < 2 ^ 32 - 1 \<Longrightarrow> func_ptr (of_nat n + 1) = Some (of_nat n + 1)"
  using key_of_nat_eq [of "n + 1" 0] by (simp add: func_ptr_def add.commute)

lemma put_one:
  assumes "0 < hint"
  shows "\<exists>l. antlr3ListPut (antlr3ListNew hint) k d False = Inr (ANTLR3_SUCCESS, l) \<and>
    (\<forall>j. antlr3ListGet l j = Inr (if j = k then d else None))"
proof -
  obtain l where l: "antlr3ListPut (antlr3ListNew hint) k d False = Inr (ANTLR3_SUCCESS, l)"
    "number_holds False l ((\<lambda>_. [])(k := [] @ [(d, False)]))"
    using numbers.put_law [OF new_holds_number [OF assms], of k d False] by blast
  from numbers.get_law [OF l(2)] l(1) show ?thesis by (simp add: first_data_def)
qed

text \<open>A type that is discarded is dropped, and no other.\<close>

lemma discard_drops:
  assumes "ty < 2 ^ 32 - 1" "\<forall>t \<in> set src. tk_type t < 2 ^ 32"
  shows "\<exists>st. discardTokenType ty reset_options = Inr st \<and>
    fill_tokens st src [] = Inr (renumber 0 (filter (\<lambda>t. tk_type t \<noteq> ty) src))"
proof -
  obtain l where l: "antlr3ListPut (antlr3ListNew 31) (of_nat ty) (func_ptr (of_nat ty + 1)) False = Inr (ANTLR3_SUCCESS, l)"
    "\<forall>j. antlr3ListGet l j = Inr (if j = of_nat ty then func_ptr (of_nat ty + 1) else None)"
    using put_one [of 31 "of_nat ty" "func_ptr (of_nat ty + 1)"] by auto
  let ?st = "reset_options\<lparr>op_discardSet := Some l\<rparr>"
  have "discardTokenType ty reset_options = Inr ?st" using l(1) by (simp add: discardTokenType_def reset_options_def)
  moreover have "discarded ?st t = Inr (tk_type t = ty)" if "t \<in> set src" for t
    using l(2) assms that key_of_nat_eq [of "tk_type t" ty] by (simp add: discarded_def reset_options_def func_ptr_Suc)
  moreover have "overridden ?st t = Inr t" for t by (simp add: overridden_def reset_options_def)
  ultimately show ?thesis using fill_tokens_general [of src ?st "\<lambda>t. tk_type t = ty" "\<lambda>t. t" "[]"] by simp
qed

text \<open>
  An override of the channel does not concern the type it was installed for, but the one before it: it is stored
  under the number of the type and looked up under this number plus one. The tokens of the type itself stay on
  their channel.
\<close>

theorem override_wrong_type:
  assumes "ty < 2 ^ 32" "ch < 2 ^ 32 - 1" "\<forall>t \<in> set src. tk_type t < 2 ^ 32 - 1"
  shows "\<exists>st. setTokenTypeChannel ty ch reset_options = Inr st \<and>
    fill_tokens st src [] = Inr (renumber 0 (map (\<lambda>t. if tk_type t + 1 = ty then t\<lparr>tk_channel := ch\<rparr> else t) src))"
proof -
  obtain l where l: "antlr3ListPut (antlr3ListNew 10) (of_nat ty) (func_ptr (of_nat ch + 1)) False = Inr (ANTLR3_SUCCESS, l)"
    "\<forall>j. antlr3ListGet l j = Inr (if j = of_nat ty then func_ptr (of_nat ch + 1) else None)"
    using put_one [of 10 "of_nat ty" "func_ptr (of_nat ch + 1)"] by auto
  let ?st = "reset_options\<lparr>op_channelOverrides := Some l\<rparr>"
  let ?R = "\<lambda>t. if tk_type t + 1 = ty then t\<lparr>tk_channel := ch\<rparr> else t"
  have "setTokenTypeChannel ty ch reset_options = Inr ?st" using l(1) by (simp add: setTokenTypeChannel_def reset_options_def)
  moreover have "discarded ?st t = Inr False" for t by (simp add: discarded_def reset_options_def)
  moreover have "overridden ?st t = Inr (?R t)" if "t \<in> set src" for t
  proof -
    have "(of_nat (tk_type t) + 1 :: intkey) = of_nat ty \<longleftrightarrow> tk_type t + 1 = ty"
      using key_of_nat_eq [of "tk_type t + 1" ty] assms(1,3) that by (simp add: add.commute)
    moreover have "unat (of_nat ch :: intkey) = ch" using assms(2) by (intro unat_of_small) simp
    ultimately show ?thesis using l(2) func_ptr_Suc [OF assms(2)] by (simp add: overridden_def reset_options_def)
  qed
  ultimately show ?thesis using fill_tokens_general [of src ?st "\<lambda>_. False" ?R "[]"] by simp
qed

theorem override_wrong_type_witness:
  "\<exists>st. setTokenTypeChannel 10 99 reset_options = Inr st \<and>
    fill_tokens st [teof\<lparr>tk_type := 10\<rparr>, teof\<lparr>tk_type := 9\<rparr>] [] = Inr [teof\<lparr>tk_type := 10, tk_index := 0\<rparr>, teof\<lparr>tk_type := 9, tk_channel := 99, tk_index := 1\<rparr>]"
  using override_wrong_type [of 10 99 "[teof\<lparr>tk_type := 10\<rparr>, teof\<lparr>tk_type := 9\<rparr>]"] by simp

section \<open>What a selection by type finds\<close>

lemma pick_tokens_none:
  assumes "\<forall>i \<in> set is. i < ts_size cts" "0 \<notin> elems bs" "1 \<notin> elems bs"
  shows "pick_tokens cts (Some bs) is n l = Inr l"
  using assms by (induction "is") (auto simp: ts_get_def)

text \<open>
  The tokens of a type that is not 0 or 1 are never found, however many there are; and a range that reaches
  the end of the buffer or beyond ends in a crash.
\<close>

lemma getTokensType_blind:
  assumes "2 \<le> ty" "stop < ts_size cts"
  shows "getTokensType cts start stop ty = Inr None"
proof -
  have "pick_tokens cts (Some (antlr3BitsetOf [ty])) [start..<Suc stop] 0 (antlr3ListNew (ts_size cts)) = Inr (antlr3ListNew (ts_size cts))"
    using assms by (intro pick_tokens_none) auto
  then show ?thesis using assms(2)
    by (simp add: getTokensType_def getTokensSet_def antlr3HashSize_def antlr3ListNew_def antlr3HashTableNew_def del: upt_Suc)
qed

section \<open>The text of a part\<close>

lemma text_loop_returns:
  assumes "unat stop < 2 ^ 32 - 1" "unat i \<le> Suc (unat stop)"
  shows "text_loop cts i stop acc =
    Some (acc @ concat (map (\<lambda>j. case ts_get cts j of None \<Rightarrow> '''' | Some t \<Rightarrow> tk_text t) [unat i..<Suc (unat stop)]))"
  using assms(2)
proof (induction "Suc (unat stop) - unat i" arbitrary: i acc)
  case 0
  then have "\<not> i \<le> stop" by (simp add: word_le_nat_alt)
  with 0 show ?case by (simp add: text_loop.simps [of cts i])
next
  case (Suc n)
  then have le: "i \<le> stop" "unat i \<le> unat stop" by (simp_all add: word_le_nat_alt)
  have "i = of_nat (unat i)" by simp
  moreover have "unat (of_nat (unat i + 1) :: intkey) = unat i + 1" using le(2) assms(1) by (intro unat_of_small) simp
  ultimately have u: "unat (i + 1) = Suc (unat i)" by (simp add: add.commute)
  have "[unat i..<Suc (unat stop)] = unat i # [Suc (unat i)..<Suc (unat stop)]" using le(2) by (simp add: upt_conv_Cons)
  moreover have "text_loop cts i stop acc = text_loop cts (i + 1) stop (case ts_get cts (unat i) of None \<Rightarrow> acc | Some t \<Rightarrow> acc @ tk_text t)"
    using le(1) by (simp add: text_loop.simps [of cts i])
  moreover have "n = Suc (unat stop) - unat (i + 1)" "unat (i + 1) \<le> Suc (unat stop)" using Suc(2) u le(2) by auto
  from Suc(1) [OF this, of "case ts_get cts (unat i) of None \<Rightarrow> acc | Some t \<Rightarrow> acc @ tk_text t"]
  have "text_loop cts (i + 1) stop (case ts_get cts (unat i) of None \<Rightarrow> acc | Some t \<Rightarrow> acc @ tk_text t) =
    Some ((case ts_get cts (unat i) of None \<Rightarrow> acc | Some t \<Rightarrow> acc @ tk_text t) @
      concat (map (\<lambda>j. case ts_get cts j of None \<Rightarrow> '''' | Some t \<Rightarrow> tk_text t) [Suc (unat i)..<Suc (unat stop)]))"
    by (simp add: u)
  ultimately show ?case by (simp split: option.split del: upt_Suc)
qed

lemma text_loop_endless: "text_loop cts i (- 1) acc = None"
proof (rule ccontr)
  assume "text_loop cts i (- 1) acc \<noteq> None"
  then obtain r where r: "text_loop cts i (- 1) acc = Some r" by blast
  have "stop \<noteq> - 1" if "text_loop cts i stop acc = Some r" for cts i stop acc r
  proof (rule text_loop.raw_induct [of "\<lambda>cts i stop acc r. stop \<noteq> - 1", OF _ that])
    fix f :: "token_stream \<Rightarrow> intkey \<Rightarrow> intkey \<Rightarrow> string \<Rightarrow> string option" and cts i stop acc r
    assume IH: "\<And>cts i stop acc r. f cts i stop acc = Some r \<Longrightarrow> stop \<noteq> - 1"
      and body: "(if i \<le> stop then f cts (i + 1) stop (case ts_get cts (unat i) of None \<Rightarrow> acc | Some t \<Rightarrow> acc @ tk_text t) else Some acc) = Some r"
    show "stop \<noteq> - 1"
    proof
      assume "stop = - 1"
      then have "i \<le> stop" by simp
      with body have "f cts (i + 1) stop (case ts_get cts (unat i) of None \<Rightarrow> acc | Some t \<Rightarrow> acc @ tk_text t) = Some r" by simp
      from IH [OF this] \<open>stop = - 1\<close> show False by simp
    qed
  qed
  from this [OF r] show False by simp
qed

lemma concat_texts_get:
  "concat (map (\<lambda>j. case ts_get cts j of None \<Rightarrow> '''' | Some t \<Rightarrow> tk_text t) [0..<ts_size cts]) = concat (map tk_text (cts_tokens cts))"
proof -
  have "map (\<lambda>j. case ts_get cts j of None \<Rightarrow> '''' | Some t \<Rightarrow> tk_text t) [0..<ts_size cts] = map tk_text (cts_tokens cts)"
    by (rule nth_equalityI) (simp_all add: ts_get_def)
  then show ?thesis by simp
qed

text \<open>
  The text of a stream is that of its tokens, of all channels, one after the other; for a stream without tokens the
  function does not return, since the index of the last token wraps around.
\<close>

lemma ts_toString_text:
  assumes "cts_tokens cts \<noteq> []" "ts_size cts < 2 ^ 32"
  shows "ts_toString cts = Some (concat (map tk_text (cts_tokens cts)))"
proof -
  let ?n = "ts_size cts"
  have n: "0 < ?n" using assms(1) by simp
  have "(of_nat ?n - 1 :: intkey) = of_nat (?n - 1)" using of_nat_diff [of 1 ?n, where ?'a = intkey] n by (simp add: Suc_le_eq)
  moreover have "unat (of_nat (?n - 1) :: intkey) = ?n - 1" using assms(2) by (intro unat_of_small) simp
  ultimately have u: "unat (of_nat ?n - 1 :: intkey) = ?n - 1" by simp
  have "text_loop cts 0 (of_nat ?n - 1) '''' =
    Some (concat (map (\<lambda>j. case ts_get cts j of None \<Rightarrow> '''' | Some t \<Rightarrow> tk_text t) [0..<?n]))"
    using text_loop_returns [of "of_nat ?n - 1" 0 cts "''''"] u n assms(2) by (simp del: upt_Suc)
  then show ?thesis by (simp add: ts_toString_def toStringSS_def concat_texts_get)
qed

lemma ts_toString_empty: "cts_tokens cts = [] \<Longrightarrow> ts_toString cts = None"
  using text_loop_endless [of cts 0 "''''"] by (simp add: ts_toString_def toStringSS_def)

end
