(* ===== verification/Antlr_Utf.thy ===== *)
theory Antlr_Utf
  imports RM_Prelude "HOL-Library.Word"
begin

text \<open>
  The conversions between the Unicode encoding forms (\<^verbatim>\<open>antlr3convertutf.c\<close>), which the strings of the run time use.
  Each converter reads units from the source until it is at the end, meets something that is not legal or has no
  room in the target. What it leaves behind is modelled as a triple: the result, the units of the source
  that were not consumed (from \<^verbatim>\<open>*sourceStart\<close> on) and the units that were written; the room is the number of units up to
  \<^verbatim>\<open>targetEnd\<close>. The specification is the definition of the forms in the Unicode standard, by division and remainder
  (\<open>utf8_code\<close>, \<open>utf16_code\<close>). All six converters are instances of the interface \<open>converter\<close>: encoders and decoders are
  inverse to each other. Those that check their input are instances of \<open>checking_converter\<close>: what they accept is
  well-formed, but for a second byte that the test of UTF-8 forgets to bound from below.
\<close>

unbundle bit_operations_syntax

section \<open>Constants and types\<close>

type_synonym UTF32 = "32 word"
type_synonym UTF16 = "16 word"
type_synonym UTF8 = "8 word"

definition UNI_REPLACEMENT_CHAR :: UTF32 where "UNI_REPLACEMENT_CHAR = 0xFFFD"
definition UNI_MAX_BMP :: UTF32 where "UNI_MAX_BMP = 0xFFFF"
definition UNI_MAX_UTF16 :: UTF32 where "UNI_MAX_UTF16 = 0x10FFFF"
definition UNI_MAX_LEGAL_UTF32 :: UTF32 where "UNI_MAX_LEGAL_UTF32 = 0x10FFFF"
definition UNI_SUR_HIGH_START :: UTF32 where "UNI_SUR_HIGH_START = 0xD800"
definition UNI_SUR_HIGH_END :: UTF32 where "UNI_SUR_HIGH_END = 0xDBFF"
definition UNI_SUR_LOW_START :: UTF32 where "UNI_SUR_LOW_START = 0xDC00"
definition UNI_SUR_LOW_END :: UTF32 where "UNI_SUR_LOW_END = 0xDFFF"
definition halfShift :: nat where "halfShift = 10"
definition halfBase :: UTF32 where "halfBase = 0x10000"
definition halfMask :: UTF32 where "halfMask = 0x3FF"
definition byteMask :: UTF32 where "byteMask = 0xBF"
definition byteMark :: UTF32 where "byteMark = 0x80"

lemmas uni_defs = UNI_REPLACEMENT_CHAR_def UNI_MAX_BMP_def UNI_MAX_UTF16_def UNI_MAX_LEGAL_UTF32_def
  UNI_SUR_HIGH_START_def UNI_SUR_HIGH_END_def UNI_SUR_LOW_START_def UNI_SUR_LOW_END_def
  halfShift_def halfBase_def halfMask_def byteMask_def byteMark_def

datatype ConversionResult = conversionOK | sourceExhausted | targetExhausted | sourceIllegal

datatype ConversionFlags = strictConversion | lenientConversion

definition trailingBytesForUTF8 :: "nat list" where
  "trailingBytesForUTF8 =
     replicate 192 0 @ replicate 32 1 @ replicate 16 2 @ replicate 8 3 @ replicate 4 4 @ replicate 4 5"

definition offsetsFromUTF8 :: "UTF32 list" where
  "offsetsFromUTF8 = [0x00000000, 0x00003080, 0x000E2080, 0x03C82080, 0xFA082080, 0x82082080]"

definition firstByteMark :: "UTF8 list" where
  "firstByteMark = [0x00, 0x00, 0xC0, 0xE0, 0xF0, 0xF8, 0xFC]"

section \<open>Reading and writing one character\<close>

text \<open>The units written by a round of a loop, before those of the rounds that follow.\<close>

definition put :: "'t list \<Rightarrow> ConversionResult \<times> 's list \<times> 't list \<Rightarrow> ConversionResult \<times> 's list \<times> 't list" where
  "put us r = (fst r, fst (snd r), us @ snd (snd r))"

definition is_surrogate :: "UTF32 \<Rightarrow> bool" where
  "is_surrogate ch \<longleftrightarrow> UNI_SUR_HIGH_START \<le> ch \<and> ch \<le> UNI_SUR_LOW_END"

definition is_high :: "UTF32 \<Rightarrow> bool" where
  "is_high ch \<longleftrightarrow> UNI_SUR_HIGH_START \<le> ch \<and> ch \<le> UNI_SUR_HIGH_END"

definition is_low :: "UTF32 \<Rightarrow> bool" where
  "is_low ch \<longleftrightarrow> UNI_SUR_LOW_START \<le> ch \<and> ch \<le> UNI_SUR_LOW_END"

text \<open>The surrogate pair of a character behind the basic multilingual plane, and the character of a pair.\<close>

definition split_pair :: "UTF32 \<Rightarrow> UTF16 list" where
  "split_pair ch0 =
     (let ch = ch0 - halfBase
      in [ucast (drop_bit halfShift ch + UNI_SUR_HIGH_START), ucast ((ch AND halfMask) + UNI_SUR_LOW_START)])"

definition join_pair :: "UTF32 \<Rightarrow> UTF32 \<Rightarrow> UTF32" where
  "join_pair ch ch2 = push_bit halfShift (ch - UNI_SUR_HIGH_START) + (ch2 - UNI_SUR_LOW_START) + halfBase"

text \<open>The switch that writes the bytes, from the last one to the first.\<close>

fun put_trail :: "nat \<Rightarrow> UTF32 \<Rightarrow> UTF8 list \<Rightarrow> UTF32 \<times> UTF8 list" where
  "put_trail 0 ch bs = (ch, bs)"
| "put_trail (Suc n) ch bs = put_trail n (drop_bit 6 ch) (ucast ((ch OR byteMark) AND byteMask) # bs)"

definition put_bytes :: "nat \<Rightarrow> UTF32 \<Rightarrow> UTF8 list" where
  "put_bytes bytesToWrite ch0 =
     (let (ch, bs) = put_trail (bytesToWrite - 1) ch0 []
      in ucast (ch OR ucast (firstByteMark ! bytesToWrite)) # bs)"

definition bytes_needed :: "UTF32 \<Rightarrow> nat \<times> UTF32 \<times> bool" where
  "bytes_needed ch =
     (if ch < 0x80 then (1, ch, True) else if ch < 0x800 then (2, ch, True) else if ch < 0x10000 then (3, ch, True)
      else if ch < 0x110000 then (4, ch, True) else (3, UNI_REPLACEMENT_CHAR, False))"

text \<open>The switch that reads the bytes, the loop of Note A.\<close>

fun get_bytes :: "nat \<Rightarrow> UTF32 \<Rightarrow> UTF8 list \<Rightarrow> UTF32" where
  "get_bytes n ch [] = ch"
| "get_bytes 0 ch (b # bs) = ch + ucast b"
| "get_bytes (Suc n) ch (b # bs) = get_bytes n (push_bit 6 (ch + ucast b)) bs"

text \<open>
  \<^verbatim>\<open>isLegalUTF8\<close>: the bytes are looked at from the last one to the first; the callers have made sure that
  \<^verbatim>\<open>length\<close> bytes are there.
\<close>

definition second_legal :: "UTF8 \<Rightarrow> UTF8 \<Rightarrow> bool" where
  "second_legal b a \<longleftrightarrow> a \<le> 0xBF \<and>
     (if b = 0xE0 then 0xA0 \<le> a else if b = 0xED then a \<le> 0x9F else if b = 0xF0 then 0x90 \<le> a
      else if b = 0xF4 then a \<le> 0x8F else 0x80 \<le> a)"

definition isLegalUTF8 :: "UTF8 list \<Rightarrow> nat \<Rightarrow> bool" where
  "isLegalUTF8 source len \<longleftrightarrow>
     1 \<le> len \<and> len \<le> 4 \<and>
     (len = 4 \<longrightarrow> 0x80 \<le> source ! 3 \<and> source ! 3 \<le> 0xBF) \<and>
     (3 \<le> len \<longrightarrow> 0x80 \<le> source ! 2 \<and> source ! 2 \<le> 0xBF) \<and>
     (2 \<le> len \<longrightarrow> second_legal (source ! 0) (source ! 1)) \<and>
     \<not> (0x80 \<le> source ! 0 \<and> source ! 0 < 0xC2) \<and> source ! 0 \<le> 0xF4"

definition isLegalUTF8Sequence :: "UTF8 list \<Rightarrow> bool" where
  "isLegalUTF8Sequence source =
     (let len = trailingBytesForUTF8 ! unat (source ! 0) + 1
      in if length source < len then False else isLegalUTF8 source len)"

section \<open>The converters\<close>

fun utf32_utf16 :: "ConversionFlags \<Rightarrow> ConversionResult \<Rightarrow> nat \<Rightarrow> UTF32 list \<Rightarrow> ConversionResult \<times> UTF32 list \<times> UTF16 list" where
  "utf32_utf16 flags result room [] = (result, [], [])"
| "utf32_utf16 flags result room (ch # source) =
     (if room = 0 then (targetExhausted, ch # source, [])
      else if ch \<le> UNI_MAX_BMP then
        (if is_surrogate ch then
           (if flags = strictConversion then (sourceIllegal, ch # source, [])
            else put [ucast UNI_REPLACEMENT_CHAR] (utf32_utf16 flags result (room - 1) source))
         else put [ucast ch] (utf32_utf16 flags result (room - 1) source))
      else if UNI_MAX_LEGAL_UTF32 < ch then
        (if flags = strictConversion then utf32_utf16 flags sourceIllegal room source
         else put [ucast UNI_REPLACEMENT_CHAR] (utf32_utf16 flags result (room - 1) source))
      else if room < 2 then (targetExhausted, ch # source, [])
      else put (split_pair ch) (utf32_utf16 flags result (room - 2) source))"

definition ConvertUTF32toUTF16 :: "ConversionFlags \<Rightarrow> nat \<Rightarrow> UTF32 list \<Rightarrow> ConversionResult \<times> UTF32 list \<times> UTF16 list" where
  "ConvertUTF32toUTF16 flags room source = utf32_utf16 flags conversionOK room source"

text \<open>The head of both loops over UTF-16: the character and what follows it, or the result of a loop that ends here.\<close>

definition next_utf16 :: "ConversionFlags \<Rightarrow> UTF16 list \<Rightarrow> ConversionResult + UTF32 \<times> UTF16 list" where
  "next_utf16 flags source =
     (let ch = ucast (hd source); rest = tl source in
      if is_high ch then
        (if rest \<noteq> [] then
           (let ch2 = ucast (hd rest) in
            if is_low ch2 then Inr (join_pair ch ch2, tl rest)
            else if flags = strictConversion then Inl sourceIllegal
            else Inr (ch, rest))
         else Inl sourceExhausted)
      else if flags = strictConversion \<and> is_low ch then Inl sourceIllegal
      else Inr (ch, rest))"

lemma next_utf16_shorter:
  "next_utf16 flags source = Inr (ch, rest) \<Longrightarrow> source \<noteq> [] \<Longrightarrow> length rest < length source"
  by (cases source) (auto simp: next_utf16_def Let_def split: if_splits)

function ConvertUTF16toUTF32 :: "ConversionFlags \<Rightarrow> nat \<Rightarrow> UTF16 list \<Rightarrow> ConversionResult \<times> UTF16 list \<times> UTF32 list" where
  "ConvertUTF16toUTF32 flags room source =
     (if source = [] then (conversionOK, [], [])
      else case next_utf16 flags source of
        Inl result \<Rightarrow> (result, source, [])
      | Inr (ch, rest) \<Rightarrow>
          if room = 0 then (targetExhausted, source, [])
          else put [ch] (ConvertUTF16toUTF32 flags (room - 1) rest))"
  by pat_completeness auto
termination
  by (relation "measure (\<lambda>(_, _, source). length source)") (auto dest: next_utf16_shorter)

function ConvertUTF16toUTF8 :: "ConversionFlags \<Rightarrow> nat \<Rightarrow> UTF16 list \<Rightarrow> ConversionResult \<times> UTF16 list \<times> UTF8 list" where
  "ConvertUTF16toUTF8 flags room source =
     (if source = [] then (conversionOK, [], [])
      else case next_utf16 flags source of
        Inl result \<Rightarrow> (result, source, [])
      | Inr (ch0, rest) \<Rightarrow>
          let (bytesToWrite, ch, _) = bytes_needed ch0 in
          if room < bytesToWrite then (targetExhausted, source, [])
          else put (put_bytes bytesToWrite ch) (ConvertUTF16toUTF8 flags (room - bytesToWrite) rest))"
  by pat_completeness auto
termination
  by (relation "measure (\<lambda>(_, _, source). length source)") (auto dest: next_utf16_shorter)

fun utf32_utf8 :: "ConversionFlags \<Rightarrow> ConversionResult \<Rightarrow> nat \<Rightarrow> UTF32 list \<Rightarrow> ConversionResult \<times> UTF32 list \<times> UTF8 list" where
  "utf32_utf8 flags result room [] = (result, [], [])"
| "utf32_utf8 flags result room (ch0 # source) =
     (if flags = strictConversion \<and> is_surrogate ch0 then (sourceIllegal, ch0 # source, [])
      else let (bytesToWrite, ch, legal) = bytes_needed ch0;
               result' = (if legal then result else sourceIllegal)
        in if room < bytesToWrite then (targetExhausted, ch0 # source, [])
           else put (put_bytes bytesToWrite ch) (utf32_utf8 flags result' (room - bytesToWrite) source))"

definition ConvertUTF32toUTF8 :: "ConversionFlags \<Rightarrow> nat \<Rightarrow> UTF32 list \<Rightarrow> ConversionResult \<times> UTF32 list \<times> UTF8 list" where
  "ConvertUTF32toUTF8 flags room source = utf32_utf8 flags conversionOK room source"

text \<open>The head of both loops over UTF-8: the character and what follows it, or the result of a loop that ends here.\<close>

definition next_utf8 :: "UTF8 list \<Rightarrow> ConversionResult + UTF32 \<times> UTF8 list" where
  "next_utf8 source =
     (let extraBytesToRead = trailingBytesForUTF8 ! unat (hd source) in
      if length source \<le> extraBytesToRead then Inl sourceExhausted
      else if \<not> isLegalUTF8 source (extraBytesToRead + 1) then Inl sourceIllegal
      else Inr (get_bytes extraBytesToRead 0 source - offsetsFromUTF8 ! extraBytesToRead, drop (extraBytesToRead + 1) source))"

lemma next_utf8_shorter: "next_utf8 source = Inr (ch, rest) \<Longrightarrow> source \<noteq> [] \<Longrightarrow> length rest < length source"
  by (auto simp: next_utf8_def Let_def split: if_splits)

function ConvertUTF8toUTF16 :: "ConversionFlags \<Rightarrow> nat \<Rightarrow> UTF8 list \<Rightarrow> ConversionResult \<times> UTF8 list \<times> UTF16 list" where
  "ConvertUTF8toUTF16 flags room source =
     (if source = [] then (conversionOK, [], [])
      else case next_utf8 source of
        Inl result \<Rightarrow> (result, source, [])
      | Inr (ch, rest) \<Rightarrow>
          if room = 0 then (targetExhausted, source, [])
          else if ch \<le> UNI_MAX_BMP then
            (if is_surrogate ch then
               (if flags = strictConversion then (sourceIllegal, source, [])
                else put [ucast UNI_REPLACEMENT_CHAR] (ConvertUTF8toUTF16 flags (room - 1) rest))
             else put [ucast ch] (ConvertUTF8toUTF16 flags (room - 1) rest))
          else if UNI_MAX_UTF16 < ch then
            (if flags = strictConversion then (sourceIllegal, source, [])
             else put [ucast UNI_REPLACEMENT_CHAR] (ConvertUTF8toUTF16 flags (room - 1) rest))
          else if room < 2 then (targetExhausted, source, [])
          else put (split_pair ch) (ConvertUTF8toUTF16 flags (room - 2) rest))"
  by pat_completeness auto
termination
  by (relation "measure (\<lambda>(_, _, source). length source)") (auto dest: next_utf8_shorter)

function utf8_utf32 :: "ConversionFlags \<Rightarrow> ConversionResult \<Rightarrow> nat \<Rightarrow> UTF8 list \<Rightarrow> ConversionResult \<times> UTF8 list \<times> UTF32 list" where
  "utf8_utf32 flags result room source =
     (if source = [] then (result, [], [])
      else case next_utf8 source of
        Inl result' \<Rightarrow> (result', source, [])
      | Inr (ch, rest) \<Rightarrow>
          if room = 0 then (targetExhausted, source, [])
          else if ch \<le> UNI_MAX_LEGAL_UTF32 then
            (if is_surrogate ch then
               (if flags = strictConversion then (sourceIllegal, source, [])
                else put [UNI_REPLACEMENT_CHAR] (utf8_utf32 flags result (room - 1) rest))
             else put [ch] (utf8_utf32 flags result (room - 1) rest))
          else put [UNI_REPLACEMENT_CHAR] (utf8_utf32 flags sourceIllegal (room - 1) rest))"
  by pat_completeness auto
termination
  by (relation "measure (\<lambda>(_, _, _, source). length source)") (auto dest: next_utf8_shorter)

definition ConvertUTF8toUTF32 :: "ConversionFlags \<Rightarrow> nat \<Rightarrow> UTF8 list \<Rightarrow> ConversionResult \<times> UTF8 list \<times> UTF32 list" where
  "ConvertUTF8toUTF32 flags room source = utf8_utf32 flags conversionOK room source"

declare ConvertUTF16toUTF32.simps [simp del] ConvertUTF16toUTF8.simps [simp del]
  ConvertUTF8toUTF16.simps [simp del] utf8_utf32.simps [simp del]

section \<open>The encoding forms\<close>

definition scalar :: "UTF32 \<Rightarrow> bool" where
  "scalar ch \<longleftrightarrow> ch \<le> UNI_MAX_LEGAL_UTF32 \<and> \<not> is_surrogate ch"

definition utf8_nat :: "nat \<Rightarrow> nat list" where
  "utf8_nat n =
     (if n < 0x80 then [n]
      else if n < 0x800 then [0xC0 + n div 64, 0x80 + n mod 64]
      else if n < 0x10000 then [0xE0 + n div 4096, 0x80 + n div 64 mod 64, 0x80 + n mod 64]
      else [0xF0 + n div 262144, 0x80 + n div 4096 mod 64, 0x80 + n div 64 mod 64, 0x80 + n mod 64])"

definition utf16_nat :: "nat \<Rightarrow> nat list" where
  "utf16_nat n =
     (if n < 0x10000 then [n] else [0xD800 + (n - 0x10000) div 1024, 0xDC00 + (n - 0x10000) mod 1024])"

definition utf8_code :: "UTF32 \<Rightarrow> UTF8 list" where
  "utf8_code ch = map of_nat (utf8_nat (unat ch))"

definition utf16_code :: "UTF32 \<Rightarrow> UTF16 list" where
  "utf16_code ch = map of_nat (utf16_nat (unat ch))"

lemmas word_nat_simps = word_le_nat_alt word_less_nat_alt

lemma surrogate_unat:
  "is_surrogate ch \<longleftrightarrow> 0xD800 \<le> unat ch \<and> unat ch \<le> 0xDFFF"
  "is_high ch \<longleftrightarrow> 0xD800 \<le> unat ch \<and> unat ch \<le> 0xDBFF"
  "is_low ch \<longleftrightarrow> 0xDC00 \<le> unat ch \<and> unat ch \<le> 0xDFFF"
  by (simp_all add: is_surrogate_def is_high_def is_low_def uni_defs word_nat_simps)

lemma scalar_unat: "scalar ch \<longleftrightarrow> unat ch < 0x110000 \<and> \<not> (0xD800 \<le> unat ch \<and> unat ch \<le> 0xDFFF)"
  by (auto simp: scalar_def surrogate_unat uni_defs word_nat_simps)

subsection \<open>Writing\<close>

lemma trail_byte: "ucast ((ch OR byteMark) AND byteMask) = (of_nat (0x80 + unat ch mod 64) :: UTF8)" for ch :: UTF32
proof -
  have "(ch OR 0x80) AND 0xBF = 0x80 OR take_bit 6 ch"
    by (rule bit_eqI) (auto simp: bit_simps less_Suc_eq numeral_eq_Suc)
  also have "\<dots> = 0x80 + take_bit 6 ch"
    by (rule disjunctive_add [symmetric]) (auto simp: bit_simps less_Suc_eq numeral_eq_Suc)
  finally have "unat ((ch OR 0x80) AND 0xBF) = 0x80 + unat ch mod 64"
    by (simp add: unat_word_ariths unsigned_take_bit_eq take_bit_eq_mod)
  then show ?thesis by (metis of_nat_unat uni_defs(12,13))
qed


lemma first_byte:
  fixes ch :: UTF32
  assumes c: "unat ch = c" and "c < 2 ^ n" "n \<le> 7" "m = 2 ^ n * k" "m < 256"
  shows "ucast (ch OR of_nat m) = (of_nat (m + c) :: UTF8)"
proof -
  note assms = assms(2-) [folded c]
  have p: "(of_nat m :: UTF32) = push_bit n (of_nat k)" using assms(3) by (simp add: push_bit_eq_mult)
  have "unat (take_bit n ch) = unat ch" using assms(1) by (simp add: unsigned_take_bit_eq take_bit_nat_eq_self)
  then have t: "take_bit n ch = ch" by (simp only: word_unat_eq_iff)
  have "ch AND of_nat m = 0" unfolding p by (subst t [symmetric]) (rule bit_eqI, auto simp: bit_simps)
  then have "ch OR of_nat m = ch + of_nat m" by (simp add: disjunctive_add_eq_or)
  moreover have "unat ch < 128" using assms(1,2) order.strict_trans2 [of "unat ch" "2 ^ n" "2 ^ 7"] power_increasing [of n 7 "2 :: nat"] by simp
  ultimately have "unat (ch OR of_nat m) = m + unat ch"
    using assms(4) by (simp add: unat_word_ariths unat_of_nat take_bit_nat_eq_self)
  then show ?thesis by (metis of_nat_unat c)
qed

lemma put_bytes_unfold:
  "put_bytes 1 ch = [ucast (ch OR of_nat 0)]"
  "put_bytes 2 ch = [ucast (drop_bit 6 ch OR of_nat 0xC0), ucast ((ch OR byteMark) AND byteMask)]"
  "put_bytes 3 ch = [ucast (drop_bit 12 ch OR of_nat 0xE0), ucast ((drop_bit 6 ch OR byteMark) AND byteMask),
     ucast ((ch OR byteMark) AND byteMask)]"
  "put_bytes 4 ch = [ucast (drop_bit 18 ch OR of_nat 0xF0), ucast ((drop_bit 12 ch OR byteMark) AND byteMask),
     ucast ((drop_bit 6 ch OR byteMark) AND byteMask), ucast ((ch OR byteMark) AND byteMask)]"
proof -
  have n: "2 - 1 = Suc 0" "3 - 1 = Suc (Suc 0)" "4 - 1 = Suc (Suc (Suc 0))" by simp_all
  show "put_bytes 1 ch = [ucast (ch OR of_nat 0)]" by (simp add: put_bytes_def firstByteMark_def)
  show "put_bytes 2 ch = [ucast (drop_bit 6 ch OR of_nat 0xC0), ucast ((ch OR byteMark) AND byteMask)]"
    unfolding put_bytes_def n by (simp add: firstByteMark_def)
  show "put_bytes 3 ch = [ucast (drop_bit 12 ch OR of_nat 0xE0), ucast ((drop_bit 6 ch OR byteMark) AND byteMask),
     ucast ((ch OR byteMark) AND byteMask)]"
    unfolding put_bytes_def n by (simp add: firstByteMark_def drop_bit_drop_bit)
  show "put_bytes 4 ch = [ucast (drop_bit 18 ch OR of_nat 0xF0), ucast ((drop_bit 12 ch OR byteMark) AND byteMask),
     ucast ((drop_bit 6 ch OR byteMark) AND byteMask), ucast ((ch OR byteMark) AND byteMask)]"
    unfolding put_bytes_def n by (simp add: firstByteMark_def drop_bit_drop_bit)
qed

lemma put_bytes_code:
  "unat ch < 0x80 \<Longrightarrow> put_bytes 1 ch = utf8_code ch"
  "0x80 \<le> unat ch \<Longrightarrow> unat ch < 0x800 \<Longrightarrow> put_bytes 2 ch = utf8_code ch"
  "0x800 \<le> unat ch \<Longrightarrow> unat ch < 0x10000 \<Longrightarrow> put_bytes 3 ch = utf8_code ch"
  "0x10000 \<le> unat ch \<Longrightarrow> unat ch < 0x110000 \<Longrightarrow> put_bytes 4 ch = utf8_code ch"
proof -
  have d: "unat (drop_bit k ch) = unat ch div 2 ^ k" for k by (metis drop_bit_eq_div unat_drop_bit_eq)
  note first = first_byte [OF refl, of ch 7 0 0] first_byte [OF d, of 6 5 "0xC0" 6]
    first_byte [OF d, of 12 4 "0xE0" 14] first_byte [OF d, of 18 3 "0xF0" 30]
  note defs = utf8_code_def utf8_nat_def
  show "unat ch < 0x80 \<Longrightarrow> put_bytes 1 ch = utf8_code ch"
    using first(1) unfolding put_bytes_unfold by (simp add: defs)
  show "0x80 \<le> unat ch \<Longrightarrow> unat ch < 0x800 \<Longrightarrow> put_bytes 2 ch = utf8_code ch"
    using first(2) unfolding put_bytes_unfold trail_byte d by (simp add: defs)
  show "0x800 \<le> unat ch \<Longrightarrow> unat ch < 0x10000 \<Longrightarrow> put_bytes 3 ch = utf8_code ch"
    using first(3) unfolding put_bytes_unfold trail_byte d by (simp add: defs)
  show "0x10000 \<le> unat ch \<Longrightarrow> unat ch < 0x110000 \<Longrightarrow> put_bytes 4 ch = utf8_code ch"
    using first(4) unfolding put_bytes_unfold trail_byte d by (simp add: defs)
qed

subsection \<open>Reading\<close>

lemma trailing_nth:
  "n < 256 \<Longrightarrow> trailingBytesForUTF8 ! n =
     (if n < 192 then 0 else if n < 224 then 1 else if n < 240 then 2 else if n < 248 then 3 else if n < 252 then 4 else 5)"
  by (auto simp: trailingBytesForUTF8_def nth_append)

lemma byte_bound: "unat b < 256" for b :: UTF8
  using unsigned_less [of b] by simp

lemma get_bytes_unfold:
  "get_bytes 0 0 (b # us) - offsetsFromUTF8 ! 0 = of_nat (unat b)"
  "get_bytes 1 0 (b # b1 # us) - offsetsFromUTF8 ! 1 = of_nat (unat b * 64 + unat b1) - of_nat 0x3080"
  "get_bytes 2 0 (b # b1 # b2 # us) - offsetsFromUTF8 ! 2 =
     of_nat (unat b * 4096 + unat b1 * 64 + unat b2) - of_nat 0xE2080"
  "get_bytes 3 0 (b # b1 # b2 # b3 # us) - offsetsFromUTF8 ! 3 =
     of_nat (unat b * 262144 + unat b1 * 4096 + unat b2 * 64 + unat b3) - of_nat 0x3C82080"
proof -
  have n: "2 = Suc (Suc 0)" "3 = Suc (Suc (Suc 0))" by simp_all
  have u: "(ucast x :: UTF32) = of_nat (unat x)" for x :: UTF8 by simp
  note defs = offsetsFromUTF8_def push_bit_eq_mult algebra_simps
  show "get_bytes 0 0 (b # us) - offsetsFromUTF8 ! 0 = of_nat (unat b)" by (simp add: offsetsFromUTF8_def)
  show "get_bytes 1 0 (b # b1 # us) - offsetsFromUTF8 ! 1 = of_nat (unat b * 64 + unat b1) - of_nat 0x3080"
    by (simp add: defs)
  show "get_bytes 2 0 (b # b1 # b2 # us) - offsetsFromUTF8 ! 2 =
     of_nat (unat b * 4096 + unat b1 * 64 + unat b2) - of_nat 0xE2080"
    unfolding n by (simp add: defs)
  show "get_bytes 3 0 (b # b1 # b2 # b3 # us) - offsetsFromUTF8 ! 3 =
     of_nat (unat b * 262144 + unat b1 * 4096 + unat b2 * 64 + unat b3) - of_nat 0x3C82080"
    unfolding n by (simp add: defs)
qed

lemma digit: "y < 64 \<Longrightarrow> (x * 64 + y) div 64 = x" "y < 64 \<Longrightarrow> (x * 64 + y) mod 64 = y" for x y :: nat
  by simp_all

lemma quot: "n div 4096 = n div 64 div 64" "n div 262144 = n div 64 div 64 div 64" for n :: nat
  by (simp_all flip: div_mult2_eq)

lemma utf8_nat_bytes:
  "a < 0x80 \<Longrightarrow> utf8_nat a = [a]"
  "b < 64 \<Longrightarrow> 2 \<le> a \<Longrightarrow> a < 0x20 \<Longrightarrow> utf8_nat (a * 64 + b) = [0xC0 + a, 0x80 + b]"
  "b < 64 \<Longrightarrow> c < 64 \<Longrightarrow> a < 0x10 \<Longrightarrow> 0 < a \<or> 0x20 \<le> b \<Longrightarrow>
     utf8_nat (a * 4096 + b * 64 + c) = [0xE0 + a, 0x80 + b, 0x80 + c]"
  "b < 64 \<Longrightarrow> c < 64 \<Longrightarrow> d < 64 \<Longrightarrow> a < 5 \<Longrightarrow> 0 < a \<or> 0x10 \<le> b \<Longrightarrow>
     utf8_nat (a * 262144 + b * 4096 + c * 64 + d) = [0xF0 + a, 0x80 + b, 0x80 + c, 0x80 + d]"
proof -
  show "a < 0x80 \<Longrightarrow> utf8_nat a = [a]" by (simp add: utf8_nat_def)
  show "b < 64 \<Longrightarrow> 2 \<le> a \<Longrightarrow> a < 0x20 \<Longrightarrow> utf8_nat (a * 64 + b) = [0xC0 + a, 0x80 + b]"
    by (simp add: utf8_nat_def)
  assume b: "b < 64" "c < 64"
  have "a * 4096 + b * 64 + c = (a * 64 + b) * 64 + c" by simp
  then obtain n where n: "n = a * 4096 + b * 64 + c" "n div 64 = a * 64 + b" "n mod 64 = c"
    using digit [OF b(2)] by metis
  have "n div 4096 = a" "n div 64 mod 64 = b" using digit [OF b(1)] by (simp_all only: quot n(2))
  moreover assume "a < 0x10" "0 < a \<or> 0x20 \<le> b"
  then have "n < 0x10000" "0x800 \<le> n" using b by (auto simp: n(1))
  ultimately show "utf8_nat (a * 4096 + b * 64 + c) = [0xE0 + a, 0x80 + b, 0x80 + c]"
    unfolding n(1) [symmetric] by (simp add: utf8_nat_def n(3))
next
  assume b: "b < 64" "c < 64" "d < 64"
  have "a * 262144 + b * 4096 + c * 64 + d = ((a * 64 + b) * 64 + c) * 64 + d" by simp
  then obtain n where n: "n = a * 262144 + b * 4096 + c * 64 + d" "n div 64 = (a * 64 + b) * 64 + c" "n mod 64 = d"
    using digit [OF b(3)] by metis
  have "n div 262144 = a" "n div 4096 mod 64 = b" "n div 64 mod 64 = c"
    using digit [OF b(1)] digit [OF b(2)] by (simp_all only: quot n(2))
  moreover assume "a < 5" "0 < a \<or> 0x10 \<le> b"
  then have "0x10000 \<le> n" using b by (auto simp: n(1))
  ultimately show "utf8_nat (a * 262144 + b * 4096 + c * 64 + d) = [0xF0 + a, 0x80 + b, 0x80 + c, 0x80 + d]"
    unfolding n(1) [symmetric] by (simp add: utf8_nat_def n(3))
qed

lemma of_nat_code: "utf8_nat n = map unat bs \<Longrightarrow> n < 0x110000 \<Longrightarrow> utf8_code (of_nat n) = bs"
  by (simp add: utf8_code_def unat_of_nat take_bit_nat_eq_self comp_def)

lemma scalar_of_nat: "n < 0x110000 \<Longrightarrow> scalar (of_nat n) \<longleftrightarrow> \<not> (0xD800 \<le> n \<and> n \<le> 0xDFFF)"
  by (simp add: scalar_unat unat_of_nat take_bit_nat_eq_self)

lemma offset_cancels:
  "of_nat ((0xC0 + x) * 64 + (0x80 + y)) - of_nat 0x3080 = (of_nat (x * 64 + y) :: UTF32)"
  "of_nat ((0xE0 + x) * 4096 + (0x80 + y) * 64 + (0x80 + z)) - of_nat 0xE2080 = (of_nat (x * 4096 + y * 64 + z) :: UTF32)"
  "of_nat ((0xF0 + x) * 262144 + (0x80 + y) * 4096 + (0x80 + z) * 64 + (0x80 + t)) - of_nat 0x3C82080 =
     (of_nat (x * 262144 + y * 4096 + z * 64 + t) :: UTF32)"
  by (simp_all add: algebra_simps)

lemma second_legal_unat:
  "second_legal b a \<longleftrightarrow> unat a \<le> 0xBF \<and>
     (if unat b = 0xE0 then 0xA0 \<le> unat a else if unat b = 0xED then unat a \<le> 0x9F
      else if unat b = 0xF0 then 0x90 \<le> unat a else if unat b = 0xF4 then unat a \<le> 0x8F else 0x80 \<le> unat a)"
  by (simp add: second_legal_def word_le_nat_alt word_unat_eq_iff)

text \<open>
  The second byte after \<^verbatim>\<open>0xED\<close> and \<^verbatim>\<open>0xF4\<close> is only compared with an upper bound, not with \<^verbatim>\<open>0x80\<close>: these two bytes may
  be followed by one that is no continuation byte, an ASCII character for instance.
\<close>

definition swallows :: "UTF8 list \<Rightarrow> bool" where
  "swallows us \<longleftrightarrow> (\<exists>b a rest. us = b # a # rest \<and> (b = 0xED \<or> b = 0xF4) \<and> a < 0x80)"

lemma legal_bytes:
  assumes "isLegalUTF8 (b # bs) (n + 1)" "n = trailingBytesForUTF8 ! unat b" "n \<le> length bs"
  obtains (one) "n = 0" "unat b < 0x80"
  | (two) x b1 y vs where "n = 1" "bs = b1 # vs" "unat b = 0xC0 + x" "unat b1 = 0x80 + y"
      "2 \<le> x" "x < 0x20" "y < 64"
  | (three) x b1 y b2 z vs where "n = 2" "bs = b1 # b2 # vs" "unat b = 0xE0 + x" "unat b1 = 0x80 + y" "unat b2 = 0x80 + z"
      "x < 0x10" "0 < x \<or> 0x20 \<le> y" "x = 13 \<longrightarrow> y < 0x20" "y < 64" "z < 64"
  | (four) x b1 y b2 z b3 t vs where "n = 3" "bs = b1 # b2 # b3 # vs" "unat b = 0xF0 + x" "unat b1 = 0x80 + y"
      "unat b2 = 0x80 + z" "unat b3 = 0x80 + t" "x < 5" "0 < x \<or> 0x10 \<le> y" "x = 4 \<longrightarrow> y < 0x10" "y < 64" "z < 64" "t < 64"
  | (swallow3) b1 b2 z vs where "n = 2" "bs = b1 # b2 # vs" "unat b = 0xED" "unat b1 < 0x80" "unat b2 = 0x80 + z" "z < 64"
  | (swallow4) b1 b2 z b3 t vs where "n = 3" "bs = b1 # b2 # b3 # vs" "unat b = 0xF4" "unat b1 < 0x80" "unat b2 = 0x80 + z"
      "unat b3 = 0x80 + t" "z < 64" "t < 64"
proof -
  have "n \<le> 3" using assms(1) by (simp add: isLegalUTF8_def)
  then have table: "if n = 0 then unat b < 192 else if n = 1 then 192 \<le> unat b \<and> unat b < 224
      else if n = 2 then 224 \<le> unat b \<and> unat b < 240 else 240 \<le> unat b"
    using trailing_nth [OF byte_bound [of b], folded assms(2)] by (auto split: if_splits)
  have first: "\<not> (0x80 \<le> unat b \<and> unat b < 0xC2)" "unat b \<le> 0xF4"
    using assms(1) by (auto simp: isLegalUTF8_def word_nat_simps)
  consider "n = 0" | "n = 1" | "n = 2" | "n = 3" using \<open>n \<le> 3\<close> by linarith
  then show thesis
  proof cases
    case 1
    then show thesis using first table by (intro one) auto
  next
    case 2
    then obtain b1 vs where bs: "bs = b1 # vs" using assms(3) by (cases bs) auto
    have "second_legal b b1" using assms(1) 2 by (simp add: isLegalUTF8_def bs)
    then have "0x80 \<le> unat b1" "unat b1 \<le> 0xBF" using table 2 by (auto simp: second_legal_unat split: if_splits)
    then show thesis using bs 2 table first two [of b1 vs "unat b - 0xC0" "unat b1 - 0x80"] by simp
  next
    case 3
    then obtain b1 b2 vs where bs: "bs = b1 # b2 # vs"
      using assms(3) by (cases bs; cases "tl bs") auto
    have "second_legal b b1" "0x80 \<le> b2" "b2 \<le> 0xBF" using assms(1) 3 by (simp_all add: isLegalUTF8_def bs)
    then have "unat b = 0xED \<or> 0x80 \<le> unat b1" "unat b1 \<le> 0xBF" "0x80 \<le> unat b2" "unat b2 \<le> 0xBF"
      "unat b = 0xE0 \<longrightarrow> 0xA0 \<le> unat b1" "unat b = 0xED \<longrightarrow> unat b1 \<le> 0x9F"
      using table 3 by (auto simp: second_legal_unat word_le_nat_alt split: if_splits)
    then show thesis
      using bs 3 table three [of b1 b2 vs "unat b - 0xE0" "unat b1 - 0x80" "unat b2 - 0x80"]
        swallow3 [of b1 b2 vs "unat b2 - 0x80"] by force
  next
    case 4
    then obtain b1 b2 b3 vs where bs: "bs = b1 # b2 # b3 # vs"
      using assms(3) by (cases bs; cases "tl bs"; cases "tl (tl bs)") auto
    have "second_legal b b1" "0x80 \<le> b2" "b2 \<le> 0xBF" "0x80 \<le> b3" "b3 \<le> 0xBF"
      using assms(1) 4 by (simp_all add: isLegalUTF8_def bs)
    then have "unat b = 0xF4 \<or> 0x80 \<le> unat b1" "unat b1 \<le> 0xBF" "0x80 \<le> unat b2" "unat b2 \<le> 0xBF"
      "0x80 \<le> unat b3" "unat b3 \<le> 0xBF" "unat b = 0xF0 \<longrightarrow> 0x90 \<le> unat b1" "unat b = 0xF4 \<longrightarrow> unat b1 \<le> 0x8F"
      using table 4 by (auto simp: second_legal_unat word_le_nat_alt split: if_splits)
    then show thesis
      using bs 4 table first four [of b1 b2 b3 vs "unat b - 0xF0" "unat b1 - 0x80" "unat b2 - 0x80" "unat b3 - 0x80"]
        swallow4 [of b1 b2 b3 vs "unat b2 - 0x80" "unat b3 - 0x80"] by force
  qed
qed

lemma next_utf8_sound:
  assumes "next_utf8 us = Inr (ch, vs)" "us \<noteq> []"
  shows "scalar ch \<and> (us = utf8_code ch @ vs \<or> swallows us)"
proof -
  obtain b bs where us: "us = b # bs" using assms(2) by (cases us) auto
  define n where "n = trailingBytesForUTF8 ! unat b"
  have len: "n \<le> length bs" and legal: "isLegalUTF8 (b # bs) (n + 1)"
    and ch: "ch = get_bytes n 0 us - offsetsFromUTF8 ! n" and vs: "vs = drop n bs"
    using assms(1) by (auto simp: next_utf8_def us n_def Let_def split: if_splits)
  have code: "?thesis" if "ch = of_nat k" "utf8_nat k = map unat (take (n + 1) us)" "k < 0x110000" "\<not> (0xD800 \<le> k \<and> k \<le> 0xDFFF)" for k
    using of_nat_code [OF that(2,3)] scalar_of_nat [OF that(3)] that(1,4) vs us by simp
  note defs = us get_bytes_unfold offset_cancels swallows_def word_unat_eq_iff word_less_nat_alt
  from legal n_def len show ?thesis
  proof (cases rule: legal_bytes)
    case one
    with ch show ?thesis by (intro code [of "unat b"]) (simp_all only: defs, simp_all add: utf8_nat_bytes)
  next
    case (two x b1 y)
    with ch show ?thesis by (intro code [of "x * 64 + y"]) (simp_all only: defs, simp_all add: utf8_nat_bytes)
  next
    case (three x b1 y b2 z)
    then have "\<not> (0xD800 \<le> x * 4096 + y * 64 + z \<and> x * 4096 + y * 64 + z \<le> 0xDFFF)"
      by (cases "x = 13"; cases "x < 13") auto
    with three ch show ?thesis
      by (intro code [of "x * 4096 + y * 64 + z"]) (simp_all only: defs, simp_all add: utf8_nat_bytes)
  next
    case (four x b1 y b2 z b3 t)
    then have "x * 262144 + y * 4096 + z * 64 + t < 0x110000" "0xDFFF < x * 262144 + y * 4096 + z * 64 + t" by auto
    with four ch show ?thesis
      by (intro code [of "x * 262144 + y * 4096 + z * 64 + t"]) (simp_all only: defs, simp_all add: utf8_nat_bytes)
  next
    case (swallow3 b1 b2 z)
    then have "ch = of_nat (0xB000 + unat b1 * 64 + z)" using ch by (simp only: defs) (simp add: algebra_simps)
    moreover have "scalar (of_nat (0xB000 + unat b1 * 64 + z))" using swallow3 by (subst scalar_of_nat) auto
    moreover have "swallows us" using swallow3 by (auto simp: us swallows_def word_unat_eq_iff word_less_nat_alt)
    ultimately show ?thesis by simp
  next
    case (swallow4 b1 b2 z b3 t)
    then have "ch = of_nat (0x80000 + unat b1 * 4096 + z * 64 + t)" using ch by (simp only: defs) (simp add: algebra_simps)
    moreover have "scalar (of_nat (0x80000 + unat b1 * 4096 + z * 64 + t))" using swallow4 by (subst scalar_of_nat) auto
    moreover have "swallows us" using swallow4 by (auto simp: us swallows_def word_unat_eq_iff word_less_nat_alt)
    ultimately show ?thesis by simp
  qed
qed

lemma next_utf8_bytes:
  assumes "n = trailingBytesForUTF8 ! unat b" "isLegalUTF8 (b # bs) (n + 1)" "n \<le> length bs"
  shows "next_utf8 (b # bs) = Inr (get_bytes n 0 (b # bs) - offsetsFromUTF8 ! n, drop n bs)"
  using assms by (simp add: next_utf8_def Let_def)

lemma next_utf8_one: "unat b < 0x80 \<Longrightarrow> next_utf8 (b # us) = Inr (of_nat (unat b), us)"
  using next_utf8_bytes [of 0 b us] unfolding get_bytes_unfold
  by (simp add: isLegalUTF8_def word_nat_simps trailing_nth)

lemma next_utf8_two:
  assumes "unat b = 0xC0 + x" "unat b1 = 0x80 + y" "2 \<le> x" "x < 0x20" "y < 64"
  shows "next_utf8 (b # b1 # us) = Inr (of_nat (x * 64 + y), us)"
proof -
  have "isLegalUTF8 (b # b1 # us) (1 + 1)"
    using assms by (auto simp: isLegalUTF8_def second_legal_unat word_nat_simps)
  then show ?thesis
    using next_utf8_bytes [of 1 b "b1 # us"] assms unfolding get_bytes_unfold assms(1,2) offset_cancels
    by (simp add: trailing_nth)
qed

lemma next_utf8_three:
  assumes "unat b = 0xE0 + x" "unat b1 = 0x80 + y" "unat b2 = 0x80 + z"
    "x < 0x10" "0 < x \<or> 0x20 \<le> y" "x = 13 \<longrightarrow> y < 0x20" "y < 64" "z < 64"
  shows "next_utf8 (b # b1 # b2 # us) = Inr (of_nat (x * 4096 + y * 64 + z), us)"
proof -
  have "isLegalUTF8 (b # b1 # b2 # us) (2 + 1)"
    using assms by (auto simp: isLegalUTF8_def second_legal_unat word_nat_simps)
  then show ?thesis
    using next_utf8_bytes [of 2 b "b1 # b2 # us"] assms unfolding get_bytes_unfold assms(1-3) offset_cancels
    by (simp add: trailing_nth)
qed

lemma next_utf8_four:
  assumes "unat b = 0xF0 + x" "unat b1 = 0x80 + y" "unat b2 = 0x80 + z" "unat b3 = 0x80 + t"
    "x < 5" "0 < x \<or> 0x10 \<le> y" "x = 4 \<longrightarrow> y < 0x10" "y < 64" "z < 64" "t < 64"
  shows "next_utf8 (b # b1 # b2 # b3 # us) = Inr (of_nat (x * 262144 + y * 4096 + z * 64 + t), us)"
proof -
  have "isLegalUTF8 (b # b1 # b2 # b3 # us) (3 + 1)"
    using assms by (auto simp: isLegalUTF8_def second_legal_unat word_nat_simps)
  then show ?thesis
    using next_utf8_bytes [of 3 b "b1 # b2 # b3 # us"] assms unfolding get_bytes_unfold assms(1-4) offset_cancels
    by (simp add: trailing_nth)
qed

lemma digits_value:
  "n = n div 64 * 64 + n mod 64"
  "n = n div 4096 * 4096 + n div 64 mod 64 * 64 + n mod 64"
  "n = n div 262144 * 262144 + n div 4096 mod 64 * 4096 + n div 64 mod 64 * 64 + n mod 64" for n :: nat
proof -
  have m: "m = m div 64 * 64 + m mod 64" for m :: nat by simp
  show "n = n div 64 * 64 + n mod 64" by (rule m)
  show "n = n div 4096 * 4096 + n div 64 mod 64 * 64 + n mod 64"
    unfolding quot using m [of n] m [of "n div 64"] by linarith
  show "n = n div 262144 * 262144 + n div 4096 mod 64 * 4096 + n div 64 mod 64 * 64 + n mod 64"
    unfolding quot using m [of n] m [of "n div 64"] m [of "n div 64 div 64"] by linarith
qed

lemma next_utf8_code:
  assumes "scalar ch"
  shows "next_utf8 (utf8_code ch @ us) = Inr (ch, us)"
proof -
  define k where "k = unat ch"
  have k: "k < 0x110000" "\<not> (0xD800 \<le> k \<and> k \<le> 0xDFFF)" "ch = of_nat k" using assms by (simp_all add: scalar_unat k_def)
  have u: "unat (of_nat m :: UTF8) = m" if "m < 256" for m using that by (simp add: unat_of_nat take_bit_nat_eq_self)
  have code: "utf8_code ch = map of_nat (utf8_nat k)" by (simp add: utf8_code_def k_def)
  consider "k < 0x80" | "0x80 \<le> k" "k < 0x800" | "0x800 \<le> k" "k < 0x10000" | "0x10000 \<le> k" by linarith
  then show ?thesis
  proof cases
    case 1
    then show ?thesis unfolding code utf8_nat_bytes(1) [OF 1] using next_utf8_one [of "of_nat k" us] k(3) by (simp add: u)
  next
    case 2
    define x y where "x = k div 64" "y = k mod 64"
    have "2 \<le> x" "x < 0x20" "y < 64" using 2 by (auto simp: x_y_def)
    then have "next_utf8 (of_nat (0xC0 + x) # of_nat (0x80 + y) # us) = Inr (of_nat (x * 64 + y), us)"
      by (intro next_utf8_two u) auto
    moreover have "utf8_nat k = [0xC0 + x, 0x80 + y]" using 2 by (simp add: utf8_nat_def x_y_def)
    ultimately show ?thesis unfolding code using digits_value(1) [of k] k(3) by (simp add: x_y_def del: of_nat_add)
  next
    case 3
    define x y z where "x = k div 4096" "y = k div 64 mod 64" "z = k mod 64"
    have v: "k = x * 4096 + y * 64 + z" using digits_value(2) [of k] by (simp add: x_y_z_def)
    have b: "x < 0x10" "y < 64" "z < 64" using 3 by (auto simp: x_y_z_def)
    have "0 < x \<or> 0x20 \<le> y" "x = 13 \<longrightarrow> y < 0x20" using 3 k(2) b v by auto
    with b have "next_utf8 (of_nat (0xE0 + x) # of_nat (0x80 + y) # of_nat (0x80 + z) # us) = Inr (of_nat k, us)"
      unfolding v by (intro next_utf8_three u) auto
    moreover have "utf8_nat k = [0xE0 + x, 0x80 + y, 0x80 + z]" using 3 by (simp add: utf8_nat_def x_y_z_def)
    ultimately show ?thesis unfolding code using k(3) by simp
  next
    case 4
    define x y z t where "x = k div 262144" "y = k div 4096 mod 64" "z = k div 64 mod 64" "t = k mod 64"
    have v: "k = x * 262144 + y * 4096 + z * 64 + t" using digits_value(3) [of k] by (simp add: x_y_z_t_def)
    have b: "x < 5" "y < 64" "z < 64" "t < 64" using k(1) by (auto simp: x_y_z_t_def)
    have "0 < x \<or> 0x10 \<le> y" "x = 4 \<longrightarrow> y < 0x10" using 4 k(1) b v by auto
    with b have "next_utf8 (of_nat (0xF0 + x) # of_nat (0x80 + y) # of_nat (0x80 + z) # of_nat (0x80 + t) # us) = Inr (of_nat k, us)"
      unfolding v by (intro next_utf8_four u) auto
    moreover have "utf8_nat k = [0xF0 + x, 0x80 + y, 0x80 + z, 0x80 + t]" using 4 by (simp add: utf8_nat_def x_y_z_t_def)
    ultimately show ?thesis unfolding code using k(3) by simp
  qed
qed

subsection \<open>Surrogate pairs\<close>

lemma split_pair_code:
  assumes "0x10000 \<le> unat ch" "unat ch < 0x110000"
  shows "split_pair ch = utf16_code ch"
proof -
  define w where "w = ch - halfBase"
  have w: "unat w = unat ch - 0x10000"
    using assms(1) by (simp add: w_def uni_defs unat_sub word_le_nat_alt)
  have "unat (drop_bit 10 w) = unat w div 2 ^ 10" by (metis drop_bit_eq_div unat_drop_bit_eq)
  then have "unat (drop_bit 10 w + 0xD800) = 0xD800 + unat w div 1024"
    using assms(2) w by (simp add: unat_word_ariths)
  moreover have "w AND 0x3FF = take_bit 10 w" by (simp add: take_bit_eq_mask mask_numeral)
  then have "unat (w AND 0x3FF) = unat w mod 2 ^ 10" by (simp only: unsigned_take_bit_eq) (simp add: take_bit_eq_mod)
  then have "unat ((w AND 0x3FF) + 0xDC00) = 0xDC00 + unat w mod 1024"
    by (simp add: unat_word_ariths)
  ultimately have "ucast (drop_bit 10 w + 0xD800) = (of_nat (0xD800 + unat w div 1024) :: UTF16)"
    "ucast ((w AND 0x3FF) + 0xDC00) = (of_nat (0xDC00 + unat w mod 1024) :: UTF16)" by (metis of_nat_unat)+
  moreover have "split_pair ch = [ucast (drop_bit 10 w + 0xD800), ucast ((w AND 0x3FF) + 0xDC00)]"
    by (simp add: split_pair_def w_def uni_defs Let_def)
  ultimately show ?thesis using assms by (simp add: utf16_code_def utf16_nat_def w del: of_nat_add)
qed

lemma join_pair_nat:
  assumes "unat c = 0xD800 + x" "unat c2 = 0xDC00 + y"
  shows "join_pair c c2 = of_nat (0x10000 + x * 1024 + y)"
proof -
  have "c = of_nat (0xD800 + x)" "c2 = of_nat (0xDC00 + y)" using assms by (metis of_nat_unat ucast_id)+
  then show ?thesis by (simp add: join_pair_def uni_defs push_bit_eq_mult)
qed

lemma unat_unit: "unat (of_nat n :: UTF16) = n" "unat (ucast (of_nat n :: UTF16) :: UTF32) = n" if "n < 0x10000"
  using that by (simp_all add: unat_of_nat take_bit_nat_eq_self unsigned_ucast_eq)

lemma next_utf16_code:
  assumes "scalar ch"
  shows "next_utf16 flags (utf16_code ch @ us) = Inr (ch, us)"
proof (cases "unat ch < 0x10000")
  case True
  then have "utf16_code ch = [ucast ch]" "unat (ucast (ucast ch :: UTF16) :: UTF32) = unat ch"
    using unat_unit(2) [OF True] by (simp_all add: utf16_code_def utf16_nat_def)
  then show ?thesis using assms by (auto simp: next_utf16_def Let_def surrogate_unat scalar_unat word_unat_eq_iff)
next
  case False
  define x y where "x = (unat ch - 0x10000) div 1024" "y = (unat ch - 0x10000) mod 1024"
  have b: "x < 1024" "y < 1024" using assms False by (auto simp: x_y_def scalar_unat)
  have c: "utf16_code ch = [of_nat (0xD800 + x), of_nat (0xDC00 + y)]"
    using False by (simp add: utf16_code_def utf16_nat_def x_y_def)
  note u = unat_unit(2) [of "0xD800 + x"] unat_unit(2) [of "0xDC00 + y"]
  have "unat ch = 0x10000 + x * 1024 + y" using False by (simp add: x_y_def)
  then have "ch = of_nat (0x10000 + x * 1024 + y)" by (metis of_nat_unat ucast_id)
  then show ?thesis unfolding c
    using b u join_pair_nat [OF u] by (simp add: next_utf16_def Let_def surrogate_unat del: of_nat_add)
qed

lemma unat_unit_ucast: "unat (ucast u :: UTF32) = unat u" "unat u < 0x10000" for u :: UTF16
  using unsigned_less [of u, where 'a = nat] by (simp_all add: unsigned_ucast_eq take_bit_nat_eq_self)

lemma utf16_unit: "is_surrogate (ucast u) \<or> (scalar (ucast u) \<and> utf16_code (ucast u) = [u])" for u :: UTF16
  using unat_unit_ucast [of u] by (auto simp: surrogate_unat scalar_unat utf16_code_def utf16_nat_def)

lemma pair_sound:
  fixes u v :: UTF16
  assumes "is_high (ucast u)" "is_low (ucast v)"
  shows "scalar (join_pair (ucast u) (ucast v)) \<and> utf16_code (join_pair (ucast u) (ucast v)) = [u, v]"
proof -
  define x y where "x = unat u - 0xD800" "y = unat v - 0xDC00"
  have u: "unat u = 0xD800 + x" "unat v = 0xDC00 + y" "x < 1024" "y < 1024"
    using assms by (auto simp: surrogate_unat unat_unit_ucast x_y_def)
  define n where "n = 0x10000 + x * 1024 + y"
  have n: "unat (of_nat n :: UTF32) = n" "n < 0x110000" "0x10000 \<le> n" "(n - 0x10000) div 1024 = x" "(n - 0x10000) mod 1024 = y"
    using u(3,4) by (auto simp: n_def unat_of_nat take_bit_nat_eq_self simp del: of_nat_add of_nat_mult)
  have "join_pair (ucast u) (ucast v) = of_nat n" unfolding n_def by (rule join_pair_nat) (simp_all add: unat_unit_ucast u)
  moreover have "of_nat (0xD800 + x) = u" "of_nat (0xDC00 + y) = v" using u(1,2) by (metis of_nat_unat ucast_id)+
  ultimately show ?thesis using n by (simp add: scalar_unat utf16_code_def utf16_nat_def del: of_nat_add)
qed

lemma next_utf16_sound:
  assumes "next_utf16 strictConversion us = Inr (ch, vs)" "us \<noteq> []"
  shows "scalar ch \<and> us = utf16_code ch @ vs"
proof -
  obtain u ws where us: "us = u # ws" using assms(2) by (cases us) auto
  show ?thesis
  proof (cases "is_high (ucast u)")
    case True
    then obtain v where "ws = v # vs" "is_low (ucast v)" "ch = join_pair (ucast u) (ucast v)"
      using assms(1) by (cases ws) (auto simp: next_utf16_def us Let_def split: if_splits)
    then show ?thesis using pair_sound [OF True] by (simp add: us)
  next
    case False
    then have "\<not> is_surrogate (ucast u)" "ch = ucast u" "vs = ws"
      using assms(1) by (auto simp: next_utf16_def us Let_def surrogate_unat split: if_splits)
    then show ?thesis using utf16_unit [of u] by (simp add: us)
  qed
qed

section \<open>What a converter promises\<close>

text \<open>
  A converter takes the encodings of characters in one form to their encodings in another. On the code of a
  character it writes the other code when there is room for it, and stops in front of it otherwise.
\<close>

definition text_of :: "(UTF32 \<Rightarrow> 'u list) \<Rightarrow> UTF32 list \<Rightarrow> 'u list" where
  "text_of code cs = concat (map code cs)"

lemma text_of_simps [simp]:
  "text_of code [] = []"
  "text_of code (c # cs) = code c @ text_of code cs"
  "text_of code (cs @ ds) = text_of code cs @ text_of code ds"
  by (simp_all add: text_of_def)

lemma put_simps [simp]:
  "put us (r, rest, vs) = (r, rest, us @ vs)"
  "put us p = (r, rest, vs) \<longleftrightarrow> (\<exists>ws. p = (r, rest, ws) \<and> vs = us @ ws)"
  by (cases p; auto simp: put_def)+

locale converter =
  fixes code_in :: "UTF32 \<Rightarrow> 'u list"
    and code_out :: "UTF32 \<Rightarrow> 'v list"
    and convert :: "nat \<Rightarrow> 'u list \<Rightarrow> ConversionResult \<times> 'u list \<times> 'v list"
  assumes convert_end: "convert room [] = (conversionOK, [], [])"
    and convert_char: "scalar c \<Longrightarrow> convert room (code_in c @ us) =
      (if room < length (code_out c) then (targetExhausted, code_in c @ us, [])
       else put (code_out c) (convert (room - length (code_out c)) us))"
begin

lemma converts_text:
  "list_all scalar cs \<Longrightarrow> length (text_of code_out cs) \<le> room \<Longrightarrow>
     convert room (text_of code_in cs) = (conversionOK, [], text_of code_out cs)"
  by (induction cs arbitrary: room) (auto simp: convert_end convert_char)

lemma converts_what_fits:
  assumes "list_all scalar cs"
  shows "\<exists>ds es. cs = ds @ es \<and> length (text_of code_out ds) \<le> room \<and>
    (es \<noteq> [] \<longrightarrow> room < length (text_of code_out ds) + length (code_out (hd es))) \<and>
    convert room (text_of code_in cs) =
      (if es = [] then conversionOK else targetExhausted, text_of code_in es, text_of code_out ds)"
  using assms
proof (induction cs arbitrary: room)
  case Nil
  then show ?case by (auto simp: convert_end)
next
  case (Cons c cs)
  show ?case
  proof (cases "room < length (code_out c)")
    case True
    with Cons.prems show ?thesis by (intro exI [of _ "[]"] exI [of _ "c # cs"]) (auto simp: convert_char)
  next
    case False
    have "list_all scalar cs" using Cons.prems by simp
    from Cons.IH [OF this, of "room - length (code_out c)"] obtain ds es where d: "cs = ds @ es" "length (text_of code_out ds) \<le> room - length (code_out c)"
      "es \<noteq> [] \<longrightarrow> room - length (code_out c) < length (text_of code_out ds) + length (code_out (hd es))"
      "convert (room - length (code_out c)) (text_of code_in cs) =
        (if es = [] then conversionOK else targetExhausted, text_of code_in es, text_of code_out ds)"
      by blast
    with False Cons.prems show ?thesis
      by (intro exI [of _ "c # ds"] exI [of _ es]) (auto simp: convert_char)
  qed
qed

end

text \<open>
  A converter that checks its input stops wherever there is no code of a character. The predicate \<open>odd_at\<close> is for what
  it lets pass.
\<close>

locale checking_converter = converter code_in code_out convert
  for code_in :: "UTF32 \<Rightarrow> 'u list" and code_out :: "UTF32 \<Rightarrow> 'v list"
    and convert :: "nat \<Rightarrow> 'u list \<Rightarrow> ConversionResult \<times> 'u list \<times> 'v list" +
  fixes odd_at :: "'u list \<Rightarrow> bool"
  assumes convert_stops: "us \<noteq> [] \<Longrightarrow> (\<exists>c vs. scalar c \<and> us = code_in c @ vs) \<or> odd_at us \<or>
      (\<exists>r. r \<noteq> conversionOK \<and> convert room us = (r, us, []))"
    and code_nonempty: "scalar c \<Longrightarrow> code_in c \<noteq> []"
begin

lemma converted_prefix:
  assumes "\<And>vs. suffix vs us \<Longrightarrow> \<not> odd_at vs" "convert room us = (r, rest, vs)"
  shows "\<exists>cs. list_all scalar cs \<and> us = text_of code_in cs @ rest \<and> vs = text_of code_out cs \<and>
    length vs \<le> room \<and> (r = conversionOK \<longrightarrow> rest = [])"
  using assms
proof (induction us arbitrary: room vs rule: length_induct)
  case (1 us)
  consider "us = []" | c ws where "scalar c" "us = code_in c @ ws" |
      r' where "us \<noteq> []" "r' \<noteq> conversionOK" "convert room us = (r', us, [])"
    using convert_stops [of us room] "1.prems"(1) by blast
  then show ?case
  proof cases
    case 1
    with "1.prems"(2) show ?thesis by (intro exI [of _ "[]"]) (auto simp: convert_end)
  next
    case (2 c ws)
    show ?thesis
    proof (cases "room < length (code_out c)")
      case True
      with 2 "1.prems"(2) show ?thesis by (intro exI [of _ "[]"]) (auto simp: convert_char)
    next
      case False
      with 2 "1.prems"(2) obtain xs where x: "convert (room - length (code_out c)) ws = (r, rest, xs)" "vs = code_out c @ xs"
        by (auto simp: convert_char)
      have "length ws < length us" using code_nonempty [OF 2(1)] 2(2) by simp
      moreover have "\<not> odd_at ys" if "suffix ys ws" for ys using "1.prems"(1) that 2(2) suffix_appendI by blast
      ultimately obtain cs where "list_all scalar cs" "ws = text_of code_in cs @ rest" "xs = text_of code_out cs"
        "length xs \<le> room - length (code_out c)" "r = conversionOK \<longrightarrow> rest = []"
        using "1.IH" x(1) by blast
      with 2 x(2) False show ?thesis by (intro exI [of _ "c # cs"]) auto
    qed
  next
    case (3 r')
    with "1.prems"(2) show ?thesis by (intro exI [of _ "[]"]) auto
  qed
qed

lemma accepts_exactly:
  assumes "\<And>vs. suffix vs us \<Longrightarrow> \<not> odd_at vs"
  shows "convert room us = (conversionOK, rest, vs) \<longleftrightarrow>
    rest = [] \<and> (\<exists>cs. list_all scalar cs \<and> us = text_of code_in cs \<and> vs = text_of code_out cs \<and> length vs \<le> room)"
  using converted_prefix [OF assms, of us room conversionOK rest vs] converts_text by fastforce

end

section \<open>The six converters\<close>

lemma length_utf8_code:
  "length (utf8_code c) = (if unat c < 0x80 then 1 else if unat c < 0x800 then 2 else if unat c < 0x10000 then 3 else 4)"
  by (simp add: utf8_code_def utf8_nat_def)

lemma utf8_written:
  assumes "scalar c"
  shows "bytes_needed c = (length (utf8_code c), c, True)" "put_bytes (length (utf8_code c)) c = utf8_code c"
  using assms put_bytes_code [of c] unfolding length_utf8_code
  by (simp_all add: scalar_unat bytes_needed_def word_less_nat_alt)

lemma utf8_code_nonempty: "utf8_code c \<noteq> []"
  by (simp add: utf8_code_def utf8_nat_def)

lemma utf16_code_nonempty: "utf16_code c \<noteq> []"
  by (simp add: utf16_code_def utf16_nat_def)

lemma utf16_code_cases:
  assumes "scalar c"
  shows "if c \<le> UNI_MAX_BMP then utf16_code c = [ucast c]
    else \<not> UNI_MAX_LEGAL_UTF32 < c \<and> \<not> UNI_MAX_UTF16 < c \<and> utf16_code c = split_pair c \<and> length (split_pair c) = 2"
  using assms split_pair_code [of c]
  by (auto simp: scalar_unat uni_defs word_nat_simps utf16_code_def utf16_nat_def)

lemma scalar_not_surrogate: "scalar c \<Longrightarrow> \<not> is_surrogate c" "scalar c \<Longrightarrow> c \<le> UNI_MAX_LEGAL_UTF32"
  by (simp_all add: scalar_def)

interpretation u32_u16: converter "\<lambda>c. [c]" utf16_code "ConvertUTF32toUTF16 flags"
proof unfold_locales
  fix c room us assume c: "scalar c"
  note facts = utf16_code_cases [OF c] scalar_not_surrogate [OF c]
  show "ConvertUTF32toUTF16 flags room ([c] @ us) =
      (if room < length (utf16_code c) then (targetExhausted, [c] @ us, [])
       else put (utf16_code c) (ConvertUTF32toUTF16 flags (room - length (utf16_code c)) us))"
    using facts by (auto simp: ConvertUTF32toUTF16_def split: if_splits)
qed (simp add: ConvertUTF32toUTF16_def)

interpretation u32_u8: converter "\<lambda>c. [c]" utf8_code "ConvertUTF32toUTF8 flags"
proof unfold_locales
  fix c room us assume c: "scalar c"
  show "ConvertUTF32toUTF8 flags room ([c] @ us) =
      (if room < length (utf8_code c) then (targetExhausted, [c] @ us, [])
       else put (utf8_code c) (ConvertUTF32toUTF8 flags (room - length (utf8_code c)) us))"
    using scalar_not_surrogate [OF c] by (simp add: ConvertUTF32toUTF8_def utf8_written [OF c])
qed (simp add: ConvertUTF32toUTF8_def)

interpretation u16_u32: converter utf16_code "\<lambda>c. [c]" "ConvertUTF16toUTF32 flags"
proof unfold_locales
  fix c room us assume c: "scalar c"
  show "ConvertUTF16toUTF32 flags room (utf16_code c @ us) =
      (if room < length [c] then (targetExhausted, utf16_code c @ us, [])
       else put [c] (ConvertUTF16toUTF32 flags (room - length [c]) us))"
    by (simp add: ConvertUTF16toUTF32.simps [of flags room "_ @ _"] next_utf16_code [OF c] utf16_code_nonempty)
qed (simp add: ConvertUTF16toUTF32.simps)

interpretation u16_u8: converter utf16_code utf8_code "ConvertUTF16toUTF8 flags"
proof unfold_locales
  fix c room us assume c: "scalar c"
  show "ConvertUTF16toUTF8 flags room (utf16_code c @ us) =
      (if room < length (utf8_code c) then (targetExhausted, utf16_code c @ us, [])
       else put (utf8_code c) (ConvertUTF16toUTF8 flags (room - length (utf8_code c)) us))"
    by (simp add: ConvertUTF16toUTF8.simps [of flags room "_ @ _"] next_utf16_code [OF c] utf16_code_nonempty utf8_written [OF c])
qed (simp add: ConvertUTF16toUTF8.simps)

interpretation u8_u16: converter utf8_code utf16_code "ConvertUTF8toUTF16 flags"
proof unfold_locales
  fix c room us assume c: "scalar c"
  note facts = utf16_code_cases [OF c] scalar_not_surrogate [OF c]
  show "ConvertUTF8toUTF16 flags room (utf8_code c @ us) =
      (if room < length (utf16_code c) then (targetExhausted, utf8_code c @ us, [])
       else put (utf16_code c) (ConvertUTF8toUTF16 flags (room - length (utf16_code c)) us))"
    using facts by (auto simp: ConvertUTF8toUTF16.simps [of flags room "_ @ _"] next_utf8_code [OF c] utf8_code_nonempty
        split: if_splits)
qed (simp add: ConvertUTF8toUTF16.simps)

interpretation u8_u32: converter utf8_code "\<lambda>c. [c]" "ConvertUTF8toUTF32 flags"
proof unfold_locales
  fix c room us assume c: "scalar c"
  show "ConvertUTF8toUTF32 flags room (utf8_code c @ us) =
      (if room < length [c] then (targetExhausted, utf8_code c @ us, [])
       else put [c] (ConvertUTF8toUTF32 flags (room - length [c]) us))"
    using scalar_not_surrogate [OF c]
    by (simp add: ConvertUTF8toUTF32_def utf8_utf32.simps [of flags conversionOK room "_ @ _"] next_utf8_code [OF c] utf8_code_nonempty)
qed (simp add: ConvertUTF8toUTF32_def utf8_utf32.simps)

lemma text_of_id [simp]: "text_of (\<lambda>c. [c]) cs = cs"
  by (simp add: text_of_def)

section \<open>What the decoders let pass\<close>

lemma next_utf16_error: "next_utf16 flags us = Inl r \<Longrightarrow> r \<noteq> conversionOK"
  by (auto simp: next_utf16_def Let_def split: if_splits)

lemma next_utf8_error: "next_utf8 us = Inl r \<Longrightarrow> r \<noteq> conversionOK"
  by (auto simp: next_utf8_def Let_def split: if_splits)

interpretation strict_u16_u32: checking_converter utf16_code "\<lambda>c. [c]" "ConvertUTF16toUTF32 strictConversion" "\<lambda>_. False"
proof unfold_locales
  fix us :: "UTF16 list" and room assume "us \<noteq> []"
  then show "(\<exists>c vs. scalar c \<and> us = utf16_code c @ vs) \<or> False \<or>
      (\<exists>r. r \<noteq> conversionOK \<and> ConvertUTF16toUTF32 strictConversion room us = (r, us, []))"
    by (cases "next_utf16 strictConversion us")
      (auto simp: ConvertUTF16toUTF32.simps [of _ room us] dest: next_utf16_error next_utf16_sound)
qed (rule utf16_code_nonempty)

interpretation strict_u16_u8: checking_converter utf16_code utf8_code "ConvertUTF16toUTF8 strictConversion" "\<lambda>_. False"
proof unfold_locales
  fix us :: "UTF16 list" and room assume "us \<noteq> []"
  then show "(\<exists>c vs. scalar c \<and> us = utf16_code c @ vs) \<or> False \<or>
      (\<exists>r. r \<noteq> conversionOK \<and> ConvertUTF16toUTF8 strictConversion room us = (r, us, []))"
    by (cases "next_utf16 strictConversion us")
      (auto simp: ConvertUTF16toUTF8.simps [of _ room us] dest: next_utf16_error next_utf16_sound)
qed (rule utf16_code_nonempty)

interpretation checked_u8_u32: checking_converter utf8_code "\<lambda>c. [c]" "ConvertUTF8toUTF32 flags" swallows
proof unfold_locales
  fix us :: "UTF8 list" and room assume "us \<noteq> []"
  then show "(\<exists>c vs. scalar c \<and> us = utf8_code c @ vs) \<or> swallows us \<or>
      (\<exists>r. r \<noteq> conversionOK \<and> ConvertUTF8toUTF32 flags room us = (r, us, []))"
    by (cases "next_utf8 us")
      (auto simp: ConvertUTF8toUTF32_def utf8_utf32.simps [of _ _ room us] dest: next_utf8_error next_utf8_sound)
qed (rule utf8_code_nonempty)

interpretation checked_u8_u16: checking_converter utf8_code utf16_code "ConvertUTF8toUTF16 flags" swallows
proof unfold_locales
  fix us :: "UTF8 list" and room assume "us \<noteq> []"
  then show "(\<exists>c vs. scalar c \<and> us = utf8_code c @ vs) \<or> swallows us \<or>
      (\<exists>r. r \<noteq> conversionOK \<and> ConvertUTF8toUTF16 flags room us = (r, us, []))"
    by (cases "next_utf8 us")
      (auto simp: ConvertUTF8toUTF16.simps [of _ room us] dest: next_utf8_error next_utf8_sound)
qed (rule utf8_code_nonempty)

lemma next_utf8_swallow:
  assumes "unat a < 0x80" "z < 64"
  shows "next_utf8 (0xED # a # of_nat (0x80 + z) # us) = Inr (of_nat (0xB000 + unat a * 64 + z), us)"
proof -
  have u: "unat (of_nat (0x80 + z) :: UTF8) = 0x80 + z" using assms(2) by (simp add: unat_of_nat take_bit_nat_eq_self del: of_nat_add)
  have "isLegalUTF8 (0xED # a # of_nat (0x80 + z) # us) (2 + 1)"
    using assms u by (auto simp: isLegalUTF8_def second_legal_unat word_nat_simps simp del: of_nat_add)
  from next_utf8_bytes [OF _ this] u show ?thesis
    unfolding get_bytes_unfold by (simp add: trailing_nth del: of_nat_add) (simp add: algebra_simps)
qed

text \<open>
  C34: the six converters, with enough room in the target, take every text of Unicode scalar values to its encoding
  in the other form: the diagram of the three forms commutes, and going forth and back gives the text again.
\<close>

theorem utf_conversions:
  assumes "list_all scalar cs" "length cs \<le> room32" "length (text_of utf16_code cs) \<le> room16"
    "length (text_of utf8_code cs) \<le> room8"
  shows "ConvertUTF32toUTF8 flags room8 cs = (conversionOK, [], text_of utf8_code cs) \<and>
    ConvertUTF8toUTF32 flags room32 (text_of utf8_code cs) = (conversionOK, [], cs) \<and>
    ConvertUTF32toUTF16 flags room16 cs = (conversionOK, [], text_of utf16_code cs) \<and>
    ConvertUTF16toUTF32 flags room32 (text_of utf16_code cs) = (conversionOK, [], cs) \<and>
    ConvertUTF16toUTF8 flags room8 (text_of utf16_code cs) = (conversionOK, [], text_of utf8_code cs) \<and>
    ConvertUTF8toUTF16 flags room16 (text_of utf8_code cs) = (conversionOK, [], text_of utf16_code cs)"
  using u32_u8.converts_text [OF assms(1,4)] u8_u32.converts_text [OF assms(1)] u32_u16.converts_text [OF assms(1,3)]
    u16_u32.converts_text [OF assms(1)] u16_u8.converts_text [OF assms(1,4)] u8_u16.converts_text [OF assms(1,3)] assms(2)
  by simp

theorem utf_conversions_witness:
  "ConvertUTF32toUTF8 strictConversion 10 [0x41, 0xE9, 0x20AC, 0x1F600] =
     (conversionOK, [], [0x41, 0xC3, 0xA9, 0xE2, 0x82, 0xAC, 0xF0, 0x9F, 0x98, 0x80])"
  using utf_conversions [of "[0x41, 0xE9, 0x20AC, 0x1F600]" 4 5 10 strictConversion]
  by (simp add: scalar_unat utf8_code_def utf8_nat_def utf16_code_def utf16_nat_def)

text \<open>
  C35: as long as no \<^verbatim>\<open>0xED\<close> or \<^verbatim>\<open>0xF4\<close> is followed by a byte below \<^verbatim>\<open>0x80\<close>, the decoder of UTF-8 reports success for
  exactly the well-formed texts (no overlong forms, no surrogates, nothing behind \<^verbatim>\<open>0x10FFFF\<close>) whose characters have room
  in the target, and what it then has written are the characters that the text encodes.
\<close>

theorem utf8_decoder_exact:
  assumes "\<forall>vs. suffix vs us \<longrightarrow> \<not> swallows vs"
  shows "ConvertUTF8toUTF32 flags room us = (conversionOK, rest, cs) \<longleftrightarrow>
    rest = [] \<and> list_all scalar cs \<and> us = text_of utf8_code cs \<and> length cs \<le> room"
  using checked_u8_u32.accepts_exactly [of us flags room rest cs] assms by auto

theorem utf8_decoder_exact_witness:
  "ConvertUTF8toUTF32 strictConversion 1 [0xC3, 0xA9] = (conversionOK, [], [0xE9])"
  using utf8_decoder_exact [of "[0xC3, 0xA9]" strictConversion 1 "[]" "[0xE9]"]
  by (simp add: suffix_Cons swallows_def scalar_unat utf8_code_def utf8_nat_def)

text \<open>
  The byte after \<^verbatim>\<open>0xED\<close> may be any below \<^verbatim>\<open>0x80\<close>: the sequence is not well-formed, but it is decoded, to the same
  character as the proper encoding of that character, and the byte, which may be a quote or a bracket, is swallowed.
\<close>

theorem utf8_swallows_ascii:
  assumes "a < 0x80" "z < 64" "ch = of_nat (0xB000 + unat a * 64 + z)"
  shows "ConvertUTF8toUTF32 strictConversion 1 [0xED, a, of_nat (0x80 + z)] = (conversionOK, [], [ch]) \<and>
    ConvertUTF8toUTF32 strictConversion 1 (utf8_code ch) = (conversionOK, [], [ch]) \<and>
    utf8_code ch \<noteq> [0xED, a, of_nat (0x80 + z)]"
proof -
  define n where "n = 0xB000 + unat a * 64 + z"
  have "unat a < 0x80" using assms(1) by (simp add: word_less_nat_alt)
  then have n: "0xB000 \<le> n" "n < 0xD000" using assms(2) by (simp_all add: n_def)
  have ch: "ch = of_nat n" "unat ch = n" using assms(3) n by (simp_all add: n_def unat_of_nat take_bit_nat_eq_self del: of_nat_add of_nat_mult)
  have s: "scalar ch" using ch(2) n by (simp add: scalar_unat)
  have "n div 4096 = 11 \<or> n div 4096 = 12" using n by auto
  then have "utf8_code ch \<noteq> [0xED, a, of_nat (0x80 + z)]" using n ch(2) by (auto simp: utf8_code_def utf8_nat_def)
  moreover have "ConvertUTF8toUTF32 strictConversion 1 [0xED, a, of_nat (0x80 + z)] = (conversionOK, [], [ch])"
    using next_utf8_swallow [OF \<open>unat a < 0x80\<close> assms(2), of "[]"] scalar_not_surrogate [OF s] assms(3)
    by (simp add: ConvertUTF8toUTF32_def utf8_utf32.simps [of _ _ _ "_ # _"] utf8_utf32.simps [of _ _ _ "[]"] del: of_nat_add of_nat_mult)
  ultimately show ?thesis using u8_u32.converts_text [of "[ch]" 1 strictConversion] s by simp
qed

theorem utf8_swallows_ascii_witness:
  "ConvertUTF8toUTF32 strictConversion 1 [0xED, 0x22, 0x80] = (conversionOK, [], [0xB880])"
  using utf8_swallows_ascii [of "0x22" 0 "0xB880"] by simp

end
