(* ===== verification/Antlr_String.thy ===== *)
theory Antlr_String
  imports RM_Main
begin

text \<open>
  The strings of the ANTLR run time (\<^verbatim>\<open>antlr3string.c\<close>): growing buffers of 8 or 16 bit units with a length, a capacity
  and a terminating zero. Lengths and capacities are 32 bit numbers, with the wrap-around written out. A buffer is a
  list of cells, \<open>None\<close> for memory that was never set; every write and read checks that it is inside. Shown: both kinds
  of strings implement lists (the interface \<open>text_buffer\<close>, with two instances).
\<close>

section \<open>Strings\<close>

text \<open>
  The functions of a string are those that \<^verbatim>\<open>stringInit8\<close> or \<^verbatim>\<open>stringInitUTF16\<close> has installed: \<open>sg_wide\<close> says which. A
  unit is a number below 256 or 65536.
\<close>

record ANTLR3_STRING =
  sg_len :: nat
  sg_size :: nat
  sg_chars :: "nat option list option"
  sg_wide :: bool
  sg_index :: nat

definition u32 :: "nat \<Rightarrow> nat" where
  "u32 n = n mod 2 ^ 32"

definition unit_size :: "ANTLR3_STRING \<Rightarrow> nat" where
  "unit_size s = (if sg_wide s then 2 else 1)"

definition stringInit8 :: ANTLR3_STRING where
  "stringInit8 = \<lparr>sg_len = 0, sg_size = 0, sg_chars = None, sg_wide = False, sg_index = 0\<rparr>"

definition stringInitUTF16 :: ANTLR3_STRING where
  "stringInitUTF16 = \<lparr>sg_len = 0, sg_size = 0, sg_chars = None, sg_wide = True, sg_index = 0\<rparr>"

text \<open>The number of whole units in an amount of memory whose size in bytes was cast to 32 bits.\<close>

definition units :: "ANTLR3_STRING \<Rightarrow> nat \<Rightarrow> nat" where
  "units s n = u32 (unit_size s * n) div unit_size s"

definition realloc_units :: "nat \<Rightarrow> nat option list option \<Rightarrow> nat option list" where
  "realloc_units n chars = (let old = (case chars of None \<Rightarrow> [] | Some cells \<Rightarrow> cells)
     in take n old @ replicate (n - length old) None)"

definition ensure :: "nat \<Rightarrow> ANTLR3_STRING \<Rightarrow> ANTLR3_STRING" where
  "ensure n s = (if sg_size s < n then s\<lparr>sg_chars := Some (realloc_units (units s n) (sg_chars s)), sg_size := n\<rparr> else s)"

definition write_units :: "nat \<Rightarrow> nat option list \<Rightarrow> ANTLR3_STRING \<Rightarrow> ANTLR3_STRING res" where
  "write_units pos us s =
     (case sg_chars s of
        None \<Rightarrow> Inl Null_Pointer
      | Some cells \<Rightarrow>
          if pos + length us \<le> length cells
          then Inr (s\<lparr>sg_chars := Some (take pos cells @ us @ drop (pos + length us) cells)\<rparr>) else Inl Bad_Index)"

definition read_units :: "nat \<Rightarrow> nat \<Rightarrow> ANTLR3_STRING \<Rightarrow> nat option list res" where
  "read_units pos n s =
     (case sg_chars s of
        None \<Rightarrow> Inl Null_Pointer
      | Some cells \<Rightarrow> if pos + n \<le> length cells then Inr (take n (drop pos cells)) else Inl Bad_Index)"

text \<open>
  A C string is the list of its characters in front of the zero, as bytes or 16 bit units. Where a
  \<^verbatim>\<open>char\<close> is assigned to a 16 bit unit, it is a signed number.
\<close>

definition widen_char :: "nat \<Rightarrow> nat" where
  "widen_char b = (if b < 128 then b else b + 0xFF00)"

text \<open>The C string that a pointer to a unit leads to.\<close>

fun scan_cells :: "nat option list \<Rightarrow> nat list res" where
  "scan_cells [] = Inl Bad_Index"
| "scan_cells (None # cells) = Inl Uninitialised"
| "scan_cells (Some u # cells) = (if u = 0 then Inr [] else ebind (scan_cells cells) (\<lambda>us. Inr (u # us)))"

definition c_string :: "ANTLR3_STRING \<Rightarrow> nat list res" where
  "c_string s = (case sg_chars s of None \<Rightarrow> Inl Null_Pointer | Some cells \<Rightarrow> scan_cells cells)"

text \<open>What is copied from a C string with its terminating zero, \<open>n\<close> units of it.\<close>

definition with_zero :: "nat \<Rightarrow> nat list \<Rightarrow> nat option list" where
  "with_zero n us = map Some (take n (us @ [0]))"

subsection \<open>Setting, appending, inserting\<close>

definition set_mem :: "nat list \<Rightarrow> ANTLR3_STRING \<Rightarrow> ANTLR3_STRING res" where
  "set_mem chars s =
     (let len = u32 (length chars); s1 = ensure (u32 (len + 1)) s
      in ebind (write_units 0 (with_zero (units s (len + 1)) chars) s1) (\<lambda>s2. Inr (s2\<lparr>sg_len := len\<rparr>)))"

definition set8 :: "nat list \<Rightarrow> ANTLR3_STRING \<Rightarrow> ANTLR3_STRING res" where
  "set8 chars s = set_mem chars s"

definition setUTF16_UTF16 :: "nat list \<Rightarrow> ANTLR3_STRING \<Rightarrow> ANTLR3_STRING res" where
  "setUTF16_UTF16 chars s = set_mem chars s"

definition setUTF16_8 :: "nat list \<Rightarrow> ANTLR3_STRING \<Rightarrow> ANTLR3_STRING res" where
  "setUTF16_8 chars s =
     (let len = u32 (length chars); s1 = (ensure (u32 (len + 1)) s)\<lparr>sg_len := len\<rparr>
      in write_units 0 (map Some (map widen_char (take len chars) @ [0])) s1)"

definition append_mem :: "nat list \<Rightarrow> ANTLR3_STRING \<Rightarrow> ANTLR3_STRING res" where
  "append_mem newbit s =
     (let len = u32 (length newbit); s1 = ensure (u32 (sg_len s + len + 1)) s
      in ebind (write_units (sg_len s) (with_zero (units s (len + 1)) newbit) s1)
        (\<lambda>s2. Inr (s2\<lparr>sg_len := u32 (sg_len s + len)\<rparr>)))"

definition append8 :: "nat list \<Rightarrow> ANTLR3_STRING \<Rightarrow> ANTLR3_STRING res" where
  "append8 newbit s = append_mem newbit s"

definition appendUTF16_UTF16 :: "nat list \<Rightarrow> ANTLR3_STRING \<Rightarrow> ANTLR3_STRING res" where
  "appendUTF16_UTF16 newbit s = append_mem newbit s"

definition appendUTF16_8 :: "nat list \<Rightarrow> ANTLR3_STRING \<Rightarrow> ANTLR3_STRING res" where
  "appendUTF16_8 newbit s =
     (let len = u32 (length newbit); s1 = (ensure (u32 (sg_len s + len + 1)) s)\<lparr>sg_len := u32 (sg_len s + len)\<rparr>
      in write_units (sg_len s) (map Some (map widen_char (take len newbit) @ [0])) s1)"

text \<open>The functions behind the pointers \<^verbatim>\<open>set\<close>, \<^verbatim>\<open>set8\<close>, \<^verbatim>\<open>append\<close> and \<^verbatim>\<open>append8\<close> of a string.\<close>

definition str_set :: "nat list \<Rightarrow> ANTLR3_STRING \<Rightarrow> ANTLR3_STRING res" where
  "str_set us s = (if sg_wide s then setUTF16_UTF16 us s else set8 us s)"

definition str_set8 :: "nat list \<Rightarrow> ANTLR3_STRING \<Rightarrow> ANTLR3_STRING res" where
  "str_set8 us s = (if sg_wide s then setUTF16_8 us s else set8 us s)"

definition str_append :: "nat list \<Rightarrow> ANTLR3_STRING \<Rightarrow> ANTLR3_STRING res" where
  "str_append us s = (if sg_wide s then appendUTF16_UTF16 us s else append8 us s)"

definition str_append8 :: "nat list \<Rightarrow> ANTLR3_STRING \<Rightarrow> ANTLR3_STRING res" where
  "str_append8 us s = (if sg_wide s then appendUTF16_8 us s else append8 us s)"

text \<open>Both moves of an insertion: what is behind the point makes room, then the new units are put there.\<close>

definition move_apart :: "nat \<Rightarrow> nat \<Rightarrow> ANTLR3_STRING \<Rightarrow> ANTLR3_STRING res" where
  "move_apart point len s = ebind (read_units point (units s (sg_len s - point + 1)) s) (\<lambda>us. write_units (point + len) us s)"

definition insert_mem :: "nat \<Rightarrow> nat list \<Rightarrow> ANTLR3_STRING \<Rightarrow> ANTLR3_STRING res" where
  "insert_mem point newbit s =
     (if sg_len s \<le> point then str_append newbit s
      else let len = u32 (length newbit) in
        if len = 0 then Inr s
        else ebind (move_apart point len (ensure (u32 (sg_len s + len + 1)) s)) (\<lambda>s2.
             ebind (write_units point (map Some (take (units s len) newbit)) s2) (\<lambda>s3.
               Inr (s3\<lparr>sg_len := u32 (sg_len s + len)\<rparr>))))"

definition insert8 :: "nat \<Rightarrow> nat list \<Rightarrow> ANTLR3_STRING \<Rightarrow> ANTLR3_STRING res" where
  "insert8 point newbit s = insert_mem point newbit s"

definition insertUTF16_UTF16 :: "nat \<Rightarrow> nat list \<Rightarrow> ANTLR3_STRING \<Rightarrow> ANTLR3_STRING res" where
  "insertUTF16_UTF16 point newbit s = insert_mem point newbit s"

definition insertUTF16_8 :: "nat \<Rightarrow> nat list \<Rightarrow> ANTLR3_STRING \<Rightarrow> ANTLR3_STRING res" where
  "insertUTF16_8 point newbit s =
     (if sg_len s \<le> point then str_append8 newbit s
      else let len = u32 (length newbit) in
        if len = 0 then Inr s
        else ebind (move_apart point len (ensure (u32 (sg_len s + len + 1)) s)) (\<lambda>s2.
             write_units point (map Some (map widen_char (take len newbit))) (s2\<lparr>sg_len := u32 (sg_len s + len)\<rparr>)))"

definition str_insert :: "nat \<Rightarrow> nat list \<Rightarrow> ANTLR3_STRING \<Rightarrow> ANTLR3_STRING res" where
  "str_insert point us s = (if sg_wide s then insertUTF16_UTF16 point us s else insert8 point us s)"

definition str_insert8 :: "nat \<Rightarrow> nat list \<Rightarrow> ANTLR3_STRING \<Rightarrow> ANTLR3_STRING res" where
  "str_insert8 point us s = (if sg_wide s then insertUTF16_8 point us s else insert8 point us s)"

definition addc_mem :: "nat \<Rightarrow> ANTLR3_STRING \<Rightarrow> ANTLR3_STRING res" where
  "addc_mem u s =
     ebind (write_units (sg_len s) [Some u, Some 0] (ensure (u32 (sg_len s + 2)) s)) (\<lambda>s2.
       Inr (s2\<lparr>sg_len := u32 (sg_len s + 1)\<rparr>))"

definition addc8 :: "nat \<Rightarrow> ANTLR3_STRING \<Rightarrow> ANTLR3_STRING res" where
  "addc8 c s = addc_mem (c mod 2 ^ 8) s"

definition addcUTF16 :: "nat \<Rightarrow> ANTLR3_STRING \<Rightarrow> ANTLR3_STRING res" where
  "addcUTF16 c s = addc_mem (c mod 2 ^ 16) s"

definition str_addc :: "nat \<Rightarrow> ANTLR3_STRING \<Rightarrow> ANTLR3_STRING res" where
  "str_addc c s = (if sg_wide s then addcUTF16 c s else addc8 c s)"

text \<open>\<^verbatim>\<open>sprintf(newbit, "%d", i)\<close>.\<close>

definition show_int32 :: "int \<Rightarrow> nat list" where
  "show_int32 i = map of_char ((if i < 0 then ''-'' else '''') @ show_size (nat \<bar>i\<bar>))"

definition addi8 :: "int \<Rightarrow> ANTLR3_STRING \<Rightarrow> ANTLR3_STRING res" where
  "addi8 i s = str_append8 (show_int32 i) s"

definition addiUTF16 :: "int \<Rightarrow> ANTLR3_STRING \<Rightarrow> ANTLR3_STRING res" where
  "addiUTF16 i s = str_append8 (show_int32 i) s"

definition inserti8 :: "nat \<Rightarrow> int \<Rightarrow> ANTLR3_STRING \<Rightarrow> ANTLR3_STRING res" where
  "inserti8 point i s = str_insert8 point (show_int32 i) s"

definition insertiUTF16 :: "nat \<Rightarrow> int \<Rightarrow> ANTLR3_STRING \<Rightarrow> ANTLR3_STRING res" where
  "insertiUTF16 point i s = str_insert8 point (show_int32 i) s"

text \<open>The operations with another string; the pointer to it may be null for \<^verbatim>\<open>appendS\<close>.\<close>

definition setS :: "ANTLR3_STRING \<Rightarrow> ANTLR3_STRING \<Rightarrow> ANTLR3_STRING res" where
  "setS chars s = ebind (c_string chars) (\<lambda>us. str_set us s)"

definition appendS :: "ANTLR3_STRING option \<Rightarrow> ANTLR3_STRING \<Rightarrow> ANTLR3_STRING res" where
  "appendS newbit s =
     (case newbit of
        None \<Rightarrow> Inr s
      | Some t \<Rightarrow> if sg_len t = 0 \<or> sg_size t = 0 \<or> sg_chars t = None then Inr s
                  else ebind (c_string t) (\<lambda>us. str_append us s))"

definition insertS :: "nat \<Rightarrow> ANTLR3_STRING \<Rightarrow> ANTLR3_STRING \<Rightarrow> ANTLR3_STRING res" where
  "insertS point newbit s =
     ebind (c_string newbit) (\<lambda>us. str_insert point us s)"

subsection \<open>Comparing and converting\<close>

text \<open>
  \<^verbatim>\<open>strcmp\<close>, of which only the sign is determined, on the memory of a string and a C string; the result is taken as an
  unsigned number by \<^verbatim>\<open>compare8\<close>.
\<close>

fun c_strcmp :: "nat option list \<Rightarrow> nat list \<Rightarrow> int res" where
  "c_strcmp [] us = Inl Bad_Index"
| "c_strcmp (None # cells) us = Inl Uninitialised"
| "c_strcmp (Some c # cells) [] = Inr (sgn (int c))"
| "c_strcmp (Some c # cells) (u # us) = (if c = u then c_strcmp cells us else Inr (sgn (int c - int u)))"

definition to_u32 :: "int \<Rightarrow> nat" where
  "to_u32 i = nat (i mod 2 ^ 32)"

definition compare8 :: "ANTLR3_STRING \<Rightarrow> nat list \<Rightarrow> nat res" where
  "compare8 s us = (case sg_chars s of None \<Rightarrow> Inl Null_Pointer | Some cells \<Rightarrow> ebind (c_strcmp cells us) (\<lambda>i. Inr (to_u32 i)))"

text \<open>The loops of the 16 bit comparisons return the difference of the first units that differ.\<close>

fun utf16_cmp :: "(nat \<Rightarrow> int) \<Rightarrow> nat option list \<Rightarrow> nat list \<Rightarrow> nat res" where
  "utf16_cmp f [] us = Inl Bad_Index"
| "utf16_cmp f (None # cells) us = Inl Uninitialised"
| "utf16_cmp f (Some c # cells) [] = Inr (to_u32 (int c))"
| "utf16_cmp f (Some c # cells) (u # us) =
     (if c = 0 then Inr (to_u32 (- f u))
      else if int c - f u \<noteq> 0 then Inr (to_u32 (int c - f u))
      else utf16_cmp f cells us)"

definition signed_char :: "nat \<Rightarrow> int" where
  "signed_char b = (if b < 128 then int b else int b - 256)"

definition compareUTF16_8 :: "ANTLR3_STRING \<Rightarrow> nat list \<Rightarrow> nat res" where
  "compareUTF16_8 s us = (case sg_chars s of None \<Rightarrow> Inl Null_Pointer | Some cells \<Rightarrow> utf16_cmp signed_char cells us)"

definition compareUTF16_UTF16 :: "ANTLR3_STRING \<Rightarrow> nat list \<Rightarrow> nat res" where
  "compareUTF16_UTF16 s us = (case sg_chars s of None \<Rightarrow> Inl Null_Pointer | Some cells \<Rightarrow> utf16_cmp int cells us)"

definition compareS :: "ANTLR3_STRING \<Rightarrow> ANTLR3_STRING \<Rightarrow> nat res" where
  "compareS s compStr = ebind (c_string compStr) (\<lambda>us. if sg_wide s then compareUTF16_UTF16 s us else compare8 s us)"

definition read_unit :: "nat \<Rightarrow> ANTLR3_STRING \<Rightarrow> nat res" where
  "read_unit pos s = ebind (read_units pos 1 s) (\<lambda>us. case hd us of None \<Rightarrow> Inl Uninitialised | Some u \<Rightarrow> Inr u)"

definition charAt8 :: "ANTLR3_STRING \<Rightarrow> nat \<Rightarrow> nat res" where
  "charAt8 s offset = (if sg_len s < offset then Inr 0 else read_unit offset s)"

definition charAtUTF16 :: "ANTLR3_STRING \<Rightarrow> nat \<Rightarrow> nat res" where
  "charAtUTF16 s offset = (if sg_len s < offset then Inr 0 else read_unit offset s)"

definition toInt32_8 :: "ANTLR3_STRING \<Rightarrow> int res" where
  "toInt32_8 s = ebind (c_string s) (\<lambda>us. Inr (atoi (map char_of us)))"

text \<open>
  The 16 bit version has its own loop. \<^verbatim>\<open>isdigit\<close> is a look-up in a table that ends at 255 (\<open>Bad_Index\<close> behind it); an
  overflow of the 32 bit value is undefined (\<open>Uninitialised\<close>).
\<close>

fun digit_loop :: "int \<Rightarrow> nat option list \<Rightarrow> int res" where
  "digit_loop v [] = Inl Bad_Index"
| "digit_loop v (None # cells) = Inl Uninitialised"
| "digit_loop v (Some u # cells) =
     (if u = 0 then Inr v
      else if 255 < u then Inl Bad_Index
      else if 48 \<le> u \<and> u \<le> 57 then
        (if 2 ^ 31 - 1 < v * 10 + (int u - 48) then Inl Uninitialised else digit_loop (v * 10 + (int u - 48)) cells)
      else Inr v)"

definition toInt32_UTF16 :: "ANTLR3_STRING \<Rightarrow> int res" where
  "toInt32_UTF16 s =
     (case sg_chars s of
        None \<Rightarrow> Inl Null_Pointer
      | Some cells \<Rightarrow>
          ebind (read_unit 0 s) (\<lambda>u.
            if u = of_char CHR ''-'' then ebind (digit_loop 0 (tl cells)) (\<lambda>v. Inr (- v))
            else if u = of_char CHR ''+'' then digit_loop 0 (tl cells)
            else digit_loop 0 cells))"

section \<open>The list that a string stands for\<close>

text \<open>
  The units of a string are followed by a zero, and the buffer has as many cells as the capacity says; a string without a buffer is empty.
\<close>

definition str_holds :: "ANTLR3_STRING \<Rightarrow> nat list \<Rightarrow> bool" where
  "str_holds s t \<longleftrightarrow> sg_len s = length t \<and>
     (case sg_chars s of
        None \<Rightarrow> t = [] \<and> sg_size s = 0
      | Some cells \<Rightarrow> length cells = sg_size s \<and> take (length t + 1) cells = map Some (t @ [0]))"

text \<open>Below this length no size in bytes is cut by a cast to 32 bits.\<close>

definition str_limit :: nat where
  "str_limit = 2 ^ 31"

lemma u32_small: "n < str_limit \<Longrightarrow> u32 n = n"
  by (simp add: u32_def str_limit_def)

lemma units_small: "n < str_limit \<Longrightarrow> units s n = n"
  by (simp add: units_def u32_def unit_size_def str_limit_def)

lemma raw_holds: "str_holds stringInit8 []" "str_holds stringInitUTF16 []"
  by (simp_all add: str_holds_def stringInit8_def stringInitUTF16_def)

lemma holds_cells:
  assumes "str_holds s t" "sg_chars s = Some cells"
  shows "length cells = sg_size s" "length t < sg_size s" "i < length t \<Longrightarrow> cells ! i = Some (t ! i)" "cells ! length t = Some 0"
proof -
  have t: "take (length t + 1) cells = map Some (t @ [0])" and "length cells = sg_size s" using assms by (auto simp: str_holds_def)
  then show "length cells = sg_size s" by simp
  have "length (take (length t + 1) cells) = length t + 1" unfolding t by simp
  then show "length t < sg_size s" using \<open>length cells = sg_size s\<close> by simp
  have n: "cells ! i = map Some (t @ [0]) ! i" if "i < length t + 1" for i using that by (metis nth_take t)
  show "i < length t \<Longrightarrow> cells ! i = Some (t ! i)" using n [of i] by (simp add: nth_append)
  show "cells ! length t = Some 0" using n [of "length t"] by (simp add: nth_append)
qed

text \<open>After \<^verbatim>\<open>realloc\<close> there is room, and what the string had is still there.\<close>

lemma ensure_keeps:
  assumes "str_holds s t" "0 < n" "n < str_limit"
  obtains cells where "sg_chars (ensure n s) = Some cells" "length cells = sg_size (ensure n s)" "n \<le> length cells"
    "take (length t) cells = map Some t" "sg_len (ensure n s) = length t" "sg_wide (ensure n s) = sg_wide s"
    "0 < length t \<Longrightarrow> length t < n \<Longrightarrow> take (length t + 1) cells = map Some (t @ [0])"
proof -
  define old where "old = (case sg_chars s of None \<Rightarrow> [] | Some cells \<Rightarrow> cells)"
  have old: "length old = sg_size s" "take (length t) old = map Some t" "0 < length t \<Longrightarrow> take (length t + 1) old = map Some (t @ [0])"
    "length t \<le> length old" "0 < length t \<Longrightarrow> length t < length old" "sg_chars s = None \<Longrightarrow> sg_size s = 0"
    using assms(1) holds_cells [OF assms(1)] by (auto simp: str_holds_def old_def take_Suc_conv_app_nth intro!: nth_equalityI split: option.splits)
  have "sg_len s = length t" using assms(1) by (simp add: str_holds_def)
  show thesis
  proof (cases "sg_size s < n")
    case True
    have c: "sg_chars (ensure n s) = Some (old @ replicate (n - length old) None)"
      using True old(1) assms(3) by (simp add: ensure_def realloc_units_def units_small old_def Let_def)
    show thesis using True old assms(2) \<open>sg_len s = length t\<close>
      by (intro that [OF c]) (auto simp: ensure_def)
  next
    case False
    then have "sg_chars s \<noteq> None" using old(6) assms(2) by auto
    then have c: "sg_chars (ensure n s) = Some old" using False by (auto simp: ensure_def old_def)
    show thesis using False old \<open>sg_len s = length t\<close> by (intro that [OF c]) (auto simp: ensure_def)
  qed
qed

lemma write_end:
  assumes "take (length t) cells = map Some t" "length t + length us < length cells"
    "cells' = take (length t) cells @ map Some (us @ [0]) @ drop (length t + length us + 1) cells"
  shows "length cells' = length cells" "take (length t + length us + 1) cells' = map Some (t @ us @ [0])"
  using assms by simp_all

lemma write_units_some:
  "sg_chars s = Some cells \<Longrightarrow> pos + length us \<le> length cells \<Longrightarrow>
     write_units pos us s = Inr (s\<lparr>sg_chars := Some (take pos cells @ us @ drop (pos + length us) cells)\<rparr>)"
  by (simp add: write_units_def)

lemma write_text:
  assumes "sg_chars s = Some cells" "length cells = sg_size s" "take (length t) cells = map Some t"
    "length t + length us + 1 \<le> length cells"
  shows "\<exists>s'. write_units (length t) (map Some (us @ [0])) s = Inr s' \<and> str_holds (s'\<lparr>sg_len := length t + length us\<rparr>) (t @ us) \<and>
    sg_wide s' = sg_wide s \<and> sg_len s' = sg_len s"
proof -
  define cells' where "cells' = take (length t) cells @ map Some (us @ [0]) @ drop (length t + length us + 1) cells"
  have "length t + length us < length cells" using assms(4) by simp
  from write_end [OF assms(3) this cells'_def]
  have c: "length cells' = length cells" "take (length t + length us + 1) cells' = map Some (t @ us @ [0])" by simp_all
  have "write_units (length t) (map Some (us @ [0])) s = Inr (s\<lparr>sg_chars := Some cells'\<rparr>)"
    using write_units_some [OF assms(1), of "length t" "map Some (us @ [0])"] assms(4) by (simp add: cells'_def)
  moreover have "str_holds (s\<lparr>sg_chars := Some cells', sg_len := length t + length us\<rparr>) (t @ us)"
    using c assms(2) by (simp add: str_holds_def)
  ultimately show ?thesis by simp
qed

lemma ensured:
  assumes "str_holds s t" "length t + length us + 1 < str_limit"
  defines "s1 \<equiv> ensure (length t + length us + 1) s"
  shows "\<exists>s'. write_units (length t) (map Some (us @ [0])) (s1\<lparr>sg_len := n\<rparr>) = Inr s' \<and>
      str_holds (s'\<lparr>sg_len := length t + length us\<rparr>) (t @ us) \<and> sg_wide s' = sg_wide s \<and> sg_len s' = n"
    "sg_len s1 = length t"
proof -
  obtain cells where c: "sg_chars s1 = Some cells" "length cells = sg_size s1" "length t + length us + 1 \<le> length cells"
    "take (length t) cells = map Some t" "sg_wide s1 = sg_wide s" "sg_len s1 = length t"
    using ensure_keeps [OF assms(1) _ assms(2)] by (auto simp: s1_def)
  then show "sg_len s1 = length t" by simp
  show "\<exists>s'. write_units (length t) (map Some (us @ [0])) (s1\<lparr>sg_len := n\<rparr>) = Inr s' \<and>
      str_holds (s'\<lparr>sg_len := length t + length us\<rparr>) (t @ us) \<and> sg_wide s' = sg_wide s \<and> sg_len s' = n"
    using write_text [of "s1\<lparr>sg_len := n\<rparr>" cells t us] c by simp
qed

lemma same_len: "s\<lparr>sg_len := sg_len s\<rparr> = s" for s :: ANTLR3_STRING
  by simp

lemma append_mem_holds:
  assumes "str_holds s t" "length t + length us + 1 < str_limit"
  shows "\<exists>s'. append_mem us s = Inr s' \<and> str_holds s' (t @ us) \<and> sg_wide s' = sg_wide s"
proof -
  have l: "sg_len s = length t" using assms(1) by (simp add: str_holds_def)
  obtain s' where "write_units (length t) (map Some (us @ [0])) (ensure (length t + length us + 1) s) = Inr s'"
      "str_holds (s'\<lparr>sg_len := length t + length us\<rparr>) (t @ us)" "sg_wide s' = sg_wide s"
    using ensured(1) [OF assms, of "length t"] ensured(2) [OF assms] by (metis same_len)
  moreover have "append_mem us s = ebind (write_units (length t) (map Some (us @ [0])) (ensure (length t + length us + 1) s))
      (\<lambda>s2. Inr (s2\<lparr>sg_len := length t + length us\<rparr>))"
    using assms(2) by (simp add: append_mem_def Let_def u32_small units_small with_zero_def l)
  ultimately show ?thesis by simp
qed

lemma appendUTF16_8_holds:
  assumes "str_holds s t" "length t + length us + 1 < str_limit"
  shows "\<exists>s'. appendUTF16_8 us s = Inr s' \<and> str_holds s' (t @ map widen_char us) \<and> sg_wide s' = sg_wide s"
proof -
  have l: "sg_len s = length t" using assms(1) by (simp add: str_holds_def)
  have "length t + length (map widen_char us) + 1 < str_limit" using assms(2) by simp
  from ensured(1) [OF assms(1) this, of "length t + length us"]
  obtain s' where "write_units (length t) (map Some (map widen_char us @ [0]))
        ((ensure (length t + length us + 1) s)\<lparr>sg_len := length t + length us\<rparr>) = Inr s'"
      "str_holds s' (t @ map widen_char us)" "sg_wide s' = sg_wide s"
    by (metis same_len length_map)
  then show ?thesis using assms(2) by (simp add: appendUTF16_8_def Let_def u32_small l)
qed

lemma addc_mem_holds:
  assumes "str_holds s t" "length t + 2 < str_limit"
  shows "\<exists>s'. addc_mem u s = Inr s' \<and> str_holds s' (t @ [u]) \<and> sg_wide s' = sg_wide s"
proof -
  have l: "sg_len s = length t" using assms(1) by (simp add: str_holds_def)
  have m: "length t + length [u] + 1 < str_limit" "length t + length [u] + 1 = length t + 2" using assms(2) by simp_all
  obtain s' where "write_units (length t) (map Some ([u] @ [0])) (ensure (length t + 2) s) = Inr s'"
      "str_holds (s'\<lparr>sg_len := length t + length [u]\<rparr>) (t @ [u])" "sg_wide s' = sg_wide s"
    using ensured(1) [OF assms(1) m(1), of "length t"] ensured(2) [OF assms(1) m(1)] unfolding m(2) by (metis same_len)
  then show ?thesis using assms(2) by (simp add: addc_mem_def u32_small l)
qed

lemma set_from_start:
  assumes "str_holds s t" "length us + 1 < str_limit"
  shows "\<exists>s'. write_units 0 (map Some (us @ [0])) ((ensure (length us + 1) s)\<lparr>sg_len := n\<rparr>) = Inr s' \<and>
    str_holds (s'\<lparr>sg_len := length us\<rparr>) us \<and> sg_wide s' = sg_wide s \<and> sg_len s' = n"
proof -
  let ?s1 = "ensure (length us + 1) s"
  obtain cells where c: "sg_chars ?s1 = Some cells" "length cells = sg_size ?s1" "length us + 1 \<le> length cells" "sg_wide ?s1 = sg_wide s"
    using ensure_keeps [OF assms(1) _ assms(2)] by auto
  then show ?thesis using write_text [of "?s1\<lparr>sg_len := n\<rparr>" cells "[]" us] by simp
qed

lemma set_mem_holds:
  assumes "str_holds s t" "length us + 1 < str_limit"
  shows "\<exists>s'. set_mem us s = Inr s' \<and> str_holds s' us \<and> sg_wide s' = sg_wide s"
proof -
  obtain s' where "write_units 0 (map Some (us @ [0])) (ensure (length us + 1) s) = Inr s'"
      "str_holds (s'\<lparr>sg_len := length us\<rparr>) us" "sg_wide s' = sg_wide s"
    using set_from_start [OF assms, of "sg_len (ensure (length us + 1) s)"] by (metis same_len)
  then show ?thesis using assms(2) by (simp add: set_mem_def Let_def u32_small units_small with_zero_def)
qed

lemma setUTF16_8_holds:
  assumes "str_holds s t" "length us + 1 < str_limit"
  shows "\<exists>s'. setUTF16_8 us s = Inr s' \<and> str_holds s' (map widen_char us) \<and> sg_wide s' = sg_wide s"
proof -
  have "length (map widen_char us) + 1 < str_limit" using assms(2) by simp
  from set_from_start [OF assms(1) this, of "length us"]
  obtain s' where "write_units 0 (map Some (map widen_char us @ [0])) ((ensure (length us + 1) s)\<lparr>sg_len := length us\<rparr>) = Inr s'"
      "str_holds s' (map widen_char us)" "sg_wide s' = sg_wide s"
    by (metis same_len length_map)
  then show ?thesis using assms(2) by (simp add: setUTF16_8_def Let_def u32_small)
qed

lemma insert_cells:
  assumes "take (length t + 1) cells = map Some (t @ [0])" "p < length t" "length t + length us + 1 \<le> length cells"
  defines "c1 \<equiv> take (p + length us) cells @ map Some (drop p t @ [0]) @ drop (length t + length us + 1) cells"
  defines "c2 \<equiv> take p c1 @ map Some us @ drop (p + length us) c1"
  shows "length c1 = length cells" "length c2 = length cells"
    "take (length t + length us + 1) c2 = map Some (take p t @ us @ drop p t @ [0])"
proof -
  show "length c1 = length cells" using assms(2,3) by (simp add: c1_def)
  then show "length c2 = length cells" using assms(2,3) by (simp add: c2_def)
  have "drop (p + length us) c1 = map Some (drop p t @ [0]) @ drop (length t + length us + 1) cells"
    using assms(2,3) by (simp add: c1_def)
  moreover have "take p c1 = take p (take (length t + 1) cells)" using assms(2,3) by (simp add: c1_def min_def)
  then have "take p c1 = map Some (take p t)" unfolding assms(1) using assms(2) by (simp add: take_map)
  ultimately have c2: "c2 = map Some (take p t @ us @ drop p t @ [0]) @ drop (length t + length us + 1) cells"
    by (simp add: c2_def)
  show "take (length t + length us + 1) c2 = map Some (take p t @ us @ drop p t @ [0])"
    unfolding c2 using assms(2) by simp
qed

lemma inserted:
  assumes "str_holds s t" "p < length t" "0 < length us" "length t + length us + 1 < str_limit"
  shows "\<exists>s2 s3. move_apart p (length us) (ensure (length t + length us + 1) s) = Inr s2 \<and>
    write_units p (map Some us) (s2\<lparr>sg_len := n\<rparr>) = Inr s3 \<and>
    str_holds (s3\<lparr>sg_len := length t + length us\<rparr>) (take p t @ us @ drop p t) \<and> sg_wide s3 = sg_wide s \<and>
    sg_len s2 = length t \<and> sg_len s3 = n"
proof -
  let ?n = "length t + length us + 1"
  let ?s1 = "ensure ?n s"
  have "0 < length t" "length t < ?n" using assms(2) by auto
  then obtain cells where c: "sg_chars ?s1 = Some cells" "length cells = sg_size ?s1" "?n \<le> length cells"
    "take (length t + 1) cells = map Some (t @ [0])" "sg_wide ?s1 = sg_wide s" "sg_len ?s1 = length t"
    using ensure_keeps [OF assms(1) _ assms(4)] by (metis add_is_0 gr0I zero_neq_one)
  define c1 where "c1 = take (p + length us) cells @ map Some (drop p t @ [0]) @ drop (length t + length us + 1) cells"
  define c2 where "c2 = take p c1 @ map Some us @ drop (p + length us) c1"
  note cells = insert_cells [OF c(4) assms(2) c(3), folded c1_def, folded c2_def]
  have "take (length t - p + 1) (drop p cells) = drop p (take (length t + 1) cells)" using assms(2) by (simp add: drop_take Suc_diff_le)
  then have "take (length t - p + 1) (drop p cells) = map Some (drop p t @ [0])" unfolding c(4) using assms(2) by (simp add: drop_map)
  then have "read_units p (units ?s1 (sg_len ?s1 - p + 1)) ?s1 = Inr (map Some (drop p t @ [0]))"
    using c assms(2,4) by (simp add: read_units_def units_small)
  then have "move_apart p (length us) ?s1 = Inr (?s1\<lparr>sg_chars := Some c1\<rparr>)"
    using c(1,3) assms(2) by (simp add: move_apart_def write_units_def c1_def add.commute)
  moreover have "write_units p (map Some us) (?s1\<lparr>sg_chars := Some c1, sg_len := n\<rparr>) = Inr (?s1\<lparr>sg_chars := Some c2, sg_len := n\<rparr>)"
    using cells(1) c(3) assms(2) by (simp add: write_units_def c2_def)
  moreover have "str_holds (?s1\<lparr>sg_chars := Some c2, sg_len := length t + length us\<rparr>) (take p t @ us @ drop p t)"
    using cells(2,3) c(2) assms(2) by (simp add: str_holds_def add.commute)
  ultimately show ?thesis using c(5,6) by simp
qed

lemma str_mem: "str_set us s = set_mem us s" "str_append us s = append_mem us s" "str_insert p us s = insert_mem p us s"
  by (simp_all add: str_set_def set8_def setUTF16_UTF16_def str_append_def append8_def appendUTF16_UTF16_def
      str_insert_def insert8_def insertUTF16_UTF16_def)

text \<open>What an insertion means for lists; behind the end it appends.\<close>

definition insert_at :: "nat \<Rightarrow> nat list \<Rightarrow> nat list \<Rightarrow> nat list" where
  "insert_at p us t = take p t @ us @ drop p t"

lemma insert_at_simps [simp]: "length t \<le> p \<Longrightarrow> insert_at p us t = t @ us" "insert_at p [] t = t"
  by (simp_all add: insert_at_def)

lemma insert_mem_holds:
  assumes "str_holds s t" "length t + length us + 1 < str_limit"
  shows "\<exists>s'. insert_mem p us s = Inr s' \<and> str_holds s' (insert_at p us t) \<and> sg_wide s' = sg_wide s"
proof -
  have l: "sg_len s = length t" using assms(1) by (simp add: str_holds_def)
  consider "length t \<le> p" | "us = []" "p < length t" | "p < length t" "0 < length us" by (cases us) force+
  then show ?thesis
  proof cases
    case 1
    then show ?thesis using append_mem_holds [OF assms] by (simp add: insert_mem_def l str_mem)
  next
    case 2
    then show ?thesis using assms(1) by (simp add: insert_mem_def l u32_def)
  next
    case 3
    obtain s2 s3 where s: "move_apart p (length us) (ensure (length t + length us + 1) s) = Inr s2"
      "write_units p (map Some us) s2 = Inr s3"
      "str_holds (s3\<lparr>sg_len := length t + length us\<rparr>) (insert_at p us t)" "sg_wide s3 = sg_wide s"
      using inserted [OF assms(1) 3 assms(2), of "length t"] by (metis insert_at_def same_len)
    then show ?thesis using 3 assms(2) by (simp add: insert_mem_def l Let_def u32_small units_small)
  qed
qed

lemma insertUTF16_8_holds:
  assumes "str_holds s t" "sg_wide s" "length t + length us + 1 < str_limit"
  shows "\<exists>s'. insertUTF16_8 p us s = Inr s' \<and> str_holds s' (insert_at p (map widen_char us) t) \<and> sg_wide s' = sg_wide s"
proof -
  have l: "sg_len s = length t" using assms(1) by (simp add: str_holds_def)
  consider "length t \<le> p" | "us = []" "p < length t" | "p < length t" "0 < length us" by (cases us) force+
  then show ?thesis
  proof cases
    case 1
    then show ?thesis using appendUTF16_8_holds [OF assms(1,3)] assms(2)
      by (simp add: insertUTF16_8_def l str_append8_def)
  next
    case 2
    then show ?thesis using assms(1) by (simp add: insertUTF16_8_def l u32_def)
  next
    case 3
    then have m: "0 < length (map widen_char us)" "length t + length (map widen_char us) + 1 < str_limit" using assms(3) by simp_all
    obtain s2 s3 where s: "move_apart p (length us) (ensure (length t + length us + 1) s) = Inr s2"
      "write_units p (map Some (map widen_char us)) (s2\<lparr>sg_len := length t + length us\<rparr>) = Inr s3"
      "str_holds s3 (insert_at p (map widen_char us) t)" "sg_wide s3 = sg_wide s"
      using inserted [OF assms(1) 3(1) m, of "length t + length us"] by (metis insert_at_def same_len length_map)
    then show ?thesis using 3 assms(3) by (simp add: insertUTF16_8_def l Let_def u32_small)
  qed
qed

section \<open>What a string promises\<close>

datatype edit = Set "nat list" | Append "nat list" | Insert nat "nat list" | Addc nat

fun do_edit ::
  "(nat list \<Rightarrow> 's \<Rightarrow> 's res) \<Rightarrow> (nat list \<Rightarrow> 's \<Rightarrow> 's res) \<Rightarrow> (nat \<Rightarrow> nat list \<Rightarrow> 's \<Rightarrow> 's res) \<Rightarrow>
   (nat \<Rightarrow> 's \<Rightarrow> 's res) \<Rightarrow> edit \<Rightarrow> 's \<Rightarrow> 's res" where
  "do_edit g a n c (Set us) s = g us s"
| "do_edit g a n c (Append us) s = a us s"
| "do_edit g a n c (Insert p us) s = n p us s"
| "do_edit g a n c (Addc u) s = c u s"

fun do_edits ::
  "(nat list \<Rightarrow> 's \<Rightarrow> 's res) \<Rightarrow> (nat list \<Rightarrow> 's \<Rightarrow> 's res) \<Rightarrow> (nat \<Rightarrow> nat list \<Rightarrow> 's \<Rightarrow> 's res) \<Rightarrow>
   (nat \<Rightarrow> 's \<Rightarrow> 's res) \<Rightarrow> edit list \<Rightarrow> 's \<Rightarrow> 's res" where
  "do_edits g a n c [] s = Inr s"
| "do_edits g a n c (e # es) s =
     ebind (do_edit g a n c e s) (\<lambda>s'. do_edits g a n c es s')"

text \<open>The edits of a list; the characters come in as units by \<open>conv\<close>, a number as a unit by \<open>fit\<close>.\<close>

fun edit_list :: "(nat list \<Rightarrow> nat list) \<Rightarrow> (nat \<Rightarrow> nat) \<Rightarrow> edit \<Rightarrow> nat list \<Rightarrow> nat list" where
  "edit_list conv fit (Set us) t = conv us"
| "edit_list conv fit (Append us) t = t @ conv us"
| "edit_list conv fit (Insert p us) t = insert_at p (conv us) t"
| "edit_list conv fit (Addc c) t = t @ [fit c]"

fun edits_list :: "(nat list \<Rightarrow> nat list) \<Rightarrow> (nat \<Rightarrow> nat) \<Rightarrow> edit list \<Rightarrow> nat list \<Rightarrow> nat list" where
  "edits_list conv fit [] t = t"
| "edits_list conv fit (e # es) t = edits_list conv fit es (edit_list conv fit e t)"

text \<open>No list on the way is as long as the limit.\<close>

fun edits_fit :: "(nat list \<Rightarrow> nat list) \<Rightarrow> (nat \<Rightarrow> nat) \<Rightarrow> edit list \<Rightarrow> nat list \<Rightarrow> bool" where
  "edits_fit conv fit [] t \<longleftrightarrow> True"
| "edits_fit conv fit (e # es) t \<longleftrightarrow>
     length (edit_list conv fit e t) + 1 < str_limit \<and> edits_fit conv fit es (edit_list conv fit e t)"

locale text_buffer =
  fixes stands_for :: "'s \<Rightarrow> nat list \<Rightarrow> bool"
    and conv :: "nat list \<Rightarrow> nat list"
    and fit :: "nat \<Rightarrow> nat"
    and set_to :: "nat list \<Rightarrow> 's \<Rightarrow> 's res"
    and append_to :: "nat list \<Rightarrow> 's \<Rightarrow> 's res"
    and insert_to :: "nat \<Rightarrow> nat list \<Rightarrow> 's \<Rightarrow> 's res"
    and addc_to :: "nat \<Rightarrow> 's \<Rightarrow> 's res"
  assumes conv_length: "length (conv us) = length us"
    and set_law: "stands_for s t \<Longrightarrow> length us + 1 < str_limit \<Longrightarrow> \<exists>s'. set_to us s = Inr s' \<and> stands_for s' (conv us)"
    and append_law: "stands_for s t \<Longrightarrow> length t + length us + 1 < str_limit \<Longrightarrow>
      \<exists>s'. append_to us s = Inr s' \<and> stands_for s' (t @ conv us)"
    and insert_law: "stands_for s t \<Longrightarrow> length t + length us + 1 < str_limit \<Longrightarrow>
      \<exists>s'. insert_to p us s = Inr s' \<and> stands_for s' (insert_at p (conv us) t)"
    and addc_law: "stands_for s t \<Longrightarrow> length t + 2 < str_limit \<Longrightarrow> \<exists>s'. addc_to c s = Inr s' \<and> stands_for s' (t @ [fit c])"
begin

lemma edit_simulates:
  assumes "stands_for s t" "length (edit_list conv fit e t) + 1 < str_limit"
  shows "\<exists>s'. do_edit set_to append_to insert_to addc_to e s = Inr s' \<and> stands_for s' (edit_list conv fit e t)"
  using assms(2) set_law [OF assms(1)] append_law [OF assms(1)] insert_law [OF assms(1)] addc_law [OF assms(1)]
  by (cases e) (simp_all add: conv_length insert_at_def)

lemma edits_simulate:
  "stands_for s t \<Longrightarrow> edits_fit conv fit es t \<Longrightarrow>
     \<exists>s'. do_edits set_to append_to insert_to addc_to es s = Inr s' \<and> stands_for s' (edits_list conv fit es t)"
proof (induction es arbitrary: s t)
  case (Cons e es)
  from Cons.prems obtain s1 where "do_edit set_to append_to insert_to addc_to e s = Inr s1" "stands_for s1 (edit_list conv fit e t)"
    using edit_simulates by (metis edits_fit.simps(2))
  with Cons.IH Cons.prems(2) show ?case by simp
qed simp

end

definition widened :: "bool \<Rightarrow> nat list \<Rightarrow> nat list" where
  "widened wide us = (if wide then map widen_char us else us)"

definition cut_unit :: "bool \<Rightarrow> nat \<Rightarrow> nat" where
  "cut_unit wide c = (if wide then c mod 2 ^ 16 else c mod 2 ^ 8)"

lemma str_addc_holds:
  "str_holds s t \<Longrightarrow> length t + 2 < str_limit \<Longrightarrow>
     \<exists>s'. str_addc c s = Inr s' \<and> str_holds s' (t @ [cut_unit (sg_wide s) c]) \<and> sg_wide s' = sg_wide s"
  using addc_mem_holds [of s t "cut_unit (sg_wide s) c"]
  by (auto simp: str_addc_def addc8_def addcUTF16_def cut_unit_def split: if_splits)

text \<open>The operations with units of the string's own width, and those with bytes, on both kinds of strings.\<close>

interpretation own_units: text_buffer "\<lambda>s t. str_holds s t \<and> sg_wide s = w" "\<lambda>us. us" "cut_unit w" str_set str_append str_insert str_addc
  using set_mem_holds append_mem_holds insert_mem_holds str_addc_holds
  by unfold_locales (simp_all add: str_mem, blast+)

interpretation as_bytes: text_buffer "\<lambda>s t. str_holds s t \<and> sg_wide s = w" "widened w" "cut_unit w" str_set8 str_append8 str_insert8 str_addc
proof unfold_locales
  fix s t us p assume s: "str_holds s t \<and> sg_wide s = w"
  show "length us + 1 < str_limit \<Longrightarrow> \<exists>s'. str_set8 us s = Inr s' \<and> str_holds s' (widened w us) \<and> sg_wide s' = w"
    using s set_mem_holds [of s t us] setUTF16_8_holds [of s t us] by (auto simp: str_set8_def widened_def set8_def)
  assume l: "length t + length us + 1 < str_limit"
  show "\<exists>s'. str_append8 us s = Inr s' \<and> str_holds s' (t @ widened w us) \<and> sg_wide s' = w"
    using s append_mem_holds [of s t us] appendUTF16_8_holds [of s t us] l by (auto simp: str_append8_def widened_def append8_def)
  show "\<exists>s'. str_insert8 p us s = Inr s' \<and> str_holds s' (insert_at p (widened w us) t) \<and> sg_wide s' = w"
    using s insert_mem_holds [of s t us] insertUTF16_8_holds [of s t us] l by (auto simp: str_insert8_def widened_def insert8_def)
qed (use str_addc_holds in \<open>auto simp: widened_def\<close>)

text \<open>
  C26: strings implement lists: every sequence of \<^verbatim>\<open>set\<close>, \<^verbatim>\<open>append\<close>, \<^verbatim>\<open>insert\<close> and \<^verbatim>\<open>addc\<close> calls, on 8 bit strings as on 16 bit
  strings, stays inside the buffers and leaves the text of the corresponding edits of a list, with a zero behind it, as
  long as no text on the way has \<open>2\<^sup>3\<^sup>1 - 1\<close> units or more.
\<close>

theorem string_refines_list:
  assumes "str_holds s t" "edits_fit (\<lambda>us. us) (cut_unit (sg_wide s)) es t"
  shows "\<exists>s'. do_edits str_set str_append str_insert str_addc es s = Inr s' \<and>
    str_holds s' (edits_list (\<lambda>us. us) (cut_unit (sg_wide s)) es t) \<and> sg_wide s' = sg_wide s"
  using own_units.edits_simulate [of s t "sg_wide s" es] assms by blast

theorem string_refines_list_witness:
  "\<exists>s'. do_edits str_set str_append str_insert str_addc [Set [104, 111], Insert 1 [101, 108, 108], Addc 0x121] stringInit8 = Inr s' \<and>
    str_holds s' [104, 101, 108, 108, 111, 0x21] \<and> sg_wide s' = False"
  using string_refines_list [OF raw_holds(1), of "[Set [104, 111], Insert 1 [101, 108, 108], Addc 0x121]"]
  by (simp add: str_limit_def insert_at_def cut_unit_def stringInit8_def)

end
