(* ===== verification/Antlr_Factory.thy ===== *)
theory Antlr_Factory
  imports Antlr_Vector Antlr_Utf Antlr_String
begin

text \<open>
  The factories that own the strings of the ANTLR run time, and the functions that make a string of another one
  (\<^verbatim>\<open>antlr3string.c\<close>). Shown: a factory keeps its strings numbered when strings are made and destroyed; a part of a
  string is that part of its list, but for an end behind the end; and how the conversion to UTF-8 loses the end of a text.
\<close>

section \<open>Factories\<close>

text \<open>
  A factory has a vector with the addresses of its strings. The strings are modelled as the list of all that were ever allocated, the address being the
  position; \<open>sf_freed\<close> are the addresses that the vector has freed with \<^verbatim>\<open>stringFree\<close>. The encoding decides which functions are
  installed; for UTF-32 none are.
\<close>

record string_factory =
  sf_wide :: bool
  sf_strings :: "nat vector"
  sf_index :: nat
  sf_objects :: "ANTLR3_STRING list"
  sf_freed :: "nat list"

definition antlr3StringFactoryNew :: "bool \<Rightarrow> string_factory" where
  "antlr3StringFactoryNew utf16 =
     \<lparr>sf_wide = utf16, sf_strings = antlr3VectorNew 0, sf_index = 0, sf_objects = [], sf_freed = []\<rparr>"

definition string_entry :: "nat \<Rightarrow> nat ventry" where
  "string_entry a = \<lparr>en_element = Some a, en_free = True\<rparr>"

definition newRaw_as :: "ANTLR3_STRING \<Rightarrow> string_factory \<Rightarrow> (nat \<times> string_factory) res" where
  "newRaw_as string f =
     (let a = length (sf_objects f) in
      ebind (antlr3VectorSet (sf_index f) (string_entry a) True (sf_strings f)) (\<lambda>(freed, v).
        Inr (a, f\<lparr>sf_strings := v, sf_objects := sf_objects f @ [string\<lparr>sg_index := sf_index f\<rparr>],
          sf_index := sf_index f + 1, sf_freed := sf_freed f @ map the freed\<rparr>)))"

definition newRaw8 :: "string_factory \<Rightarrow> (nat \<times> string_factory) res" where
  "newRaw8 f = newRaw_as stringInit8 f"

definition newRawUTF16 :: "string_factory \<Rightarrow> (nat \<times> string_factory) res" where
  "newRawUTF16 f = newRaw_as stringInitUTF16 f"

definition factory_newRaw :: "string_factory \<Rightarrow> (nat \<times> string_factory) res" where
  "factory_newRaw f = (if sf_wide f then newRawUTF16 f else newRaw8 f)"

definition update_string :: "nat \<Rightarrow> (ANTLR3_STRING \<Rightarrow> ANTLR3_STRING res) \<Rightarrow> string_factory \<Rightarrow> (nat \<times> string_factory) res" where
  "update_string a g f =
     (if a < length (sf_objects f) \<and> a \<notin> set (sf_freed f)
      then ebind (g (sf_objects f ! a)) (\<lambda>s. Inr (a, f\<lparr>sf_objects := (sf_objects f)[a := s]\<rparr>))
      else Inl Bad_Index)"

text \<open>
  The new buffer of a string. The zero is one byte: in a 16 bit string only the low half of the first unit is set, which
  leaves the unit as a whole undefined.
\<close>

definition new_buffer :: "nat \<Rightarrow> ANTLR3_STRING \<Rightarrow> ANTLR3_STRING res" where
  "new_buffer sz s =
     (let n = u32 (sz + 1); s1 = s\<lparr>sg_chars := Some (replicate n None), sg_size := n\<rparr>
      in if n = 0 then Inl Bad_Index
         else if sg_wide s then Inr s1 else write_units 0 [Some 0] s1)"

definition newSize8 :: "nat \<Rightarrow> string_factory \<Rightarrow> (nat \<times> string_factory) res" where
  "newSize8 sz f = ebind (factory_newRaw f) (\<lambda>(a, f'). update_string a (new_buffer sz) f')"

definition newSizeUTF16 :: "nat \<Rightarrow> string_factory \<Rightarrow> (nat \<times> string_factory) res" where
  "newSizeUTF16 sz f = ebind (factory_newRaw f) (\<lambda>(a, f'). update_string a (new_buffer sz) f')"

definition factory_newSize :: "nat \<Rightarrow> string_factory \<Rightarrow> (nat \<times> string_factory) res" where
  "factory_newSize sz f = (if sf_wide f then newSizeUTF16 sz f else newSize8 sz f)"

text \<open>
  The memory behind a pointer is the list of the cells from there on, \<open>None\<close> for the null pointer.
\<close>

definition fill :: "nat option list option \<Rightarrow> nat \<Rightarrow> ANTLR3_STRING \<Rightarrow> ANTLR3_STRING res" where
  "fill ptr sz s =
     (case ptr of
        None \<Rightarrow> Inr s
      | Some mem \<Rightarrow>
          if length mem < sz then Inl Bad_Index
          else ebind (write_units 0 (take sz mem) s) (\<lambda>s1.
               ebind (write_units sz [Some 0] s1) (\<lambda>s2. Inr (s2\<lparr>sg_len := sz\<rparr>))))"

definition newPtr8 :: "nat option list option \<Rightarrow> nat \<Rightarrow> string_factory \<Rightarrow> (nat \<times> string_factory) res" where
  "newPtr8 ptr sz f =
     ebind (factory_newSize sz f) (\<lambda>(a, f'). if sz = 0 then Inr (a, f') else update_string a (fill ptr sz) f')"

definition newPtrUTF16_UTF16 :: "nat option list option \<Rightarrow> nat \<Rightarrow> string_factory \<Rightarrow> (nat \<times> string_factory) res" where
  "newPtrUTF16_UTF16 ptr sz f =
     ebind (factory_newSize sz f) (\<lambda>(a, f'). if sz = 0 then Inr (a, f') else update_string a (fill ptr sz) f')"

text \<open>
  The loop of \<^verbatim>\<open>newPtrUTF16_8\<close> takes the bytes as unsigned numbers; its counter is a signed 32 bit number: from \<open>2\<^sup>3\<^sup>1\<close> bytes on
  nothing is copied.
\<close>

definition newPtrUTF16_8 :: "nat option list option \<Rightarrow> nat \<Rightarrow> string_factory \<Rightarrow> (nat \<times> string_factory) res" where
  "newPtrUTF16_8 ptr sz f =
     ebind (factory_newSize sz f) (\<lambda>(a, f').
       if sz = 0 then Inr (a, f')
       else update_string a (\<lambda>s. case ptr of
           None \<Rightarrow> Inr s
         | Some mem \<Rightarrow>
             let n = (if sz < 2 ^ 31 then sz else 0) in
             if length mem < n then Inl Bad_Index
             else ebind (write_units 0 (take n mem) s) (\<lambda>s1.
                  ebind (write_units sz [Some 0] s1) (\<lambda>s2. Inr (s2\<lparr>sg_len := sz\<rparr>)))) f')"

definition factory_newPtr :: "nat option list option \<Rightarrow> nat \<Rightarrow> string_factory \<Rightarrow> (nat \<times> string_factory) res" where
  "factory_newPtr ptr sz f = (if sf_wide f then newPtrUTF16_UTF16 ptr sz f else newPtr8 ptr sz f)"

definition factory_newPtr8 :: "nat option list option \<Rightarrow> nat \<Rightarrow> string_factory \<Rightarrow> (nat \<times> string_factory) res" where
  "factory_newPtr8 ptr sz f = (if sf_wide f then newPtrUTF16_8 ptr sz f else newPtr8 ptr sz f)"

text \<open>From a C string, whose memory has the zero at the end.\<close>

definition c_memory :: "nat list \<Rightarrow> nat option list" where
  "c_memory us = map Some (us @ [0])"

definition newStr8 :: "nat list \<Rightarrow> string_factory \<Rightarrow> (nat \<times> string_factory) res" where
  "newStr8 us f = factory_newPtr8 (Some (c_memory us)) (u32 (length us)) f"

definition newStrUTF16_8 :: "nat list \<Rightarrow> string_factory \<Rightarrow> (nat \<times> string_factory) res" where
  "newStrUTF16_8 us f = factory_newPtr8 (Some (c_memory us)) (u32 (length us)) f"

definition newStrUTF16_UTF16 :: "nat list \<Rightarrow> string_factory \<Rightarrow> (nat \<times> string_factory) res" where
  "newStrUTF16_UTF16 us f = factory_newPtr (Some (c_memory us)) (u32 (length us)) f"

text \<open>The vector frees the string; those behind it get new numbers.\<close>

fun renumber :: "nat \<Rightarrow> nat \<Rightarrow> string_factory \<Rightarrow> string_factory res" where
  "renumber i 0 f = Inr f"
| "renumber i (Suc n) f =
     ebind (read_cell (sf_strings f) i) (\<lambda>e.
       case en_element e of
         None \<Rightarrow> Inl Null_Pointer
       | Some a \<Rightarrow>
           ebind (update_string a (\<lambda>s. Inr (s\<lparr>sg_index := i\<rparr>)) f) (\<lambda>(_, f'). renumber (i + 1) n f'))"

definition destroy :: "nat \<Rightarrow> string_factory \<Rightarrow> string_factory res" where
  "destroy a f =
     (if length (sf_objects f) \<le> a \<or> a \<in> set (sf_freed f) then Inl Bad_Index
      else let strIndex = sg_index (sf_objects f ! a) in
        ebind (antlr3VectorDel strIndex (sf_strings f)) (\<lambda>(freed, v).
          let f1 = f\<lparr>sf_strings := v, sf_index := sf_index f - 1, sf_freed := sf_freed f @ map the freed\<rparr>
          in renumber strIndex (sf_index f1 - strIndex) f1))"

text \<open>The release of a vector: the loop is that of \<^verbatim>\<open>antlr3VectorClear\<close>, after it the memory of the vector is gone.\<close>

definition antlr3VectorFree :: "'a vector \<Rightarrow> 'a option list res" where
  "antlr3VectorFree v = ebind (clear_cells 0 (vc_count v) v) (\<lambda>(freed, v'). Inr freed)"

text \<open>\<^verbatim>\<open>closeFactory\<close>: the addresses of all strings that were freed in the life of the factory.\<close>

definition closeFactory :: "string_factory \<Rightarrow> nat list res" where
  "closeFactory f = ebind (antlr3VectorFree (sf_strings f)) (\<lambda>freed. Inr (sf_freed f @ map the freed))"

subsection \<open>Strings made of strings\<close>

text \<open>The text with escapes for messages; \<^verbatim>\<open>isprint\<close> is that of the C locale, a table that ends at 255.\<close>

fun printable_units :: "nat option list \<Rightarrow> nat list res" where
  "printable_units [] = Inr []"
| "printable_units (None # cells) = Inl Uninitialised"
| "printable_units (Some u # cells) =
     ebind (if u = 10 then Inr [92, 110] else if u = 13 then Inr [92, 114]
            else if 255 < u then Inl Bad_Index
            else if 32 \<le> u \<and> u < 127 then Inr [u] else Inr [63]) (\<lambda>us.
     ebind (printable_units cells) (\<lambda>vs. Inr (us @ vs)))"

definition printable_as :: "ANTLR3_STRING \<Rightarrow> string_factory \<Rightarrow> (nat \<times> string_factory) res" where
  "printable_as instr f =
     ebind (factory_newSize (u32 (sg_len instr * 2 + 1)) f) (\<lambda>(a, f').
       update_string a (\<lambda>s.
         ebind (if sg_len instr = 0 then Inr [] else read_units 0 (sg_len instr) instr) (\<lambda>cells.
         ebind (printable_units cells) (\<lambda>us.
         ebind (write_units 0 (map Some (us @ [0])) s) (\<lambda>s'. Inr (s'\<lparr>sg_len := length us\<rparr>))))) f')"

definition printable8 :: "ANTLR3_STRING \<Rightarrow> string_factory \<Rightarrow> (nat \<times> string_factory) res" where
  "printable8 instr f = printable_as instr f"

definition printableUTF16 :: "ANTLR3_STRING \<Rightarrow> string_factory \<Rightarrow> (nat \<times> string_factory) res" where
  "printableUTF16 instr f = printable_as instr f"

text \<open>\<^verbatim>\<open>string->chars + startIndex\<close>: no memory is behind the null pointer.\<close>

definition memory_at :: "nat \<Rightarrow> ANTLR3_STRING \<Rightarrow> nat option list option" where
  "memory_at i s = (case sg_chars s of None \<Rightarrow> if i = 0 then None else Some [] | Some cells \<Rightarrow> Some (drop i cells))"

definition subString8 :: "ANTLR3_STRING \<Rightarrow> nat \<Rightarrow> nat \<Rightarrow> string_factory \<Rightarrow> (nat \<times> string_factory) res" where
  "subString8 s startIndex endIndex0 f =
     (let endIndex = (if sg_len s < endIndex0 then u32 (sg_len s + 1) else endIndex0)
      in factory_newPtr (memory_at startIndex s) (to_u32 (int endIndex - int startIndex)) f)"

definition subStringUTF16 :: "ANTLR3_STRING \<Rightarrow> nat \<Rightarrow> nat \<Rightarrow> string_factory \<Rightarrow> (nat \<times> string_factory) res" where
  "subStringUTF16 s startIndex endIndex0 f =
     (let endIndex = (if sg_len s < endIndex0 then u32 (sg_len s + 1) else endIndex0)
      in factory_newPtr (memory_at startIndex s) (to_u32 (int endIndex - int startIndex)) f)"

definition to8_8 :: "nat \<Rightarrow> string_factory \<Rightarrow> (nat \<times> string_factory) res" where
  "to8_8 a f = Inr (a, f)"

definition narrow_unit :: "nat \<Rightarrow> nat" where
  "narrow_unit u = (if 255 < u then of_char CHR ''_'' else u)"

definition to8_UTF16 :: "ANTLR3_STRING \<Rightarrow> string_factory \<Rightarrow> (nat \<times> string_factory) res" where
  "to8_UTF16 s f =
     ebind (newRaw8 f) (\<lambda>(a, f').
       update_string a (\<lambda>t.
         ebind (if sg_len s = 0 then Inr [] else read_units 0 (sg_len s) s) (\<lambda>cells.
           if None \<in> set cells then Inl Uninitialised
           else let n = u32 (sg_len s + 1);
                    t1 = t\<lparr>sg_chars := Some (replicate n None), sg_size := n, sg_len := sg_len s\<rparr>
             in write_units 0 (map (map_option narrow_unit) cells @ [Some 0]) t1)) f')"

definition toUTF8_8 :: "ANTLR3_STRING \<Rightarrow> string_factory \<Rightarrow> (nat \<times> string_factory) res" where
  "toUTF8_8 s f = factory_newPtr (sg_chars s) (sg_len s) f"

text \<open>
  The buffer has three bytes for each unit and one more; the converter is told that it ends one byte before that, and the
  zero is put one byte behind the text. The string keeps its 16 bit functions, but its units are bytes from here on.
\<close>

definition toUTF8_UTF16 :: "ANTLR3_STRING \<Rightarrow> string_factory \<Rightarrow> (nat \<times> string_factory) res" where
  "toUTF8_UTF16 s f =
     ebind (newStrUTF16_8 [] f) (\<lambda>(a, f').
       update_string a (\<lambda>t.
         let sz = u32 (sg_len s * 3); t1 = t\<lparr>sg_size := sz, sg_chars := Some (replicate (u32 (sz + 1)) None)\<rparr> in
         ebind (if sg_len s = 0 then Inr [] else read_units 0 (sg_len s) s) (\<lambda>cells.
           if None \<in> set cells then Inl Uninitialised
           else let bytes = snd (snd (ConvertUTF16toUTF8 lenientConversion (sz - 1) (map (of_nat \<circ> the) cells)))
             in ebind (write_units 0 (map (Some \<circ> unat) bytes) t1) (\<lambda>t2.
                  write_units (length bytes + 1) [Some 0] (t2\<lparr>sg_len := length bytes\<rparr>)))) f')"


section \<open>The strings of a factory\<close>

text \<open>
  The vector has the addresses of the strings that are alive, each string has its position as its number, and
  every string that was ever made is alive or was freed, once.
\<close>

definition factory_ok :: "string_factory \<Rightarrow> nat list \<Rightarrow> bool" where
  "factory_ok f as \<longleftrightarrow> holds (sf_strings f) (map string_entry as) \<and> sf_index f = length as \<and>
     distinct (sf_freed f @ as) \<and> set (sf_freed f @ as) = {..<length (sf_objects f)} \<and>
     (\<forall>i < length as. sg_index (sf_objects f ! (as ! i)) = i)"

lemma new_factory_ok: "factory_ok (antlr3StringFactoryNew utf16) []"
  by (simp add: factory_ok_def antlr3StringFactoryNew_def new_holds)

lemma factory_okD:
  assumes "factory_ok f as"
  shows "holds (sf_strings f) (map string_entry as)" "sf_index f = length as" "distinct as"
    "a \<in> set as \<Longrightarrow> a < length (sf_objects f) \<and> a \<notin> set (sf_freed f)"
    "i < length as \<Longrightarrow> sg_index (sf_objects f ! (as ! i)) = i"
  using assms by (auto simp: factory_ok_def)

lemma newRaw_ok:
  assumes "factory_ok f as"
  obtains f' where "newRaw_as s f = Inr (length (sf_objects f), f')" "factory_ok f' (as @ [length (sf_objects f)])"
    "sf_objects f' = sf_objects f @ [s\<lparr>sg_index := length as\<rparr>]" "sf_freed f' = sf_freed f" "sf_wide f' = sf_wide f"
proof -
  let ?a = "length (sf_objects f)"
  note ok = factory_okD [OF assms]
  obtain v where v: "antlr3VectorSet (length as) (string_entry ?a) True (sf_strings f) = Inr ([], v)"
    "holds v (map string_entry (as @ [?a]))"
    using set_holds [OF ok(1), of "length as" "string_entry ?a" True] by auto
  define f' where "f' = f\<lparr>sf_strings := v, sf_objects := sf_objects f @ [s\<lparr>sg_index := length as\<rparr>], sf_index := length as + 1\<rparr>"
  have "sg_index (sf_objects f' ! ((as @ [?a]) ! i)) = i" if "i < length as + 1" for i
    using that ok(4) [of "as ! i"] ok(5) [of i] by (auto simp: f'_def nth_append less_Suc_eq)
  then have "factory_ok f' (as @ [?a])"
    using v(2) assms by (auto simp: factory_ok_def f'_def)
  moreover have "newRaw_as s f = Inr (?a, f')" using v(1) ok(2) by (simp add: newRaw_as_def f'_def)
  ultimately show thesis using that by (simp add: f'_def)
qed

lemma update_string_ok:
  assumes "factory_ok f as" "a \<in> set as" "g (sf_objects f ! a) = Inr s" "sg_index s = sg_index (sf_objects f ! a)"
  shows "update_string a g f = Inr (a, f\<lparr>sf_objects := (sf_objects f)[a := s]\<rparr>)"
    "factory_ok (f\<lparr>sf_objects := (sf_objects f)[a := s]\<rparr>) as"
proof -
  have a: "a < length (sf_objects f)" "a \<notin> set (sf_freed f)" using factory_okD(4) [OF assms(1,2)] by simp_all
  then show "update_string a g f = Inr (a, f\<lparr>sf_objects := (sf_objects f)[a := s]\<rparr>)"
    using assms(3) by (simp add: update_string_def)
  show "factory_ok (f\<lparr>sf_objects := (sf_objects f)[a := s]\<rparr>) as"
    using assms(1,4) a by (auto simp: factory_ok_def nth_list_update)
qed

text \<open>The loop that gives new numbers changes nothing but the numbers of the strings from its start on.\<close>

lemma renumber_run:
  assumes "holds (sf_strings f) (map string_entry as)" "distinct as" "i + n = length as"
    "\<forall>a \<in> set as. a < length (sf_objects f) \<and> a \<notin> set (sf_freed f)"
  shows "\<exists>objs. renumber i n f = Inr (f\<lparr>sf_objects := objs\<rparr>) \<and> length objs = length (sf_objects f) \<and>
    (\<forall>j < length as. objs ! (as ! j) = (sf_objects f ! (as ! j))\<lparr>sg_index := if i \<le> j then j else sg_index (sf_objects f ! (as ! j))\<rparr>)"
  using assms
proof (induction n arbitrary: i f)
  case 0
  then show ?case by (intro exI [of _ "sf_objects f"]) auto
next
  case (Suc n)
  let ?a = "as ! i"
  let ?objs = "(sf_objects f)[?a := (sf_objects f ! ?a)\<lparr>sg_index := i\<rparr>]"
  have i: "i < length as" using Suc.prems(3) by simp
  have r: "read_cell (sf_strings f) i = Inr (string_entry ?a)" using read_cell_holds [OF Suc.prems(1)] i by simp
  have a: "?a < length (sf_objects f)" "?a \<notin> set (sf_freed f)" using Suc.prems(4) i by auto
  then have u: "update_string ?a (\<lambda>s. Inr (s\<lparr>sg_index := i\<rparr>)) f = Inr (?a, f\<lparr>sf_objects := ?objs\<rparr>)" by (simp add: update_string_def)
  have "\<exists>objs. renumber (i + 1) n (f\<lparr>sf_objects := ?objs\<rparr>) = Inr (f\<lparr>sf_objects := ?objs\<rparr>\<lparr>sf_objects := objs\<rparr>) \<and>
      length objs = length ?objs \<and> (\<forall>j < length as. objs ! (as ! j) =
        (?objs ! (as ! j))\<lparr>sg_index := if i + 1 \<le> j then j else sg_index (?objs ! (as ! j))\<rparr>)"
    using Suc.IH [of "f\<lparr>sf_objects := ?objs\<rparr>" "i + 1"] Suc.prems by auto
  then obtain objs where o: "renumber (i + 1) n (f\<lparr>sf_objects := ?objs\<rparr>) = Inr (f\<lparr>sf_objects := objs\<rparr>)"
    "length objs = length (sf_objects f)"
    "\<And>j. j < length as \<Longrightarrow> objs ! (as ! j) = (?objs ! (as ! j))\<lparr>sg_index := if i + 1 \<le> j then j else sg_index (?objs ! (as ! j))\<rparr>"
    by auto
  have "objs ! (as ! j) = (sf_objects f ! (as ! j))\<lparr>sg_index := if i \<le> j then j else sg_index (sf_objects f ! (as ! j))\<rparr>"
    if "j < length as" for j
    using o(3) [OF that] a(1) i that Suc.prems(2) by (cases "j = i") (auto simp: nth_list_update nth_eq_iff_index_eq)
  with r u o(1,2) show ?case by (intro exI [of _ objs]) (simp add: string_entry_def)
qed

lemma remove1_delete_at:
  assumes "distinct xs" "k < length xs"
  shows "remove1 (xs ! k) xs = delete_at k xs"
proof -
  have x: "xs = take k xs @ xs ! k # drop (Suc k) xs" using assms(2) by (rule id_take_nth_drop)
  then have "xs ! k \<notin> set (take k xs)" using assms(1) by (metis distinct_append disjoint_iff list.set_intros(1))
  then show ?thesis by (subst (2) x) (simp add: remove1_append delete_at_def)
qed

lemma destroy_ok:
  assumes "factory_ok f as" "a \<in> set as"
  shows "\<exists>f'. destroy a f = Inr f' \<and> factory_ok f' (remove1 a as) \<and> sf_freed f' = sf_freed f @ [a] \<and>
    (\<forall>b \<in> set as - {a}. (sf_objects f' ! b)\<lparr>sg_index := 0\<rparr> = (sf_objects f ! b)\<lparr>sg_index := 0\<rparr>)"
proof -
  note ok = factory_okD [OF assms(1)]
  obtain k where k: "k < length as" "a = as ! k" using assms(2) by (auto simp: in_set_conv_nth)
  define bs where "bs = delete_at k as"
  have bs: "bs = remove1 a as" "length bs = length as - 1" "delete_at k (map string_entry as) = map string_entry bs"
    using k ok(3) by (simp_all add: bs_def remove1_delete_at length_delete_at) (simp add: delete_at_def take_map drop_map)
  have a: "a < length (sf_objects f)" "a \<notin> set (sf_freed f)" "sg_index (sf_objects f ! a) = k"
    using ok(4) [OF assms(2)] ok(5) [OF k(1)] k(2) by simp_all
  obtain v where v: "antlr3VectorDel k (sf_strings f) = Inr ([Some a], v)" "holds v (map string_entry bs)"
    using del_holds [OF ok(1), of k] k bs(3) by (auto simp: string_entry_def call_free_def)
  define f1 where "f1 = f\<lparr>sf_strings := v, sf_index := length bs, sf_freed := sf_freed f @ [a]\<rparr>"
  have d: "destroy a f = renumber k (length bs - k) f1" using a v(1) ok(2) bs(2) by (simp add: destroy_def f1_def Let_def)
  have db: "distinct bs" "set bs = set as - {a}" using ok(3) by (simp_all add: bs(1))
  have "\<forall>b \<in> set bs. b < length (sf_objects f1) \<and> b \<notin> set (sf_freed f1)" using db(2) ok(4) by (auto simp: f1_def)
  then obtain objs where o: "renumber k (length bs - k) f1 = Inr (f1\<lparr>sf_objects := objs\<rparr>)" "length objs = length (sf_objects f)"
      "\<And>j. j < length bs \<Longrightarrow> objs ! (bs ! j) =
        (sf_objects f ! (bs ! j))\<lparr>sg_index := if k \<le> j then j else sg_index (sf_objects f ! (bs ! j))\<rparr>"
    using renumber_run [of f1 bs k "length bs - k"] v(2) db(1) k(1) bs(2) by (auto simp: f1_def)
  have "sg_index (objs ! (bs ! j)) = j" if "j < length bs" for j
    using o(3) [OF that] that ok(5) [of j] k(1) bs(2) by (auto simp: bs_def nth_delete_at)
  then have "factory_ok (f1\<lparr>sf_objects := objs\<rparr>) bs"
    using assms(1) v(2) o(2) db a(1) assms(2) by (auto simp: factory_ok_def f1_def)
  moreover have "(objs ! b)\<lparr>sg_index := 0\<rparr> = (sf_objects f ! b)\<lparr>sg_index := 0\<rparr>" if "b \<in> set as - {a}" for b
  proof -
    have "b \<in> set bs" using that db(2) by simp
    then obtain j where "j < length bs" "b = bs ! j" by (auto simp: in_set_conv_nth)
    then show ?thesis using o(3) by simp
  qed
  ultimately show ?thesis using d o(1) bs(1) by (simp add: f1_def)
qed

text \<open>The life of a factory: strings are made, changed and destroyed.\<close>

inductive factory_life :: "bool \<Rightarrow> string_factory \<Rightarrow> nat list \<Rightarrow> bool" where
  start: "factory_life utf16 (antlr3StringFactoryNew utf16) []"
| make: "factory_life utf16 f as \<Longrightarrow> factory_newRaw f = Inr (a, f') \<Longrightarrow> factory_life utf16 f' (as @ [a])"
| make8: "factory_life utf16 f as \<Longrightarrow> newRaw8 f = Inr (a, f') \<Longrightarrow> factory_life utf16 f' (as @ [a])"
| change: "factory_life utf16 f as \<Longrightarrow> a \<in> set as \<Longrightarrow> (\<And>s s'. g s = Inr s' \<Longrightarrow> sg_index s' = sg_index s) \<Longrightarrow>
    update_string a g f = Inr (a, f') \<Longrightarrow> factory_life utf16 f' as"
| destroy: "factory_life utf16 f as \<Longrightarrow> a \<in> set as \<Longrightarrow> destroy a f = Inr f' \<Longrightarrow> factory_life utf16 f' (remove1 a as)"

lemma factory_newRaw_ok:
  assumes "factory_ok f as"
  shows "\<exists>f'. factory_newRaw f = Inr (length (sf_objects f), f') \<and> factory_ok f' (as @ [length (sf_objects f)])"
proof -
  obtain f8 where "newRaw8 f = Inr (length (sf_objects f), f8)" "factory_ok f8 (as @ [length (sf_objects f)])"
    using newRaw_ok [OF assms, of stringInit8] unfolding newRaw8_def by blast
  moreover obtain f16 where "newRawUTF16 f = Inr (length (sf_objects f), f16)" "factory_ok f16 (as @ [length (sf_objects f)])"
    using newRaw_ok [OF assms, of stringInitUTF16] unfolding newRawUTF16_def by blast
  ultimately show ?thesis by (simp add: factory_newRaw_def)
qed

lemma factory_life_ok: "factory_life utf16 f as \<Longrightarrow> factory_ok f as"
proof (induction rule: factory_life.induct)
  case (start utf16)
  show ?case by (rule new_factory_ok)
next
  case (make utf16 f as a f')
  then show ?case using factory_newRaw_ok [OF make.IH] by auto
next
  case (make8 utf16 f as a f')
  then show ?case using newRaw_ok [OF make8.IH, of stringInit8] by (auto simp: newRaw8_def)
next
  case (change utf16 f as a g f')
  then obtain s where "g (sf_objects f ! a) = Inr s" by (auto simp: update_string_def ebind_Inr_iff split: if_splits)
  moreover from this have "sg_index s = sg_index (sf_objects f ! a)" by (rule change.hyps(3))
  ultimately show ?case using update_string_ok [of f as a g s] change.IH change.hyps(2,4) by simp
next
  case (destroy utf16 f as a f')
  then show ?case using destroy_ok [OF destroy.IH destroy.hyps(2)] by auto
qed

text \<open>
  C27: whatever strings were made, changed and destroyed, the vector has exactly the strings that are alive, each with its position as its
  number, so that \<^verbatim>\<open>destroy\<close> of any of them frees this one and no other; and \<^verbatim>\<open>closeFactory\<close> leaves every string that was ever
  made freed exactly once: none is leaked and none is freed twice.
\<close>

theorem factory_frees_once:
  assumes "factory_life utf16 f as"
  shows "(\<forall>a \<in> set as. \<exists>f'. destroy a f = Inr f' \<and> sf_freed f' = sf_freed f @ [a] \<and>
      (\<forall>b \<in> set as - {a}. (sf_objects f' ! b)\<lparr>sg_index := 0\<rparr> = (sf_objects f ! b)\<lparr>sg_index := 0\<rparr>)) \<and>
    (\<exists>freed. closeFactory f = Inr freed \<and> distinct freed \<and> set freed = {..<length (sf_objects f)})"
proof -
  note ok = factory_life_ok [OF assms]
  note v = factory_okD(1) [OF ok]
  have "clear_cells 0 (vc_count (sf_strings f)) (sf_strings f) = clear_cells 0 (length as) (sf_strings f)" 
    using holdsD(1) [OF v] by simp
  moreover obtain v' where "clear_cells 0 (length as) (sf_strings f) = Inr (concat (map call_free (map string_entry as)), v')"
    using clear_cells_holds [of 0 "length as" "sf_strings f" "map string_entry as"] holdsD [OF v] by auto
  moreover have "concat (map call_free (map string_entry as)) = map Some as"
    by (induction as) (simp_all add: call_free_def string_entry_def)
  ultimately have "closeFactory f = Inr (sf_freed f @ as)" by (simp add: closeFactory_def antlr3VectorFree_def comp_def)
  moreover have "distinct (sf_freed f @ as)" "set (sf_freed f @ as) = {..<length (sf_objects f)}"
    using ok by (simp_all add: factory_ok_def)
  ultimately show ?thesis using destroy_ok [OF ok] by blast
qed

theorem factory_frees_once_witness:
  "\<exists>f a. factory_life False f [a] \<and> (\<exists>freed. closeFactory f = Inr freed \<and> distinct freed \<and> set freed = {..<length (sf_objects f)})"
proof -
  obtain a f where "factory_newRaw (antlr3StringFactoryNew False) = Inr (a, f)"
    using factory_newRaw_ok [OF new_factory_ok] by blast
  from make [OF start this] have "factory_life False f [a]" by simp
  with factory_frees_once [OF this] show ?thesis by blast
qed

section \<open>New strings\<close>

lemma factory_newRaw_fresh:
  assumes "factory_ok f as"
  obtains f' s where "factory_newRaw f = Inr (length (sf_objects f), f')" "factory_ok f' (as @ [length (sf_objects f)])"
    "sf_objects f' = sf_objects f @ [s]" "sg_len s = 0" "sg_wide s = sf_wide f" "sf_wide f' = sf_wide f"
proof -
  define raw where "raw = (if sf_wide f then stringInitUTF16 else stringInit8)"
  obtain f' where "newRaw_as raw f = Inr (length (sf_objects f), f')" "factory_ok f' (as @ [length (sf_objects f)])"
    "sf_objects f' = sf_objects f @ [raw\<lparr>sg_index := length as\<rparr>]" "sf_wide f' = sf_wide f"
    using newRaw_ok [OF assms, of raw] by metis
  moreover have "factory_newRaw f = newRaw_as raw f" "sg_len raw = 0" "sg_wide raw = sf_wide f"
    by (simp_all add: factory_newRaw_def newRaw8_def newRawUTF16_def raw_def stringInit8_def stringInitUTF16_def)
  ultimately show thesis by (intro that [of f' "raw\<lparr>sg_index := length as\<rparr>"]) simp_all
qed

lemma factory_newSize_fresh:
  assumes "factory_ok f as" "sz + 1 < str_limit"
  obtains f' s where "factory_newSize sz f = Inr (length (sf_objects f), f')" "factory_ok f' (as @ [length (sf_objects f)])"
    "sf_objects f' = sf_objects f @ [s]" "sg_len s = 0" "sg_wide s = sf_wide f" "sf_wide f' = sf_wide f"
    "sg_size s = sz + 1" "sg_chars s = Some ((if sf_wide f then None else Some 0) # replicate sz None)"
proof -
  let ?a = "length (sf_objects f)"
  obtain f1 s where r: "factory_newRaw f = Inr (?a, f1)" "factory_ok f1 (as @ [?a])" "sf_objects f1 = sf_objects f @ [s]"
    "sg_len s = 0" "sg_wide s = sf_wide f" "sf_wide f1 = sf_wide f"
    using factory_newRaw_fresh [OF assms(1)] .
  define s' where "s' = s\<lparr>sg_chars := Some ((if sf_wide f then None else Some 0) # replicate sz None), sg_size := sz + 1\<rparr>"
  have "new_buffer sz s = Inr s'"
    using assms(2) r(5) by (simp add: new_buffer_def u32_small s'_def write_units_def Let_def)
  with update_string_ok [OF r(2), of ?a "new_buffer sz" s'] r(3)
  have u: "update_string ?a (new_buffer sz) f1 = Inr (?a, f1\<lparr>sf_objects := sf_objects f @ [s']\<rparr>)"
    "factory_ok (f1\<lparr>sf_objects := sf_objects f @ [s']\<rparr>) (as @ [?a])"
    by (simp_all add: s'_def)
  then have "factory_newSize sz f = Inr (?a, f1\<lparr>sf_objects := sf_objects f @ [s']\<rparr>)"
    using r(1) by (simp add: factory_newSize_def newSize8_def newSizeUTF16_def)
  from that [OF this u(2), of s'] r show thesis by (simp add: s'_def)
qed

text \<open>A string from memory has the units there as its text.\<close>

lemma factory_newPtr_holds:
  assumes "factory_ok f as" "t \<noteq> []" "length t + 1 < str_limit" "length t \<le> length mem" "take (length t) mem = map Some t"
  shows "\<exists>f'. factory_newPtr (Some mem) (length t) f = Inr (length (sf_objects f), f') \<and>
    factory_ok f' (as @ [length (sf_objects f)]) \<and> str_holds (sf_objects f' ! length (sf_objects f)) t"
proof -
  let ?a = "length (sf_objects f)"
  obtain f1 s where r: "factory_newSize (length t) f = Inr (?a, f1)" "factory_ok f1 (as @ [?a])" "sf_objects f1 = sf_objects f @ [s]"
    "sg_len s = 0" "sg_wide s = sf_wide f" "sg_size s = length t + 1"
    "sg_chars s = Some ((if sf_wide f then None else Some 0) # replicate (length t) None)"
    using factory_newSize_fresh [OF assms(1,3)] .
  define s' where "s' = s\<lparr>sg_chars := Some (map Some (t @ [0])), sg_len := length t\<rparr>"
  have "fill (Some mem) (length t) s = Inr s'"
    using assms(2,4,5) r(7) by (cases t) (simp_all add: fill_def write_units_def s'_def)
  with update_string_ok [OF r(2), of ?a "fill (Some mem) (length t)" s'] r(3)
  have u: "update_string ?a (fill (Some mem) (length t)) f1 = Inr (?a, f1\<lparr>sf_objects := sf_objects f @ [s']\<rparr>)"
    "factory_ok (f1\<lparr>sf_objects := sf_objects f @ [s']\<rparr>) (as @ [?a])"
    by (simp_all add: s'_def)
  moreover have "str_holds s' t" using r(6) by (simp add: str_holds_def s'_def)
  ultimately show ?thesis using r(1) assms(2) by (simp add: factory_newPtr_def newPtr8_def newPtrUTF16_UTF16_def)
qed

section \<open>Parts of a string\<close>

lemma to_u32_diff: "i \<le> j \<Longrightarrow> j < 2 ^ 32 \<Longrightarrow> to_u32 (int j - int i) = j - i"
  by (simp add: to_u32_def flip: of_nat_diff)

lemma holds_window:
  assumes "str_holds s t" "sg_chars s = Some cells" "i + length u \<le> length t + 1" "take (length u) (drop i (t @ [0])) = u"
  shows "length u \<le> length (drop i cells)" "take (length u) (drop i cells) = map Some u"
proof -
  have t: "take (length t + 1) cells = map Some (t @ [0])" and "length t < length cells"
    using assms(1,2) holds_cells [OF assms(1,2)] by (simp_all add: str_holds_def)
  then show "length u \<le> length (drop i cells)" using assms(3) by simp
  have "take (length u) (drop i cells) = take (length u) (drop i (take (length t + 1) cells))"
    using assms(3) by (simp add: drop_take min_def)
  also have "\<dots> = map Some (take (length u) (drop i (t @ [0])))" unfolding t by (simp only: drop_map take_map)
  finally show "take (length u) (drop i cells) = map Some u" unfolding assms(4) .
qed

text \<open>The pointer \<^verbatim>\<open>subString\<close> of a string.\<close>

definition str_subString :: "ANTLR3_STRING \<Rightarrow> nat \<Rightarrow> nat \<Rightarrow> string_factory \<Rightarrow> (nat \<times> string_factory) res" where
  "str_subString s i j f = (if sg_wide s then subStringUTF16 s i j f else subString8 s i j f)"

text \<open>
  \<^verbatim>\<open>subString(i, j)\<close> is a new string with the units from position \<open>i\<close> up to \<open>j\<close>. When \<open>j\<close> is behind the end, it is moved
  one position too far: the new string then ends with the zero that terminates the old one, and is one unit too long.
\<close>

theorem subString_part:
  assumes "factory_life utf16 f as" "str_holds s t" "i < length t" "i < j" "length t + 2 < str_limit" "j < 2 ^ 32"
  shows "\<exists>f'. str_subString s i j f = Inr (length (sf_objects f), f') \<and>
    str_holds (sf_objects f' ! length (sf_objects f)) (if j \<le> length t then take (j - i) (drop i t) else drop i t @ [0])"
proof -
  let ?u = "if j \<le> length t then take (j - i) (drop i t) else drop i t @ [0]"
  obtain cells where c: "sg_chars s = Some cells" using assms(2,3) by (cases "sg_chars s") (auto simp: str_holds_def)
  have l: "sg_len s = length t" using assms(2) by (simp add: str_holds_def)
  have u: "i + length ?u \<le> length t + 1" "take (length ?u) (drop i (t @ [0])) = ?u" "?u \<noteq> []" "length ?u + 1 < str_limit"
    using assms(3-5) by auto
  have "str_subString s i j f = factory_newPtr (Some (drop i cells)) (length ?u) f"
    using assms(3-6) c by (auto simp: str_subString_def subString8_def subStringUTF16_def l memory_at_def to_u32_diff u32_def str_limit_def Suc_diff_le)
  with factory_newPtr_holds [OF factory_life_ok [OF assms(1)] u(3,4) holds_window [OF assms(2) c u(1,2)]]
  show ?thesis by auto
qed

definition example_string :: ANTLR3_STRING where
  "example_string = \<lparr>sg_len = 2, sg_size = 3, sg_chars = Some [Some 97, Some 98, Some 0], sg_wide = False, sg_index = 0\<rparr>"

theorem subString_part_witness:
  "\<exists>f'. str_subString example_string 1 9 (antlr3StringFactoryNew False) = Inr (0, f') \<and> str_holds (sf_objects f' ! 0) [98, 0]"
proof -
  have "str_holds example_string [97, 98]" "length (sf_objects (antlr3StringFactoryNew False)) = 0"
    by (simp_all add: str_holds_def example_string_def antlr3StringFactoryNew_def)
  then show ?thesis using subString_part [OF start [of False], of example_string "[97, 98]" 1 9] by (simp add: str_limit_def)
qed

section \<open>The conversion to UTF-8\<close>

lemma newStrUTF16_8_empty:
  assumes "factory_ok f as" "sf_wide f"
  obtains f' s where "newStrUTF16_8 [] f = Inr (length (sf_objects f), f')" "factory_ok f' (as @ [length (sf_objects f)])"
    "sf_objects f' = sf_objects f @ [s]" "sg_len s = 0" "sg_chars s = Some [None]"
proof -
  have "0 + 1 < str_limit" by (simp add: str_limit_def)
  from factory_newSize_fresh [OF assms(1) this] obtain f' s where r: "factory_newSize 0 f = Inr (length (sf_objects f), f')"
    "factory_ok f' (as @ [length (sf_objects f)])" "sf_objects f' = sf_objects f @ [s]" "sg_len s = 0"
    "sg_chars s = Some ((if sf_wide f then None else Some 0) # replicate 0 None)" by metis
  have "newStrUTF16_8 [] f = Inr (length (sf_objects f), f')"
    using r(1) assms(2) by (simp add: newStrUTF16_8_def factory_newPtr8_def newPtrUTF16_8_def u32_def)
  from that [OF this r(2-4)] r(5) assms(2) show thesis by simp
qed

text \<open>The empty 16 bit string that a factory makes has no terminating zero.\<close>

lemma empty_unterminated:
  assumes "factory_ok f as" "sf_wide f" "newStrUTF16_8 [] f = Inr (a, f')"
  shows "c_string (sf_objects f' ! a) = Inl Uninitialised"
proof -
  obtain s where "a = length (sf_objects f)" "sf_objects f' = sf_objects f @ [s]" "sg_chars s = Some [None]"
    using newStrUTF16_8_empty [OF assms(1,2)] assms(3) by (metis Inr_inject Pair_inject)
  then show ?thesis by (simp add: c_string_def)
qed

text \<open>At most three bytes are needed for a unit of UTF-16.\<close>

lemma utf8_length_bound:
  "list_all scalar cs \<Longrightarrow> length (text_of utf8_code cs) \<le> 3 * length (text_of utf16_code cs)"
  by (induction cs) (auto simp: length_utf8_code utf16_code_def utf16_nat_def scalar_unat)

lemma written_utf8:
  assumes "list_all scalar cs" "cs \<noteq> []"
  defines "n \<equiv> length (text_of utf16_code cs)"
  shows "snd (snd (ConvertUTF16toUTF8 lenientConversion (3 * n - 1) (text_of utf16_code cs))) =
    text_of utf8_code (if length (text_of utf8_code cs) < 3 * n then cs else butlast cs)"
proof (cases "length (text_of utf8_code cs) < 3 * n")
  case True
  then show ?thesis using u16_u8.converts_text [OF assms(1), of "3 * n - 1" lenientConversion] by simp
next
  case False
  have full: "length (text_of utf8_code cs) = 3 * n" using False utf8_length_bound [OF assms(1)] by (simp add: n_def)
  have "0 < n" using assms(2) utf16_code_nonempty by (cases cs) (auto simp: n_def)
  obtain ds es where d: "cs = ds @ es" "length (text_of utf8_code ds) \<le> 3 * n - 1"
    "es \<noteq> [] \<longrightarrow> 3 * n - 1 < length (text_of utf8_code ds) + length (utf8_code (hd es))"
    "snd (snd (ConvertUTF16toUTF8 lenientConversion (3 * n - 1) (text_of utf16_code cs))) = text_of utf8_code ds"
    using u16_u8.converts_what_fits [OF assms(1), of "3 * n - 1" lenientConversion] by (metis snd_conv)
  have "es \<noteq> []" using d(1,2) full \<open>0 < n\<close> by auto
  then obtain e es' where es: "es = e # es'" by (cases es) auto
  then have "length (text_of utf8_code ds) + length (utf8_code e) + length (text_of utf8_code es') = 3 * n"
    using d(1) full by simp
  moreover have "3 * n - 1 < length (text_of utf8_code ds) + length (utf8_code e)" using d(3) es by simp
  ultimately have "length (text_of utf8_code es') = 0" by linarith
  then have "es' = []" using utf8_code_nonempty by (cases es') auto
  then show ?thesis using d(1,4) es False by simp
qed

lemma dropped_last_fits:
  assumes "list_all scalar cs" "cs \<noteq> []"
  defines "n \<equiv> length (text_of utf16_code cs)"
  shows "length (text_of utf8_code (if length (text_of utf8_code cs) < 3 * n then cs else butlast cs)) + 1 \<le> 3 * n"
proof -
  have "text_of utf8_code cs = text_of utf8_code (butlast cs) @ utf8_code (last cs)"
    using assms(2) by (metis append_Nil2 append_butlast_last_id text_of_simps)
  then have l: "length (text_of utf8_code cs) = length (text_of utf8_code (butlast cs)) + length (utf8_code (last cs))" by simp
  have "0 < length (utf8_code (last cs))" using utf8_code_nonempty by blast
  then have "length (text_of utf8_code (butlast cs)) + 1 \<le> 3 * n" using utf8_length_bound [OF assms(1)] l unfolding n_def by linarith
  then show ?thesis by auto
qed

text \<open>The buffer after the conversion.\<close>

lemma utf8_buffer:
  assumes "length bytes + 1 \<le> 3 * n" "3 * n + 1 < 2 ^ 32"
  shows "ebind (write_units 0 (map (Some \<circ> unat) bytes) (t\<lparr>sg_size := 3 * n, sg_chars := Some (replicate (u32 (3 * n + 1)) None)\<rparr>))
      (\<lambda>t2. write_units (length bytes + 1) [Some 0] (t2\<lparr>sg_len := length bytes\<rparr>)) =
    Inr (t\<lparr>sg_size := 3 * n, sg_len := length bytes,
      sg_chars := Some (map (Some \<circ> unat) bytes @ None # Some 0 # replicate (3 * n - 1 - length bytes) None)\<rparr>)"
proof -
  let ?rest = "replicate (3 * n - 1 - length bytes) (None :: nat option)"
  have "3 * n + 1 = length bytes + Suc (Suc (3 * n - 1 - length bytes))" using assms(1) by simp
  then have "replicate (3 * n + 1) (None :: nat option) = replicate (length bytes) None @ None # None # ?rest"
    by (metis replicate_Suc replicate_add)
  moreover have "u32 (3 * n + 1) = 3 * n + 1" using assms(2) by (simp add: u32_def)
  ultimately have r: "replicate (u32 (3 * n + 1)) (None :: nat option) = replicate (length bytes) None @ None # None # ?rest"
    by simp
  show ?thesis unfolding r by (simp add: write_units_def)
qed

text \<open>
  The conversion of a 16 bit string to UTF-8 gives the text, but for its last character when every character needs three bytes
  for each unit, as in Chinese or Japanese: the converter is given one byte too little. The byte behind the text is never set: the
  result is not terminated where its length says.
\<close>

theorem toUTF8_drops_last:
  assumes "factory_life True f as" "sf_wide f" "str_holds s (map unat (text_of utf16_code cs))"
    "list_all scalar cs" "cs \<noteq> []" "3 * length (text_of utf16_code cs) + 1 < 2 ^ 32"
  defines "bytes \<equiv> text_of utf8_code (if length (text_of utf8_code cs) < 3 * length (text_of utf16_code cs) then cs else butlast cs)"
  shows "\<exists>f' cells. toUTF8_UTF16 s f = Inr (length (sf_objects f), f') \<and> sg_len (sf_objects f' ! length (sf_objects f)) = length bytes \<and>
    sg_chars (sf_objects f' ! length (sf_objects f)) = Some (map (Some \<circ> unat) bytes @ None # Some 0 # cells)"
proof -
  let ?a = "length (sf_objects f)"
  let ?us = "text_of utf16_code cs"
  define n where "n = length ?us"
  have "?us \<noteq> []" using assms(5) utf16_code_nonempty by (cases cs) auto
  then have n: "0 < n" by (simp add: n_def)
  have l: "sg_len s = n" using assms(3) by (simp add: str_holds_def n_def)
  obtain cells where c: "sg_chars s = Some cells" using assms(3) n by (cases "sg_chars s") (auto simp: str_holds_def n_def)
  have "read_units 0 n s = Inr (map Some (map unat ?us))"
    using holds_window [OF assms(3) c, of 0 "map unat ?us"] c by (simp add: read_units_def n_def)
  moreover have "map (of_nat \<circ> the) (map Some (map unat ?us)) = ?us" by (simp add: comp_def)
  moreover have "snd (snd (ConvertUTF16toUTF8 lenientConversion (3 * n - 1) ?us)) = bytes"
    using written_utf8 [OF assms(4,5)] by (simp add: bytes_def n_def)
  moreover have b: "length bytes + 1 \<le> 3 * n" using dropped_last_fits [OF assms(4,5)] by (simp add: bytes_def n_def)
  moreover have "u32 (n * 3) = 3 * n" using assms(6) by (simp add: u32_def n_def)
  moreover have "None \<notin> set (map Some (map unat ?us))" by auto
  ultimately have conv: "(let sz = u32 (sg_len s * 3); t1 = t\<lparr>sg_size := sz, sg_chars := Some (replicate (u32 (sz + 1)) None)\<rparr> in
      ebind (if sg_len s = 0 then Inr [] else read_units 0 (sg_len s) s) (\<lambda>cells.
        if None \<in> set cells then Inl Uninitialised
        else let bytes = snd (snd (ConvertUTF16toUTF8 lenientConversion (sz - 1) (map (of_nat \<circ> the) cells)))
          in ebind (write_units 0 (map (Some \<circ> unat) bytes) t1) (\<lambda>t2.
               write_units (length bytes + 1) [Some 0] (t2\<lparr>sg_len := length bytes\<rparr>)))) =
      Inr (t\<lparr>sg_size := 3 * n, sg_len := length bytes,
        sg_chars := Some (map (Some \<circ> unat) bytes @ None # Some 0 # replicate (3 * n - 1 - length bytes) None)\<rparr>)" for t
    using utf8_buffer [OF b, of t] assms(6) n by (simp only: l Let_def ebind_simps if_False) (simp add: n_def)
  obtain f1 t where r: "newStrUTF16_8 [] f = Inr (?a, f1)" "factory_ok f1 (as @ [?a])" "sf_objects f1 = sf_objects f @ [t]"
    using newStrUTF16_8_empty [OF factory_life_ok [OF assms(1)] assms(2)] .
  have t: "sf_objects f1 ! ?a = t" "?a \<in> set (as @ [?a])" using r(3) by simp_all
  note u = update_string_ok(1) [OF r(2) t(2), unfolded t(1), OF conv]
  show ?thesis unfolding toUTF8_UTF16_def r(1) using u r(3) by simp
qed

theorem toUTF8_drops_last_witness:
  "\<exists>f' cells. toUTF8_UTF16 \<lparr>sg_len = 1, sg_size = 2, sg_chars = Some [Some 0x20AC, Some 0], sg_wide = True, sg_index = 0\<rparr>
      (antlr3StringFactoryNew True) = Inr (0, f') \<and> sg_len (sf_objects f' ! 0) = 0 \<and>
    sg_chars (sf_objects f' ! 0) = Some (None # Some 0 # cells)"
  using toUTF8_drops_last [OF start [of True], of "\<lparr>sg_len = 1, sg_size = 2, sg_chars = Some [Some 0x20AC, Some 0], sg_wide = True, sg_index = 0\<rparr>"
      "[0x20AC]"]
  by (simp add: str_holds_def scalar_unat utf16_code_def utf16_nat_def utf8_code_def utf8_nat_def antlr3StringFactoryNew_def)

text \<open>An empty string is converted into a buffer of one byte, and the zero is written behind it.\<close>

lemma toUTF8_empty:
  assumes "factory_ok f as" "sf_wide f" "sg_len s = 0"
  shows "toUTF8_UTF16 s f = Inl Bad_Index"
proof -
  obtain f1 t where r: "newStrUTF16_8 [] f = Inr (length (sf_objects f), f1)" "factory_ok f1 (as @ [length (sf_objects f)])"
    using newStrUTF16_8_empty [OF assms(1,2)] by metis
  have "length (sf_objects f) < length (sf_objects f1)" "length (sf_objects f) \<notin> set (sf_freed f1)"
    using factory_okD(4) [OF r(2), of "length (sf_objects f)"] by simp_all
  then show ?thesis using r(1) assms(3)
    by (simp add: toUTF8_UTF16_def update_string_def u32_def write_units_def ConvertUTF16toUTF8.simps)
qed

end
