(* ===== verification/Antlr_Charsets.thy ===== *)
theory Antlr_Charsets
  imports Antlr_Input Antlr_Utf "HOL-Library.Monad_Syntax"
begin

text \<open>
  The input stream for all its character sets (\<^verbatim>\<open>antlr3inputstream.c\<close>). A stream is a pointer into a block of
  memory, the block being longer than \<^verbatim>\<open>sizeBuf\<close> when the caller has it so; pointers are
  offsets into the block and a read outside of it has no result (\<open>None\<close>). The functions that a set-up installs are
  values of \<open>consume_fn\<close>, \<open>LA_fn\<close> and \<open>seek_fn\<close>, and \<open>stream_consume\<close>, \<open>stream_LA\<close> and \<open>stream_seek\<close> call the installed one.
  The byte order of the machine, on which the result of a wide read depends, is the argument \<open>big\<close>. The table of markers is the list that the
  growing array of another theory implements.

  The interface \<open>encoded_stream\<close> says what a reader relies on: at the code of a character the stream shows the character and
  consumes its code. Every such stream is an \<open>int_stream\<close>, so that the automata of the lexer read from it the characters of the text. The streams
  for 8 bit characters, UTF-8, UTF-16 in the order of the machine, UTF-32 in either order and EBCDIC are instances; those
  that see the ends of lines are also instances of \<open>line_stream\<close>.
\<close>

unbundle bit_operations_syntax

section \<open>The state\<close>

datatype consume_fn = Consume_8Bit | Consume_UTF8 | Consume_UTF16 | Consume_UTF16LE | Consume_UTF16BE | Consume_UTF32

datatype LA_fn = LA_8Bit | LA_8Bit_ucase | LA_UTF8 | LA_EBCDIC
  | LA_UTF16 | LA_UTF16LE | LA_UTF16BE | LA_UTF32 | LA_UTF32LE | LA_UTF32BE

datatype seek_fn = Seek_8Bit | Seek_UTF16 | Seek_UTF32

datatype substr_fn = Substr_8Bit | Substr_UTF16 | Substr_UTF32

text \<open>\<^verbatim>\<open>ANTLR3_LEX_STATE\<close> and the fields of \<^verbatim>\<open>ANTLR3_INPUT_STREAM\<close> and its \<^verbatim>\<open>ANTLR3_INT_STREAM\<close>.\<close>

record LEX_STATE =
  ls_nextChar :: int
  ls_line :: "32 word"
  ls_currentLine :: int
  ls_charPos :: "32 word"

record INPUT_STREAM =
  st_data :: "UTF8 list"
  st_sizeBuf :: nat
  st_nextChar :: int
  st_line :: "32 word"
  st_charPos :: "32 word"
  st_currentLine :: int
  st_newlineChar :: UTF32
  st_markers :: "LEX_STATE list"
  st_markDepth :: "32 word"
  st_lastMarker :: int
  st_consume :: consume_fn
  st_LA :: LA_fn
  st_seek :: seek_fn
  st_substr :: substr_fn
  st_charByteSize :: nat

definition CHARSTREAM_EOF :: UTF32 where
  "CHARSTREAM_EOF = 0xFFFFFFFF"

section \<open>Reading memory\<close>

definition byte :: "INPUT_STREAM \<Rightarrow> int \<Rightarrow> UTF8 option" where
  "byte st p = (if 0 \<le> p \<and> p < int (length (st_data st)) then Some (st_data st ! nat p) else None)"

definition bytes :: "INPUT_STREAM \<Rightarrow> int \<Rightarrow> nat \<Rightarrow> UTF8 list option" where
  "bytes st p n =
     (if 0 \<le> p \<and> p + int n \<le> int (length (st_data st)) then Some (take n (drop (nat p) (st_data st))) else None)"

text \<open>The number that bytes stand for, the first one the least significant one.\<close>

fun number :: "UTF8 list \<Rightarrow> UTF32" where
  "number [] = 0"
| "number (b # bs) = ucast b + push_bit 8 (number bs)"

text \<open>A read through a pointer to integers of \<open>n\<close> bytes.\<close>

definition wide_read :: "nat \<Rightarrow> bool \<Rightarrow> INPUT_STREAM \<Rightarrow> int \<Rightarrow> UTF32 option" where
  "wide_read n big st p = map_option (\<lambda>bs. number (if big then rev bs else bs)) (bytes st p n)"

definition buffer_end :: "INPUT_STREAM \<Rightarrow> int \<Rightarrow> bool" where
  "buffer_end st p \<longleftrightarrow> int (st_sizeBuf st) \<le> p"

section \<open>Consuming\<close>

text \<open>
  The fields of the line when a character is consumed: one more character, and a new line that starts at \<open>start\<close>
  behind a newline.
\<close>

definition count_char :: "bool \<Rightarrow> int \<Rightarrow> INPUT_STREAM \<Rightarrow> INPUT_STREAM" where
  "count_char newline start st =
     (if newline then st\<lparr>st_line := st_line st + 1, st_charPos := 0, st_currentLine := start\<rparr>
      else st\<lparr>st_charPos := st_charPos st + 1\<rparr>)"

definition consume8Bit :: "INPUT_STREAM \<Rightarrow> INPUT_STREAM option" where
  "consume8Bit st =
     (let p = st_nextChar st in
      if buffer_end st p then Some st
      else do {
        c \<leftarrow> byte st p;
        Some ((count_char (ucast c = st_newlineChar st) (p + 1) st)\<lparr>st_nextChar := p + 1\<rparr>)
      })"

text \<open>
  The step over a character of UTF-16: a unit and, behind a high surrogate, a low surrogate. The units are read
  by \<open>rd\<close> and are \<open>w\<close> bytes apart.
\<close>

definition skip16 :: "(INPUT_STREAM \<Rightarrow> int \<Rightarrow> UTF32 option) \<Rightarrow> int \<Rightarrow> INPUT_STREAM \<Rightarrow> int \<Rightarrow> int option" where
  "skip16 rd w st p =
     do {
       ch \<leftarrow> rd st p;
       if is_high ch \<and> \<not> buffer_end st (p + w) then do {
         ch2 \<leftarrow> rd st (p + w);
         Some (if is_low ch2 then p + w + w else p + w)
       }
       else Some (p + w)
     }"

definition consume16 :: "bool \<Rightarrow> (INPUT_STREAM \<Rightarrow> int \<Rightarrow> UTF32 option) \<Rightarrow> INPUT_STREAM \<Rightarrow> INPUT_STREAM option" where
  "consume16 big rd st =
     (let p = st_nextChar st in
      if buffer_end st p then Some st
      else do {
        nl \<leftarrow> wide_read 2 big st p;
        q \<leftarrow> skip16 rd 2 st p;
        Some ((count_char (nl = st_newlineChar st) (p + 2) st)\<lparr>st_nextChar := q\<rparr>)
      })"

definition consumeUTF16 :: "bool \<Rightarrow> INPUT_STREAM \<Rightarrow> INPUT_STREAM option" where
  "consumeUTF16 big = consume16 big (wide_read 2 big)"

definition consumeUTF16LE :: "bool \<Rightarrow> INPUT_STREAM \<Rightarrow> INPUT_STREAM option" where
  "consumeUTF16LE big =
     consume16 big (\<lambda>st p. do { a \<leftarrow> byte st p; b \<leftarrow> byte st (p + 1); Some (ucast a + push_bit 8 (ucast b)) })"

definition consumeUTF16BE :: "bool \<Rightarrow> INPUT_STREAM \<Rightarrow> INPUT_STREAM option" where
  "consumeUTF16BE big =
     consume16 big (\<lambda>st p. do { a \<leftarrow> byte st (p + 1); b \<leftarrow> byte st p; Some (ucast a + push_bit 8 (ucast b)) })"

definition consumeUTF32 :: "bool \<Rightarrow> INPUT_STREAM \<Rightarrow> INPUT_STREAM option" where
  "consumeUTF32 big st =
     (let p = st_nextChar st in
      if buffer_end st p then Some st
      else do {
        c \<leftarrow> wide_read 4 big st p;
        Some ((count_char (c = st_newlineChar st) (p + 4) st)\<lparr>st_nextChar := p + 4\<rparr>)
      })"

text \<open>The character at \<open>p\<close> in UTF-8, with its number of trailing bytes.\<close>

definition decode8 :: "INPUT_STREAM \<Rightarrow> int \<Rightarrow> nat \<Rightarrow> UTF32 option" where
  "decode8 st p extraBytesToRead =
     do {
       bs \<leftarrow> bytes st p (extraBytesToRead + 1);
       Some (get_bytes extraBytesToRead 0 bs - offsetsFromUTF8 ! extraBytesToRead)
     }"

definition consumeUTF8 :: "INPUT_STREAM \<Rightarrow> INPUT_STREAM option" where
  "consumeUTF8 st =
     (let p = st_nextChar st in
      if buffer_end st p then Some st
      else do {
        b \<leftarrow> byte st p;
        let extraBytesToRead = trailingBytesForUTF8 ! unat b;
        if buffer_end st (p + int extraBytesToRead) then
          Some (st\<lparr>st_charPos := st_charPos st + 1, st_nextChar := int (st_sizeBuf st)\<rparr>)
        else do {
          ch \<leftarrow> decode8 st p extraBytesToRead;
          let q = p + int extraBytesToRead + 1;
          Some ((count_char (ch = st_newlineChar st) q st)\<lparr>st_nextChar := q\<rparr>)
        }
      })"

definition stream_consume :: "bool \<Rightarrow> INPUT_STREAM \<Rightarrow> INPUT_STREAM option" where
  "stream_consume big st =
     (case st_consume st of
        Consume_8Bit \<Rightarrow> consume8Bit st
      | Consume_UTF8 \<Rightarrow> consumeUTF8 st
      | Consume_UTF16 \<Rightarrow> consumeUTF16 big st
      | Consume_UTF16LE \<Rightarrow> consumeUTF16LE big st
      | Consume_UTF16BE \<Rightarrow> consumeUTF16BE big st
      | Consume_UTF32 \<Rightarrow> consumeUTF32 big st)"

section \<open>Looking ahead\<close>

definition la_byte :: "(UTF8 \<Rightarrow> UTF32) \<Rightarrow> INPUT_STREAM \<Rightarrow> int \<Rightarrow> UTF32 option" where
  "la_byte f st la =
     (if buffer_end st (st_nextChar st + la - 1) then Some CHARSTREAM_EOF
      else map_option f (byte st (st_nextChar st + la - 1)))"

text \<open>\<^verbatim>\<open>toupper\<close> in the C locale.\<close>

definition toupper :: "UTF8 \<Rightarrow> UTF8" where
  "toupper b = (if 0x61 \<le> b \<and> b \<le> 0x7A then b - 0x20 else b)"

definition la8Bit :: "INPUT_STREAM \<Rightarrow> int \<Rightarrow> UTF32 option" where
  "la8Bit = la_byte ucast"

definition la8Bit_ucase :: "INPUT_STREAM \<Rightarrow> int \<Rightarrow> UTF32 option" where
  "la8Bit_ucase = la_byte (\<lambda>b. ucast (toupper b))"

definition e2a :: "UTF32 list" where
  "e2a = [
     0x00, 0x01, 0x02, 0x03, 0x85, 0x09, 0x86, 0x7f, 0x87, 0x8d, 0x8e, 0x0b, 0x0c, 0x0d, 0x0e, 0x0f,
     0x10, 0x11, 0x12, 0x13, 0x8f, 0x0a, 0x08, 0x97, 0x18, 0x19, 0x9c, 0x9d, 0x1c, 0x1d, 0x1e, 0x1f,
     0x80, 0x81, 0x82, 0x83, 0x84, 0x92, 0x17, 0x1b, 0x88, 0x89, 0x8a, 0x8b, 0x8c, 0x05, 0x06, 0x07,
     0x90, 0x91, 0x16, 0x93, 0x94, 0x95, 0x96, 0x04, 0x98, 0x99, 0x9a, 0x9b, 0x14, 0x15, 0x9e, 0x1a,
     0x20, 0xa0, 0xe2, 0xe4, 0xe0, 0xe1, 0xe3, 0xe5, 0xe7, 0xf1, 0x60, 0x2e, 0x3c, 0x28, 0x2b, 0x7c,
     0x26, 0xe9, 0xea, 0xeb, 0xe8, 0xed, 0xee, 0xef, 0xec, 0xdf, 0x21, 0x24, 0x2a, 0x29, 0x3b, 0x9f,
     0x2d, 0x2f, 0xc2, 0xc4, 0xc0, 0xc1, 0xc3, 0xc5, 0xc7, 0xd1, 0x5e, 0x2c, 0x25, 0x5f, 0x3e, 0x3f,
     0xf8, 0xc9, 0xca, 0xcb, 0xc8, 0xcd, 0xce, 0xcf, 0xcc, 0xa8, 0x3a, 0x23, 0x40, 0x27, 0x3d, 0x22,
     0xd8, 0x61, 0x62, 0x63, 0x64, 0x65, 0x66, 0x67, 0x68, 0x69, 0xab, 0xbb, 0xf0, 0xfd, 0xfe, 0xb1,
     0xb0, 0x6a, 0x6b, 0x6c, 0x6d, 0x6e, 0x6f, 0x70, 0x71, 0x72, 0xaa, 0xba, 0xe6, 0xb8, 0xc6, 0xa4,
     0xb5, 0xaf, 0x73, 0x74, 0x75, 0x76, 0x77, 0x78, 0x79, 0x7a, 0xa1, 0xbf, 0xd0, 0xdd, 0xde, 0xae,
     0xa2, 0xa3, 0xa5, 0xb7, 0xa9, 0xa7, 0xb6, 0xbc, 0xbd, 0xbe, 0xac, 0x5b, 0x5c, 0x5d, 0xb4, 0xd7,
     0xf9, 0x41, 0x42, 0x43, 0x44, 0x45, 0x46, 0x47, 0x48, 0x49, 0xad, 0xf4, 0xf6, 0xf2, 0xf3, 0xf5,
     0xa6, 0x4a, 0x4b, 0x4c, 0x4d, 0x4e, 0x4f, 0x50, 0x51, 0x52, 0xb9, 0xfb, 0xfc, 0xdb, 0xfa, 0xff,
     0xd9, 0xf7, 0x53, 0x54, 0x55, 0x56, 0x57, 0x58, 0x59, 0x5a, 0xb2, 0xd4, 0xd6, 0xd2, 0xd3, 0xd5,
     0x30, 0x31, 0x32, 0x33, 0x34, 0x35, 0x36, 0x37, 0x38, 0x39, 0xb3, 0x7b, 0xdc, 0x7d, 0xda, 0x7e]"

definition laEBCDIC :: "INPUT_STREAM \<Rightarrow> int \<Rightarrow> UTF32 option" where
  "laEBCDIC = la_byte (\<lambda>b. e2a ! unat b)"

text \<open>UTF-16: the loop over the characters in front of the one that is asked for.\<close>

fun forward16 :: "(INPUT_STREAM \<Rightarrow> int \<Rightarrow> UTF32 option) \<Rightarrow> int \<Rightarrow> INPUT_STREAM \<Rightarrow> nat \<Rightarrow> int \<Rightarrow> int option" where
  "forward16 rd w st 0 p = Some p"
| "forward16 rd w st (Suc n) p =
     (if buffer_end st p then Some p else do { q \<leftarrow> skip16 rd w st p; forward16 rd w st n q })"

text \<open>
  The loop backwards; \<open>prev\<close> reads what is taken for the unit in front of the pointer.
\<close>

fun backward16 :: "(INPUT_STREAM \<Rightarrow> int \<Rightarrow> UTF32 option) \<Rightarrow> int \<Rightarrow> INPUT_STREAM \<Rightarrow> nat \<Rightarrow> int \<Rightarrow> int option" where
  "backward16 prev w st 0 p = Some p"
| "backward16 prev w st (Suc n) p =
     (if 0 < p then do {
        ch \<leftarrow> prev st p;
        q \<leftarrow> (if is_low ch then do {
                ch2 \<leftarrow> prev st (p - w);
                Some (if is_high ch2 then p - w - w else p - w)
              }
              else Some (p - w));
        backward16 prev w st n q
      }
      else Some p)"

definition la16 :: "(INPUT_STREAM \<Rightarrow> int \<Rightarrow> UTF32 option) \<Rightarrow> (INPUT_STREAM \<Rightarrow> int \<Rightarrow> UTF32 option) \<Rightarrow> int \<Rightarrow>
    INPUT_STREAM \<Rightarrow> int \<Rightarrow> UTF32 option" where
  "la16 rd prev w st la =
     do {
       p \<leftarrow> (if 0 \<le> la then forward16 rd w st (nat (la - 1)) (st_nextChar st)
             else backward16 prev w st (nat (- la)) (st_nextChar st));
       if buffer_end st p then Some CHARSTREAM_EOF
       else do {
         ch \<leftarrow> rd st p;
         if is_high ch \<and> \<not> buffer_end st (p + w) then do {
           ch2 \<leftarrow> rd st (p + w);
           Some (if is_low ch2 then join_pair ch ch2 else ch)
         }
         else Some ch
       }
     }"

definition laUTF16 :: "bool \<Rightarrow> INPUT_STREAM \<Rightarrow> int \<Rightarrow> UTF32 option" where
  "laUTF16 big = la16 (wide_read 2 big) (\<lambda>st p. wide_read 2 big st (p - 2)) 2"

text \<open>
  For the other byte order the pointer is declared as one to 32 bit characters, so that the ``bytes'' that are put together are
  32 bit integers and the units are eight bytes apart. Backwards, 2 and 1 are subtracted from
  the integer that is read, not from the pointer.
\<close>

definition laUTF16LE :: "bool \<Rightarrow> INPUT_STREAM \<Rightarrow> int \<Rightarrow> UTF32 option" where
  "laUTF16LE big =
     la16 (\<lambda>st p. do { a \<leftarrow> wide_read 4 big st p; b \<leftarrow> wide_read 4 big st (p + 4); Some (a + push_bit 8 b) })
          (\<lambda>st p. do { a \<leftarrow> wide_read 4 big st p; Some ((a - 2) + push_bit 8 (a - 1)) }) 8"

definition laUTF16BE :: "bool \<Rightarrow> INPUT_STREAM \<Rightarrow> int \<Rightarrow> UTF32 option" where
  "laUTF16BE big =
     la16 (\<lambda>st p. do { a \<leftarrow> wide_read 4 big st p; b \<leftarrow> wide_read 4 big st (p + 4); Some (push_bit 8 a + b) })
          (\<lambda>st p. do { a \<leftarrow> wide_read 4 big st p; Some (push_bit 8 (a - 2) + (a - 1)) }) 8"

text \<open>UTF-32: the test adds \<open>la - 1\<close> to a pointer to bytes, the access to a pointer to 32 bit integers.\<close>

definition la32 :: "(UTF32 \<Rightarrow> UTF32) \<Rightarrow> bool \<Rightarrow> INPUT_STREAM \<Rightarrow> int \<Rightarrow> UTF32 option" where
  "la32 f big st la =
     (if buffer_end st (st_nextChar st + la - 1) then Some CHARSTREAM_EOF
      else map_option f (wide_read 4 big st (st_nextChar st + 4 * (la - 1))))"

definition swap32 :: "UTF32 \<Rightarrow> UTF32" where
  "swap32 c = drop_bit 24 c OR (push_bit 8 c AND 0x00FF0000) OR (drop_bit 8 c AND 0x0000FF00) OR push_bit 24 c"

definition laUTF32 :: "bool \<Rightarrow> INPUT_STREAM \<Rightarrow> int \<Rightarrow> UTF32 option" where
  "laUTF32 = la32 (\<lambda>c. c)"

definition laUTF32LE :: "bool \<Rightarrow> INPUT_STREAM \<Rightarrow> int \<Rightarrow> UTF32 option" where
  "laUTF32LE = la32 swap32"

definition laUTF32BE :: "bool \<Rightarrow> INPUT_STREAM \<Rightarrow> int \<Rightarrow> UTF32 option" where
  "laUTF32BE = la32 swap32"

text \<open>UTF-8: the loop forwards returns \<open>None\<close> inside when it runs over the end of the buffer.\<close>

fun forward8 :: "INPUT_STREAM \<Rightarrow> nat \<Rightarrow> int \<Rightarrow> int option option" where
  "forward8 st 0 p = Some (Some p)"
| "forward8 st (Suc n) p =
     do {
       b \<leftarrow> byte st p;
       let q = p + int (trailingBytesForUTF8 ! unat b) + 1;
       if buffer_end st q then Some None else forward8 st n q
     }"

function lead8 :: "INPUT_STREAM \<Rightarrow> int \<Rightarrow> int option" where
  "lead8 st p = do { b \<leftarrow> byte st p; if b AND 0xC0 = 0x80 then lead8 st (p - 1) else Some p }"
  by pat_completeness auto
termination
  by (relation "measure (\<lambda>(st, p). nat (p + 1))") (auto simp: byte_def split: if_splits)

declare lead8.simps [simp del]

fun backward8 :: "INPUT_STREAM \<Rightarrow> nat \<Rightarrow> int \<Rightarrow> int option" where
  "backward8 st 0 p = Some p"
| "backward8 st (Suc n) p = (if 0 < p then do { q \<leftarrow> lead8 st (p - 1); backward8 st n q } else Some p)"

definition laUTF8 :: "INPUT_STREAM \<Rightarrow> int \<Rightarrow> UTF32 option" where
  "laUTF8 st la =
     do {
       r \<leftarrow> (if 1 < la then
               (if buffer_end st (st_nextChar st) then Some None else forward8 st (nat (la - 1)) (st_nextChar st))
             else map_option Some (backward8 st (nat (- la)) (st_nextChar st)));
       case r of
         None \<Rightarrow> Some CHARSTREAM_EOF
       | Some p \<Rightarrow> do {
           b \<leftarrow> byte st p;
           let extraBytesToRead = trailingBytesForUTF8 ! unat b;
           if buffer_end st (p + int extraBytesToRead) then Some CHARSTREAM_EOF else decode8 st p extraBytesToRead
         }
     }"

definition stream_LA :: "bool \<Rightarrow> INPUT_STREAM \<Rightarrow> int \<Rightarrow> UTF32 option" where
  "stream_LA big st la =
     (case st_LA st of
        LA_8Bit \<Rightarrow> la8Bit st la
      | LA_8Bit_ucase \<Rightarrow> la8Bit_ucase st la
      | LA_UTF8 \<Rightarrow> laUTF8 st la
      | LA_EBCDIC \<Rightarrow> laEBCDIC st la
      | LA_UTF16 \<Rightarrow> laUTF16 big st la
      | LA_UTF16LE \<Rightarrow> laUTF16LE big st la
      | LA_UTF16BE \<Rightarrow> laUTF16BE big st la
      | LA_UTF32 \<Rightarrow> laUTF32 big st la
      | LA_UTF32LE \<Rightarrow> laUTF32LE big st la
      | LA_UTF32BE \<Rightarrow> laUTF32BE big st la)"

section \<open>What a reader relies on\<close>

definition unread :: "INPUT_STREAM \<Rightarrow> UTF8 list" where
  "unread st = drop (nat (st_nextChar st)) (take (st_sizeBuf st) (st_data st))"

text \<open>
  A stream with the given functions, its pointer in the buffer and \<open>beyond\<close> bytes of memory behind the buffer.
\<close>

definition installed :: "LA_fn \<Rightarrow> consume_fn \<Rightarrow> nat \<Rightarrow> INPUT_STREAM \<Rightarrow> bool" where
  "installed laf cf beyond st \<longleftrightarrow> st_LA st = laf \<and> st_consume st = cf \<and> 0 \<le> st_nextChar st \<and>
     st_nextChar st \<le> int (st_sizeBuf st) \<and> st_sizeBuf st + beyond \<le> length (st_data st)"

text \<open>What consuming leaves alone.\<close>

definition same_buffer :: "INPUT_STREAM \<Rightarrow> INPUT_STREAM \<Rightarrow> bool" where
  "same_buffer st st' \<longleftrightarrow> st_data st' = st_data st \<and> st_sizeBuf st' = st_sizeBuf st \<and> st_newlineChar st' = st_newlineChar st \<and>
     st_markers st' = st_markers st \<and> st_markDepth st' = st_markDepth st \<and> st_lastMarker st' = st_lastMarker st \<and>
     st_consume st' = st_consume st \<and> st_LA st' = st_LA st \<and> st_seek st' = st_seek st \<and>
     st_substr st' = st_substr st \<and> st_charByteSize st' = st_charByteSize st"

locale encoded_stream =
  fixes legal :: "UTF32 \<Rightarrow> bool" and code :: "UTF32 \<Rightarrow> UTF8 list" and ok :: "INPUT_STREAM \<Rightarrow> bool"
    and show_char :: "INPUT_STREAM \<Rightarrow> int \<Rightarrow> UTF32 option" and eat :: "INPUT_STREAM \<Rightarrow> INPUT_STREAM option"
  assumes legal_bound: "legal c \<Longrightarrow> uint c < 2147483648"
    and show_end: "ok st \<Longrightarrow> unread st = [] \<Longrightarrow> show_char st 1 = Some CHARSTREAM_EOF"
    and show_code: "ok st \<Longrightarrow> legal c \<Longrightarrow> unread st = code c @ us \<Longrightarrow> show_char st 1 = Some c"
    and eat_end: "ok st \<Longrightarrow> unread st = [] \<Longrightarrow> eat st = Some st"
    and eat_code: "ok st \<Longrightarrow> legal c \<Longrightarrow> unread st = code c @ us \<Longrightarrow>
      \<exists>st'. eat st = Some st' \<and> ok st' \<and> unread st' = us"
begin

definition holds_text :: "INPUT_STREAM \<Rightarrow> UTF32 list \<Rightarrow> bool" where
  "holds_text st cs \<longleftrightarrow> ok st \<and> list_all legal cs \<and> unread st = text_of code cs"

lemma show_text:
  "holds_text st [] \<Longrightarrow> show_char st 1 = Some CHARSTREAM_EOF"
  "holds_text st (c # cs) \<Longrightarrow> show_char st 1 = Some c \<and> c \<noteq> CHARSTREAM_EOF"
proof -
  show "holds_text st [] \<Longrightarrow> show_char st 1 = Some CHARSTREAM_EOF" by (simp add: holds_text_def show_end)
  assume "holds_text st (c # cs)"
  then have "ok st" "legal c" "unread st = code c @ text_of code cs" by (simp_all add: holds_text_def)
  then show "show_char st 1 = Some c \<and> c \<noteq> CHARSTREAM_EOF"
    using show_code [of st c] legal_bound [of c] by (auto simp: CHARSTREAM_EOF_def)
qed

lemma eat_text:
  "holds_text st [] \<Longrightarrow> eat st = Some st"
  "holds_text st (c # cs) \<Longrightarrow> \<exists>st'. eat st = Some st' \<and> holds_text st' cs"
proof -
  show "holds_text st [] \<Longrightarrow> eat st = Some st" by (simp add: holds_text_def eat_end)
  assume "holds_text st (c # cs)"
  then have "ok st" "legal c" "unread st = code c @ text_of code cs" "list_all legal cs" by (simp_all add: holds_text_def)
  then show "\<exists>st'. eat st = Some st' \<and> holds_text st' cs" using eat_code [of st c] by (fastforce simp: holds_text_def)
qed

lemma text_unique: "holds_text st cs \<Longrightarrow> holds_text st ds \<Longrightarrow> cs = ds"
proof (induction cs arbitrary: st ds)
  case Nil
  then show ?case using show_text [of st] by (cases ds) auto
next
  case (Cons c cs)
  show ?case
  proof (cases ds)
    case Nil
    then show ?thesis using Cons.prems show_text [of st] by auto
  next
    case (Cons d ds')
    obtain st' where "eat st = Some st'" "holds_text st' cs" using eat_text(2) [OF Cons.prems(1)] by blast
    moreover have "c = d" "\<exists>st'. eat st = Some st' \<and> holds_text st' ds'"
      using Cons Cons.prems show_text(2) [of st c cs] show_text(2) [of st d ds'] eat_text(2) [of st d ds'] by auto
    ultimately show ?thesis using Cons.IH [of st' ds'] Cons by auto
  qed
qed

lemma the_text: "holds_text st cs \<Longrightarrow> (THE ds. holds_text st ds) = cs"
  by (rule the_equality) (auto dest: text_unique)

end

text \<open>The automata read the text.\<close>

sublocale encoded_stream \<subseteq> int_stream "\<lambda>st. \<exists>cs. holds_text st cs" "\<lambda>st. uint (the (show_char st 1))" "\<lambda>st. the (eat st)"
  "\<lambda>st. map uint (THE cs. holds_text st cs)"
proof
  fix st :: INPUT_STREAM and c :: int and cs :: "int list"
  assume "\<exists>cs. holds_text st cs"
  then obtain ds where ds: "holds_text st ds" by blast
  note [simp] = the_text [OF ds]
  show "\<exists>cs. holds_text (the (eat st)) cs"
  proof (cases ds)
    case Nil
    then show ?thesis using ds eat_text(1) [of st] by auto
  next
    case (Cons d ds')
    then show ?thesis using ds eat_text(2) [of st d ds'] by auto
  qed
  show "map uint (THE cs. holds_text st cs) = [] \<Longrightarrow> uint (the (show_char st 1)) = ANTLR3_CHARSTREAM_EOF"
    using ds show_text(1) [of st] by (simp add: ANTLR3_CHARSTREAM_EOF_def CHARSTREAM_EOF_def)
  assume "map uint (THE cs. holds_text st cs) = c # cs"
  then obtain d ds' where d: "ds = d # ds'" "uint d = c" "map uint ds' = cs" by auto
  then show "uint (the (show_char st 1)) = c" using ds show_text(2) [of st d ds'] by simp
  show "0 \<le> c \<and> c < 2147483648" using d ds legal_bound [of d] by (auto simp: holds_text_def)
  obtain st' where "eat st = Some st'" "holds_text st' ds'" using eat_text(2) [of st d ds'] ds d(1) by auto
  then show "map uint (THE cs. holds_text (the (eat st)) cs) = cs" using the_text d(3) by simp
qed

context encoded_stream
begin

lemma predict_text: "wf_dfa d \<Longrightarrow> holds_text st cs \<Longrightarrow>
    antlr3dfapredict (\<lambda>st. uint (the (show_char st 1))) (\<lambda>st. the (eat st)) d st = Some (dfa_walk d 0 (map uint cs))"
  using predict_walk [of d st] the_text [of st cs] by auto

end

text \<open>Consuming several characters.\<close>

primrec eats :: "(INPUT_STREAM \<Rightarrow> INPUT_STREAM option) \<Rightarrow> nat \<Rightarrow> INPUT_STREAM \<Rightarrow> INPUT_STREAM option" where
  "eats eat 0 st = Some st"
| "eats eat (Suc n) st = do { st' \<leftarrow> eat st; eats eat n st' }"

text \<open>The place in the line behind some characters.\<close>

definition column :: "UTF32 \<Rightarrow> UTF32 list \<Rightarrow> 32 word \<Rightarrow> 32 word" where
  "column nl cs pos =
     (if nl \<in> set cs then of_nat (length (takeWhile (\<lambda>c. c \<noteq> nl) (rev cs))) else pos + of_nat (length cs))"

lemma column_Cons: "column nl (c # cs) pos = column nl cs (if c = nl then 0 else pos + 1)"
  by (auto simp: column_def takeWhile_tail takeWhile_append)

locale line_stream = encoded_stream +
  assumes eat_line: "ok st \<Longrightarrow> legal c \<Longrightarrow> unread st = code c @ us \<Longrightarrow>
    eat st = Some ((count_char (c = st_newlineChar st) (st_nextChar st + int (length (code c))) st)
      \<lparr>st_nextChar := st_nextChar st + int (length (code c))\<rparr>)"
begin

lemma eat_text_line:
  assumes "holds_text st (c # cs)"
  shows "\<exists>st'. eat st = Some st' \<and> holds_text st' cs \<and> st_newlineChar st' = st_newlineChar st \<and>
    st_line st' = st_line st + (if c = st_newlineChar st then 1 else 0) \<and>
    st_charPos st' = (if c = st_newlineChar st then 0 else st_charPos st + 1)"
proof -
  have "ok st" "legal c" "unread st = code c @ text_of code cs" using assms by (simp_all add: holds_text_def)
  from eat_line [OF this] eat_text(2) [OF assms] show ?thesis by (auto simp: count_char_def)
qed

lemma lines_counted:
  "holds_text st (cs @ ds) \<Longrightarrow> \<exists>st'. eats eat (length cs) st = Some st' \<and> holds_text st' ds \<and>
    st_line st' = st_line st + of_nat (count_list cs (st_newlineChar st)) \<and>
    st_charPos st' = column (st_newlineChar st) cs (st_charPos st)"
proof (induction cs arbitrary: st)
  case Nil
  then show ?case by (simp add: column_def)
next
  case (Cons c cs)
  then have "holds_text st (c # (cs @ ds))" by simp
  from eat_text_line [OF this] obtain st1 where st1: "eat st = Some st1" "holds_text st1 (cs @ ds)"
    "st_newlineChar st1 = st_newlineChar st"
    "st_line st1 = st_line st + (if c = st_newlineChar st then 1 else 0)"
    "st_charPos st1 = (if c = st_newlineChar st then 0 else st_charPos st + 1)" by blast
  from Cons.IH [OF st1(2)] st1 show ?case by (auto simp: column_Cons)
qed

end

section \<open>Reading at the code of a character\<close>

definition in_buffer :: "INPUT_STREAM \<Rightarrow> bool" where
  "in_buffer st \<longleftrightarrow> 0 \<le> st_nextChar st \<and> st_nextChar st \<le> int (st_sizeBuf st) \<and> st_sizeBuf st \<le> length (st_data st)"

lemma installed_in_buffer: "installed laf cf beyond st \<Longrightarrow> in_buffer st"
  by (simp add: installed_def in_buffer_def)

lemma length_unread: "in_buffer st \<Longrightarrow> st_nextChar st + int (length (unread st)) = int (st_sizeBuf st)"
  by (auto simp: unread_def in_buffer_def)

lemma at_end_iff: "in_buffer st \<Longrightarrow> buffer_end st (st_nextChar st + int n) \<longleftrightarrow> length (unread st) \<le> n"
  using length_unread [of st] by (auto simp: buffer_end_def)

lemma at_end_next: "in_buffer st \<Longrightarrow> buffer_end st (st_nextChar st) \<longleftrightarrow> unread st = []"
  using at_end_iff [of st 0] by simp

lemma bytes_unread:
  assumes "in_buffer st" "unread st = pre @ bs @ us"
  shows "bytes st (st_nextChar st + int (length pre)) (length bs) = Some bs"
proof -
  let ?n = "nat (st_nextChar st)"
  have "take (length bs) (drop (length pre) (unread st)) = bs" using assms(2) by simp
  moreover have "length pre + length bs \<le> length (unread st)" using assms(2) by simp
  then have "length bs \<le> st_sizeBuf st - (length pre + ?n)" using assms(1) length_unread [OF assms(1)] unfolding in_buffer_def by linarith
  then have "take (length bs) (drop (length pre) (unread st)) = take (length bs) (drop (?n + length pre) (st_data st))"
    unfolding unread_def by (simp add: drop_take add.commute min_def)
  moreover have "nat (st_nextChar st + int (length pre)) = ?n + length pre" using assms(1) by (simp add: in_buffer_def nat_add_distrib)
  moreover have "st_nextChar st + int (length pre) + int (length bs) \<le> int (length (st_data st))"
    using assms(1) length_unread [OF assms(1)] assms(2) by (simp add: in_buffer_def)
  ultimately show ?thesis using assms(1) by (simp add: bytes_def in_buffer_def)
qed

lemma byte_unread:
  assumes "in_buffer st" "unread st = pre @ b # us"
  shows "byte st (st_nextChar st + int (length pre)) = Some b"
proof -
  have "bytes st (st_nextChar st + int (length pre)) 1 = Some [b]"
    using bytes_unread [of st pre "[b]" us] assms by simp
  then show ?thesis by (auto simp: bytes_def byte_def take_Suc drop_eq_Nil hd_drop_conv_nth split: if_splits)
qed

lemma unread_advance:
  assumes "in_buffer st" "unread st = bs @ us" "same_buffer st st'" "st_nextChar st' = st_nextChar st + int (length bs)"
  shows "unread st' = us" "in_buffer st'"
proof -
  have "nat (st_nextChar st') = length bs + nat (st_nextChar st)"
    using assms(1,4) by (simp add: in_buffer_def nat_add_distrib)
  then have "unread st' = drop (length bs) (unread st)" using assms(3) by (simp add: unread_def same_buffer_def)
  then show "unread st' = us" using assms(2) by simp
  show "in_buffer st'" using assms length_unread [OF assms(1)] by (auto simp: in_buffer_def same_buffer_def)
qed

lemma same_buffer_count [simp]: "same_buffer st ((count_char nl start st)\<lparr>st_nextChar := p\<rparr>)"
  by (simp add: same_buffer_def count_char_def)

lemma installed_advance:
  assumes "installed laf cf beyond st" "unread st = bs @ us" "same_buffer st st'" "st_nextChar st' = st_nextChar st + int (length bs)"
  shows "installed laf cf beyond st' \<and> unread st' = us"
proof -
  from assms(1) have "in_buffer st" by (rule installed_in_buffer)
  from unread_advance [OF this assms(2-4)] assms(1,3) show ?thesis by (auto simp: installed_def in_buffer_def same_buffer_def)
qed

lemma counted:
  assumes "installed laf cf beyond st" "unread st = bs @ us"
    "r = Some ((count_char nl start st)\<lparr>st_nextChar := st_nextChar st + int (length bs)\<rparr>)"
  shows "\<exists>st'. r = Some st' \<and> installed laf cf beyond st' \<and> unread st' = us"
  using installed_advance [OF assms(1,2) same_buffer_count] assms(3) by simp

section \<open>Character sets of one byte\<close>

lemma byte_here: "in_buffer st \<Longrightarrow> unread st = b # us \<Longrightarrow> byte st (st_nextChar st) = Some b"
  using byte_unread [of st "[]"] by simp

lemma la_byte_here:
  "in_buffer st \<Longrightarrow> unread st = [] \<Longrightarrow> la_byte f st 1 = Some CHARSTREAM_EOF"
  "in_buffer st \<Longrightarrow> unread st = b # us \<Longrightarrow> la_byte f st 1 = Some (f b)"
  by (simp_all add: la_byte_def at_end_next byte_here)

lemma consume8Bit_here:
  "in_buffer st \<Longrightarrow> unread st = [] \<Longrightarrow> consume8Bit st = Some st"
  "in_buffer st \<Longrightarrow> unread st = b # us \<Longrightarrow> consume8Bit st =
     Some ((count_char (ucast b = st_newlineChar st) (st_nextChar st + 1) st)\<lparr>st_nextChar := st_nextChar st + 1\<rparr>)"
  by (simp_all add: consume8Bit_def at_end_next byte_here Let_def)

definition latin1 :: "UTF32 \<Rightarrow> bool" where
  "latin1 c \<longleftrightarrow> c < 256"

lemma latin1_ucast: "latin1 c \<Longrightarrow> ucast (ucast c :: UTF8) = c"
  by (simp add: latin1_def word_less_nat_alt word_unat_eq_iff unsigned_ucast_eq unsigned_take_bit_eq take_bit_nat_eq_self)

lemma uint_small: "c < 0x80000000 \<Longrightarrow> uint c < 2147483648" for c :: UTF32
  by (simp add: word_less_def)

interpretation set8: line_stream latin1 "\<lambda>c. [ucast c]" "installed LA_8Bit Consume_8Bit 0" "stream_LA big" "stream_consume big" for big
proof unfold_locales
  fix st c us
  show "latin1 c \<Longrightarrow> uint c < 2147483648" by (rule uint_small) (auto simp: latin1_def elim: order.strict_trans)
  assume i: "installed LA_8Bit Consume_8Bit 0 st"
  note b = installed_in_buffer [OF i]
  have f: "stream_LA big st la = la_byte ucast st la" "stream_consume big st = consume8Bit st" for la using i by (simp_all add: installed_def stream_LA_def stream_consume_def la8Bit_def)
  show "unread st = [] \<Longrightarrow> stream_LA big st 1 = Some CHARSTREAM_EOF" "unread st = [] \<Longrightarrow> stream_consume big st = Some st"
    by (simp_all add: f la_byte_here consume8Bit_here b)
  assume c: "latin1 c" "unread st = [ucast c] @ us"
  show "stream_LA big st 1 = Some c" using c by (simp add: f la_byte_here b latin1_ucast)
  show e: "stream_consume big st = Some ((count_char (c = st_newlineChar st) (st_nextChar st + int (length [ucast c :: UTF8])) st)
      \<lparr>st_nextChar := st_nextChar st + int (length [ucast c :: UTF8])\<rparr>)"
    using c by (simp add: f consume8Bit_here b latin1_ucast)
  show "\<exists>st'. stream_consume big st = Some st' \<and> installed LA_8Bit Consume_8Bit 0 st' \<and> unread st' = us" by (rule counted [OF i c(2) e])
qed

text \<open>EBCDIC: the table is a permutation of the 256 characters, so that each of them has one code.\<close>

definition ebcdic_code :: "UTF32 \<Rightarrow> UTF8 list" where
  "ebcdic_code c = [of_nat (length (takeWhile (\<lambda>d. d \<noteq> c) e2a))]"

lemma length_e2a: "length e2a = 256"
  by (simp add: e2a_def)

lemma e2a_permutation: "map int [0..<256] = sort (map uint e2a)"
  by code_simp

lemma e2a_set: "c \<in> set e2a \<longleftrightarrow> latin1 c"
proof -
  have "uint ` set e2a = set (map int [0..<256])" by (metis e2a_permutation list.set_map set_sort)
  then have "c \<in> set e2a \<longleftrightarrow> uint c \<in> int ` {0..<256}" by (metis (no_types) image_iff image_set set_upt word_uint_eq_iff)
  also have "\<dots> \<longleftrightarrow> latin1 c" by (simp add: latin1_def word_less_def image_int_atLeastLessThan)
  finally show ?thesis .
qed

lemma ebcdic_decoded: "latin1 c \<Longrightarrow> e2a ! unat (hd (ebcdic_code c)) = c"
proof -
  assume "latin1 c"
  then have "length (takeWhile (\<lambda>d. d \<noteq> c) e2a) < length e2a"
    by (metis (mono_tags, lifting) e2a_set length_takeWhile_le linorder_not_less order.antisym takeWhile_eq_all_conv takeWhile_eq_take take_all)
  then show ?thesis using nth_length_takeWhile [of "\<lambda>d. d \<noteq> c" e2a]
    by (simp add: ebcdic_code_def length_e2a unat_of_nat take_bit_nat_eq_self)
qed

interpretation ebcdic: encoded_stream latin1 ebcdic_code "installed LA_EBCDIC Consume_8Bit 0" "stream_LA big" "stream_consume big" for big
proof unfold_locales
  fix st c us
  show "latin1 c \<Longrightarrow> uint c < 2147483648" by (rule uint_small) (auto simp: latin1_def elim: order.strict_trans)
  assume i: "installed LA_EBCDIC Consume_8Bit 0 st"
  note b = installed_in_buffer [OF i]
  have f: "stream_LA big st la = la_byte (\<lambda>b. e2a ! unat b) st la" "stream_consume big st = consume8Bit st" for la using i by (simp_all add: installed_def stream_LA_def stream_consume_def laEBCDIC_def)
  show "unread st = [] \<Longrightarrow> stream_LA big st 1 = Some CHARSTREAM_EOF" "unread st = [] \<Longrightarrow> stream_consume big st = Some st"
    by (simp_all add: f la_byte_here consume8Bit_here b)
  assume c: "latin1 c" "unread st = ebcdic_code c @ us"
  obtain x where x: "ebcdic_code c = [x]" by (simp add: ebcdic_code_def)
  then show "stream_LA big st 1 = Some c" using c ebcdic_decoded [OF c(1)] by (simp add: f la_byte_here b)
  show "\<exists>st'. stream_consume big st = Some st' \<and> installed LA_EBCDIC Consume_8Bit 0 st' \<and> unread st' = us"
    by (rule counted [OF i c(2)]) (use c x in \<open>simp add: f consume8Bit_here b; fast\<close>)
qed

section \<open>UTF-8\<close>

lemma utf8_shape:
  assumes "scalar c"
  obtains b bs where "utf8_code c = b # bs" "trailingBytesForUTF8 ! unat b = length bs"
    "get_bytes (length bs) 0 (b # bs) - offsetsFromUTF8 ! length bs = c"
proof -
  obtain b bs where c: "utf8_code c = b # bs" using utf8_code_nonempty [of c] by (cases "utf8_code c") auto
  let ?n = "trailingBytesForUTF8 ! unat b"
  have "next_utf8 (b # bs) = Inr (c, [])" using next_utf8_code [OF assms, of "[]"] c by simp
  then have "\<not> length (b # bs) \<le> ?n" "get_bytes ?n 0 (b # bs) - offsetsFromUTF8 ! ?n = c" "drop ?n bs = []"
    by (auto simp: next_utf8_def Let_def split: if_splits)
  moreover from this have "length bs = ?n" by simp
  ultimately show ?thesis by (intro that [OF c]) metis+
qed

lemma decode8_here: "in_buffer st \<Longrightarrow> unread st = bs @ us \<Longrightarrow> length bs = n + 1 \<Longrightarrow>
    decode8 st (st_nextChar st) n = Some (get_bytes n 0 bs - offsetsFromUTF8 ! n)"
  using bytes_unread [of st "[]" bs us] by (simp add: decode8_def)

interpretation set_utf8: line_stream scalar utf8_code "installed LA_UTF8 Consume_UTF8 1" "stream_LA big" "stream_consume big" for big
proof unfold_locales
  fix st c us
  show "scalar c \<Longrightarrow> uint c < 2147483648" by (rule uint_small) (auto simp: scalar_def uni_defs elim: order.strict_trans1)
  assume i: "installed LA_UTF8 Consume_UTF8 1 st"
  note b = installed_in_buffer [OF i]
  have f: "stream_LA big st la = laUTF8 st la" "stream_consume big st = consumeUTF8 st" for la
    using i by (simp_all add: installed_def stream_LA_def stream_consume_def)
  have l: "laUTF8 st 1 = do { b \<leftarrow> byte st (st_nextChar st);
      if buffer_end st (st_nextChar st + int (trailingBytesForUTF8 ! unat b)) then Some CHARSTREAM_EOF
      else decode8 st (st_nextChar st) (trailingBytesForUTF8 ! unat b) }" by (simp add: laUTF8_def Let_def)
  show "unread st = [] \<Longrightarrow> stream_consume big st = Some st" by (simp add: f consumeUTF8_def at_end_next b)
  show "stream_LA big st 1 = Some CHARSTREAM_EOF" if "unread st = []"
  proof -
    have "st_nextChar st < int (length (st_data st))" "0 \<le> st_nextChar st" using i by (simp_all add: installed_def)
    then have "byte st (st_nextChar st) = Some (st_data st ! nat (st_nextChar st))" by (simp add: byte_def)
    with that show ?thesis by (simp add: f l at_end_iff b)
  qed
  assume c: "scalar c" "unread st = utf8_code c @ us"
  obtain x bs where x: "utf8_code c = x # bs" "trailingBytesForUTF8 ! unat x = length bs"
    "get_bytes (length bs) 0 (x # bs) - offsetsFromUTF8 ! length bs = c" by (rule utf8_shape [OF c(1)])
  have r: "byte st (st_nextChar st) = Some x" "\<not> buffer_end st (st_nextChar st + int (length bs))" "\<not> buffer_end st (st_nextChar st)"
    "decode8 st (st_nextChar st) (length bs) = Some c"
    using c(2) x decode8_here [OF b, of "utf8_code c" us] by (simp_all add: byte_here [OF b] at_end_iff [OF b] at_end_next [OF b])
  show "stream_LA big st 1 = Some c" using r x(2) by (simp add: f l)
  show e: "stream_consume big st = Some ((count_char (c = st_newlineChar st) (st_nextChar st + int (length (utf8_code c))) st)
      \<lparr>st_nextChar := st_nextChar st + int (length (utf8_code c))\<rparr>)"
    using r x by (simp add: f consumeUTF8_def Let_def ac_simps)
  show "\<exists>st'. stream_consume big st = Some st' \<and> installed LA_UTF8 Consume_UTF8 1 st' \<and> unread st' = us" by (rule counted [OF i c(2) e])
qed

section \<open>UTF-16 and UTF-32\<close>

text \<open>The bytes of a unit in an order.\<close>

definition unit_code :: "nat \<Rightarrow> bool \<Rightarrow> UTF32 \<Rightarrow> UTF8 list" where
  "unit_code n big c = (let bs = map (\<lambda>i. ucast (drop_bit (8 * i) c)) [0..<n] in if big then rev bs else bs)"

lemma length_unit_code [simp]: "length (unit_code n big c) = n"
  by (simp add: unit_code_def Let_def)

lemma split_byte: "ucast (ucast c :: UTF8) + push_bit 8 (take_bit m (drop_bit 8 c)) = take_bit (m + 8) c" for c :: UTF32
proof -
  have "ucast (ucast c :: UTF8) + push_bit 8 (take_bit m (drop_bit 8 c)) = (ucast (ucast c :: UTF8) :: UTF32) OR push_bit 8 (take_bit m (drop_bit 8 c))"
    by (rule disjunctive_add) (auto simp: bit_simps)
  also have "\<dots> = take_bit (m + 8) c" by (rule bit_eqI) (auto simp: bit_simps)
  finally show ?thesis .
qed

lemma number_bytes: "number (map (\<lambda>i. ucast (drop_bit (8 * i) c)) [0..<n]) = take_bit (8 * n) c"
proof (induction n arbitrary: c)
  case (Suc n)
  have "map (\<lambda>i. ucast (drop_bit (8 * i) c)) [0..<Suc n] =
      (ucast c :: UTF8) # map (\<lambda>i. ucast (drop_bit (8 * i) (drop_bit 8 c))) [0..<n]"
    by (simp add: upt_conv_Cons map_Suc_upt [symmetric] o_def ac_simps del: upt_Suc)
  then show ?case using split_byte [of c "8 * n"] Suc [of "drop_bit 8 c"]
    by (simp only: number.simps) (simp add: add.commute)
qed simp

lemma read_unit_here: "in_buffer st \<Longrightarrow> unread st = pre @ unit_code n big c @ us \<Longrightarrow>
    wide_read n big st (st_nextChar st + int (length pre)) = Some (take_bit (8 * n) c)"
  using bytes_unread [of st pre "unit_code n big c" us] number_bytes [of c n]
  by (cases big) (simp_all add: wide_read_def unit_code_def Let_def)

lemma read_unit_first: "in_buffer st \<Longrightarrow> unread st = unit_code n big c @ us \<Longrightarrow>
    wide_read n big st (st_nextChar st) = Some (take_bit (8 * n) c)"
  using read_unit_here [of st "[]"] by simp

lemma utf16_shape:
  assumes "scalar c"
  shows "(\<exists>u. utf16_code c = [u] \<and> ucast u = c \<and> \<not> is_high c) \<or>
    (\<exists>u v. utf16_code c = [u, v] \<and> is_high (ucast u) \<and> is_low (ucast v) \<and> join_pair (ucast u) (ucast v) = c)"
proof -
  have n: "next_utf16 strictConversion (utf16_code c) = Inr (c, [])" using next_utf16_code [OF assms, of _ "[]"] by simp
  consider u where "utf16_code c = [u]" | u v where "utf16_code c = [u, v]"
    using utf16_code_nonempty [of c] by (cases "unat c < 0x10000") (auto simp: utf16_code_def utf16_nat_def)
  then show ?thesis using n by cases (auto simp: next_utf16_def Let_def split: if_splits)
qed

definition utf16_bytes :: "bool \<Rightarrow> UTF32 \<Rightarrow> UTF8 list" where
  "utf16_bytes big c = concat (map (\<lambda>u. unit_code 2 big (ucast u)) (utf16_code c))"

lemma take_unit: "take_bit (8 * 2) (ucast u :: UTF32) = ucast u" for u :: UTF16
  by (rule bit_eqI) (auto simp: bit_simps dest: bit_imp_le_length)

text \<open>The two ways through the text at a character: what is shown, and where the pointer goes.\<close>

lemma utf16_here:
  assumes b: "in_buffer st" and c: "scalar c" "unread st = utf16_bytes big c @ us"
  shows "laUTF16 big st 1 = Some c"
    "skip16 (wide_read 2 big) 2 st (st_nextChar st) = Some (st_nextChar st + int (length (utf16_bytes big c)))"
    "\<exists>nl. wide_read 2 big st (st_nextChar st) = Some nl \<and> (\<not> is_high nl \<longrightarrow> nl = c) \<and> (is_high nl \<longrightarrow> 0x10000 \<le> c)"
proof -
  let ?p = "st_nextChar st"
  have "laUTF16 big st 1 = Some c \<and>
    skip16 (wide_read 2 big) 2 st ?p = Some (?p + int (length (utf16_bytes big c))) \<and>
    (\<exists>nl. wide_read 2 big st ?p = Some nl \<and> (\<not> is_high nl \<longrightarrow> nl = c) \<and> (is_high nl \<longrightarrow> 0x10000 \<le> c))"
    using utf16_shape [OF c(1)]
  proof (elim disjE exE conjE)
    fix u assume u: "utf16_code c = [u]" "ucast u = c" "\<not> is_high c"
    have "unread st = unit_code 2 big (ucast u) @ us" using c(2) u by (simp add: utf16_bytes_def)
    then have "wide_read 2 big st ?p = Some c" "\<not> buffer_end st ?p"
      using read_unit_first [OF b] take_unit [of u] u at_end_iff [OF b, of 0] by auto
    then show ?thesis using u by (simp add: laUTF16_def la16_def skip16_def utf16_bytes_def)
  next
    fix u v assume u: "utf16_code c = [u, v]" "is_high (ucast u)" "is_low (ucast v)" "join_pair (ucast u) (ucast v) = c"
    have r: "unread st = unit_code 2 big (ucast u) @ unit_code 2 big (ucast v) @ us" using c(2) u by (simp add: utf16_bytes_def)
    then have "wide_read 2 big st ?p = Some (ucast u)" "wide_read 2 big st (?p + 2) = Some (ucast v)"
      using read_unit_first [OF b] read_unit_here [OF b r] take_unit by auto
    moreover have "\<not> buffer_end st ?p" "\<not> buffer_end st (?p + 2)"
      using at_end_iff [OF b, of 0] at_end_iff [OF b, of 2] r by auto
    moreover have "\<not> unat c < 0x10000" using u(1) by (auto simp: utf16_code_def utf16_nat_def split: if_splits)
    ultimately show ?thesis using u by (simp add: laUTF16_def la16_def skip16_def utf16_bytes_def word_le_nat_alt)
  qed
  then show "laUTF16 big st 1 = Some c"
    "skip16 (wide_read 2 big) 2 st ?p = Some (?p + int (length (utf16_bytes big c)))"
    "\<exists>nl. wide_read 2 big st ?p = Some nl \<and> (\<not> is_high nl \<longrightarrow> nl = c) \<and> (is_high nl \<longrightarrow> 0x10000 \<le> c)" by blast+
qed

lemma length_utf16_bytes: "length (utf16_bytes big c) = 2 * length (utf16_code c)"
proof -
  have "length (concat (map (\<lambda>u. unit_code 2 big (ucast u)) us)) = 2 * length us" for us :: "UTF16 list"
    by (induction us) simp_all
  then show ?thesis by (simp add: utf16_bytes_def)
qed

interpretation set_utf16: line_stream scalar "utf16_bytes big"
  "\<lambda>st. installed LA_UTF16 Consume_UTF16 0 st \<and> st_newlineChar st < 0xD800" "stream_LA big" "stream_consume big" for big
proof unfold_locales
  fix st c us
  show "scalar c \<Longrightarrow> uint c < 2147483648" by (rule uint_small) (auto simp: scalar_def uni_defs elim: order.strict_trans1)
  assume ok: "installed LA_UTF16 Consume_UTF16 0 st \<and> st_newlineChar st < 0xD800"
  then have i: "installed LA_UTF16 Consume_UTF16 0 st" ..
  note b = installed_in_buffer [OF i]
  have f: "stream_LA big st la = laUTF16 big st la" "stream_consume big st = consumeUTF16 big st" for la
    using i by (simp_all add: installed_def stream_LA_def stream_consume_def)
  show "unread st = [] \<Longrightarrow> stream_LA big st 1 = Some CHARSTREAM_EOF" "unread st = [] \<Longrightarrow> stream_consume big st = Some st"
    by (simp_all add: f laUTF16_def la16_def consumeUTF16_def consume16_def at_end_next b)
  assume c: "scalar c" "unread st = utf16_bytes big c @ us"
  note h = utf16_here [OF b c]
  then show "stream_LA big st 1 = Some c" by (simp add: f)
  obtain nl where nl: "wide_read 2 big st (st_nextChar st) = Some nl" "\<not> is_high nl \<longrightarrow> nl = c" "is_high nl \<longrightarrow> 0x10000 \<le> c"
    using h(3) by blast
  have "nl = st_newlineChar st \<longleftrightarrow> c = st_newlineChar st"
    using ok nl(2,3) by (auto simp: surrogate_unat word_nat_simps)
  moreover have "length (utf16_bytes big c) = 2" if "c = st_newlineChar st"
    using that ok by (simp add: utf16_bytes_def utf16_code_def utf16_nat_def word_less_nat_alt)
  moreover have "\<not> buffer_end st (st_nextChar st)"
    using c(2) utf16_code_nonempty [of c] length_utf16_bytes [of big c] by (auto simp: at_end_next b)
  ultimately show e: "stream_consume big st = Some ((count_char (c = st_newlineChar st) (st_nextChar st + int (length (utf16_bytes big c))) st)
      \<lparr>st_nextChar := st_nextChar st + int (length (utf16_bytes big c))\<rparr>)"
    using h(2) nl(1) by (simp add: f consumeUTF16_def consume16_def count_char_def Let_def)
  obtain st' where "stream_consume big st = Some st'" "installed LA_UTF16 Consume_UTF16 0 st'" "unread st' = us"
    using counted [OF i c(2) e] by blast
  then show "\<exists>st'. stream_consume big st = Some st' \<and> (installed LA_UTF16 Consume_UTF16 0 st' \<and> st_newlineChar st' < 0xD800) \<and> unread st' = us"
    using e ok by (auto simp: count_char_def)
qed

text \<open>UTF-32 in either order.\<close>

definition LA_UTF32_for :: "bool \<Rightarrow> bool \<Rightarrow> LA_fn" where
  "LA_UTF32_for big inputBig = (if inputBig = big then LA_UTF32 else if inputBig then LA_UTF32BE else LA_UTF32LE)"

lemma bit_swap32: "bit (swap32 c) n \<longleftrightarrow> n < 32 \<and>
    bit c (if n < 8 then 24 + n else if n < 16 then 8 + n else if n < 24 then n - 8 else n - 24)"
proof -
  have m: "0x00FF0000 = (push_bit 16 (mask 8) :: UTF32)" "0x0000FF00 = (push_bit 8 (mask 8) :: UTF32)"
    by (simp_all add: mask_numeral)
  have "\<not> bit c k" if "32 \<le> k" for k using that by (auto dest: bit_imp_le_length)
  then show ?thesis unfolding swap32_def m by (auto simp: bit_simps)
qed

lemma swap32_bytes:
  "number (rev (map (\<lambda>i. ucast (drop_bit (8 * i) c)) [0..<4])) = swap32 c" 
  "swap32 (swap32 c) = c"
proof -
  have add: "ucast x + push_bit 8 y = ucast x OR push_bit 8 y" for x :: UTF8 and y :: UTF32
    by (rule disjunctive_add) (auto simp: bit_simps dest: bit_imp_le_length)
  have "rev (map (\<lambda>i. ucast (drop_bit (8 * i) c)) [0..<4]) =
      [ucast (drop_bit 24 c), ucast (drop_bit 16 c), ucast (drop_bit 8 c), ucast c :: UTF8]" by (simp add: upt_rec)
  then have "number (rev (map (\<lambda>i. ucast (drop_bit (8 * i) c)) [0..<4])) =
      ucast (ucast (drop_bit 24 c) :: UTF8) OR push_bit 8 (ucast (ucast (drop_bit 16 c) :: UTF8) OR
      push_bit 8 (ucast (ucast (drop_bit 8 c) :: UTF8) OR push_bit 8 (ucast (ucast c :: UTF8) OR push_bit 8 0)))"
    by (simp only: number.simps add)
  also have "\<dots> = swap32 c" by (rule bit_eqI) (auto simp: bit_simps bit_swap32)
  finally show "number (rev (map (\<lambda>i. ucast (drop_bit (8 * i) c)) [0..<4])) = swap32 c" .
  show "swap32 (swap32 c) = c" by (rule bit_eqI) (auto simp: bit_swap32)
qed

lemma read_swapped:
  assumes "in_buffer st" "unread st = unit_code 4 inputBig c @ us"
  shows "wide_read 4 big st (st_nextChar st) = Some (if inputBig = big then c else swap32 c)"
proof -
  have "bytes st (st_nextChar st) 4 = Some (unit_code 4 inputBig c)"
    using bytes_unread [of st "[]" "unit_code 4 inputBig c" us] assms by simp
  moreover have "take_bit 32 c = c" by (rule bit_eqI) (auto simp: bit_simps)
  ultimately show ?thesis using swap32_bytes(1) [of c] number_bytes [of c 4]
    by (cases big; cases inputBig) (simp_all add: wide_read_def unit_code_def Let_def)
qed

lemma utf32_here:
  assumes i: "installed (LA_UTF32_for big inputBig) Consume_UTF32 0 st"
  shows "unread st = [] \<Longrightarrow> stream_LA big st 1 = Some CHARSTREAM_EOF" "unread st = [] \<Longrightarrow> stream_consume big st = Some st"
    "unread st = unit_code 4 inputBig c @ us \<Longrightarrow> stream_LA big st 1 = Some c"
    "unread st = unit_code 4 inputBig c @ us \<Longrightarrow> stream_consume big st =
       Some ((count_char ((if inputBig = big then c else swap32 c) = st_newlineChar st) (st_nextChar st + 4) st)
         \<lparr>st_nextChar := st_nextChar st + 4\<rparr>)"
proof -
  note b = installed_in_buffer [OF i]
  have f: "stream_LA big st la = la32 (if inputBig = big then (\<lambda>c. c) else swap32) big st la" "stream_consume big st = consumeUTF32 big st" for la
    using i by (auto simp: installed_def stream_LA_def stream_consume_def LA_UTF32_for_def laUTF32_def laUTF32LE_def laUTF32BE_def)
  show "unread st = [] \<Longrightarrow> stream_LA big st 1 = Some CHARSTREAM_EOF" "unread st = [] \<Longrightarrow> stream_consume big st = Some st"
    by (simp_all add: f la32_def consumeUTF32_def at_end_next b)
  assume r: "unread st = unit_code 4 inputBig c @ us"
  have e: "\<not> buffer_end st (st_nextChar st)" using r at_end_iff [OF b, of 0] by simp
  note s = read_swapped [OF b r, of big]
  show "stream_LA big st 1 = Some c" using s e by (simp add: f la32_def swap32_bytes(2))
  show "stream_consume big st =
       Some ((count_char ((if inputBig = big then c else swap32 c) = st_newlineChar st) (st_nextChar st + 4) st)
         \<lparr>st_nextChar := st_nextChar st + 4\<rparr>)" using s e by (simp add: f consumeUTF32_def Let_def)
qed

interpretation set_utf32: encoded_stream scalar "unit_code 4 inputBig"
  "installed (LA_UTF32_for big inputBig) Consume_UTF32 0" "stream_LA big" "stream_consume big" for big inputBig
proof unfold_locales
  fix st c us
  show "scalar c \<Longrightarrow> uint c < 2147483648" by (rule uint_small) (auto simp: scalar_def uni_defs elim: order.strict_trans1)
  assume i: "installed (LA_UTF32_for big inputBig) Consume_UTF32 0 st"
  show "unread st = [] \<Longrightarrow> stream_LA big st 1 = Some CHARSTREAM_EOF" "unread st = [] \<Longrightarrow> stream_consume big st = Some st"
    using utf32_here(1,2) [OF i] by simp_all
  assume c: "unread st = unit_code 4 inputBig c @ us"
  show "stream_LA big st 1 = Some c" by (rule utf32_here(3) [OF i c])
  show "\<exists>st'. stream_consume big st = Some st' \<and> installed (LA_UTF32_for big inputBig) Consume_UTF32 0 st' \<and> unread st' = us"
    by (rule counted [OF i c]) (use utf32_here(4) [OF i c] in \<open>simp; fast\<close>)
qed

interpretation native_utf32: line_stream scalar "unit_code 4 big" "installed (LA_UTF32_for big big) Consume_UTF32 0" "stream_LA big" "stream_consume big"
  for big
  by unfold_locales (use utf32_here(4) in \<open>simp\<close>)

section \<open>Looking further ahead\<close>

text \<open>
  A stream that looks further ahead through the character in front shows what it shows when that character is consumed. The UTF-32 streams
  do not: their test for the end of the buffer counts bytes.
\<close>

locale lookahead_stream = line_stream +
  assumes ahead: "ok st \<Longrightarrow> legal c \<Longrightarrow> unread st = code c @ us \<Longrightarrow> eat st = Some st' \<Longrightarrow>
    show_char st (2 + int k) = show_char st' (1 + int k)"
    and ahead_end: "ok st \<Longrightarrow> unread st = [] \<Longrightarrow> show_char st (1 + int k) = Some CHARSTREAM_EOF"
begin

lemma shows_text:
  "holds_text st cs \<Longrightarrow> show_char st (1 + int k) = Some (if k < length cs then cs ! k else CHARSTREAM_EOF)"
proof (induction k arbitrary: st cs)
  case 0
  then show ?case using show_text [of st] by (cases cs) auto
next
  case (Suc k)
  show ?case
  proof (cases cs)
    case Nil
    then show ?thesis using Suc.prems ahead_end [of st "Suc k"] by (simp add: holds_text_def)
  next
    case (Cons c ds)
    then obtain st' where st': "eat st = Some st'" "holds_text st' ds" using eat_text(2) [of st c ds] Suc.prems by blast
    then have "show_char st (2 + int k) = show_char st' (1 + int k)"
      using ahead [of st c "text_of code ds" st' k] Suc.prems Cons by (simp add: holds_text_def)
    with Suc.IH [OF st'(2)] Cons show ?thesis by (simp add: ac_simps)
  qed
qed

end

lemma same_memory:
  assumes "same_buffer st st'"
  shows "byte st' = byte st" "bytes st' = bytes st" "buffer_end st' = buffer_end st" "wide_read n big st' = wide_read n big st"
    "decode8 st' = decode8 st"
  using assms by (auto simp: same_buffer_def byte_def bytes_def buffer_end_def wide_read_def decode8_def fun_eq_iff)

lemma eaten_code:
  assumes "stream_consume big st = Some ((count_char nl start st)\<lparr>st_nextChar := p\<rparr>)" "stream_consume big st = Some st'"
  shows "same_buffer st st'" "st_nextChar st' = p"
  using assms by (auto simp: same_buffer_def count_char_def)

interpretation far8: lookahead_stream latin1 "\<lambda>c. [ucast c]" "installed LA_8Bit Consume_8Bit 0" "stream_LA big" "stream_consume big" for big
proof unfold_locales
  fix st c us st' k
  assume i: "installed LA_8Bit Consume_8Bit 0 st"
  have f: "stream_LA big st la = la_byte ucast st la" for la using i by (simp add: installed_def stream_LA_def la8Bit_def)
  show "unread st = [] \<Longrightarrow> stream_LA big st (1 + int k) = Some CHARSTREAM_EOF"
    using length_unread [OF installed_in_buffer [OF i]] by (simp add: f la_byte_def buffer_end_def)
  assume c: "latin1 c" "unread st = [ucast c] @ us" "stream_consume big st = Some st'"
  note e = eaten_code [OF set8.eat_line [OF i c(1,2)] c(3)]
  have "stream_LA big st' la = la_byte ucast st' la" for la using i e(1) by (simp add: installed_def same_buffer_def stream_LA_def la8Bit_def)
  then show "stream_LA big st (2 + int k) = stream_LA big st' (1 + int k)"
    using e(2) by (simp add: f la_byte_def same_memory [OF e(1)] ac_simps)
qed

lemma forward_same:
  assumes "same_buffer st st'"
  shows "forward16 (wide_read 2 big) w st' n = forward16 (wide_read 2 big) w st n" "forward8 st' n = forward8 st n"
proof -
  note m = same_memory [OF assms]
  show "forward16 (wide_read 2 big) w st' n = forward16 (wide_read 2 big) w st n"
  proof (induction n)
    case (Suc n)
    show ?case by (rule ext) (simp add: Suc m skip16_def cong: if_cong)
  qed (simp add: fun_eq_iff)
  show "forward8 st' n = forward8 st n"
  proof (induction n)
    case (Suc n)
    show ?case by (rule ext) (simp add: Suc m cong: if_cong)
  qed (simp add: fun_eq_iff)
qed

interpretation far_utf16: lookahead_stream scalar "utf16_bytes big"
  "\<lambda>st. installed LA_UTF16 Consume_UTF16 0 st \<and> st_newlineChar st < 0xD800" "stream_LA big" "stream_consume big" for big
proof unfold_locales
  fix st c us st' k
  assume ok: "installed LA_UTF16 Consume_UTF16 0 st \<and> st_newlineChar st < 0xD800"
  then have i: "installed LA_UTF16 Consume_UTF16 0 st" ..
  note b = installed_in_buffer [OF i]
  have f: "stream_LA big st la = laUTF16 big st la" for la using i by (simp add: installed_def stream_LA_def)
  have "forward16 rd w st n (st_nextChar st) = Some (st_nextChar st)" if "unread st = []" for rd w n
    using that by (cases n) (simp_all add: at_end_next b)
  then show "unread st = [] \<Longrightarrow> stream_LA big st (1 + int k) = Some CHARSTREAM_EOF"
    by (simp add: f laUTF16_def la16_def at_end_next b)
  assume c: "scalar c" "unread st = utf16_bytes big c @ us" "stream_consume big st = Some st'"
  note e = eaten_code [OF set_utf16.eat_line [OF ok c(1,2)] c(3)]
  have f': "stream_LA big st' la = laUTF16 big st' la" for la using i e(1) by (simp add: installed_def same_buffer_def stream_LA_def)
  have "nat (1 + int k) = Suc k" by simp
  moreover have "\<not> buffer_end st (st_nextChar st)"
    using c(2) utf16_code_nonempty [of c] length_utf16_bytes [of big c] by (auto simp: at_end_next b)
  ultimately show "stream_LA big st (2 + int k) = stream_LA big st' (1 + int k)"
    using utf16_here(2) [OF b c(1,2)] e(2)
    by (simp add: f f' laUTF16_def la16_def same_memory [OF e(1)] forward_same [OF e(1)] cong: if_cong)
qed

lemma utf8_at_end:
  assumes i: "installed LA_UTF8 Consume_UTF8 1 st" and "unread st = []"
  shows "stream_LA big st (1 + int k) = Some CHARSTREAM_EOF"
proof (cases k)
  case 0
  then show ?thesis using set_utf8.show_end [OF assms] by simp
next
  case (Suc n)
  then show ?thesis using assms at_end_next [OF installed_in_buffer [OF i]] by (simp add: installed_def stream_LA_def laUTF8_def)
qed

interpretation far_utf8: lookahead_stream scalar utf8_code "installed LA_UTF8 Consume_UTF8 1" "stream_LA big" "stream_consume big" for big
proof unfold_locales
  fix st c us st' k
  assume i: "installed LA_UTF8 Consume_UTF8 1 st"
  note b = installed_in_buffer [OF i]
  show "unread st = [] \<Longrightarrow> stream_LA big st (1 + int k) = Some CHARSTREAM_EOF" by (rule utf8_at_end [OF i])
  assume c: "scalar c" "unread st = utf8_code c @ us" "stream_consume big st = Some st'"
  note e = eaten_code [OF set_utf8.eat_line [OF i c(1,2)] c(3)]
  note i' = installed_advance [OF i c(2) e]
  have f: "stream_LA big st la = laUTF8 st la" "stream_LA big st' la = laUTF8 st' la" for la using i i' by (simp_all add: installed_def stream_LA_def)
  obtain x bs where x: "utf8_code c = x # bs" "trailingBytesForUTF8 ! unat x = length bs" by (rule utf8_shape [OF c(1)])
  have k: "nat (1 + int k) = Suc k" "nat (2 + int k) = Suc (Suc k)" "1 < 2 + int k" for k by simp_all
  have r: "byte st (st_nextChar st) = Some x" "\<not> buffer_end st (st_nextChar st)"
    using c(2) x by (simp_all add: byte_here [OF b] at_end_next [OF b])
  have q: "st_nextChar st + int (length bs) + 1 = st_nextChar st'" using e(2) x by simp
  have step: "forward8 st (Suc n) (st_nextChar st) =
      (if buffer_end st (st_nextChar st') then Some None else forward8 st n (st_nextChar st'))" for n
    using r x(2) q by simp
  show "stream_LA big st (2 + int k) = stream_LA big st' (1 + int k)"
  proof (cases "buffer_end st (st_nextChar st')")
    case True
    then have "unread st' = []" using at_end_next [of st'] i' installed_in_buffer same_memory(3) [OF e(1)] by metis
    then show ?thesis using utf8_at_end [of st' big k] i' r True step [of k] by (simp add: f(1) laUTF8_def k del: forward8.simps(2))
  next
    case False
    then show ?thesis using r step
      by (cases k) (simp_all add: f laUTF8_def k same_memory [OF e(1)] forward_same [OF e(1)]
        del: forward8.simps(2) cong: if_cong option.case_cong)
  qed
qed

section \<open>The stream of the lexer\<close>

text \<open>
  The stream of characters on which the generated lexer is modelled is the 8 bit stream, with its buffer as a string and its
  counters as numbers.
\<close>

definition represents :: "input8 \<Rightarrow> INPUT_STREAM \<Rightarrow> bool" where
  "represents i st \<longleftrightarrow> in_buffer st \<and> in_data i = map (\<lambda>b. char_of (unat b)) (take (st_sizeBuf st) (st_data st)) \<and>
     int (in_next i) = st_nextChar st \<and> of_nat (in_line i) = st_line st \<and> of_int (in_charPos i) = st_charPos st \<and>
     int (in_currentLine i) = st_currentLine st \<and> st_newlineChar st = 0x0A"

lemma represented_byte:
  assumes "represents i st" "k < length (in_data i)"
  obtains b where "byte st (int k) = Some b" "in_data i ! k = char_of (unat b)"
proof
  show "byte st (int k) = Some (st_data st ! k)" using assms by (simp add: represents_def in_buffer_def byte_def)
  show "in_data i ! k = char_of (unat (st_data st ! k))" using assms by (simp add: represents_def)
qed

lemma represented_size: "represents i st \<Longrightarrow> length (in_data i) = st_sizeBuf st"
  by (simp add: represents_def in_buffer_def)

lemma byte_char: "(of_char (char_of (unat b)) :: int) = uint b" for b :: UTF8
proof -
  have "(of_char (char_of (unat b)) :: nat) = unat b" using byte_bound [of b] by simp
  then show ?thesis by (metis of_nat_of_char uint_nat)
qed

lemma represented_LA:
  assumes "represents i st" "1 \<le> la"
  shows "map_option uint (la8Bit st (int la)) = Some (antlr38BitLA i la)"
proof -
  have p: "st_nextChar st + int la - 1 = int (in_next i + la - 1)" using assms by (simp add: represents_def of_nat_diff)
  show ?thesis
  proof (cases "length (in_data i) \<le> in_next i + la - 1")
    case True
    then show ?thesis using represented_size [OF assms(1)] p
      by (simp add: la8Bit_def la_byte_def buffer_end_def antlr38BitLA_def CHARSTREAM_EOF_def ANTLR3_CHARSTREAM_EOF_def)
  next
    case False
    then obtain b where "byte st (int (in_next i + la - 1)) = Some b" "in_data i ! (in_next i + la - 1) = char_of (unat b)"
      using represented_byte [OF assms(1)] by (metis not_le)
    then show ?thesis using represented_size [OF assms(1)] p False
      by (simp add: la8Bit_def la_byte_def buffer_end_def antlr38BitLA_def byte_char uint_up_ucast is_up)
  qed
qed

lemma newline_char: "CHR ''\<newline>'' = char_of (10 :: nat)"
  by code_simp

lemma newline_byte: "ucast b = (0x0A :: UTF32) \<longleftrightarrow> (char_of (unat b) :: char) = CHR ''\<newline>''" for b :: UTF8
proof -
  have "(char_of (unat b) :: char) = CHR ''\<newline>'' \<longleftrightarrow> (char_of (unat b) :: char) = char_of (10 :: nat)" by (simp add: newline_char)
  also have "\<dots> \<longleftrightarrow> unat b = 10" using byte_bound [of b] take_bit_nat_eq_self [of "unat b" 8] by (auto simp: char_of_eq_iff)
  also have "\<dots> \<longleftrightarrow> ucast b = (0x0A :: UTF32)" using byte_bound [of b] by (simp add: word_unat_eq_iff unsigned_ucast_eq take_bit_nat_eq_self)
  finally show ?thesis by blast
qed

lemma represented_consume:
  assumes "represents i st"
  shows "\<exists>st'. consume8Bit st = Some st' \<and> represents (antlr38BitConsume i) st'"
proof (cases "in_next i < length (in_data i)")
  case False
  then show ?thesis using assms represented_size [OF assms]
    by (auto simp: consume8Bit_def buffer_end_def antlr38BitConsume_def Let_def represents_def in_buffer_def)
next
  case True
  then obtain b where b: "byte st (st_nextChar st) = Some b" "in_data i ! in_next i = char_of (unat b)"
    using represented_byte [OF assms] assms by (metis represents_def)
  let ?nl = "ucast b = st_newlineChar st" and ?p = "st_nextChar st"
  have "\<not> buffer_end st ?p" using True represented_size [OF assms] assms by (simp add: buffer_end_def represents_def)
  then have "consume8Bit st = Some ((count_char ?nl (?p + 1) st)\<lparr>st_nextChar := ?p + 1\<rparr>)" using b(1) by (simp add: consume8Bit_def Let_def)
  moreover have "in_data i ! in_next i = CHR ''\<newline>'' \<longleftrightarrow> ?nl" using b(2) newline_byte [of b] assms by (simp add: represents_def)
  then have "antlr38BitConsume i =
      (if ?nl then i\<lparr>in_line := in_line i + 1, in_charPos := 0, in_currentLine := in_next i + 1, in_next := in_next i + 1\<rparr>
       else i\<lparr>in_charPos := in_charPos i + 1, in_next := in_next i + 1\<rparr>)" using True by (simp add: antlr38BitConsume_def Let_def)
  ultimately show ?thesis using assms True represented_size [OF assms]
    by (cases ?nl) (simp_all add: represents_def in_buffer_def count_char_def algebra_simps)
qed

end
