(* ===== verification/Antlr_Streams.thy ===== *)
theory Antlr_Streams
  imports Antlr_Charsets
begin

text \<open>
  Marks, seeking and the opening of input streams (\<^verbatim>\<open>antlr3inputstream.c\<close>, \<^verbatim>\<open>antlr3filestream.c\<close>), over the streams of
  characters of the theory before. A stream is opened on a block of memory or on the contents of a file; the byte order mark at its start
  decides which functions are installed. Names of files and the string factory are not part of the state here. The code keeps
  sizes in 32 bits: the models are those of texts below 4 GiB. \<^verbatim>\<open>antlr3Fsize\<close> cuts the size of a longer file to 32 bits,
  which is not modelled; a distance to look ahead is an integer that covers the 32 bit ones.

  Shown are that a mark is restored whatever was read, marked and rewound above it, that the text behind a byte order mark is read by the automata as its
  characters, and where the streams for wide characters fail.
\<close>

unbundle bit_operations_syntax

section \<open>Seeking\<close>

text \<open>\<^verbatim>\<open>antlr38BitSeek\<close>: the distance is kept in 32 bits.\<close>

definition seek8Bit :: "bool \<Rightarrow> INPUT_STREAM \<Rightarrow> int \<Rightarrow> INPUT_STREAM option" where
  "seek8Bit big st seekPoint =
     (if seekPoint \<le> st_nextChar st then Some (st\<lparr>st_nextChar := seekPoint\<rparr>)
      else eats (stream_consume big) (nat ((seekPoint - st_nextChar st) mod 2 ^ 32)) st)"

text \<open>The loop of the seeks for wide characters, with its condition as it is written.\<close>

partial_function (option) seek_loop :: "bool \<Rightarrow> int \<Rightarrow> INPUT_STREAM \<Rightarrow> INPUT_STREAM option" where
  "seek_loop big seekPoint st =
     do {
       c \<leftarrow> stream_LA big st 1;
       if c \<noteq> CHARSTREAM_EOF \<and> seekPoint < st_nextChar st then do {
         st' \<leftarrow> stream_consume big st;
         seek_loop big seekPoint st'
       }
       else Some st
     }"

definition seekUTF16 :: "bool \<Rightarrow> INPUT_STREAM \<Rightarrow> int \<Rightarrow> INPUT_STREAM option" where
  "seekUTF16 big st seekPoint =
     (if seekPoint \<le> st_nextChar st then Some (st\<lparr>st_nextChar := seekPoint\<rparr>) else seek_loop big seekPoint st)"

definition seekUTF32 :: "bool \<Rightarrow> INPUT_STREAM \<Rightarrow> int \<Rightarrow> INPUT_STREAM option" where
  "seekUTF32 big st seekPoint =
     (if seekPoint \<le> st_nextChar st then Some (st\<lparr>st_nextChar := seekPoint\<rparr>) else seek_loop big seekPoint st)"

definition stream_seek :: "bool \<Rightarrow> INPUT_STREAM \<Rightarrow> int \<Rightarrow> INPUT_STREAM option" where
  "stream_seek big st =
     (case st_seek st of Seek_8Bit \<Rightarrow> seek8Bit big st | Seek_UTF16 \<Rightarrow> seekUTF16 big st | Seek_UTF32 \<Rightarrow> seekUTF32 big st)"

section \<open>Marks\<close>

definition lex_state :: "INPUT_STREAM \<Rightarrow> LEX_STATE" where
  "lex_state st = \<lparr>ls_nextChar = st_nextChar st, ls_line = st_line st, ls_currentLine = st_currentLine st, ls_charPos = st_charPos st\<rparr>"

text \<open>\<^verbatim>\<open>mark\<close>: a null pointer from the table of markers would be followed.\<close>

definition mark8Bit :: "INPUT_STREAM \<Rightarrow> (INPUT_STREAM \<times> int) option" where
  "mark8Bit st =
     (let depth = st_markDepth st + 1; index = unat (depth - 1);
          marked = (\<lambda>ms. Some (st\<lparr>st_markDepth := depth, st_markers := ms, st_lastMarker := uint depth\<rparr>, uint depth)) in
      if length (st_markers st) < unat depth then marked (st_markers st @ [lex_state st])
      else if index < length (st_markers st) then marked ((st_markers st)[index := lex_state st])
      else None)"

definition release8Bit :: "INPUT_STREAM \<Rightarrow> int \<Rightarrow> INPUT_STREAM" where
  "release8Bit st mark = st\<lparr>st_markDepth := word_of_int (mark - 1)\<rparr>"

definition rewind8Bit :: "bool \<Rightarrow> INPUT_STREAM \<Rightarrow> int \<Rightarrow> INPUT_STREAM option" where
  "rewind8Bit big st mark =
     (let st1 = release8Bit st mark; index = unat (word_of_int (mark - 1) :: 32 word) in
      if index < length (st_markers st1) then
        let state = st_markers st1 ! index in
        do {
          st2 \<leftarrow> seek8Bit big st1 (ls_nextChar state);
          Some (st2\<lparr>st_charPos := ls_charPos state, st_currentLine := ls_currentLine state, st_line := ls_line state,
            st_nextChar := ls_nextChar state\<rparr>)
        }
      else None)"

definition rewindLast8Bit :: "bool \<Rightarrow> INPUT_STREAM \<Rightarrow> INPUT_STREAM option" where
  "rewindLast8Bit big st = rewind8Bit big st (st_lastMarker st)"

section \<open>Setting up\<close>

definition resetStream :: "INPUT_STREAM \<Rightarrow> INPUT_STREAM" where
  "resetStream st = st\<lparr>st_nextChar := 0, st_line := 1, st_charPos := - 1, st_currentLine := 0, st_markDepth := 0, st_markers := []\<rparr>"

definition setNewLineChar :: "INPUT_STREAM \<Rightarrow> UTF32 \<Rightarrow> INPUT_STREAM" where
  "setNewLineChar st c = st\<lparr>st_newlineChar := c\<rparr>"

definition setLine :: "INPUT_STREAM \<Rightarrow> 32 word \<Rightarrow> INPUT_STREAM" where
  "setLine st line = st\<lparr>st_line := line\<rparr>"

definition setCharPosition :: "INPUT_STREAM \<Rightarrow> 32 word \<Rightarrow> INPUT_STREAM" where
  "setCharPosition st position = st\<lparr>st_charPos := position\<rparr>"

definition setUcaseLA :: "INPUT_STREAM \<Rightarrow> bool \<Rightarrow> INPUT_STREAM" where
  "setUcaseLA st flag = st\<lparr>st_LA := (if flag then LA_8Bit_ucase else LA_8Bit)\<rparr>"

definition reuse8Bit :: "INPUT_STREAM \<Rightarrow> UTF8 list \<Rightarrow> nat \<Rightarrow> INPUT_STREAM" where
  "reuse8Bit st inString siz = resetStream (st\<lparr>st_data := inString, st_sizeBuf := siz\<rparr>)"

text \<open>\<^verbatim>\<open>antlr3GenericSetupStream\<close> on a structure that was cleared but for its buffer.\<close>

definition genericSetupStream :: "UTF8 list \<Rightarrow> nat \<Rightarrow> INPUT_STREAM" where
  "genericSetupStream dat siz =
     setNewLineChar (resetStream
       \<lparr>st_data = dat, st_sizeBuf = siz, st_nextChar = 0, st_line = 0, st_charPos = 0, st_currentLine = 0, st_newlineChar = 0,
        st_markers = [], st_markDepth = 0, st_lastMarker = 0, st_consume = Consume_8Bit, st_LA = LA_8Bit, st_seek = Seek_8Bit,
        st_substr = Substr_8Bit, st_charByteSize = 1\<rparr>) 0x0A"

definition setupUTF16 :: "bool \<Rightarrow> bool \<Rightarrow> INPUT_STREAM \<Rightarrow> INPUT_STREAM" where
  "setupUTF16 machineBigEndian inputBigEndian st =
     (let st1 = st\<lparr>st_substr := Substr_UTF16, st_seek := Seek_UTF16\<rparr>;
          st2 = (if inputBigEndian = machineBigEndian then st1\<lparr>st_consume := Consume_UTF16, st_LA := LA_UTF16\<rparr>
                 else if machineBigEndian then st1\<lparr>st_consume := Consume_UTF16LE, st_LA := LA_UTF16LE\<rparr>
                 else st1\<lparr>st_consume := Consume_UTF16BE, st_LA := LA_UTF16BE\<rparr>)
      in st2\<lparr>st_charByteSize := 2\<rparr>)"

definition setupUTF32 :: "bool \<Rightarrow> bool \<Rightarrow> INPUT_STREAM \<Rightarrow> INPUT_STREAM" where
  "setupUTF32 machineBigEndian inputBigEndian st =
     (let st1 = st\<lparr>st_substr := Substr_UTF32, st_seek := Seek_UTF32, st_consume := Consume_UTF32\<rparr>;
          st2 = (if inputBigEndian = machineBigEndian then st1\<lparr>st_LA := LA_UTF32\<rparr>
                 else if machineBigEndian then st1\<lparr>st_LA := LA_UTF32LE\<rparr>
                 else st1\<lparr>st_LA := LA_UTF32BE\<rparr>)
      in st2\<lparr>st_charByteSize := 4\<rparr>)"

definition setupUTF8 :: "INPUT_STREAM \<Rightarrow> INPUT_STREAM" where
  "setupUTF8 st = st\<lparr>st_consume := Consume_UTF8, st_LA := LA_UTF8, st_charByteSize := 0\<rparr>"

definition setupEBCDIC :: "INPUT_STREAM \<Rightarrow> INPUT_STREAM" where
  "setupEBCDIC st = st\<lparr>st_LA := LA_EBCDIC, st_charByteSize := 1\<rparr>"

section \<open>Opening\<close>

datatype encoding = ENC_8BIT | ENC_UTF8 | ENC_UTF16 | ENC_UTF16BE | ENC_UTF16LE | ENC_UTF32 | ENC_UTF32BE | ENC_UTF32LE | ENC_EBCDIC

text \<open>The comparison of bytes with those of a mark, from the first one on as long as they agree.\<close>

fun at_mark :: "INPUT_STREAM \<Rightarrow> int \<Rightarrow> UTF8 list \<Rightarrow> bool option" where
  "at_mark st p [] = Some True"
| "at_mark st p (m # ms) = do { b \<leftarrow> byte st p; if b = m then at_mark st (p + 1) ms else Some False }"

definition advance :: "int \<Rightarrow> INPUT_STREAM \<Rightarrow> INPUT_STREAM" where
  "advance n st = st\<lparr>st_nextChar := st_nextChar st + n\<rparr>"

definition setupInputStream :: "bool \<Rightarrow> encoding \<Rightarrow> INPUT_STREAM \<Rightarrow> INPUT_STREAM option" where
  "setupInputStream isBigEndian enc st =
     (let p = st_nextChar st in
      case enc of
        ENC_UTF8 \<Rightarrow> do {
          bom \<leftarrow> at_mark st p [0xEF, 0xBB, 0xBF];
          Some (setupUTF8 (if bom then advance 3 st else st))
        }
      | ENC_UTF16 \<Rightarrow> do {
          bomBE \<leftarrow> at_mark st p [0xFE, 0xFF];
          if bomBE then Some (setupUTF16 isBigEndian True (advance 2 st))
          else do {
            bomLE \<leftarrow> at_mark st p [0xFF, 0xFE];
            Some (if bomLE then setupUTF16 isBigEndian False (advance 2 st) else setupUTF16 isBigEndian isBigEndian st)
          }
        }
      | ENC_UTF32 \<Rightarrow> do {
          bomBE \<leftarrow> at_mark st p [0x00, 0x00, 0xFE, 0xFF];
          if bomBE then Some (setupUTF32 isBigEndian True (advance 4 st))
          else do {
            b0 \<leftarrow> byte st p;
            bomLE \<leftarrow> (if b0 = 0xFF then do { b1 \<leftarrow> byte st (p + 1); Some (b1 = 0xFE \<and> b1 = 0x00 \<and> b1 = 0x00) } else Some False);
            Some (if bomLE then setupUTF32 isBigEndian False (advance 4 st) else setupUTF32 isBigEndian isBigEndian st)
          }
        }
      | ENC_UTF16BE \<Rightarrow> Some (setupUTF16 isBigEndian True st)
      | ENC_UTF16LE \<Rightarrow> Some (setupUTF16 isBigEndian False st)
      | ENC_UTF32BE \<Rightarrow> Some (setupUTF32 isBigEndian True st)
      | ENC_UTF32LE \<Rightarrow> Some (setupUTF32 isBigEndian False st)
      | ENC_EBCDIC \<Rightarrow> Some (setupEBCDIC st)
      | ENC_8BIT \<Rightarrow> Some st)"

definition stringStreamNew :: "bool \<Rightarrow> UTF8 list \<Rightarrow> encoding \<Rightarrow> nat \<Rightarrow> INPUT_STREAM option" where
  "stringStreamNew big dat enc siz = setupInputStream big enc (genericSetupStream dat siz)"

text \<open>
  A file that cannot be opened (\<open>None\<close>) gives no stream. Otherwise the buffer is as long as the file, which is below 4 GiB, with no memory
  behind it.
\<close>

definition fileStreamNew :: "bool \<Rightarrow> UTF8 list option \<Rightarrow> encoding \<Rightarrow> INPUT_STREAM option option" where
  "fileStreamNew big file enc =
     (case file of
        None \<Rightarrow> Some None
      | Some dat \<Rightarrow> map_option Some (setupInputStream big enc (genericSetupStream dat (length dat))))"

section \<open>Substrings\<close>

text \<open>The bytes that \<^verbatim>\<open>newPtr\<close> copies for \<open>substr\<close>: units of one, two or four bytes.\<close>

definition substr :: "INPUT_STREAM \<Rightarrow> int \<Rightarrow> int \<Rightarrow> UTF8 list option" where
  "substr st start stop =
     (case st_substr st of
        Substr_8Bit \<Rightarrow> bytes st start (nat ((stop - start + 1) mod 2 ^ 32))
      | Substr_UTF16 \<Rightarrow> bytes st start (2 * (nat ((stop - start) mod 2 ^ 32) div 2 + 1))
      | Substr_UTF32 \<Rightarrow> bytes st start (4 * (nat ((stop - start) mod 2 ^ 32) div 4 + 1)))"

section \<open>Marks are restored\<close>

lemma skip16_forward: "skip16 rd w st p = Some q \<Longrightarrow> 0 < w \<Longrightarrow> p < q"
  by (auto simp: skip16_def split: if_splits Option.bind_splits)

definition moved :: "INPUT_STREAM \<Rightarrow> INPUT_STREAM \<Rightarrow> bool" where
  "moved st st' \<longleftrightarrow> same_buffer st st' \<and> st_nextChar st \<le> st_nextChar st'"

lemma moved_intros:
  "moved st st"
  "st_nextChar st \<le> p \<Longrightarrow> moved st (count_char nl start st\<lparr>st_nextChar := p\<rparr>)"
  "st_nextChar st \<le> p \<Longrightarrow> moved st (st\<lparr>st_charPos := x, st_nextChar := p\<rparr>)"
  by (simp_all add: moved_def) (simp_all add: same_buffer_def)

lemma consume16_moved: "consume16 big rd st = Some st' \<Longrightarrow> moved st st'"
  using skip16_forward [of rd 2 st "st_nextChar st"]
  by (auto simp: consume16_def Let_def simp: Option.bind_eq_Some_conv split: if_splits intro!: moved_intros less_imp_le)

lemma consume_moved: "stream_consume big st = Some st' \<Longrightarrow> moved st st'"
proof -
  have "consume8Bit st = Some st' \<Longrightarrow> moved st st'"
    by (auto simp: consume8Bit_def Let_def simp: Option.bind_eq_Some_conv split: if_splits intro!: moved_intros)
  moreover have "consumeUTF8 st = Some st' \<Longrightarrow> moved st st'"
    by (auto simp: consumeUTF8_def Let_def buffer_end_def simp: Option.bind_eq_Some_conv split: if_splits intro!: moved_intros)
  moreover have "consumeUTF32 big st = Some st' \<Longrightarrow> moved st st'"
    by (auto simp: consumeUTF32_def Let_def simp: Option.bind_eq_Some_conv split: if_splits intro!: moved_intros)
  ultimately show "stream_consume big st = Some st' \<Longrightarrow> moved st st'"
    by (cases "st_consume st")
      (simp_all add: stream_consume_def consumeUTF16_def consumeUTF16LE_def consumeUTF16BE_def consume16_moved)
qed

text \<open>The marks that are set are in the table.\<close>

definition wf_marks :: "INPUT_STREAM \<Rightarrow> bool" where
  "wf_marks st \<longleftrightarrow> unat (st_markDepth st) \<le> length (st_markers st) \<and> length (st_markers st) < 2 ^ 32"

text \<open>What may happen above a mark: reading, further marks, and going back to or releasing one of these.\<close>

inductive above :: "bool \<Rightarrow> int \<Rightarrow> INPUT_STREAM \<Rightarrow> INPUT_STREAM \<Rightarrow> bool" for big m st where
  above_refl: "above big m st st"
| above_consume: "above big m st st1 \<Longrightarrow> stream_consume big st1 = Some st2 \<Longrightarrow> above big m st st2"
| above_mark: "above big m st st1 \<Longrightarrow> mark8Bit st1 = Some (st2, k) \<Longrightarrow> above big m st st2"
| above_rewind: "above big m st st1 \<Longrightarrow> m < k \<Longrightarrow> k \<le> uint (st_markDepth st1) \<Longrightarrow> rewind8Bit big st1 k = Some st2 \<Longrightarrow> above big m st st2"
| above_release: "above big m st st1 \<Longrightarrow> m < k \<Longrightarrow> k \<le> uint (st_markDepth st1) \<Longrightarrow> above big m st (release8Bit st1 k)"

text \<open>The invariant of a mark of index \<open>n\<close> that holds the state \<open>ls\<close>, above the marks \<open>ms\<close>.\<close>

definition mark_kept :: "nat \<Rightarrow> LEX_STATE \<Rightarrow> LEX_STATE list \<Rightarrow> INPUT_STREAM \<Rightarrow> bool" where
  "mark_kept n ls ms st \<longleftrightarrow> wf_marks st \<and> n < unat (st_markDepth st) \<and> take n (st_markers st) = ms \<and> st_markers st ! n = ls \<and>
     ls_nextChar ls \<le> st_nextChar st \<and>
     (\<forall>i. n \<le> i \<and> i < unat (st_markDepth st) \<longrightarrow> ls_nextChar ls \<le> ls_nextChar (st_markers st ! i))"

lemma mark_index:
  fixes d :: "32 word"
  assumes "k \<le> uint d" "0 < k"
  shows "unat (word_of_int (k - 1) :: 32 word) = nat (k - 1)"
proof -
  have "uint d < 2 ^ 32" using uint_lt2p [of d] by simp
  then have "uint (word_of_int (k - 1) :: 32 word) = k - 1" using assms by (simp only: uint_word_of_int len_num1 len_bit0) simp
  then show ?thesis by (metis unat_eq_nat_uint)
qed

lemma mark8Bit_wf:
  assumes "wf_marks st"  "mark8Bit st = Some (st', k)"
  shows "wf_marks st'" "k = int (unat (st_markDepth st)) + 1" "st_markDepth st' = st_markDepth st + 1"
    "unat (st_markDepth st') = unat (st_markDepth st) + 1"
    "take (unat (st_markDepth st)) (st_markers st') = take (unat (st_markDepth st)) (st_markers st)"
    "st_markers st' ! unat (st_markDepth st) = lex_state st" "st_nextChar st' = st_nextChar st"
proof -
  let ?d = "st_markDepth st"
  have d: "unat (?d + 1) = unat ?d + 1"
  proof (cases "unat ?d + 1 < 2 ^ 32")
    case True
    then show ?thesis by (simp add: unat_word_ariths)
  next
    case False
    then have f: "length (st_markers st) = unat ?d" "unat ?d = 2 ^ 32 - 1" using assms(1) unfolding wf_marks_def by linarith+
    then have "unat (?d + 1) = 0" by (simp add: unat_word_ariths)
    with assms(2) f(1) show ?thesis by (simp add: mark8Bit_def Let_def)
  qed
  have u: "uint (?d + 1) = int (unat ?d) + 1" using d by (metis of_nat_1 of_nat_add uint_nat)
  show "wf_marks st'" "k = int (unat ?d) + 1" "st_markDepth st' = ?d + 1"
    "unat (st_markDepth st') = unat ?d + 1" "take (unat ?d) (st_markers st') = take (unat ?d) (st_markers st)"
    "st_markers st' ! unat ?d = lex_state st" "st_nextChar st' = st_nextChar st"
    using assms d u unsigned_less [of "?d + 1", where 'a = nat]
    by (auto simp: mark8Bit_def Let_def wf_marks_def nth_append split: if_splits)
qed

lemma moved_kept: "moved st st' \<Longrightarrow> mark_kept n ls ms st \<Longrightarrow> mark_kept n ls ms st'"
  by (auto simp: moved_def same_buffer_def mark_kept_def wf_marks_def)

lemma eats_moved: "eats (stream_consume big) n st = Some st' \<Longrightarrow> moved st st'"
proof (induction n arbitrary: st)
  case (Suc n)
  then obtain st1 where "stream_consume big st = Some st1" "eats (stream_consume big) n st1 = Some st'" by (auto simp: Option.bind_eq_Some_conv)
  then have "moved st st1" "moved st1 st'" using consume_moved Suc.IH by blast+
  then show ?case by (auto simp: moved_def same_buffer_def)
qed (simp add: moved_intros)

lemma release_kept:
  assumes "mark_kept n ls ms st" "int n + 1 < k" "k \<le> uint (st_markDepth st)"
  shows "mark_kept n ls ms (release8Bit st k)" "unat (st_markDepth (release8Bit st k)) = nat (k - 1)"
proof -
  show d: "unat (st_markDepth (release8Bit st k)) = nat (k - 1)"
    using mark_index [of k "st_markDepth st"] assms(2,3) by (simp add: release8Bit_def)
  have "nat (k - 1) < unat (st_markDepth st)" using assms(2,3) by (simp add: nat_less_iff)
  then show "mark_kept n ls ms (release8Bit st k)"
    using assms(1,2) d by (auto simp: mark_kept_def wf_marks_def) (auto simp: release8Bit_def)
qed

lemma rewind_kept:
  assumes k: "mark_kept n ls ms st" "int n + 1 < k" "k \<le> uint (st_markDepth st)" and r: "rewind8Bit big st k = Some st'"
  shows "mark_kept n ls ms st'"
proof -
  note rel = release_kept [OF k]
  let ?i = "nat (k - 1)"
  have i: "n \<le> ?i" "?i < unat (st_markDepth st)" using k(2,3) by (simp_all add: nat_less_iff)
  have m: "st_markers (release8Bit st k) = st_markers st" by (simp add: release8Bit_def)
  let ?s = "st_markers st ! ?i"
  obtain st2 where st2: "seek8Bit big (release8Bit st k) (ls_nextChar ?s) = Some st2"
    "st' = st2\<lparr>st_charPos := ls_charPos ?s, st_currentLine := ls_currentLine ?s, st_line := ls_line ?s, st_nextChar := ls_nextChar ?s\<rparr>"
    using r mark_index [OF k(3)] k(2) m by (auto simp: rewind8Bit_def Let_def Option.bind_eq_Some_conv split: if_splits)
  have "st_markers st2 = st_markers st \<and> st_markDepth st2 = st_markDepth (release8Bit st k)"
    using st2(1) eats_moved m by (fastforce simp: seek8Bit_def moved_def same_buffer_def split: if_splits)
  moreover have "ls_nextChar ls \<le> ls_nextChar ?s" using k(1) i by (simp add: mark_kept_def)
  ultimately show ?thesis using rel(1) m st2(2) by (simp add: mark_kept_def wf_marks_def)
qed

lemma mark_kept_above:
  assumes "mark_kept n ls ms st" "mark8Bit st = Some (st', k)"
  shows "mark_kept n ls ms st'"
proof -
  have w: "wf_marks st" using assms(1) by (simp add: mark_kept_def)
  note f = mark8Bit_wf [OF w assms(2)]
  let ?d = "unat (st_markDepth st)"
  have nth: "st_markers st' ! i = st_markers st ! i" if "i < ?d" for i using f(5) that by (metis nth_take)
  have "take n (st_markers st') = take n (take ?d (st_markers st'))" using assms(1) by (simp add: mark_kept_def)
  also have "\<dots> = ms" using assms(1) by (simp add: f(5) mark_kept_def)
  finally have t: "take n (st_markers st') = ms" .
  have "ls_nextChar ls \<le> ls_nextChar (st_markers st' ! i)" if "n \<le> i" "i < ?d + 1" for i
    using that nth [of i] f(6) assms(1) by (cases "i = ?d") (auto simp: mark_kept_def lex_state_def)
  with f t nth [of n] assms(1) show ?thesis by (simp add: mark_kept_def)
qed

lemma above_kept: "above big (int n + 1) st st' \<Longrightarrow> mark_kept n ls ms st \<Longrightarrow> mark_kept n ls ms st'"
  by (induction rule: above.induct)
    (auto intro: moved_kept consume_moved mark_kept_above rewind_kept release_kept(1))

text \<open>Right behind the mark.\<close>

lemma mark_made:
  assumes "wf_marks st" "mark8Bit st = Some (st', k)"
  shows "mark_kept (unat (st_markDepth st)) (lex_state st) (take (unat (st_markDepth st)) (st_markers st)) st'"
  using mark8Bit_wf [OF assms] by (auto simp: mark_kept_def lex_state_def less_Suc_eq)

lemma rewind_to_mark:
  assumes "mark_kept n ls ms st"
  shows "\<exists>st'. rewind8Bit big st (int n + 1) = Some st' \<and> lex_state st' = ls \<and> unat (st_markDepth st') = n \<and> take n (st_markers st') = ms"
proof -
  have n: "int n + 1 \<le> uint (st_markDepth st)" "n < length (st_markers st)"
    using assms by (auto simp: mark_kept_def wf_marks_def simp flip: int_nat_eq nat_uint_eq)
  have "unat (word_of_int (int n + 1 - 1) :: 32 word) = n" using mark_index [OF n(1)] by simp
  then show ?thesis using assms n
    by (simp add: rewind8Bit_def release8Bit_def seek8Bit_def Let_def mark_kept_def lex_state_def)
qed

text \<open>Nothing else of the stream changes.\<close>

definition same_text :: "INPUT_STREAM \<Rightarrow> INPUT_STREAM \<Rightarrow> bool" where
  "same_text st st' \<longleftrightarrow> st_data st' = st_data st \<and> st_sizeBuf st' = st_sizeBuf st \<and> st_newlineChar st' = st_newlineChar st \<and>
     st_consume st' = st_consume st \<and> st_LA st' = st_LA st \<and> st_seek st' = st_seek st \<and>
     st_substr st' = st_substr st \<and> st_charByteSize st' = st_charByteSize st"

lemma same_text_trans: "same_text st st1 \<Longrightarrow> same_text st1 st2 \<Longrightarrow> same_text st st2"
  by (simp add: same_text_def)

lemma moved_text: "moved st st' \<Longrightarrow> same_text st st'"
  by (simp add: moved_def same_buffer_def same_text_def)

lemma mark_text: "mark8Bit st = Some (st', k) \<Longrightarrow> same_text st st'"
  by (auto simp: mark8Bit_def Let_def same_text_def split: if_splits)

lemma rewind_text: "rewind8Bit big st k = Some st' \<Longrightarrow> same_text st st'"
proof -
  assume "rewind8Bit big st k = Some st'"
  then obtain st2 p where st2: "seek8Bit big (release8Bit st k) p = Some st2" and t: "same_text st2 st'"
    by (auto simp: rewind8Bit_def Let_def same_text_def Option.bind_eq_Some_conv split: if_splits)
  have "same_text (release8Bit st k) st2"
    using st2 by (auto simp: seek8Bit_def split: if_splits dest: eats_moved moved_text) (simp add: same_text_def)
  moreover have "same_text st (release8Bit st k)" by (simp add: same_text_def release8Bit_def)
  ultimately show ?thesis using t same_text_trans by blast
qed

lemma above_text: "above big m st st' \<Longrightarrow> same_text st st'"
proof (induction rule: above.induct)
  case above_refl
  show ?case by (simp add: same_text_def)
next
  case (above_release st1 k)
  then show ?case by (simp add: same_text_def release8Bit_def)
qed (blast intro: same_text_trans moved_text consume_moved mark_text rewind_text)+

lemma stream_eqI:
  assumes "same_text st st'" "lex_state st' = lex_state st" "unat (st_markDepth st') = unat (st_markDepth st)"
  shows "st' = st\<lparr>st_markers := st_markers st', st_lastMarker := st_lastMarker st'\<rparr>"
proof -
  have "st_markDepth st' = st_markDepth st" using assms(3) by (simp add: word_unat_eq_iff)
  then show ?thesis using assms(1,2) by (cases st; cases st') (simp add: same_text_def lex_state_def)
qed

text \<open>
  C33: a mark is restored: whatever was read, marked, released and rewound above it, going back to it returns and
  leaves the stream as it was when the mark was set, but for entries of the table of markers that are not in use.\<close>

theorem marks_restored:
  assumes "wf_marks st" "mark8Bit st = Some (st1, m)" "above big m st1 st2"
  shows "\<exists>ms lastMarker. rewind8Bit big st2 m = Some (st\<lparr>st_markers := ms, st_lastMarker := lastMarker\<rparr>) \<and>
    take (unat (st_markDepth st)) ms = take (unat (st_markDepth st)) (st_markers st)"
proof -
  let ?n = "unat (st_markDepth st)"
  have m: "m = int ?n + 1" by (rule mark8Bit_wf(2) [OF assms(1,2)])
  have "mark_kept ?n (lex_state st) (take ?n (st_markers st)) st2"
    using above_kept assms(3) mark_made [OF assms(1,2)] unfolding m by blast
  from rewind_to_mark [OF this] obtain st3 where st3: "rewind8Bit big st2 m = Some st3" "lex_state st3 = lex_state st"
    "unat (st_markDepth st3) = ?n" "take ?n (st_markers st3) = take ?n (st_markers st)" unfolding m by blast
  have "same_text st st3" using mark_text [OF assms(2)] above_text [OF assms(3)] rewind_text [OF st3(1)] same_text_trans by blast
  from stream_eqI [OF this st3(2,3)] st3(1,4) show ?thesis by metis
qed

text \<open>A mark at the second character of a text, and one character and a further mark read above it.\<close>

theorem marks_restored_witness:
  "let st = (genericSetupStream [0x61, 0x0A, 0x62] 3)\<lparr>st_nextChar := 1, st_charPos := 0\<rparr> in
   \<exists>st1 m st2 ms lastMarker. mark8Bit st = Some (st1, m) \<and> above False m st1 st2 \<and> st2 \<noteq> st1 \<and>
     rewind8Bit False st2 m = Some (st\<lparr>st_markers := ms, st_lastMarker := lastMarker\<rparr>)"
proof -
  define st where "st = (genericSetupStream [0x61, 0x0A, 0x62] 3)\<lparr>st_nextChar := 1, st_charPos := 0\<rparr>"
  define st1 where "st1 = fst (the (mark8Bit st))"
  define st2 where "st2 = the (stream_consume False st1)"
  define st3 where "st3 = fst (the (mark8Bit st2))"
  have w: "wf_marks st" by (simp add: st_def genericSetupStream_def setNewLineChar_def resetStream_def wf_marks_def)
  have m: "mark8Bit st = Some (st1, 1)" by (simp add: st1_def st_def genericSetupStream_def setNewLineChar_def resetStream_def mark8Bit_def Let_def)
  have c: "stream_consume False st1 = Some st2" and m2: "mark8Bit st2 = Some (st3, 2)" and n: "st_markDepth st3 \<noteq> st_markDepth st1"
    by (simp_all add: st3_def st2_def st1_def st_def genericSetupStream_def setNewLineChar_def resetStream_def mark8Bit_def Let_def
      stream_consume_def consume8Bit_def buffer_end_def byte_def count_char_def)
  have a: "above False 1 st1 st3" by (rule above_mark [OF above_consume [OF above_refl c] m2])
  from marks_restored [OF w m a] m a n show ?thesis unfolding st_def [symmetric] Let_def by auto
qed

section \<open>Opening a text\<close>

text \<open>
  What a lexer needs of a stream: any lookahead shows the characters of the text, the automata compute their function of them, and when all are
  consumed the lines have been counted.
\<close>

definition predicts :: "bool \<Rightarrow> INPUT_STREAM \<Rightarrow> UTF32 list \<Rightarrow> bool" where
  "predicts big st cs \<longleftrightarrow> (\<forall>d. wf_dfa d \<longrightarrow>
     antlr3dfapredict (\<lambda>st. uint (the (stream_LA big st 1))) (\<lambda>st. the (stream_consume big st)) d st = Some (dfa_walk d 0 (map uint cs)))"

definition reads_text :: "bool \<Rightarrow> INPUT_STREAM \<Rightarrow> UTF32 list \<Rightarrow> bool" where
  "reads_text big st cs \<longleftrightarrow> predicts big st cs \<and>
     (\<forall>k. stream_LA big st (1 + int k) = Some (if k < length cs then cs ! k else CHARSTREAM_EOF)) \<and>
     (\<exists>st'. eats (stream_consume big) (length cs) st = Some st' \<and> stream_LA big st' 1 = Some CHARSTREAM_EOF \<and>
        st_line st' = 1 + of_nat (count_list cs 0x0A))"

context lookahead_stream
begin

lemma reads_all:
  assumes "holds_text st cs" "show_char = stream_LA big" "eat = stream_consume big" "st_line st = 1" "st_newlineChar st = 0x0A"
  shows "reads_text big st cs"
proof -
  have "holds_text st (cs @ [])" using assms(1) by simp
  from lines_counted [OF this] obtain st' where st': "eats eat (length cs) st = Some st'" "holds_text st' []"
    "st_line st' = 1 + of_nat (count_list cs 0x0A)" using assms(4,5) by auto
  with show_text(1) [OF st'(2)] have "\<exists>st'. eats (stream_consume big) (length cs) st = Some st' \<and> stream_LA big st' 1 = Some CHARSTREAM_EOF \<and>
        st_line st' = 1 + of_nat (count_list cs 0x0A)" using assms(2,3) by blast
  moreover have "stream_LA big st (1 + int k) = Some (if k < length cs then cs ! k else CHARSTREAM_EOF)" for k
    using shows_text [OF assms(1)] assms(2) by simp
  ultimately show ?thesis using predict_text [OF _ assms(1)] assms(2,3) by (simp add: reads_text_def predicts_def)
qed

end

lemma generic_fields [simp]:
  "genericSetupStream dat siz =
     \<lparr>st_data = dat, st_sizeBuf = siz, st_nextChar = 0, st_line = 1, st_charPos = - 1, st_currentLine = 0, st_newlineChar = 0x0A,
      st_markers = [], st_markDepth = 0, st_lastMarker = 0, st_consume = Consume_8Bit, st_LA = LA_8Bit, st_seek = Seek_8Bit,
      st_substr = Substr_8Bit, st_charByteSize = 1\<rparr>"
  by (simp add: genericSetupStream_def setNewLineChar_def resetStream_def)

text \<open>The marks are the codes of the character U+FEFF.\<close>

lemma mark_codes:
  "utf8_code 0xFEFF = [0xEF, 0xBB, 0xBF]"
  "utf16_bytes True 0xFEFF = [0xFE, 0xFF]" "utf16_bytes False 0xFEFF = [0xFF, 0xFE]"
  "unit_code 4 True 0xFEFF = [0x00, 0x00, 0xFE, 0xFF]" "unit_code 4 False 0xFEFF = [0xFF, 0xFE, 0x00, 0x00]"
  by (simp_all add: utf8_code_def utf8_nat_def utf16_bytes_def utf16_code_def utf16_nat_def unit_code_def upt_rec)

lemma byte_at: "byte st 0 = (case st_data st of [] \<Rightarrow> None | b # bs \<Rightarrow> Some b)"
  by (cases "st_data st") (simp_all add: byte_def)

lemma utf8_opened:
  assumes "list_all scalar cs"
  shows "\<exists>st. stringStreamNew big (text_of utf8_code (0xFEFF # cs) @ [0]) ENC_UTF8 (length (text_of utf8_code (0xFEFF # cs))) = Some st \<and>
    reads_text big st cs"
proof -
  let ?t = "text_of utf8_code cs"
  define st where "st = setupUTF8 (advance 3 (genericSetupStream ([0xEF, 0xBB, 0xBF] @ ?t @ [0]) (length ([0xEF, 0xBB, 0xBF :: UTF8] @ ?t))))"
  have "stringStreamNew big (text_of utf8_code (0xFEFF # cs) @ [0]) ENC_UTF8 (length (text_of utf8_code (0xFEFF # cs))) = Some st"
    by (simp add: stringStreamNew_def setupInputStream_def mark_codes byte_def st_def Let_def)
  moreover have "set_utf8.holds_text st cs"
    unfolding set_utf8.holds_text_def using assms
    by (simp add: st_def setupUTF8_def advance_def installed_def unread_def)
  from far_utf8.reads_all [OF this refl refl] have "reads_text big st cs" by (simp add: st_def setupUTF8_def advance_def)
  ultimately show ?thesis by blast
qed

lemma utf16_opened:
  assumes "list_all scalar cs"
  shows "\<exists>st. fileStreamNew big (Some (text_of (utf16_bytes big) (0xFEFF # cs))) ENC_UTF16 = Some (Some st) \<and> reads_text big st cs"
proof -
  let ?t = "text_of (utf16_bytes big) cs"
  define st where "st = setupUTF16 big big (advance 2 (genericSetupStream (utf16_bytes big 0xFEFF @ ?t) (length (utf16_bytes big 0xFEFF @ ?t))))"
  have "fileStreamNew big (Some (text_of (utf16_bytes big) (0xFEFF # cs))) ENC_UTF16 = Some (Some st)"
    by (cases big) (simp_all add: fileStreamNew_def setupInputStream_def mark_codes byte_def st_def Let_def)
  moreover have "set_utf16.holds_text big st cs"
    unfolding set_utf16.holds_text_def using assms
    by (cases big) (simp_all add: mark_codes st_def setupUTF16_def advance_def installed_def unread_def Let_def)
  from far_utf16.reads_all [OF this refl refl] have "reads_text big st cs" by (simp add: st_def setupUTF16_def advance_def Let_def)
  ultimately show ?thesis by blast
qed

lemma utf32_opened:
  assumes "list_all scalar cs"
  shows "\<exists>st. fileStreamNew big (Some (text_of (unit_code 4 True) (0xFEFF # cs))) ENC_UTF32 = Some (Some st) \<and> predicts big st cs"
proof -
  let ?t = "text_of (unit_code 4 True) cs"
  define st where "st = setupUTF32 big True (advance 4 (genericSetupStream ([0x00, 0x00, 0xFE, 0xFF] @ ?t) (length ([0x00, 0x00, 0xFE, 0xFF :: UTF8] @ ?t))))"
  have "fileStreamNew big (Some (text_of (unit_code 4 True) (0xFEFF # cs))) ENC_UTF32 = Some (Some st)"
    by (simp add: fileStreamNew_def setupInputStream_def mark_codes byte_def st_def Let_def)
  moreover have "set_utf32.holds_text True big st cs"
    unfolding set_utf32.holds_text_def using assms
    by (cases big) (simp_all add: st_def setupUTF32_def advance_def installed_def unread_def Let_def LA_UTF32_for_def)
  from set_utf32.predict_text [OF _ this] have "predicts big st cs" by (simp add: predicts_def)
  ultimately show ?thesis by blast
qed

text \<open>
  C32: a text of Unicode characters, below 4 GiB, is read as its characters: after a byte order mark in UTF-8 in memory with a terminator behind it, or as a file in UTF-16 in
  the order of the machine, every lookahead shows the character at that place or the end of the stream, every automaton computes its function of the
  characters, and consuming them all reaches the end with the lines counted. As a file in big endian UTF-32 the automata read it on machines of either order.\<close>

theorem opened_text_read:
  assumes "list_all scalar cs"
  shows "(\<exists>st. stringStreamNew big (text_of utf8_code (0xFEFF # cs) @ [0]) ENC_UTF8 (length (text_of utf8_code (0xFEFF # cs))) = Some st \<and>
      reads_text big st cs) \<and>
    (\<exists>st. fileStreamNew big (Some (text_of (utf16_bytes big) (0xFEFF # cs))) ENC_UTF16 = Some (Some st) \<and> reads_text big st cs) \<and>
    (\<exists>st. fileStreamNew big (Some (text_of (unit_code 4 True) (0xFEFF # cs))) ENC_UTF32 = Some (Some st) \<and> predicts big st cs)"
  using utf8_opened [OF assms] utf16_opened [OF assms] utf32_opened [OF assms] by blast

text \<open>A letter, the end of a line and a character behind the basic multilingual plane.\<close>

theorem opened_text_read_witness:
  "(\<exists>st. stringStreamNew False [0xEF, 0xBB, 0xBF, 0x68, 0x0A, 0xF0, 0x9F, 0x98, 0x80, 0] ENC_UTF8 9 = Some st \<and>
      reads_text False st [0x68, 0x0A, 0x1F600]) \<and>
   (\<exists>st. fileStreamNew False (Some [0xFF, 0xFE, 0x68, 0, 0x0A, 0, 0x3D, 0xD8, 0, 0xDE]) ENC_UTF16 = Some (Some st) \<and>
      reads_text False st [0x68, 0x0A, 0x1F600]) \<and>
   (\<exists>st. fileStreamNew False (Some [0, 0, 0xFE, 0xFF, 0, 0, 0, 0x68, 0, 0, 0, 0x0A, 0, 1, 0xF6, 0]) ENC_UTF32 = Some (Some st) \<and>
      predicts False st [0x68, 0x0A, 0x1F600])"
proof -
  have "list_all scalar [0x68, 0x0A, 0x1F600]" by (simp add: scalar_unat)
  note r = opened_text_read [OF this, of False]
  have t: "text_of utf8_code [0xFEFF, 0x68, 0x0A, 0x1F600] = [0xEF, 0xBB, 0xBF, 0x68, 0x0A, 0xF0, 0x9F, 0x98, 0x80]"
    "text_of (utf16_bytes False) [0xFEFF, 0x68, 0x0A, 0x1F600] = [0xFF, 0xFE, 0x68, 0, 0x0A, 0, 0x3D, 0xD8, 0, 0xDE]"
    "text_of (unit_code 4 True) [0xFEFF, 0x68, 0x0A, 0x1F600] = [0, 0, 0xFE, 0xFF, 0, 0, 0, 0x68, 0, 0, 0, 0x0A, 0, 1, 0xF6, 0]"
    by (simp_all add: utf8_code_def utf8_nat_def utf16_bytes_def utf16_code_def utf16_nat_def unit_code_def upt_rec)
  show ?thesis using r unfolding t by (simp add: eval_nat_numeral)
qed

section \<open>Where the wide streams fail\<close>

lemma read_unit_outside: "int (length (st_data st)) < p + int n \<Longrightarrow> wide_read n big st p = None"
  by (simp add: wide_read_def bytes_def)

text \<open>
  C37: a file in UTF-16 whose mark says that it has the other byte order is opened, but its characters cannot be read: with less than eight
  octets of text the lookahead of one character reads memory outside of the buffer.\<close>

theorem utf16_foreign_unreadable:
  assumes "cs \<noteq> []" "length (text_of (utf16_bytes (\<not> big)) cs) < 8"
  shows "\<exists>st. fileStreamNew big (Some (text_of (utf16_bytes (\<not> big)) (0xFEFF # cs))) ENC_UTF16 = Some (Some st) \<and> stream_LA big st 1 = None"
proof -
  let ?t = "text_of (utf16_bytes (\<not> big)) cs"
  define st where "st = setupUTF16 big (\<not> big) (advance 2 (genericSetupStream (utf16_bytes (\<not> big) 0xFEFF @ ?t) (length (utf16_bytes (\<not> big) 0xFEFF @ ?t))))"
  have "fileStreamNew big (Some (text_of (utf16_bytes (\<not> big)) (0xFEFF # cs))) ENC_UTF16 = Some (Some st)"
    by (cases big) (simp_all add: fileStreamNew_def setupInputStream_def mark_codes byte_def st_def Let_def)
  moreover have d: "st_data st = utf16_bytes (\<not> big) 0xFEFF @ ?t" "st_nextChar st = 2" "st_sizeBuf st = 2 + length ?t"
    by (cases big; simp add: st_def setupUTF16_def advance_def Let_def mark_codes)+
  have "length (utf16_bytes (\<not> big) 0xFEFF) = 2" by (cases big) (simp_all add: mark_codes)
  then have o: "wide_read 4 big st (2 + 4) = None" using d assms(2) by (intro read_unit_outside) simp
  obtain c ds where "cs = c # ds" using assms(1) by (cases cs) auto
  then have "0 < length ?t" using utf16_code_nonempty [of c] length_utf16_bytes [of "\<not> big" c] by simp
  then have e: "\<not> buffer_end st 2" by (simp add: buffer_end_def d(3))
  have "stream_LA big st 1 = None"
  proof (cases big)
    case True
    then have "stream_LA big st 1 = laUTF16LE big st 1" by (simp add: stream_LA_def st_def setupUTF16_def advance_def Let_def)
    with o e d(2) show ?thesis by (simp add: laUTF16LE_def la16_def)
  next
    case False
    then have "stream_LA big st 1 = laUTF16BE big st 1" by (simp add: stream_LA_def st_def setupUTF16_def advance_def Let_def)
    with o e d(2) show ?thesis by (simp add: laUTF16BE_def la16_def)
  qed
  ultimately show ?thesis by blast
qed

text \<open>The big endian text of one letter on a little endian machine.\<close>

theorem utf16_foreign_unreadable_witness:
  "\<exists>st. fileStreamNew False (Some [0xFE, 0xFF, 0, 0x68]) ENC_UTF16 = Some (Some st) \<and> stream_LA False st 1 = None"
proof -
  have t: "utf16_bytes True 0x68 = [0, 0x68]" by (simp add: utf16_bytes_def utf16_code_def utf16_nat_def unit_code_def upt_rec)
  then show ?thesis using utf16_foreign_unreadable [of "[0x68]" False] by (simp add: mark_codes)
qed

text \<open>
  The little endian mark of UTF-32 is not recognized, because the second byte is compared with three values: the first character is the
  mark, or the mark with its bytes swapped.
\<close>

theorem utf32_le_mark_missed:
  "\<exists>st. fileStreamNew big (Some (text_of (unit_code 4 False) (0xFEFF # cs))) ENC_UTF32 = Some (Some st) \<and>
     stream_LA big st 1 = Some (if big then 0xFFFE0000 else 0xFEFF)"
proof -
  let ?t = "text_of (unit_code 4 False) cs"
  define st where "st = setupUTF32 big big (genericSetupStream (unit_code 4 False 0xFEFF @ ?t) (length (unit_code 4 False 0xFEFF @ ?t)))"
  have "fileStreamNew big (Some (text_of (unit_code 4 False) (0xFEFF # cs))) ENC_UTF32 = Some (Some st)"
    by (simp add: fileStreamNew_def setupInputStream_def mark_codes byte_def st_def Let_def)
  moreover have f: "stream_LA big st la = laUTF32 big st la" "in_buffer st" "unread st = unit_code 4 False 0xFEFF @ ?t" "st_nextChar st = 0" for la
    by (simp_all add: st_def setupUTF32_def stream_LA_def in_buffer_def unread_def Let_def)
  have "wide_read 4 big st 0 = Some (if big then 0xFFFE0000 else 0xFEFF)"
    using read_swapped [OF f(2,3), of big] f(4) by (simp add: swap32_def)
  moreover have "\<not> buffer_end st 0" by (simp add: buffer_end_def st_def setupUTF32_def Let_def)
  ultimately show ?thesis by (auto simp: f laUTF32_def la32_def)
qed

text \<open>A seek forwards of the wide streams stays where it is.\<close>

theorem wide_seek_stays:
  assumes "st_nextChar st < seekPoint" "stream_LA big st 1 = Some c"
  shows "seekUTF16 big st seekPoint = Some st" "seekUTF32 big st seekPoint = Some st"
  using assms by (simp_all add: seekUTF16_def seekUTF32_def seek_loop.simps)

text \<open>At the last character of a UTF-32 text, the lookahead of two characters reads outside of the buffer, and does not see the end.\<close>

theorem utf32_looks_outside:
  assumes "installed (LA_UTF32_for big inputBig) Consume_UTF32 0 st" "unread st = unit_code 4 inputBig c"
    "length (st_data st) = st_sizeBuf st"
  shows "stream_LA big st 2 = None"
proof -
  note b = installed_in_buffer [OF assms(1)]
  have "st_nextChar st + 4 = int (st_sizeBuf st)" using length_unread [OF b] assms(2) by simp
  then have "wide_read 4 big st (st_nextChar st + 4) = None" "\<not> buffer_end st (st_nextChar st + 2 - 1)"
    using assms(3) by (simp_all add: read_unit_outside buffer_end_def)
  then have "la32 f big st 2 = None" for f by (simp add: la32_def)
  then show ?thesis using assms(1)
    by (auto simp: stream_LA_def installed_def LA_UTF32_for_def laUTF32_def laUTF32LE_def laUTF32BE_def)
qed

text \<open>At the end of a UTF-8 file the lookahead reads the byte behind the buffer.\<close>

theorem utf8_end_outside:
  assumes "installed LA_UTF8 Consume_UTF8 0 st" "unread st = []" "length (st_data st) = st_sizeBuf st"
  shows "stream_LA big st 1 = None"
proof -
  have "st_nextChar st = int (st_sizeBuf st)" using length_unread [OF installed_in_buffer [OF assms(1)]] assms(2) by simp
  then have "byte st (st_nextChar st) = None" using assms(3) by (simp add: byte_def)
  with assms(1) show ?thesis by (simp add: stream_LA_def installed_def laUTF8_def)
qed

text \<open>The newline of EBCDIC is shown as a newline, but its line is not counted.\<close>

theorem ebcdic_newline_missed:
  assumes "installed LA_EBCDIC Consume_8Bit 0 st" "unread st = 0x15 # us" "st_newlineChar st = 0x0A"
  shows "stream_LA big st 1 = Some 0x0A" "\<exists>st'. stream_consume big st = Some st' \<and> st_line st' = st_line st"
proof -
  note b = installed_in_buffer [OF assms(1)]
  have "e2a ! 21 = 0x0A" by (simp add: e2a_def)
  then show "stream_LA big st 1 = Some 0x0A" using assms(1) la_byte_here(2) [OF b assms(2)] by (simp add: stream_LA_def installed_def laEBCDIC_def)
  show "\<exists>st'. stream_consume big st = Some st' \<and> st_line st' = st_line st"
    using assms consume8Bit_here(2) [OF b assms(2)] by (simp add: stream_consume_def installed_def count_char_def)
qed

end
