(* ===== verification/Spec2Isabelle.thy ===== *)
theory Spec2Isabelle
  imports RM_Reader RM_Queue RM_Main RM_Clock Antlr_Topo Antlr_Memo Antlr_TokenTools Antlr_Factory Antlr_Streams
begin

text \<open>
  The repository manager is a server that decides requests by the logic of Binder. A client connects and sends a
  credential: its public key and certificates, each a list of clauses with a time of validity, signed by the key of
  whoever vouches for them. The server checks the signatures, sends a challenge that the client has to sign,
  writes the clauses of the client, attributed to the keys that signed them, beside its own policy into a file,
  and then answers requests by running a Prolog system on that file. The parts of the program are headers of C++ under
  \<^verbatim>\<open>src/src\<close>, a lexer and a parser that ANTLR generated from \<^verbatim>\<open>RepositoryManager.g\<close>, and the C run time of ANTLR
  under \<^verbatim>\<open>src/antlr/libantlr3c-3.4\<close>, on which these run.

  \<^bold>\<open>How the model is built.\<close> A class or struct is a record, an enumeration a datatype, a function one definition of
  the same name, with the statements in the order of the source. What the code can fail with is a value: \<open>'a res\<close> is
  an error (\<open>Out_Of_Range\<close>, \<open>Null_Pointer\<close>, \<open>Bad_Index\<close>, \<open>Uninitialised\<close>, \<open>Killed\<close>) or a result. A loop that may run for ever is
  a \<open>partial_function (option)\<close>, in which \<open>None\<close> is a run that does not return; no definition of the program's own code
  has fuel. \<^verbatim>\<open>size_t\<close> arithmetic is on natural numbers with the wrap-around at 64 bits written out, as are the \<^verbatim>\<open>npos\<close>
  results of searches; nanoseconds, hash values, keys of tries and the words of bit sets are machine words; the numbers of words and bits
  of bit sets and the sizes of the topological sorter wrap around at 32 bits; doubles are
  rationals that are rounded after every operation. Operating system, OpenSSL and the query process are
  arguments: records of functions whose documented behaviour is assumed where a theorem needs it, by name.

  \<^bold>\<open>The program.\<close>

  \<^item> \<open>RM_Prelude\<close>: errors, their sequencing, the used part of \<^verbatim>\<open>std::string\<close>, and the lemmas the components share.
  \<^item> \<open>RM_Rule\<close> (\<^verbatim>\<open>utils/Rule.h\<close>), \<open>RM_Utils\<close> (\<^verbatim>\<open>utils/RepositoryManagerUtils.h\<close>), \<open>RM_Policy\<close> (\<^verbatim>\<open>utils/Policy.h\<close>): rules cut into
    head, body and literals; trimming and times; the policy file read into facts and rules. Shown: the cut gives the
    literals of a rule, the reader the clauses of a policy printed one per line, and on which texts it leaves the string.
  \<^item> \<open>RM_Credential\<close> (\<^verbatim>\<open>utils/Certificate.h\<close>, \<^verbatim>\<open>utils/Credential.h\<close>): certificates and credentials. Shown: the signed text
    determines what it certifies, \<^verbatim>\<open>finalize\<close> returns.
  \<^item> \<open>RM_Security\<close> (\<^verbatim>\<open>utils/SecurityService.h\<close>): signatures, digests, the translation of clauses into Binder statements, queries.
    Shown: what a verified credential guarantees and to which key every clause is attributed, what unreadable keys
    let through, how rules are translated, which query a request becomes and what counts as granted.
  \<^item> \<open>RM_Transport\<close> (\<^verbatim>\<open>manager/TransportService.h\<close>): a session of a child process as a state machine over what it receives, and
    the listening loop of the parent. Shown: every step that sends \<^verbatim>\<open>granted\<close> answers the request that it read, whose query
    it ran and which answered yes, for a client whose credential was verified and who answered the challenge under its key; every child sends the same challenge; how long the server listens;
    the receive loops stay inside their buffers.
  \<^item> \<open>RM_Main\<close> (\<^verbatim>\<open>manager/RepositoryManager.cpp\<close>): arguments, socket, destructor. Shown: when validity is enforced, and that a
    failed bind leads to the use of a flag that was never set.
  \<^item> \<open>RM_AstWalker\<close> (\<^verbatim>\<open>manager/AstWalker.h\<close>): from the tree of the parser to a credential; on which trees the loops do not end.
  \<^item> \<open>RM_Double\<close>, \<open>RM_Timer\<close>, \<open>RM_Clock\<close> (\<^verbatim>\<open>utils/Timer.h\<close>): rounding, the timer of the server and the fallback timer. Shown: the timer
    is a stopwatch, in what each of its operations returns, its test in doubles is the test on integers, its readings are at most 128 ns off.
  \<^item> \<open>RM_Queue\<close> (\<^verbatim>\<open>utils/FifoQueue.h\<close>): the linked queue on an explicit heap, and its use by threads as an inductive step
    relation. Shown: it refines a list, is safe with one consumer and crashes with two.

  \<^bold>\<open>Generated code.\<close> \<open>RM_Lexer_Tables\<close>, \<open>RM_Lexer\<close>, \<open>RM_Words\<close>, \<open>RM_Lexer_Types\<close>, \<open>RM_Lexemes\<close> model \<^verbatim>\<open>parser/RepositoryManagerLexer.c\<close>: the arrays of
  the automaton number by number, one definition per token rule; a text written as lexemes is read as these lexemes, and whatever the text, a token has a text of
  its type and its channel.
  \<open>RM_Parser_Tables\<close>, \<open>RM_Parser\<close>, \<open>RM_Parser_Returns\<close>, \<open>RM_Grammar\<close> model \<^verbatim>\<open>parser/RepositoryManagerParser.c\<close>: one definition per rule
  with its error handling; it returns for every list of tokens, and on the tokens of the grammar, which is
  defined independently, it builds the tree of the rewrite rules. \<open>RM_Reader\<close> composes lexer, parser and walker:
  the text of a credential is read as that credential and its sender is served, and which texts are never read to an end.

  \<^bold>\<open>Run time of ANTLR.\<close>

  \<^item> \<open>Antlr_Input\<close> (\<^verbatim>\<open>antlr3inputstream.c\<close>, \<^verbatim>\<open>antlr3cyclicdfa.c\<close>), \<open>Antlr_Lexer\<close> (\<^verbatim>\<open>antlr3lexer.c\<close>), \<open>Antlr_TokenStream\<close> and \<open>Antlr_TokenTools\<close>
    (\<^verbatim>\<open>antlr3tokenstream.c\<close>): the interface \<open>int_stream\<close>, on which the automata run, has the characters and the tokens as
    its two instances; the interface \<open>token_rules\<close>, on which the run time of the lexer relies, has the generated rules.
  \<^item> \<open>Antlr_Tree\<close> (\<^verbatim>\<open>antlr3basetree.c\<close>, \<^verbatim>\<open>antlr3commontree.c\<close> and their adaptors), \<open>Antlr_Parser\<close> and \<open>Antlr_Progress\<close>
    (\<^verbatim>\<open>antlr3baserecognizer.c\<close>, \<^verbatim>\<open>antlr3rewritestreams.c\<close>): trees, matching, recovery, follow sets, rewrite streams, and the
    potential that makes the recovery end.
  \<^item> \<open>Antlr_Bitset\<close> (\<^verbatim>\<open>antlr3bitset.c\<close>): sets on arrays of words (interface \<open>number_set\<close>); the follow sets of the recognizer's model are
    those that the arrays hold.
  \<^item> \<open>Antlr_Vector\<close>, \<open>Antlr_Hash\<close>, \<open>Antlr_Trie\<close>, \<open>Antlr_Topo\<close> (\<^verbatim>\<open>antlr3collections.c\<close>): growing arrays and stacks (\<open>stack_of\<close>), hash tables
    with text or number keys (\<open>dictionary\<close>, with two instances), Patricia tries on a store of nodes with back pointers
    (\<open>key_map\<close>), the topological sorter. Each refines its abstract counterpart: a list, a collection per key, a
    map, an order without cycles.
  \<^item> \<open>Antlr_Memo\<close> (\<^verbatim>\<open>antlr3baserecognizer.c\<close>): the memory of a backtracking recognizer on the tries, through their interface. A rule is
    skipped only to where it stopped before, and what was remembered is found.
  \<^item> \<open>Antlr_Utf\<close> (\<^verbatim>\<open>antlr3convertutf.c\<close>): the converters between UTF-8, UTF-16 and UTF-32 (\<open>converter\<close>, with six instances, and
    \<open>checking_converter\<close>, with four). Forth and back gives the text again; the decoder of UTF-8 accepts exactly the well-formed
    texts, but for a byte below 0x80 after 0xED or 0xF4, which it swallows.
  \<^item> \<open>Antlr_String\<close> and \<open>Antlr_Factory\<close> (\<^verbatim>\<open>antlr3string.c\<close>): strings of 8 and 16 bit units on buffers of memory cells (\<open>text_buffer\<close>, for
    arguments of the string's own width and for bytes), and the factories that own them, with their life as an inductive
    relation. Strings implement lists; a factory frees every string once; parts of strings and the conversion to
    UTF-8 do what they should but at the end of the text.
  \<^item> \<open>Antlr_Charsets\<close> and \<open>Antlr_Streams\<close> (\<^verbatim>\<open>antlr3inputstream.c\<close>, \<^verbatim>\<open>antlr3filestream.c\<close>): the input stream for all character sets, on
    bytes of memory with bounds, for machines of either byte order. The interfaces \<open>encoded_stream\<close>, \<open>line_stream\<close> and
    \<open>lookahead_stream\<close> say what a reader relies on and give \<open>int_stream\<close>, so that the automata read the characters of a text; 8 bit characters,
    UTF-8, UTF-16 and UTF-32 are instances as far as they keep the promises. A mark is restored after whatever happens above it. UTF-16 of the other
    byte order cannot be read, the little endian mark of UTF-32 is missed, and wide streams do not seek forwards. The stream of \<open>Antlr_Input\<close>, which
    the lexer uses, is represented by the 8 bit stream.

  \<^bold>\<open>Bounds.\<close> Texts are assumed to fit into memory, that is to be shorter than \<^verbatim>\<open>npos\<close>; counters of the run time that count
  allocated things are natural numbers, the size of the queue is an integer. A vector stays below the 32 bits of its size in fewer than
  \<open>2 ^ 31\<close> operations, as its theorem says; input streams are modelled for texts below 4 GiB, tries for depths up to 63, token types and
  the nodes of the sorter below \<open>2 ^ 31\<close>. The two definitions with fuel, \<open>show_nat_aux\<close> with 20 digits and \<open>add_data\<close> with one round more than
  there are entries, have more than they can use: a 64 bit number has at most 20 digits, and an enumeration
  gives every entry once. Clock readings are meant to be before the year 2043, up to which the double arithmetic is exact enough.

  \<^bold>\<open>Not modelled.\<close> XSB (\<^verbatim>\<open>src/XSB\<close>) is a third-party Prolog system that the program starts as a process of its own: its
  output is an argument of \<open>executeQuery\<close>. Mutexes are the atomicity of the steps in \<open>RM_Queue\<close>. Console output, the printing
  of timers, node, token and vector pools and the release of memory, where nothing depends on it, are left out. Of
  the run time of ANTLR tree parsers and
  their node streams, the debugger's entry points and the texts of error messages, which the program does not reach or not
  use, have no model. Outside \<open>Antlr_String\<close> and \<open>Antlr_Factory\<close> a string of the run time is a list, which is what these two theories
  show it to implement.
\<close>

section \<open>Messages and the text of their tokens\<close>

text \<open>
  C31: the token stream of a message gives back the message: if the text is a sequence of one to \<open>2 ^ 32 - 1\<close> lexemes, set apart
  where two of them would be read as one, the lexer fills the buffer with tokens whose texts, hidden ones included, are together
  the text that was read. A message with a character outside the alphabet is never read to its end, line ends of two
  characters lose characters, and for a stream without tokens the loop does not end: these have theorems of their own.
\<close>

theorem stream_text_roundtrip:
  assumes "well_spaced ls []" "ls \<noteq> []" "length ls < 2 ^ 32"
  shows "\<exists>ts lx'. fillBuffer mTokens (lexer_new (render ls)) [] = Some (ts, lx') \<and> ts_toString (token_stream_new ts) = Some (render ls)"
proof -
  obtain ts lx' where ts: "fillBuffer mTokens (lexer_new (render ls)) [] = Some (ts, lx')" "map token_view ts = map lexeme_token ls"
    using buffer_of_lexemes [OF assms(1)] by blast
  have l: "length ts = length ls" using ts(2) by (metis length_map)
  then have "ts \<noteq> []" using assms(2) by auto
  moreover have "map tk_text ts = map lexeme_text ls"
    using arg_cong [OF ts(2), of "map (\<lambda>(_, x, _). x)"] by (simp add: token_view_def lexeme_token_def comp_def)
  ultimately have "ts_toString (token_stream_new ts) = Some (render ls)"
    using ts_toString_text [of "token_stream_new ts"] l assms(3) by (simp add: token_stream_new_def render_def)
  with ts(1) show ?thesis by blast
qed

theorem stream_text_roundtrip_witness:
  "\<exists>ts lx'. fillBuffer mTokens (lexer_new (render example_lexemes)) [] = Some (ts, lx') \<and>
    ts_toString (token_stream_new ts) = Some (render example_lexemes)"
  by (rule stream_text_roundtrip [OF example_spaced]) (simp_all add: example_lexemes_def)

end
